(* ===== verification/Prelude.thy ===== *)
theory Prelude
  imports Main "HOL-Library.Word" "HOL-Library.Monad_Syntax"
begin

unbundle bit_operations_syntax

text \<open>
  What every component of the development shares: the machine types of the C sources
  (\<open>uint8_t\<close>, \<open>uint32_t\<close>, character strings), bounds-checked access to C arrays, the
  functions of \<open>string.h\<close> and \<open>ctype.h\<close> that the sources call, and the lemma collections
  that carry the component proofs.

  Conventions. A C array or memory block is a list of bytes; an access outside it is undefined
  behaviour and is the value \<open>None\<close> of an option, so \<open>None\<close> never stands for an error code.
  A C string is the list of its bytes without the terminating NUL; a memory block that holds
  one is read with \<open>cstr_of\<close>.
\<close>

section \<open>Types and lemma collections\<close>

type_synonym byte = "8 word"
type_synonym u32 = "32 word"
type_synonym u64 = "64 word"
type_synonym cstr = "byte list"

named_theorems carr_simps \<open>array access and update within bounds\<close>
named_theorems cstr_simps \<open>closed forms of the string functions\<close>
named_theorems frame_simps \<open>fields an operation leaves alone\<close>

definition lit :: "string \<Rightarrow> cstr" where
  "lit s = map of_char s"

section \<open>Arrays with bounds checks\<close>

definition arr_get :: "'a list \<Rightarrow> nat \<Rightarrow> 'a option" where
  "arr_get xs i = (if i < length xs then Some (xs ! i) else None)"

definition arr_slice :: "'a list \<Rightarrow> nat \<Rightarrow> nat \<Rightarrow> 'a list option" where
  "arr_slice xs i n = (if i + n \<le> length xs then Some (take n (drop i xs)) else None)"

definition arr_put :: "'a list \<Rightarrow> nat \<Rightarrow> 'a list \<Rightarrow> 'a list option" where
  "arr_put xs i ys =
     (if i + length ys \<le> length xs then Some (take i xs @ ys @ drop (i + length ys) xs) else None)"

lemma arr_get_Some [carr_simps]: "i < length xs \<Longrightarrow> arr_get xs i = Some (xs ! i)"
  by (simp add: arr_get_def)

lemma arr_slice_Some [carr_simps]:
  "i + n \<le> length xs \<Longrightarrow> arr_slice xs i n = Some (take n (drop i xs))"
  by (simp add: arr_slice_def)

lemma arr_put_Some [carr_simps]:
  "i + length ys \<le> length xs \<Longrightarrow>
     arr_put xs i ys = Some (take i xs @ ys @ drop (i + length ys) xs)"
  by (simp add: arr_put_def)

lemma arr_put_None [carr_simps]: "length xs < i + length ys \<Longrightarrow> arr_put xs i ys = None"
  by (simp add: arr_put_def)

lemma arr_put_length: "arr_put xs i ys = Some zs \<Longrightarrow> length zs = length xs"
  by (auto simp: arr_put_def split: if_splits)

lemma arr_put_nth_other:
  "arr_put xs i ys = Some zs \<Longrightarrow> k < i \<or> i + length ys \<le> k \<Longrightarrow> k < length xs \<Longrightarrow> zs ! k = xs ! k"
  by (auto simp: arr_put_def nth_append split: if_splits)

lemma arr_put_slice:
  "arr_put xs i ys = Some zs \<Longrightarrow> take (length ys) (drop i zs) = ys"
  by (auto simp: arr_put_def split: if_splits)

lemma arr_put_take:
  "arr_put xs i ys = Some zs \<Longrightarrow> n \<le> i \<Longrightarrow> take n zs = take n xs"
  by (auto simp: arr_put_def min_def split: if_splits)

section \<open>Strings\<close>

text \<open>The C string at the start of a memory block: the bytes before the first NUL.\<close>

definition cstr_of :: "byte list \<Rightarrow> cstr" where
  "cstr_of m = takeWhile (\<lambda>b. b \<noteq> 0) m"

definition nul_free :: "byte list \<Rightarrow> bool" where
  "nul_free s \<longleftrightarrow> 0 \<notin> set s"

lemma nul_free_cstr_of [simp]: "nul_free (cstr_of m)"
  by (auto simp: nul_free_def cstr_of_def dest: set_takeWhileD)

lemma cstr_of_nul_free [cstr_simps]: "nul_free s \<Longrightarrow> cstr_of (s @ 0 # r) = s"
  unfolding nul_free_def cstr_of_def by (subst takeWhile_append2) auto

lemma cstr_of_id [cstr_simps]: "nul_free s \<Longrightarrow> cstr_of s = s"
  by (auto simp: nul_free_def cstr_of_def takeWhile_eq_all_conv)

lemma nul_free_append [simp]: "nul_free (a @ b) \<longleftrightarrow> nul_free a \<and> nul_free b"
  by (auto simp: nul_free_def)

lemma nul_free_Nil [simp]: "nul_free []"
  by (simp add: nul_free_def)

lemma nul_free_Cons [simp]: "nul_free (x # xs) \<longleftrightarrow> x \<noteq> 0 \<and> nul_free xs"
  by (auto simp: nul_free_def)

lemma nul_free_take: "nul_free s \<Longrightarrow> nul_free (take n s)"
  by (auto simp: nul_free_def dest: in_set_takeD)

text \<open>
  \<open>strncmp (a, b, n) == 0\<close> on C strings: the end of a list is the terminating NUL.
\<close>

fun strncmp_eq :: "cstr \<Rightarrow> cstr \<Rightarrow> nat \<Rightarrow> bool" where
  "strncmp_eq a b 0 = True"
| "strncmp_eq [] [] (Suc n) = True"
| "strncmp_eq [] (b # bs) (Suc n) = False"
| "strncmp_eq (a # as) [] (Suc n) = False"
| "strncmp_eq (a # as) (b # bs) (Suc n) = (a = b \<and> strncmp_eq as bs n)"

lemma strncmp_eq_take [cstr_simps]: "strncmp_eq a b n \<longleftrightarrow> take n a = take n b"
  by (induction a b n rule: strncmp_eq.induct) auto

text \<open>
  \<open>strncpy (dst, src, n)\<close> writes exactly \<open>n\<close> bytes: the string, cut at \<open>n\<close>, and NULs after it.
\<close>

definition strncpy :: "byte list \<Rightarrow> cstr \<Rightarrow> nat \<Rightarrow> byte list option" where
  "strncpy dst src n = arr_put dst 0 (take n src @ replicate (n - length src) 0)"

lemma strncpy_Some [cstr_simps]:
  "n \<le> length dst \<Longrightarrow>
     strncpy dst src n = Some (take n src @ replicate (n - length src) 0 @ drop n dst)"
  by (auto simp: strncpy_def arr_put_def min_def)

lemma strncpy_None: "length dst < n \<Longrightarrow> strncpy dst src n = None"
  by (auto simp: strncpy_def arr_put_def min_def)

section \<open>Little-endian words\<close>

definition le_bytes :: "u32 \<Rightarrow> byte list" where
  "le_bytes w = [ucast w, ucast (drop_bit 8 w), ucast (drop_bit 16 w), ucast (drop_bit 24 w)]"

definition le_word :: "byte \<Rightarrow> byte \<Rightarrow> byte \<Rightarrow> byte \<Rightarrow> u32" where
  "le_word b0 b1 b2 b3 =
     (let x = ucast b3 :: u32;
          x = push_bit 8 x + ucast b2;
          x = push_bit 8 x + ucast b1
      in push_bit 8 x + ucast b0)"

lemma length_le_bytes [simp]: "length (le_bytes w) = 4"
  by (simp add: le_bytes_def)

lemma byte_bitD: "bit (b :: byte) n \<Longrightarrow> n < 8"
  using bit_imp_le_length [of b n] by simp

lemma byte_bit_ge: "8 \<le> n \<Longrightarrow> \<not> bit (b :: byte) n"
  using byte_bitD [of b n] by auto

lemma u32_bitD: "bit (w :: u32) n \<Longrightarrow> n < 32"
  using bit_imp_le_length [of w n] by simp

lemma push_bit_8_add: "push_bit 8 (x :: u32) + ucast (b :: byte) = push_bit 8 x OR ucast b"
  by (rule disjunctive_add) (auto simp: bit_simps dest: bit_imp_le_length)

lemma le_word_bytes:
  "le_word (ucast w) (ucast (drop_bit 8 w)) (ucast (drop_bit 16 w)) (ucast (drop_bit 24 w)) = w"
proof (rule bit_word_eqI)
  fix n
  assume "n < LENGTH(32)"
  consider "n < 8" | "8 \<le> n" "n < 16" | "16 \<le> n" "n < 24" | "24 \<le> n" by linarith
  then show "bit (le_word (ucast w) (ucast (drop_bit 8 w)) (ucast (drop_bit 16 w))
      (ucast (drop_bit 24 w))) n = bit w n"
    using \<open>n < LENGTH(32)\<close> unfolding le_word_def Let_def push_bit_8_add
    by cases (auto simp: bit_simps)
qed

lemma le_bytes_word: "le_bytes (le_word b0 b1 b2 b3) = [b0, b1, b2, b3]"
  unfolding le_bytes_def le_word_def Let_def push_bit_8_add
  by (auto intro!: bit_word_eqI simp: bit_simps byte_bit_ge dest: byte_bitD)

lemma le_word_inj:
  "le_word b0 b1 b2 b3 = le_word c0 c1 c2 c3 \<longleftrightarrow> [b0, b1, b2, b3] = [c0, c1, c2, c3]"
  by (auto dest: arg_cong [where f = le_bytes] simp: le_bytes_word)

end
