(* ===== verification/Crc32.thy ===== *)
theory Crc32
  imports Prelude
begin

unbundle bit_operations_syntax

text \<open>
  The two table-driven CRC-32 routines of the repository: \<open>sysvar_crc\<close> of
  \<^verbatim>\<open>src/sysvar/lib/sysvar.c\<close>, whose loop is unrolled eight times, and \<open>crc32\<close> of
  \<^verbatim>\<open>src/dvbutils/crc32.c\<close>. Both are shown equal to the bit-by-bit definition of the
  reflected polynomial \<open>0xEDB88320\<close>; from it follow the error detection that the stored system
  variables rely on and the constant residue that the transport stream checker compares with.
\<close>

section \<open>The tables and the routines\<close>

definition crc_table :: "u32 list" where
  "crc_table = [
     0x00000000, 0x77073096, 0xee0e612c, 0x990951ba, 0x076dc419, 0x706af48f,
     0xe963a535, 0x9e6495a3, 0x0edb8832, 0x79dcb8a4, 0xe0d5e91e, 0x97d2d988,
     0x09b64c2b, 0x7eb17cbd, 0xe7b82d07, 0x90bf1d91, 0x1db71064, 0x6ab020f2,
     0xf3b97148, 0x84be41de, 0x1adad47d, 0x6ddde4eb, 0xf4d4b551, 0x83d385c7,
     0x136c9856, 0x646ba8c0, 0xfd62f97a, 0x8a65c9ec, 0x14015c4f, 0x63066cd9,
     0xfa0f3d63, 0x8d080df5, 0x3b6e20c8, 0x4c69105e, 0xd56041e4, 0xa2677172,
     0x3c03e4d1, 0x4b04d447, 0xd20d85fd, 0xa50ab56b, 0x35b5a8fa, 0x42b2986c,
     0xdbbbc9d6, 0xacbcf940, 0x32d86ce3, 0x45df5c75, 0xdcd60dcf, 0xabd13d59,
     0x26d930ac, 0x51de003a, 0xc8d75180, 0xbfd06116, 0x21b4f4b5, 0x56b3c423,
     0xcfba9599, 0xb8bda50f, 0x2802b89e, 0x5f058808, 0xc60cd9b2, 0xb10be924,
     0x2f6f7c87, 0x58684c11, 0xc1611dab, 0xb6662d3d, 0x76dc4190, 0x01db7106,
     0x98d220bc, 0xefd5102a, 0x71b18589, 0x06b6b51f, 0x9fbfe4a5, 0xe8b8d433,
     0x7807c9a2, 0x0f00f934, 0x9609a88e, 0xe10e9818, 0x7f6a0dbb, 0x086d3d2d,
     0x91646c97, 0xe6635c01, 0x6b6b51f4, 0x1c6c6162, 0x856530d8, 0xf262004e,
     0x6c0695ed, 0x1b01a57b, 0x8208f4c1, 0xf50fc457, 0x65b0d9c6, 0x12b7e950,
     0x8bbeb8ea, 0xfcb9887c, 0x62dd1ddf, 0x15da2d49, 0x8cd37cf3, 0xfbd44c65,
     0x4db26158, 0x3ab551ce, 0xa3bc0074, 0xd4bb30e2, 0x4adfa541, 0x3dd895d7,
     0xa4d1c46d, 0xd3d6f4fb, 0x4369e96a, 0x346ed9fc, 0xad678846, 0xda60b8d0,
     0x44042d73, 0x33031de5, 0xaa0a4c5f, 0xdd0d7cc9, 0x5005713c, 0x270241aa,
     0xbe0b1010, 0xc90c2086, 0x5768b525, 0x206f85b3, 0xb966d409, 0xce61e49f,
     0x5edef90e, 0x29d9c998, 0xb0d09822, 0xc7d7a8b4, 0x59b33d17, 0x2eb40d81,
     0xb7bd5c3b, 0xc0ba6cad, 0xedb88320, 0x9abfb3b6, 0x03b6e20c, 0x74b1d29a,
     0xead54739, 0x9dd277af, 0x04db2615, 0x73dc1683, 0xe3630b12, 0x94643b84,
     0x0d6d6a3e, 0x7a6a5aa8, 0xe40ecf0b, 0x9309ff9d, 0x0a00ae27, 0x7d079eb1,
     0xf00f9344, 0x8708a3d2, 0x1e01f268, 0x6906c2fe, 0xf762575d, 0x806567cb,
     0x196c3671, 0x6e6b06e7, 0xfed41b76, 0x89d32be0, 0x10da7a5a, 0x67dd4acc,
     0xf9b9df6f, 0x8ebeeff9, 0x17b7be43, 0x60b08ed5, 0xd6d6a3e8, 0xa1d1937e,
     0x38d8c2c4, 0x4fdff252, 0xd1bb67f1, 0xa6bc5767, 0x3fb506dd, 0x48b2364b,
     0xd80d2bda, 0xaf0a1b4c, 0x36034af6, 0x41047a60, 0xdf60efc3, 0xa867df55,
     0x316e8eef, 0x4669be79, 0xcb61b38c, 0xbc66831a, 0x256fd2a0, 0x5268e236,
     0xcc0c7795, 0xbb0b4703, 0x220216b9, 0x5505262f, 0xc5ba3bbe, 0xb2bd0b28,
     0x2bb45a92, 0x5cb36a04, 0xc2d7ffa7, 0xb5d0cf31, 0x2cd99e8b, 0x5bdeae1d,
     0x9b64c2b0, 0xec63f226, 0x756aa39c, 0x026d930a, 0x9c0906a9, 0xeb0e363f,
     0x72076785, 0x05005713, 0x95bf4a82, 0xe2b87a14, 0x7bb12bae, 0x0cb61b38,
     0x92d28e9b, 0xe5d5be0d, 0x7cdcefb7, 0x0bdbdf21, 0x86d3d2d4, 0xf1d4e242,
     0x68ddb3f8, 0x1fda836e, 0x81be16cd, 0xf6b9265b, 0x6fb077e1, 0x18b74777,
     0x88085ae6, 0xff0f6a70, 0x66063bca, 0x11010b5c, 0x8f659eff, 0xf862ae69,
     0x616bffd3, 0x166ccf45, 0xa00ae278, 0xd70dd2ee, 0x4e048354, 0x3903b3c2,
     0xa7672661, 0xd06016f7, 0x4969474d, 0x3e6e77db, 0xaed16a4a, 0xd9d65adc,
     0x40df0b66, 0x37d83bf0, 0xa9bcae53, 0xdebb9ec5, 0x47b2cf7f, 0x30b5ffe9,
     0xbdbdf21c, 0xcabac28a, 0x53b39330, 0x24b4a3a6, 0xbad03605, 0xcdd70693,
     0x54de5729, 0x23d967bf, 0xb3667a2e, 0xc4614ab8, 0x5d681b02, 0x2a6f2b94,
     0xb40bbe37, 0xc30c8ea1, 0x5a05df1b, 0x2d02ef8d]"

definition crc32_tab :: "u32 list" where
  "crc32_tab = [
     0x00000000, 0x77073096, 0xee0e612c, 0x990951ba, 0x076dc419, 0x706af48f,
     0xe963a535, 0x9e6495a3, 0x0edb8832, 0x79dcb8a4, 0xe0d5e91e, 0x97d2d988,
     0x09b64c2b, 0x7eb17cbd, 0xe7b82d07, 0x90bf1d91, 0x1db71064, 0x6ab020f2,
     0xf3b97148, 0x84be41de, 0x1adad47d, 0x6ddde4eb, 0xf4d4b551, 0x83d385c7,
     0x136c9856, 0x646ba8c0, 0xfd62f97a, 0x8a65c9ec, 0x14015c4f, 0x63066cd9,
     0xfa0f3d63, 0x8d080df5, 0x3b6e20c8, 0x4c69105e, 0xd56041e4, 0xa2677172,
     0x3c03e4d1, 0x4b04d447, 0xd20d85fd, 0xa50ab56b, 0x35b5a8fa, 0x42b2986c,
     0xdbbbc9d6, 0xacbcf940, 0x32d86ce3, 0x45df5c75, 0xdcd60dcf, 0xabd13d59,
     0x26d930ac, 0x51de003a, 0xc8d75180, 0xbfd06116, 0x21b4f4b5, 0x56b3c423,
     0xcfba9599, 0xb8bda50f, 0x2802b89e, 0x5f058808, 0xc60cd9b2, 0xb10be924,
     0x2f6f7c87, 0x58684c11, 0xc1611dab, 0xb6662d3d, 0x76dc4190, 0x01db7106,
     0x98d220bc, 0xefd5102a, 0x71b18589, 0x06b6b51f, 0x9fbfe4a5, 0xe8b8d433,
     0x7807c9a2, 0x0f00f934, 0x9609a88e, 0xe10e9818, 0x7f6a0dbb, 0x086d3d2d,
     0x91646c97, 0xe6635c01, 0x6b6b51f4, 0x1c6c6162, 0x856530d8, 0xf262004e,
     0x6c0695ed, 0x1b01a57b, 0x8208f4c1, 0xf50fc457, 0x65b0d9c6, 0x12b7e950,
     0x8bbeb8ea, 0xfcb9887c, 0x62dd1ddf, 0x15da2d49, 0x8cd37cf3, 0xfbd44c65,
     0x4db26158, 0x3ab551ce, 0xa3bc0074, 0xd4bb30e2, 0x4adfa541, 0x3dd895d7,
     0xa4d1c46d, 0xd3d6f4fb, 0x4369e96a, 0x346ed9fc, 0xad678846, 0xda60b8d0,
     0x44042d73, 0x33031de5, 0xaa0a4c5f, 0xdd0d7cc9, 0x5005713c, 0x270241aa,
     0xbe0b1010, 0xc90c2086, 0x5768b525, 0x206f85b3, 0xb966d409, 0xce61e49f,
     0x5edef90e, 0x29d9c998, 0xb0d09822, 0xc7d7a8b4, 0x59b33d17, 0x2eb40d81,
     0xb7bd5c3b, 0xc0ba6cad, 0xedb88320, 0x9abfb3b6, 0x03b6e20c, 0x74b1d29a,
     0xead54739, 0x9dd277af, 0x04db2615, 0x73dc1683, 0xe3630b12, 0x94643b84,
     0x0d6d6a3e, 0x7a6a5aa8, 0xe40ecf0b, 0x9309ff9d, 0x0a00ae27, 0x7d079eb1,
     0xf00f9344, 0x8708a3d2, 0x1e01f268, 0x6906c2fe, 0xf762575d, 0x806567cb,
     0x196c3671, 0x6e6b06e7, 0xfed41b76, 0x89d32be0, 0x10da7a5a, 0x67dd4acc,
     0xf9b9df6f, 0x8ebeeff9, 0x17b7be43, 0x60b08ed5, 0xd6d6a3e8, 0xa1d1937e,
     0x38d8c2c4, 0x4fdff252, 0xd1bb67f1, 0xa6bc5767, 0x3fb506dd, 0x48b2364b,
     0xd80d2bda, 0xaf0a1b4c, 0x36034af6, 0x41047a60, 0xdf60efc3, 0xa867df55,
     0x316e8eef, 0x4669be79, 0xcb61b38c, 0xbc66831a, 0x256fd2a0, 0x5268e236,
     0xcc0c7795, 0xbb0b4703, 0x220216b9, 0x5505262f, 0xc5ba3bbe, 0xb2bd0b28,
     0x2bb45a92, 0x5cb36a04, 0xc2d7ffa7, 0xb5d0cf31, 0x2cd99e8b, 0x5bdeae1d,
     0x9b64c2b0, 0xec63f226, 0x756aa39c, 0x026d930a, 0x9c0906a9, 0xeb0e363f,
     0x72076785, 0x05005713, 0x95bf4a82, 0xe2b87a14, 0x7bb12bae, 0x0cb61b38,
     0x92d28e9b, 0xe5d5be0d, 0x7cdcefb7, 0x0bdbdf21, 0x86d3d2d4, 0xf1d4e242,
     0x68ddb3f8, 0x1fda836e, 0x81be16cd, 0xf6b9265b, 0x6fb077e1, 0x18b74777,
     0x88085ae6, 0xff0f6a70, 0x66063bca, 0x11010b5c, 0x8f659eff, 0xf862ae69,
     0x616bffd3, 0x166ccf45, 0xa00ae278, 0xd70dd2ee, 0x4e048354, 0x3903b3c2,
     0xa7672661, 0xd06016f7, 0x4969474d, 0x3e6e77db, 0xaed16a4a, 0xd9d65adc,
     0x40df0b66, 0x37d83bf0, 0xa9bcae53, 0xdebb9ec5, 0x47b2cf7f, 0x30b5ffe9,
     0xbdbdf21c, 0xcabac28a, 0x53b39330, 0x24b4a3a6, 0xbad03605, 0xcdd70693,
     0x54de5729, 0x23d967bf, 0xb3667a2e, 0xc4614ab8, 0x5d681b02, 0x2a6f2b94,
     0xb40bbe37, 0xc30c8ea1, 0x5a05df1b, 0x2d02ef8d]"

definition INIT_CRC :: u32 where
  "INIT_CRC = 0xffffffff"

text \<open>
  The macros \<open>DO1\<close> to \<open>DO8\<close> work on the running checksum and the read position; the position
  is the rest of the buffer. Reading past its end is \<open>None\<close>.
\<close>

fun DO1 :: "u32 \<times> byte list \<Rightarrow> (u32 \<times> byte list) option" where
  "DO1 (crc, []) = None"
| "DO1 (crc, b # buf) =
     Some (crc_table ! unat ((crc XOR ucast b) AND 0xff) XOR drop_bit 8 crc, buf)"

definition DO2 :: "u32 \<times> byte list \<Rightarrow> (u32 \<times> byte list) option" where
  "DO2 s = Option.bind (DO1 s) DO1"

definition DO4 :: "u32 \<times> byte list \<Rightarrow> (u32 \<times> byte list) option" where
  "DO4 s = Option.bind (DO2 s) DO2"

definition DO8 :: "u32 \<times> byte list \<Rightarrow> (u32 \<times> byte list) option" where
  "DO8 s = Option.bind (DO4 s) DO4"

fun crc_loop1 :: "nat \<Rightarrow> u32 \<times> byte list \<Rightarrow> (u32 \<times> byte list) option" where
  "crc_loop1 0 s = Some s"
| "crc_loop1 (Suc len) s = Option.bind (DO1 s) (crc_loop1 len)"

fun crc_loop8 :: "nat \<Rightarrow> u32 \<times> byte list \<Rightarrow> (u32 \<times> byte list) option" where
  "crc_loop8 len s =
     (if 8 \<le> len then Option.bind (DO8 s) (crc_loop8 (len - 8)) else crc_loop1 len s)"

declare crc_loop8.simps [simp del]

definition sysvar_crc :: "byte list \<Rightarrow> nat \<Rightarrow> u32 option" where
  "sysvar_crc buf len =
     map_option (\<lambda>(crc, _). crc XOR INIT_CRC) (crc_loop8 len (0 XOR INIT_CRC, buf))"

fun crc32_loop :: "u32 \<Rightarrow> byte list \<Rightarrow> u32" where
  "crc32_loop crc [] = crc"
| "crc32_loop crc (p # ps) =
     crc32_loop (crc32_tab ! unat ((crc XOR ucast p) AND 0xff) XOR drop_bit 8 crc) ps"

definition crc32 :: "u32 \<Rightarrow> byte list \<Rightarrow> u32" where
  "crc32 crc buf = crc32_loop (crc XOR NOT 0) buf XOR NOT 0"

section \<open>Reference: the polynomial, one bit at a time\<close>

definition crc_bit :: "u32 \<Rightarrow> u32" where
  "crc_bit c = (if bit c 0 then drop_bit 1 c XOR 0xedb88320 else drop_bit 1 c)"

definition crc_byte :: "u32 \<Rightarrow> byte \<Rightarrow> u32" where
  "crc_byte c b = (crc_bit ^^ 8) (c XOR ucast b)"

definition crc_ref :: "byte list \<Rightarrow> u32" where
  "crc_ref bs = foldl crc_byte 0xffffffff bs XOR 0xffffffff"

section \<open>Tables and routines agree with the reference\<close>

lemma crc_tables_same: "crc32_tab = crc_table"
  by (simp only: crc32_tab_def crc_table_def)



lemma crc_bit8: "(crc_bit ^^ 8) c =
  crc_bit (crc_bit (crc_bit (crc_bit (crc_bit (crc_bit (crc_bit (crc_bit c)))))))"
  by (simp add: numeral_eq_Suc)

lemma crc_bit_xor: "crc_bit (a XOR b) = crc_bit a XOR crc_bit b"
  unfolding crc_bit_def by (auto simp: bit_xor_iff drop_bit_xor ac_simps)

lemma crc_bit_pow_xor: "(crc_bit ^^ n) (a XOR b) = (crc_bit ^^ n) a XOR (crc_bit ^^ n) b"
  by (induction n) (simp_all add: crc_bit_xor)

lemma crc_powers:
  "(crc_bit ^^ 8) 1 = 0x77073096" "(crc_bit ^^ 8) 2 = 0xee0e612c"
  "(crc_bit ^^ 8) 4 = 0x076dc419" "(crc_bit ^^ 8) 8 = 0x0edb8832"
  "(crc_bit ^^ 8) 16 = 0x1db71064" "(crc_bit ^^ 8) 32 = 0x3b6e20c8"
  "(crc_bit ^^ 8) 64 = 0x76dc4190" "(crc_bit ^^ 8) 128 = 0xedb88320"
  unfolding crc_bit8 by (simp_all add: crc_bit_def)

fun tab_double :: "u32 list \<Rightarrow> u32 list \<Rightarrow> u32 list" where
  "tab_double t [] = t"
| "tab_double t (p # ps) = tab_double (t @ map (\<lambda>x. x XOR p) t) ps"

lemma crc_table_doubled:
  "crc_table = tab_double [0] [0x77073096, 0xee0e612c, 0x076dc419, 0x0edb8832,
     0x1db71064, 0x3b6e20c8, 0x76dc4190, 0xedb88320]"
  unfolding crc_table_def by simp


definition tab_upto :: "nat \<Rightarrow> u32 list \<Rightarrow> bool" where
  "tab_upto k t \<longleftrightarrow> length t = 2 ^ k \<and> (\<forall>n < 2 ^ k. t ! n = (crc_bit ^^ 8) (word_of_nat n))"


lemma word_of_nat_split:
  assumes "m < 2 ^ k" "k < 32"
  shows "(word_of_nat (2 ^ k + m) :: u32) = word_of_nat m XOR 2 ^ k"
proof -
  have "\<not> bit m k"
    using assms(1) by (auto simp: bit_iff_odd)
  then have disj: "\<not> bit (word_of_nat m :: u32) i \<or> \<not> bit (2 ^ k :: u32) i" for i
    by (auto simp: bit_simps)
  have "(word_of_nat (2 ^ k + m) :: u32) = word_of_nat m + 2 ^ k"
    by simp
  also have "\<dots> = word_of_nat m OR 2 ^ k"
    using disj by (rule disjunctive_add)
  also have "\<dots> = word_of_nat m XOR 2 ^ k"
    using disj by (intro bit_word_eqI) (auto simp: bit_or_iff bit_xor_iff)
  finally show ?thesis .
qed

lemma tab_upto_double:
  assumes t: "tab_upto k t" and k: "k < 32" and p: "(crc_bit ^^ 8) (2 ^ k) = p"
  shows "tab_upto (Suc k) (t @ map (\<lambda>x. x XOR p) t)"
proof -
  have len: "length t = 2 ^ k" and low: "\<And>m. m < 2 ^ k \<Longrightarrow> t ! m = (crc_bit ^^ 8) (word_of_nat m)"
    using t by (simp_all add: tab_upto_def)
  have "(t @ map (\<lambda>x. x XOR p) t) ! n = (crc_bit ^^ 8) (word_of_nat n)" if "n < 2 ^ Suc k" for n
  proof (cases "n < 2 ^ k")
    case True
    with len low show ?thesis by (simp add: nth_append)
  next
    case False
    define m where "m = n - 2 ^ k"
    with False that have m: "n = 2 ^ k + m" "m < 2 ^ k" by auto
    have "(t @ map (\<lambda>x. x XOR p) t) ! n = t ! m XOR p"
      using m len by (simp add: nth_append)
    also have "\<dots> = (crc_bit ^^ 8) (word_of_nat m XOR 2 ^ k)"
      by (simp only: low [OF m(2)] crc_bit_pow_xor p)
    finally show ?thesis
      by (simp only: m(1) word_of_nat_split [OF m(2) k])
  qed
  with len show ?thesis by (simp add: tab_upto_def)
qed


lemma tab_upto_tab_double:
  "tab_upto k t \<Longrightarrow> k \<le> n \<Longrightarrow> n \<le> 32 \<Longrightarrow>
     tab_upto n (tab_double t (map (\<lambda>i. (crc_bit ^^ 8) (2 ^ i)) [k..<n]))"
proof (induction "n - k" arbitrary: k t)
  case 0
  then show ?case by simp
next
  case (Suc d)
  then have "k < n" by simp
  with Suc.prems have "tab_upto (Suc k) (t @ map (\<lambda>x. x XOR (crc_bit ^^ 8) (2 ^ k)) t)"
    by (intro tab_upto_double) auto
  with Suc.hyps(1) [of "Suc k"] Suc.hyps(2) \<open>k < n\<close> Suc.prems(3) show ?case
    by (simp add: upt_conv_Cons)
qed

lemma crc_table_upto: "tab_upto 8 crc_table"
proof -
  have "tab_upto 0 [0]" by (simp add: tab_upto_def crc_bit8 crc_bit_def)
  from tab_upto_tab_double [OF this, of 8] show ?thesis
    by (simp add: crc_table_doubled crc_powers upt_rec)
qed

lemma crc_bit_pow_drop: "\<forall>i<n. \<not> bit y i \<Longrightarrow> (crc_bit ^^ n) y = drop_bit n y"
  by (induction n) (simp_all add: crc_bit_def bit_drop_bit_eq)

lemma crc_table_nth: "n < 256 \<Longrightarrow> crc_table ! n = (crc_bit ^^ 8) (word_of_nat n)"
  using crc_table_upto by (simp add: tab_upto_def)

lemma crc_step_table:
  "crc_table ! unat ((c XOR ucast b) AND 0xff) XOR drop_bit 8 c = crc_byte c b"
proof -
  define x where "x = c XOR ucast b"
  have mask: "0xff = (mask 8 :: u32)" by (simp add: mask_eq_exp_minus_1)
  have lt: "unat (x AND 0xff) < 256"
  proof -
    have "x AND 0xff \<le> 0xff" by (rule word_and_le1)
    then show ?thesis by (simp add: word_le_nat_alt)
  qed
  have "crc_byte c b = (crc_bit ^^ 8) ((x AND 0xff) XOR (x AND NOT 0xff))"
    unfolding crc_byte_def x_def [symmetric]
    by (rule arg_cong [where f = "crc_bit ^^ 8"]) (auto intro!: bit_word_eqI simp: bit_simps)
  also have "\<dots> = (crc_bit ^^ 8) (x AND 0xff) XOR (crc_bit ^^ 8) (x AND NOT 0xff)"
    by (rule crc_bit_pow_xor)
  also have "(crc_bit ^^ 8) (x AND NOT 0xff) = drop_bit 8 (x AND NOT 0xff)"
    by (rule crc_bit_pow_drop) (auto simp: mask bit_simps)
  also have "drop_bit 8 (x AND NOT 0xff) = drop_bit 8 c"
  proof (rule bit_word_eqI)
    fix n
    show "bit (drop_bit 8 (x AND NOT 0xff)) n = bit (drop_bit 8 c) n"
      using u32_bitD [of c "8 + n"] by (auto simp: mask x_def bit_simps byte_bit_ge)
  qed
  finally show ?thesis
    using crc_table_nth [OF lt] by (simp add: x_def)
qed

lemma DO1_ref: "DO1 (c, b # buf) = Some (crc_byte c b, buf)"
  by (simp only: DO1.simps crc_step_table)

lemma crc_loop1_ref:
  "crc_loop1 n (c, buf) =
     (if n \<le> length buf then Some (foldl crc_byte c (take n buf), drop n buf) else None)"
proof (induction n arbitrary: c buf)
  case 0
  then show ?case by simp
next
  case (Suc n)
  then show ?case by (cases buf) (simp_all add: DO1_ref del: DO1.simps(2))
qed

lemma crc_loop1_add:
  "crc_loop1 (m + n) s = Option.bind (crc_loop1 m s) (crc_loop1 n)"
  by (induction m arbitrary: s) (auto simp: bind_eq_Some_conv split: bind_splits)

lemma DO8_loop1: "DO8 s = crc_loop1 8 s"
  by (simp add: DO8_def DO4_def DO2_def numeral_eq_Suc split: bind_splits)

lemma crc_loop8_loop1: "crc_loop8 n s = crc_loop1 n s"
proof (induction n s rule: crc_loop8.induct)
  case (1 n s)
  show ?case
  proof (cases "8 \<le> n")
    case True
    then have "crc_loop1 n s = Option.bind (crc_loop1 8 s) (crc_loop1 (n - 8))"
      using crc_loop1_add [of 8 "n - 8" s] by simp
    with True "1.IH" show ?thesis
      by (cases "DO8 s") (simp_all add: crc_loop8.simps [of n s] DO8_loop1)
  next
    case False
    then show ?thesis by (simp add: crc_loop8.simps [of n s])
  qed
qed

lemma sysvar_crc_ref:
  "sysvar_crc buf len = (if len \<le> length buf then Some (crc_ref (take len buf)) else None)"
  by (simp add: sysvar_crc_def crc_loop8_loop1 crc_loop1_ref crc_ref_def INIT_CRC_def)

lemma crc32_loop_ref: "crc32_loop c buf = foldl crc_byte c buf"
  by (induction buf arbitrary: c) (simp_all add: crc_tables_same crc_step_table)

lemma crc32_ref: "crc32 0 buf = crc_ref buf"
proof -
  have "(0xffffffff :: u32) = NOT 0" by simp
  then show ?thesis by (simp only: crc32_def crc_ref_def crc32_loop_ref xor.left_neutral)
qed

section \<open>Error detection\<close>

lemma xor_right_inj: "a XOR x = b XOR x \<Longrightarrow> a = (b :: u32)"
  by (auto simp: bit_eq_iff bit_xor_iff)

lemma crc_bit_inj: "crc_bit a = crc_bit b \<Longrightarrow> a = b"
proof -
  assume eq: "crc_bit a = crc_bit b"
  have top: "bit (crc_bit c) 31 = bit c 0" for c
    by (auto simp: crc_bit_def bit_simps dest: bit_imp_le_length)
  then have low: "bit a 0 = bit b 0" using eq by metis
  then have "drop_bit 1 a = drop_bit 1 b"
    using eq by (auto simp: crc_bit_def split: if_splits dest: xor_right_inj)
  then have "bit a (Suc n) = bit b (Suc n)" for n
    by (metis bit_drop_bit_eq comp_apply plus_1_eq_Suc)
  with low show "a = b"
    by (intro bit_word_eqI) (metis not0_implies_Suc)
qed

lemma crc_bit_pow_inj: "(crc_bit ^^ n) a = (crc_bit ^^ n) b \<Longrightarrow> a = b"
  by (induction n) (auto dest: crc_bit_inj)

lemma crc_byte_inj_state: "crc_byte c x = crc_byte d x \<Longrightarrow> c = d"
  unfolding crc_byte_def
  by (drule crc_bit_pow_inj) (rule xor_right_inj)

lemma foldl_crc_inj: "foldl crc_byte c bs = foldl crc_byte d bs \<Longrightarrow> c = d"
  by (induction bs arbitrary: c d) (auto dest: crc_byte_inj_state)

lemma crc_byte_pow:
  assumes "n \<le> 24"
  shows "crc_byte ((crc_bit ^^ n) x) b = (crc_bit ^^ (n + 8)) (x XOR push_bit n (ucast b))"
proof -
  have "(crc_bit ^^ n) (push_bit n (ucast b)) = drop_bit n (push_bit n (ucast b :: u32))"
    by (rule crc_bit_pow_drop) (simp add: bit_simps)
  also have "\<dots> = ucast b"
    using assms by (auto intro!: bit_word_eqI simp: bit_simps dest!: byte_bitD)
  finally show ?thesis
    by (simp add: crc_byte_def crc_bit_pow_xor funpow_add add.commute [of n 8])
qed

lemma le_word_xor:
  "le_word b0 b1 b2 b3 = ucast b0 XOR push_bit 8 (ucast b1) XOR push_bit 16 (ucast b2)
      XOR push_bit 24 (ucast b3)"
proof (rule bit_word_eqI)
  fix n
  assume "n < LENGTH(32)"
  consider "n < 8" | "8 \<le> n" "n < 16" | "16 \<le> n" "n < 24" | "24 \<le> n" by linarith
  then show "bit (le_word b0 b1 b2 b3) n = bit (ucast b0 XOR push_bit 8 (ucast b1)
      XOR push_bit 16 (ucast b2) XOR push_bit 24 (ucast b3) :: u32) n"
    using \<open>n < LENGTH(32)\<close> unfolding le_word_def Let_def push_bit_8_add
    by cases (auto simp: bit_simps dest: byte_bitD)
qed

lemma crc_four_bytes:
  "foldl crc_byte c [b0, b1, b2, b3] = (crc_bit ^^ 32) (c XOR le_word b0 b1 b2 b3)"
proof -
  note le_word_xor [of b0 b1 b2 b3]
  then show ?thesis
    using crc_byte_pow [of 0 c b0] crc_byte_pow [of 8 _ b1] crc_byte_pow [of 16 _ b2]
      crc_byte_pow [of 24 _ b3]
    by (simp add: xor.assoc)
qed

lemma crc_bit32: "(crc_bit ^^ 32) c =
  (crc_bit ^^ 8) ((crc_bit ^^ 8) ((crc_bit ^^ 8) ((crc_bit ^^ 8) c)))"
proof -
  have "crc_bit ^^ 32 = crc_bit ^^ (8 + (8 + (8 + 8)))" by simp
  then show ?thesis by (simp only: funpow_add o_apply)
qed

lemma crc_ref_burst:
  assumes "length w = 4" "length w' = 4" "w \<noteq> w'"
  shows "crc_ref (a @ w @ z) \<noteq> crc_ref (a @ w' @ z)"
proof -
  obtain b0 b1 b2 b3 where w: "w = [b0, b1, b2, b3]"
    using assms(1) by (auto simp: length_Suc_conv numeral_eq_Suc)
  obtain c0 c1 c2 c3 where w': "w' = [c0, c1, c2, c3]"
    using assms(2) by (auto simp: length_Suc_conv numeral_eq_Suc)
  show ?thesis
  proof
    assume "crc_ref (a @ w @ z) = crc_ref (a @ w' @ z)"
    then have "foldl crc_byte (foldl crc_byte 0xffffffff a) w =
        foldl crc_byte (foldl crc_byte 0xffffffff a) w'"
      by (simp add: crc_ref_def) (drule xor_right_inj, rule foldl_crc_inj)
    then have "le_word b0 b1 b2 b3 = le_word c0 c1 c2 c3"
      unfolding w w' crc_four_bytes
      by (drule_tac crc_bit_pow_inj) (metis xor_right_inj xor.commute)
    with assms(3) show False by (simp add: w w' le_word_inj)
  qed
qed

text \<open>
  A message followed by its own checksum, low byte first, always has the checksum
  \<open>0x2144df1c\<close>: the constant \<open>EXPECTED_CRC\<close> that the transport stream checker compares with.
\<close>
lemma crc32_own_residue: "crc32 0 (m @ le_bytes (crc32 0 m)) = 0x2144df1c"
proof -
  define s where "s = foldl crc_byte 0xffffffff m"
  have "crc32 0 (m @ le_bytes (crc32 0 m)) =
      (crc_bit ^^ 32) (s XOR (s XOR 0xffffffff)) XOR 0xffffffff"
    by (simp only: crc32_ref crc_ref_def foldl_append s_def [symmetric] le_bytes_def
        crc_four_bytes le_word_bytes)
  also have "s XOR (s XOR 0xffffffff) = 0xffffffff"
    by (metis bit.xor_self xor.assoc xor.left_neutral)
  also have "(crc_bit ^^ 32) 0xffffffff = (0xdebb20e3 :: u32)"
    unfolding crc_bit32 crc_bit8 by (simp add: crc_bit_def)
  finally show ?thesis by simp
qed

section \<open>Properties\<close>

text \<open>
  Claim C31. The table-driven, eight-times unrolled \<open>sysvar_crc\<close> and the byte loop \<open>crc32\<close> compute
  the same checksum, the one the reflected polynomial \<open>0xEDB88320\<close> defines bit by bit; and
  \<open>sysvar_crc\<close> reads exactly the first \<open>len\<close> bytes (it faults when the buffer is shorter).
\<close>
theorem crc_routines_agree:
  "sysvar_crc buf len = (if len \<le> length buf then Some (crc_ref (take len buf)) else None) \<and>
   crc32 0 buf = crc_ref buf"
  by (simp add: sysvar_crc_ref crc32_ref)

text \<open>
  Two buffers that differ only inside one window of four bytes never have the same
  checksum: every error burst of up to 32 bits is detected.
\<close>
lemma crc32_detects_burst:
  assumes "length w = 4" "length w' = 4" "w \<noteq> w'"
  shows "crc32 0 (a @ w @ z) \<noteq> crc32 0 (a @ w' @ z)"
  unfolding crc32_ref using assms by (rule crc_ref_burst)

end
