(* ===== verification/C_Text.thy ===== *)
theory C_Text
  imports Prelude
begin

unbundle bit_operations_syntax

text \<open>
  The conversions of \<open>printf\<close> and \<open>strtol\<close> that the sources use, on byte strings: decimal and
  hexadecimal printing with the paddings that occur, and the decimal reader behind \<open>atoi\<close> and
  \<open>strtoull\<close>.
\<close>

section \<open>Printing\<close>

fun dec_nat :: "nat \<Rightarrow> cstr" where
  "dec_nat n =
     (if n < 10 then [word_of_nat (48 + n)] else dec_nat (n div 10) @ [word_of_nat (48 + n mod 10)])"

declare dec_nat.simps [simp del]

definition dec_int :: "int \<Rightarrow> cstr" where
  "dec_int i = (if i < 0 then lit ''-'' @ dec_nat (nat (- i)) else dec_nat (nat i))"

definition hex_digit :: "nat \<Rightarrow> byte" where
  "hex_digit n = (if n < 10 then word_of_nat (48 + n) else word_of_nat (87 + n))"

text \<open>\<open>hex_fixed w n\<close>: the low \<open>w\<close> hexadecimal digits of \<open>n\<close>, highest first (\<open>%0wx\<close> for
  \<open>n < 16 ^ w\<close>).\<close>

fun hex_fixed :: "nat \<Rightarrow> nat \<Rightarrow> cstr" where
  "hex_fixed 0 n = []"
| "hex_fixed (Suc w) n = hex_fixed w (n div 16) @ [hex_digit (n mod 16)]"

text \<open>\<open>lpad w c s\<close>: \<open>s\<close> with \<open>c\<close> put before it up to the field width \<open>w\<close>.\<close>

definition lpad :: "nat \<Rightarrow> byte \<Rightarrow> cstr \<Rightarrow> cstr" where
  "lpad w c s = replicate (w - length s) c @ s"

text \<open>\<open>snprintf (buf + off, n, ...)\<close> of the text \<open>s\<close>.\<close>

definition snprintf_at :: "byte list \<Rightarrow> nat \<Rightarrow> nat \<Rightarrow> cstr \<Rightarrow> byte list option" where
  "snprintf_at buf off n s = (if n = 0 then Some buf else arr_put buf off (take (n - 1) s @ [0]))"

section \<open>Reading\<close>

definition is_digit :: "byte \<Rightarrow> bool" where
  "is_digit b \<longleftrightarrow> 48 \<le> b \<and> b \<le> 57"

definition is_space :: "byte \<Rightarrow> bool" where
  "is_space b \<longleftrightarrow> b = 32 \<or> (9 \<le> b \<and> b \<le> 13)"

definition is_xdigit :: "byte \<Rightarrow> bool" where
  "is_xdigit b \<longleftrightarrow> is_digit b \<or> (97 \<le> b \<and> b \<le> 102) \<or> (65 \<le> b \<and> b \<le> 70)"

definition to_lower :: "byte \<Rightarrow> byte" where
  "to_lower b = (if 65 \<le> b \<and> b \<le> 90 then b + 32 else b)"

fun dec_value :: "nat \<Rightarrow> cstr \<Rightarrow> nat" where
  "dec_value acc [] = acc"
| "dec_value acc (b # bs) = (if is_digit b then dec_value (10 * acc + (unat b - 48)) bs else acc)"

text \<open>\<open>atoi\<close>, \<open>atoll\<close>, \<open>strtoull\<close>: white space, an optional sign, then digits. The value is
  exact here; a caller that stores it in a narrower type reduces it.\<close>

definition c_atoi :: "cstr \<Rightarrow> int" where
  "c_atoi s =
     (let t = dropWhile is_space s
      in case t of
           [] \<Rightarrow> 0
         | b # r \<Rightarrow> if b = 45 then - int (dec_value 0 r)
                    else if b = 43 then int (dec_value 0 r)
                    else int (dec_value 0 t))"

text \<open>\<open>atoi\<close> is \<open>strtol\<close> cut to an int: the 64-bit value saturates, then its low 32 bits are kept.\<close>

definition atoi_u32 :: "cstr \<Rightarrow> u32" where
  "atoi_u32 s = word_of_int (max (- (2 ^ 63)) (min (2 ^ 63 - 1) (c_atoi s)))"

text \<open>An \<open>int\<close> from \<open>atoi\<close>.\<close>

definition atoi_int :: "cstr \<Rightarrow> int" where
  "atoi_int s = sint (atoi_u32 s)"

text \<open>The conversion of a wider integer to \<open>int\<close>.\<close>

definition wrap_int :: "int \<Rightarrow> int" where
  "wrap_int i = sint (word_of_int i :: u32)"

text \<open>\<open>strncasecmp (a, b, n) == 0\<close> and \<open>strcasecmp (a, b) == 0\<close>.\<close>

definition strncasecmp_eq :: "cstr \<Rightarrow> cstr \<Rightarrow> nat \<Rightarrow> bool" where
  "strncasecmp_eq a b n = strncmp_eq (map to_lower a) (map to_lower b) n"

definition strcasecmp_eq :: "cstr \<Rightarrow> cstr \<Rightarrow> bool" where
  "strcasecmp_eq a b \<longleftrightarrow> map to_lower a = map to_lower b"

section \<open>Facts\<close>

lemma wrap_int_id: "- (2 ^ 31) \<le> i \<Longrightarrow> i < 2 ^ 31 \<Longrightarrow> wrap_int i = i"
  by (simp add: wrap_int_def signed_of_int signed_take_bit_int_eq_self_iff)

lemma length_hex_fixed [simp]: "length (hex_fixed w n) = w"
  by (induction w arbitrary: n) auto

lemma dec_nat_nonempty: "dec_nat n \<noteq> []"
  by (subst dec_nat.simps) simp

lemma length_dec_nat_bound: "n < 10 ^ k \<Longrightarrow> 0 < k \<Longrightarrow> length (dec_nat n) \<le> k"
proof (induction k arbitrary: n)
  case 0
  then show ?case by simp
next
  case (Suc k)
  show ?case
  proof (cases "n < 10")
    case True
    then show ?thesis by (simp add: dec_nat.simps [of n])
  next
    case False
    then have "0 < k" using Suc.prems by (cases k) auto
    moreover have "n div 10 < 10 ^ k" using Suc.prems by auto
    ultimately have "length (dec_nat (n div 10)) \<le> k" by (rule Suc.IH [rotated])
    with False show ?thesis by (simp add: dec_nat.simps [of n])
  qed
qed

lemma digit_byte:
  assumes "d < 10"
  shows "is_digit (word_of_nat (48 + d))" "unat (word_of_nat (48 + d) :: byte) = 48 + d"
proof -
  show u: "unat (word_of_nat (48 + d) :: byte) = 48 + d"
    using assms by (simp add: unsigned_of_nat take_bit_nat_eq_self_iff del: of_nat_add)
  show "is_digit (word_of_nat (48 + d))"
    unfolding is_digit_def word_le_nat_alt u using assms by simp
qed

lemma dec_value_append_digit:
  "list_all is_digit s \<Longrightarrow> is_digit d \<Longrightarrow>
     dec_value acc (s @ [d]) = 10 * dec_value acc s + (unat d - 48)"
  by (induction s arbitrary: acc) auto

lemma dec_nat_digits: "list_all is_digit (dec_nat n)"
proof (induction n rule: dec_nat.induct)
  case (1 n)
  then show ?case
    using digit_byte(1) [of n] digit_byte(1) [of "n mod 10"]
    by (subst dec_nat.simps) (simp del: of_nat_add)
qed

lemma dec_value_dec_nat: "dec_value 0 (dec_nat n) = n"
proof (induction n rule: dec_nat.induct)
  case (1 n)
  show ?case
  proof (cases "n < 10")
    case True
    then show ?thesis
      using digit_byte [of n] by (simp add: dec_nat.simps [of n] del: of_nat_add)
  next
    case False
    with "1.IH" show ?thesis
      using digit_byte [of "n mod 10"]
      by (simp add: dec_nat.simps [of n] dec_value_append_digit dec_nat_digits del: of_nat_add)
  qed
qed

lemma dec_value_stop:
  assumes "list_all is_digit s" "\<not> is_digit c"
  shows "dec_value acc (s @ c # r) = dec_value acc s"
  using assms by (induction s arbitrary: acc) auto

lemma dec_value_end [simp]: "list_all is_digit s \<Longrightarrow> dec_value acc (s @ []) = dec_value acc s"
  by simp

lemma is_digit_not:
  assumes "is_digit b"
  shows "\<not> is_space b" "b \<noteq> 45" "b \<noteq> 43" "b \<noteq> 0" "b \<noteq> 44" "b \<noteq> 59" "b \<noteq> 10"
  using assms unfolding is_digit_def is_space_def word_le_nat_alt by auto

lemma dec_nat_nul_free: "nul_free (dec_nat n)"
  using dec_nat_digits [of n] by (auto simp: nul_free_def list_all_iff dest: is_digit_not)

lemma cstr_of_append_nul: "cstr_of (a @ 0 # r) = cstr_of a"
  by (induction a) (auto simp: cstr_of_def)

lemma cstr_of_Cons: "c \<noteq> 0 \<Longrightarrow> cstr_of (c # r) = c # cstr_of r"
  by (simp add: cstr_of_def)

lemma c_atoi_digits:
  assumes "\<not> is_digit c"
  shows "c_atoi (dec_nat n @ c # r) = int n"
proof -
  obtain b bs where d: "dec_nat n = b # bs" using dec_nat_nonempty [of n] by (cases "dec_nat n") auto
  have "is_digit b" using dec_nat_digits [of n] by (simp add: d)
  then have "c_atoi (dec_nat n @ c # r) = int (dec_value 0 (dec_nat n @ c # r))"
    by (simp add: c_atoi_def d is_digit_not)
  then show ?thesis using dec_value_stop [OF dec_nat_digits assms] dec_value_dec_nat by simp
qed

end
