(* ===== verification/Sysvar_Buf.thy ===== *)
theory Sysvar_Buf
  imports Crc32 C_Text
begin

unbundle bit_operations_syntax

text \<open>
  The data buffer and the variable list of the system variables, \<^verbatim>\<open>src/sysvar/lib/sysvar.c\<close> and
  \<^verbatim>\<open>src/sysvar/include/sysvar.h\<close>.

  \<open>sysvar_buf\<close> is the \<open>struct sysvar_buf\<close>. The linked list below the dummy head is the list
  \<open>vars\<close>, and a pointer to one of its nodes is its position. Whether the two heap blocks of the
  struct are allocated is in \<open>data_ptr\<close> and \<open>list_ptr\<close>. The field \<open>mallocs\<close> is not in the
  source: it holds the outcomes of the next calls of \<open>malloc\<close> (an empty list: they succeed), so
  that every allocation may fail.

  An operation that can touch memory outside its arrays returns an option; \<open>None\<close> is undefined
  behaviour.
\<close>

section \<open>Data\<close>

datatype sysvar_ret =
    SYSVAR_SUCCESS | SYSVAR_MEMORY_ERR | SYSVAR_OPEN_ERR | SYSVAR_READ_ERR | SYSVAR_WRITE_ERR
  | SYSVAR_ERASE_ERR | SYSVAR_LOAD_ERR | SYSVAR_SAVE_ERR | SYSVAR_GET_ERR | SYSVAR_SET_ERR
  | SYSVAR_DELETE_ERR | SYSVAR_PARAM_ERR | SYSVAR_CRC_ERR | SYSVAR_READONLY_ERR
  | SYSVAR_EXISTED_ERR | SYSVAR_DEBUG_ERR

fun ret_code :: "sysvar_ret \<Rightarrow> int" where
  "ret_code SYSVAR_SUCCESS = 0"
| "ret_code SYSVAR_MEMORY_ERR = -1"
| "ret_code SYSVAR_OPEN_ERR = -2"
| "ret_code SYSVAR_READ_ERR = -3"
| "ret_code SYSVAR_WRITE_ERR = -4"
| "ret_code SYSVAR_ERASE_ERR = -5"
| "ret_code SYSVAR_LOAD_ERR = -6"
| "ret_code SYSVAR_SAVE_ERR = -7"
| "ret_code SYSVAR_GET_ERR = -8"
| "ret_code SYSVAR_SET_ERR = -9"
| "ret_code SYSVAR_DELETE_ERR = -10"
| "ret_code SYSVAR_PARAM_ERR = -11"
| "ret_code SYSVAR_CRC_ERR = -12"
| "ret_code SYSVAR_READONLY_ERR = -13"
| "ret_code SYSVAR_EXISTED_ERR = -14"
| "ret_code SYSVAR_DEBUG_ERR = -15"

datatype sysvar_mode = SYSVAR_GET_MODE | SYSVAR_SET_MODE | SYSVAR_LOAD_MODE | SYSVAR_SAVE_MODE

datatype ptr_state = Ptr_Null | Ptr_Live | Ptr_Freed

abbreviation (input) SYSVAR_WC32 :: nat where "SYSVAR_WC32 \<equiv> 4"
abbreviation (input) SYSVAR_CRC32 :: nat where "SYSVAR_CRC32 \<equiv> 4"
abbreviation (input) SYSVAR_HEAD :: nat where "SYSVAR_HEAD \<equiv> 8"
abbreviation (input) SYSVAR_NAME :: nat where "SYSVAR_NAME \<equiv> 32"
abbreviation (input) SYSVAR_STR_TO_BUF :: byte where "SYSVAR_STR_TO_BUF \<equiv> 0"
abbreviation (input) SYSVAR_BUF_TO_STR :: byte where "SYSVAR_BUF_TO_STR \<equiv> 255"

record sysvar_list =
  vname :: cstr
  vvalue :: cstr
  vlen :: int

record sysvar_buf =
  data :: "byte list"
  data_ptr :: ptr_state
  data_len :: nat
  total_len :: nat
  free_len :: int
  used_len :: int
  loaded :: bool
  modified :: bool
  readonly :: bool
  failed :: "bool \<times> bool"
  vars :: "sysvar_list list"
  list_ptr :: ptr_state
  mallocs :: "bool list"

definition buf_malloc :: "sysvar_buf \<Rightarrow> bool \<times> sysvar_buf" where
  "buf_malloc buf =
     (case mallocs buf of [] \<Rightarrow> (True, buf) | ok # ms \<Rightarrow> (ok, buf\<lparr>mallocs := ms\<rparr>))"

section \<open>Operations on the buffer\<close>

definition sysvar_len :: "sysvar_buf \<Rightarrow> int \<Rightarrow> sysvar_buf" where
  "sysvar_len buf len =
     (let u = used_len buf + len;
          u = (if u < 0 then 0 else u);
          u = (if u > int (total_len buf) then int (total_len buf) else u)
      in buf\<lparr>used_len := u, free_len := int (total_len buf) - u\<rparr>)"

fun copy_until :: "byte list \<Rightarrow> nat \<Rightarrow> byte \<Rightarrow> byte list option" where
  "copy_until src 0 end_byte = Some []"
| "copy_until [] (Suc n) end_byte = None"
| "copy_until (s # src) (Suc n) end_byte =
     (if s = end_byte then Some [] else map_option (Cons s) (copy_until src n end_byte))"

definition sysvar_copy :: "byte list \<Rightarrow> byte list \<Rightarrow> nat \<Rightarrow> byte \<Rightarrow> byte list option" where
  "sysvar_copy dst src len end_byte =
     (if end_byte = SYSVAR_STR_TO_BUF then do {
        dst \<leftarrow> arr_put dst 0 (replicate len 0xff);
        bs \<leftarrow> copy_until src len end_byte;
        arr_put dst 0 bs }
      else if end_byte = SYSVAR_BUF_TO_STR then do {
        dst \<leftarrow> arr_put dst 0 (replicate (len + 1) 0);
        bs \<leftarrow> copy_until src len end_byte;
        arr_put dst 0 bs }
      else Some dst)"

text \<open>\<open>sysvar_copy\<close> with the destination \<open>&d[i]\<close>.\<close>

definition sysvar_copy_at ::
    "byte list \<Rightarrow> nat \<Rightarrow> byte list \<Rightarrow> nat \<Rightarrow> byte \<Rightarrow> byte list option" where
  "sysvar_copy_at d i src len end_byte =
     (if i \<le> length d then map_option (\<lambda>r. take i d @ r) (sysvar_copy (drop i d) src len end_byte)
      else None)"

definition word_at :: "byte list \<Rightarrow> nat \<Rightarrow> u32 option" where
  "word_at d len = do {
     b3 \<leftarrow> arr_get d (len + 3);
     b2 \<leftarrow> arr_get d (len + 2);
     b1 \<leftarrow> arr_get d (len + 1);
     b0 \<leftarrow> arr_get d len;
     Some (le_word b0 b1 b2 b3) }"

definition get_wc32 :: "sysvar_buf \<Rightarrow> u32 option" where
  "get_wc32 buf = word_at (data buf) (total_len buf)"

definition set_wc32 :: "sysvar_buf \<Rightarrow> sysvar_buf option" where
  "set_wc32 buf = do {
     w \<leftarrow> get_wc32 buf;
     d \<leftarrow> arr_put (data buf) (total_len buf) (le_bytes (w + 1));
     Some (buf\<lparr>data := d\<rparr>) }"

definition get_crc32 :: "sysvar_buf \<Rightarrow> u32 option" where
  "get_crc32 buf = word_at (data buf) (total_len buf + SYSVAR_WC32)"

definition set_crc32 :: "sysvar_buf \<Rightarrow> sysvar_buf option" where
  "set_crc32 buf = do {
     crc \<leftarrow> sysvar_crc (data buf) (total_len buf);
     d \<leftarrow> arr_put (data buf) (total_len buf + SYSVAR_WC32) (le_bytes crc);
     Some (buf\<lparr>data := d\<rparr>) }"

fun check_var :: "sysvar_buf \<Rightarrow> sysvar_mode \<Rightarrow> (sysvar_ret \<times> sysvar_buf) option" where
  "check_var buf SYSVAR_LOAD_MODE = do {
     crc0 \<leftarrow> get_crc32 buf;
     crc1 \<leftarrow> sysvar_crc (data buf) (total_len buf);
     Some (if crc0 = crc1 then (SYSVAR_SUCCESS, buf\<lparr>modified := False\<rparr>)
           else (SYSVAR_CRC_ERR, buf)) }"
| "check_var buf SYSVAR_SAVE_MODE = do {
     buf \<leftarrow> set_wc32 buf;
     Some (SYSVAR_SUCCESS, buf\<lparr>modified := False\<rparr>) }"
| "check_var buf SYSVAR_SET_MODE = do {
     buf \<leftarrow> set_crc32 buf;
     Some (SYSVAR_SUCCESS, buf\<lparr>modified := True\<rparr>) }"
| "check_var buf SYSVAR_GET_MODE = Some (SYSVAR_PARAM_ERR, buf)"

definition clear_buf :: "sysvar_buf \<Rightarrow> sysvar_buf option" where
  "clear_buf buf =
     (if data_ptr buf \<noteq> Ptr_Null then do {
        d \<leftarrow> arr_put (data buf) 0 (replicate (data_len buf) 0xff);
        buf \<leftarrow> set_wc32 (buf\<lparr>data := d, loaded := True\<rparr>);
        set_crc32 buf }
      else Some buf)"

section \<open>Operations on the variable list\<close>

definition set_var :: "sysvar_buf \<Rightarrow> cstr \<Rightarrow> cstr \<Rightarrow> sysvar_ret \<times> sysvar_buf" where
  "set_var buf name value =
     (if length name > SYSVAR_NAME then (SYSVAR_PARAM_ERR, buf)
      else case buf_malloc buf of
        (False, buf) \<Rightarrow> (SYSVAR_MEMORY_ERR, buf)
      | (True, buf) \<Rightarrow>
         (case buf_malloc buf of
            (False, buf) \<Rightarrow> (SYSVAR_MEMORY_ERR, buf)
          | (True, buf) \<Rightarrow>
             (let var = \<lparr>vname = name, vvalue = value,
                         vlen = int SYSVAR_NAME + 2 + int (length value)\<rparr>
              in (SYSVAR_SUCCESS, sysvar_len (buf\<lparr>vars := vars buf @ [var]\<rparr>) (vlen var)))))"

fun unlink_walk :: "sysvar_list list \<Rightarrow> nat \<Rightarrow> sysvar_list list option" where
  "unlink_walk [] p = None"
| "unlink_walk (node # rest) p =
     (if p = 1 \<and> rest \<noteq> [] then Some (node # tl rest)
      else map_option (Cons node) (unlink_walk rest (p - 1)))"

definition delete_var :: "sysvar_buf \<Rightarrow> nat \<Rightarrow> sysvar_ret \<times> sysvar_buf" where
  "delete_var buf p =
     (case (if p = 0 \<and> vars buf \<noteq> [] then Some (tl (vars buf))
            else if p = 0 then None else unlink_walk (vars buf) p) of
        None \<Rightarrow> (SYSVAR_DELETE_ERR, buf)
      | Some vs \<Rightarrow> (SYSVAR_SUCCESS, sysvar_len (buf\<lparr>vars := vs\<rparr>) (- vlen (vars buf ! p))))"

fun clear_loop :: "sysvar_list list \<Rightarrow> sysvar_ret \<Rightarrow> sysvar_buf \<Rightarrow> sysvar_ret \<times> sysvar_buf" where
  "clear_loop [] ret buf = (ret, buf)"
| "clear_loop (node # rest) ret buf =
     (if ret = SYSVAR_SUCCESS
      then (case delete_var buf 0 of (ret, buf) \<Rightarrow> clear_loop rest ret buf)
      else (ret, buf))"

definition clear_var :: "sysvar_buf \<Rightarrow> sysvar_ret \<times> sysvar_buf" where
  "clear_var buf = clear_loop (vars buf) SYSVAR_SUCCESS buf"

fun find_loop :: "sysvar_list list \<Rightarrow> cstr \<Rightarrow> nat \<Rightarrow> nat option" where
  "find_loop [] name p = None"
| "find_loop (node # rest) name p =
     (if strncmp_eq (vname node) name SYSVAR_NAME then Some p else find_loop rest name (Suc p))"

definition find_var :: "sysvar_buf \<Rightarrow> cstr option \<Rightarrow> nat option" where
  "find_var buf name =
     (case name of None \<Rightarrow> None | Some name \<Rightarrow> find_loop (vars buf) name 0)"

text \<open>
  \<open>get_var\<close> writes into the caller's arrays \<open>name\<close> and \<open>value\<close>; it returns them updated.
\<close>

definition get_var ::
    "sysvar_list \<Rightarrow> byte list \<Rightarrow> byte list \<Rightarrow> nat \<Rightarrow>
       (sysvar_ret \<times> byte list \<times> byte list) option" where
  "get_var var name value len =
     (if len = 0 then do {
        value \<leftarrow> arr_put value 0 [0];
        Some (SYSVAR_GET_ERR, name, value) }
      else do {
        name \<leftarrow> strncpy name (vname var) SYSVAR_NAME;
        value \<leftarrow> strncpy value (vvalue var) len;
        Some (SYSVAR_SUCCESS, name, value) })"

section \<open>Moving variables between the list and the buffer\<close>

lemma total_len_buf_malloc [simp]: "total_len (snd (buf_malloc buf)) = total_len buf"
  by (simp add: buf_malloc_def split: list.splits)

lemma total_len_sysvar_len [simp]: "total_len (sysvar_len buf n) = total_len buf"
  by (simp add: sysvar_len_def Let_def)

lemma total_len_set_var [simp]: "total_len (snd (set_var buf n v)) = total_len buf"
proof -
  have "buf_malloc b = (ok, b') \<Longrightarrow> total_len b' = total_len b" for b b' ok
    using total_len_buf_malloc [of b] by simp
  then show ?thesis
    by (fastforce simp: set_var_def Let_def split: prod.splits bool.splits)
qed

function load_loop :: "nat \<Rightarrow> sysvar_ret \<Rightarrow> sysvar_buf \<Rightarrow> (sysvar_ret \<times> sysvar_buf) option" where
  "load_loop i ret buf =
     (if i < total_len buf \<and> ret = SYSVAR_SUCCESS then do {
        b \<leftarrow> arr_get (data buf) i;
        if b = 0xff then Some (ret, buf)
        else do {
          name \<leftarrow> sysvar_copy (replicate (SYSVAR_NAME + 1) 0) (drop i (data buf)) SYSVAR_NAME
                    SYSVAR_BUF_TO_STR;
          hi \<leftarrow> arr_get (data buf) (i + SYSVAR_NAME);
          lo \<leftarrow> arr_get (data buf) (i + SYSVAR_NAME + 1);
          let len = unat hi * 256 + unat lo;
          if int len > free_len buf then Some (SYSVAR_PARAM_ERR, buf)
          else if \<not> fst (buf_malloc buf) then Some (SYSVAR_MEMORY_ERR, snd (buf_malloc buf))
          else do {
            value \<leftarrow> sysvar_copy (replicate (len + 1) 0) (drop (i + SYSVAR_NAME + 2) (data buf)) len
                       SYSVAR_BUF_TO_STR;
            let r = set_var (snd (buf_malloc buf)) (cstr_of name) (cstr_of value);
            load_loop (i + SYSVAR_NAME + 2 + len) (fst r) (snd r) } } }
      else Some (ret, buf))"
  by pat_completeness auto

termination
  by (relation "measure (\<lambda>s. total_len (snd (snd s)) - fst s)") auto

declare load_loop.simps [simp del]

definition load_var :: "sysvar_buf \<Rightarrow> (sysvar_ret \<times> sysvar_buf) option" where
  "load_var buf = (case clear_var buf of (ret, buf) \<Rightarrow> load_loop 0 ret buf)"

fun save_loop ::
    "nat \<Rightarrow> sysvar_list list \<Rightarrow> sysvar_buf \<Rightarrow> (sysvar_ret \<times> sysvar_buf) option" where
  "save_loop i [] buf = Some (SYSVAR_SUCCESS, buf)"
| "save_loop i (node # rest) buf =
     (if i < total_len buf then do {
        d \<leftarrow> sysvar_copy_at (data buf) i (vname node @ [0]) SYSVAR_NAME SYSVAR_STR_TO_BUF;
        let len = length (vvalue node);
        if int len > used_len buf then Some (SYSVAR_PARAM_ERR, buf\<lparr>data := d\<rparr>)
        else do {
          d \<leftarrow> arr_put d (i + SYSVAR_NAME) [word_of_nat (len div 256), word_of_nat len];
          d \<leftarrow> sysvar_copy_at d (i + SYSVAR_NAME + 2) (vvalue node @ [0]) len SYSVAR_STR_TO_BUF;
          save_loop (i + SYSVAR_NAME + 2 + len) rest (buf\<lparr>data := d\<rparr>) } }
      else Some (SYSVAR_SUCCESS, buf))"

definition save_var :: "sysvar_buf \<Rightarrow> (sysvar_ret \<times> sysvar_buf) option" where
  "save_var buf = do {
     d \<leftarrow> arr_put (data buf) 0 (replicate (data_len buf) 0xff);
     (ret, buf) \<leftarrow> save_loop 0 (vars buf) (buf\<lparr>data := d\<rparr>);
     if ret = SYSVAR_SUCCESS then check_var buf SYSVAR_SET_MODE else Some (ret, buf) }"

section \<open>Printing\<close>

text \<open>
  \<open>%s\<close> of a name: \<open>set_var\<close> copies a name of 32 bytes without a terminator and leaves the last
  byte of the array uninitialised, so printing such a name reads it.
\<close>

definition print_name :: "sysvar_list \<Rightarrow> cstr option" where
  "print_name var = (if length (vname var) < SYSVAR_NAME then Some (vname var) else None)"

fun print_loop :: "sysvar_list list \<Rightarrow> bool \<Rightarrow> cstr option" where
  "print_loop [] ro = Some []"
| "print_loop (node # rest) ro = do {
     n \<leftarrow> print_name node;
     out \<leftarrow> print_loop rest ro;
     Some (n @ [9] @ (if ro then lit ''RO'' else lit ''RW'') @ [9] @ vvalue node @ [10] @ out) }"

definition print_var :: "sysvar_buf \<Rightarrow> cstr option" where
  "print_var buf = print_loop (vars buf) (readonly buf)"

text \<open>One line of the dump: 16 bytes in hexadecimal, then as characters.\<close>

definition dump_hex :: "sysvar_buf \<Rightarrow> nat \<Rightarrow> nat \<Rightarrow> cstr" where
  "dump_hex buf i j =
     (if i + j < data_len buf then hex_fixed 2 (unat (data buf ! (i + j))) @ [32]
      else [32, 32, 32])"

definition dump_ascii :: "sysvar_buf \<Rightarrow> nat \<Rightarrow> nat \<Rightarrow> cstr" where
  "dump_ascii buf i j =
     (if i + j < data_len buf then
        (let c = data buf ! (i + j) in if 32 \<le> c \<and> c < 127 then [c] else lit ''.'')
      else [32])"

definition dump_line :: "sysvar_buf \<Rightarrow> nat \<Rightarrow> nat \<Rightarrow> cstr" where
  "dump_line buf start i =
     lit ''['' @ hex_fixed 8 (start + i) @ lit ''] '' @
     concat (map (dump_hex buf i) [0..<16]) @ concat (map (dump_ascii buf i) [0..<16]) @ [10]"

function dump_loop :: "sysvar_buf \<Rightarrow> nat \<Rightarrow> nat \<Rightarrow> nat \<Rightarrow> cstr" where
  "dump_loop buf start len i =
     (if i < start + len then dump_line buf start i @ dump_loop buf start len (i + 16) else [])"
  by pat_completeness auto
termination
  by (relation "measure (\<lambda>(buf, start, len, i). start + len - i)") auto

declare dump_loop.simps [simp del]

definition dump_buf :: "sysvar_buf \<Rightarrow> nat \<Rightarrow> nat \<Rightarrow> cstr" where
  "dump_buf buf start len = dump_loop buf start len start"

section \<open>Well-formedness\<close>

definition wf_var :: "sysvar_list \<Rightarrow> bool" where
  "wf_var v \<longleftrightarrow> length (vname v) \<le> SYSVAR_NAME \<and> nul_free (vname v) \<and> nul_free (vvalue v) \<and>
     vlen v = int (SYSVAR_NAME + 2 + length (vvalue v))"

definition vars_size :: "sysvar_list list \<Rightarrow> nat" where
  "vars_size vs = sum_list (map (\<lambda>v. SYSVAR_NAME + 2 + length (vvalue v)) vs)"

definition wf_buf :: "sysvar_buf \<Rightarrow> bool" where
  "wf_buf buf \<longleftrightarrow> length (data buf) = data_len buf \<and> data_len buf = total_len buf + SYSVAR_HEAD \<and>
     total_len buf < 65536 \<and>
     list_all wf_var (vars buf) \<and> 0 \<le> used_len buf \<and> used_len buf \<le> int (total_len buf) \<and>
     used_len buf \<le> int (vars_size (vars buf)) \<and> free_len buf = int (total_len buf) - used_len buf"

text \<open>What the flash format can represent: no byte \<open>0xff\<close>, and a name.\<close>

definition storable :: "sysvar_list \<Rightarrow> bool" where
  "storable v \<longleftrightarrow> wf_var v \<and> vname v \<noteq> [] \<and> 0xff \<notin> set (vname v) \<and> 0xff \<notin> set (vvalue v)"

section \<open>The copy routine\<close>

lemma copy_until_eq:
  "e \<in> set (take n src) \<or> n \<le> length src \<Longrightarrow>
     copy_until src n e = Some (takeWhile (\<lambda>b. b \<noteq> e) (take n src))"
  by (induction src n e rule: copy_until.induct) auto

lemma sysvar_copy_str:
  assumes "nul_free s" "length s \<le> len" "len \<le> length dst"
  shows "sysvar_copy dst (s @ 0 # r) len SYSVAR_STR_TO_BUF =
    Some (s @ replicate (len - length s) 0xff @ drop len dst)"
proof -
  have "0 \<in> set (take len (s @ 0 # r)) \<or> len \<le> length (s @ 0 # r)"
    using assms(2) by (cases "length s = len") auto
  moreover have "takeWhile (\<lambda>b. b \<noteq> 0) (take len (s @ 0 # r)) = s"
  proof (cases "length s = len")
    case True
    then show ?thesis using assms(1) by (auto simp: nul_free_def takeWhile_eq_all_conv)
  next
    case False
    then obtain k where "len = length s + Suc k"
      using assms(2) by (metis less_natE nat_less_le add_Suc_right)
    then show ?thesis using cstr_of_nul_free [OF assms(1)] by (simp add: cstr_of_def)
  qed
  ultimately have "copy_until (s @ 0 # r) len 0 = Some s"
    by (simp add: copy_until_eq)
  then show ?thesis
    using assms(2,3) by (simp add: sysvar_copy_def carr_simps)
qed

lemma sysvar_copy_at_str:
  assumes "nul_free s" "length s \<le> len" "i + len \<le> length d"
  shows "sysvar_copy_at d i (s @ [0]) len SYSVAR_STR_TO_BUF =
    Some (take i d @ s @ replicate (len - length s) 0xff @ drop (i + len) d)"
  using assms sysvar_copy_str [of s len "drop i d" "[]"]
  by (simp add: sysvar_copy_at_def add.commute)

lemma sysvar_copy_buf:
  assumes "len \<le> length src" "length dst = len + 1" "0xff \<notin> set s"
    "take len src = s @ replicate (len - length s) 0xff" "nul_free s"
  shows "\<exists>m. sysvar_copy dst src len SYSVAR_BUF_TO_STR = Some m \<and> cstr_of m = s"
proof -
  have tw: "takeWhile (\<lambda>b. b \<noteq> 0xff) (take len src) = s"
  proof (cases "len - length s")
    case 0
    then show ?thesis using assms(3,4) by (auto simp: takeWhile_eq_all_conv)
  next
    case (Suc k)
    have "takeWhile (\<lambda>b. b \<noteq> 0xff) (s @ 0xff # replicate k 0xff) = s"
      using assms(3) by (subst takeWhile_append2) auto
    with Suc show ?thesis using assms(4) by simp
  qed
  have len: "length s \<le> len"
    using arg_cong [OF assms(4), of length] assms(1) by simp
  have "copy_until src len 0xff = Some s"
    using assms(1) tw by (simp add: copy_until_eq)
  moreover have "drop (length s) (replicate (len + 1) 0) = 0 # replicate (len - length s) (0 :: byte)"
    using len by (simp add: Suc_diff_le del: replicate_Suc) simp
  ultimately have "sysvar_copy dst src len SYSVAR_BUF_TO_STR =
      Some (s @ 0 # replicate (len - length s) 0)"
    using assms(2) len by (simp add: sysvar_copy_def carr_simps del: replicate_Suc)
  then show ?thesis
    using cstr_of_nul_free [OF assms(5)] by blast
qed

section \<open>The flash layout of a variable\<close>

definition enc_var :: "sysvar_list \<Rightarrow> byte list" where
  "enc_var v = vname v @ replicate (SYSVAR_NAME - length (vname v)) 0xff @
     [word_of_nat (length (vvalue v) div 256), word_of_nat (length (vvalue v))] @ vvalue v"

lemma length_enc_var [simp]:
  "wf_var v \<Longrightarrow> length (enc_var v) = SYSVAR_NAME + 2 + length (vvalue v)"
  by (simp add: enc_var_def wf_var_def)

lemma enc_var_len_field:
  assumes "wf_var v"
  shows "enc_var v ! 32 = word_of_nat (length (vvalue v) div 256)"
    and "enc_var v ! 33 = word_of_nat (length (vvalue v))"
proof -
  define nm where "nm = vname v @ replicate (32 - length (vname v)) (0xff :: byte)"
  have "enc_var v = nm @ [word_of_nat (length (vvalue v) div 256), word_of_nat (length (vvalue v))]
      @ vvalue v" and "length nm = 32"
    using assms by (auto simp: enc_var_def nm_def wf_var_def)
  then show "enc_var v ! 32 = word_of_nat (length (vvalue v) div 256)"
    and "enc_var v ! 33 = word_of_nat (length (vvalue v))"
    by (simp_all add: nth_append)
qed

lemma vars_size_simps [simp]:
  "vars_size [] = 0"
  "vars_size (v # vs) = SYSVAR_NAME + 2 + length (vvalue v) + vars_size vs"
  "vars_size (us @ vs) = vars_size us + vars_size vs"
  by (simp_all add: vars_size_def)

lemma length_concat_enc [simp]:
  "list_all wf_var vs \<Longrightarrow> length (concat (map enc_var vs)) = vars_size vs"
  by (induction vs) auto

lemma vars_size_member: "v \<in> set vs \<Longrightarrow> SYSVAR_NAME + 2 + length (vvalue v) \<le> vars_size vs"
  by (induction vs) auto

lemma save_loop_prefix:
  "list_all wf_var vs \<Longrightarrow> i + vars_size vs \<le> total_len buf \<Longrightarrow> total_len buf \<le> length (data buf) \<Longrightarrow>
   \<forall>v \<in> set vs. int (length (vvalue v)) \<le> used_len buf \<Longrightarrow>
   save_loop i (vs @ ws) buf = save_loop (i + vars_size vs) ws (buf\<lparr>data :=
     take i (data buf) @ concat (map enc_var vs) @ drop (i + vars_size vs) (data buf)\<rparr>)"
proof (induction vs arbitrary: i buf)
  case Nil
  then show ?case by simp
next
  case (Cons v vs)
  define d where "d = data buf"
  define n where "n = length (vvalue v)"
  define nm where "nm = vname v @ replicate (SYSVAR_NAME - length (vname v)) (0xff :: byte)"
  have wf: "wf_var v" and len: "i + SYSVAR_NAME + 2 + n + vars_size vs \<le> length d"
    using Cons.prems by (simp_all add: d_def n_def)
  have nm32: "length nm = 32" and free: "nul_free (vname v)" "nul_free (vvalue v)"
    and le: "length (vname v) \<le> 32"
    using wf by (auto simp: nm_def wf_var_def)
  define d1 where "d1 = take i d @ nm @ drop (i + 32) d"
  have s1: "sysvar_copy_at d i (vname v @ [0]) SYSVAR_NAME SYSVAR_STR_TO_BUF = Some d1"
    using sysvar_copy_at_str [of "vname v" 32 i d] free le len by (simp add: d1_def nm_def)
  have l1: "length d1 = length d" using len nm32 by (simp add: d1_def)
  define ln where "ln = [word_of_nat (n div 256), word_of_nat n :: byte]"
  define d2 where "d2 = take i d @ nm @ ln @ drop (i + 34) d"
  have s2: "arr_put d1 (i + 32) ln = Some d2"
    using len nm32 by (simp add: arr_put_def d1_def d2_def ln_def add.commute)
  define d3 where "d3 = take i d @ nm @ ln @ vvalue v @ drop (i + 34 + n) d"
  have s3: "sysvar_copy_at d2 (i + 34) (vvalue v @ [0]) n SYSVAR_STR_TO_BUF = Some d3"
    using sysvar_copy_at_str [of "vvalue v" n "i + 34" d2] free len nm32
    by (simp add: d2_def d3_def ln_def n_def add.commute)
  have l3: "length d3 = length d" using len nm32 by (simp add: d3_def ln_def n_def)
  have IH: "save_loop (i + 34 + n) (vs @ ws) (buf\<lparr>data := d3\<rparr>) =
      save_loop (i + 34 + n + vars_size vs) ws (buf\<lparr>data :=
        take (i + 34 + n) d3 @ concat (map enc_var vs) @ drop (i + 34 + n + vars_size vs) d3\<rparr>)"
    using Cons.IH [of "i + 34 + n" "buf\<lparr>data := d3\<rparr>"] Cons.prems l3
    by (simp add: n_def d_def)
  have "take (i + 34 + n) d3 = take i d @ enc_var v"
    using len nm32 by (simp add: d3_def enc_var_def nm_def ln_def n_def)
  moreover have "drop (i + 34 + n + vars_size vs) d3 = drop (i + vars_size (v # vs)) d"
    using len nm32 by (simp add: d3_def ln_def n_def add.commute add.left_commute)
  ultimately show ?case
    using IH s1 s2 s3 Cons.prems
    by (simp add: d_def [symmetric] n_def [symmetric] ln_def [symmetric] add.commute [of 34 i]
        add.assoc)
qed

lemma save_loop_eq:
  "list_all wf_var vs \<Longrightarrow> i + vars_size vs \<le> total_len buf \<Longrightarrow> total_len buf \<le> length (data buf) \<Longrightarrow>
   \<forall>v \<in> set vs. int (length (vvalue v)) \<le> used_len buf \<Longrightarrow>
   save_loop i vs buf = Some (SYSVAR_SUCCESS, buf\<lparr>data :=
     take i (data buf) @ concat (map enc_var vs) @ drop (i + vars_size vs) (data buf)\<rparr>)"
  using save_loop_prefix [of vs i buf "[]"] by simp

lemma sysvar_copy_at_None:
  "length d < i + len \<Longrightarrow> sysvar_copy_at d i src len SYSVAR_STR_TO_BUF = None"
  by (auto simp: sysvar_copy_at_def sysvar_copy_def arr_put_def)

lemma sysvar_copy_length:
  "sysvar_copy dst src len e = Some m \<Longrightarrow> length m = length dst"
  by (auto simp: sysvar_copy_def bind_eq_Some_conv dest!: arr_put_length split: if_splits)

lemma sysvar_copy_at_length:
  "sysvar_copy_at d i src len e = Some d' \<Longrightarrow> length d' = length d"
  by (auto simp: sysvar_copy_at_def dest!: sysvar_copy_length split: if_splits)

lemma save_loop_overflow:
  assumes len: "length (data buf) < i + SYSVAR_NAME + 2 + length (vvalue v)"
    and "i < total_len buf" "int (length (vvalue v)) \<le> used_len buf"
  shows "save_loop i (v # vs) buf = None"
proof (cases "sysvar_copy_at (data buf) i (vname v @ [0]) SYSVAR_NAME SYSVAR_STR_TO_BUF")
  case None
  then show ?thesis using assms by simp
next
  case d1: (Some d1)
  show ?thesis
  proof (cases "arr_put d1 (i + SYSVAR_NAME)
      [word_of_nat (length (vvalue v) div 256), word_of_nat (length (vvalue v))]")
    case None
    then show ?thesis using assms d1 by simp
  next
    case (Some d2)
    then have "length d2 = length (data buf)"
      using d1 by (auto dest!: arr_put_length sysvar_copy_at_length)
    then have "sysvar_copy_at d2 (i + SYSVAR_NAME + 2) (vvalue v @ [0]) (length (vvalue v))
        SYSVAR_STR_TO_BUF = None"
      using len by (intro sysvar_copy_at_None) simp
    then show ?thesis using assms d1 Some by simp
  qed
qed

lemma buf_malloc_ok [simp]: "mallocs buf = [] \<Longrightarrow> buf_malloc buf = (True, buf)"
  by (simp add: buf_malloc_def)

lemma set_var_ok:
  "mallocs buf = [] \<Longrightarrow> length name \<le> SYSVAR_NAME \<Longrightarrow>
     set_var buf name value = (SYSVAR_SUCCESS, sysvar_len
       (buf\<lparr>vars := vars buf @ [\<lparr>vname = name, vvalue = value, vlen = int (34 + length value)\<rparr>]\<rparr>)
       (int (34 + length value)))"
  by (simp add: set_var_def)

lemma sysvar_len_in_range:
  "0 \<le> used_len buf + n \<Longrightarrow> used_len buf + n \<le> int (total_len buf) \<Longrightarrow>
     sysvar_len buf n = buf\<lparr>used_len := used_len buf + n,
       free_len := int (total_len buf) - (used_len buf + n)\<rparr>"
  by (simp add: sysvar_len_def Let_def)

lemma len_field:
  "n < 65536 \<Longrightarrow> unat (word_of_nat (n div 256) :: byte) * 256 + unat (word_of_nat n :: byte) = n"
  by (simp add: unsigned_of_nat take_bit_eq_mod)

lemma load_step:
  assumes v: "storable v" and m: "mallocs buf = []"
    and i: "i + 34 + length (vvalue v) \<le> total_len buf" "total_len buf \<le> length (data buf)"
      "total_len buf < 65536"
    and d: "take (34 + length (vvalue v)) (drop i (data buf)) = enc_var v"
    and u: "used_len buf = int i" "free_len buf = int (total_len buf) - int i"
  shows "load_loop i SYSVAR_SUCCESS buf = load_loop (i + 34 + length (vvalue v)) SYSVAR_SUCCESS
    (buf\<lparr>vars := vars buf @ [v], used_len := int (i + 34 + length (vvalue v)),
      free_len := int (total_len buf) - int (i + 34 + length (vvalue v))\<rparr>)"
proof -
  define n where "n = length (vvalue v)"
  define rest where "rest = drop (34 + n) (drop i (data buf))"
  have wf: "wf_var v" using v by (simp add: storable_def)
  have drp: "drop i (data buf) = enc_var v @ rest"
    using d by (metis append_take_drop_id rest_def n_def)
  have nm: "length (vname v) \<le> 32" "nul_free (vname v)" "nul_free (vvalue v)" "vname v \<noteq> []"
    "0xff \<notin> set (vname v)" "0xff \<notin> set (vvalue v)"
    using v by (auto simp: storable_def wf_var_def)
  have at: "k < 34 + n \<Longrightarrow> data buf ! (i + k) = enc_var v ! k" for k
    using arg_cong [OF drp, of "\<lambda>l. l ! k"] i wf by (simp add: n_def nth_append)
  have b0: "arr_get (data buf) i = Some (hd (vname v))"
    using at [of 0] i nm by (simp add: arr_get_def enc_var_def nth_append hd_conv_nth)
  have b0': "hd (vname v) \<noteq> 0xff"
    using nm by (metis hd_in_set)
  have fit: "32 \<le> length (drop i (data buf))" "n \<le> length (drop (i + 32 + 2) (data buf))"
    using i by (simp_all add: n_def)
  have "take 32 (drop i (data buf)) = vname v @ replicate (32 - length (vname v)) 0xff"
    using nm by (simp add: drp enc_var_def)
  then obtain mn where mn: "sysvar_copy (replicate (SYSVAR_NAME + 1) 0) (drop i (data buf)) SYSVAR_NAME
      SYSVAR_BUF_TO_STR = Some mn" "cstr_of mn = vname v"
    using sysvar_copy_buf [of 32 "drop i (data buf)" "replicate (SYSVAR_NAME + 1) 0" "vname v"] nm fit
    by auto
  have hi: "arr_get (data buf) (i + 32) = Some (word_of_nat (n div 256))"
    using at [of 32] i by (simp add: arr_get_def enc_var_len_field [OF wf] n_def)
  have lo: "arr_get (data buf) (i + 32 + 1) = Some (word_of_nat n)"
    using at [of 33] i by (simp add: arr_get_def enc_var_len_field [OF wf] n_def add.commute)
  have len: "unat (word_of_nat (n div 256) :: byte) * 256 + unat (word_of_nat n :: byte) = n"
    by (rule len_field) (use i in \<open>simp add: n_def\<close>)
  have "take n (drop (i + 32 + 2) (data buf)) = vvalue v"
  proof -
    have "drop (i + 32 + 2) (data buf) = drop 34 (drop i (data buf))" by (simp add: add.commute)
    also have "\<dots> = vvalue v @ rest" using nm by (simp add: drp enc_var_def)
    finally show ?thesis by (simp add: n_def)
  qed
  then obtain mv where mv: "sysvar_copy (replicate (n + 1) 0) (drop (i + 32 + 2) (data buf)) n
      SYSVAR_BUF_TO_STR = Some mv" "cstr_of mv = vvalue v"
    using sysvar_copy_buf [of n "drop (i + 32 + 2) (data buf)" "replicate (n + 1) 0" "vvalue v"] nm fit
    by (auto simp: n_def)
  have ret: "set_var buf (vname v) (vvalue v) = (SYSVAR_SUCCESS,
      buf\<lparr>vars := vars buf @ [v], used_len := int (i + 34 + n),
        free_len := int (total_len buf) - int (i + 34 + n)\<rparr>)"
    using m nm i u wf
    by (simp add: set_var_ok sysvar_len_in_range n_def wf_var_def)
  have len_int: "uint (word_of_nat (n div 256) :: byte) * 256 + uint (word_of_nat n :: byte) = int n"
    using arg_cong [OF len, of int] by simp
  show ?thesis
    unfolding n_def [symmetric]
    using i b0 b0' mn hi lo len len_int mv ret m u
    by (subst load_loop.simps) (simp add: n_def [symmetric] Let_def add.commute [of 34 i])
qed

lemma load_loop_prefix:
  "list_all storable vs \<Longrightarrow> mallocs buf = [] \<Longrightarrow> i + vars_size vs \<le> total_len buf \<Longrightarrow>
   total_len buf \<le> length (data buf) \<Longrightarrow> total_len buf < 65536 \<Longrightarrow>
   take (vars_size vs) (drop i (data buf)) = concat (map enc_var vs) \<Longrightarrow>
   used_len buf = int i \<Longrightarrow> free_len buf = int (total_len buf) - int i \<Longrightarrow>
   load_loop i SYSVAR_SUCCESS buf = load_loop (i + vars_size vs) SYSVAR_SUCCESS
     (buf\<lparr>vars := vars buf @ vs, used_len := int (i + vars_size vs),
       free_len := int (total_len buf) - int (i + vars_size vs)\<rparr>)"
proof (induction vs arbitrary: i buf)
  case Nil
  then show ?case by (cases buf) simp
next
  case (Cons v vs)
  define n where "n = length (vvalue v)"
  have wf: "wf_var v" using Cons.prems by (simp add: storable_def)
  have all: "take (34 + n + vars_size vs) (drop i (data buf)) = enc_var v @ concat (map enc_var vs)"
    using Cons.prems by (simp add: n_def)
  have "take (34 + n) (drop i (data buf)) =
      take (34 + n) (take (34 + n + vars_size vs) (drop i (data buf)))"
    by simp
  then have hd: "take (34 + n) (drop i (data buf)) = enc_var v"
    using wf unfolding all by (simp add: n_def)
  have "drop (34 + n) (take (34 + n + vars_size vs) (drop i (data buf))) = concat (map enc_var vs)"
    unfolding all using wf by (simp add: n_def)
  then have tl: "take (vars_size vs) (drop (i + 34 + n) (data buf)) = concat (map enc_var vs)"
    by (simp add: drop_take add.commute add.left_commute)
  define b where "b = buf\<lparr>vars := vars buf @ [v], used_len := int (i + 34 + n),
      free_len := int (total_len buf) - int (i + 34 + n)\<rparr>"
  have "load_loop i SYSVAR_SUCCESS buf = load_loop (i + 34 + n) SYSVAR_SUCCESS b"
    using load_step [of v buf i] Cons.prems hd by (simp add: n_def b_def)
  also have "\<dots> = load_loop (i + 34 + n + vars_size vs) SYSVAR_SUCCESS
      (b\<lparr>vars := vars b @ vs, used_len := int (i + 34 + n + vars_size vs),
        free_len := int (total_len b) - int (i + 34 + n + vars_size vs)\<rparr>)"
    using Cons.prems tl by (intro Cons.IH) (simp_all add: b_def n_def)
  finally show ?case by (simp add: b_def n_def add.assoc)
qed

lemma load_loop_eq:
  assumes "list_all storable vs" "mallocs buf = []" "i + vars_size vs \<le> total_len buf"
   "total_len buf \<le> length (data buf)" "total_len buf < 65536"
   "take (vars_size vs) (drop i (data buf)) = concat (map enc_var vs)"
   "i + vars_size vs = total_len buf \<or> data buf ! (i + vars_size vs) = 0xff"
   "used_len buf = int i" "free_len buf = int (total_len buf) - int i"
 shows "load_loop i SYSVAR_SUCCESS buf = Some (SYSVAR_SUCCESS, buf\<lparr>vars := vars buf @ vs,
     used_len := int (i + vars_size vs), free_len := int (total_len buf) - int (i + vars_size vs)\<rparr>)"
proof -
  have stop: "load_loop k SYSVAR_SUCCESS b = Some (SYSVAR_SUCCESS, b)"
    if "k = total_len b \<or> data b ! k = 0xff" "total_len b \<le> length (data b)" for k b
    using that by (subst load_loop.simps) (auto simp: arr_get_def)
  show ?thesis
    using assms(7,4) by (subst load_loop_prefix [OF assms(1-6,8,9)]) (rule stop, auto)
qed

lemma copy_until_None: "e \<notin> set src \<Longrightarrow> length src < n \<Longrightarrow> copy_until src n e = None"
  by (induction src n e rule: copy_until.induct) auto

lemma load_loop_overread:
  assumes "i < total_len buf" "total_len buf \<le> length (data buf)" "length (data buf) < i + SYSVAR_NAME"
    "0xff \<notin> set (drop i (data buf))"
  shows "load_loop i SYSVAR_SUCCESS buf = None"
proof -
  have "data buf ! i \<in> set (drop i (data buf))"
    using assms(1,2) by (metis hd_drop_conv_nth hd_in_set drop_eq_Nil not_less order.strict_trans2)
  then have "data buf ! i \<noteq> 0xff" using assms(4) by metis
  moreover have "copy_until (drop i (data buf)) SYSVAR_NAME 0xff = None"
    using assms(3,4) by (intro copy_until_None) auto
  ultimately show ?thesis
    using assms(1,2) by (subst load_loop.simps) (simp add: arr_get_def sysvar_copy_def carr_simps)
qed

section \<open>Clearing, looking up, deleting\<close>

lemma unlink_walk_eq:
  "0 < p \<Longrightarrow> unlink_walk vs p =
     (if p < length vs then Some (take p vs @ drop (Suc p) vs) else None)"
proof (induction vs p rule: unlink_walk.induct)
  case (1 p)
  then show ?case by simp
next
  case (2 node rest p)
  show ?case
  proof (cases "p = 1")
    case True
    then show ?thesis by (cases rest) (simp_all add: drop_Suc)
  next
    case False
    then obtain q where "p = Suc q" "0 < q" using "2.prems" by (cases p) auto
    with "2.IH" show ?thesis by simp
  qed
qed

lemma delete_var_eq:
  "delete_var buf p =
     (if p < length (vars buf)
      then (SYSVAR_SUCCESS, sysvar_len (buf\<lparr>vars := take p (vars buf) @ drop (Suc p) (vars buf)\<rparr>)
             (- vlen (vars buf ! p)))
      else (SYSVAR_DELETE_ERR, buf))"
proof (cases "p = 0")
  case True
  then show ?thesis by (cases "vars buf") (simp_all add: delete_var_def)
next
  case False
  then show ?thesis by (simp add: delete_var_def unlink_walk_eq)
qed

lemma find_loop_shift:
  "find_loop vs name k = map_option (\<lambda>p. k + p) (find_loop vs name 0)"
proof (induction vs arbitrary: k)
  case Nil
  then show ?case by simp
next
  case (Cons v vs)
  show ?case
    by (simp add: Cons.IH [of "Suc k"] Cons.IH [of "Suc 0"] option.map_comp o_def)
qed

lemma find_var_Some:
  "find_var buf (Some name) = Some p \<Longrightarrow>
     p < length (vars buf) \<and> take SYSVAR_NAME (vname (vars buf ! p)) = take SYSVAR_NAME name \<and>
     (\<forall>q < p. take SYSVAR_NAME (vname (vars buf ! q)) \<noteq> take SYSVAR_NAME name)"
proof -
  have "find_loop vs name 0 = Some p \<Longrightarrow> p < length vs \<and>
      take SYSVAR_NAME (vname (vs ! p)) = take SYSVAR_NAME name \<and>
      (\<forall>q < p. take SYSVAR_NAME (vname (vs ! q)) \<noteq> take SYSVAR_NAME name)" for vs
  proof (induction vs arbitrary: p)
    case Nil
    then show ?case by simp
  next
    case (Cons v vs)
    then show ?case
      by (auto simp: cstr_simps find_loop_shift [of vs name "Suc 0"] less_Suc_eq_0_disj
          split: if_splits)
  qed
  then show "find_var buf (Some name) = Some p \<Longrightarrow> ?thesis" by (simp add: find_var_def)
qed

lemma find_var_None:
  "find_var buf (Some name) = None \<longleftrightarrow>
     (\<forall>v \<in> set (vars buf). take SYSVAR_NAME (vname v) \<noteq> take SYSVAR_NAME name)"
proof -
  have "find_loop vs name k = None \<longleftrightarrow>
      (\<forall>v \<in> set vs. take SYSVAR_NAME (vname v) \<noteq> take SYSVAR_NAME name)" for vs k
    by (induction vs arbitrary: k) (auto simp: cstr_simps)
  then show ?thesis by (simp add: find_var_def)
qed

lemma sysvar_len_fields [frame_simps]:
  "data (sysvar_len buf n) = data buf" "data_len (sysvar_len buf n) = data_len buf"
  "vars (sysvar_len buf n) = vars buf" "mallocs (sysvar_len buf n) = mallocs buf"
  "used_len (sysvar_len buf n) = min (int (total_len buf)) (max 0 (used_len buf + n))"
  "free_len (sysvar_len buf n) = int (total_len buf) - used_len (sysvar_len buf n)"
  "data_ptr (sysvar_len buf n) = data_ptr buf" "list_ptr (sysvar_len buf n) = list_ptr buf"
  "readonly (sysvar_len buf n) = readonly buf" "loaded (sysvar_len buf n) = loaded buf"
  "modified (sysvar_len buf n) = modified buf" "failed (sysvar_len buf n) = failed buf"
  by (simp_all add: sysvar_len_def Let_def min_def max_def)

lemma buf_malloc_cases:
  obtains ok ms where "buf_malloc buf = (ok, buf\<lparr>mallocs := ms\<rparr>)"
  by (cases "mallocs buf") (auto simp: buf_malloc_def intro: that [of True "mallocs buf"])

lemma wf_buf_mallocs [simp]: "wf_buf (buf\<lparr>mallocs := ms\<rparr>) = wf_buf buf"
  by (simp add: wf_buf_def)

lemma set_var_cases:
  assumes "set_var buf name value = (ret, buf')"
  obtains ms where "ret = SYSVAR_SUCCESS" "length name \<le> SYSVAR_NAME"
    "buf' = sysvar_len (buf\<lparr>mallocs := ms, vars := vars buf @
       [\<lparr>vname = name, vvalue = value, vlen = int (34 + length value)\<rparr>]\<rparr>) (int (34 + length value))"
  | ms where "ret = SYSVAR_MEMORY_ERR" "length name \<le> SYSVAR_NAME" "buf' = buf\<lparr>mallocs := ms\<rparr>"
  | "ret = SYSVAR_PARAM_ERR" "SYSVAR_NAME < length name" "buf' = buf"
proof -
  obtain ok ms where m: "buf_malloc buf = (ok, buf\<lparr>mallocs := ms\<rparr>)" by (rule buf_malloc_cases)
  obtain ok' ms' where m': "buf_malloc (buf\<lparr>mallocs := ms\<rparr>) = (ok', buf\<lparr>mallocs := ms'\<rparr>)"
    by (rule buf_malloc_cases [of "buf\<lparr>mallocs := ms\<rparr>"]) simp
  show thesis
    using assms that m m'
    by (auto simp: set_var_def Let_def split: if_splits bool.splits)
qed

lemma set_var_wf:
  assumes "wf_buf buf" "nul_free name" "nul_free value" "set_var buf name value = (ret, buf')"
  shows "wf_buf buf'"
  using assms(4)
proof (cases rule: set_var_cases)
  case (1 ms)
  then show ?thesis
    using assms(1-3) by (auto simp: wf_buf_def wf_var_def frame_simps)
qed (use assms(1) in auto)

lemma vars_size_remove:
  "p < length vs \<Longrightarrow> vars_size vs =
     34 + length (vvalue (vs ! p)) + vars_size (take p vs @ drop (Suc p) vs)"
proof -
  assume "p < length vs"
  then have "vs = take p vs @ vs ! p # drop (Suc p) vs" by (rule id_take_nth_drop)
  from arg_cong [OF this, of vars_size] show ?thesis by simp
qed

lemma delete_var_wf:
  assumes "wf_buf buf" "delete_var buf p = (ret, buf')"
  shows "wf_buf buf'"
proof (cases "p < length (vars buf)")
  case True
  have "list_all wf_var (take p (vars buf) @ drop (Suc p) (vars buf))" and "wf_var (vars buf ! p)"
    using assms(1) True
    by (auto simp: wf_buf_def list_all_iff dest: in_set_takeD in_set_dropD)
  with assms True vars_size_remove [OF True] show ?thesis
    by (auto simp: delete_var_eq wf_buf_def frame_simps wf_var_def)
next
  case False
  with assms show ?thesis by (simp add: delete_var_eq)
qed

lemma clear_loop_eq:
  "vars buf = vs \<Longrightarrow> wf_buf buf \<Longrightarrow> clear_loop vs SYSVAR_SUCCESS buf =
     (SYSVAR_SUCCESS, buf\<lparr>vars := [], used_len := 0, free_len := int (total_len buf)\<rparr>)"
proof (induction vs arbitrary: buf)
  case Nil
  then show ?case by (simp add: wf_buf_def)
next
  case (Cons v vs)
  obtain buf' where d: "delete_var buf 0 = (SYSVAR_SUCCESS, buf')"
    "buf' = sysvar_len (buf\<lparr>vars := vs\<rparr>) (- vlen v)"
    using Cons.prems(1) by (simp add: delete_var_eq)
  have "wf_buf buf'" using d(1) Cons.prems(2) by (rule delete_var_wf [rotated])
  moreover have "vars buf' = vs" by (simp add: d(2) frame_simps)
  ultimately have "clear_loop vs SYSVAR_SUCCESS buf' =
      (SYSVAR_SUCCESS, buf'\<lparr>vars := [], used_len := 0, free_len := int (total_len buf')\<rparr>)"
    by (rule Cons.IH [rotated])
  then show ?case
    by (simp add: d sysvar_len_def Let_def)
qed

lemma clear_var_eq:
  "wf_buf buf \<Longrightarrow> clear_var buf =
     (SYSVAR_SUCCESS, buf\<lparr>vars := [], used_len := 0, free_len := int (total_len buf)\<rparr>)"
  by (simp add: clear_var_def clear_loop_eq)

section \<open>Checksum and write counter\<close>

definition image_ok :: "nat \<Rightarrow> byte list \<Rightarrow> bool" where
  "image_ok n d \<longleftrightarrow> n + SYSVAR_HEAD \<le> length d \<and> word_at d (n + SYSVAR_WC32) = Some (crc_ref (take n d))"

lemma word_at_Some:
  "i + 4 \<le> length d \<Longrightarrow> word_at d i = Some (le_word (d ! i) (d ! (i + 1)) (d ! (i + 2)) (d ! (i + 3)))"
  by (simp add: word_at_def arr_get_def)

lemma word_at_append: "length p \<le> i \<Longrightarrow> word_at (p @ z) i = word_at z (i - length p)"
proof -
  assume "length p \<le> i"
  then obtain k where "i = length p + k" by (auto simp: le_iff_add)
  then show ?thesis by (simp add: word_at_def arr_get_def nth_append)
qed

lemma word_at_put:
  assumes "arr_put d i (le_bytes w) = Some d'"
  shows "word_at d' i = Some w"
proof -
  have "i + 4 \<le> length d" and d': "d' = take i d @ le_bytes w @ drop (i + 4) d"
    using assms by (auto simp: arr_put_def split: if_splits)
  then have "word_at d' i =
      Some (le_word (le_bytes w ! 0) (le_bytes w ! 1) (le_bytes w ! 2) (le_bytes w ! 3))"
    by (simp add: word_at_Some nth_append le_bytes_def)
  then show ?thesis by (simp add: le_bytes_def le_word_bytes)
qed

lemma word_at_put_other:
  assumes "arr_put d i bs = Some d'" "j + 4 \<le> i \<or> i + length bs \<le> j" "j + 4 \<le> length d"
  shows "word_at d' j = word_at d j"
  using assms arr_put_nth_other [OF assms(1)] arr_put_length [OF assms(1)]
  by (auto simp: word_at_Some)

lemma image_ok_set_crc32:
  assumes "total_len buf + SYSVAR_HEAD \<le> length (data buf)"
  obtains d where "set_crc32 buf = Some (buf\<lparr>data := d\<rparr>)" "length d = length (data buf)"
    "take (total_len buf) d = take (total_len buf) (data buf)"
    "word_at d (total_len buf) = word_at (data buf) (total_len buf)" "image_ok (total_len buf) d"
proof -
  define c where "c = crc_ref (take (total_len buf) (data buf))"
  obtain d where d: "arr_put (data buf) (total_len buf + 4) (le_bytes c) = Some d"
    using assms by (simp add: arr_put_def)
  have "set_crc32 buf = Some (buf\<lparr>data := d\<rparr>)"
    using assms d by (simp add: set_crc32_def sysvar_crc_ref c_def)
  moreover have t: "take (total_len buf) d = take (total_len buf) (data buf)"
    using arr_put_take [OF d] by simp
  moreover have "image_ok (total_len buf) d"
    using word_at_put [OF d] arr_put_length [OF d] assms t by (simp add: image_ok_def c_def)
  moreover have "word_at d (total_len buf) = word_at (data buf) (total_len buf)"
    using word_at_put_other [OF d, of "total_len buf"] assms by simp
  ultimately show thesis
    using that [of d] arr_put_length [OF d] by simp
qed

lemma image_ok_set_wc32:
  assumes "total_len buf + SYSVAR_HEAD \<le> length (data buf)"
  obtains d where "set_wc32 buf = Some (buf\<lparr>data := d\<rparr>)" "length d = length (data buf)"
    "take (total_len buf) d = take (total_len buf) (data buf)"
    "word_at d (total_len buf) = map_option (\<lambda>w. w + 1) (word_at (data buf) (total_len buf))"
    "image_ok (total_len buf) d = image_ok (total_len buf) (data buf)"
proof -
  obtain w where w: "word_at (data buf) (total_len buf) = Some w"
    using assms by (simp add: word_at_Some)
  obtain d where d: "arr_put (data buf) (total_len buf) (le_bytes (w + 1)) = Some d"
    using assms by (simp add: arr_put_def)
  have "set_wc32 buf = Some (buf\<lparr>data := d\<rparr>)" using w d by (simp add: set_wc32_def get_wc32_def)
  moreover have t: "take (total_len buf) d = take (total_len buf) (data buf)"
    using arr_put_take [OF d] by simp
  moreover have "image_ok (total_len buf) d = image_ok (total_len buf) (data buf)"
    using word_at_put_other [OF d, of "total_len buf + 4"] arr_put_length [OF d] assms t
    by (simp add: image_ok_def)
  moreover have "word_at d (total_len buf) = Some (w + 1)"
    using word_at_put [OF d] by simp
  ultimately show thesis
    using that [of d] arr_put_length [OF d] w by simp
qed

lemma check_var_load:
  assumes "total_len buf + SYSVAR_HEAD \<le> length (data buf)"
  shows "check_var buf SYSVAR_LOAD_MODE =
    Some (if image_ok (total_len buf) (data buf) then (SYSVAR_SUCCESS, buf\<lparr>modified := False\<rparr>)
          else (SYSVAR_CRC_ERR, buf))"
  using assms by (simp add: get_crc32_def sysvar_crc_ref word_at_Some image_ok_def)

lemma wf_buf_data:
  "wf_buf buf \<Longrightarrow> length d = length (data buf) \<Longrightarrow> wf_buf (buf\<lparr>data := d\<rparr>)"
  by (simp add: wf_buf_def)

lemma save_var_eq:
  assumes "wf_buf buf" "used_len buf = int (vars_size (vars buf))"
  obtains d where "save_var buf = Some (SYSVAR_SUCCESS, buf\<lparr>data := d, modified := True\<rparr>)"
    "length d = data_len buf"
    "take (total_len buf) d = concat (map enc_var (vars buf)) @
       replicate (total_len buf - vars_size (vars buf)) 0xff"
    "image_ok (total_len buf) d"
proof -
  define d0 where "d0 = replicate (data_len buf) (0xff :: byte)"
  define d1 where "d1 = concat (map enc_var (vars buf)) @
    replicate (data_len buf - vars_size (vars buf)) 0xff"
  have wf: "list_all wf_var (vars buf)" and len: "length (data buf) = data_len buf"
    "data_len buf = total_len buf + 8" and fit: "vars_size (vars buf) \<le> total_len buf"
    using assms by (auto simp: wf_buf_def)
  have put: "arr_put (data buf) 0 d0 = Some d0" using len by (simp add: arr_put_def d0_def)
  have "save_loop 0 (vars buf) (buf\<lparr>data := d0\<rparr>) = Some (SYSVAR_SUCCESS, buf\<lparr>data := d1\<rparr>)"
    using save_loop_eq [of "vars buf" 0 "buf\<lparr>data := d0\<rparr>"] wf fit len assms(2) vars_size_member
    by (fastforce simp: d0_def d1_def)
  moreover have l1: "length d1 = data_len buf" using wf fit len by (simp add: d1_def)
  obtain d where b: "set_crc32 (buf\<lparr>data := d1\<rparr>) = Some (buf\<lparr>data := d\<rparr>)"
    "length d = length d1" "take (total_len buf) d = take (total_len buf) d1"
    "image_ok (total_len buf) d"
    using image_ok_set_crc32 [of "buf\<lparr>data := d1\<rparr>"] l1 len by auto
  ultimately have "save_var buf = Some (SYSVAR_SUCCESS, buf\<lparr>data := d, modified := True\<rparr>)"
    using put by (simp add: save_var_def d0_def)
  moreover have "take (total_len buf) d1 = concat (map enc_var (vars buf)) @
       replicate (total_len buf - vars_size (vars buf)) 0xff"
    using wf fit len by (simp add: d1_def min_def)
  ultimately show thesis using that [of d] b l1 by simp
qed

lemma load_var_saved:
  assumes wf: "wf_buf buf" and m: "mallocs buf = []" and st: "list_all storable vs"
    and fit: "vars_size vs \<le> total_len buf"
    and img: "take (total_len buf) (data buf) = concat (map enc_var vs) @
       replicate (total_len buf - vars_size vs) 0xff"
  shows "load_var buf = Some (SYSVAR_SUCCESS, buf\<lparr>vars := vs, used_len := int (vars_size vs),
      free_len := int (total_len buf) - int (vars_size vs)\<rparr>)"
proof -
  define b where "b = buf\<lparr>vars := [], used_len := 0, free_len := int (total_len buf)\<rparr>"
  have len: "length (data buf) = total_len buf + 8" "total_len buf < 65536"
    using wf by (auto simp: wf_buf_def)
  have lenc: "length (concat (map enc_var vs)) = vars_size vs"
    using st by (intro length_concat_enc) (auto simp: storable_def list_all_iff)
  have tk: "take (vars_size vs) (data buf) = concat (map enc_var vs)"
  proof -
    have "take (vars_size vs) (data buf) = take (vars_size vs) (take (total_len buf) (data buf))"
      using fit by (simp add: min_def)
    also have "\<dots> = concat (map enc_var vs)" unfolding img using lenc by simp
    finally show ?thesis .
  qed
  have stop: "vars_size vs = total_len buf \<or> data buf ! vars_size vs = 0xff"
  proof (cases "vars_size vs < total_len buf")
    case True
    have "data buf ! vars_size vs = take (total_len buf) (data buf) ! vars_size vs"
      using True len by simp
    also have "\<dots> = 0xff" unfolding img using lenc True by (simp add: nth_append)
    finally show ?thesis by simp
  qed (use fit in simp)
  have "load_loop 0 SYSVAR_SUCCESS b = Some (SYSVAR_SUCCESS, b\<lparr>vars := vars b @ vs,
      used_len := int (0 + vars_size vs), free_len := int (total_len b) - int (0 + vars_size vs)\<rparr>)"
    using st m fit len tk stop by (intro load_loop_eq) (simp_all add: b_def)
  then show ?thesis
    using clear_var_eq [OF wf] by (simp add: load_var_def b_def)
qed

definition sample_var :: sysvar_list where
  "sample_var = \<lparr>vname = [65], vvalue = [66, 67], vlen = 36\<rparr>"

definition sample_buf :: sysvar_buf where
  "sample_buf = \<lparr>data = replicate 48 7, data_ptr = Ptr_Live, data_len = 48, total_len = 40,
     free_len = 4, used_len = 36, loaded = True, modified = False, readonly = False,
     failed = (False, False), vars = [sample_var], list_ptr = Ptr_Live, mallocs = []\<rparr>"

lemma sample_buf_ok:
  "wf_buf sample_buf" "mallocs sample_buf = []" "list_all storable (vars sample_buf)"
  "used_len sample_buf = int (vars_size (vars sample_buf))"
  by (simp_all add: sample_buf_def sample_var_def wf_buf_def wf_var_def storable_def)

section \<open>Properties\<close>

text \<open>
  Claim C1. Saving and loading are inverse: from a well-formed buffer whose variables fit and hold
  no byte \<open>0xff\<close>, \<open>save_var\<close> succeeds without touching memory outside the block, the block it
  writes passes the checksum test, and \<open>load_var\<close> rebuilds exactly the same list of variables
  and the same accounting.
\<close>
theorem save_load_roundtrip:
  assumes "wf_buf buf" "mallocs buf = []" "list_all storable (vars buf)"
    "used_len buf = int (vars_size (vars buf))"
  shows "\<exists>b1 b2. save_var buf = Some (SYSVAR_SUCCESS, b1) \<and>
    check_var b1 SYSVAR_LOAD_MODE = Some (SYSVAR_SUCCESS, b1\<lparr>modified := False\<rparr>) \<and>
    load_var b1 = Some (SYSVAR_SUCCESS, b2) \<and> vars b2 = vars buf \<and>
    used_len b2 = used_len buf \<and> free_len b2 = free_len buf"
proof -
  obtain d where d: "save_var buf = Some (SYSVAR_SUCCESS, buf\<lparr>data := d, modified := True\<rparr>)"
    "length d = data_len buf"
    "take (total_len buf) d = concat (map enc_var (vars buf)) @
       replicate (total_len buf - vars_size (vars buf)) 0xff"
    "image_ok (total_len buf) d"
    using assms(1,4) by (rule save_var_eq)
  define b1 where "b1 = buf\<lparr>data := d, modified := True\<rparr>"
  have "wf_buf b1" using d(2) assms(1) by (simp add: b1_def wf_buf_def)
  then have "load_var b1 = Some (SYSVAR_SUCCESS, b1\<lparr>vars := vars buf,
      used_len := int (vars_size (vars buf)),
      free_len := int (total_len b1) - int (vars_size (vars buf))\<rparr>)"
    using assms d(3) by (intro load_var_saved) (simp_all add: b1_def wf_buf_def)
  moreover have "check_var b1 SYSVAR_LOAD_MODE = Some (SYSVAR_SUCCESS, b1\<lparr>modified := False\<rparr>)"
    using check_var_load [of b1] d(2,4) assms(1) by (simp add: b1_def wf_buf_def)
  ultimately show ?thesis
    using d(1) assms(1,4) by (auto simp: b1_def wf_buf_def)
qed

theorem save_load_roundtrip_witness:
  "\<exists>b1 b2. save_var sample_buf = Some (SYSVAR_SUCCESS, b1) \<and>
    check_var b1 SYSVAR_LOAD_MODE = Some (SYSVAR_SUCCESS, b1\<lparr>modified := False\<rparr>) \<and>
    load_var b1 = Some (SYSVAR_SUCCESS, b2) \<and> vars b2 = vars sample_buf \<and>
    used_len b2 = used_len sample_buf \<and> free_len b2 = free_len sample_buf"
  by (rule save_load_roundtrip) (rule sample_buf_ok)+

text \<open>
  The checksum cycle: storing the checksum (mode SET) and then bumping the write counter
  (mode SAVE) leaves a block that passes the check (mode LOAD), with the payload unchanged and the
  counter one higher modulo \<open>2 ^ 32\<close>.
\<close>
lemma check_var_cycle:
  assumes "wf_buf buf"
  shows "\<exists>b1 b2. check_var buf SYSVAR_SET_MODE = Some (SYSVAR_SUCCESS, b1) \<and>
    check_var b1 SYSVAR_SAVE_MODE = Some (SYSVAR_SUCCESS, b2) \<and>
    check_var b2 SYSVAR_LOAD_MODE = Some (SYSVAR_SUCCESS, b2) \<and>
    get_wc32 b2 = map_option (\<lambda>w. w + 1) (get_wc32 buf) \<and>
    take (total_len buf) (data b2) = take (total_len buf) (data buf)"
proof -
  have len: "total_len buf + 8 \<le> length (data buf)" using assms by (simp add: wf_buf_def)
  obtain c where c: "set_crc32 buf = Some (buf\<lparr>data := c\<rparr>)" "length c = length (data buf)"
    "take (total_len buf) c = take (total_len buf) (data buf)"
    "word_at c (total_len buf) = word_at (data buf) (total_len buf)" "image_ok (total_len buf) c"
    using len by (rule image_ok_set_crc32)
  define b1 where "b1 = buf\<lparr>data := c, modified := True\<rparr>"
  obtain d where d: "set_wc32 b1 = Some (b1\<lparr>data := d\<rparr>)" "length d = length c"
    "take (total_len buf) d = take (total_len buf) c"
    "word_at d (total_len buf) = map_option (\<lambda>w. w + 1) (word_at c (total_len buf))"
    "image_ok (total_len buf) d = image_ok (total_len buf) c"
    using image_ok_set_wc32 [of b1] len c(2) by (auto simp: b1_def)
  define b2 where "b2 = b1\<lparr>data := d, modified := False\<rparr>"
  have "check_var b2 SYSVAR_LOAD_MODE = Some (SYSVAR_SUCCESS, b2)"
    using check_var_load [of b2] len c d by (simp add: b1_def b2_def)
  then show ?thesis
    using c d by (intro exI [of _ b1] exI [of _ b2]) (simp add: b1_def b2_def get_wc32_def)
qed

text \<open>
  Claim C32. The check made when a block is read from flash detects damage: a block that passes it
  fails it as soon as any window of four payload bytes is changed.
\<close>
theorem check_var_detects_damage:
  assumes "check_var buf SYSVAR_LOAD_MODE = Some (SYSVAR_SUCCESS, b)" "data buf = a @ w @ z"
    "length w = 4" "length w' = 4" "w \<noteq> w'" "length a + 4 \<le> total_len buf"
    "total_len buf + SYSVAR_HEAD \<le> length (data buf)"
  shows "check_var (buf\<lparr>data := a @ w' @ z\<rparr>) SYSVAR_LOAD_MODE =
    Some (SYSVAR_CRC_ERR, buf\<lparr>data := a @ w' @ z\<rparr>)"
proof -
  define n where "n = total_len buf"
  define y where "y = take (n - length a - 4) z"
  have t: "take n (a @ w @ z) = a @ w @ y" "take n (a @ w' @ z) = a @ w' @ y"
    using assms(3,4,6) by (simp_all add: y_def n_def)
  have "word_at (a @ w' @ z) (n + 4) = word_at (a @ w @ z) (n + 4)"
    using word_at_append [of "a @ w" "n + 4" z] word_at_append [of "a @ w'" "n + 4" z] assms(3,4,6)
    by (simp add: n_def)
  moreover have "crc_ref (a @ w @ y) \<noteq> crc_ref (a @ w' @ y)"
    using crc_ref_burst [OF assms(3-5)] .
  moreover have "word_at (a @ w @ z) (n + 4) = Some (crc_ref (a @ w @ y))"
    using assms(1) check_var_load [OF assms(7)] t
    by (auto simp: image_ok_def assms(2) n_def split: if_splits)
  ultimately have "\<not> image_ok n (a @ w' @ z)"
    unfolding image_ok_def t by simp
  then show ?thesis
    using check_var_load [of "buf\<lparr>data := a @ w' @ z\<rparr>"] assms(2-4,7) by (simp add: n_def)
qed

definition small_buf :: sysvar_buf where
  "small_buf = sample_buf\<lparr>data := [1, 2, 3, 4] @ [9, 0, 0, 0, 0xcd, 0xfb, 0x3c, 0xb6],
     data_len := 12, total_len := 4\<rparr>"

theorem check_var_detects_damage_witness:
  "check_var (small_buf\<lparr>data := [] @ [1, 2, 3, 5] @ [9, 0, 0, 0, 0xcd, 0xfb, 0x3c, 0xb6]\<rparr>)
      SYSVAR_LOAD_MODE = Some (SYSVAR_CRC_ERR,
    small_buf\<lparr>data := [] @ [1, 2, 3, 5] @ [9, 0, 0, 0, 0xcd, 0xfb, 0x3c, 0xb6]\<rparr>)"
proof -
  have "crc_ref [1, 2, 3, 4] = 0xb63cfbcd"
    unfolding crc_ref_def crc_byte_def crc_bit8 by (simp add: crc_bit_def)
  then have "check_var small_buf SYSVAR_LOAD_MODE =
      Some (SYSVAR_SUCCESS, small_buf\<lparr>modified := False\<rparr>)"
    by (subst check_var_load) (simp_all add: small_buf_def image_ok_def word_at_Some le_word_def)
  then show ?thesis
    by (rule check_var_detects_damage [where w = "[1, 2, 3, 4]"]) (simp_all add: small_buf_def)
qed

text \<open>
  Every operation on the variable list keeps the buffer well-formed, whatever it returns:
  appending (also when \<open>malloc\<close> fails or the name is too long), deleting at any position, and
  clearing, which always succeeds and leaves an empty list with all the space free.
\<close>
lemma list_operations_keep_wf:
  assumes "wf_buf buf" "nul_free name" "nul_free value"
  shows "wf_buf (snd (set_var buf name value)) \<and> wf_buf (snd (delete_var buf p)) \<and>
    wf_buf (snd (clear_var buf)) \<and> fst (clear_var buf) = SYSVAR_SUCCESS \<and>
    vars (snd (clear_var buf)) = [] \<and> free_len (snd (clear_var buf)) = int (total_len buf)"
proof (intro conjI)
  show "wf_buf (snd (set_var buf name value))"
    using set_var_wf [OF assms] by (metis prod.collapse)
  show "wf_buf (snd (delete_var buf p))"
    using delete_var_wf [OF assms(1)] by (metis prod.collapse)
qed (use assms(1) clear_var_eq [OF assms(1)] in \<open>simp_all add: wf_buf_def\<close>)

text \<open>
  \<open>save_var\<close> has no test that a variable fits: when the bytes of the variables before
  some variable end below \<open>total_len\<close> and its value ends beyond the block, the copy writes outside
  the block (undefined behaviour) instead of returning an error. \<open>set_var\<close> does not prevent this,
  it only clamps the counter of used bytes.
\<close>
lemma save_var_overflow:
  assumes "wf_buf buf" "vars buf = us @ v # vs" "vars_size us < total_len buf"
    "data_len buf < vars_size us + SYSVAR_NAME + 2 + length (vvalue v)"
    "\<forall>u \<in> set (us @ [v]). int (length (vvalue u)) \<le> used_len buf"
  shows "save_var buf = None"
proof -
  define d where "d = replicate (data_len buf) (0xff :: byte)"
  have wf: "list_all wf_var us" and len: "length (data buf) = data_len buf"
    "data_len buf = total_len buf + 8"
    using assms(1,2) by (auto simp: wf_buf_def)
  have "arr_put (data buf) 0 d = Some d" using len by (simp add: arr_put_def d_def)
  moreover have "save_loop 0 (us @ v # vs) (buf\<lparr>data := d\<rparr>) = None"
    using assms(3-5) wf len
    by (subst save_loop_prefix) (auto intro!: save_loop_overflow simp: d_def simp del: save_loop.simps)
  ultimately show ?thesis
    by (simp add: save_var_def d_def assms(2))
qed

text \<open>
  \<open>load_var\<close> does not test that a record fits in the block either: when the records of
  the block are followed by fewer than 32 bytes (write counter and checksum included), none of them
  the end mark \<open>0xff\<close>, it reads the next name past the end of the block (undefined behaviour).
\<close>
lemma load_var_overread:
  assumes "wf_buf buf" "mallocs buf = []" "list_all storable vs" "vars_size vs < total_len buf"
    "data buf = concat (map enc_var vs) @ rest" "length rest < SYSVAR_NAME" "0xff \<notin> set rest"
  shows "load_var buf = None"
proof -
  define b where "b = buf\<lparr>vars := [], used_len := 0, free_len := int (total_len buf)\<rparr>"
  have len: "length (data buf) = total_len buf + 8" "total_len buf < 65536"
    using assms(1) by (auto simp: wf_buf_def)
  have lenc: "length (concat (map enc_var vs)) = vars_size vs"
    using assms(3) by (intro length_concat_enc) (auto simp: storable_def list_all_iff)
  have "load_loop 0 SYSVAR_SUCCESS b = load_loop (0 + vars_size vs) SYSVAR_SUCCESS
     (b\<lparr>vars := vars b @ vs, used_len := int (0 + vars_size vs),
       free_len := int (total_len b) - int (0 + vars_size vs)\<rparr>)"
    using assms len lenc by (intro load_loop_prefix) (simp_all add: b_def)
  also have "\<dots> = None"
    using assms(4-7) len lenc by (intro load_loop_overread) (auto simp: b_def)
  finally show ?thesis
    using clear_var_eq [OF assms(1)] by (simp add: load_var_def b_def)
qed

end
