(* ===== verification/Sysvar_Lib.thy ===== *)
theory Sysvar_Lib
  imports Sysvar_Buf
begin

unbundle bit_operations_syntax

text \<open>
  The system variable library over the four MTD partitions, \<^verbatim>\<open>src/sysvar/lib/sysvar_lib.c\<close>: the
  read-write variables in two copies (devices 0 and 1) and the read-only variables in two copies
  (devices 2 and 3).

  The kernel's MTD driver is not part of the repository: its system calls are the operations of the
  record \<open>mtd_ops\<close>, over an arbitrary device state, and every function that calls it takes the
  record as an argument. Each operation may fail. \<open>lseek\<close> to \<open>SYSVAR_MTD_OFFSET\<close> followed by
  \<open>read\<close> or \<open>write\<close> is one operation with an offset; \<open>op_read\<close> returns the bytes that were read
  (fewer than asked, or none, when it fails) and \<open>op_write\<close> their number. What an uninitialised
  block from \<open>malloc\<close> holds is \<open>op_fresh\<close>.
\<close>

section \<open>Devices and state\<close>

datatype ioctl_result = Ioctl_Ok | Ioctl_EOPNOTSUPP | Ioctl_Error

record 'd mtd_ops =
  op_open :: "cstr \<Rightarrow> 'd \<Rightarrow> int \<times> 'd"
  op_close :: "int \<Rightarrow> 'd \<Rightarrow> 'd"
  op_getinfo :: "int \<Rightarrow> 'd \<Rightarrow> nat option \<times> 'd"
  op_unlock :: "int \<Rightarrow> nat \<Rightarrow> nat \<Rightarrow> 'd \<Rightarrow> ioctl_result \<times> 'd"
  op_lock :: "int \<Rightarrow> nat \<Rightarrow> nat \<Rightarrow> 'd \<Rightarrow> bool \<times> 'd"
  op_erase :: "int \<Rightarrow> nat \<Rightarrow> nat \<Rightarrow> 'd \<Rightarrow> bool \<times> 'd"
  op_read :: "int \<Rightarrow> nat \<Rightarrow> nat \<Rightarrow> 'd \<Rightarrow> byte list \<times> 'd"
  op_write :: "int \<Rightarrow> nat \<Rightarrow> byte list \<Rightarrow> 'd \<Rightarrow> nat \<times> 'd"
  op_strerror :: "'d \<Rightarrow> cstr"
  op_fresh :: "nat \<Rightarrow> 'd \<Rightarrow> byte list"

abbreviation (input) SYSVAR_BLOCK_SIZE :: nat where "SYSVAR_BLOCK_SIZE \<equiv> 65536"
abbreviation (input) SYSVAR_MTD_OFFSET :: nat where "SYSVAR_MTD_OFFSET \<equiv> 0"
abbreviation (input) SYSVAR_RW_BUF :: nat where "SYSVAR_RW_BUF \<equiv> 0"
abbreviation (input) SYSVAR_RO_BUF :: nat where "SYSVAR_RO_BUF \<equiv> 2"

definition mtd_name :: "cstr list" where
  "mtd_name = [lit ''/dev/mtd2'', lit ''/dev/mtd3'', lit ''/dev/mtd4'', lit ''/dev/mtd5'']"

datatype buf_id = RW | RO

record 'd sv_state =
  mtd_dev :: "int list"
  mtd_dev_unlocked :: "bool list"
  verbose :: bool
  rw_buf :: sysvar_buf
  ro_buf :: sysvar_buf
  sv_out :: cstr
  dev :: 'd

fun buf_of :: "'d sv_state \<Rightarrow> buf_id \<Rightarrow> sysvar_buf" where
  "buf_of st RW = rw_buf st"
| "buf_of st RO = ro_buf st"

fun put_buf :: "'d sv_state \<Rightarrow> buf_id \<Rightarrow> sysvar_buf \<Rightarrow> 'd sv_state" where
  "put_buf st RW b = st\<lparr>rw_buf := b\<rparr>"
| "put_buf st RO b = st\<lparr>ro_buf := b\<rparr>"

definition sv_buf :: "nat \<Rightarrow> buf_id" where
  "sv_buf idx = (if idx < SYSVAR_RO_BUF then RW else RO)"

definition sv_print :: "cstr \<Rightarrow> 'd sv_state \<Rightarrow> 'd sv_state" where
  "sv_print s st = st\<lparr>sv_out := sv_out st @ s\<rparr>"

definition print_err :: "'d mtd_ops \<Rightarrow> string \<Rightarrow> int \<Rightarrow> 'd sv_state \<Rightarrow> 'd sv_state" where
  "print_err ops err idx st =
     (if verbose st then
        sv_print (lit ''error(sv): failed to '' @ lit err @
          (if 0 \<le> idx \<and> idx \<le> 3 then [39] @ mtd_name ! nat idx @ [39] else []) @
          lit '' ('' @ op_strerror ops (dev st) @ lit '')'' @ [10]) st
      else st)"

definition set_mtd_verbose :: "bool \<Rightarrow> 'd sv_state \<Rightarrow> 'd sv_state" where
  "set_mtd_verbose v st = st\<lparr>verbose := v\<rparr>"

fun check_mtd_loop ::
    "'d mtd_ops \<Rightarrow> int list \<Rightarrow> nat \<Rightarrow> 'd sv_state \<Rightarrow> sysvar_ret \<times> 'd sv_state" where
  "check_mtd_loop ops [] i st = (SYSVAR_SUCCESS, st)"
| "check_mtd_loop ops (fd # fds) i st =
     (if fd < 0 then (SYSVAR_OPEN_ERR, print_err ops ''open MTD device '' (int i) st)
      else check_mtd_loop ops fds (Suc i) st)"

definition check_mtd :: "'d mtd_ops \<Rightarrow> 'd sv_state \<Rightarrow> sysvar_ret \<times> 'd sv_state" where
  "check_mtd ops st = check_mtd_loop ops (mtd_dev st) 0 st"

section \<open>Erasing, reading, writing\<close>

text \<open>
  The erase loop advances by the erase size the driver reports; with an erase size of zero it can
  run forever, which is \<open>None\<close>.
\<close>

partial_function (option) erase_loop ::
    "'d mtd_ops \<Rightarrow> nat \<Rightarrow> nat \<Rightarrow> nat \<Rightarrow> 'd sv_state \<Rightarrow> (sysvar_ret \<times> 'd sv_state) option" where
  "erase_loop ops idx start len st =
     (if start < SYSVAR_BLOCK_SIZE then
        (case op_unlock ops (mtd_dev st ! idx) start len (dev st) of (res, d) \<Rightarrow>
          if res = Ioctl_Error then
            Some (SYSVAR_ERASE_ERR, print_err ops ''unlock MTD device '' (int idx) (st\<lparr>dev := d\<rparr>))
          else
            (case op_erase ops (mtd_dev st ! idx) start len d of (ok, d) \<Rightarrow>
              let st = st\<lparr>dev := d, mtd_dev_unlocked :=
                    (if res = Ioctl_Ok then (mtd_dev_unlocked st)[idx := True]
                     else mtd_dev_unlocked st)\<rparr>
              in if ok then erase_loop ops idx ((start + len) mod 2 ^ 32) len st
                 else Some (SYSVAR_ERASE_ERR, print_err ops ''erase MTD device '' (int idx) st)))
      else Some (SYSVAR_SUCCESS, st))"

definition erase_mtd ::
    "'d mtd_ops \<Rightarrow> nat \<Rightarrow> 'd sv_state \<Rightarrow> (sysvar_ret \<times> 'd sv_state) option" where
  "erase_mtd ops idx st =
     (case op_getinfo ops (mtd_dev st ! idx) (dev st) of
        (None, d) \<Rightarrow>
          Some (SYSVAR_ERASE_ERR, print_err ops ''getinfo MTD device '' (int idx) (st\<lparr>dev := d\<rparr>))
      | (Some erasesize, d) \<Rightarrow> erase_loop ops idx 0 erasesize (st\<lparr>dev := d\<rparr>))"

text \<open>\<open>bytes = read (mtd_dev[i], buf->data, buf->data_len)\<close>\<close>

definition mtd_read ::
    "'d mtd_ops \<Rightarrow> buf_id \<Rightarrow> nat \<Rightarrow> 'd sv_state \<Rightarrow> nat \<times> 'd sv_state" where
  "mtd_read ops sel i st =
     (let b = buf_of st sel
      in case op_read ops (mtd_dev st ! i) SYSVAR_MTD_OFFSET (data_len b) (dev st) of
           (bs, d) \<Rightarrow> (length bs,
             (put_buf st sel (b\<lparr>data := bs @ drop (length bs) (data b)\<rparr>))\<lparr>dev := d\<rparr>))"

text \<open>\<open>bytes = write (mtd_dev[i], buf->data, buf->data_len)\<close>\<close>

definition mtd_write ::
    "'d mtd_ops \<Rightarrow> buf_id \<Rightarrow> nat \<Rightarrow> 'd sv_state \<Rightarrow> nat \<times> 'd sv_state" where
  "mtd_write ops sel i st =
     (let b = buf_of st sel
      in case op_write ops (mtd_dev st ! i) SYSVAR_MTD_OFFSET (take (data_len b) (data b)) (dev st) of
           (n, d) \<Rightarrow> (n, st\<lparr>dev := d\<rparr>))"

text \<open>\<open>check_var\<close> on one of the two global buffers.\<close>

definition check_buf ::
    "buf_id \<Rightarrow> sysvar_mode \<Rightarrow> 'd sv_state \<Rightarrow> (sysvar_ret \<times> 'd sv_state) option" where
  "check_buf sel mode st =
     map_option (\<lambda>(r, b). (r, put_buf st sel b)) (check_var (buf_of st sel) mode)"

section \<open>Loading and saving\<close>

datatype recovery = Rec_Next | Rec_Done | Rec_Err

text \<open>One pass of the recovery loop: take copy \<open>i\<close>, and if it is good write it over copy \<open>j\<close>.\<close>

definition recover_copy ::
    "'d mtd_ops \<Rightarrow> buf_id \<Rightarrow> nat \<Rightarrow> nat \<Rightarrow> 'd sv_state \<Rightarrow> (recovery \<times> 'd sv_state) option" where
  "recover_copy ops sel i j st =
     (case mtd_read ops sel i st of (bytes, st) \<Rightarrow>
        if bytes \<noteq> data_len (buf_of st sel) then Some (Rec_Next, st)
        else do {
          (r, st) \<leftarrow> check_buf sel SYSVAR_LOAD_MODE st;
          if r \<noteq> SYSVAR_SUCCESS then Some (Rec_Next, st)
          else do {
            (e, st) \<leftarrow> erase_mtd ops j st;
            if e \<noteq> SYSVAR_SUCCESS then Some (Rec_Err, st)
            else do {
              (c, st) \<leftarrow> check_buf sel SYSVAR_SAVE_MODE st;
              if c \<noteq> SYSVAR_SUCCESS then Some (Rec_Err, st)
              else case mtd_write ops sel j st of (bytes, st) \<Rightarrow>
                if bytes \<noteq> data_len (buf_of st sel)
                then Some (Rec_Err, print_err ops ''write MTD device '' (int j) st)
                else Some (Rec_Done, put_buf st sel ((buf_of st sel)\<lparr>loaded := True\<rparr>)) } } })"

definition data_recovery ::
    "'d mtd_ops \<Rightarrow> buf_id \<Rightarrow> nat \<Rightarrow> 'd sv_state \<Rightarrow> (sysvar_ret \<times> 'd sv_state) option" where
  "data_recovery ops sel idx st = do {
     (r, st) \<leftarrow> recover_copy ops sel idx (idx + 1) st;
     (r, st) \<leftarrow> (if r = Rec_Next then recover_copy ops sel (idx + 1) idx st else Some (r, st));
     if r = Rec_Done then Some (SYSVAR_SUCCESS, st)
     else do {
       b \<leftarrow> clear_buf (buf_of st sel);
       Some (SYSVAR_SUCCESS, print_err ops ''recover MTD device '' (int idx) (put_buf st sel b)) } }"

definition load_copy ::
    "'d mtd_ops \<Rightarrow> buf_id \<Rightarrow> nat \<Rightarrow> 'd sv_state \<Rightarrow> (bool \<times> 'd sv_state) option" where
  "load_copy ops sel i st =
     (case mtd_read ops sel i st of (bytes, st) \<Rightarrow>
        map_option (\<lambda>(r, st). (bytes \<noteq> data_len (buf_of st sel) \<or> r \<noteq> SYSVAR_SUCCESS, st))
          (check_buf sel SYSVAR_LOAD_MODE st))"

definition data_load ::
    "'d mtd_ops \<Rightarrow> buf_id \<Rightarrow> nat \<Rightarrow> 'd sv_state \<Rightarrow> (sysvar_ret \<times> 'd sv_state) option" where
  "data_load ops sel idx st =
     (let st = put_buf st sel ((buf_of st sel)\<lparr>loaded := True\<rparr>)
      in case check_mtd ops st of (c, st) \<Rightarrow>
        if c \<noteq> SYSVAR_SUCCESS then Some (SYSVAR_OPEN_ERR, st)
        else do {
          (f0, st) \<leftarrow> load_copy ops sel idx st;
          (f1, st) \<leftarrow> load_copy ops sel (idx + 1) st;
          let st = put_buf st sel ((buf_of st sel)\<lparr>failed := (f0, f1)\<rparr>);
          if f0 \<or> f1 then data_recovery ops sel idx st else Some (SYSVAR_SUCCESS, st) })"

definition save_copy ::
    "'d mtd_ops \<Rightarrow> buf_id \<Rightarrow> nat \<Rightarrow> 'd sv_state \<Rightarrow> (sysvar_ret \<times> 'd sv_state) option" where
  "save_copy ops sel i st = do {
     (e, st) \<leftarrow> erase_mtd ops i st;
     if e \<noteq> SYSVAR_SUCCESS then Some (SYSVAR_ERASE_ERR, st)
     else do {
       (c, st) \<leftarrow> check_buf sel SYSVAR_SAVE_MODE st;
       if c \<noteq> SYSVAR_SUCCESS
       then Some (SYSVAR_SAVE_ERR, print_err ops ''save MTD device '' (int i) st)
       else case mtd_write ops sel i st of (bytes, st) \<Rightarrow>
         if bytes \<noteq> data_len (buf_of st sel)
         then Some (SYSVAR_WRITE_ERR, print_err ops ''write MTD device '' (int i) st)
         else Some (SYSVAR_SUCCESS, st) } }"

definition data_save ::
    "'d mtd_ops \<Rightarrow> buf_id \<Rightarrow> nat \<Rightarrow> nat \<Rightarrow> 'd sv_state \<Rightarrow> (sysvar_ret \<times> 'd sv_state) option" where
  "data_save ops sel idx0 idx1 st =
     (case check_mtd ops st of (c, st) \<Rightarrow>
        if c \<noteq> SYSVAR_SUCCESS then Some (SYSVAR_OPEN_ERR, st)
        else do {
          (r, st) \<leftarrow> save_copy ops sel idx0 st;
          if r \<noteq> SYSVAR_SUCCESS then Some (r, st) else save_copy ops sel idx1 st })"

definition loadvar :: "'d mtd_ops \<Rightarrow> 'd sv_state \<Rightarrow> (sysvar_ret \<times> 'd sv_state) option" where
  "loadvar ops st = do {
     (r, st) \<leftarrow> data_load ops RW SYSVAR_RW_BUF st;
     if r \<noteq> SYSVAR_SUCCESS then Some (SYSVAR_LOAD_ERR, st)
     else do {
       (r, b) \<leftarrow> load_var (rw_buf st);
       let st = st\<lparr>rw_buf := b\<rparr>;
       if r \<noteq> SYSVAR_SUCCESS then Some (SYSVAR_LOAD_ERR, st)
       else do {
         (r, st) \<leftarrow> data_load ops RO SYSVAR_RO_BUF st;
         if r \<noteq> SYSVAR_SUCCESS then Some (SYSVAR_LOAD_ERR, st)
         else do {
           (r, b) \<leftarrow> load_var (ro_buf st);
           Some (r, st\<lparr>ro_buf := b\<rparr>) } } } }"

definition savevar :: "'d mtd_ops \<Rightarrow> 'd sv_state \<Rightarrow> (sysvar_ret \<times> 'd sv_state) option" where
  "savevar ops st = do {
     (r, b) \<leftarrow> save_var (rw_buf st);
     let st = st\<lparr>rw_buf := b\<rparr>;
     if r \<noteq> SYSVAR_SUCCESS then Some (SYSVAR_SAVE_ERR, st)
     else if snd (failed (rw_buf st))
     then data_save ops RW (SYSVAR_RW_BUF + 1) SYSVAR_RW_BUF st
     else data_save ops RW SYSVAR_RW_BUF (SYSVAR_RW_BUF + 1) st }"

section \<open>Opening and closing\<close>

text \<open>The zeroed struct of \<open>memset (buf, 0, sizeof (*buf))\<close>.\<close>

definition zero_buf :: "bool list \<Rightarrow> sysvar_buf" where
  "zero_buf ms = \<lparr>data = [], data_ptr = Ptr_Null, data_len = 0, total_len = 0, free_len = 0,
     used_len = 0, loaded = False, modified = False, readonly = False, failed = (False, False),
     vars = [], list_ptr = Ptr_Null, mallocs = ms\<rparr>"

definition sysvar_buf_init ::
    "'d mtd_ops \<Rightarrow> buf_id \<Rightarrow> bool \<Rightarrow> 'd sv_state \<Rightarrow> bool \<times> 'd sv_state" where
  "sysvar_buf_init ops sel is_ro st =
     (case buf_malloc (zero_buf (mallocs (buf_of st sel))) of
        (False, b) \<Rightarrow>
          (False, print_err ops ''allocate data buffer '' (- 1) (put_buf st sel b))
      | (True, b) \<Rightarrow>
         (case buf_malloc b of
            (False, b) \<Rightarrow>
              (False, print_err ops ''allocate data list '' (- 1)
                 (put_buf st sel (b\<lparr>data_ptr := Ptr_Freed\<rparr>)))
          | (True, b) \<Rightarrow>
              (True, put_buf st sel (b\<lparr>
                 data := op_fresh ops SYSVAR_BLOCK_SIZE (dev st), data_ptr := Ptr_Live,
                 data_len := SYSVAR_BLOCK_SIZE, total_len := SYSVAR_BLOCK_SIZE - SYSVAR_HEAD,
                 free_len := int (SYSVAR_BLOCK_SIZE - SYSVAR_HEAD), readonly := is_ro,
                 list_ptr := Ptr_Live, loaded := False\<rparr>))))"

text \<open>Releasing a heap block: undefined when it was released before.\<close>

definition release_list :: "sysvar_buf \<Rightarrow> sysvar_buf option" where
  "release_list b =
     (case list_ptr b of
        Ptr_Null \<Rightarrow> Some b
      | Ptr_Live \<Rightarrow> Some ((snd (clear_var b))\<lparr>list_ptr := Ptr_Freed\<rparr>)
      | Ptr_Freed \<Rightarrow> None)"

definition release_data :: "sysvar_buf \<Rightarrow> sysvar_buf option" where
  "release_data b =
     (case data_ptr b of
        Ptr_Null \<Rightarrow> Some b
      | Ptr_Live \<Rightarrow> Some (b\<lparr>data_ptr := Ptr_Freed\<rparr>)
      | Ptr_Freed \<Rightarrow> None)"

definition close_dev :: "'d mtd_ops \<Rightarrow> nat \<Rightarrow> 'd sv_state \<Rightarrow> 'd sv_state" where
  "close_dev ops i st =
     (let fd = mtd_dev st ! i;
          st = (if fd > 0 then
                  (let st = (if mtd_dev_unlocked st ! i then
                       (case op_lock ops fd 0 SYSVAR_BLOCK_SIZE (dev st) of (ok, d) \<Rightarrow>
                          if ok then st\<lparr>dev := d,
                            mtd_dev_unlocked := (mtd_dev_unlocked st)[i := False]\<rparr>
                          else print_err ops ''lock MTD device '' (int i) (st\<lparr>dev := d\<rparr>))
                     else st)
                   in st\<lparr>dev := op_close ops fd (dev st)\<rparr>)
                else st)
      in st\<lparr>mtd_dev := (mtd_dev st)[i := - 1]\<rparr>)"

definition close_mtd :: "'d mtd_ops \<Rightarrow> 'd sv_state \<Rightarrow> 'd sv_state option" where
  "close_mtd ops st = do {
     rw \<leftarrow> release_list (rw_buf st);
     ro \<leftarrow> release_list (ro_buf st);
     rw \<leftarrow> release_data rw;
     ro \<leftarrow> release_data ro;
     Some (fold (close_dev ops) [0..<4] (st\<lparr>rw_buf := rw, ro_buf := ro\<rparr>)) }"

fun open_devs ::
    "'d mtd_ops \<Rightarrow> cstr list \<Rightarrow> nat \<Rightarrow> 'd sv_state \<Rightarrow> bool \<times> 'd sv_state" where
  "open_devs ops [] i st = (True, st)"
| "open_devs ops (n # ns) i st =
     (case op_open ops n (dev st) of (fd, d) \<Rightarrow>
        let st = st\<lparr>dev := d, mtd_dev := (mtd_dev st)[i := fd]\<rparr>
        in if fd < 0 then (False, print_err ops ''open MTD device '' (int i) st)
           else open_devs ops ns (Suc i) st)"

definition open_mtd :: "'d mtd_ops \<Rightarrow> 'd sv_state \<Rightarrow> (sysvar_ret \<times> 'd sv_state) option" where
  "open_mtd ops st =
     (if list_ex (\<lambda>fd. fd \<ge> 0) (mtd_dev st) then Some (SYSVAR_SUCCESS, st)
      else do {
        (ok, st) \<leftarrow>
          (case open_devs ops mtd_name 0 st of
             (False, st) \<Rightarrow> Some (False, st)
           | (True, st) \<Rightarrow>
              (case sysvar_buf_init ops RW False st of
                 (False, st) \<Rightarrow> Some (False, st)
               | (True, st) \<Rightarrow>
                  (case sysvar_buf_init ops RO True st of
                     (False, st) \<Rightarrow> Some (False, st)
                   | (True, st) \<Rightarrow> map_option (\<lambda>(r, st). (r = SYSVAR_SUCCESS, st)) (loadvar ops st))));
        if ok then Some (SYSVAR_SUCCESS, st)
        else map_option (\<lambda>st. (SYSVAR_OPEN_ERR, st)) (close_mtd ops st) })"

section \<open>Variables\<close>

text \<open>
  \<open>getvar\<close> works on the caller's memory: \<open>name\<close> (\<open>None\<close> for a null pointer) and \<open>value\<close> are the
  blocks at the two pointers, and come back updated.
\<close>

definition getvar ::
    "'d mtd_ops \<Rightarrow> byte list option \<Rightarrow> byte list \<Rightarrow> nat \<Rightarrow> 'd sv_state \<Rightarrow>
       (sysvar_ret \<times> byte list option \<times> byte list \<times> 'd sv_state) option" where
  "getvar ops name value len st =
     (case check_mtd ops st of (c, st) \<Rightarrow>
        if c \<noteq> SYSVAR_SUCCESS then Some (SYSVAR_OPEN_ERR, name, value, st)
        else case name of
          None \<Rightarrow> do {
            ro \<leftarrow> print_var (ro_buf st);
            rw \<leftarrow> print_var (rw_buf st);
            Some (SYSVAR_SUCCESS, name, value, sv_print (ro @ rw) st) }
        | Some nm \<Rightarrow>
           (case find_var (ro_buf st) (Some (cstr_of nm)) of
              Some p \<Rightarrow> map_option (\<lambda>(r, n, v). (r, Some n, v, st)) (get_var (vars (ro_buf st) ! p) nm value len)
            | None \<Rightarrow>
               (case find_var (rw_buf st) (Some (cstr_of nm)) of
                  Some p \<Rightarrow> map_option (\<lambda>(r, n, v). (r, Some n, v, st)) (get_var (vars (rw_buf st) ! p) nm value len)
                | None \<Rightarrow> Some (SYSVAR_GET_ERR, name, value, st))))"

definition setvar ::
    "'d mtd_ops \<Rightarrow> cstr option \<Rightarrow> cstr option \<Rightarrow> 'd sv_state \<Rightarrow> sysvar_ret \<times> 'd sv_state" where
  "setvar ops name value st =
     (case check_mtd ops st of (c, st) \<Rightarrow>
        if c \<noteq> SYSVAR_SUCCESS then (SYSVAR_OPEN_ERR, st)
        else case name of
          None \<Rightarrow> (case clear_var (rw_buf st) of (r, b) \<Rightarrow> (r, st\<lparr>rw_buf := b\<rparr>))
        | Some nm \<Rightarrow>
           (case find_var (ro_buf st) (Some nm) of
              Some _ \<Rightarrow> (SYSVAR_READONLY_ERR, st)
            | None \<Rightarrow>
               (case find_var (rw_buf st) (Some nm) of
                  Some p \<Rightarrow>
                    (case delete_var (rw_buf st) p of (r, b) \<Rightarrow>
                       if r \<noteq> SYSVAR_SUCCESS then (SYSVAR_DELETE_ERR, st\<lparr>rw_buf := b\<rparr>)
                       else case value of
                         None \<Rightarrow> (r, st\<lparr>rw_buf := b\<rparr>)
                       | Some v \<Rightarrow> (case set_var b nm v of (r, b) \<Rightarrow> (r, st\<lparr>rw_buf := b\<rparr>)))
                | None \<Rightarrow>
                    (case value of
                       None \<Rightarrow> (SYSVAR_EXISTED_ERR, st)
                     | Some v \<Rightarrow>
                        (case set_var (rw_buf st) nm v of (r, b) \<Rightarrow> (r, st\<lparr>rw_buf := b\<rparr>))))))"

section \<open>Diagnostics\<close>

definition sysvar_info :: "'d mtd_ops \<Rightarrow> nat \<Rightarrow> 'd sv_state \<Rightarrow> 'd sv_state option" where
  "sysvar_info ops idx st =
     (let buf = buf_of st (sv_buf idx)
      in case check_mtd ops st of (c, st) \<Rightarrow>
        if c \<noteq> SYSVAR_SUCCESS then Some st
        else do {
          wc \<leftarrow> get_wc32 buf;
          crc \<leftarrow> get_crc32 buf;
          Some (sv_print
            (lit ''System Variables('' @ (if idx < SYSVAR_RO_BUF then lit ''RW'' else lit ''RO'') @
             lit ''):'' @ [10] @
             lit ''device : '' @ (if idx \<le> 3 then mtd_name ! idx else lit ''?'') @ [10] @
             lit ''size   : '' @ dec_nat (data_len buf) @ lit '' bytes'' @ [10] @
             lit ''total  : '' @ dec_nat (total_len buf) @ lit '' bytes'' @ [10] @
             lit ''used   : '' @ dec_int (used_len buf) @ lit '' bytes'' @ [10] @
             lit ''wc32   : 0x'' @ hex_fixed 8 (unat wc) @ [10] @
             lit ''crc32  : 0x'' @ hex_fixed 8 (unat crc) @ [10]) st) })"

definition sysvar_dump :: "'d mtd_ops \<Rightarrow> nat \<Rightarrow> nat \<Rightarrow> nat \<Rightarrow> 'd sv_state \<Rightarrow> 'd sv_state" where
  "sysvar_dump ops idx start len st =
     (case check_mtd ops st of (c, st) \<Rightarrow>
        if c \<noteq> SYSVAR_SUCCESS then st
        else sv_print (dump_buf (buf_of st (sv_buf idx)) start len) st)"

datatype mtd_mode = SYSVAR_MTD_READ | SYSVAR_MTD_WRITE | SYSVAR_MTD_ERASE

definition sysvar_io ::
    "'d mtd_ops \<Rightarrow> nat \<Rightarrow> mtd_mode \<Rightarrow> 'd sv_state \<Rightarrow> (sysvar_ret \<times> 'd sv_state) option" where
  "sysvar_io ops idx mode st =
     (let sel = sv_buf idx
      in case check_mtd ops st of (c, st) \<Rightarrow>
        if c \<noteq> SYSVAR_SUCCESS then Some (SYSVAR_OPEN_ERR, st)
        else do {
          (r, st) \<leftarrow>
            (case mode of
               SYSVAR_MTD_WRITE \<Rightarrow>
                 (case mtd_write ops sel idx st of (bytes, st) \<Rightarrow>
                    if bytes \<noteq> data_len (buf_of st sel)
                    then Some (SYSVAR_WRITE_ERR, print_err ops ''write MTD device '' (int idx) st)
                    else Some (SYSVAR_SUCCESS, st))
             | SYSVAR_MTD_ERASE \<Rightarrow>
                 map_option (\<lambda>(e, st). (if e \<noteq> SYSVAR_SUCCESS then SYSVAR_ERASE_ERR else e, st))
                   (erase_mtd ops idx st)
             | SYSVAR_MTD_READ \<Rightarrow> Some (SYSVAR_SUCCESS, st));
          if r \<noteq> SYSVAR_SUCCESS then Some (r, st)
          else case mtd_read ops sel idx st of (bytes, st) \<Rightarrow>
            if bytes \<noteq> data_len (buf_of st sel)
            then Some (SYSVAR_READ_ERR, print_err ops ''read MTD device '' (int idx) st)
            else Some (SYSVAR_SUCCESS,
              st\<lparr>rw_buf := (rw_buf st)\<lparr>loaded := False\<rparr>, ro_buf := (ro_buf st)\<lparr>loaded := False\<rparr>\<rparr>) })"

section \<open>What an operation leaves alone\<close>

lemma print_err_fields [frame_simps]:
  "mtd_dev (print_err ops e i st) = mtd_dev st" "rw_buf (print_err ops e i st) = rw_buf st"
  "ro_buf (print_err ops e i st) = ro_buf st" "dev (print_err ops e i st) = dev st"
  "buf_of (print_err ops e i st) sel = buf_of st sel"
  "mtd_dev_unlocked (print_err ops e i st) = mtd_dev_unlocked st"
  "verbose (print_err ops e i st) = verbose st"
  by (cases sel; simp add: print_err_def sv_print_def)+

lemma put_buf_fields [frame_simps]:
  "mtd_dev (put_buf st sel b) = mtd_dev st" "dev (put_buf st sel b) = dev st"
  "buf_of (put_buf st sel b) sel = b" "put_buf (put_buf st sel b) sel c = put_buf st sel c"
  "put_buf st sel (buf_of st sel) = st"
  by (cases sel; simp)+

lemma buf_of_dev [frame_simps]: "buf_of (st\<lparr>dev := d\<rparr>) sel = buf_of st sel"
  by (cases sel) simp_all

lemma check_mtd_loop_ok:
  "check_mtd_loop ops fds i st =
     (if list_all (\<lambda>fd. 0 \<le> fd) fds then (SYSVAR_SUCCESS, st)
      else (SYSVAR_OPEN_ERR, snd (check_mtd_loop ops fds i st)))"
  by (induction fds arbitrary: i) auto

lemma check_mtd_cases:
  obtains "check_mtd ops st = (SYSVAR_SUCCESS, st)" "list_all (\<lambda>fd. 0 \<le> fd) (mtd_dev st)"
  | i where "check_mtd ops st = (SYSVAR_OPEN_ERR, print_err ops ''open MTD device '' i st)"
      "\<not> list_all (\<lambda>fd. 0 \<le> fd) (mtd_dev st)"
proof -
  have "\<not> list_all (\<lambda>fd. 0 \<le> fd) fds \<Longrightarrow>
      \<exists>j. check_mtd_loop ops fds i st = (SYSVAR_OPEN_ERR, print_err ops ''open MTD device '' j st)"
    for fds i
    by (induction fds arbitrary: i) auto
  then show thesis
    using that check_mtd_loop_ok [of ops "mtd_dev st" 0 st]
    by (cases "list_all (\<lambda>fd. 0 \<le> fd) (mtd_dev st)") (auto simp: check_mtd_def)
qed

section \<open>The contract of the MTD driver\<close>

text \<open>
  \<open>content d fd\<close> is what the partition behind the descriptor \<open>fd\<close> holds. The laws are those of a
  NOR flash with one file per partition: reading and the information and lock calls change nothing,
  erasing fills its range with \<open>0xff\<close>, writing all bytes over an erased range stores them, and an
  erase or write, successful or not, touches its own partition only and never resizes it. A failed
  erase or write may leave anything in its own partition.
\<close>

locale mtd_device =
  fixes ops :: "'d mtd_ops" and content :: "'d \<Rightarrow> int \<Rightarrow> byte list"
  assumes read_keeps: "op_read ops fd off n d = (bs, d') \<Longrightarrow> content d' = content d"
    and read_prefix: "op_read ops fd off n d = (bs, d') \<Longrightarrow>
      length bs \<le> n \<and> bs = take (length bs) (drop off (content d fd))"
    and getinfo_size: "op_getinfo ops fd d = (Some e, d') \<Longrightarrow> 0 < e \<and> e < 2 ^ 31"
    and getinfo_keeps: "op_getinfo ops fd d = (res, d') \<Longrightarrow> content d' = content d"
    and unlock_keeps: "op_unlock ops fd s n d = (u, d') \<Longrightarrow> content d' = content d"
    and erase_other: "op_erase ops fd s n d = (ok, d') \<Longrightarrow> fd' \<noteq> fd \<Longrightarrow> content d' fd' = content d fd'"
    and erase_length: "op_erase ops fd s n d = (ok, d') \<Longrightarrow>
      length (content d' fd) = length (content d fd)"
    and erase_fills: "op_erase ops fd s n d = (True, d') \<Longrightarrow> k < length (content d fd) \<Longrightarrow>
      content d' fd ! k = (if s \<le> k \<and> k < s + n then 0xff else content d fd ! k)"
    and write_other: "op_write ops fd off bs d = (m, d') \<Longrightarrow> fd' \<noteq> fd \<Longrightarrow> content d' fd' = content d fd'"
    and write_length: "op_write ops fd off bs d = (m, d') \<Longrightarrow>
      length (content d' fd) = length (content d fd)"
    and write_stores: "op_write ops fd off bs d = (length bs, d') \<Longrightarrow>
      off + length bs \<le> length (content d fd) \<Longrightarrow>
      \<forall>k < length bs. content d fd ! (off + k) = 0xff \<Longrightarrow>
      take (length bs) (drop off (content d' fd)) = bs"

definition erased_upto :: "nat \<Rightarrow> byte list \<Rightarrow> bool" where
  "erased_upto n c \<longleftrightarrow> (\<forall>k < min n (length c). c ! k = 0xff)"

lemma erased_upto_mono: "erased_upto n c \<Longrightarrow> m \<le> n \<Longrightarrow> erased_upto m c"
  by (simp add: erased_upto_def)

text \<open>How a step of the library may change the world outside the device \<open>fd\<close>.\<close>

definition only_touches ::
    "('d \<Rightarrow> int \<Rightarrow> byte list) \<Rightarrow> int \<Rightarrow> 'd sv_state \<Rightarrow> 'd sv_state \<Rightarrow> bool" where
  "only_touches content fd st st' \<longleftrightarrow>
     mtd_dev st' = mtd_dev st \<and> length (content (dev st') fd) = length (content (dev st) fd) \<and>
     (\<forall>fd'. fd' \<noteq> fd \<longrightarrow> content (dev st') fd' = content (dev st) fd')"

lemma only_touches_refl [simp]: "only_touches content fd st st"
  by (simp add: only_touches_def)

lemma only_touches_length:
  "only_touches content fd st st' \<Longrightarrow> length (content (dev st') fd') = length (content (dev st) fd')"
  by (cases "fd' = fd") (simp_all add: only_touches_def)

lemma only_touches_trans:
  "only_touches content fd st st' \<Longrightarrow> only_touches content fd st' st'' \<Longrightarrow>
     only_touches content fd st st''"
  by (simp add: only_touches_def)

text \<open>A partition that holds the payload \<open>p\<close> of \<open>n\<close> bytes under a valid checksum.\<close>

definition good_copy :: "nat \<Rightarrow> byte list \<Rightarrow> byte list \<Rightarrow> bool" where
  "good_copy n p c \<longleftrightarrow> n + SYSVAR_HEAD \<le> length c \<and> image_ok n (take (n + SYSVAR_HEAD) c) \<and> take n c = p"

text \<open>The payload that stores a list of variables.\<close>

definition payload :: "nat \<Rightarrow> sysvar_list list \<Rightarrow> byte list" where
  "payload n vs = concat (map enc_var vs) @ replicate (n - vars_size vs) 0xff"

definition block_buf :: "nat \<Rightarrow> sysvar_buf \<Rightarrow> bool" where
  "block_buf n b \<longleftrightarrow> length (data b) = data_len b \<and> data_len b = n + SYSVAR_HEAD \<and> total_len b = n \<and>
     n + SYSVAR_HEAD \<le> SYSVAR_BLOCK_SIZE"

text \<open>The transfers between flash and buffer do not touch the variable list.\<close>

definition same_list :: "sysvar_buf \<Rightarrow> sysvar_buf \<Rightarrow> bool" where
  "same_list b b' \<longleftrightarrow> (\<exists>d m l f. b' = b\<lparr>data := d, modified := m, loaded := l, failed := f\<rparr>)"

lemma same_list_upd:
  "same_list b b" "same_list b (b\<lparr>data := d\<rparr>)" "same_list b (b\<lparr>modified := m\<rparr>)"
  "same_list b (b\<lparr>data := d, modified := m\<rparr>)"
  "same_list b (b\<lparr>loaded := l\<rparr>)" "same_list b (b\<lparr>failed := f\<rparr>)"
  by (cases b; force simp: same_list_def)+

lemma same_list_trans: "same_list a b \<Longrightarrow> same_list b c \<Longrightarrow> same_list a c"
  by (cases a) (force simp: same_list_def)

lemma same_list_wf:
  "same_list b b' \<Longrightarrow> length (data b') = length (data b) \<Longrightarrow> wf_buf b' = wf_buf b"
  by (auto simp: same_list_def wf_buf_def)

lemma same_list_fields:
  "same_list b b' \<Longrightarrow> vars b' = vars b \<and> mallocs b' = mallocs b \<and> total_len b' = total_len b \<and>
     data_len b' = data_len b \<and> used_len b' = used_len b \<and> free_len b' = free_len b"
  by (auto simp: same_list_def)

context mtd_device
begin

lemma erase_loop_correct:
  assumes "0 < len" "len < 2 ^ 31" "fd = mtd_dev st ! idx" "erased_upto start (content (dev st) fd)"
  shows "\<exists>r st'. erase_loop ops idx start len st = Some (r, st') \<and> only_touches content fd st st' \<and>
    rw_buf st' = rw_buf st \<and> ro_buf st' = ro_buf st \<and>
    (r = SYSVAR_SUCCESS \<longrightarrow> erased_upto SYSVAR_BLOCK_SIZE (content (dev st') fd))"
  using assms(3,4)
proof (induction "SYSVAR_BLOCK_SIZE - start" arbitrary: start st rule: less_induct)
  case less
  note [simp] = erase_loop.simps [of ops idx start len st]
  show ?case
  proof (cases "start < SYSVAR_BLOCK_SIZE")
    case False
    then show ?thesis using erased_upto_mono [OF less.prems(2)] by simp
  next
    case True
    obtain res d1 where u: "op_unlock ops fd start len (dev st) = (res, d1)" by fastforce
    obtain ok d2 where e: "op_erase ops fd start len d1 = (ok, d2)" by fastforce
    note k = unlock_keeps [OF u] erase_other [OF e] erase_length [OF e]
    define st2 where "st2 = st\<lparr>dev := d2, mtd_dev_unlocked :=
          (if res = Ioctl_Ok then (mtd_dev_unlocked st)[idx := True] else mtd_dev_unlocked st)\<rparr>"
    have t2: "only_touches content fd st st2" "rw_buf st2 = rw_buf st" "ro_buf st2 = ro_buf st"
      using k by (auto simp: only_touches_def st2_def)
    consider "res = Ioctl_Error" | "res \<noteq> Ioctl_Error" "\<not> ok" | "res \<noteq> Ioctl_Error" "ok" by blast
    then show ?thesis
    proof cases
      case 1
      then show ?thesis using True u less.prems(1) k
        by (simp add: only_touches_def frame_simps)
    next
      case 2
      then have "erase_loop ops idx start len st =
          Some (SYSVAR_ERASE_ERR, print_err ops ''erase MTD device '' (int idx) st2)"
        using True u e less.prems(1) by (simp add: st2_def)
      then show ?thesis using t2 by (simp add: only_touches_def frame_simps)
    next
      case 3
      have "(start + len) mod 2 ^ 32 = start + len" using True assms(2) by simp
      then have eq: "erase_loop ops idx start len st = erase_loop ops idx (start + len) len st2"
        using 3 True u e less.prems(1) by (simp add: st2_def)
      have "erased_upto (start + len) (content (dev st2) fd)"
        using less.prems(2) erase_fills [of fd start len d1 d2] e 3 k
        by (auto simp: erased_upto_def st2_def)
      moreover have "fd = mtd_dev st2 ! idx" using less.prems(1) by (simp add: st2_def)
      moreover have "SYSVAR_BLOCK_SIZE - (start + len) < SYSVAR_BLOCK_SIZE - start"
        using True assms(1) by simp
      ultimately obtain r st' where "erase_loop ops idx (start + len) len st2 = Some (r, st')"
        "only_touches content fd st2 st'" "rw_buf st' = rw_buf st2" "ro_buf st' = ro_buf st2"
        "r = SYSVAR_SUCCESS \<longrightarrow> erased_upto SYSVAR_BLOCK_SIZE (content (dev st') fd)"
        using less.hyps by blast
      then show ?thesis
        unfolding eq using t2 only_touches_trans [OF t2(1)] by simp
    qed
  qed
qed

lemma erase_mtd_correct:
  obtains r st' where "erase_mtd ops idx st = Some (r, st')"
    "only_touches content (mtd_dev st ! idx) st st'" "rw_buf st' = rw_buf st" "ro_buf st' = ro_buf st"
    "r = SYSVAR_SUCCESS \<Longrightarrow> erased_upto SYSVAR_BLOCK_SIZE (content (dev st') (mtd_dev st ! idx))"
proof -
  obtain i d where g: "op_getinfo ops (mtd_dev st ! idx) (dev st) = (i, d)" by fastforce
  note c = getinfo_keeps [OF g]
  show thesis
  proof (cases i)
    case None
    then show thesis
      using that [of SYSVAR_ERASE_ERR
          "print_err ops ''getinfo MTD device '' (int idx) (st\<lparr>dev := d\<rparr>)"] g c
      by (simp add: erase_mtd_def only_touches_def frame_simps)
  next
    case (Some e)
    have e: "0 < e" "e < 2 ^ 31" using getinfo_size g Some by blast+
    have "erased_upto 0 (content (dev (st\<lparr>dev := d\<rparr>)) (mtd_dev st ! idx))"
      by (simp add: erased_upto_def)
    then obtain r st' where "erase_loop ops idx 0 e (st\<lparr>dev := d\<rparr>) = Some (r, st')"
      "only_touches content (mtd_dev st ! idx) (st\<lparr>dev := d\<rparr>) st'" "rw_buf st' = rw_buf st"
      "ro_buf st' = ro_buf st"
      "r = SYSVAR_SUCCESS \<longrightarrow> erased_upto SYSVAR_BLOCK_SIZE (content (dev st') (mtd_dev st ! idx))"
      using erase_loop_correct [OF e, of "mtd_dev st ! idx" "st\<lparr>dev := d\<rparr>" idx 0] by auto
    then show thesis
      using that [of r st'] g c Some by (simp add: erase_mtd_def only_touches_def)
  qed
qed

lemma mtd_write_correct:
  assumes "block_buf n (buf_of st sel)" "image_ok n (data (buf_of st sel))"
    "fd = mtd_dev st ! i" "n + SYSVAR_HEAD \<le> length (content (dev st) fd)"
    "erased_upto SYSVAR_BLOCK_SIZE (content (dev st) fd)"
  obtains m st' where "mtd_write ops sel i st = (m, st')" "only_touches content fd st st'"
    "rw_buf st' = rw_buf st" "ro_buf st' = ro_buf st"
    "m = n + SYSVAR_HEAD \<Longrightarrow> good_copy n (take n (data (buf_of st sel))) (content (dev st') fd)"
proof -
  define bs where "bs = data (buf_of st sel)"
  obtain m d where w: "op_write ops fd 0 bs (dev st) = (m, d)" by fastforce
  have len: "length bs = n + 8" "n + 8 \<le> 65536"
    using assms(1) by (auto simp: block_buf_def bs_def)
  have "mtd_write ops sel i st = (m, st\<lparr>dev := d\<rparr>)"
    using w assms(1,3) by (simp add: mtd_write_def Let_def block_buf_def bs_def)
  moreover have "only_touches content fd st (st\<lparr>dev := d\<rparr>)"
    using write_other [OF w] write_length [OF w] by (simp add: only_touches_def)
  moreover have "good_copy n (take n bs) (content d fd)" if "m = n + 8"
  proof -
    have "\<forall>k < length bs. content (dev st) fd ! (0 + k) = 0xff"
      using assms(4,5) len by (auto simp: erased_upto_def)
    then have "take (length bs) (drop 0 (content d fd)) = bs"
      using write_stores [of fd 0 bs "dev st" d] w that assms(4) len by simp
    then have "take (n + 8) (content d fd) = bs" using len by simp
    moreover from this have "take n (content d fd) = take n bs"
      by (metis le_add1 min.absorb1 take_take)
    ultimately show ?thesis
      using assms(2,4) write_length [OF w] by (simp add: good_copy_def bs_def)
  qed
  ultimately show thesis using that by (simp add: bs_def)
qed

end

lemma check_buf_save:
  assumes "block_buf n (buf_of st sel)" "image_ok n (data (buf_of st sel))"
  obtains b where "check_buf sel SYSVAR_SAVE_MODE st = Some (SYSVAR_SUCCESS, put_buf st sel b)"
    "block_buf n b" "image_ok n (data b)" "take n (data b) = take n (data (buf_of st sel))"
    "same_list (buf_of st sel) b"
proof -
  let ?b = "buf_of st sel"
  have len: "total_len ?b + 8 \<le> length (data ?b)" "total_len ?b = n"
    using assms(1) by (simp_all add: block_buf_def)
  obtain d where d: "set_wc32 ?b = Some (?b\<lparr>data := d\<rparr>)" "length d = length (data ?b)"
    "take n d = take n (data ?b)" "image_ok n d = image_ok n (data ?b)"
    using image_ok_set_wc32 [OF len(1)] len(2) by auto
  show thesis
    by (rule that [of "?b\<lparr>data := d, modified := False\<rparr>"])
      (use d assms in \<open>auto simp: check_buf_def block_buf_def same_list_upd\<close>)
qed

lemma buf_of_eq: "rw_buf st' = rw_buf st \<Longrightarrow> ro_buf st' = ro_buf st \<Longrightarrow> buf_of st' sel = buf_of st sel"
  by (cases sel) simp_all

lemma only_touches_put_buf [simp]:
  "only_touches content fd st (put_buf st sel b)"
  "only_touches content fd (put_buf st sel b) st' = only_touches content fd st st'"
  by (simp_all add: only_touches_def frame_simps)

lemma only_touches_print_err [simp]:
  "only_touches content fd st (print_err ops e i st') = only_touches content fd st st'"
  by (simp add: only_touches_def frame_simps)

context mtd_device
begin

lemma save_copy_correct:
  assumes b: "block_buf n (buf_of st sel)" "image_ok n (data (buf_of st sel))"
    and fd: "fd = mtd_dev st ! i" "n + SYSVAR_HEAD \<le> length (content (dev st) fd)"
  obtains r st' where "save_copy ops sel i st = Some (r, st')" "only_touches content fd st st'"
    "block_buf n (buf_of st' sel)" "image_ok n (data (buf_of st' sel))"
    "take n (data (buf_of st' sel)) = take n (data (buf_of st sel))"
    "r = SYSVAR_SUCCESS \<Longrightarrow> good_copy n (take n (data (buf_of st sel))) (content (dev st') fd)"
proof -
  obtain e st1 where e: "erase_mtd ops i st = Some (e, st1)" "only_touches content fd st st1"
    "rw_buf st1 = rw_buf st" "ro_buf st1 = ro_buf st"
    "e = SYSVAR_SUCCESS \<Longrightarrow> erased_upto SYSVAR_BLOCK_SIZE (content (dev st1) fd)"
    using erase_mtd_correct [of i st] fd(1) by blast
  have b1: "buf_of st1 sel = buf_of st sel" using buf_of_eq e(3,4) by blast
  show thesis
  proof (cases "e = SYSVAR_SUCCESS")
    case False
    then show thesis using that [of SYSVAR_ERASE_ERR st1] e b b1 by (simp add: save_copy_def)
  next
    case True
    obtain b2 where c: "check_buf sel SYSVAR_SAVE_MODE st1 = Some (SYSVAR_SUCCESS, put_buf st1 sel b2)"
      "block_buf n b2" "image_ok n (data b2)" "take n (data b2) = take n (data (buf_of st sel))"
      using check_buf_save [of n st1 sel] b b1 by auto
    define st2 where "st2 = put_buf st1 sel b2"
    have st2: "buf_of st2 sel = b2" "dev st2 = dev st1" "mtd_dev st2 = mtd_dev st1"
      "only_touches content fd st st2"
      using e(2) by (simp_all add: st2_def frame_simps only_touches_def)
    have "fd = mtd_dev st2 ! i" "n + 8 \<le> length (content (dev st2) fd)"
      using fd st2(2,3) e(2) by (simp_all add: only_touches_def)
    then obtain m st3 where w: "mtd_write ops sel i st2 = (m, st3)" "only_touches content fd st2 st3"
      "rw_buf st3 = rw_buf st2" "ro_buf st3 = ro_buf st2"
      "m = n + SYSVAR_HEAD \<Longrightarrow> good_copy n (take n (data b2)) (content (dev st3) fd)"
      using mtd_write_correct [of n st2 sel fd i] c e(5) [OF True] st2 by auto
    have b3: "buf_of st3 sel = b2" using buf_of_eq w(3,4) st2(1) by blast
    have t3: "only_touches content fd st st3" using only_touches_trans [OF st2(4) w(2)] .
    have eq: "save_copy ops sel i st = Some (if m \<noteq> n + 8
        then (SYSVAR_WRITE_ERR, print_err ops ''write MTD device '' (int i) st3)
        else (SYSVAR_SUCCESS, st3))"
      using e(1) True c(1,2) w(1) b3 by (simp add: save_copy_def st2_def block_buf_def)
    show thesis
    proof (cases "m = n + 8")
      case True
      then show thesis using that [of SYSVAR_SUCCESS st3] eq t3 b3 c w(5) by simp
    next
      case False
      then show thesis
        using that [of SYSVAR_WRITE_ERR "print_err ops ''write MTD device '' (int i) st3"] eq t3 b3 c
        by (simp add: frame_simps)
    qed
  qed
qed

lemma data_save_correct:
  assumes b: "block_buf n (buf_of st sel)" "image_ok n (data (buf_of st sel))"
    "p = take n (data (buf_of st sel))"
    and fd: "fd0 = mtd_dev st ! i0" "fd1 = mtd_dev st ! i1" "fd0 \<noteq> fd1"
      "n + SYSVAR_HEAD \<le> length (content (dev st) fd0)" "n + SYSVAR_HEAD \<le> length (content (dev st) fd1)"
  obtains r st' where "data_save ops sel i0 i1 st = Some (r, st')" "mtd_dev st' = mtd_dev st"
    "\<forall>fd. fd \<noteq> fd0 \<and> fd \<noteq> fd1 \<longrightarrow> content (dev st') fd = content (dev st) fd"
    "\<forall>fd. length (content (dev st') fd) = length (content (dev st) fd)"
    "content (dev st') fd1 = content (dev st) fd1 \<or> good_copy n p (content (dev st') fd0)"
    "r = SYSVAR_SUCCESS \<longrightarrow> good_copy n p (content (dev st') fd0) \<and> good_copy n p (content (dev st') fd1)"
proof (cases rule: check_mtd_cases [of ops st])
  case (2 i)
  then show thesis
    using that [of SYSVAR_OPEN_ERR "print_err ops ''open MTD device '' i st"]
    by (simp add: data_save_def frame_simps)
next
  case 1
  obtain r st1 where s: "save_copy ops sel i0 st = Some (r, st1)" "only_touches content fd0 st st1"
    "block_buf n (buf_of st1 sel)" "image_ok n (data (buf_of st1 sel))"
    "take n (data (buf_of st1 sel)) = p" "r = SYSVAR_SUCCESS \<Longrightarrow> good_copy n p (content (dev st1) fd0)"
    using save_copy_correct [OF b(1,2) fd(1,4)] b(3) by blast
  show thesis
  proof (cases "r = SYSVAR_SUCCESS")
    case False
    then show thesis
      using that [of r st1] 1(1) s(1,2) fd(3) only_touches_length [OF s(2)]
      by (simp add: data_save_def only_touches_def)
  next
    case True
    have "fd1 = mtd_dev st1 ! i1" "n + SYSVAR_HEAD \<le> length (content (dev st1) fd1)"
      using fd s(2) by (auto simp: only_touches_def)
    then obtain r2 st2 where s2: "save_copy ops sel i1 st1 = Some (r2, st2)"
      "only_touches content fd1 st1 st2"
      "r2 = SYSVAR_SUCCESS \<Longrightarrow> good_copy n p (content (dev st2) fd1)"
      using save_copy_correct [OF s(3,4)] s(5) by blast
    have "good_copy n p (content (dev st2) fd0)"
      using s(6) [OF True] s2(2) fd(3) by (simp add: only_touches_def)
    then show thesis
      using that [of r2 st2] 1(1) True s(1,2) s2 only_touches_length [OF s(2)]
        only_touches_length [OF s2(2)]
      by (simp add: data_save_def only_touches_def)
  qed
qed

lemma savevar_correct:
  assumes wf: "wf_buf (rw_buf st)" "used_len (rw_buf st) = int (vars_size (vars (rw_buf st)))"
    and n: "n = total_len (rw_buf st)" "n + SYSVAR_HEAD \<le> SYSVAR_BLOCK_SIZE"
    and fd: "fd0 = mtd_dev st ! i0" "fd1 = mtd_dev st ! i1" "fd0 \<noteq> fd1"
      "n + SYSVAR_HEAD \<le> length (content (dev st) fd0)" "n + SYSVAR_HEAD \<le> length (content (dev st) fd1)"
    and i: "(i0, i1) = (if snd (failed (rw_buf st)) then (1, 0) else (0, 1))"
  obtains r st' where "savevar ops st = Some (r, st')" "mtd_dev st' = mtd_dev st"
    "\<forall>fd. fd \<noteq> fd0 \<and> fd \<noteq> fd1 \<longrightarrow> content (dev st') fd = content (dev st) fd"
    "\<forall>fd. length (content (dev st') fd) = length (content (dev st) fd)"
    "content (dev st') fd1 = content (dev st) fd1 \<or>
       good_copy n (payload n (vars (rw_buf st))) (content (dev st') fd0)"
    "r = SYSVAR_SUCCESS \<longrightarrow> good_copy n (payload n (vars (rw_buf st))) (content (dev st') fd0) \<and>
       good_copy n (payload n (vars (rw_buf st))) (content (dev st') fd1)"
proof -
  obtain d where d: "save_var (rw_buf st) =
      Some (SYSVAR_SUCCESS, (rw_buf st)\<lparr>data := d, modified := True\<rparr>)"
    "length d = data_len (rw_buf st)" "take n d = payload n (vars (rw_buf st))" "image_ok n d"
    using wf n by (auto simp: payload_def elim: save_var_eq)
  define st1 where "st1 = st\<lparr>rw_buf := (rw_buf st)\<lparr>data := d, modified := True\<rparr>\<rparr>"
  have b: "block_buf n (buf_of st1 RW)" "image_ok n (data (buf_of st1 RW))"
    "payload n (vars (rw_buf st)) = take n (data (buf_of st1 RW))"
    using d wf(1) n by (simp_all add: st1_def block_buf_def wf_buf_def)
  have "savevar ops st = data_save ops RW i0 i1 st1"
    using d(1) i by (simp add: savevar_def st1_def split: if_splits)
  then show thesis
    using data_save_correct [OF b, of fd0 i0 fd1 i1] fd that by (auto simp: st1_def)
qed

end

section \<open>Loading and recovery on a working device\<close>

text \<open>A device on which no call fails: the contract for what is found after a restart.\<close>

locale reliable_mtd = mtd_device +
  assumes read_full: "fst (op_read ops fd off n d) = take n (drop off (content d fd))"
    and getinfo_ok: "fst (op_getinfo ops fd d) \<noteq> None"
    and unlock_ok: "fst (op_unlock ops fd s n d) \<noteq> Ioctl_Error"
    and erase_ok: "fst (op_erase ops fd s n d)"
    and write_ok: "off + length bs \<le> length (content d fd) \<Longrightarrow> fst (op_write ops fd off bs d) = length bs"
begin

lemma erase_loop_ok:
  assumes "0 < len" "len < 2 ^ 31"
  shows "\<exists>st'. erase_loop ops idx start len st = Some (SYSVAR_SUCCESS, st')"
proof (induction "SYSVAR_BLOCK_SIZE - start" arbitrary: start st rule: less_induct)
  case less
  show ?case
  proof (cases "start < SYSVAR_BLOCK_SIZE")
    case False
    then show ?thesis by (simp add: erase_loop.simps)
  next
    case True
    obtain res d1 where u: "op_unlock ops (mtd_dev st ! idx) start len (dev st) = (res, d1)" by fastforce
    obtain ok d2 where e: "op_erase ops (mtd_dev st ! idx) start len d1 = (ok, d2)" by fastforce
    have "res \<noteq> Ioctl_Error" "ok" using unlock_ok erase_ok u e by (metis fst_conv)+
    then show ?thesis
      using True assms less.hyps [of "start + len"] u e
      by (subst erase_loop.simps) (simp add: Let_def)
  qed
qed

lemma erase_mtd_ok:
  obtains st' where "erase_mtd ops idx st = Some (SYSVAR_SUCCESS, st')"
    "only_touches content (mtd_dev st ! idx) st st'" "rw_buf st' = rw_buf st" "ro_buf st' = ro_buf st"
    "erased_upto SYSVAR_BLOCK_SIZE (content (dev st') (mtd_dev st ! idx))"
proof -
  obtain e d where g: "op_getinfo ops (mtd_dev st ! idx) (dev st) = (Some e, d)"
    using getinfo_ok [of "mtd_dev st ! idx" "dev st"]
    by (cases "op_getinfo ops (mtd_dev st ! idx) (dev st)") auto
  have "0 < e" "e < 2 ^ 31" using getinfo_size [OF g] by simp_all
  then obtain st' where "erase_mtd ops idx st = Some (SYSVAR_SUCCESS, st')"
    using erase_loop_ok [of e idx 0 "st\<lparr>dev := d\<rparr>"] g by (auto simp: erase_mtd_def)
  then show thesis
    using erase_mtd_correct [of idx st] that [of st'] by auto
qed

lemma mtd_read_ok:
  assumes "block_buf n (buf_of st sel)" "fd = mtd_dev st ! i" "n + SYSVAR_HEAD \<le> length (content (dev st) fd)"
  obtains st' where "mtd_read ops sel i st = (n + SYSVAR_HEAD, st')"
    "buf_of st' sel = (buf_of st sel)\<lparr>data := take (n + SYSVAR_HEAD) (content (dev st) fd)\<rparr>"
    "mtd_dev st' = mtd_dev st" "content (dev st') = content (dev st)"
proof -
  obtain bs d where r: "op_read ops fd 0 (n + SYSVAR_HEAD) (dev st) = (bs, d)" by fastforce
  have bs: "bs = take (n + SYSVAR_HEAD) (content (dev st) fd)"
    using read_full [of fd 0 "n + SYSVAR_HEAD" "dev st"] r by simp
  show thesis
    using that [of "(put_buf st sel ((buf_of st sel)\<lparr>data := bs\<rparr>))\<lparr>dev := d\<rparr>"]
      assms r bs read_keeps [OF r]
    by (simp add: mtd_read_def Let_def block_buf_def frame_simps)
qed

end

text \<open>A partition whose checksum is right.\<close>

definition valid_copy :: "nat \<Rightarrow> byte list \<Rightarrow> bool" where
  "valid_copy n c \<longleftrightarrow> image_ok n (take (n + SYSVAR_HEAD) c)"

lemma good_copy_valid:
  "n + SYSVAR_HEAD \<le> length c \<Longrightarrow> good_copy n p c \<longleftrightarrow> valid_copy n c \<and> take n c = p"
  by (auto simp: good_copy_def valid_copy_def)

lemma check_buf_load:
  assumes "block_buf n (buf_of st sel)"
  shows "check_buf sel SYSVAR_LOAD_MODE st =
    Some (if image_ok n (data (buf_of st sel))
          then (SYSVAR_SUCCESS, put_buf st sel ((buf_of st sel)\<lparr>modified := False\<rparr>))
          else (SYSVAR_CRC_ERR, st))"
  using assms check_var_load [of "buf_of st sel"]
  by (simp add: check_buf_def block_buf_def frame_simps)

context reliable_mtd
begin

lemma load_copy_ok:
  assumes "block_buf n (buf_of st sel)" "fd = mtd_dev st ! i" "n + SYSVAR_HEAD \<le> length (content (dev st) fd)"
  obtains st' where "load_copy ops sel i st = Some (\<not> valid_copy n (content (dev st) fd), st')"
    "data (buf_of st' sel) = take (n + SYSVAR_HEAD) (content (dev st) fd)"
    "block_buf n (buf_of st' sel)" "same_list (buf_of st sel) (buf_of st' sel)"
    "mtd_dev st' = mtd_dev st" "content (dev st') = content (dev st)"
proof -
  obtain st1 where r: "mtd_read ops sel i st = (n + SYSVAR_HEAD, st1)"
    "buf_of st1 sel = (buf_of st sel)\<lparr>data := take (n + SYSVAR_HEAD) (content (dev st) fd)\<rparr>"
    "mtd_dev st1 = mtd_dev st" "content (dev st1) = content (dev st)"
    using mtd_read_ok [OF assms] by blast
  have b1: "block_buf n (buf_of st1 sel)" using assms r(2) by (simp add: block_buf_def)
  define st2 where "st2 = (if valid_copy n (content (dev st) fd)
    then put_buf st1 sel ((buf_of st1 sel)\<lparr>modified := False\<rparr>) else st1)"
  have "buf_of st2 sel = buf_of st1 sel \<or> buf_of st2 sel = (buf_of st1 sel)\<lparr>modified := False\<rparr>"
    by (simp add: st2_def frame_simps)
  then have "data (buf_of st2 sel) = data (buf_of st1 sel)" "block_buf n (buf_of st2 sel)"
    "same_list (buf_of st sel) (buf_of st2 sel)"
    using b1 r(2) by (auto simp: block_buf_def same_list_upd)
  moreover have "load_copy ops sel i st = Some (\<not> valid_copy n (content (dev st) fd), st2)"
    using r(1,2) check_buf_load [OF b1] b1
    by (auto simp: load_copy_def st2_def valid_copy_def block_buf_def frame_simps)
  ultimately show thesis
    using that [of st2] r by (simp add: st2_def frame_simps)
qed

lemma recover_copy_ok:
  assumes b: "block_buf n (buf_of st sel)"
    and fd: "fdi = mtd_dev st ! i" "fdj = mtd_dev st ! j" "fdi \<noteq> fdj"
      "n + SYSVAR_HEAD \<le> length (content (dev st) fdi)" "n + SYSVAR_HEAD \<le> length (content (dev st) fdj)"
    and v: "valid_copy n (content (dev st) fdi)"
  obtains st' where "recover_copy ops sel i j st = Some (Rec_Done, st')"
    "take n (data (buf_of st' sel)) = take n (content (dev st) fdi)" "block_buf n (buf_of st' sel)"
    "same_list (buf_of st sel) (buf_of st' sel)" "only_touches content fdj st st'"
    "good_copy n (take n (content (dev st) fdi)) (content (dev st') fdj)"
proof -
  obtain st1 where r: "mtd_read ops sel i st = (n + SYSVAR_HEAD, st1)"
    "buf_of st1 sel = (buf_of st sel)\<lparr>data := take (n + SYSVAR_HEAD) (content (dev st) fdi)\<rparr>"
    "mtd_dev st1 = mtd_dev st" "content (dev st1) = content (dev st)"
    using mtd_read_ok [OF b fd(1,4)] by blast
  define st2 where "st2 = put_buf st1 sel ((buf_of st1 sel)\<lparr>modified := False\<rparr>)"
  have b1: "block_buf n (buf_of st1 sel)" "image_ok n (data (buf_of st1 sel))"
    using b fd(4) r(2) v by (simp_all add: block_buf_def valid_copy_def)
  then have l: "check_buf sel SYSVAR_LOAD_MODE st1 = Some (SYSVAR_SUCCESS, st2)"
    by (simp add: check_buf_load st2_def)
  obtain st3 where e: "erase_mtd ops j st2 = Some (SYSVAR_SUCCESS, st3)"
    "only_touches content fdj st2 st3" "buf_of st3 sel = buf_of st2 sel"
    "erased_upto SYSVAR_BLOCK_SIZE (content (dev st3) fdj)"
    using erase_mtd_ok [of j st2] buf_of_eq [of _ st2 sel] fd(2) r(3)
    by (metis st2_def put_buf_fields(1))
  have b3: "block_buf n (buf_of st3 sel)" "image_ok n (data (buf_of st3 sel))"
    "data (buf_of st3 sel) = take (n + SYSVAR_HEAD) (content (dev st) fdi)"
    "same_list (buf_of st sel) (buf_of st3 sel)"
    using e(3) b1 r(2) by (simp_all add: st2_def frame_simps block_buf_def same_list_upd)
  obtain b4 where c: "check_buf sel SYSVAR_SAVE_MODE st3 = Some (SYSVAR_SUCCESS, put_buf st3 sel b4)"
    "block_buf n b4" "image_ok n (data b4)" "take n (data b4) = take n (content (dev st) fdi)"
    "same_list (buf_of st sel) b4"
    using check_buf_save [OF b3(1,2)] b3(3) same_list_trans [OF b3(4)] by (metis le_add1 min.absorb1 take_take)
  define st4 where "st4 = put_buf st3 sel b4"
  have t4: "only_touches content fdj st st4" "buf_of st4 sel = b4" "dev st4 = dev st3"
    using e(2) r(3,4) by (simp_all add: st4_def st2_def only_touches_def frame_simps)
  have len: "length (content (dev st4) fdj) = length (content (dev st) fdj)" "fdj = mtd_dev st4 ! j"
    using t4(1) fd(2) by (simp_all add: only_touches_def)
  have "\<exists>m st5. mtd_write ops sel j st4 = (m, st5) \<and> only_touches content fdj st4 st5 \<and>
      buf_of st5 sel = b4 \<and> (m = n + SYSVAR_HEAD \<longrightarrow>
        good_copy n (take n (content (dev st) fdi)) (content (dev st5) fdj))"
    by (rule mtd_write_correct [of n st4 sel fdj j])
      (use len fd(5) t4(2,3) c(2-4) e(4) buf_of_eq [of _ st4 sel] in auto)
  then obtain m st5 where w: "mtd_write ops sel j st4 = (m, st5)" "only_touches content fdj st4 st5"
    "buf_of st5 sel = b4" "m = n + SYSVAR_HEAD \<longrightarrow>
       good_copy n (take n (content (dev st) fdi)) (content (dev st5) fdj)"
    by blast
  have "m = n + SYSVAR_HEAD"
    using write_ok [of 0 "take (data_len b4) (data b4)" "dev st4" fdj] w(1) c(2) t4(2) len fd(5)
    by (auto simp: mtd_write_def Let_def block_buf_def split: prod.splits)
  then have "recover_copy ops sel i j st =
      Some (Rec_Done, put_buf st5 sel (b4\<lparr>loaded := True\<rparr>))"
    using r(1,2) b l e(1) c(1,2) w(1,3)
    by (simp add: recover_copy_def block_buf_def st4_def)
  moreover have "only_touches content fdj st (put_buf st5 sel (b4\<lparr>loaded := True\<rparr>))"
    using only_touches_trans [OF t4(1) w(2)] by (simp add: only_touches_def frame_simps)
  moreover have "same_list (buf_of st sel) (b4\<lparr>loaded := True\<rparr>)"
    using same_list_trans [OF c(5) same_list_upd(5)] .
  ultimately show thesis
    using that [of "put_buf st5 sel (b4\<lparr>loaded := True\<rparr>)"] c(2,4) w(4) \<open>m = n + SYSVAR_HEAD\<close>
    by (simp add: frame_simps block_buf_def)
qed

lemma recover_copy_next:
  assumes b: "block_buf n (buf_of st sel)"
    and fd: "fdi = mtd_dev st ! i" "n + SYSVAR_HEAD \<le> length (content (dev st) fdi)"
    and v: "\<not> valid_copy n (content (dev st) fdi)"
  obtains st' where "recover_copy ops sel i j st = Some (Rec_Next, st')" "block_buf n (buf_of st' sel)"
    "same_list (buf_of st sel) (buf_of st' sel)" "mtd_dev st' = mtd_dev st"
    "content (dev st') = content (dev st)"
proof -
  obtain st1 where r: "mtd_read ops sel i st = (n + SYSVAR_HEAD, st1)"
    "buf_of st1 sel = (buf_of st sel)\<lparr>data := take (n + SYSVAR_HEAD) (content (dev st) fdi)\<rparr>"
    "mtd_dev st1 = mtd_dev st" "content (dev st1) = content (dev st)"
    using mtd_read_ok [OF b fd] by blast
  have b1: "block_buf n (buf_of st1 sel)" "\<not> image_ok n (data (buf_of st1 sel))"
    using b fd r(2) v by (simp_all add: block_buf_def valid_copy_def)
  then have "recover_copy ops sel i j st = Some (Rec_Next, st1)"
    using r(1) check_buf_load [OF b1(1)] by (simp add: recover_copy_def block_buf_def)
  then show thesis using that [of st1] r b1 by (simp add: same_list_upd)
qed

text \<open>Which payload a load finds: copy 1 when it is valid, else copy 0 when that is, else nothing.\<close>

lemma data_load_ok:
  assumes b: "block_buf n (buf_of st sel)" "list_all (\<lambda>fd. 0 \<le> fd) (mtd_dev st)"
    and fd: "fd0 = mtd_dev st ! idx" "fd1 = mtd_dev st ! (idx + 1)" "fd0 \<noteq> fd1"
    and c: "c0 = content (dev st) fd0" "c1 = content (dev st) fd1"
      "n + SYSVAR_HEAD \<le> length c0" "n + SYSVAR_HEAD \<le> length c1"
    and v: "valid_copy n c0 \<or> valid_copy n c1"
    and p: "p = take n (if valid_copy n c1 then c1 else c0)"
  obtains st' where "data_load ops sel idx st = Some (SYSVAR_SUCCESS, st')"
    "take n (data (buf_of st' sel)) = p" "block_buf n (buf_of st' sel)"
    "same_list (buf_of st sel) (buf_of st' sel)" "mtd_dev st' = mtd_dev st"
    "valid_copy n c0 \<and> valid_copy n c1 \<longrightarrow> content (dev st') = content (dev st)"
    "\<not> (valid_copy n c0 \<and> valid_copy n c1) \<longrightarrow>
       good_copy n p (content (dev st') fd0) \<and> good_copy n p (content (dev st') fd1)"
proof -
  define s0 where "s0 = put_buf st sel ((buf_of st sel)\<lparr>loaded := True\<rparr>)"
  have s0: "block_buf n (buf_of s0 sel)" "same_list (buf_of st sel) (buf_of s0 sel)"
    "mtd_dev s0 = mtd_dev st" "dev s0 = dev st"
    using b(1) by (simp_all add: s0_def frame_simps block_buf_def same_list_upd)
  have ck: "check_mtd ops s0 = (SYSVAR_SUCCESS, s0)"
    using check_mtd_loop_ok [of ops "mtd_dev s0" 0 s0] b(2) s0(3) by (simp add: check_mtd_def)
  obtain s1 where l0: "load_copy ops sel idx s0 = Some (\<not> valid_copy n c0, s1)"
    "block_buf n (buf_of s1 sel)" "same_list (buf_of s0 sel) (buf_of s1 sel)"
    "mtd_dev s1 = mtd_dev st" "content (dev s1) = content (dev st)"
    using load_copy_ok [OF s0(1), of fd0 idx] fd(1) c s0(3,4) by auto
  obtain s2 where l1: "load_copy ops sel (idx + 1) s1 = Some (\<not> valid_copy n c1, s2)"
    "data (buf_of s2 sel) = take (n + SYSVAR_HEAD) c1" "block_buf n (buf_of s2 sel)"
    "same_list (buf_of s1 sel) (buf_of s2 sel)"
    "mtd_dev s2 = mtd_dev st" "content (dev s2) = content (dev st)"
    using load_copy_ok [OF l0(2), of fd1 "idx + 1"] fd(2) c l0(4,5) by auto
  define s3 where
    "s3 = put_buf s2 sel ((buf_of s2 sel)\<lparr>failed := (\<not> valid_copy n c0, \<not> valid_copy n c1)\<rparr>)"
  have s3: "block_buf n (buf_of s3 sel)" "same_list (buf_of st sel) (buf_of s3 sel)"
    "mtd_dev s3 = mtd_dev st" "content (dev s3) = content (dev st)"
    "data (buf_of s3 sel) = take (n + SYSVAR_HEAD) c1"
    using l1 same_list_trans [OF same_list_trans [OF s0(2) l0(3)] same_list_trans [OF l1(4) same_list_upd(6)]]
    by (simp_all add: s3_def frame_simps block_buf_def)
  have dl: "data_load ops sel idx st = (if valid_copy n c0 \<and> valid_copy n c1
      then Some (SYSVAR_SUCCESS, s3) else data_recovery ops sel idx s3)"
    using ck l0(1) l1(1) by (simp add: data_load_def s0_def s3_def)
  have len: "n + SYSVAR_HEAD \<le> length (content (dev s3) fd0)" "n + SYSVAR_HEAD \<le> length (content (dev s3) fd1)"
    using s3(4) c by simp_all
  consider (both) "valid_copy n c0" "valid_copy n c1" | (zero) "valid_copy n c0" "\<not> valid_copy n c1"
    | (one) "\<not> valid_copy n c0" "valid_copy n c1" using v by blast
  then show thesis
  proof cases
    case both
    then show thesis using that [of s3] dl s3 p by (simp add: min_def)
  next
    case zero
    obtain s4 where r: "recover_copy ops sel idx (idx + 1) s3 = Some (Rec_Done, s4)"
      "take n (data (buf_of s4 sel)) = take n c0" "block_buf n (buf_of s4 sel)"
      "same_list (buf_of s3 sel) (buf_of s4 sel)" "only_touches content fd1 s3 s4"
      "good_copy n (take n c0) (content (dev s4) fd1)"
      using recover_copy_ok [OF s3(1) _ _ fd(3) len] fd s3(3,4) c zero by metis
    have "good_copy n (take n c0) (content (dev s4) fd0)"
      using r(5) zero(1) c s3(4) fd(3) by (simp add: only_touches_def good_copy_valid)
    then show thesis
      using that [of s4] dl zero r p same_list_trans [OF s3(2) r(4)] s3(3)
      by (simp add: data_recovery_def only_touches_def)
  next
    case one
    obtain s4 where r: "recover_copy ops sel idx (idx + 1) s3 = Some (Rec_Next, s4)"
      "block_buf n (buf_of s4 sel)" "same_list (buf_of s3 sel) (buf_of s4 sel)"
      "mtd_dev s4 = mtd_dev st" "content (dev s4) = content (dev st)"
      using recover_copy_next [OF s3(1) _ len(1)] fd(1) s3(3,4) c(1) one(1) by metis
    obtain s5 where q: "recover_copy ops sel (idx + 1) idx s4 = Some (Rec_Done, s5)"
      "take n (data (buf_of s5 sel)) = take n c1" "block_buf n (buf_of s5 sel)"
      "same_list (buf_of s4 sel) (buf_of s5 sel)" "only_touches content fd0 s4 s5"
      "good_copy n (take n c1) (content (dev s5) fd0)"
      using recover_copy_ok [OF r(2), of fd1 "idx + 1" fd0 idx] fd r(4,5) c one(2) by metis
    have "good_copy n (take n c1) (content (dev s5) fd1)"
      using q(5) one(2) c r(5) fd(3) by (simp add: only_touches_def good_copy_valid)
    then show thesis
      using that [of s5] dl one r(1,4) q p
        same_list_trans [OF same_list_trans [OF s3(2) r(3)] q(4)]
      by (simp add: data_recovery_def only_touches_def)
  qed
qed

end

section \<open>A flash with failing calls\<close>

text \<open>
  A concrete driver that meets the contract: partitions as byte lists, erase blocks of 4096 bytes,
  a write clears bits only. \<open>faults\<close> says which of the next erase and write calls fail: a failing
  erase leaves zeros in its range, a failing write stops half way. With \<open>inject = False\<close> no call
  fails.
\<close>

record flash =
  parts :: "int \<Rightarrow> byte list"
  faults :: "bool list"

definition next_fault :: "bool \<Rightarrow> flash \<Rightarrow> bool" where
  "next_fault inject d \<longleftrightarrow> inject \<and> faults d \<noteq> [] \<and> hd (faults d)"

definition flash_erase :: "bool \<Rightarrow> int \<Rightarrow> nat \<Rightarrow> nat \<Rightarrow> flash \<Rightarrow> bool \<times> flash" where
  "flash_erase inject fd s n d =
     (let c = parts d fd;
          x = (if next_fault inject d then 0 else 0xff);
          c' = map (\<lambda>k. if s \<le> k \<and> k < s + n then x else c ! k) [0..<length c]
      in (\<not> next_fault inject d, d\<lparr>parts := (parts d)(fd := c'), faults := tl (faults d)\<rparr>))"

definition flash_write :: "bool \<Rightarrow> int \<Rightarrow> nat \<Rightarrow> byte list \<Rightarrow> flash \<Rightarrow> nat \<times> flash" where
  "flash_write inject fd off bs d =
     (let c = parts d fd;
          m = (if next_fault inject d then length bs div 2 else min (length bs) (length c - off));
          c' = map (\<lambda>k. if off \<le> k \<and> k < off + m then c ! k AND bs ! (k - off) else c ! k) [0..<length c]
      in (m, d\<lparr>parts := (parts d)(fd := c'), faults := tl (faults d)\<rparr>))"

definition flash_ops :: "bool \<Rightarrow> flash mtd_ops" where
  "flash_ops inject = \<lparr>
     op_open = (\<lambda>name d. (if name \<in> set mtd_name then 3 + int (length (takeWhile (\<lambda>n. n \<noteq> name) mtd_name))
                          else - 1, d)),
     op_close = (\<lambda>fd d. d),
     op_getinfo = (\<lambda>fd d. (Some 4096, d)),
     op_unlock = (\<lambda>fd s n d. (Ioctl_Ok, d)),
     op_lock = (\<lambda>fd s n d. (True, d)),
     op_erase = flash_erase inject,
     op_read = (\<lambda>fd off n d. (take n (drop off (parts d fd)), d)),
     op_write = flash_write inject,
     op_strerror = (\<lambda>d. lit ''Input/output error''),
     op_fresh = (\<lambda>n d. replicate n 0)\<rparr>"

lemma flash_ops_simps [simp]:
  "op_getinfo (flash_ops inject) fd d = (Some 4096, d)"
  "op_unlock (flash_ops inject) fd s n d = (Ioctl_Ok, d)"
  "op_erase (flash_ops inject) = flash_erase inject"
  "op_read (flash_ops inject) fd off n d = (take n (drop off (parts d fd)), d)"
  "op_write (flash_ops inject) = flash_write inject"
  by (simp_all add: flash_ops_def)

lemma flash_write_stores:
  assumes "flash_write inject fd off bs d = (length bs, d')" "off + length bs \<le> length (parts d fd)"
    "\<forall>k < length bs. parts d fd ! (off + k) = 0xff"
  shows "take (length bs) (drop off (parts d' fd)) = bs"
proof (rule nth_equalityI)
  show l: "length (take (length bs) (drop off (parts d' fd))) = length bs"
    using assms(1,2) by (auto simp: flash_write_def Let_def)
  fix k
  assume "k < length (take (length bs) (drop off (parts d' fd)))"
  then have k: "k < length bs" using l by simp
  have "(255 :: byte) = - 1" by simp
  then have "(255 :: byte) AND b = b" for b by (metis and.left_neutral)
  then show "take (length bs) (drop off (parts d' fd)) ! k = bs ! k"
    using assms k by (auto simp: flash_write_def Let_def)
qed

interpretation fl: mtd_device "flash_ops inject" parts for inject
proof unfold_locales
  fix fd off n d d' bs
  assume "op_read (flash_ops inject) fd off n d = (bs, d')"
  then show "length bs \<le> n \<and> bs = take (length bs) (drop off (parts d fd))"
    by (auto simp: min_def)
next
  fix fd s n d d' k
  assume "op_erase (flash_ops inject) fd s n d = (True, d')" "k < length (parts d fd)"
  then show "parts d' fd ! k = (if s \<le> k \<and> k < s + n then 0xff else parts d fd ! k)"
    by (auto simp: flash_erase_def Let_def)
next
  fix fd off bs d d'
  assume "op_write (flash_ops inject) fd off bs d = (length bs, d')"
    "off + length bs \<le> length (parts d fd)" "\<forall>k < length bs. parts d fd ! (off + k) = 0xff"
  then show "take (length bs) (drop off (parts d' fd)) = bs"
    using flash_write_stores by simp
qed (auto simp: flash_erase_def flash_write_def Let_def)

interpretation flr: reliable_mtd "flash_ops False" parts
  by unfold_locales (auto simp: flash_erase_def flash_write_def Let_def next_fault_def)

section \<open>Properties of saving and loading\<close>

text \<open>What is in the variable list after the flash block was read.\<close>

lemma load_var_payload:
  assumes "wf_buf b" "mallocs b = []" "list_all storable vs" "vars_size vs \<le> total_len b"
    "take (total_len b) (data b) = payload (total_len b) vs"
  obtains b' where "load_var b = Some (SYSVAR_SUCCESS, b')" "vars b' = vs"
  using load_var_saved [OF assms(1-4)] assms(5) that by (simp add: payload_def)

text \<open>Opened devices, and partitions as large as the block.\<close>

definition rw_ready :: "('d \<Rightarrow> int \<Rightarrow> byte list) \<Rightarrow> nat \<Rightarrow> 'd sv_state \<Rightarrow> bool" where
  "rw_ready content n st \<longleftrightarrow> wf_buf (rw_buf st) \<and> mallocs (rw_buf st) = [] \<and>
     total_len (rw_buf st) = n \<and> n + SYSVAR_HEAD \<le> SYSVAR_BLOCK_SIZE \<and>
     list_all (\<lambda>fd. 0 \<le> fd) (mtd_dev st) \<and> mtd_dev st ! 0 \<noteq> mtd_dev st ! 1 \<and>
     n + SYSVAR_HEAD \<le> length (content (dev st) (mtd_dev st ! 0)) \<and>
     n + SYSVAR_HEAD \<le> length (content (dev st) (mtd_dev st ! 1))"

definition part :: "('d \<Rightarrow> int \<Rightarrow> byte list) \<Rightarrow> 'd sv_state \<Rightarrow> nat \<Rightarrow> byte list" where
  "part content st i = content (dev st) (mtd_dev st ! i)"

lemma load_payload:
  assumes "reliable_mtd ops content" and rdy: "rw_ready content n st"
    and v: "valid_copy n (part content st 0) \<or> valid_copy n (part content st 1)"
    and p: "take n (if valid_copy n (part content st 1) then part content st 1
       else part content st 0) = payload n vs" and vs: "list_all storable vs" "vars_size vs \<le> n"
  obtains st' b where "data_load ops RW SYSVAR_RW_BUF st = Some (SYSVAR_SUCCESS, st')"
    "load_var (rw_buf st') = Some (SYSVAR_SUCCESS, b)" "vars b = vs"
    "\<not> (valid_copy n (part content st 0) \<and> valid_copy n (part content st 1)) \<longrightarrow>
       good_copy n (payload n vs) (part content st' 0) \<and> good_copy n (payload n vs) (part content st' 1)"
proof -
  have blk: "block_buf n (buf_of st RW)" using rdy by (simp add: rw_ready_def block_buf_def wf_buf_def)
  have dv: "list_all (\<lambda>fd. 0 \<le> fd) (mtd_dev st)" "mtd_dev st ! 0 \<noteq> mtd_dev st ! (0 + 1)"
    and len: "n + SYSVAR_HEAD \<le> length (content (dev st) (mtd_dev st ! 0))"
     "n + SYSVAR_HEAD \<le> length (content (dev st) (mtd_dev st ! (0 + 1)))"
    using rdy by (simp_all add: rw_ready_def)
  have v': "valid_copy n (content (dev st) (mtd_dev st ! 0)) \<or>
      valid_copy n (content (dev st) (mtd_dev st ! (0 + 1)))"
    and p': "payload n vs = take n (if valid_copy n (content (dev st) (mtd_dev st ! (0 + 1)))
      then content (dev st) (mtd_dev st ! (0 + 1)) else content (dev st) (mtd_dev st ! 0))"
    using v p by (auto simp: part_def split: if_splits)
  obtain st' where l: "data_load ops RW 0 st = Some (SYSVAR_SUCCESS, st')"
    "take n (data (buf_of st' RW)) = payload n vs" "block_buf n (buf_of st' RW)"
    "same_list (buf_of st RW) (buf_of st' RW)"
    "\<not> (valid_copy n (part content st 0) \<and> valid_copy n (part content st 1)) \<longrightarrow>
       good_copy n (payload n vs) (part content st' 0) \<and> good_copy n (payload n vs) (part content st' 1)"
    by (rule reliable_mtd.data_load_ok [OF assms(1) blk dv(1) refl refl dv(2) refl refl len v' p'])
      (simp add: part_def)
  have "length (data (rw_buf st')) = length (data (rw_buf st))"
    using blk l(3) by (simp add: block_buf_def)
  then have wf: "wf_buf (rw_buf st')" "mallocs (rw_buf st') = []" "total_len (rw_buf st') = n"
    using same_list_wf [OF l(4)] same_list_fields [OF l(4)] rdy by (simp_all add: rw_ready_def)
  obtain b where "load_var (rw_buf st') = Some (SYSVAR_SUCCESS, b)" "vars b = vs"
    using load_var_payload [OF wf(1,2) vs(1)] wf(3) vs(2) l(2) by auto
  then show thesis using that l(1,5) by blast
qed

text \<open>
  Claim C2. Saving is atomic against failing driver calls. The two copies of the variables are
  written one after the other, the damaged one first; when the copy written second holds the old
  variables, then whichever call of the driver fails during \<open>savevar\<close>, a later load on a working
  device finds the new variables or the old ones, and the new ones if \<open>savevar\<close> reported success.
  The only other outcome is that the interrupted call left a block with neither payload whose
  checksum happens to be right.
\<close>
theorem savevar_atomic:
  assumes dv: "mtd_device ops content" "reliable_mtd ops' content"
    and rdy: "rw_ready content n st" "list_all storable (vars (rw_buf st))"
      "used_len (rw_buf st) = int (vars_size (vars (rw_buf st)))"
    and i: "(i0 :: nat, i1 :: nat) = (if snd (failed (rw_buf st)) then (1, 0) else (0, 1))"
    and old: "good_copy n (payload n old) (part content st i1)" "list_all storable old" "vars_size old \<le> n"
    and b: "wf_buf b" "mallocs b = []" "total_len b = n"
  shows "\<exists>r st'. savevar ops st = Some (r, st') \<and>
    ((\<exists>st3 b'. data_load ops' RW SYSVAR_RW_BUF (st'\<lparr>rw_buf := b\<rparr>) = Some (SYSVAR_SUCCESS, st3) \<and>
        load_var (rw_buf st3) = Some (SYSVAR_SUCCESS, b') \<and>
        (vars b' = vars (rw_buf st) \<or> r \<noteq> SYSVAR_SUCCESS \<and> vars b' = old)) \<or>
     r \<noteq> SYSVAR_SUCCESS \<and> (\<exists>j \<in> {0, 1}. valid_copy n (part content st' j) \<and>
        take n (part content st' j) \<notin> {payload n old, payload n (vars (rw_buf st))}))"
proof -
  let ?new = "vars (rw_buf st)"
  have ij: "(i0 = 0 \<and> i1 = 1) \<or> (i0 = 1 \<and> i1 = 0)" using i by (auto split: if_splits)
  have fit: "vars_size ?new \<le> n" using rdy by (simp add: rw_ready_def wf_buf_def)
  obtain r st' where s: "savevar ops st = Some (r, st')" "mtd_dev st' = mtd_dev st"
    "\<forall>fd. length (content (dev st') fd) = length (content (dev st) fd)"
    "content (dev st') (mtd_dev st ! i1) = content (dev st) (mtd_dev st ! i1) \<or>
       good_copy n (payload n ?new) (content (dev st') (mtd_dev st ! i0))"
    "r = SYSVAR_SUCCESS \<longrightarrow> good_copy n (payload n ?new) (content (dev st') (mtd_dev st ! i0)) \<and>
       good_copy n (payload n ?new) (content (dev st') (mtd_dev st ! i1))"
    by (rule mtd_device.savevar_correct [OF dv(1) _ rdy(3) _ _ refl refl _ _ _ i, of n])
      (use rdy(1) ij in \<open>auto simp: rw_ready_def\<close>)
  define st2 where "st2 = st'\<lparr>rw_buf := b\<rparr>"
  have rdy2: "rw_ready content n st2" using rdy(1) b s(2,3) by (simp add: rw_ready_def st2_def)
  have part2: "part content st2 = part content st'" by (rule ext) (simp add: part_def st2_def)
  have "part content st' i1 = part content st i1 \<or> good_copy n (payload n ?new) (part content st' i0)"
    using s(2,4) by (simp add: part_def)
  then have v: "valid_copy n (part content st2 0) \<or> valid_copy n (part content st2 1)"
    using ij old(1) part2 by (auto simp: good_copy_def valid_copy_def)
  define c where "c = (if valid_copy n (part content st2 1) then part content st2 1
    else part content st2 0)"
  have load: "\<exists>st3 b'. data_load ops' RW SYSVAR_RW_BUF st2 = Some (SYSVAR_SUCCESS, st3) \<and>
      load_var (rw_buf st3) = Some (SYSVAR_SUCCESS, b') \<and> vars b' = vs"
    if "take n c = payload n vs" "list_all storable vs" "vars_size vs \<le> n" for vs
    using load_payload [OF dv(2) rdy2 v that(1) [unfolded c_def] that(2,3)] by blast
  have both: "take n c = payload n ?new" if "r = SYSVAR_SUCCESS"
  proof -
    have "good_copy n (payload n ?new) (part content st2 0) \<and> good_copy n (payload n ?new) (part content st2 1)"
      using that ij s(2,5) by (auto simp: part_def st2_def)
    then show ?thesis by (simp add: c_def good_copy_def)
  qed
  have "(\<exists>j \<in> {0, 1}. valid_copy n (part content st' j) \<and>
        take n (part content st' j) \<notin> {payload n old, payload n ?new}) \<or>
      take n c = payload n old \<or> take n c = payload n ?new"
    using v part2 by (auto simp: c_def)
  then have "(\<exists>st3 b'. data_load ops' RW SYSVAR_RW_BUF st2 = Some (SYSVAR_SUCCESS, st3) \<and>
        load_var (rw_buf st3) = Some (SYSVAR_SUCCESS, b') \<and>
        (vars b' = ?new \<or> r \<noteq> SYSVAR_SUCCESS \<and> vars b' = old)) \<or>
     r \<noteq> SYSVAR_SUCCESS \<and> (\<exists>j \<in> {0, 1}. valid_copy n (part content st' j) \<and>
        take n (part content st' j) \<notin> {payload n old, payload n ?new})"
    using both load [OF _ rdy(2) fit] load [OF _ old(2,3)] by blast
  then show ?thesis unfolding st2_def using s(1) by blast
qed

definition sample_image :: "byte list" where
  "sample_image = data (snd (the (save_var sample_buf)))"

lemma sample_image_ok:
  "good_copy 40 (payload 40 [sample_var]) sample_image" "length sample_image = 48"
proof -
  obtain d where d: "save_var sample_buf = Some (SYSVAR_SUCCESS, sample_buf\<lparr>data := d, modified := True\<rparr>)"
    "length d = data_len sample_buf"
    "take (total_len sample_buf) d = concat (map enc_var (vars sample_buf)) @
       replicate (total_len sample_buf - vars_size (vars sample_buf)) 0xff"
    "image_ok (total_len sample_buf) d"
    using save_var_eq [OF sample_buf_ok(1,4)] by blast
  then have "sample_image = d" by (simp add: sample_image_def)
  with d show "good_copy 40 (payload 40 [sample_var]) sample_image" "length sample_image = 48"
    by (simp_all add: sample_buf_def good_copy_def payload_def)
qed

text \<open>A state with the devices open; \<open>c1\<close> is in the second partition, \<open>fs\<close> says which calls fail.\<close>

definition sample_state :: "byte list \<Rightarrow> bool list \<Rightarrow> flash sv_state" where
  "sample_state c1 fs = \<lparr>mtd_dev = [3, 4, 5, 6], mtd_dev_unlocked = [False, False, False, False],
     verbose = True,
     rw_buf = sample_buf\<lparr>vars := [sample_var\<lparr>vname := [90]\<rparr>]\<rparr>, ro_buf = sample_buf, sv_out = [],
     dev = \<lparr>parts = (\<lambda>fd. if fd = 4 then c1 else sample_image), faults = fs\<rparr>\<rparr>"

lemma sample_state_ready:
  "length c1 = 48 \<Longrightarrow> rw_ready parts 40 (sample_state c1 fs)"
  "used_len (rw_buf (sample_state c1 fs)) = int (vars_size (vars (rw_buf (sample_state c1 fs))))"
  "list_all storable (vars (rw_buf (sample_state c1 fs)))" "\<not> snd (failed (rw_buf (sample_state c1 fs)))"
  "storable sample_var"
  by (simp_all add: sample_state_def rw_ready_def sample_buf_def sample_var_def wf_buf_def wf_var_def
      storable_def sample_image_ok)

text \<open>The witness: the second write (call 34, after 16 erases and a write, and 16 erases) fails.\<close>

theorem savevar_atomic_witness:
  "\<exists>r st'. savevar (flash_ops True) (sample_state sample_image (replicate 33 False @ [True])) =
      Some (r, st') \<and>
    ((\<exists>st3 b'. data_load (flash_ops False) RW SYSVAR_RW_BUF (st'\<lparr>rw_buf := sample_buf\<rparr>) =
          Some (SYSVAR_SUCCESS, st3) \<and> load_var (rw_buf st3) = Some (SYSVAR_SUCCESS, b') \<and>
        (vars b' = vars (rw_buf (sample_state sample_image (replicate 33 False @ [True]))) \<or>
         r \<noteq> SYSVAR_SUCCESS \<and> vars b' = [sample_var])) \<or>
     r \<noteq> SYSVAR_SUCCESS \<and> (\<exists>j \<in> {0, 1}. valid_copy 40 (part parts st' j) \<and>
        take 40 (part parts st' j) \<notin> {payload 40 [sample_var],
          payload 40 (vars (rw_buf (sample_state sample_image (replicate 33 False @ [True]))))}))"
  by (rule savevar_atomic [where ?i0.0 = 0 and ?i1.0 = 1,
        OF fl.mtd_device_axioms flr.reliable_mtd_axioms sample_state_ready(1,3,2)])
    (use sample_state_ready(4,5) sample_buf_ok sample_image_ok in
      \<open>simp_all add: part_def sample_state_def, simp_all add: sample_var_def sample_buf_def\<close>)

text \<open>
  Claim C3. Recovery: when exactly one of the two copies passes its checksum and holds the variables
  \<open>vs\<close>, loading on a working device gives exactly \<open>vs\<close> and rewrites the damaged copy, so that
  both copies hold \<open>vs\<close> under a valid checksum afterwards.
\<close>
theorem data_load_recovers:
  assumes "reliable_mtd ops content" "rw_ready content n st" "(i, j) = (0, 1) \<or> (i, j) = (1, 0)"
    "good_copy n (payload n vs) (part content st i)" "\<not> valid_copy n (part content st j)"
    "list_all storable vs" "vars_size vs \<le> n"
  shows "\<exists>st' b. data_load ops RW SYSVAR_RW_BUF st = Some (SYSVAR_SUCCESS, st') \<and>
    load_var (rw_buf st') = Some (SYSVAR_SUCCESS, b) \<and> vars b = vs \<and>
    good_copy n (payload n vs) (part content st' 0) \<and> good_copy n (payload n vs) (part content st' 1)"
proof -
  have "valid_copy n (part content st i)" "take n (part content st i) = payload n vs"
    using assms(4) by (simp_all add: good_copy_def valid_copy_def)
  then have "valid_copy n (part content st 0) \<or> valid_copy n (part content st 1)"
    "take n (if valid_copy n (part content st 1) then part content st 1
       else part content st 0) = payload n vs"
    "\<not> (valid_copy n (part content st 0) \<and> valid_copy n (part content st 1))"
    using assms(3,5) by auto
  then show ?thesis using load_payload [OF assms(1,2) _ _ assms(6,7)] by blast
qed

definition damaged_image :: "byte list" where
  "damaged_image = take 44 sample_image @ map (\<lambda>b. b + 1) (drop 44 sample_image)"

lemma damaged_image_bad: "\<not> valid_copy 40 damaged_image" "length damaged_image = 48"
proof -
  have l: "length sample_image = 48" by (rule sample_image_ok)
  then show "length damaged_image = 48" by (simp add: damaged_image_def)
  have "image_ok 40 sample_image"
    using sample_image_ok(1) l by (simp add: good_copy_def)
  then have "word_at damaged_image 44 \<noteq> word_at sample_image 44"
    using l by (simp add: damaged_image_def word_at_Some nth_append le_word_inj)
  moreover have "take 40 damaged_image = take 40 sample_image"
    using l by (simp add: damaged_image_def min_def)
  ultimately show "\<not> valid_copy 40 damaged_image"
    using \<open>image_ok 40 sample_image\<close> l \<open>length damaged_image = 48\<close>
    by (simp add: valid_copy_def image_ok_def)
qed

theorem data_load_recovers_witness:
  "\<exists>st' b. data_load (flash_ops False) RW SYSVAR_RW_BUF (sample_state damaged_image []) =
      Some (SYSVAR_SUCCESS, st') \<and>
    load_var (rw_buf st') = Some (SYSVAR_SUCCESS, b) \<and> vars b = [sample_var] \<and>
    good_copy 40 (payload 40 [sample_var]) (part parts st' 0) \<and>
    good_copy 40 (payload 40 [sample_var]) (part parts st' 1)"
proof (rule data_load_recovers [where i = 0 and j = 1, OF flr.reliable_mtd_axioms])
  show "\<not> valid_copy 40 (part parts (sample_state damaged_image []) 1)"
    using damaged_image_bad by (simp add: part_def sample_state_def)
qed (use sample_state_ready sample_image_ok damaged_image_bad in
    \<open>simp_all add: part_def, simp_all add: sample_state_def sample_var_def\<close>)

end
