(* ===== verification/Sysvar_Store.thy ===== *)
theory Sysvar_Store
  imports Sysvar_Lib
begin

text \<open>
  The system variables as a key-value store: \<open>setvar\<close> and \<open>getvar\<close> of
  \<^verbatim>\<open>src/sysvar/lib/sysvar_lib.c\<close> against an abstract map in which some keys are locked, and what
  opening and closing the devices does to the heap blocks.
\<close>

section \<open>The contract of a store with locked keys\<close>

datatype ('k, 'v) store_cmd = Put 'k 'v | Del 'k

fun store_step :: "('k \<Rightarrow> 'v \<Rightarrow> 's \<Rightarrow> 's) \<Rightarrow> ('k \<Rightarrow> 's \<Rightarrow> 's) \<Rightarrow> ('k, 'v) store_cmd \<Rightarrow> 's \<Rightarrow> 's" where
  "store_step put del (Put k v) s = put k v s"
| "store_step put del (Del k) s = del k s"

fun spec_step :: "('k \<Rightarrow> bool) \<Rightarrow> ('k, 'v) store_cmd \<Rightarrow> ('k \<rightharpoonup> 'v) \<Rightarrow> ('k \<rightharpoonup> 'v)" where
  "spec_step lk (Put k v) m = (if lk k then m else m(k \<mapsto> v))"
| "spec_step lk (Del k) m = (if lk k then m else m(k := None))"

fun cmd_ok :: "('k \<Rightarrow> bool) \<Rightarrow> ('v \<Rightarrow> bool) \<Rightarrow> ('k, 'v) store_cmd \<Rightarrow> bool" where
  "cmd_ok key val (Put k v) \<longleftrightarrow> key k \<and> val v"
| "cmd_ok key val (Del k) \<longleftrightarrow> key k"

locale var_store =
  fixes inv :: "'s \<Rightarrow> bool" and lookup :: "'s \<Rightarrow> 'k \<rightharpoonup> 'v" and locked :: "'s \<Rightarrow> 'k \<Rightarrow> bool"
    and key :: "'k \<Rightarrow> bool" and val :: "'v \<Rightarrow> bool"
    and put :: "'k \<Rightarrow> 'v \<Rightarrow> 's \<Rightarrow> 's" and del :: "'k \<Rightarrow> 's \<Rightarrow> 's"
  assumes put_inv: "inv s \<Longrightarrow> key k \<Longrightarrow> val v \<Longrightarrow> inv (put k v s)"
    and del_inv: "inv s \<Longrightarrow> key k \<Longrightarrow> inv (del k s)"
    and put_locked: "inv s \<Longrightarrow> locked (put k v s) = locked s"
    and del_locked: "inv s \<Longrightarrow> locked (del k s) = locked s"
    and put_lookup: "inv s \<Longrightarrow> key k \<Longrightarrow> val v \<Longrightarrow>
      lookup (put k v s) = (if locked s k then lookup s else (lookup s)(k \<mapsto> v))"
    and del_lookup: "inv s \<Longrightarrow> key k \<Longrightarrow>
      lookup (del k s) = (if locked s k then lookup s else (lookup s)(k := None))"
begin

lemma step_refines:
  assumes "inv s" "cmd_ok key val c"
  shows "inv (store_step put del c s)" "locked (store_step put del c s) = locked s"
    "lookup (store_step put del c s) = spec_step (locked s) c (lookup s)"
  using assms by (cases c; simp add: put_inv del_inv put_locked del_locked put_lookup del_lookup)+

lemma run_refines:
  "inv s \<Longrightarrow> list_all (cmd_ok key val) cs \<Longrightarrow>
     inv (fold (store_step put del) cs s) \<and>
     lookup (fold (store_step put del) cs s) = fold (spec_step (locked s)) cs (lookup s)"
  by (induction cs arbitrary: s) (simp_all add: step_refines)

end

section \<open>The variables as a map\<close>

definition vmap :: "sysvar_list list \<Rightarrow> cstr \<rightharpoonup> cstr" where
  "vmap vs k = map_option vvalue (find (\<lambda>v. vname v = k) vs)"

definition var_key :: "cstr \<Rightarrow> bool" where
  "var_key k \<longleftrightarrow> nul_free k \<and> length k \<le> SYSVAR_NAME"

text \<open>What \<open>getvar\<close> finds: a read-only variable first, then a read-write one.\<close>

definition sv_map :: "'d sv_state \<Rightarrow> cstr \<rightharpoonup> cstr" where
  "sv_map st = vmap (vars (rw_buf st)) ++ vmap (vars (ro_buf st))"

definition sv_locked :: "'d sv_state \<Rightarrow> cstr \<Rightarrow> bool" where
  "sv_locked st k \<longleftrightarrow> vmap (vars (ro_buf st)) k \<noteq> None"

definition sv_ok :: "'d sv_state \<Rightarrow> bool" where
  "sv_ok st \<longleftrightarrow> list_all (\<lambda>fd. 0 \<le> fd) (mtd_dev st) \<and> wf_buf (rw_buf st) \<and> wf_buf (ro_buf st) \<and>
     mallocs (rw_buf st) = [] \<and> distinct (map vname (vars (rw_buf st)))"

definition sv_put :: "'d mtd_ops \<Rightarrow> cstr \<Rightarrow> cstr \<Rightarrow> 'd sv_state \<Rightarrow> 'd sv_state" where
  "sv_put ops k v st = snd (setvar ops (Some k) (Some v) st)"

definition sv_del :: "'d mtd_ops \<Rightarrow> cstr \<Rightarrow> 'd sv_state \<Rightarrow> 'd sv_state" where
  "sv_del ops k st = snd (setvar ops (Some k) None st)"

lemma vmap_simps [simp]:
  "vmap [] k = None"
  "vmap (v # vs) k = (if vname v = k then Some (vvalue v) else vmap vs k)"
  by (simp_all add: vmap_def)

lemma vmap_None: "vmap vs k = None \<longleftrightarrow> k \<notin> vname ` set vs"
  by (induction vs) auto

lemma vmap_append: "vmap (us @ vs) k = (case vmap us k of None \<Rightarrow> vmap vs k | Some x \<Rightarrow> Some x)"
  by (induction us) auto

lemma wf_names: "wf_buf b \<Longrightarrow> v \<in> set (vars b) \<Longrightarrow> take SYSVAR_NAME (vname v) = vname v"
  by (auto simp: wf_buf_def wf_var_def list_all_iff)

lemma find_var_key:
  assumes "wf_buf b" "var_key k"
  shows "find_var b (Some k) = None \<longleftrightarrow> vmap (vars b) k = None"
    and "find_var b (Some k) = Some p \<Longrightarrow> p < length (vars b) \<and> vname (vars b ! p) = k"
    and "find_var b (Some k) = Some p \<Longrightarrow> vmap (vars b) k = Some (vvalue (vars b ! p))"
proof -
  have k: "take SYSVAR_NAME k = k" using assms(2) by (simp add: var_key_def)
  show "find_var b (Some k) = None \<longleftrightarrow> vmap (vars b) k = None"
    using wf_names [OF assms(1)] k by (auto simp: find_var_None vmap_None)
  assume f: "find_var b (Some k) = Some p"
  have q: "p < length (vars b)" "vname (vars b ! p) = k" "\<forall>q < p. vname (vars b ! q) \<noteq> k"
    using find_var_Some [OF f] wf_names [OF assms(1)] k by auto
  then show "p < length (vars b) \<and> vname (vars b ! p) = k" by simp
  have "find (\<lambda>v. vname v = k) (vars b) = Some (vars b ! p)"
    using q by (auto simp: find_Some_iff)
  then show "vmap (vars b) k = Some (vvalue (vars b ! p))" by (simp add: vmap_def)
qed

lemma sv_ok_check: "sv_ok st \<Longrightarrow> check_mtd ops st = (SYSVAR_SUCCESS, st)"
  using check_mtd_loop_ok [of ops "mtd_dev st" 0 st] by (simp add: check_mtd_def sv_ok_def)

text \<open>\<open>setvar\<close> on a variable that is not read-only, with and without a value.\<close>

definition put_vars :: "cstr \<Rightarrow> cstr option \<Rightarrow> sysvar_list list \<Rightarrow> sysvar_list list" where
  "put_vars k v vs = filter (\<lambda>x. vname x \<noteq> k) vs @
     (case v of None \<Rightarrow> [] | Some v \<Rightarrow> [\<lparr>vname = k, vvalue = v, vlen = int (34 + length v)\<rparr>])"

lemma filter_remove:
  assumes "distinct (map vname vs)" "p < length vs" "vname (vs ! p) = k"
  shows "take p vs @ drop (Suc p) vs = filter (\<lambda>x. vname x \<noteq> k) vs"
proof -
  have vs: "vs = take p vs @ vs ! p # drop (Suc p) vs" using assms(2) by (rule id_take_nth_drop)
  then have d: "distinct (map vname (take p vs @ vs ! p # drop (Suc p) vs))" using assms(1) by simp
  then have "filter (\<lambda>x. vname x \<noteq> k) (take p vs @ vs ! p # drop (Suc p) vs) =
      take p vs @ drop (Suc p) vs"
    using assms(3) by (auto simp: image_iff intro!: arg_cong2 [of _ _ _ _ append] filter_True)
  then show ?thesis using vs by simp
qed

text \<open>The accounting is exact as long as everything fits.\<close>

definition sized :: "sysvar_buf \<Rightarrow> bool" where
  "sized b \<longleftrightarrow> used_len b = int (vars_size (vars b))"

lemma delete_var_sized:
  assumes "wf_buf b" "sized b" "p < length (vars b)"
  shows "sized (snd (delete_var b p))"
proof -
  have "vlen (vars b ! p) = int (34 + length (vvalue (vars b ! p)))"
    using assms(1,3) by (auto simp: wf_buf_def wf_var_def list_all_length)
  then show ?thesis
    using assms vars_size_remove [OF assms(3)]
    by (simp add: delete_var_eq sized_def frame_simps wf_buf_def)
qed

lemma set_var_sized:
  "mallocs b = [] \<Longrightarrow> length k \<le> SYSVAR_NAME \<Longrightarrow> sized b \<Longrightarrow>
     vars_size (vars (snd (set_var b k x))) \<le> total_len b \<Longrightarrow> sized (snd (set_var b k x))"
  by (simp add: set_var_ok sized_def frame_simps)

lemma setvar_unlocked:
  assumes st: "sv_ok st" and k: "var_key k" "\<not> sv_locked st k"
    and v: "pred_option nul_free v" "v \<noteq> None \<or> vmap (vars (rw_buf st)) k \<noteq> None"
  obtains b where "setvar ops (Some k) v st = (SYSVAR_SUCCESS, st\<lparr>rw_buf := b\<rparr>)"
    "vars b = put_vars k v (vars (rw_buf st))" "mallocs b = []" "wf_buf b"
    "total_len b = total_len (rw_buf st)"
    "sized (rw_buf st) \<Longrightarrow> vars_size (vars b) \<le> total_len b \<Longrightarrow> sized b"
proof -
  have wf: "wf_buf (rw_buf st)" "wf_buf (ro_buf st)" "mallocs (rw_buf st) = []"
    and dist: "distinct (map vname (vars (rw_buf st)))"
    using st by (auto simp: sv_ok_def)
  have ro: "find_var (ro_buf st) (Some k) = None"
    using find_var_key(1) [OF wf(2) k(1)] k(2) by (simp add: sv_locked_def)
  have add: "\<exists>b'. set_var b k x = (SYSVAR_SUCCESS, b') \<and> mallocs b' = [] \<and> wf_buf b' \<and>
      vars b' = vars b @ [\<lparr>vname = k, vvalue = x, vlen = int (34 + length x)\<rparr>] \<and>
      total_len b' = total_len b \<and> (sized b \<longrightarrow> vars_size (vars b') \<le> total_len b \<longrightarrow> sized b')"
    if "wf_buf b" "mallocs b = []" "nul_free x" for b x
  proof -
    have "length k \<le> SYSVAR_NAME" "nul_free k" using k(1) by (auto simp: var_key_def)
    then show ?thesis
      using set_var_ok [OF that(2), of k x] set_var_wf [OF that(1) _ that(3), of k]
        set_var_sized [OF that(2), of k x] that
      by (simp add: frame_simps)
  qed
  show thesis
  proof (cases "find_var (rw_buf st) (Some k)")
    case None
    then have n: "vmap (vars (rw_buf st)) k = None" using find_var_key(1) [OF wf(1) k(1)] by simp
    then obtain x where x: "v = Some x" "nul_free x" using v by (cases v) auto
    have "filter (\<lambda>x. vname x \<noteq> k) (vars (rw_buf st)) = vars (rw_buf st)"
      using n by (auto simp: vmap_None filter_id_conv)
    then show thesis
      using add [OF wf(1,3) x(2)] that ro None x(1) sv_ok_check [OF st]
      by (auto simp: setvar_def put_vars_def)
  next
    case (Some p)
    define b1 where "b1 = snd (delete_var (rw_buf st) p)"
    have p: "p < length (vars (rw_buf st))" "vname (vars (rw_buf st) ! p) = k"
      using find_var_key(2) [OF wf(1) k(1) Some] by simp_all
    then have d: "delete_var (rw_buf st) p = (SYSVAR_SUCCESS, b1)" "mallocs b1 = []"
      "vars b1 = filter (\<lambda>x. vname x \<noteq> k) (vars (rw_buf st))" "total_len b1 = total_len (rw_buf st)"
      using filter_remove [OF dist p] wf(3) by (simp_all add: b1_def delete_var_eq frame_simps)
    have wf1: "wf_buf b1" using delete_var_wf [OF wf(1) d(1)] .
    have sz1: "sized (rw_buf st) \<Longrightarrow> sized b1" using delete_var_sized [OF wf(1) _ p(1)] by (simp add: b1_def)
    show thesis
    proof (cases v)
      case None
      then show thesis
        using that [of b1] ro Some d wf1 sz1 sv_ok_check [OF st] by (simp add: setvar_def put_vars_def)
    next
      case (Some x)
      then obtain b' where b': "set_var b1 k x = (SYSVAR_SUCCESS, b')" "mallocs b' = []" "wf_buf b'"
        "vars b' = put_vars k v (vars (rw_buf st))" "total_len b' = total_len (rw_buf st)"
        "sized b1 \<longrightarrow> vars_size (vars b') \<le> total_len b1 \<longrightarrow> sized b'"
        using add [OF wf1 d(2), of x] v(1) d(3,4) by (auto simp: put_vars_def)
      have "setvar ops (Some k) v st = (SYSVAR_SUCCESS, st\<lparr>rw_buf := b'\<rparr>)"
        using ro \<open>find_var (rw_buf st) (Some k) = Some p\<close> d(1) b'(1) Some sv_ok_check [OF st]
        by (simp add: setvar_def)
      then show thesis using that [of b'] b' sz1 d(4) by simp
    qed
  qed
qed

lemma setvar_locked:
  assumes "sv_ok st" "var_key k" "sv_locked st k"
  shows "setvar ops (Some k) v st = (SYSVAR_READONLY_ERR, st)"
proof -
  have "find_var (ro_buf st) (Some k) \<noteq> None"
    using find_var_key(1) [of "ro_buf st" k] assms by (auto simp: sv_ok_def sv_locked_def)
  then show ?thesis using sv_ok_check [OF assms(1)] by (auto simp: setvar_def)
qed

lemma setvar_missing:
  assumes "sv_ok st" "var_key k" "\<not> sv_locked st k" "vmap (vars (rw_buf st)) k = None"
  shows "setvar ops (Some k) None st = (SYSVAR_EXISTED_ERR, st)"
proof -
  have "find_var (ro_buf st) (Some k) = None" "find_var (rw_buf st) (Some k) = None"
    using find_var_key(1) [of "ro_buf st" k] find_var_key(1) [of "rw_buf st" k] assms
    by (auto simp: sv_ok_def sv_locked_def)
  then show ?thesis using sv_ok_check [OF assms(1)] by (simp add: setvar_def)
qed

lemma vmap_filter:
  "vmap (filter (\<lambda>x. vname x \<noteq> k) vs) l = (if l = k then None else vmap vs l)"
  by (induction vs) auto

lemma vmap_put_vars: "vmap (put_vars k v vs) = (vmap vs)(k := v)"
  by (cases v) (auto simp: put_vars_def vmap_append vmap_filter fun_eq_iff split: option.splits)

lemma put_vars_distinct: "distinct (map vname vs) \<Longrightarrow> distinct (map vname (put_vars k v vs))"
  by (cases v) (auto simp: put_vars_def distinct_map_filter)

lemma sv_ok_put:
  assumes "sv_ok st" "wf_buf b" "mallocs b = []" "vars b = put_vars k v (vars (rw_buf st))"
  shows "sv_ok (st\<lparr>rw_buf := b\<rparr>)"
  using assms put_vars_distinct by (simp add: sv_ok_def)

lemma sv_map_put:
  "vars b = put_vars k v (vars (rw_buf st)) \<Longrightarrow> \<not> sv_locked st k \<Longrightarrow>
     sv_map (st\<lparr>rw_buf := b\<rparr>) = (sv_map st)(k := v)"
  by (auto simp: sv_map_def vmap_put_vars sv_locked_def map_add_def fun_eq_iff split: option.splits)

lemma sv_locked_rw [simp]: "sv_locked (st\<lparr>rw_buf := b\<rparr>) = sv_locked st"
  by (simp add: sv_locked_def fun_eq_iff)

lemma setvar_ro_buf: "ro_buf (snd (setvar ops k v st)) = ro_buf st"
  by (cases rule: check_mtd_cases [of ops st])
    (auto simp: setvar_def frame_simps split: option.splits prod.splits)

lemma sv_locked_setvar: "sv_locked (snd (setvar ops k v st)) = sv_locked st"
  by (simp add: sv_locked_def fun_eq_iff setvar_ro_buf)

lemma sv_put_step:
  assumes "sv_ok st" "var_key k" "nul_free v"
  shows "sv_ok (sv_put ops k v st)"
    "sv_map (sv_put ops k v st) = (if sv_locked st k then sv_map st else (sv_map st)(k \<mapsto> v))"
proof -
  have "sv_ok (sv_put ops k v st) \<and>
      sv_map (sv_put ops k v st) = (if sv_locked st k then sv_map st else (sv_map st)(k \<mapsto> v))"
  proof (cases "sv_locked st k")
    case True
    then show ?thesis using assms setvar_locked [OF assms(1,2)] by (simp add: sv_put_def)
  next
    case False
    obtain b where b: "setvar ops (Some k) (Some v) st = (SYSVAR_SUCCESS, st\<lparr>rw_buf := b\<rparr>)"
      "vars b = put_vars k (Some v) (vars (rw_buf st))" "mallocs b = []" "wf_buf b"
      using setvar_unlocked [OF assms(1,2) False, of "Some v"] assms(3) by auto
    then show ?thesis
      using False sv_ok_put [OF assms(1) b(4,3,2)] sv_map_put [OF b(2) False] by (simp add: sv_put_def)
  qed
  then show "sv_ok (sv_put ops k v st)"
    "sv_map (sv_put ops k v st) = (if sv_locked st k then sv_map st else (sv_map st)(k \<mapsto> v))"
    by blast+
qed

lemma sv_del_step:
  assumes "sv_ok st" "var_key k"
  shows "sv_ok (sv_del ops k st)"
    "sv_map (sv_del ops k st) = (if sv_locked st k then sv_map st else (sv_map st)(k := None))"
proof -
  have "sv_ok (sv_del ops k st) \<and>
      sv_map (sv_del ops k st) = (if sv_locked st k then sv_map st else (sv_map st)(k := None))"
  proof (cases "sv_locked st k \<or> vmap (vars (rw_buf st)) k = None")
    case True
    then show ?thesis
      using assms setvar_locked [OF assms] setvar_missing [OF assms]
      by (cases "sv_locked st k") (auto simp: sv_del_def sv_map_def sv_locked_def map_add_def)
  next
    case False
    then obtain b where b: "setvar ops (Some k) None st = (SYSVAR_SUCCESS, st\<lparr>rw_buf := b\<rparr>)"
      "vars b = put_vars k None (vars (rw_buf st))" "mallocs b = []" "wf_buf b"
      using setvar_unlocked [OF assms, of None] by auto
    then show ?thesis
      using False sv_ok_put [OF assms(1) b(4,3,2)] sv_map_put [OF b(2)] by (simp add: sv_del_def)
  qed
  then show "sv_ok (sv_del ops k st)"
    "sv_map (sv_del ops k st) = (if sv_locked st k then sv_map st else (sv_map st)(k := None))"
    by blast+
qed

interpretation sv: var_store sv_ok sv_map sv_locked var_key nul_free "sv_put ops" "sv_del ops" for ops
  by unfold_locales
    (simp_all add: sv_put_step sv_del_step, simp_all add: sv_put_def sv_del_def sv_locked_setvar)

section \<open>Properties\<close>

text \<open>
  Claim C4. The variable list implements a map. Any sequence of \<open>setvar\<close> calls that set or delete
  variables with names of at most 32 bytes has the effect of the same updates on the map from
  names to values, where the updates of read-only variables are ignored, and names stay unique.
\<close>
theorem setvar_sequence_refines_map:
  assumes "sv_ok st" "list_all (cmd_ok var_key nul_free) cs"
  shows "sv_ok (fold (store_step (sv_put ops) (sv_del ops)) cs st) \<and>
    sv_map (fold (store_step (sv_put ops) (sv_del ops)) cs st) =
      fold (spec_step (\<lambda>k. vmap (vars (ro_buf st)) k \<noteq> None)) cs (sv_map st)"
proof -
  have "sv_locked st = (\<lambda>k. vmap (vars (ro_buf st)) k \<noteq> None)"
    by (simp add: sv_locked_def fun_eq_iff)
  then show ?thesis using sv.run_refines [OF assms, of ops] by simp
qed

lemma sample_state_sv_ok: "sv_ok (sample_state c1 fs)"
  by (simp add: sv_ok_def sample_state_def sample_buf_def sample_var_def wf_buf_def wf_var_def)

theorem setvar_sequence_refines_map_witness:
  "sv_ok (fold (store_step (sv_put (flash_ops False)) (sv_del (flash_ops False)))
      [Put [65] [1], Put [66] [2], Del [90]] (sample_state [] [])) \<and>
   sv_map (fold (store_step (sv_put (flash_ops False)) (sv_del (flash_ops False)))
      [Put [65] [1], Put [66] [2], Del [90]] (sample_state [] [])) =
   fold (spec_step (\<lambda>k. vmap (vars (ro_buf (sample_state [] []))) k \<noteq> None))
      [Put [65] [1], Put [66] [2], Del [90]] (sv_map (sample_state [] []))"
  by (rule setvar_sequence_refines_map) (simp_all add: sample_state_sv_ok var_key_def)

text \<open>
  Reading what was set: after \<open>setvar\<close> of a variable that is not read-only, \<open>getvar\<close>
  with a name array of at least 32 bytes and a value array longer than the value succeeds and
  leaves exactly the value, NUL-terminated, in the value array.
\<close>
lemma setvar_getvar:
  assumes st: "sv_ok st" "vmap (vars (ro_buf st)) (cstr_of nb) = None"
    and nb: "length (cstr_of nb) \<le> SYSVAR_NAME" "SYSVAR_NAME \<le> length nb"
    and v: "nul_free v" "length v < len" "len \<le> length vb"
  shows "\<exists>st' nb' vb'. setvar ops (Some (cstr_of nb)) (Some v) st = (SYSVAR_SUCCESS, st') \<and>
    getvar ops (Some nb) vb len st' = Some (SYSVAR_SUCCESS, Some nb', vb', st') \<and>
    cstr_of vb' = v \<and> take (length v + 1) vb' = v @ [0] \<and> length vb' = length vb"
proof -
  let ?k = "cstr_of nb"
  have k: "var_key ?k" "\<not> sv_locked st ?k" using st(2) nb(1) by (simp_all add: var_key_def sv_locked_def)
  obtain b where b: "setvar ops (Some ?k) (Some v) st = (SYSVAR_SUCCESS, st\<lparr>rw_buf := b\<rparr>)"
    "vars b = put_vars ?k (Some v) (vars (rw_buf st))" "mallocs b = []" "wf_buf b"
    using setvar_unlocked [OF st(1) k, of "Some v"] v(1) by auto
  define st' where "st' = st\<lparr>rw_buf := b\<rparr>"
  have ok: "sv_ok st'" using sv_ok_put [OF st(1) b(4,3,2)] by (simp add: st'_def)
  have ro: "find_var (ro_buf st') (Some ?k) = None"
    using find_var_key(1) [OF _ k(1), of "ro_buf st"] st by (simp add: st'_def sv_ok_def)
  have m: "vmap (vars b) ?k = Some v" by (simp add: b(2) vmap_put_vars)
  then obtain p where p: "find_var b (Some ?k) = Some p" "vvalue (vars b ! p) = v"
    using find_var_key(1,3) [OF b(4) k(1)] by (cases "find_var b (Some ?k)") auto
  define w where "w = v @ replicate (len - length v) 0 @ drop len vb"
  obtain nb' where nb': "strncpy nb (vname (vars b ! p)) SYSVAR_NAME = Some nb'"
    using nb(2) by (simp add: cstr_simps)
  have "strncpy vb v len = Some w" using v by (simp add: cstr_simps w_def)
  then have "get_var (vars b ! p) nb vb len = Some (SYSVAR_SUCCESS, nb', w)"
    using nb' p(2) v(2) by (simp add: get_var_def)
  then have g: "getvar ops (Some nb) vb len st' = Some (SYSVAR_SUCCESS, Some nb', w, st')"
    using sv_ok_check [OF ok] ro p(1) by (simp add: getvar_def st'_def)
  obtain r where "len - length v = Suc r" using v(2) by (metis Suc_diff_Suc)
  then have "cstr_of w = v" "take (length v + 1) w = v @ [0]" "length w = length vb"
    using v by (simp_all add: w_def cstr_simps)
  then show ?thesis using b(1) g by (auto simp: st'_def)
qed

text \<open>
  A name of more than 32 bytes is compared by its first 32 bytes but refused only after
  the old variable was deleted: \<open>setvar\<close> with such a name returns the parameter error and removes
  the existing variable whose name is the first 32 bytes.
\<close>
lemma setvar_long_name_deletes:
  assumes st: "sv_ok st" "SYSVAR_NAME < length k" "nul_free k"
    and ex: "vmap (vars (ro_buf st)) (take SYSVAR_NAME k) = None"
      "vmap (vars (rw_buf st)) (take SYSVAR_NAME k) = Some old"
  shows "fst (setvar ops (Some k) (Some v) st) = SYSVAR_PARAM_ERR \<and>
    sv_map (snd (setvar ops (Some k) (Some v) st)) = (sv_map st)(take SYSVAR_NAME k := None)"
proof -
  let ?t = "take SYSVAR_NAME k"
  have wf: "wf_buf (rw_buf st)" "wf_buf (ro_buf st)" "distinct (map vname (vars (rw_buf st)))"
    and t: "var_key ?t" "\<not> sv_locked st ?t"
    using st ex by (auto simp: sv_ok_def var_key_def nul_free_take sv_locked_def)
  have "find_loop vs k i = find_loop vs ?t i" for vs i
    by (induction vs arbitrary: i) (simp_all add: cstr_simps)
  then have same: "find_var b (Some k) = find_var b (Some ?t)" for b by (simp add: find_var_def)
  have ro: "find_var (ro_buf st) (Some k) = None"
    using find_var_key(1) [OF wf(2) t(1)] ex(1) same by simp
  obtain p where p: "find_var (rw_buf st) (Some k) = Some p"
    using find_var_key(1) [OF wf(1) t(1)] ex(2) same by (cases "find_var (rw_buf st) (Some ?t)") auto
  have at: "p < length (vars (rw_buf st))" "vname (vars (rw_buf st) ! p) = ?t"
    using find_var_key(2) [OF wf(1) t(1)] p same by auto
  define b where "b = snd (delete_var (rw_buf st) p)"
  have d: "delete_var (rw_buf st) p = (SYSVAR_SUCCESS, b)"
    "vars b = put_vars ?t None (vars (rw_buf st))"
    using filter_remove [OF wf(3) at] at(1) by (simp_all add: b_def delete_var_eq frame_simps put_vars_def)
  have "setvar ops (Some k) (Some v) st = (SYSVAR_PARAM_ERR, st\<lparr>rw_buf := b\<rparr>)"
    using sv_ok_check [OF st(1)] ro p d(1) st(2) by (simp add: setvar_def set_var_def)
  then show ?thesis using sv_map_put [OF d(2) t(2)] by simp
qed

lemma release_data_list: "release_data b = Some b' \<Longrightarrow> list_ptr b' = list_ptr b"
  by (auto simp: release_data_def split: ptr_state.splits)

text \<open>
  \<open>close_mtd\<close> releases the heap blocks and keeps the pointers. When the devices are opened
  again and the first one cannot be opened, the error path of \<open>open_mtd\<close> releases them a second
  time (undefined behaviour).
\<close>
lemma reopen_failure_double_free:
  assumes "close_mtd ops st = Some st1" "list_ptr (rw_buf st) = Ptr_Live" "length (mtd_dev st) = 4"
    "fst (op_open ops (lit ''/dev/mtd2'') (dev st1)) < 0"
  shows "open_mtd ops st1 = None"
proof -
  obtain rw ro where st1: "st1 = fold (close_dev ops) [0..<4] (st\<lparr>rw_buf := rw, ro_buf := ro\<rparr>)"
    and rw: "list_ptr rw = Ptr_Freed"
    using assms(1,2)
    by (auto simp: close_mtd_def bind_eq_Some_conv release_list_def [of "rw_buf st"] dest: release_data_list)
  have "rw_buf (close_dev ops i s) = rw_buf s" for i s
    by (simp add: close_dev_def Let_def frame_simps split: prod.splits)
  then have "rw_buf (fold (close_dev ops) is s) = rw_buf s" for "is" s
    by (induction "is" arbitrary: s) simp_all
  then have freed: "list_ptr (rw_buf st1) = Ptr_Freed" using rw by (simp add: st1)
  have len: "length (mtd_dev (close_dev ops i s)) = length (mtd_dev s)"
    "mtd_dev (close_dev ops i s) = (mtd_dev s)[i := - 1]" for i s
    by (simp_all add: close_dev_def Let_def frame_simps split: prod.splits)
  have "[0..<4] = [0, 1, 2, 3 :: nat]" by (simp add: upt_rec)
  then have "mtd_dev st1 = (mtd_dev st)[0 := - 1, 1 := - 1, 2 := - 1, 3 := - 1]"
    by (simp add: st1 len)
  moreover obtain a b c d where "mtd_dev st = [a, b, c, d]"
    using assms(3) by (auto simp: numeral_eq_Suc length_Suc_conv)
  ultimately have fds: "mtd_dev st1 = [- 1, - 1, - 1, - 1]" by (simp add: numeral_eq_Suc)
  obtain fd dv where o: "op_open ops (lit ''/dev/mtd2'') (dev st1) = (fd, dv)" by fastforce
  then have "open_devs ops mtd_name 0 st1 = (False, print_err ops ''open MTD device '' 0
      (st1\<lparr>dev := dv, mtd_dev := [fd, - 1, - 1, - 1]\<rparr>))"
    using assms(4) fds by (simp add: mtd_name_def)
  then show ?thesis
    using fds freed by (simp add: open_mtd_def close_mtd_def frame_simps release_list_def)
qed

definition closed_flash :: "flash mtd_ops" where
  "closed_flash = (flash_ops False)\<lparr>op_open := (\<lambda>n d. (- 1, d))\<rparr>"

end
