(* ===== verification/Sysvar_Cmd.thy ===== *)
theory Sysvar_Cmd
  imports Sysvar_Store
begin

text \<open>
  The command line tool and console of the system variables, \<^verbatim>\<open>src/sysvar/sysvar_cmd.c\<close>.

  The state is the library's state, the bytes still to be read from the terminal, what was written
  to the error stream, and the flag \<open>debug\<close>. Standard output is the field \<open>sv_out\<close> of the library's
  state. \<open>None\<close> is undefined behaviour or a program that does not return: \<open>get_str\<close> loops forever
  at the end of the input, because it does not test for \<open>EOF\<close>. The terminal settings are not
  modelled. The results of \<open>getopt_long\<close> are an argument of \<open>main\<close>.
\<close>

section \<open>State, messages, input\<close>

record 'd cmd_state =
  lib :: "'d sv_state"
  cin :: "byte list"
  cerr :: cstr
  debug :: bool

abbreviation (input) PAGE_SIZE :: nat where "PAGE_SIZE \<equiv> 256"
abbreviation (input) SYSVAR_VALUE :: nat where "SYSVAR_VALUE \<equiv> 2048"
abbreviation (input) STRING_LEN :: nat where "STRING_LEN \<equiv> 20"

datatype CmdType =
    cmdtype_clear | cmdtype_del | cmdtype_dump | cmdtype_erase | cmdtype_exit | cmdtype_get
  | cmdtype_load | cmdtype_print | cmdtype_read | cmdtype_save | cmdtype_set | cmdtype_write

definition cmd_str :: "(cstr \<times> CmdType) list" where
  "cmd_str = [(lit ''clear'', cmdtype_clear), (lit ''del'', cmdtype_del), (lit ''dump'', cmdtype_dump),
     (lit ''erase'', cmdtype_erase), (lit ''exit'', cmdtype_exit), (lit ''get'', cmdtype_get),
     (lit ''load'', cmdtype_load), (lit ''print'', cmdtype_print), (lit ''read'', cmdtype_read),
     (lit ''save'', cmdtype_save), (lit ''set'', cmdtype_set), (lit ''write'', cmdtype_write)]"

definition out :: "cstr \<Rightarrow> 'd cmd_state \<Rightarrow> 'd cmd_state" where
  "out s st = st\<lparr>lib := sv_print s (lib st)\<rparr>"

definition err :: "cstr \<Rightarrow> 'd cmd_state \<Rightarrow> 'd cmd_state" where
  "err s st = st\<lparr>cerr := cerr st @ s\<rparr>"

definition error_msg :: "sysvar_ret \<Rightarrow> 'd cmd_state \<Rightarrow> 'd cmd_state" where
  "error_msg ret st = err (lit ''<<ERROR CODE>>: '' @ dec_int (ret_code ret) @ [10]) st"

definition print_usage :: "cstr \<Rightarrow> 'd cmd_state \<Rightarrow> 'd cmd_state" where
  "print_usage cmd st = out
     (lit ''usage: '' @ cmd @ [10] @
      lit ''       '' @ cmd @ lit '' --debug'' @ [10] @
      lit ''       '' @ cmd @ lit '' --print'' @ [10] @
      lit ''       '' @ cmd @ lit '' --clear'' @ [10] @
      lit ''       '' @ cmd @ lit '' --get var_name'' @ [10] @
      lit ''       '' @ cmd @ lit '' --remove var_name'' @ [10] @
      lit ''       '' @ cmd @ lit '' --set var_name var_value'' @ [10]) st"

definition print_console_help :: "bool \<Rightarrow> 'd cmd_state \<Rightarrow> 'd cmd_state" where
  "print_console_help dbg st = out
     (lit ''command:'' @ [10] @
      lit ''  load.....load system variables to data buffer'' @ [10] @
      lit ''  save.....save system variables to MTD device'' @ [10] @
      lit ''  print....print system variables'' @ [10] @
      lit ''  dump.....dump data in data buffer'' @ [10] @
      lit ''  get......get system variable'' @ [10] @
      lit ''  set......add/set system variable'' @ [10] @
      lit ''  del......delete system variable'' @ [10] @
      lit ''  clear....delete all system variables'' @ [10] @
      (if dbg then
         [10] @ lit ''  read.....read data from MTD device'' @ [10] @
         lit ''  write....write data to MTD device'' @ [10] @
         lit ''  erase....erase MTD device'' @ [10]
       else []) @
      lit ''  exit.....exit sysvar_cmd application'' @ [10]) st"

text \<open>
  The loop of \<open>get_str\<close>: the string so far, the input, the echo so far.
\<close>

fun get_str_loop ::
    "nat \<Rightarrow> cstr \<Rightarrow> byte list \<Rightarrow> cstr \<Rightarrow> (cstr \<times> byte list \<times> cstr) option" where
  "get_str_loop len str [] echo = None"
| "get_str_loop len str (c # cs) echo =
     (if c = 10 then Some (str, cs, echo @ [13, 10])
      else if c = 8 then
        (if str \<noteq> [] then get_str_loop len (butlast str) cs (echo @ [8, 32, 8])
         else get_str_loop len str cs echo)
      else if 0x20 \<le> c \<and> c < 0x7F then
        (if length str < len - 1 then get_str_loop len (str @ [c]) cs (echo @ [c])
         else get_str_loop len str cs echo)
      else get_str_loop len str cs echo)"

definition get_str :: "string \<Rightarrow> nat \<Rightarrow> 'd cmd_state \<Rightarrow> (cstr \<times> 'd cmd_state) option" where
  "get_str name len st = do {
     (str, cs, echo) \<leftarrow> get_str_loop len [] (cin st) (lit name @ lit '' > '');
     Some (str, (out echo st)\<lparr>cin := cs\<rparr>) }"

definition print_msg :: "cstr \<Rightarrow> nat \<Rightarrow> 'd cmd_state \<Rightarrow> 'd cmd_state" where
  "print_msg msg idx st =
     (if debug st then
        out (lit ''> System variables('' @ (if idx < SYSVAR_RO_BUF then lit ''RW'' else lit ''RO'') @
             lit ''): '' @ msg @ [10]) st
      else st)"

section \<open>Commands\<close>

definition load_cmd :: "'d mtd_ops \<Rightarrow> 'd cmd_state \<Rightarrow> (sysvar_ret \<times> 'd cmd_state) option" where
  "load_cmd ops st = do {
     (ret, l) \<leftarrow> loadvar ops (lib st);
     let st = st\<lparr>lib := l\<rparr>;
     Some (ret, if ret = SYSVAR_SUCCESS
       then print_msg (lit ''loaded'') SYSVAR_RW_BUF (print_msg (lit ''loaded'') SYSVAR_RO_BUF st)
       else st) }"

definition save_cmd :: "'d mtd_ops \<Rightarrow> 'd cmd_state \<Rightarrow> (sysvar_ret \<times> 'd cmd_state) option" where
  "save_cmd ops st = do {
     (ret, l) \<leftarrow> savevar ops (lib st);
     let st = st\<lparr>lib := l\<rparr>;
     Some (ret, if ret = SYSVAR_SUCCESS then print_msg (lit ''saved'') SYSVAR_RW_BUF st else st) }"

text \<open>\<open>sprintf (str, "%d/%d bytes", ...)\<close> into an array of 20 bytes.\<close>

definition usage_str :: "sysvar_buf \<Rightarrow> cstr option" where
  "usage_str b =
     (let s = dec_int (used_len b) @ lit ''/'' @ dec_nat (total_len b) @ lit '' bytes''
      in if length s < STRING_LEN then Some s else None)"

definition print_cmd :: "'d mtd_ops \<Rightarrow> 'd cmd_state \<Rightarrow> (sysvar_ret \<times> 'd cmd_state) option" where
  "print_cmd ops st = do {
     (ret, _, _, l) \<leftarrow> getvar ops None [] 0 (lib st);
     let st = st\<lparr>lib := l\<rparr>;
     str \<leftarrow> usage_str (buf_of (lib st) (sv_buf SYSVAR_RO_BUF));
     let st = print_msg str SYSVAR_RO_BUF st;
     str \<leftarrow> usage_str (buf_of (lib st) (sv_buf SYSVAR_RW_BUF));
     let st = print_msg str SYSVAR_RW_BUF st;
     Some (ret, if ret \<noteq> SYSVAR_SUCCESS then error_msg ret st else st) }"

text \<open>
  \<open>name\<close> is the memory at the caller's pointer; \<open>getvar\<close> copies 32 bytes to it. \<open>value\<close> is an
  array of the function, printed as a string.
\<close>

definition get_cmd ::
    "'d mtd_ops \<Rightarrow> byte list \<Rightarrow> 'd cmd_state \<Rightarrow> (sysvar_ret \<times> 'd cmd_state) option" where
  "get_cmd ops name st =
     (if cstr_of name = [] then print_cmd ops st
      else do {
        (ret, _, value, l) \<leftarrow>
          getvar ops (Some name) (op_fresh ops SYSVAR_VALUE (dev (lib st))) SYSVAR_VALUE (lib st);
        let st = st\<lparr>lib := l\<rparr>;
        if ret = SYSVAR_SUCCESS then
          (if nul_free value then None else Some (ret, out (cstr_of value @ [10]) st))
        else Some (ret, error_msg ret st) })"

definition clear_cmd :: "'d mtd_ops \<Rightarrow> 'd cmd_state \<Rightarrow> sysvar_ret \<times> 'd cmd_state" where
  "clear_cmd ops st =
     (case setvar ops None None (lib st) of (ret, l) \<Rightarrow>
        let st = st\<lparr>lib := l\<rparr>
        in (ret, if ret = SYSVAR_SUCCESS then print_msg (lit ''deleted'') SYSVAR_RW_BUF st
                 else error_msg ret st))"

definition delete_cmd :: "'d mtd_ops \<Rightarrow> cstr \<Rightarrow> 'd cmd_state \<Rightarrow> sysvar_ret \<times> 'd cmd_state" where
  "delete_cmd ops name st =
     (case setvar ops (Some name) None (lib st) of (ret, l) \<Rightarrow>
        let st = st\<lparr>lib := l\<rparr>
        in (ret, if ret = SYSVAR_SUCCESS then print_msg (lit ''deleted'') SYSVAR_RW_BUF st
                 else error_msg ret st))"

definition set_cmd :: "'d mtd_ops \<Rightarrow> cstr \<Rightarrow> cstr \<Rightarrow> 'd cmd_state \<Rightarrow> sysvar_ret \<times> 'd cmd_state" where
  "set_cmd ops name value st =
     (case setvar ops (Some name) (Some value) (lib st) of (ret, l) \<Rightarrow>
        let st = st\<lparr>lib := l\<rparr>
        in (ret, if ret = SYSVAR_SUCCESS
                 then out (value @ [10]) (print_msg (lit ''added'') SYSVAR_RW_BUF st)
                 else error_msg ret st))"

section \<open>Console\<close>

lemma get_str_loop_shrinks: "get_str_loop len str cs echo = Some (s, r, e) \<Longrightarrow> length r < length cs"
  by (induction len str cs echo rule: get_str_loop.induct) (auto split: if_splits)

lemma get_str_shrinks: "get_str name len st = Some (s, st') \<Longrightarrow> length (cin st') < length (cin st)"
  by (auto simp: get_str_def bind_eq_Some_conv dest: get_str_loop_shrinks)

lemma cin_out [simp]: "cin (out s st) = cin st"
  by (simp add: out_def)

function dump_loop_console ::
    "'d mtd_ops \<Rightarrow> nat \<Rightarrow> nat \<Rightarrow> 'd cmd_state \<Rightarrow> 'd cmd_state option" where
  "dump_loop_console ops idx start st =
     (let st0 = st\<lparr>lib := sysvar_dump ops idx start PAGE_SIZE (lib st)\<rparr>
      in case get_str ''(n)ext, (p)rev, (f)irst, (l)ast ?'' 2 st0 of
           None \<Rightarrow> None
         | Some (str, st1) \<Rightarrow>
            let dl = data_len (buf_of (lib st1) (sv_buf idx))
            in if str = lit ''n'' then
                 (if start + PAGE_SIZE \<ge> dl then Some st1
                  else dump_loop_console ops idx (start + PAGE_SIZE) st1)
               else if str = lit ''p'' then
                 (if start < PAGE_SIZE then Some st1
                  else dump_loop_console ops idx (start - PAGE_SIZE) st1)
               else if str = lit ''f'' then
                 (if start = 0 then Some st1 else dump_loop_console ops idx 0 st1)
               else if str = lit ''l'' then
                 (if dl < PAGE_SIZE then None
                  else if start = dl - PAGE_SIZE then Some st1
                  else dump_loop_console ops idx (dl - PAGE_SIZE) st1)
               else Some st1)"
  by pat_completeness auto
termination
  by (relation "measure (\<lambda>(ops, idx, start, st). length (cin st))") (auto dest: get_str_shrinks)

declare dump_loop_console.simps [simp del]

definition dump_data :: "'d mtd_ops \<Rightarrow> nat \<Rightarrow> 'd cmd_state \<Rightarrow> 'd cmd_state option" where
  "dump_data ops idx st = do {
     l \<leftarrow> sysvar_info ops idx (lib st);
     dump_loop_console ops idx 0 (st\<lparr>lib := l\<rparr>) }"

definition mtd_choice :: "cstr \<Rightarrow> nat option" where
  "mtd_choice str =
     (if str = lit ''2'' then Some 0 else if str = lit ''3'' then Some 1
      else if str = lit ''4'' then Some 2 else if str = lit ''5'' then Some 3 else None)"

definition data_io ::
    "'d mtd_ops \<Rightarrow> nat \<Rightarrow> nat \<Rightarrow> 'd sv_state \<Rightarrow> (sysvar_ret \<times> 'd sv_state) option" where
  "data_io ops idx cmd l =
     (if cmd = 1 then sysvar_io ops idx SYSVAR_MTD_READ l
      else if cmd = 2 then do {
        let b = buf_of l (sv_buf idx);
        d \<leftarrow> arr_put (data b) 0 (map word_of_nat [0..<data_len b]);
        sysvar_io ops idx SYSVAR_MTD_WRITE (put_buf l (sv_buf idx) (b\<lparr>data := d\<rparr>)) }
      else if cmd = 3 then sysvar_io ops idx SYSVAR_MTD_ERASE l
      else Some (SYSVAR_PARAM_ERR, l))"

definition data_cmd ::
    "'d mtd_ops \<Rightarrow> string \<Rightarrow> nat \<Rightarrow> bool \<Rightarrow> 'd cmd_state \<Rightarrow> (sysvar_ret \<times> 'd cmd_state) option" where
  "data_cmd ops name cmd dbg st =
     (if \<not> dbg then Some (SYSVAR_DEBUG_ERR, print_console_help False st)
      else do {
        (str, st) \<leftarrow> get_str ''mtd 2|3|4|5 ?'' 2 st;
        case mtd_choice str of
          None \<Rightarrow> Some (SYSVAR_DEBUG_ERR, out (lit ''Error: invalid MTD device'' @ [10]) st)
        | Some idx \<Rightarrow> do {
            let st = out (lit name @ lit ''('' @ dec_nat idx @ lit ''): '') st;
            (ret, l) \<leftarrow> data_io ops idx cmd (lib st);
            let st = st\<lparr>lib := l\<rparr>;
            if ret = SYSVAR_SUCCESS
            then map_option (Pair ret) (dump_data ops idx (out (lit ''success'' @ [10]) st))
            else Some (ret, out (lit ''failed'' @ [10]) st) } })"

text \<open>The array \<open>name\<close> of the wrapper has 32 bytes; what follows the string is uninitialised.\<close>

definition name_block :: "'d mtd_ops \<Rightarrow> cstr \<Rightarrow> 'd cmd_state \<Rightarrow> byte list" where
  "name_block ops name st =
     take SYSVAR_NAME (name @ 0 # op_fresh ops SYSVAR_NAME (dev (lib st)))"

definition cmd_console_wrapper ::
    "'d mtd_ops \<Rightarrow> cstr \<Rightarrow> 'd cmd_state \<Rightarrow> 'd cmd_state option" where
  "cmd_console_wrapper ops cmd st = do {
     (name, st) \<leftarrow> get_str ''name ?'' SYSVAR_NAME st;
     if name = [] then Some (snd (clear_cmd ops st))
     else do {
       (value, st) \<leftarrow> (if cmd = lit ''set'' then get_str ''value ?'' SYSVAR_VALUE st else Some ([], st));
       if cmd = lit ''get'' then map_option snd (get_cmd ops (name_block ops name st) st)
       else if value = [] then Some (snd (delete_cmd ops name st))
       else Some (snd (set_cmd ops name value st)) } }"

text \<open>The index of a command; \<open>None\<close> is \<open>CMD_STR_NUM\<close>.\<close>

definition get_cmd_index :: "cstr \<Rightarrow> CmdType option" where
  "get_cmd_index str = map_of cmd_str str"

fun run_cmd ::
    "'d mtd_ops \<Rightarrow> CmdType option \<Rightarrow> bool \<Rightarrow> 'd cmd_state \<Rightarrow> (bool \<times> 'd cmd_state) option" where
  "run_cmd ops (Some cmdtype_clear) dbg st = Some (False, snd (clear_cmd ops st))"
| "run_cmd ops (Some cmdtype_del) dbg st = map_option (Pair False) (cmd_console_wrapper ops (lit ''del'') st)"
| "run_cmd ops (Some cmdtype_dump) dbg st = map_option (Pair False) (dump_data ops SYSVAR_RW_BUF st)"
| "run_cmd ops (Some cmdtype_erase) dbg st =
     map_option (\<lambda>(r, st). (False, st)) (data_cmd ops ''read_cmd'' 3 dbg st)"
| "run_cmd ops (Some cmdtype_exit) dbg st = Some (True, st)"
| "run_cmd ops (Some cmdtype_get) dbg st = map_option (Pair False) (cmd_console_wrapper ops (lit ''get'') st)"
| "run_cmd ops (Some cmdtype_load) dbg st = map_option (\<lambda>(r, st). (False, st)) (load_cmd ops st)"
| "run_cmd ops (Some cmdtype_print) dbg st = map_option (\<lambda>(r, st). (False, st)) (print_cmd ops st)"
| "run_cmd ops (Some cmdtype_read) dbg st =
     map_option (\<lambda>(r, st). (False, st)) (data_cmd ops ''read_cmd'' 1 dbg st)"
| "run_cmd ops (Some cmdtype_save) dbg st = map_option (\<lambda>(r, st). (False, st)) (save_cmd ops st)"
| "run_cmd ops (Some cmdtype_set) dbg st = map_option (Pair False) (cmd_console_wrapper ops (lit ''set'') st)"
| "run_cmd ops (Some cmdtype_write) dbg st =
     map_option (\<lambda>(r, st). (False, st)) (data_cmd ops ''read_cmd'' 2 dbg st)"
| "run_cmd ops None dbg st = Some (False, print_console_help dbg st)"

lemma cin_simps [simp]:
  "cin (err s st) = cin st" "cin (error_msg r st) = cin st" "cin (print_msg m i st) = cin st"
  "cin (print_console_help d st) = cin st" "cin (print_usage c st) = cin st"
  "cin (snd (clear_cmd ops st)) = cin st" "cin (snd (delete_cmd ops n st)) = cin st"
  "cin (snd (set_cmd ops n v st)) = cin st"
  by (simp_all add: err_def error_msg_def print_msg_def print_console_help_def print_usage_def
      clear_cmd_def delete_cmd_def set_cmd_def Let_def split: prod.splits)

lemma cin_cmds:
  "load_cmd ops st = Some (r, st') \<Longrightarrow> cin st' = cin st"
  "save_cmd ops st = Some (r, st') \<Longrightarrow> cin st' = cin st"
  "print_cmd ops st = Some (r, st') \<Longrightarrow> cin st' = cin st"
  "get_cmd ops name st = Some (r, st') \<Longrightarrow> cin st' = cin st"
  by (auto simp: load_cmd_def save_cmd_def print_cmd_def get_cmd_def Let_def bind_eq_Some_conv
      split: if_splits)

lemma dump_loop_console_cin:
  "dump_loop_console ops idx start st = Some st' \<Longrightarrow> length (cin st') \<le> length (cin st)"
proof (induction ops idx start st rule: dump_loop_console.induct)
  case (1 ops idx start st)
  define st0 where "st0 = st\<lparr>lib := sysvar_dump ops idx start PAGE_SIZE (lib st)\<rparr>"
  obtain str st1 where g: "get_str ''(n)ext, (p)rev, (f)irst, (l)ast ?'' 2 st0 = Some (str, st1)"
    using "1.prems" by (subst (asm) dump_loop_console.simps)
      (auto simp: Let_def st0_def split: option.splits)
  note IH = "1.IH" [OF st0_def g prod.inject [THEN iffD2, OF conjI, OF refl refl] refl]
  have "length (cin st1) < length (cin st)" using get_str_shrinks [OF g] by (simp add: st0_def)
  moreover have "length (cin st') \<le> length (cin st1)"
    using "1.prems" IH g
    by (subst (asm) dump_loop_console.simps)
      (auto simp: Let_def st0_def [symmetric] split: if_splits)
  ultimately show ?case by simp
qed

lemma dump_data_cin: "dump_data ops idx st = Some st' \<Longrightarrow> length (cin st') \<le> length (cin st)"
  by (auto simp: dump_data_def bind_eq_Some_conv dest: dump_loop_console_cin)

lemma data_cmd_cin: "data_cmd ops n c d st = Some (r, st') \<Longrightarrow> length (cin st') \<le> length (cin st)"
  by (auto simp: data_cmd_def Let_def bind_eq_Some_conv
      dest!: get_str_shrinks dump_data_cin split: if_splits option.splits)

lemma wrapper_cin: "cmd_console_wrapper ops c st = Some st' \<Longrightarrow> length (cin st') \<le> length (cin st)"
  by (auto simp: cmd_console_wrapper_def bind_eq_Some_conv
      dest!: get_str_shrinks cin_cmds split: if_splits)

lemma run_cmd_cin:
  "run_cmd ops c dbg st = Some (d, st') \<Longrightarrow> length (cin st') \<le> length (cin st)"
  by (induction ops c dbg st rule: run_cmd.induct)
    (auto dest!: wrapper_cin dump_data_cin data_cmd_cin cin_cmds)

function run_console :: "'d mtd_ops \<Rightarrow> bool \<Rightarrow> 'd cmd_state \<Rightarrow> 'd cmd_state option" where
  "run_console ops dbg st =
     (case get_str (if dbg then ''sysvar_cmd(d)'' else ''sysvar_cmd'') 8 st of
        None \<Rightarrow> None
      | Some (str, st1) \<Rightarrow>
         (case run_cmd ops (get_cmd_index str) dbg st1 of
            None \<Rightarrow> None
          | Some (done, st2) \<Rightarrow> if done then Some st2 else run_console ops dbg st2))"
  by pat_completeness auto
termination
proof (relation "measure (\<lambda>(ops, dbg, st). length (cin st))", goal_cases)
  case (2 ops dbg st x str st1 y d st2)
  then show ?case
    using get_str_shrinks [of "if dbg then ''sysvar_cmd(d)'' else ''sysvar_cmd''" 8 st str st1]
      run_cmd_cin [of ops "get_cmd_index str" dbg st1 d st2]
    by simp
qed simp

declare run_console.simps [simp del]

section \<open>The program\<close>

text \<open>
  \<open>argv\<close> is the argument vector as \<open>getopt_long\<close> leaves it, \<open>opts\<close> the characters it returns before
  \<open>- 1\<close>, each with the memory from the start of \<open>optarg\<close> to the end of the argument area. The
  outcome is the exit code and the final state.
\<close>

fun main_loop ::
    "'d mtd_ops \<Rightarrow> cstr list \<Rightarrow> (byte \<times> byte list) list \<Rightarrow> int \<Rightarrow> 'd cmd_state \<Rightarrow>
       (int \<times> 'd cmd_state) option" where
  "main_loop ops argv [] ret_val st = do {
     l \<leftarrow> close_mtd ops (lib st);
     Some (if ret_val \<noteq> 0 then 1 else 0, st\<lparr>lib := l\<rparr>) }"
| "main_loop ops argv ((c, optarg) # opts) ret_val st =
     (let usage = Some (1, print_usage (hd argv) st);
          next = (\<lambda>ret_val st.
            if c \<noteq> of_char (CHR ''p'') \<and> c \<noteq> of_char (CHR ''g'')
            then do { (_, st) \<leftarrow> save_cmd ops st; main_loop ops argv opts ret_val st }
            else main_loop ops argv opts ret_val st)
      in if c = of_char (CHR ''d'') then
           (if length argv \<noteq> 2 then usage
            else do {
              st \<leftarrow> run_console ops True (st\<lparr>debug := True, lib := set_mtd_verbose True (lib st)\<rparr>);
              next ret_val st })
         else if c = of_char (CHR ''p'') then
           (if length argv \<noteq> 2 then usage
            else do { (r, st) \<leftarrow> print_cmd ops st; next (ret_code r) st })
         else if c = of_char (CHR ''c'') then
           (if length argv \<noteq> 2 then usage
            else case clear_cmd ops st of (r, st) \<Rightarrow> next (ret_code r) st)
         else if c = of_char (CHR ''g'') then
           (if length argv \<noteq> 3 then usage
            else do { (r, st) \<leftarrow> get_cmd ops optarg st; next (ret_code r) st })
         else if c = of_char (CHR ''r'') then
           (if length argv \<noteq> 3 then usage
            else case delete_cmd ops (cstr_of optarg) st of (r, st) \<Rightarrow> next (ret_code r) st)
         else if c = of_char (CHR ''s'') then
           (if length argv \<noteq> 4 then usage
            else case set_cmd ops (cstr_of optarg) (argv ! 3) st of (r, st) \<Rightarrow> next (ret_code r) st)
         else usage)"

definition sysvar_main ::
    "'d mtd_ops \<Rightarrow> cstr list \<Rightarrow> (byte \<times> byte list) list \<Rightarrow> 'd cmd_state \<Rightarrow> (int \<times> 'd cmd_state) option" where
  "sysvar_main ops argv opts st =
     (if length argv > 5 then Some (1, print_usage (hd argv) st)
      else do {
        (r, l) \<leftarrow> open_mtd ops (lib st);
        let st = st\<lparr>lib := l\<rparr>;
        if r \<noteq> SYSVAR_SUCCESS then Some (1, st)
        else if length argv = 1 then map_option (Pair 0) (run_console ops (debug st) st)
        else main_loop ops argv opts 0 st })"

section \<open>Input\<close>

abbreviation (input) printable :: "byte \<Rightarrow> bool" where
  "printable c \<equiv> 0x20 \<le> c \<and> c < 0x7F"

lemma get_str_loop_bounds:
  "10 \<notin> set ts \<Longrightarrow> length str < len \<Longrightarrow> list_all printable str \<Longrightarrow>
     \<exists>s e. get_str_loop len str (ts @ 10 # rest) echo = Some (s, rest, e) \<and> length s < len \<and>
       list_all printable s \<and>
       (list_all printable ts \<longrightarrow> length str + length ts < len \<longrightarrow> s = str @ ts)"
proof (induction ts arbitrary: str echo)
  case Nil
  then show ?case by simp
next
  case (Cons c ts)
  consider "c = 8" "str \<noteq> []" | "c = 8" "str = []" | "printable c" "c \<noteq> 8" "length str < len - 1"
    | "\<not> printable c \<or> \<not> length str < len - 1" "c \<noteq> 8" by blast
  then show ?case
  proof cases
    case 1
    have "list_all printable (butlast str)" using Cons.prems by (auto simp: list_all_iff dest: in_set_butlastD)
    moreover have "length (butlast str) < len" using Cons.prems by simp
    ultimately show ?thesis
      using 1 Cons.prems Cons.IH [of "butlast str" "echo @ [8, 32, 8]"] by auto
  next
    case 2
    then show ?thesis using Cons.prems Cons.IH [of str echo] by auto
  next
    case 3
    then show ?thesis using Cons.prems Cons.IH [of "str @ [c]" "echo @ [c]"] by auto
  next
    case 4
    then show ?thesis using Cons.prems Cons.IH [of str echo] by auto
  qed
qed

section \<open>Properties\<close>

text \<open>
  The line editor is safe: on an input that holds a complete line, \<open>get_str\<close> with an
  array of \<open>len\<close> bytes returns, has read exactly that line, and the string it stores is printable
  and fits with its terminator, whatever was typed; a printable line that fits is returned as it is.
\<close>
lemma get_str_safe:
  assumes "0 < len" "cin st = ts @ 10 # rest" "10 \<notin> set ts"
  shows "\<exists>s st'. get_str name len st = Some (s, st') \<and> cin st' = rest \<and> length s + 1 \<le> len \<and>
    list_all printable s \<and> (list_all printable ts \<longrightarrow> length ts < len \<longrightarrow> s = ts)"
  using get_str_loop_bounds [OF assms(3), of "[]" len rest "lit name @ lit '' > ''"] assms(1,2)
  by (auto simp: get_str_def)

definition sample_cmd :: "byte list \<Rightarrow> bool list \<Rightarrow> flash cmd_state" where
  "sample_cmd input fs = \<lparr>lib = sample_state sample_image fs, cin = input, cerr = [], debug = False\<rparr>"

lemma usage_str_fits:
  assumes "wf_buf b"
  shows "\<exists>s. usage_str b = Some s"
proof -
  have b: "0 \<le> used_len b" "used_len b \<le> int (total_len b)" "total_len b < 65536"
    using assms by (auto simp: wf_buf_def)
  have "length (dec_int (used_len b)) \<le> 5"
    using b length_dec_nat_bound [of "nat (used_len b)" 5] by (simp add: dec_int_def)
  moreover have "length (dec_nat (total_len b)) \<le> 5"
    using b length_dec_nat_bound [of "total_len b" 5] by simp
  ultimately show ?thesis by (simp add: usage_str_def lit_def)
qed

lemma print_loop_defined:
  "list_all (\<lambda>v. length (vname v) < SYSVAR_NAME) vs \<Longrightarrow> \<exists>s. print_loop vs ro = Some s"
  by (induction vs) (auto simp: print_name_def)

lemma lib_print_msg [frame_simps]:
  "rw_buf (lib (print_msg s i st)) = rw_buf (lib st)" "ro_buf (lib (print_msg s i st)) = ro_buf (lib st)"
  "dev (lib (print_msg s i st)) = dev (lib st)" "mtd_dev (lib (print_msg s i st)) = mtd_dev (lib st)"
  "rw_buf (lib (out s st)) = rw_buf (lib st)" "ro_buf (lib (out s st)) = ro_buf (lib st)"
  "dev (lib (out s st)) = dev (lib st)" "mtd_dev (lib (out s st)) = mtd_dev (lib st)"
  by (simp_all add: print_msg_def out_def sv_print_def)

text \<open>
  Printing all variables succeeds and stays inside its arrays whenever every name is
  shorter than 32 bytes; in particular the usage text always fits the array of 20 bytes.
\<close>
lemma print_cmd_safe:
  assumes "sv_ok (lib st)"
    "list_all (\<lambda>v. length (vname v) < SYSVAR_NAME) (vars (rw_buf (lib st)) @ vars (ro_buf (lib st)))"
  shows "\<exists>st'. print_cmd ops st = Some (SYSVAR_SUCCESS, st')"
proof -
  obtain ro rw where p: "print_var (ro_buf (lib st)) = Some ro" "print_var (rw_buf (lib st)) = Some rw"
    using print_loop_defined assms(2) by (fastforce simp: print_var_def)
  obtain s1 s2 where "usage_str (ro_buf (lib st)) = Some s1" "usage_str (rw_buf (lib st)) = Some s2"
    using usage_str_fits assms(1) unfolding sv_ok_def by blast
  then show ?thesis
    using p sv_ok_check [OF assms(1)]
    by (simp add: print_cmd_def getvar_def sv_buf_def Let_def lib_print_msg)
      (simp add: sv_print_def lib_print_msg)
qed

text \<open>
  What \<open>get_cmd\<close> does for a variable that exists: it prints the value if the caller's
  name occupies at least 32 bytes of memory and the value is shorter than 2048 bytes. Otherwise its
  behaviour is undefined: \<open>getvar\<close> writes 32 bytes over the name (an argument string on the command
  line path), and a longer value fills the array without a terminator before it is printed.
\<close>
lemma get_cmd_result:
  assumes ok: "sv_ok (lib st)" and k: "cstr_of name \<noteq> []" "length (cstr_of name) \<le> SYSVAR_NAME"
    and v: "sv_map (lib st) (cstr_of name) = Some v"
    and fr: "length (op_fresh ops SYSVAR_VALUE (dev (lib st))) = SYSVAR_VALUE"
  shows "get_cmd ops name st =
    (if SYSVAR_NAME \<le> length name \<and> length v < SYSVAR_VALUE
     then Some (SYSVAR_SUCCESS, out (v @ [10]) st) else None)"
proof -
  let ?k = "cstr_of name" and ?ro = "ro_buf (lib st)" and ?rw = "rw_buf (lib st)"
  let ?vb = "op_fresh ops SYSVAR_VALUE (dev (lib st))"
  have key: "var_key ?k" using k(2) by (simp add: var_key_def)
  have wf: "wf_buf ?rw" "wf_buf ?ro" using ok by (auto simp: sv_ok_def)
  obtain x where x: "vvalue x = v" "nul_free v"
    "getvar ops (Some name) ?vb SYSVAR_VALUE (lib st) =
       map_option (\<lambda>(r, n, v). (r, Some n, v, lib st)) (get_var x name ?vb SYSVAR_VALUE)"
  proof (cases "find_var ?ro (Some ?k)")
    case (Some p)
    have "vmap (vars ?ro) ?k = Some (vvalue (vars ?ro ! p))" "p < length (vars ?ro)"
      using find_var_key [OF wf(2) key] Some by auto
    then show thesis
      using that [of "vars ?ro ! p"] Some sv_ok_check [OF ok] v wf(2)
      by (auto simp: getvar_def sv_map_def wf_buf_def wf_var_def list_all_length)
  next
    case None
    then have n: "vmap (vars ?ro) ?k = None" using find_var_key(1) [OF wf(2) key] by simp
    then have m: "vmap (vars ?rw) ?k = Some v" using v by (simp add: sv_map_def map_add_def)
    then obtain p where p: "find_var ?rw (Some ?k) = Some p"
      using find_var_key(1) [OF wf(1) key] by (cases "find_var ?rw (Some ?k)") auto
    have "vmap (vars ?rw) ?k = Some (vvalue (vars ?rw ! p))" "p < length (vars ?rw)"
      using find_var_key [OF wf(1) key] p by auto
    then show thesis
      using that [of "vars ?rw ! p"] None p sv_ok_check [OF ok] m wf(1)
      by (auto simp: getvar_def wf_buf_def wf_var_def list_all_length)
  qed
  define w where "w = take SYSVAR_VALUE v @ replicate (SYSVAR_VALUE - length v) (0 :: byte)"
  have w: "strncpy ?vb v SYSVAR_VALUE = Some w" using fr by (simp add: cstr_simps w_def)
  show ?thesis
  proof (cases "SYSVAR_NAME \<le> length name")
    case False
    then show ?thesis using k(1) x by (simp add: get_cmd_def get_var_def strncpy_None)
  next
    case True
    then obtain nb where nb: "strncpy name (vname x) SYSVAR_NAME = Some nb" by (simp add: cstr_simps)
    have g: "get_cmd ops name st = (if nul_free w then None else Some (SYSVAR_SUCCESS, out (cstr_of w @ [10]) st))"
      using k(1) x w nb by (simp add: get_cmd_def get_var_def)
    show ?thesis
    proof (cases "length v < SYSVAR_VALUE")
      case True
      then obtain j where "SYSVAR_VALUE - length v = Suc j" by (metis Suc_diff_Suc)
      then have "w = v @ 0 # replicate j 0" using True by (simp add: w_def)
      then show ?thesis using g \<open>SYSVAR_NAME \<le> length name\<close> True x(2) by (simp add: cstr_simps)
    next
      case False
      then have "nul_free w" using x(2) by (simp add: w_def nul_free_take)
      then show ?thesis using g False by simp
    qed
  qed
qed

text \<open>
  At the console, an empty line at the name prompt of \<open>get\<close> (as of \<open>set\<close> and \<open>del\<close>)
  deletes all read-write variables: \<open>cmd_console_wrapper\<close> calls \<open>clear_cmd\<close> before it looks at
  the command, so the branch of \<open>get_cmd\<close> for an empty name is never reached from the console.
\<close>
lemma console_get_empty_name_clears:
  assumes "sv_ok (lib st)" "cin st = 10 # rest" "c \<in> {cmdtype_get, cmdtype_set, cmdtype_del}"
  shows "\<exists>st'. run_cmd ops (Some c) dbg st = Some (False, st') \<and> vars (rw_buf (lib st')) = [] \<and>
    vars (ro_buf (lib st')) = vars (ro_buf (lib st)) \<and> cin st' = rest"
proof -
  obtain s1 where g: "get_str ''name ?'' SYSVAR_NAME st = Some ([], s1)" "cin s1 = rest"
    "lib s1 = sv_print (lit ''name ?'' @ lit '' > '' @ [13, 10]) (lib st)"
    using assms(2) by (simp add: get_str_def out_def)
  have ok: "sv_ok (lib s1)" "vars (ro_buf (lib s1)) = vars (ro_buf (lib st))"
    using assms(1) g(3) by (simp_all add: sv_ok_def sv_print_def)
  have "wf_buf (rw_buf (lib s1))" using ok by (simp add: sv_ok_def)
  then have "vars (rw_buf (lib (snd (clear_cmd ops s1)))) = []"
    "ro_buf (lib (snd (clear_cmd ops s1))) = ro_buf (lib s1)"
    using sv_ok_check [OF ok(1)] by (simp_all add: clear_cmd_def setvar_def clear_var_eq lib_print_msg)
  moreover have "run_cmd ops (Some c) dbg st = Some (False, snd (clear_cmd ops s1))"
    using assms(3) g(1) by (auto simp: cmd_console_wrapper_def)
  ultimately show ?thesis using ok(2) g(2) by simp
qed

section \<open>Saving on a working device\<close>

context reliable_mtd
begin

lemma save_copy_ok:
  assumes b: "block_buf n (buf_of st sel)" "image_ok n (data (buf_of st sel))"
    and fd: "fd = mtd_dev st ! i" "n + SYSVAR_HEAD \<le> length (content (dev st) fd)"
  shows "\<exists>st'. save_copy ops sel i st = Some (SYSVAR_SUCCESS, st')"
proof -
  obtain st1 where e: "erase_mtd ops i st = Some (SYSVAR_SUCCESS, st1)"
    "only_touches content fd st st1" "rw_buf st1 = rw_buf st" "ro_buf st1 = ro_buf st"
    using erase_mtd_ok [of i st] fd(1) by blast
  have b1: "buf_of st1 sel = buf_of st sel" using buf_of_eq e(3,4) by blast
  obtain b2 where c: "check_buf sel SYSVAR_SAVE_MODE st1 = Some (SYSVAR_SUCCESS, put_buf st1 sel b2)"
    "block_buf n b2"
    using check_buf_save [of n st1 sel] b b1 by auto
  have "fst (op_write ops fd 0 (take (data_len b2) (data b2)) (dev st1)) = n + 8"
    using write_ok [of 0 "take (data_len b2) (data b2)" "dev st1" fd] c(2) fd(2)
      only_touches_length [OF e(2), of fd]
    by (simp add: block_buf_def)
  then show ?thesis
    using e(1,2) c fd(1)
    by (cases "op_write ops fd 0 (take (data_len b2) (data b2)) (dev st1)")
      (simp add: save_copy_def mtd_write_def Let_def frame_simps block_buf_def only_touches_def)
qed

lemma savevar_ok:
  assumes "rw_ready content n st" "sized (rw_buf st)"
  shows "\<exists>st'. savevar ops st = Some (SYSVAR_SUCCESS, st')"
proof -
  have wf: "wf_buf (rw_buf st)" "used_len (rw_buf st) = int (vars_size (vars (rw_buf st)))"
    "total_len (rw_buf st) = n"
    using assms by (auto simp: rw_ready_def sized_def)
  obtain d where d: "save_var (rw_buf st) =
      Some (SYSVAR_SUCCESS, (rw_buf st)\<lparr>data := d, modified := True\<rparr>)"
    "length d = data_len (rw_buf st)" "image_ok n d"
    using wf by (auto elim: save_var_eq)
  define st1 where "st1 = st\<lparr>rw_buf := (rw_buf st)\<lparr>data := d, modified := True\<rparr>\<rparr>"
  have b: "block_buf n (buf_of st1 RW)" "image_ok n (data (buf_of st1 RW))"
    using d assms(1) by (simp_all add: st1_def block_buf_def wf_buf_def rw_ready_def)
  have ck: "check_mtd ops st1 = (SYSVAR_SUCCESS, st1)"
    using check_mtd_loop_ok [of ops "mtd_dev st1" 0 st1] assms(1)
    by (simp add: check_mtd_def st1_def rw_ready_def)
  have ok: "\<exists>st'. data_save ops RW i j st1 = Some (SYSVAR_SUCCESS, st')"
    if "n + 8 \<le> length (content (dev st1) (mtd_dev st1 ! i))"
      "n + 8 \<le> length (content (dev st1) (mtd_dev st1 ! j))" for i j
  proof -
    note len = that
    obtain r s where s: "save_copy ops RW i st1 = Some (r, s)" "only_touches content (mtd_dev st1 ! i) st1 s"
      "block_buf n (buf_of s RW)" "image_ok n (data (buf_of s RW))"
      using save_copy_correct [OF b refl len(1)] by blast
    have "r = SYSVAR_SUCCESS" using save_copy_ok [OF b refl len(1)] s(1) by auto
    moreover have "n + 8 \<le> length (content (dev s) (mtd_dev s ! j))" "mtd_dev s = mtd_dev st1"
      using len(2) only_touches_length [OF s(2)] s(2) by (simp_all add: only_touches_def)
    ultimately show ?thesis
      using save_copy_ok [OF s(3,4) refl, of j] s(1) ck by (auto simp: data_save_def)
  qed
  show ?thesis
    using ok [of 0 1] ok [of 1 0] d(1) assms(1)
    by (auto simp: savevar_def st1_def rw_ready_def Let_def)
qed

end

text \<open>
  Claim C5. A variable set from the command line survives a restart: on a working device, with a
  name and value without the byte \<open>0xff\<close> that fit, \<open>set_cmd\<close> and \<open>save_cmd\<close> succeed, and loading
  the flash afterwards into an empty buffer gives the old variables with exactly this one updated.
\<close>
theorem set_survives_restart:
  assumes dv: "reliable_mtd ops content" and rdy: "rw_ready content n (lib st)" "sv_ok (lib st)"
      "list_all storable (vars (rw_buf (lib st)))" "sized (rw_buf (lib st))"
    and k: "var_key k" "k \<noteq> []" "0xff \<notin> set k" "vmap (vars (ro_buf (lib st))) k = None"
    and v: "nul_free v" "0xff \<notin> set v"
    and fit: "vars_size (put_vars k (Some v) (vars (rw_buf (lib st)))) \<le> n"
    and b: "wf_buf b" "mallocs b = []" "total_len b = n"
  shows "\<exists>st1 st2 l b'. set_cmd ops k v st = (SYSVAR_SUCCESS, st1) \<and>
    save_cmd ops st1 = Some (SYSVAR_SUCCESS, st2) \<and>
    data_load ops RW SYSVAR_RW_BUF ((lib st2)\<lparr>rw_buf := b\<rparr>) = Some (SYSVAR_SUCCESS, l) \<and>
    load_var (rw_buf l) = Some (SYSVAR_SUCCESS, b') \<and>
    vmap (vars b') = (vmap (vars (rw_buf (lib st))))(k \<mapsto> v)"
proof -
  let ?l = "lib st" and ?new = "put_vars k (Some v) (vars (rw_buf (lib st)))"
  have mtd: "mtd_device ops content" using dv by (rule reliable_mtd.axioms(1))
  have new: "list_all storable ?new"
    using rdy(3) k v by (auto simp: put_vars_def list_all_iff storable_def wf_var_def var_key_def)
  obtain bb where bb: "setvar ops (Some k) (Some v) ?l = (SYSVAR_SUCCESS, ?l\<lparr>rw_buf := bb\<rparr>)"
    "vars bb = ?new" "mallocs bb = []" "wf_buf bb" "total_len bb = n" "sized bb"
    using setvar_unlocked [OF rdy(2) k(1), of "Some v"] k(4) v(1) fit rdy(1,4)
    by (auto simp: sv_locked_def rw_ready_def)
  define st1 where "st1 = snd (set_cmd ops k v st)"
  have st1: "set_cmd ops k v st = (SYSVAR_SUCCESS, st1)" "rw_buf (lib st1) = bb"
    "mtd_dev (lib st1) = mtd_dev ?l" "dev (lib st1) = dev ?l"
    using bb(1) by (simp_all add: st1_def set_cmd_def Let_def frame_simps)
  have rdy1: "rw_ready content n (lib st1)"
    using rdy(1) bb(3-5) st1 by (simp add: rw_ready_def)
  define j0 where "j0 = (if snd (failed bb) then 1 else 0 :: nat)"
  define j1 where "j1 = (if snd (failed bb) then 0 else 1 :: nat)"
  have j: "(j0, j1) = (if snd (failed (rw_buf (lib st1))) then (1, 0) else (0, 1))"
    "(j0 = 0 \<and> j1 = 1) \<or> (j0 = 1 \<and> j1 = 0)"
    using st1(2) by (auto simp: j0_def j1_def)
  obtain l2 where l2: "savevar ops (lib st1) = Some (SYSVAR_SUCCESS, l2)"
    using reliable_mtd.savevar_ok [OF dv rdy1] bb(6) st1(2) by auto
  have good: "mtd_dev l2 = mtd_dev ?l \<and> (\<forall>fd. length (content (dev l2) fd) = length (content (dev ?l) fd)) \<and>
      good_copy n (payload n ?new) (content (dev l2) (mtd_dev ?l ! j0)) \<and>
      good_copy n (payload n ?new) (content (dev l2) (mtd_dev ?l ! j1))"
    by (rule mtd_device.savevar_correct [OF mtd, of "lib st1" n "mtd_dev ?l ! j0" j0 "mtd_dev ?l ! j1" j1])
      (use rdy(1) rdy1 bb st1 l2 j in \<open>auto simp: rw_ready_def sized_def\<close>)
  define st2 where "st2 = snd (the (save_cmd ops st1))"
  have st2: "save_cmd ops st1 = Some (SYSVAR_SUCCESS, st2)" "dev (lib st2) = dev l2"
    "mtd_dev (lib st2) = mtd_dev ?l"
    using l2 good by (simp_all add: st2_def save_cmd_def frame_simps)
  define l3 where "l3 = (lib st2)\<lparr>rw_buf := b\<rparr>"
  have parts: "good_copy n (payload n ?new) (part content l3 0)" "good_copy n (payload n ?new) (part content l3 1)"
    using good j(2) st2 by (auto simp: part_def l3_def)
  have rdy3: "rw_ready content n l3"
    using rdy(1) b st2 good by (simp add: rw_ready_def l3_def)
  obtain l b' where "data_load ops RW SYSVAR_RW_BUF l3 = Some (SYSVAR_SUCCESS, l)"
    "load_var (rw_buf l) = Some (SYSVAR_SUCCESS, b')" "vars b' = ?new"
    using load_payload [OF dv rdy3 _ _ new fit] parts by (auto simp: good_copy_def valid_copy_def)
  then show ?thesis using st1(1) st2(1) by (auto simp: l3_def vmap_put_vars)
qed

lemma sample_sized: "sized (rw_buf (sample_state c fs))"
  by (simp add: sized_def sample_state_def sample_buf_def sample_var_def)

theorem set_survives_restart_witness:
  "\<exists>st1 st2 l b'. set_cmd (flash_ops False) [90] [66, 70] (sample_cmd [] []) = (SYSVAR_SUCCESS, st1) \<and>
    save_cmd (flash_ops False) st1 = Some (SYSVAR_SUCCESS, st2) \<and>
    data_load (flash_ops False) RW SYSVAR_RW_BUF ((lib st2)\<lparr>rw_buf := sample_buf\<rparr>) = Some (SYSVAR_SUCCESS, l) \<and>
    load_var (rw_buf l) = Some (SYSVAR_SUCCESS, b') \<and>
    vmap (vars b') = (vmap (vars (rw_buf (lib (sample_cmd [] [])))))([90] \<mapsto> [66, 70])"
  by (rule set_survives_restart [where n = 40, OF flr.reliable_mtd_axioms])
    (use sample_state_ready sample_buf_ok sample_image_ok sample_sized in
      \<open>simp_all add: sample_cmd_def sample_state_sv_ok,
       simp_all add: sample_state_def sample_buf_def sample_var_def var_key_def put_vars_def\<close>)

text \<open>
  The exit status does not tell whether the variables were saved: when \<open>--set\<close> changes
  the list but saving fails, \<open>main\<close> ignores the result of \<open>save_cmd\<close> and returns 0.
\<close>
lemma set_exit_status_ignores_save:
  assumes "set_cmd ops name value st = (SYSVAR_SUCCESS, st1)" "save_cmd ops st1 = Some (r, st2)"
    "r \<noteq> SYSVAR_SUCCESS" "close_mtd ops (lib st2) = Some l" "nul_free name"
  shows "main_loop ops [prog, opt, name, value] [(of_char (CHR ''s''), name @ [0])] 0 st =
    Some (0, st2\<lparr>lib := l\<rparr>)"
  using assms by (simp add: cstr_simps)

definition dead_ops :: "flash mtd_ops" where
  "dead_ops = (flash_ops False)\<lparr>op_getinfo := (\<lambda>fd d. (None, d))\<rparr>"

definition set_buf :: sysvar_buf where
  "set_buf = sample_buf\<lparr>vars := [\<lparr>vname = [90], vvalue = [66], vlen = 35\<rparr>], used_len := 35, free_len := 5\<rparr>"

lemma sample_set:
  "set_cmd dead_ops [90] [66] (sample_cmd [] []) =
     (SYSVAR_SUCCESS, out [66, 10] ((sample_cmd [] [])\<lparr>lib := (sample_state sample_image [])\<lparr>rw_buf := set_buf\<rparr>\<rparr>))"
  by (simp add: set_cmd_def setvar_def check_mtd_def sample_cmd_def sample_state_def sample_buf_def
      sample_var_def find_var_def delete_var_def set_var_def sysvar_len_def print_msg_def set_buf_def
      cstr_simps)

lemma sample_save_fails:
  obtains st2 l where "save_cmd dead_ops (snd (set_cmd dead_ops [90] [66] (sample_cmd [] []))) =
      Some (SYSVAR_ERASE_ERR, st2)" "close_mtd dead_ops (lib st2) = Some l"
proof -
  obtain d where d: "save_var set_buf = Some (SYSVAR_SUCCESS, set_buf\<lparr>data := d, modified := True\<rparr>)"
    by (rule save_var_eq [of set_buf])
      (simp_all add: set_buf_def sample_buf_def wf_buf_def wf_var_def)
  define b where "b = set_buf\<lparr>data := d, modified := True\<rparr>"
  define l1 where "l1 = (sv_print [66, 10] (sample_state sample_image []))\<lparr>rw_buf := b\<rparr>"
  have l1: "mtd_dev l1 = [3, 4, 5, 6]" "rw_buf l1 = b" "\<not> snd (failed b)"
    by (simp_all add: l1_def sample_state_def sv_print_def b_def set_buf_def sample_buf_def)
  have "data_save dead_ops RW 0 (Suc 0) l1 =
      Some (SYSVAR_ERASE_ERR, print_err dead_ops ''getinfo MTD device '' 0 l1)"
    using l1(1) by (simp add: data_save_def check_mtd_def save_copy_def erase_mtd_def dead_ops_def)
  then have "savevar dead_ops (lib (snd (set_cmd dead_ops [90] [66] (sample_cmd [] [])))) =
      Some (SYSVAR_ERASE_ERR, print_err dead_ops ''getinfo MTD device '' 0 l1)"
    using d l1(3) by (simp add: sample_set savevar_def out_def sv_print_def b_def l1_def Let_def)
  moreover have "\<exists>l. close_mtd dead_ops (print_err dead_ops ''getinfo MTD device '' 0 l1) = Some l"
    by (simp add: close_mtd_def frame_simps l1 release_list_def release_data_def)
      (simp add: l1_def sv_print_def sample_state_def b_def set_buf_def sample_buf_def sample_var_def
        clear_var_def delete_var_def sysvar_len_def)
  ultimately show thesis using that by (auto simp: save_cmd_def)
qed

end
