(* ===== verification/Logos.thy ===== *)
theory Logos
  imports C_Text
begin

unbundle bit_operations_syntax

text \<open>
  The log filter \<^verbatim>\<open>src/cmds/logos.c\<close>, with \<open>strip_underscores\<close> of \<^verbatim>\<open>src/cmds/utils.c\<close>: it cuts its
  input into lines, cleans control characters, limits the rate with token buckets and writes each
  line with a header in one call.

  The state holds the buckets and static variables of the source, the header (whose level digit is
  rewritten for each line), and the environment: the readings of the monotonic clock (\<open>clk\<close>, the
  number of readings so far \<open>ticks\<close>), the outcomes of the next calls of \<open>malloc\<close> and \<open>writev\<close>
  (an empty list: they succeed), the lines handed to \<open>writev\<close> and the text on standard error. A
  failing \<open>clock_gettime\<close>, which ends the program, is not modelled. \<open>ssize_t\<close> and \<open>long long\<close> have 64 bits: the
  limits are what \<open>atoll\<close> makes of the arguments, and a refill that leaves 64 bits is undefined. Two numbers that only count
  are unbounded: the lines refused in a row (an \<open>int\<close>) and the balance in unlimited mode, which each
  line lowers. \<open>None\<close> is a failed assertion, an overflow or an access outside an array.
\<close>

section \<open>State\<close>

datatype BucketType = BT_INFORMATIONAL | BT_MANDATORY

record Bucket =
  bname :: string
  msg_start :: string
  msg_end :: string
  btype :: BucketType
  max_bytes :: int
  fill_rate :: int
  available :: int
  num_skipped :: int

abbreviation (input) B_BURST :: nat where "B_BURST \<equiv> 0"
abbreviation (input) B_DAILY :: nat where "B_DAILY \<equiv> 1"
abbreviation (input) B_WARNING :: nat where "B_WARNING \<equiv> 2"

abbreviation (input) SECS_PER_BURST :: int where "SECS_PER_BURST \<equiv> 300"
abbreviation (input) SECS_PER_DAY :: int where "SECS_PER_DAY \<equiv> 86400"
abbreviation (input) DEFAULT_BYTES_PER_BURST :: int where "DEFAULT_BYTES_PER_BURST \<equiv> 1000000"
abbreviation (input) DEFAULT_BYTES_PER_DAY :: int where "DEFAULT_BYTES_PER_DAY \<equiv> 5000000"
abbreviation (input) MAX_LINE_LENGTH :: nat where "MAX_LINE_LENGTH \<equiv> 768"

record logos_state =
  buckets :: "Bucket list"
  debug :: int
  want_unlimited_mode :: bool
  unlimited_mode :: bool
  last_add_time :: int
  skipping :: bool
  backoff :: int
  header :: cstr
  clk :: "nat \<Rightarrow> int"
  ticks :: nat
  lmallocs :: "bool list"
  writevs :: "int list"
  written :: "byte list list"
  errs :: cstr

definition buckets_init :: "Bucket list" where
  "buckets_init =
     [\<lparr>bname = ''burst'',
       msg_start = ''W: burst limit: dropping messages to prevent overflow (%d bytes/sec).'',
       msg_end = ''W: burst limit: %d messages were dropped.'',
       btype = BT_MANDATORY, max_bytes = 0, fill_rate = 0, available = 0, num_skipped = 0\<rparr>,
      \<lparr>bname = ''daily'',
       msg_start = ''W: daily limit: dropping messages (%d bytes/sec).'',
       msg_end = ''W: daily limit: %d messages were dropped.'',
       btype = BT_MANDATORY, max_bytes = 0, fill_rate = 0, available = 0, num_skipped = 0\<rparr>,
      \<lparr>bname = ''warning'',
       msg_start = ''I: burst notice: this log rate is unsustainable (%d bytes/sec).'',
       msg_end = ''I: burst notice: %d messages would have been dropped.'',
       btype = BT_INFORMATIONAL, max_bytes = 0, fill_rate = 0, available = 0, num_skipped = 0\<rparr>]"

definition err_print :: "cstr \<Rightarrow> logos_state \<Rightarrow> logos_state" where
  "err_print s st = st\<lparr>errs := errs st @ s\<rparr>"

definition mstime :: "logos_state \<Rightarrow> int \<times> logos_state" where
  "mstime st = (clk st (ticks st), st\<lparr>ticks := Suc (ticks st)\<rparr>)"

definition logos_malloc :: "logos_state \<Rightarrow> bool \<times> logos_state" where
  "logos_malloc st = (case lmallocs st of [] \<Rightarrow> (True, st) | ok # ms \<Rightarrow> (ok, st\<lparr>lmallocs := ms\<rparr>))"

section \<open>Helpers\<close>

fun strip_loop :: "cstr \<Rightarrow> cstr" where
  "strip_loop [] = []"
| "strip_loop (c # cs) = (if c \<noteq> of_char (CHR ''_'') then c # strip_loop cs else strip_loop cs)"

definition strip_underscores :: "cstr \<Rightarrow> cstr" where
  "strip_underscores line = (if of_char (CHR ''_'') \<in> set line then strip_loop line else line)"

text \<open>\<open>strncasecmp (s, contains, strlen (contains)) == 0\<close> on the memory at \<open>s\<close>.\<close>

fun startswith :: "byte list \<Rightarrow> cstr \<Rightarrow> bool option" where
  "startswith m [] = Some True"
| "startswith [] (c # cs) = None"
| "startswith (b # m) (c # cs) = (if to_lower b = to_lower c then startswith m cs else Some False)"

fun starts_any :: "byte list \<Rightarrow> string list \<Rightarrow> bool option" where
  "starts_any m [] = Some False"
| "starts_any m (p # ps) = do { r \<leftarrow> startswith m (lit p); if r then Some True else starts_any m ps }"

text \<open>The first \<open>%d\<close> of a format replaced by a number.\<close>

fun fmt_d :: "string \<Rightarrow> int \<Rightarrow> cstr" where
  "fmt_d [] n = []"
| "fmt_d [c] n = [of_char c]"
| "fmt_d (c # d # s) n =
     (if c = CHR ''%'' \<and> d = CHR ''d'' then dec_int n @ lit s else of_char c # fmt_d (d # s) n)"

definition init_buckets :: "int \<Rightarrow> int \<Rightarrow> Bucket list \<Rightarrow> Bucket list" where
  "init_buckets bytes_per_burst bytes_per_day bs =
     (let m0 = bytes_per_burst div 2; r0 = m0 div SECS_PER_BURST; a0 = m0 div 2;
          m1 = bytes_per_day; r1 = m1 div SECS_PER_DAY; a1 = m1 div 2
      in [(bs ! B_BURST)\<lparr>max_bytes := m0, fill_rate := r0, available := a0\<rparr>,
          (bs ! B_DAILY)\<lparr>max_bytes := m1, fill_rate := r1, available := a1\<rparr>,
          (bs ! B_WARNING)\<lparr>max_bytes := m0, fill_rate := r1, available := a0\<rparr>])"

section \<open>Writing a line\<close>

definition level_of :: "byte list \<Rightarrow> byte option" where
  "level_of m = do {
     c2 \<leftarrow> starts_any m [''weird:'', ''fatal:'', ''critical:''];
     if c2 then Some (of_char (CHR ''2''))
     else do {
       c3 \<leftarrow> starts_any m [''e:'', ''error:''];
       if c3 then Some (of_char (CHR ''3''))
       else do {
         c4 \<leftarrow> starts_any m [''w:'', ''warning:''];
         if c4 then Some (of_char (CHR ''4''))
         else do {
           c5 \<leftarrow> starts_any m [''n:'', ''notice:''];
           if c5 then Some (of_char (CHR ''5''))
           else do {
             c6 \<leftarrow> starts_any m [''i:'', ''info:''];
             Some (if c6 then of_char (CHR ''6'') else of_char (CHR ''7'')) } } } } }"

definition report_writev :: "int \<Rightarrow> int \<Rightarrow> logos_state \<Rightarrow> logos_state" where
  "report_writev tot wrote st =
     (if wrote \<ge> 0 \<and> wrote < tot then
        err_print (lit ''WEIRD: logos: writev('' @ dec_int tot @ lit '') returned '' @ dec_int wrote @ [10]) st
      else if wrote < 0 then err_print (lit ''logos: writev: error'' @ [10]) st
      else st)"

definition flush_unlimited :: "byte list \<Rightarrow> nat \<Rightarrow> logos_state \<Rightarrow> logos_state option" where
  "flush_unlimited buf len st =
     (if length (header st) > 3 \<and> header st ! 0 = of_char (CHR ''<'') \<and>
         header st ! 2 = of_char (CHR ''>'') \<and> len \<le> length buf
      then do {
        lvl \<leftarrow> level_of buf;
        let hdr = (header st)[1 := lvl];
        let line = hdr @ take len buf @ [10];
        let tot = int (length hdr + len + 1);
        let wrote = (case writevs st of [] \<Rightarrow> tot | w # ws \<Rightarrow> w);
        Some (report_writev tot wrote
          (st\<lparr>header := hdr, written := written st @ [line], writevs := tl (writevs st)\<rparr>)) }
      else None)"

section \<open>Rate limiting\<close>

definition fits64 :: "int \<Rightarrow> bool" where
  "fits64 x \<longleftrightarrow> - (2 ^ 63) \<le> x \<and> x < 2 ^ 63"

definition refill :: "int \<Rightarrow> Bucket \<Rightarrow> Bucket option" where
  "refill tdiff b =
     (let add = sgn (tdiff * fill_rate b) * (\<bar>tdiff * fill_rate b\<bar> div 1000)
      in if fits64 (tdiff * fill_rate b) \<and> add \<ge> 0 \<and> available b + add < 2 ^ 63 then
           Some (b\<lparr>available := (if available b + add > max_bytes b then max_bytes b
                                 else available b + add)\<rparr>)
         else None)"

definition maybe_fill_buckets :: "logos_state \<Rightarrow> logos_state option" where
  "maybe_fill_buckets st =
     (case mstime st of (now, st) \<Rightarrow>
        if last_add_time st = 0 then
          Some (st\<lparr>last_add_time := now,
            buckets := map (\<lambda>b. b\<lparr>available := max_bytes b div 2\<rparr>) (buckets st)\<rparr>)
        else
          (let tdiff = now - last_add_time st
           in if \<not> skipping st \<and> tdiff \<ge> 1000 \<or> skipping st \<and> tdiff \<ge> backoff st
              then do {
                bs \<leftarrow> those (map (refill tdiff) (buckets st));
                Some (st\<lparr>buckets := bs, last_add_time := now\<rparr>) }
              else Some st))"

text \<open>One pass of the loop in \<open>all_buckets_have_room\<close> for bucket \<open>i\<close>.\<close>

definition bucket_room ::
    "nat \<Rightarrow> int \<Rightarrow> bool \<times> bool \<times> logos_state \<Rightarrow> (bool \<times> bool \<times> logos_state) option" where
  "bucket_room i tot s =
     (case s of (all_ok, now_skipping, st) \<Rightarrow>
        let b = buckets st ! i
        in if available b \<ge> tot \<or> unlimited_mode st then do {
             st \<leftarrow> (if num_skipped b \<noteq> 0 then
                      (let tmp = fmt_d (msg_end b) (num_skipped b)
                       in flush_unlimited (tmp @ [0]) (length tmp) st)
                    else Some st);
             Some (all_ok, now_skipping,
               st\<lparr>buckets := (buckets st)[i := b\<lparr>num_skipped := 0, available := available b - tot\<rparr>]\<rparr>) }
           else do {
             (b, st) \<leftarrow>
               (if num_skipped b = 0 then do {
                  let tmp = fmt_d (msg_start b) (fill_rate b);
                  st \<leftarrow> flush_unlimited (tmp @ [0]) (length tmp) st;
                  let bo = (if \<not> now_skipping \<and> \<not> skipping st then backoff st * 2 else backoff st);
                  Some (b\<lparr>available := 0\<rparr>, st\<lparr>backoff := (if bo > 120000 then 120000 else bo)\<rparr>) }
                else Some (b, st));
             Some ((case btype b of BT_MANDATORY \<Rightarrow> False | BT_INFORMATIONAL \<Rightarrow> all_ok), True,
               st\<lparr>buckets := (buckets st)[i := b\<lparr>num_skipped := num_skipped b + 1\<rparr>]\<rparr>) })"

definition all_buckets_have_room :: "int \<Rightarrow> logos_state \<Rightarrow> (bool \<times> logos_state) option" where
  "all_buckets_have_room tot st = do {
     s \<leftarrow> bucket_room B_BURST tot (True, False, st);
     s \<leftarrow> bucket_room B_DAILY tot s;
     s \<leftarrow> bucket_room B_WARNING tot s;
     case s of (all_ok, now_skipping, st) \<Rightarrow> Some (all_ok, st\<lparr>skipping := now_skipping\<rparr>) }"

definition debug_line :: "int \<Rightarrow> logos_state \<Rightarrow> cstr" where
  "debug_line tot st =
     lit ''logos: '' @
     concat (map (\<lambda>b. lit (bname b) @ lit ''='' @ dec_int (available b) @ lit '' '') (buckets st)) @
     lit ''want='' @ dec_int tot @ [10]"

text \<open>The part of \<open>_flush_ratelimited\<close> before the line is written: may it pass?\<close>

definition admit :: "int \<Rightarrow> logos_state \<Rightarrow> (bool \<times> logos_state) option" where
  "admit tot st = do {
     let st = (if debug st \<noteq> 0 then err_print (debug_line tot st) st else st);
     st \<leftarrow> maybe_fill_buckets st;
     all_buckets_have_room tot st }"

definition flush_ratelimited :: "byte list \<Rightarrow> nat \<Rightarrow> logos_state \<Rightarrow> logos_state option" where
  "flush_ratelimited buf len st =
     (let tot = int (length (header st) + len + 1)
      in do {
        (ok, st) \<leftarrow> admit tot st;
        if ok then flush_unlimited buf len st else Some st })"

section \<open>Signals\<close>

datatype signal = SIGHUP | SIGUSR1 | SIGUSR2

fun on_signal :: "signal \<Rightarrow> logos_state \<Rightarrow> logos_state" where
  "on_signal SIGHUP st = st\<lparr>last_add_time := 0\<rparr>"
| "on_signal SIGUSR1 st = st\<lparr>want_unlimited_mode := True\<rparr>"
| "on_signal SIGUSR2 st = st\<lparr>want_unlimited_mode := False\<rparr>"

section \<open>Cleaning\<close>

function tab_fill :: "cstr \<Rightarrow> cstr" where
  "tab_fill out =
     (let out' = out @ [32] in if length out' mod 8 \<noteq> 0 then tab_fill out' else out')"
  by pat_completeness auto
termination
  by (relation "measure (\<lambda>out. 8 - length out mod 8)") (auto simp: mod_Suc split: if_splits)

declare tab_fill.simps [simp del]

fun fix_loop :: "byte list \<Rightarrow> cstr \<Rightarrow> cstr" where
  "fix_loop [] out = out"
| "fix_loop (c # inp) out =
     (if c \<ge> 32 \<or> c = 10 then fix_loop inp (out @ [c])
      else if c = 9 then fix_loop inp (tab_fill out)
      else if c = 13 then fix_loop inp out
      else fix_loop inp (out @ lit [CHR 0x5C, CHR ''x''] @ hex_fixed 2 (unat c)))"

text \<open>The block that \<open>fix_buf\<close> allocates has \<open>8 * len + 1\<close> bytes.\<close>

definition fix_buf :: "byte list \<Rightarrow> logos_state \<Rightarrow> (byte list option \<times> logos_state) option" where
  "fix_buf inp st =
     (case logos_malloc st of
        (False, st) \<Rightarrow> Some (None, err_print (lit ''logos: allocating memory: error'' @ [10]) st)
      | (True, st) \<Rightarrow>
         (let out = fix_loop inp [] @ [0]
          in if length out \<le> length inp * 8 + 1 then Some (Some out, st) else None))"

abbreviation (input) is_control :: "byte \<Rightarrow> bool" where
  "is_control c \<equiv> c < 32 \<and> c \<noteq> 10"

definition flush :: "byte list \<Rightarrow> nat \<Rightarrow> logos_state \<Rightarrow> logos_state option" where
  "flush buf len st =
     (if length buf < len then None
      else if list_ex is_control (take len buf) then do {
        (p, st) \<leftarrow> fix_buf (take len buf) st;
        case p of
          None \<Rightarrow> Some st
        | Some p \<Rightarrow> flush_ratelimited p (length (cstr_of p)) st }
      else flush_ratelimited buf len st)"

section \<open>The main loop\<close>

text \<open>
  Standard input is a list of bytes; an event says what the next \<open>read\<close> meets: up to \<open>k\<close> bytes
  (\<open>Ready k\<close>; the end of the input is a read of no bytes), an error, or a signal whose handler runs
  while the program waits. The loop is written for an arbitrary \<open>fl\<close>, which is called with the
  memory from the start of the line to the end of the array and the length of the line.
\<close>

datatype event = Ready nat | Read_Retry | Read_Error | Signal signal

type_synonym 's flusher = "byte list \<Rightarrow> nat \<Rightarrow> 's \<Rightarrow> 's option"

definition overlong_warning :: cstr where
  "overlong_warning = lit ''W: previous log line was split. Use shorter lines.''"

record line_buf =
  lbuf :: "byte list"
  used :: nat
  overlong :: bool

text \<open>
  The inner loop: \<open>lines fl buf start nxt fin overlong st\<close> flushes every line that ends in
  \<open>[nxt, fin)\<close> and returns the start of the rest.
\<close>

definition find_nl :: "byte list \<Rightarrow> nat \<Rightarrow> nat \<Rightarrow> nat option" where
  "find_nl buf nxt fin = find (\<lambda>i. buf ! i = 10) [nxt..<fin]"

lemma find_nl_range: "find_nl buf nxt fin = Some p \<Longrightarrow> nxt \<le> p \<and> p < fin"
  by (auto simp: find_nl_def find_Some_iff)

function line_loop ::
    "'s flusher \<Rightarrow> byte list \<Rightarrow> nat \<Rightarrow> nat \<Rightarrow> nat \<Rightarrow> bool \<Rightarrow> 's \<Rightarrow> (nat \<times> bool \<times> 's) option" where
  "line_loop fl buf start nxt fin ovl st =
     (case find_nl buf nxt fin of
        None \<Rightarrow> Some (start, ovl, st)
      | Some p \<Rightarrow>
         (case fl (drop start buf) (p - start) st of
            None \<Rightarrow> None
          | Some st1 \<Rightarrow>
             (if ovl then
                (case fl (overlong_warning @ [0]) (length overlong_warning) st1 of
                   None \<Rightarrow> None
                 | Some st2 \<Rightarrow> line_loop fl buf (p + 1) (p + 1) fin False st2)
              else line_loop fl buf (p + 1) (p + 1) fin False st1)))"
  by pat_completeness auto
termination
  by (relation "measure (\<lambda>(fl, buf, start, nxt, fin, ovl, st). fin - nxt)")
    (auto dest!: find_nl_range)

declare line_loop.simps [simp del]

text \<open>\<open>if (used == sizeof (buf))\<close> at the top of the loop.\<close>

definition flush_full :: "'s flusher \<Rightarrow> line_buf \<Rightarrow> 's \<Rightarrow> (line_buf \<times> 's) option" where
  "flush_full fl lb st =
     (if used lb = MAX_LINE_LENGTH
      then map_option (\<lambda>st. (lb\<lparr>overlong := True, used := 0\<rparr>, st)) (fl (lbuf lb) (used lb) st)
      else Some (lb, st))"

text \<open>What follows a read of the bytes \<open>bs\<close> into \<open>buf + used\<close>.\<close>

definition got_bytes :: "'s flusher \<Rightarrow> byte list \<Rightarrow> line_buf \<Rightarrow> 's \<Rightarrow> (line_buf \<times> 's) option" where
  "got_bytes fl bs lb st = do {
     buf \<leftarrow> arr_put (lbuf lb) (used lb) bs;
     let fin = used lb + length bs;
     (start, ovl, st) \<leftarrow> line_loop fl buf 0 (used lb) fin (overlong lb) st;
     buf' \<leftarrow> arr_put buf 0 (take (fin - start) (drop start buf));
     Some (\<lparr>lbuf = buf', used = fin - start, overlong = ovl\<rparr>, st) }"

datatype 's logos_outcome = Running line_buf "byte list" 's | Exited int 's

text \<open>
  The parts of the program that the loop calls: the flush, the switch between the modes at the top
  of the loop, and the signal handlers.
\<close>

record 's loop_ops =
  lo_flush :: "'s flusher"
  lo_top :: "'s \<Rightarrow> 's option"
  lo_signal :: "signal \<Rightarrow> 's \<Rightarrow> 's"

fun read_loop ::
    "'s loop_ops \<Rightarrow> event list \<Rightarrow> byte list \<Rightarrow> line_buf \<Rightarrow> 's \<Rightarrow> 's logos_outcome option" where
  "read_loop ops [] stdin lb st = Some (Running lb stdin st)"
| "read_loop ops (Signal s # es) stdin lb st = read_loop ops es stdin lb (lo_signal ops s st)"
| "read_loop ops (Read_Retry # es) stdin lb st = do {
     st \<leftarrow> lo_top ops st;
     (lb, st) \<leftarrow> flush_full (lo_flush ops) lb st;
     read_loop ops es stdin lb st }"
| "read_loop ops (Read_Error # es) stdin lb st = do {
     st \<leftarrow> lo_top ops st;
     (lb, st) \<leftarrow> flush_full (lo_flush ops) lb st;
     st \<leftarrow> lo_flush ops (lbuf lb) (used lb) st;
     Some (Exited 1 st) }"
| "read_loop ops (Ready k # es) stdin lb st = do {
     st \<leftarrow> lo_top ops st;
     (lb, st) \<leftarrow> flush_full (lo_flush ops) lb st;
     let got = min (MAX_LINE_LENGTH - used lb) (Suc k);
     if stdin = [] then
       (if used lb > 0
        then map_option (Exited 0) (lo_flush ops (lbuf lb) (used lb) st)
        else Some (Exited 0 st))
     else do {
       (lb, st) \<leftarrow> got_bytes (lo_flush ops) (take got stdin) lb st;
       read_loop ops es (drop got stdin) lb st } }"

definition mode_switch :: "logos_state \<Rightarrow> logos_state option" where
  "mode_switch st =
     (if unlimited_mode st \<noteq> want_unlimited_mode st then
        (let st = st\<lparr>unlimited_mode := want_unlimited_mode st, last_add_time := 0\<rparr>;
             msg = (if unlimited_mode st then lit ''W: SIGUSR1: rate limit disabled.''
                    else lit ''W: SIGUSR2: rate limit re-enabled.'')
         in flush_unlimited (msg @ [0]) (length msg) st)
      else Some st)"

definition logos_ops :: "logos_state loop_ops" where
  "logos_ops = \<lparr>lo_flush = flush, lo_top = mode_switch, lo_signal = on_signal\<rparr>"

text \<open>What \<open>main\<close> finds: the environment variable, the files, and the allocation of the header.\<close>

record logos_env =
  env_debug :: "cstr option"
  limits_file :: bool
  kmsg_ok :: bool
  chdir_ok :: bool
  header_malloc :: bool
  stack :: "byte list"

definition logos_usage :: cstr where
  "logos_usage =
     lit ''Usage: [LOGOS_DEBUG=1] logos <facilityname> [bytes/burst] [bytes/day]'' @ [10] @
     lit ''  Copies logs from stdin to /dev/kmsg, formatting them to be'' @ [10] @
     lit ''  suitable for /dev/kmsg. If LOGOS_DEBUG is >= 1, writes to'' @ [10] @
     lit ''  stdout instead.'' @ [10] @
     lit ''  '' @ [10] @
     lit ''  Default bytes/burst = '' @ dec_int DEFAULT_BYTES_PER_BURST @ lit '' - use 0 (for default) if possible.'' @ [10] @
     lit ''  Default bytes/day = '' @ dec_int DEFAULT_BYTES_PER_DAY @ lit '' - use 0 (for default) if possible.'' @ [10] @
     lit ''  Signals:'' @ [10] @
     lit ''    SIGHUP: refill the token buckets once.'' @ [10] @
     lit ''    SIGUSR1: disable rate limiting.'' @ [10] @
     lit ''    SIGUSR2: re-enable rate limiting.'' @ [10] @
     lit ''    Example: pkill -USR1 logos  -- disables rate limit on all logos.'' @ [10]"

text \<open>\<open>atoll\<close>, which stops at the limits of \<open>long long\<close>.\<close>

definition atoll :: "cstr \<Rightarrow> int" where
  "atoll s = max (- (2 ^ 63)) (min (2 ^ 63 - 1) (c_atoi s))"

definition limit_arg :: "cstr list \<Rightarrow> nat \<Rightarrow> int \<Rightarrow> int" where
  "limit_arg argv i dflt =
     (let v = (if length argv > i then atoll (argv ! i) else 0) in if v = 0 then dflt else v)"

definition logos_main ::
    "logos_env \<Rightarrow> cstr list \<Rightarrow> event list \<Rightarrow> byte list \<Rightarrow> logos_state \<Rightarrow> logos_state logos_outcome option" where
  "logos_main env argv events stdin st0 =
     (let st = st0\<lparr>buckets := buckets_init, want_unlimited_mode := False, unlimited_mode := False,
             last_add_time := 0, skipping := False, backoff := 5000,
             debug := (case env_debug env of None \<Rightarrow> 0 | Some p \<Rightarrow> atoi_int p)\<rparr>
      in if length argv < 2 \<or> length argv > 4 then Some (Exited 99 (err_print logos_usage st))
         else
           (let fac = strip_underscores (argv ! 1);
                bytes_per_burst = limit_arg argv 2 DEFAULT_BYTES_PER_BURST;
                bytes_per_day = limit_arg argv 3 DEFAULT_BYTES_PER_DAY
            in if fac = [] then
                 Some (Exited 1 (err_print (lit ''logos: facility name was empty, or all underscores.'' @ [10]) st))
               else if \<not> header_malloc env then
                 Some (Exited 5 (err_print (lit ''logos: allocating memory: error'' @ [10]) st))
               else if bytes_per_burst < SECS_PER_BURST * 2 then
                 Some (Exited 6 (err_print (lit ''logos: bytes-per-burst ('' @ argv ! 2 @
                   lit '') must be an int >= '' @ dec_int (SECS_PER_BURST * 2) @ [10]) st))
               else if bytes_per_day < SECS_PER_DAY then
                 Some (Exited 6 (err_print (lit ''logos: bytes-per-day ('' @ argv ! 2 @
                   lit '') must be an int >= '' @ dec_int SECS_PER_DAY @ [10]) st))
               else
                 (let st = st\<lparr>header := lit ''<x>'' @ fac @ lit '': '',
                       buckets := init_buckets bytes_per_burst bytes_per_day (buckets st),
                       want_unlimited_mode := limits_file env\<rparr>
                  in if debug st = 0 \<and> \<not> kmsg_ok env then
                       Some (Exited 3 (err_print (lit ''logos: /dev/kmsg: error'' @ [10]) st))
                     else if debug st = 0 \<and> \<not> chdir_ok env then
                       Some (Exited 3 (err_print (lit ''logos: chdir /: error'' @ [10]) st))
                     else read_loop logos_ops events stdin
                       \<lparr>lbuf = stack env, used = 0, overlong = False\<rparr> st)))"

section \<open>Lines do not depend on how the input is read\<close>

text \<open>The reference: the input is cut byte by byte.\<close>

fun split_ref :: "cstr \<Rightarrow> bool \<Rightarrow> byte list \<Rightarrow> cstr list" where
  "split_ref cur ovl [] = (if cur = [] then [] else [cur])"
| "split_ref cur ovl (c # cs) =
     (let full = (length cur = MAX_LINE_LENGTH);
          cur' = (if full then [] else cur);
          ovl' = (ovl \<or> full)
      in (if full then [cur] else []) @
         (if c = 10 then cur' # (if ovl' then [overlong_warning] else []) @ split_ref [] False cs
          else split_ref (cur' @ [c]) ovl' cs))"

definition record_line :: "cstr list flusher" where
  "record_line buf len ls = (if len \<le> length buf then Some (ls @ [take len buf]) else None)"

definition record_ops :: "cstr list loop_ops" where
  "record_ops = \<lparr>lo_flush = record_line, lo_top = Some, lo_signal = (\<lambda>s ls. ls)\<rparr>"

lemma split_ref_plain:
  "10 \<notin> set ys \<Longrightarrow> length cur + length ys \<le> MAX_LINE_LENGTH \<Longrightarrow>
     split_ref cur ovl (ys @ rest) = split_ref (cur @ ys) ovl rest"
  by (induction ys arbitrary: cur) auto

lemma split_ref_newline:
  "10 \<notin> set ys \<Longrightarrow> length cur + length ys < MAX_LINE_LENGTH \<Longrightarrow>
     split_ref cur ovl (ys @ 10 # rest) =
       (cur @ ys) # (if ovl then [overlong_warning] else []) @ split_ref [] False rest"
  by (simp add: split_ref_plain)

abbreviation (input) bytes_of :: "byte list \<Rightarrow> nat \<Rightarrow> nat \<Rightarrow> byte list" where
  "bytes_of buf i j \<equiv> take (j - i) (drop i buf)"

lemma bytes_of_split:
  "i \<le> j \<Longrightarrow> j \<le> k \<Longrightarrow> bytes_of buf i k = bytes_of buf i j @ bytes_of buf j k"
proof -
  assume "i \<le> j" "j \<le> k"
  then obtain a b where "j = i + a" "k = i + a + b" by (auto simp: le_iff_add)
  then show ?thesis by (simp add: take_add add.commute)
qed

lemma find_nl_Some:
  assumes "find_nl buf nxt fin = Some p" "fin \<le> length buf"
  shows "nxt \<le> p" "p < fin" "buf ! p = 10" "10 \<notin> set (bytes_of buf nxt p)"
proof -
  obtain i where i: "i < length [nxt..<fin]" "buf ! ([nxt..<fin] ! i) = 10" "p = [nxt..<fin] ! i"
    "\<forall>j < i. buf ! ([nxt..<fin] ! j) \<noteq> 10"
    using assms(1) by (auto simp: find_nl_def find_Some_iff)
  then show "nxt \<le> p" "p < fin" "buf ! p = 10" by auto
  show "10 \<notin> set (bytes_of buf nxt p)"
    using i assms(2) by (auto simp: in_set_conv_nth)
qed

lemma find_nl_None:
  "find_nl buf nxt fin = None \<Longrightarrow> fin \<le> length buf \<Longrightarrow> 10 \<notin> set (bytes_of buf nxt fin)"
  by (auto simp: find_nl_def find_None_iff in_set_conv_nth)

lemma line_loop_record:
  assumes "start \<le> nxt" "nxt \<le> fin" "fin \<le> length buf" "fin \<le> MAX_LINE_LENGTH"
    "10 \<notin> set (bytes_of buf start nxt)"
  shows "\<exists>s ovl' ls'. line_loop record_line buf start nxt fin ovl ls = Some (s, ovl', ls') \<and>
    s \<le> fin \<and> 10 \<notin> set (bytes_of buf s fin) \<and>
    ls' @ split_ref (bytes_of buf s fin) ovl' rest =
      ls @ split_ref (bytes_of buf start nxt) ovl (bytes_of buf nxt fin @ rest)"
  using assms
proof (induction "fin - nxt" arbitrary: start nxt ovl ls rule: less_induct)
  case less
  note eq = line_loop.simps [of record_line buf start nxt fin ovl ls]
  show ?case
  proof (cases "find_nl buf nxt fin")
    case None
    have "10 \<notin> set (bytes_of buf start fin)"
      using find_nl_None [OF None less.prems(3)] less.prems(5) bytes_of_split [OF less.prems(1,2), of buf]
      by auto
    moreover have "split_ref (bytes_of buf start nxt) ovl (bytes_of buf nxt fin @ rest) =
        split_ref (bytes_of buf start fin) ovl rest"
      using find_nl_None [OF None less.prems(3)] less.prems bytes_of_split [OF less.prems(1,2), of buf]
      by (subst split_ref_plain) auto
    ultimately show ?thesis using None eq less.prems by simp
  next
    case (Some p)
    note p = find_nl_Some [OF Some less.prems(3)]
    define cur where "cur = bytes_of buf start p"
    define ls1 where "ls1 = ls @ [cur] @ (if ovl then [overlong_warning] else [])"
    have cur: "cur = bytes_of buf start nxt @ bytes_of buf nxt p"
      using bytes_of_split [of start nxt p buf] less.prems(1) p(1) by (simp add: cur_def)
    have "p - start \<le> length buf - start" using p(2) less.prems(3) by (simp add: diff_le_mono)
    then have loop: "line_loop record_line buf start nxt fin ovl ls =
        line_loop record_line buf (p + 1) (p + 1) fin False ls1"
      using Some eq p less.prems by (simp add: record_line_def ls1_def cur_def)
    have "bytes_of buf p fin = 10 # bytes_of buf (p + 1) fin"
    proof -
      have "p < length buf" using p(2) less.prems(3) by simp
      then have "drop p buf = 10 # drop (p + 1) buf" using p(3) by (simp add: Cons_nth_drop_Suc [symmetric])
      moreover obtain k where "fin - p = Suc k" "fin - (p + 1) = k"
        using p(2) by (metis Suc_diff_Suc diff_Suc_eq_diff_pred add.commute diff_diff_add plus_1_eq_Suc diff_Suc_1)
      ultimately show ?thesis by simp
    qed
    then have "bytes_of buf nxt fin = bytes_of buf nxt p @ 10 # bytes_of buf (p + 1) fin"
      using bytes_of_split [of nxt p fin buf] p by simp
    then have ref: "split_ref (bytes_of buf start nxt) ovl (bytes_of buf nxt fin @ rest) =
        cur # (if ovl then [overlong_warning] else []) @ split_ref [] False (bytes_of buf (p + 1) fin @ rest)"
      using p less.prems cur by (simp add: split_ref_newline)
    have "fin - (p + 1) < fin - nxt" using p(1,2) by simp
    then obtain s ovl' ls' where "line_loop record_line buf (p + 1) (p + 1) fin False ls1 = Some (s, ovl', ls')"
      "s \<le> fin" "10 \<notin> set (bytes_of buf s fin)"
      "ls' @ split_ref (bytes_of buf s fin) ovl' rest =
        ls1 @ split_ref (bytes_of buf (p + 1) (p + 1)) False (bytes_of buf (p + 1) fin @ rest)"
      using less.hyps [of "p + 1" "p + 1" False ls1] p less.prems by auto
    then show ?thesis unfolding loop using ref by (simp add: ls1_def)
  qed
qed

text \<open>The invariant of the outer loop: the lines so far and the reference on what is left.\<close>

definition lb_ok :: "line_buf \<Rightarrow> bool" where
  "lb_ok lb \<longleftrightarrow> length (lbuf lb) = MAX_LINE_LENGTH \<and> used lb \<le> MAX_LINE_LENGTH \<and>
     10 \<notin> set (take (used lb) (lbuf lb))"

definition lb_rest :: "line_buf \<Rightarrow> byte list \<Rightarrow> cstr list" where
  "lb_rest lb inp = split_ref (take (used lb) (lbuf lb)) (overlong lb) inp"

lemma flush_full_record:
  assumes "lb_ok lb"
  obtains lb' ls' where "flush_full record_line lb ls = Some (lb', ls')" "lb_ok lb'"
    "used lb' < MAX_LINE_LENGTH" "ls' @ lb_rest lb' inp = ls @ lb_rest lb inp"
proof (cases "used lb = MAX_LINE_LENGTH")
  case False
  then show thesis using that [of lb ls] assms by (simp add: flush_full_def lb_ok_def)
next
  case True
  then have "flush_full record_line lb ls =
      Some (lb\<lparr>overlong := True, used := 0\<rparr>, ls @ [take (used lb) (lbuf lb)])"
    using assms by (simp add: flush_full_def record_line_def lb_ok_def)
  moreover have "lbuf lb \<noteq> []" "take 768 (lbuf lb) = lbuf lb" "length (lbuf lb) = 768"
    using assms by (auto simp: lb_ok_def)
  ultimately show thesis
    using that True by (cases inp) (simp_all add: lb_ok_def lb_rest_def Let_def)
qed

lemma got_bytes_record:
  assumes "lb_ok lb" "used lb + length bs \<le> MAX_LINE_LENGTH"
  obtains lb' ls' where "got_bytes record_line bs lb ls = Some (lb', ls')" "lb_ok lb'"
    "ls' @ lb_rest lb' inp = ls @ lb_rest lb (bs @ inp)"
proof -
  define buf where "buf = take (used lb) (lbuf lb) @ bs @ drop (used lb + length bs) (lbuf lb)"
  define fin where "fin = used lb + length bs"
  have buf: "arr_put (lbuf lb) (used lb) bs = Some buf" "length buf = MAX_LINE_LENGTH"
    "bytes_of buf 0 (used lb) = take (used lb) (lbuf lb)" "bytes_of buf (used lb) fin = bs"
    using assms by (simp_all add: buf_def lb_ok_def carr_simps fin_def)
  obtain s ovl' ls' where l: "line_loop record_line buf 0 (used lb) fin (overlong lb) ls = Some (s, ovl', ls')"
    "s \<le> fin" "10 \<notin> set (bytes_of buf s fin)"
    "ls' @ split_ref (bytes_of buf s fin) ovl' inp = ls @ lb_rest lb (bs @ inp)"
    using line_loop_record [of 0 "used lb" fin buf "overlong lb" ls inp] buf assms
    by (auto simp: fin_def lb_ok_def lb_rest_def)
  define buf' where "buf' = bytes_of buf s fin @ drop (fin - s) buf"
  have b': "arr_put buf 0 (bytes_of buf s fin) = Some buf'" "length buf' = MAX_LINE_LENGTH"
    "take (fin - s) buf' = bytes_of buf s fin"
    using l(2) buf(2) assms(2) by (simp_all add: arr_put_def buf'_def fin_def)
  have "got_bytes record_line bs lb ls = Some (\<lparr>lbuf = buf', used = fin - s, overlong = ovl'\<rparr>, ls')"
    using buf(1) l(1) b'(1) by (simp add: got_bytes_def fin_def)
  then show thesis
    using that b' l assms(2) by (simp add: lb_ok_def lb_rest_def fin_def)
qed

fun ready_count :: "event list \<Rightarrow> nat" where
  "ready_count [] = 0"
| "ready_count (Ready k # es) = Suc (ready_count es)"
| "ready_count (e # es) = ready_count es"

lemma read_loop_record:
  assumes "lb_ok lb" "Read_Error \<notin> set es"
  shows "(\<exists>lb' inp' ls'. read_loop record_ops es inp lb ls = Some (Running lb' inp' ls') \<and>
        lb_ok lb' \<and> ls' @ lb_rest lb' inp' = ls @ lb_rest lb inp \<and> ready_count es \<le> length inp) \<or>
     read_loop record_ops es inp lb ls = Some (Exited 0 (ls @ lb_rest lb inp))"
  using assms
proof (induction es arbitrary: inp lb ls)
  case Nil
  then show ?case by simp
next
  case (Cons e es)
  note [simp] = record_ops_def
  obtain lb1 ls1 where f: "flush_full record_line lb ls = Some (lb1, ls1)" "lb_ok lb1"
    "used lb1 < MAX_LINE_LENGTH" "ls1 @ lb_rest lb1 inp = ls @ lb_rest lb inp"
    using flush_full_record [OF Cons.prems(1), of ls inp] by blast
  show ?case
  proof (cases e)
    case (Ready k)
    show ?thesis
    proof (cases "inp = []")
      case True
      have "read_loop record_ops (e # es) inp lb ls = Some (Exited 0 (ls1 @ lb_rest lb1 inp))"
        using True Ready f(1,2,3) by (auto simp: record_line_def lb_rest_def lb_ok_def)
      then show ?thesis using f(4) by simp
    next
      case False
      define got where "got = min (MAX_LINE_LENGTH - used lb1) (Suc k)"
      have got: "0 < got" "used lb1 + length (take got inp) \<le> MAX_LINE_LENGTH"
        using f(3) by (auto simp: got_def)
      obtain lb2 ls2 where g: "got_bytes record_line (take got inp) lb1 ls1 = Some (lb2, ls2)" "lb_ok lb2"
        "ls2 @ lb_rest lb2 (drop got inp) = ls1 @ lb_rest lb1 inp"
        using got_bytes_record [OF f(2) got(2), of ls1 "drop got inp"] by auto
      have step: "read_loop record_ops (e # es) inp lb ls = read_loop record_ops es (drop got inp) lb2 ls2"
        using Ready False f(1) g(1) by (simp add: got_def [symmetric])
      have "length (drop got inp) < length inp" using got(1) False by (cases inp) auto
      then show ?thesis
        using Cons.IH [OF g(2), of "drop got inp" ls2] Cons.prems(2) Ready f(4) g(3)
        unfolding step by (auto simp: Suc_le_eq)
    qed
  next
    case Read_Retry
    then show ?thesis
      using Cons.IH [OF f(2), of inp ls1] Cons.prems(2) f(1,4) by auto
  next
    case Read_Error
    then show ?thesis using Cons.prems(2) by simp
  next
    case (Signal s)
    then show ?thesis using Cons.IH [OF Cons.prems(1), of inp ls] Cons.prems(2) by auto
  qed
qed

section \<open>Cleaning\<close>

definition clean :: "byte list \<Rightarrow> bool" where
  "clean s \<longleftrightarrow> \<not> list_ex is_control s"

lemma clean_simps [simp]:
  "clean []" "clean (c # s) \<longleftrightarrow> (32 \<le> c \<or> c = 10) \<and> clean s" "clean (s @ r) \<longleftrightarrow> clean s \<and> clean r"
  by (auto simp: clean_def)

lemma clean_replicate [simp]: "32 \<le> c \<Longrightarrow> clean (replicate n c)"
  by (induction n) auto

lemma tab_fill_eq: "tab_fill out = out @ replicate (8 - length out mod 8) 32"
proof (induction out rule: tab_fill.induct)
  case (1 out)
  show ?case
  proof (cases "Suc (length out) mod 8 = 0")
    case True
    then have "length out mod 8 = 7" by (simp add: mod_Suc split: if_splits)
    then show ?thesis using True by (subst tab_fill.simps) (simp add: Let_def)
  next
    case False
    then have "Suc (length out) mod 8 = Suc (length out mod 8)" "length out mod 8 < 7"
      by (simp_all add: mod_Suc split: if_splits)
    then have "8 - length out mod 8 = Suc (8 - Suc (length out) mod 8)" by simp
    then show ?thesis using False 1 by (subst tab_fill.simps) (simp add: Let_def)
  qed
qed

lemma fix_loop_length: "length (fix_loop inp out) \<le> length out + 8 * length inp"
proof (induction inp out rule: fix_loop.induct)
  case (2 c inp out)
  have "length (tab_fill out) \<le> length out + 8" by (simp add: tab_fill_eq)
  then show ?case using 2 by (auto simp: lit_def)
qed simp

lemma hex_digit_clean: "n < 16 \<Longrightarrow> 32 \<le> hex_digit n"
proof -
  assume "n < 16"
  then have "unat (hex_digit n) = (if n < 10 then 48 + n else 87 + n)"
    by (simp add: hex_digit_def unsigned_of_nat take_bit_nat_eq_self_iff del: of_nat_add)
  then show ?thesis by (simp add: word_le_nat_alt split: if_splits)
qed

lemma hex_fixed_clean [simp]: "clean (hex_fixed w n)"
  by (induction w arbitrary: n) (simp_all add: hex_digit_clean)

lemma fix_loop_clean: "clean out \<Longrightarrow> clean (fix_loop inp out)"
  by (induction inp out rule: fix_loop.induct) (simp_all add: tab_fill_eq lit_def)

lemma fix_loop_id: "clean inp \<Longrightarrow> fix_loop inp out = out @ inp"
  by (induction inp arbitrary: out) auto

lemma clean_nul_free: "clean s \<Longrightarrow> nul_free s"
  by (induction s) auto

text \<open>
  Cleaning: \<open>fix_buf\<close> never writes outside its block of \<open>8 * len + 1\<close> bytes; its result is
  a string without control characters (newline apart), of at most \<open>8 * len\<close> bytes, and equal to the
  input when that had none.
\<close>
lemma fix_buf_clean:
  "\<exists>p st'. fix_buf inp st = Some (p, st') \<and>
    (\<forall>out. p = Some out \<longrightarrow> out = cstr_of out @ [0] \<and> clean (cstr_of out) \<and>
       length (cstr_of out) \<le> 8 * length inp \<and>
       (clean inp \<longrightarrow> cstr_of out = inp)) \<and>
    (lmallocs st = [] \<longrightarrow> p \<noteq> None)"
proof -
  define s where "s = fix_loop inp []"
  have c: "clean s" using fix_loop_clean [of "[]" inp] by (simp add: s_def)
  have len: "length s \<le> 8 * length inp" using fix_loop_length [of inp "[]"] by (simp add: s_def)
  have "cstr_of (s @ [0]) = s" using clean_nul_free [OF c] by (rule cstr_of_nul_free)
  then show ?thesis
    using c len fix_loop_id [of inp "[]"]
    by (cases "lmallocs st")
      (auto simp: fix_buf_def logos_malloc_def s_def [symmetric] Let_def split: bool.splits)
qed

text \<open>
  Claim C8. The lines do not depend on how the input arrives: whatever sizes the reads return and
  however signals and interrupted reads come in between, the pieces handed to \<open>flush\<close> until the end
  of the input are those of cutting the input byte by byte at newlines and after 768 bytes, with
  the warning after an overlong line; no access leaves the line buffer, and the loop ends once it
  has met more reads than the input has bytes.
\<close>
theorem lines_independent_of_reads:
  assumes "length (lbuf lb) = MAX_LINE_LENGTH" "used lb = 0" "\<not> overlong lb" "Read_Error \<notin> set es"
    "length stdin < ready_count es"
  shows "read_loop record_ops es stdin lb [] = Some (Exited 0 (split_ref [] False stdin))"
proof -
  have "lb_ok lb" using assms(1,2) by (simp add: lb_ok_def)
  from read_loop_record [OF this assms(4), of stdin "[]"] show ?thesis
    using assms(2,3,5) by (auto simp: lb_rest_def)
qed

theorem lines_independent_of_reads_witness:
  "read_loop record_ops [Ready 0, Signal SIGHUP, Ready 5, Read_Retry, Ready 1, Ready 0, Ready 9]
     [65, 10, 66, 10] \<lparr>lbuf = replicate 768 0, used = 0, overlong = False\<rparr> [] =
   Some (Exited 0 (split_ref [] False [65, 10, 66, 10]))"
  by (rule lines_independent_of_reads) simp_all

definition sample_logos :: logos_state where
  "sample_logos = \<lparr>buckets = init_buckets 1000 90000 buckets_init, debug = 1, want_unlimited_mode = False,
     unlimited_mode = False, last_add_time = 0, skipping = False, backoff = 5000,
     header = lit ''<x>fac: '', clk = (\<lambda>i. min (1000 * int i + 1) (10 ^ 9)), ticks = 0, lmallocs = [], writevs = [],
     written = [], errs = []\<rparr>"

section \<open>Levels\<close>

text \<open>Memory on which the comparison with the level prefixes stops.\<close>

definition stops :: "byte list \<Rightarrow> bool" where
  "stops m \<longleftrightarrow> 9 \<le> length m \<or> 0 \<in> set m \<or> 10 \<in> set m"

lemma startswith_defined:
  "length p \<le> length m \<or> (\<exists>b \<in> set m. to_lower b \<notin> to_lower ` set p) \<Longrightarrow> \<exists>r. startswith m p = Some r"
  by (induction m p rule: startswith.induct) auto

lemma starts_any_defined:
  assumes "stops m"
    "\<forall>p \<in> set ps. length p \<le> 9 \<and> 0 \<notin> to_lower ` set (lit p) \<and> 10 \<notin> to_lower ` set (lit p)"
  shows "starts_any m ps \<noteq> None"
  using assms(2)
proof (induction ps)
  case Nil
  then show ?case by simp
next
  case (Cons p ps)
  have lw: "to_lower 0 = 0" "to_lower 10 = 10" by (simp_all add: to_lower_def)
  have "length (lit p) \<le> length m \<or> (\<exists>b \<in> set m. to_lower b \<notin> to_lower ` set (lit p))"
    using assms(1) Cons.prems lw by (force simp: stops_def lit_def)
  from startswith_defined [OF this] obtain r where "startswith m (lit p) = Some r" by blast
  then show ?case using Cons by (cases r) auto
qed

lemma level_of_defined:
  assumes "stops m"
  shows "\<exists>l \<in> {50, 51, 52, 53, 54, 55}. level_of m = Some l"
proof -
  have "starts_any m [''weird:'', ''fatal:'', ''critical:''] \<noteq> None"
    "starts_any m [''e:'', ''error:''] \<noteq> None" "starts_any m [''w:'', ''warning:''] \<noteq> None"
    "starts_any m [''n:'', ''notice:''] \<noteq> None" "starts_any m [''i:'', ''info:''] \<noteq> None"
    by (rule starts_any_defined [OF assms]; simp add: lit_def to_lower_def)+
  then obtain r2 r3 r4 r5 r6 where
    "starts_any m [''weird:'', ''fatal:'', ''critical:''] = Some r2"
    "starts_any m [''e:'', ''error:''] = Some r3" "starts_any m [''w:'', ''warning:''] = Some r4"
    "starts_any m [''n:'', ''notice:''] = Some r5" "starts_any m [''i:'', ''info:''] = Some r6"
    by blast
  then show ?thesis
    unfolding level_of_def
    by (cases r2; cases r3; cases r4; cases r5; cases r6) (simp_all del: starts_any.simps)
qed

lemma stops_nul: "stops (s @ [0])"
  by (simp add: stops_def)

section \<open>Invariant\<close>

definition header_ok :: "cstr \<Rightarrow> logos_state \<Rightarrow> bool" where
  "header_ok fac st \<longleftrightarrow> clean fac \<and>
     (\<exists>x. 32 \<le> x \<and> header st = [60, x, 62] @ fac @ [58, 32])"

text \<open>A line as it is meant to be written: level, facility, cleaned text, newline.\<close>

definition line_ok :: "cstr \<Rightarrow> byte list \<Rightarrow> bool" where
  "line_ok fac l \<longleftrightarrow> (\<exists>lvl \<in> {50, 51, 52, 53, 54, 55}. \<exists>text. clean text \<and>
     l = [60, lvl, 62] @ fac @ [58, 32] @ text @ [10])"

definition bucket_ok :: "Bucket \<Rightarrow> bool" where
  "bucket_ok b \<longleftrightarrow> 0 \<le> max_bytes b \<and> max_bytes b \<le> 10 ^ 9 \<and> 0 \<le> fill_rate b \<and> fill_rate b \<le> 2 * 10 ^ 6 \<and>
     available b \<le> max_bytes b \<and>
     0 \<le> num_skipped b \<and> clean (lit (msg_start b)) \<and> clean (lit (msg_end b))"

text \<open>The clock shows a time within 139 years of its start.\<close>

definition clock_ok :: "(nat \<Rightarrow> int) \<Rightarrow> bool" where
  "clock_ok c \<longleftrightarrow> (\<forall>n. 0 \<le> c n \<and> c n < 2 ^ 42)"

definition logos_inv :: "cstr \<Rightarrow> logos_state \<Rightarrow> bool" where
  "logos_inv fac st \<longleftrightarrow> header_ok fac st \<and> clock_ok (clk st) \<and> 0 \<le> last_add_time st \<and> length (buckets st) = 3 \<and> list_all bucket_ok (buckets st) \<and>
     0 < backoff st \<and> backoff st \<le> 120000 \<and> list_all (line_ok fac) (written st)"

lemma dec_nat_clean [simp]: "clean (dec_nat n)"
proof -
  have "list_all is_digit s \<Longrightarrow> clean s" for s
    by (induction s) (auto simp: is_digit_def word_le_nat_alt)
  then show ?thesis using dec_nat_digits by blast
qed

lemma dec_int_clean [simp]: "clean (dec_int n)"
  by (simp add: dec_int_def lit_def)

lemma fmt_d_clean [simp]: "clean (lit s) \<Longrightarrow> clean (fmt_d s n)"
  by (induction s n rule: fmt_d.induct) (auto simp: lit_def)

lemma flush_unlimited_ok:
  assumes "logos_inv fac st" "stops buf" "len \<le> length buf" "clean (take len buf)"
  obtains st' where "flush_unlimited buf len st = Some st'" "logos_inv fac st'"
    "buckets st' = buckets st" "last_add_time st' = last_add_time st" "skipping st' = skipping st"
    "backoff st' = backoff st" "unlimited_mode st' = unlimited_mode st" "clk st' = clk st"
    "ticks st' = ticks st" "length (header st') = length (header st)"
    "want_unlimited_mode st' = want_unlimited_mode st"
    "\<exists>h. length h = length (header st) \<and> written st' = written st @ [h @ take len buf @ [10]]"
proof -
  obtain x where h: "clean fac" "header st = [60, x, 62] @ fac @ [58, 32]"
    using assms(1) by (auto simp: logos_inv_def header_ok_def)
  obtain lvl where l: "lvl \<in> {50, 51, 52, 53, 54, 55}" "level_of buf = Some lvl"
    using level_of_defined [OF assms(2)] by blast
  have hdr: "(header st)[1 := lvl] = [60, lvl, 62] @ fac @ [58, 32]" by (simp add: h)
  have "32 \<le> lvl" using l(1) by auto
  define st1 where "st1 = st\<lparr>header := [60, lvl, 62] @ fac @ [58, 32],
    written := written st @ [([60, lvl, 62] @ fac @ [58, 32]) @ take len buf @ [10]],
    writevs := tl (writevs st)\<rparr>"
  have inv: "logos_inv fac st1"
    using assms(1,4) h(1) l(1) \<open>32 \<le> lvl\<close>
    by (auto simp: logos_inv_def st1_def header_ok_def line_ok_def)
  define tot where "tot = int (length ([60, lvl, 62] @ fac @ [58, 32 :: byte]) + len + 1)"
  define wrote where "wrote = (case writevs st of [] \<Rightarrow> tot | w # ws \<Rightarrow> w)"
  have "flush_unlimited buf len st = Some (report_writev tot wrote st1)"
    using h l(2) hdr assms(3)
    by (simp add: flush_unlimited_def st1_def tot_def wrote_def Let_def split: list.split)
  moreover have r: "report_writev tot wrote st1 = st1\<lparr>errs := errs (report_writev tot wrote st1)\<rparr>"
    by (simp add: report_writev_def err_print_def)
  ultimately show thesis
    using inv that [of "report_writev tot wrote st1"]
    by (simp add: report_writev_def err_print_def logos_inv_def header_ok_def st1_def h split: if_splits)
qed

text \<open>The notices about a limit: behind a header of \<open>h\<close> bytes, one of the messages with a number.\<close>

definition msgs :: "logos_state \<Rightarrow> (string \<times> string) list" where
  "msgs st = map (\<lambda>b. (msg_start b, msg_end b)) (buckets st)"

definition notice :: "nat \<Rightarrow> (string \<times> string) list \<Rightarrow> byte list \<Rightarrow> bool" where
  "notice h ms l \<longleftrightarrow> (\<exists>m \<in> set ms. \<exists>n. drop h l = fmt_d (fst m) n @ [10] \<or> drop h l = fmt_d (snd m) n @ [10])"

definition notices_only :: "logos_state \<Rightarrow> logos_state \<Rightarrow> bool" where
  "notices_only st st' \<longleftrightarrow> msgs st' = msgs st \<and>
     (\<exists>out. written st' = written st @ out \<and> list_all (notice (length (header st)) (msgs st)) out)"

lemma notices_only_refl: "msgs st' = msgs st \<Longrightarrow> written st' = written st \<Longrightarrow> notices_only st st'"
  by (auto simp: notices_only_def)

lemma notices_only_trans:
  "notices_only a b \<Longrightarrow> notices_only b c \<Longrightarrow> length (header b) = length (header a) \<Longrightarrow> notices_only a c"
  by (auto simp: notices_only_def)

text \<open>What does not change when a notice is written.\<close>

definition same_time :: "logos_state \<Rightarrow> logos_state \<Rightarrow> bool" where
  "same_time st st' \<longleftrightarrow> last_add_time st' = last_add_time st \<and> unlimited_mode st' = unlimited_mode st \<and>
     want_unlimited_mode st' = want_unlimited_mode st \<and> clk st' = clk st \<and> ticks st' = ticks st \<and>
     length (header st') = length (header st) \<and> notices_only st st'"

definition same_bucket :: "Bucket \<Rightarrow> Bucket \<Rightarrow> bool" where
  "same_bucket b b' \<longleftrightarrow> max_bytes b' = max_bytes b \<and> fill_rate b' = fill_rate b \<and> btype b' = btype b"

lemma same_time_refl [simp]: "same_time st st" and same_bucket_refl [simp]: "same_bucket b b"
  by (simp_all add: same_time_def same_bucket_def notices_only_refl)

lemma same_time_trans: "same_time a b \<Longrightarrow> same_time b c \<Longrightarrow> same_time a c"
  by (auto simp: same_time_def intro: notices_only_trans)

lemma same_time_update:
  assumes "same_time st st'" "msgs st'' = msgs st'" "written st'' = written st'" "last_add_time st'' = last_add_time st'"
    "unlimited_mode st'' = unlimited_mode st'" "want_unlimited_mode st'' = want_unlimited_mode st'"
    "clk st'' = clk st'" "ticks st'' = ticks st'" "header st'' = header st'"
  shows "same_time st st''"
  using assms by (simp add: same_time_def notices_only_def)

text \<open>The effect of a line of \<open>tot\<close> bytes on one bucket: it passes, or the bucket refuses it.\<close>

definition room_effect :: "bool \<Rightarrow> int \<Rightarrow> Bucket \<Rightarrow> Bucket \<Rightarrow> bool \<Rightarrow> bool \<Rightarrow> bool" where
  "room_effect unl tot b b' a ok \<longleftrightarrow> same_bucket b b' \<and>
     (if tot \<le> available b \<or> unl then ok = a \<and> available b' = available b - tot
      else ok = (btype b \<noteq> BT_MANDATORY \<and> a) \<and> (available b' = available b \<or> available b' = 0))"

lemma logos_inv_bucket:
  assumes "logos_inv fac st" "bucket_ok b" "i < 3"
  shows "logos_inv fac (st\<lparr>buckets := (buckets st)[i := b]\<rparr>)"
  using assms by (auto simp: logos_inv_def header_ok_def list_all_iff dest!: set_update_subset_insert [THEN subsetD])

lemma bucket_room_ok:
  assumes inv: "logos_inv fac st" and i: "i < 3" and tot: "0 \<le> tot"
  obtains ok ns st' where "bucket_room i tot (a, n, st) = Some (ok, ns, st')" "logos_inv fac st'"
    "same_time st st'" "skipping st' = skipping st"
    "\<forall>j. j \<noteq> i \<longrightarrow> buckets st' ! j = buckets st ! j"
    "room_effect (unlimited_mode st) tot (buckets st ! i) (buckets st' ! i) a ok"
proof -
  let ?b = "buckets st ! i"
  have b: "bucket_ok ?b" "i < length (buckets st)"
    using inv i by (auto simp: logos_inv_def list_all_length)
  have mset: "(msg_start ?b, msg_end ?b) \<in> set (msgs st)" using b(2) by (auto simp: msgs_def)
  have upd: "msgs (s1\<lparr>buckets := (buckets st)[i := b']\<rparr>) = msgs st"
    if "msg_start b' = msg_start ?b" "msg_end b' = msg_end ?b" for s1 b'
    using that b(2) by (simp add: msgs_def map_update list_update_same_conv)
  have msg: "\<exists>s1. flush_unlimited (s @ [0]) (length s) st = Some s1 \<and> logos_inv fac s1 \<and>
      buckets s1 = buckets st \<and> same_time st s1 \<and> skipping s1 = skipping st"
    if "clean s" "s = fmt_d (msg_start ?b) k \<or> s = fmt_d (msg_end ?b) k" for s k
  proof -
    obtain s1 h where f: "flush_unlimited (s @ [0]) (length s) st = Some s1" "logos_inv fac s1"
      "buckets s1 = buckets st" "last_add_time s1 = last_add_time st" "skipping s1 = skipping st"
      "unlimited_mode s1 = unlimited_mode st" "clk s1 = clk st" "ticks s1 = ticks st"
      "length (header s1) = length (header st)" "want_unlimited_mode s1 = want_unlimited_mode st"
      "length h = length (header st)" "written s1 = written st @ [h @ s @ [10]]"
      by (rule flush_unlimited_ok [OF inv stops_nul, of "length s" s]) (use \<open>clean s\<close> in auto)
    have "notice (length (header st)) (msgs st) (h @ s @ [10])"
      unfolding notice_def using mset that(2) f(11) by (intro bexI [OF _ mset] exI [of _ k]) auto
    then have "notices_only st s1" using f(3,12) by (simp add: notices_only_def msgs_def)
    then show ?thesis using f by (simp add: same_time_def)
  qed
  show thesis
  proof (cases "tot \<le> available ?b \<or> unlimited_mode st")
    case True
    obtain st1 where s: "(if num_skipped ?b \<noteq> 0 then
          (let tmp = fmt_d (msg_end ?b) (num_skipped ?b) in flush_unlimited (tmp @ [0]) (length tmp) st)
        else Some st) = Some st1" "logos_inv fac st1" "buckets st1 = buckets st" "same_time st st1"
        "skipping st1 = skipping st"
    proof (cases "num_skipped ?b \<noteq> 0")
      case True
      then show thesis
        using msg [of "fmt_d (msg_end ?b) (num_skipped ?b)" "num_skipped ?b"] b that
        by (auto simp: bucket_ok_def Let_def)
    next
      case False
      show thesis by (rule that [of st]) (use False inv in simp_all)
    qed
    define b' where "b' = ?b\<lparr>num_skipped := 0, available := available ?b - tot\<rparr>"
    have b': "bucket_ok b'" using b(1) tot by (simp add: bucket_ok_def b'_def)
    have "bucket_room i tot (a, n, st) = Some (a, n, st1\<lparr>buckets := (buckets st1)[i := b']\<rparr>)"
      using True s(1) by (simp add: bucket_room_def Let_def b'_def)
    moreover have "same_time st (st1\<lparr>buckets := (buckets st1)[i := b']\<rparr>)"
      using upd [of b' st1] s(3) by (intro same_time_update [OF s(4)]) (simp_all add: b'_def msgs_def)
    ultimately show thesis
      using that logos_inv_bucket [OF s(2) b' i] s(3,5) b(2) True
      by (simp add: room_effect_def b'_def same_bucket_def)
  next
    case False
    obtain b1 st1 where s: "(if num_skipped ?b = 0 then do {
          let tmp = fmt_d (msg_start ?b) (fill_rate ?b);
          st \<leftarrow> flush_unlimited (tmp @ [0]) (length tmp) st;
          let bo = (if \<not> n \<and> \<not> skipping st then backoff st * 2 else backoff st);
          Some (?b\<lparr>available := 0\<rparr>, st\<lparr>backoff := (if bo > 120000 then 120000 else bo)\<rparr>) }
        else Some (?b, st)) = Some (b1, st1)" "logos_inv fac st1" "buckets st1 = buckets st"
        "same_time st st1" "skipping st1 = skipping st" "b1 = ?b \<or> b1 = ?b\<lparr>available := 0\<rparr>"
    proof (cases "num_skipped ?b = 0")
      case True
      obtain s1 where s1: "flush_unlimited (fmt_d (msg_start ?b) (fill_rate ?b) @ [0])
          (length (fmt_d (msg_start ?b) (fill_rate ?b))) st = Some s1" "logos_inv fac s1"
          "buckets s1 = buckets st" "same_time st s1" "skipping s1 = skipping st"
        using msg [of "fmt_d (msg_start ?b) (fill_rate ?b)" "fill_rate ?b"] b(1) by (auto simp: bucket_ok_def)
      define bo where "bo = (if \<not> n \<and> \<not> skipping s1 then backoff s1 * 2 else backoff s1)"
      have "logos_inv fac (s1\<lparr>backoff := (if bo > 120000 then 120000 else bo)\<rparr>)"
        using s1(2) by (auto simp: logos_inv_def header_ok_def bo_def)
      moreover have "same_time st (s1\<lparr>backoff := (if bo > 120000 then 120000 else bo)\<rparr>)"
        by (intro same_time_update [OF s1(4)]) (simp_all add: msgs_def)
      ultimately show thesis
        using that [of "?b\<lparr>available := 0\<rparr>" "s1\<lparr>backoff := (if bo > 120000 then 120000 else bo)\<rparr>"] True s1
        by (simp add: bo_def)
    next
      case False
      show thesis by (rule that [of ?b st]) (use False inv in simp_all)
    qed
    define b' where "b' = b1\<lparr>num_skipped := num_skipped b1 + 1\<rparr>"
    have b': "bucket_ok b'" "same_bucket ?b b'" "available b' = available ?b \<or> available b' = 0" "btype b1 = btype ?b"
      using b(1) s(6) by (auto simp: bucket_ok_def b'_def same_bucket_def)
    have same: "same_time st (st1\<lparr>buckets := (buckets st1)[i := b']\<rparr>)"
      using upd [of b' st1] s(3,6) by (intro same_time_update [OF s(4)]) (auto simp: b'_def msgs_def)
    have "bucket_room i tot (a, n, st) = Some (btype ?b \<noteq> BT_MANDATORY \<and> a, True,
        st1\<lparr>buckets := (buckets st1)[i := b']\<rparr>)"
      using False s(1) b'(4) by (cases "btype ?b") (simp_all add: bucket_room_def Let_def b'_def)
    then show thesis
      using that logos_inv_bucket [OF s(2) b'(1) i] s(3,5) b(2) False b' same
      by (simp add: room_effect_def)
  qed
qed

lemma all_room_ok:
  assumes inv: "logos_inv fac st" and tot: "0 \<le> tot"
  obtains ok st' where "all_buckets_have_room tot st = Some (ok, st')" "logos_inv fac st'" "same_time st st'"
    "\<exists>a1 a2. room_effect (unlimited_mode st) tot (buckets st ! 0) (buckets st' ! 0) True a1 \<and>
       room_effect (unlimited_mode st) tot (buckets st ! 1) (buckets st' ! 1) a1 a2 \<and>
       room_effect (unlimited_mode st) tot (buckets st ! 2) (buckets st' ! 2) a2 ok"
proof -
  obtain a1 n1 s1 where 1: "bucket_room 0 tot (True, False, st) = Some (a1, n1, s1)" "logos_inv fac s1"
    "same_time st s1" "\<forall>j. j \<noteq> 0 \<longrightarrow> buckets s1 ! j = buckets st ! j"
    "room_effect (unlimited_mode st) tot (buckets st ! 0) (buckets s1 ! 0) True a1"
    by (rule bucket_room_ok [OF inv _ tot, of 0 True False]) (simp, rule that)
  obtain a2 n2 s2 where 2: "bucket_room 1 tot (a1, n1, s1) = Some (a2, n2, s2)" "logos_inv fac s2"
    "same_time s1 s2" "\<forall>j. j \<noteq> 1 \<longrightarrow> buckets s2 ! j = buckets s1 ! j"
    "room_effect (unlimited_mode s1) tot (buckets s1 ! 1) (buckets s2 ! 1) a1 a2"
    by (rule bucket_room_ok [OF 1(2) _ tot, of 1 a1 n1]) (simp, rule that)
  obtain a3 n3 s3 where 3: "bucket_room 2 tot (a2, n2, s2) = Some (a3, n3, s3)" "logos_inv fac s3"
    "same_time s2 s3" "\<forall>j. j \<noteq> 2 \<longrightarrow> buckets s3 ! j = buckets s2 ! j"
    "room_effect (unlimited_mode s2) tot (buckets s2 ! 2) (buckets s3 ! 2) a2 a3"
    by (rule bucket_room_ok [OF 2(2) _ tot, of 2 a2 n2]) (simp, rule that)
  show thesis
  proof (rule that [of a3 "s3\<lparr>skipping := n3\<rparr>"])
    show "all_buckets_have_room tot st = Some (a3, s3\<lparr>skipping := n3\<rparr>)"
      using 1(1) 2(1) 3(1) by (simp add: all_buckets_have_room_def)
    show "logos_inv fac (s3\<lparr>skipping := n3\<rparr>)" using 3(2) by (simp add: logos_inv_def header_ok_def)
    show "same_time st (s3\<lparr>skipping := n3\<rparr>)"
      by (rule same_time_update [OF same_time_trans [OF same_time_trans [OF 1(3) 2(3)] 3(3)]]) (simp_all add: msgs_def)
    show "\<exists>a1 a2. room_effect (unlimited_mode st) tot (buckets st ! 0) (buckets (s3\<lparr>skipping := n3\<rparr>) ! 0) True a1 \<and>
       room_effect (unlimited_mode st) tot (buckets st ! 1) (buckets (s3\<lparr>skipping := n3\<rparr>) ! 1) a1 a2 \<and>
       room_effect (unlimited_mode st) tot (buckets st ! 2) (buckets (s3\<lparr>skipping := n3\<rparr>) ! 2) a2 a3"
      using 1 2 3 by (intro exI [of _ a1] exI [of _ a2]) (simp add: same_time_def)
  qed
qed

text \<open>The refill: nothing is added, or what the elapsed time allows.\<close>

definition fill_effect :: "int \<Rightarrow> Bucket \<Rightarrow> Bucket \<Rightarrow> bool" where
  "fill_effect tdiff b b' \<longleftrightarrow> same_bucket b b' \<and> msg_start b' = msg_start b \<and> msg_end b' = msg_end b \<and>
     available b' = min (max_bytes b) (available b + tdiff * fill_rate b div 1000)"

lemma refill_ok:
  assumes "bucket_ok b" "0 \<le> tdiff" "tdiff < 2 ^ 42"
  obtains b' where "refill tdiff b = Some b'" "bucket_ok b'" "fill_effect tdiff b b'"
proof -
  have p: "0 \<le> tdiff * fill_rate b" using assms by (simp add: bucket_ok_def)
  have "tdiff * fill_rate b \<le> 2 ^ 42 * (2 * 10 ^ 6)"
    using assms by (intro mult_mono) (auto simp: bucket_ok_def)
  then have fits: "tdiff * fill_rate b < 2 ^ 63" by simp
  then have "tdiff * fill_rate b div 1000 < 2 ^ 62" by simp
  then have small: "fits64 (tdiff * fill_rate b)" "available b + tdiff * fill_rate b div 1000 < 2 ^ 63"
    using p fits assms(1) by (simp_all add: fits64_def bucket_ok_def)
  have e: "sgn (tdiff * fill_rate b) * (\<bar>tdiff * fill_rate b\<bar> div 1000) = tdiff * fill_rate b div 1000"
    using p by (auto simp: sgn_if)
  have "0 \<le> tdiff * fill_rate b div 1000" using p by simp
  then have "refill tdiff b =
      Some (b\<lparr>available := min (max_bytes b) (available b + tdiff * fill_rate b div 1000)\<rparr>)"
    unfolding refill_def Let_def e using small by (simp add: min_def)
  then show thesis
    using that assms(1) by (simp add: bucket_ok_def fill_effect_def same_bucket_def)
qed

lemma maybe_fill_ok:
  assumes inv: "logos_inv fac st"
  obtains st' where "maybe_fill_buckets st = Some st'" "logos_inv fac st'"
    "ticks st' = Suc (ticks st)" "clk st' = clk st" "unlimited_mode st' = unlimited_mode st"
    "length (header st') = length (header st)" "want_unlimited_mode st' = want_unlimited_mode st"
    "skipping st' = skipping st" "written st' = written st" "msgs st' = msgs st"
    "last_add_time st = 0 \<longrightarrow> last_add_time st' = clk st (ticks st) \<and>
       (\<forall>i < 3. same_bucket (buckets st ! i) (buckets st' ! i) \<and>
          available (buckets st' ! i) = max_bytes (buckets st ! i) div 2)"
    "last_add_time st \<noteq> 0 \<longrightarrow> buckets st' = buckets st \<and> last_add_time st' = last_add_time st \<or>
       last_add_time st' = clk st (ticks st) \<and> last_add_time st < clk st (ticks st) \<and>
       (\<forall>i < 3. fill_effect (clk st (ticks st) - last_add_time st) (buckets st ! i) (buckets st' ! i))"
proof -
  define now where "now = clk st (ticks st)"
  define tdiff where "tdiff = now - last_add_time st"
  have len: "length (buckets st) = 3" and b: "\<forall>i < 3. bucket_ok (buckets st ! i)"
    using inv by (auto simp: logos_inv_def list_all_length)
  consider (zero) "last_add_time st = 0"
    | (keep) "last_add_time st \<noteq> 0" "\<not> (\<not> skipping st \<and> tdiff \<ge> 1000 \<or> skipping st \<and> tdiff \<ge> backoff st)"
    | (fill) "last_add_time st \<noteq> 0" "\<not> skipping st \<and> tdiff \<ge> 1000 \<or> skipping st \<and> tdiff \<ge> backoff st"
    by blast
  then show thesis
  proof cases
    case zero
    have "list_all bucket_ok (map (\<lambda>b. b\<lparr>available := max_bytes b div 2\<rparr>) (buckets st))"
      using inv by (auto simp: logos_inv_def list_all_iff bucket_ok_def)
    then show thesis
      using zero inv that [of "st\<lparr>ticks := Suc (ticks st), last_add_time := now,
          buckets := map (\<lambda>b. b\<lparr>available := max_bytes b div 2\<rparr>) (buckets st)\<rparr>"] len
      by (simp add: maybe_fill_buckets_def mstime_def now_def logos_inv_def header_ok_def same_bucket_def clock_ok_def msgs_def o_def)
  next
    case keep
    then have "maybe_fill_buckets st = Some (st\<lparr>ticks := Suc (ticks st)\<rparr>)"
      by (auto simp: maybe_fill_buckets_def mstime_def now_def tdiff_def Let_def)
    then show thesis
      using inv that [of "st\<lparr>ticks := Suc (ticks st)\<rparr>"] keep(1)
      by (simp add: logos_inv_def header_ok_def msgs_def)
  next
    case fill
    have t: "0 < tdiff" "tdiff < 2 ^ 42" "0 \<le> now"
    proof -
      show "0 < tdiff" using fill(2) inv by (auto simp: logos_inv_def)
      have "now < 2 ^ 42" "0 \<le> now" using inv unfolding logos_inv_def clock_ok_def now_def by blast+
      then show "tdiff < 2 ^ 42" "0 \<le> now" using inv by (auto simp: logos_inv_def tdiff_def)
    qed
    obtain b0 b1 b2 where bs: "buckets st = [b0, b1, b2]"
      using len by (auto simp: numeral_eq_Suc length_Suc_conv)
    have ok: "bucket_ok b0" "bucket_ok b1" "bucket_ok b2" using b bs by (auto simp: numeral_eq_Suc)
    obtain c0 c1 c2 where c: "refill tdiff b0 = Some c0" "bucket_ok c0" "fill_effect tdiff b0 c0"
      "refill tdiff b1 = Some c1" "bucket_ok c1" "fill_effect tdiff b1 c1"
      "refill tdiff b2 = Some c2" "bucket_ok c2" "fill_effect tdiff b2 c2"
      using refill_ok [OF ok(1) _ t(2)] refill_ok [OF ok(2) _ t(2)] refill_ok [OF ok(3) _ t(2)] t(1) by (metis less_imp_le)
    define st' where "st' = st\<lparr>ticks := Suc (ticks st), buckets := [c0, c1, c2], last_add_time := now\<rparr>"
    have "maybe_fill_buckets st = Some st'"
      using fill c(1,4,7) bs
      by (simp add: maybe_fill_buckets_def mstime_def now_def tdiff_def Let_def st'_def)
    moreover have "logos_inv fac st'"
      using inv c(2,5,8) t(3) by (simp add: st'_def logos_inv_def header_ok_def)
    moreover have "msgs st' = msgs st" using c(3,6,9) bs by (simp add: msgs_def st'_def fill_effect_def)
    moreover have "\<forall>i < 3. fill_effect tdiff (buckets st ! i) (buckets st' ! i)"
      using c(3,6,9) bs by (auto simp: st'_def numeral_eq_Suc less_Suc_eq)
    ultimately show thesis
      using that [of st'] fill(1) t(1) by (simp add: st'_def tdiff_def now_def)
  qed
qed

lemma logos_inv_err [simp]: "logos_inv fac (err_print s st) = logos_inv fac st"
  by (simp add: err_print_def logos_inv_def header_ok_def)

lemma debug_frame:
  "buckets (if c then err_print s st else st) = buckets st"
  "last_add_time (if c then err_print s st else st) = last_add_time st"
  "unlimited_mode (if c then err_print s st else st) = unlimited_mode st"
  "clk (if c then err_print s st else st) = clk st" "ticks (if c then err_print s st else st) = ticks st"
  "length (header (if c then err_print s st else st)) = length (header st)"
  by (simp_all add: err_print_def)

lemma admit_ok:
  assumes inv: "logos_inv fac st" and tot: "0 \<le> tot"
  obtains st1 :: logos_state and ok st2 where "admit tot st = Some (ok, st2)" "logos_inv fac st2"
    "unlimited_mode st2 = unlimited_mode st" "clk st2 = clk st" "ticks st2 = Suc (ticks st)"
    "length (header st2) = length (header st)" "notices_only st st2" "last_add_time st2 = last_add_time st1"
    "last_add_time st \<noteq> 0 \<longrightarrow> buckets st1 = buckets st \<and> last_add_time st1 = last_add_time st \<or>
       last_add_time st1 = clk st (ticks st) \<and> last_add_time st < clk st (ticks st) \<and>
       (\<forall>i < 3. fill_effect (clk st (ticks st) - last_add_time st) (buckets st ! i) (buckets st1 ! i))"
    "\<exists>a1 a2. room_effect (unlimited_mode st) tot (buckets st1 ! 0) (buckets st2 ! 0) True a1 \<and>
       room_effect (unlimited_mode st) tot (buckets st1 ! 1) (buckets st2 ! 1) a1 a2 \<and>
       room_effect (unlimited_mode st) tot (buckets st1 ! 2) (buckets st2 ! 2) a2 ok"
proof -
  define st0 where "st0 = (if debug st \<noteq> 0 then err_print (debug_line tot st) st else st)"
  have inv0: "logos_inv fac st0" using inv by (simp add: st0_def)
  have fr: "buckets st0 = buckets st" "last_add_time st0 = last_add_time st"
    "unlimited_mode st0 = unlimited_mode st" "clk st0 = clk st" "ticks st0 = ticks st"
    "length (header st0) = length (header st)" "written st0 = written st" "msgs st0 = msgs st"
    unfolding st0_def by (simp_all add: debug_frame) (simp_all add: err_print_def msgs_def)
  obtain st1 where 1: "maybe_fill_buckets st0 = Some st1" "logos_inv fac st1"
    "ticks st1 = Suc (ticks st)" "clk st1 = clk st" "unlimited_mode st1 = unlimited_mode st"
    "length (header st1) = length (header st)" "written st1 = written st" "msgs st1 = msgs st"
    "last_add_time st \<noteq> 0 \<longrightarrow> buckets st1 = buckets st \<and> last_add_time st1 = last_add_time st \<or>
       last_add_time st1 = clk st (ticks st) \<and> last_add_time st < clk st (ticks st) \<and>
       (\<forall>i < 3. fill_effect (clk st (ticks st) - last_add_time st) (buckets st ! i) (buckets st1 ! i))"
    by (rule maybe_fill_ok [OF inv0, unfolded fr]) (rule that)
  obtain ok st2 where 2: "all_buckets_have_room tot st1 = Some (ok, st2)" "logos_inv fac st2" "same_time st1 st2"
    "\<exists>a1 a2. room_effect (unlimited_mode st1) tot (buckets st1 ! 0) (buckets st2 ! 0) True a1 \<and>
       room_effect (unlimited_mode st1) tot (buckets st1 ! 1) (buckets st2 ! 1) a1 a2 \<and>
       room_effect (unlimited_mode st1) tot (buckets st1 ! 2) (buckets st2 ! 2) a2 ok"
    by (rule all_room_ok [OF 1(2) tot])
  have "admit tot st = Some (ok, st2)" using 1(1) 2(1) by (simp add: admit_def st0_def Let_def)
  moreover have "notices_only st st2"
    using 2(3) 1(6-8) notices_only_trans [OF notices_only_refl [of st1 st]] by (simp add: same_time_def)
  ultimately show thesis
    using that [of ok st2 st1] 1 2 by (simp add: same_time_def)
qed

lemma flush_ratelimited_ok:
  assumes inv: "logos_inv fac st" and buf: "stops buf" "len \<le> length buf" "clean (take len buf)"
  shows "\<exists>st'. flush_ratelimited buf len st = Some st' \<and> logos_inv fac st'"
proof -
  obtain ok st2 where 2: "admit (int (length (header st) + len + 1)) st = Some (ok, st2)" "logos_inv fac st2"
    by (rule admit_ok [OF inv, of "int (length (header st) + len + 1)"]) simp_all
  have "\<exists>st3. flush_unlimited buf len st2 = Some st3 \<and> logos_inv fac st3"
    by (rule flush_unlimited_ok [OF 2(2) buf]) (intro exI conjI)
  then show ?thesis using 2 by (auto simp: flush_ratelimited_def)
qed

lemma flush_ok:
  assumes inv: "logos_inv fac st" and buf: "stops buf" "len \<le> length buf"
  shows "\<exists>st'. flush buf len st = Some st' \<and> logos_inv fac st'"
proof (cases "clean (take len buf)")
  case True
  then show ?thesis
    using flush_ratelimited_ok [OF inv buf True] buf(2) by (auto simp: flush_def clean_def)
next
  case False
  define s where "s = fix_loop (take len buf) []"
  have s: "clean s" "length s \<le> 8 * length (take len buf)" "cstr_of (s @ [0]) = s"
    using fix_loop_clean [of "[]" "take len buf"] fix_loop_length [of "take len buf" "[]"]
    by (auto simp: s_def intro!: cstr_of_nul_free clean_nul_free)
  obtain ok ms where m: "logos_malloc st = (ok, st\<lparr>lmallocs := ms\<rparr>)"
    by (cases "lmallocs st") (auto simp: logos_malloc_def intro: that [of True "lmallocs st"])
  have inv1: "logos_inv fac (st\<lparr>lmallocs := ms\<rparr>)" using inv by (simp add: logos_inv_def header_ok_def)
  have "flush buf len st = (if ok then flush_ratelimited (s @ [0]) (length s) (st\<lparr>lmallocs := ms\<rparr>)
      else Some (err_print (lit ''logos: allocating memory: error'' @ [10]) (st\<lparr>lmallocs := ms\<rparr>)))"
    using False buf(2) m s(2,3)
    by (auto simp: flush_def clean_def fix_buf_def s_def [symmetric] Let_def)
  then show ?thesis
    using inv1 flush_ratelimited_ok [OF inv1 stops_nul, of "length s" s] s(1) by auto
qed

lemma mode_switch_ok:
  assumes "logos_inv fac st"
  shows "\<exists>st'. mode_switch st = Some st' \<and> logos_inv fac st'"
proof (cases "unlimited_mode st = want_unlimited_mode st")
  case True
  then show ?thesis using assms by (simp add: mode_switch_def)
next
  case False
  define st1 where "st1 = st\<lparr>unlimited_mode := want_unlimited_mode st, last_add_time := 0\<rparr>"
  define msg where "msg = (if want_unlimited_mode st then lit ''W: SIGUSR1: rate limit disabled.''
    else lit ''W: SIGUSR2: rate limit re-enabled.'')"
  have "logos_inv fac st1" using assms by (simp add: st1_def logos_inv_def header_ok_def)
  moreover have "clean msg" by (simp add: msg_def lit_def)
  ultimately have "\<exists>st'. flush_unlimited (msg @ [0]) (length msg) st1 = Some st' \<and> logos_inv fac st'"
    using flush_unlimited_ok [of fac st1 "msg @ [0]" "length msg"] stops_nul by auto
  then show ?thesis using False by (simp add: mode_switch_def st1_def msg_def Let_def)
qed

section \<open>The contract between the loop and the filter\<close>

definition lb_safe :: "line_buf \<Rightarrow> bool" where
  "lb_safe lb \<longleftrightarrow> length (lbuf lb) = MAX_LINE_LENGTH \<and> used lb \<le> MAX_LINE_LENGTH"

text \<open>
  The loop relies on a filter that accepts every line it can pass: memory that ends a comparison and
  a length inside it. In return it never passes anything else.
\<close>

locale line_sink =
  fixes ops :: "'s loop_ops" and inv :: "'s \<Rightarrow> bool"
  assumes flush_safe: "inv st \<Longrightarrow> stops buf \<Longrightarrow> len \<le> length buf \<Longrightarrow>
      \<exists>st'. lo_flush ops buf len st = Some st' \<and> inv st'"
    and top_safe: "inv st \<Longrightarrow> \<exists>st'. lo_top ops st = Some st' \<and> inv st'"
    and signal_safe: "inv st \<Longrightarrow> inv (lo_signal ops s st)"
begin

lemma line_loop_safe:
  assumes "inv st" "start \<le> nxt" "nxt \<le> fin" "fin \<le> length buf"
  shows "\<exists>s ovl' st'. line_loop (lo_flush ops) buf start nxt fin ovl st = Some (s, ovl', st') \<and>
    inv st' \<and> s \<le> fin"
  using assms
proof (induction "fin - nxt" arbitrary: start nxt ovl st rule: less_induct)
  case less
  note eq = line_loop.simps [of "lo_flush ops" buf start nxt fin ovl st]
  show ?case
  proof (cases "find_nl buf nxt fin")
    case None
    then show ?thesis using eq less.prems by auto
  next
    case (Some p)
    note p = find_nl_Some [OF Some less.prems(4)]
    have "10 \<in> set (drop start buf)"
      using p less.prems by (auto simp: in_set_conv_nth intro!: exI [of _ "p - start"])
    then have "stops (drop start buf)" by (simp add: stops_def)
    moreover have "p - start \<le> length (drop start buf)" using p less.prems by simp
    ultimately obtain s1 where s1: "lo_flush ops (drop start buf) (p - start) st = Some s1" "inv s1"
      using flush_safe [OF less.prems(1)] by blast
    obtain s2 where s2: "lo_flush ops (overlong_warning @ [0]) (length overlong_warning) s1 = Some s2" "inv s2"
      using flush_safe [OF s1(2) stops_nul, of "length overlong_warning" overlong_warning] by auto
    have "line_loop (lo_flush ops) buf start nxt fin ovl st =
        line_loop (lo_flush ops) buf (p + 1) (p + 1) fin False (if ovl then s2 else s1)"
      using eq Some s1(1) s2(1) by simp
    then show ?thesis
      using less.hyps [of "p + 1" "if ovl then s2 else s1" "p + 1" False] p less.prems s1(2) s2(2) by auto
  qed
qed

lemma flush_full_safe:
  assumes "inv st" "lb_safe lb"
  shows "\<exists>lb' st'. flush_full (lo_flush ops) lb st = Some (lb', st') \<and> inv st' \<and> lb_safe lb' \<and>
    used lb' < MAX_LINE_LENGTH"
  using assms flush_safe [OF assms(1), of "lbuf lb" "used lb"]
  by (cases "used lb = MAX_LINE_LENGTH") (auto simp: flush_full_def lb_safe_def stops_def)

lemma got_bytes_safe:
  assumes "inv st" "lb_safe lb" "used lb + length bs \<le> MAX_LINE_LENGTH"
  shows "\<exists>lb' st'. got_bytes (lo_flush ops) bs lb st = Some (lb', st') \<and> inv st' \<and> lb_safe lb'"
proof -
  define buf where "buf = take (used lb) (lbuf lb) @ bs @ drop (used lb + length bs) (lbuf lb)"
  have buf: "arr_put (lbuf lb) (used lb) bs = Some buf" "length buf = MAX_LINE_LENGTH"
    using assms by (simp_all add: buf_def lb_safe_def carr_simps)
  obtain s ovl' st' where l: "line_loop (lo_flush ops) buf 0 (used lb) (used lb + length bs) (overlong lb) st =
      Some (s, ovl', st')" "inv st'" "s \<le> used lb + length bs"
    using line_loop_safe [OF assms(1), of 0 "used lb" "used lb + length bs" buf "overlong lb"] buf assms by auto
  define fin where "fin = used lb + length bs"
  have "length (bytes_of buf s fin) \<le> MAX_LINE_LENGTH" using buf(2) by simp
  then obtain buf' where b': "arr_put buf 0 (bytes_of buf s fin) = Some buf'" "length buf' = MAX_LINE_LENGTH"
    using buf(2) arr_put_Some [of 0 "bytes_of buf s fin" buf] by auto
  then show ?thesis
    using buf(1) l assms(3) by (auto simp: got_bytes_def fin_def lb_safe_def)
qed

lemma read_loop_safe:
  "inv st \<Longrightarrow> lb_safe lb \<Longrightarrow>
     (\<exists>lb' inp' st'. read_loop ops es inp lb st = Some (Running lb' inp' st') \<and> inv st') \<or>
     (\<exists>c st'. read_loop ops es inp lb st = Some (Exited c st') \<and> inv st')"
proof (induction es arbitrary: inp lb st)
  case Nil
  then show ?case by simp
next
  case (Cons e es)
  obtain s1 where t: "lo_top ops st = Some s1" "inv s1" using top_safe Cons.prems by blast
  obtain lb1 s2 where f: "flush_full (lo_flush ops) lb s1 = Some (lb1, s2)" "inv s2" "lb_safe lb1"
    "used lb1 < MAX_LINE_LENGTH"
    using flush_full_safe [OF t(2) Cons.prems(2)] by blast
  obtain s3 where fl: "lo_flush ops (lbuf lb1) (used lb1) s2 = Some s3" "inv s3"
    using flush_safe [OF f(2), of "lbuf lb1" "used lb1"] f(3) by (auto simp: lb_safe_def stops_def)
  show ?case
  proof (cases e)
    case (Ready k)
    define got where "got = min (MAX_LINE_LENGTH - used lb1) (Suc k)"
    have "used lb1 + length (take got inp) \<le> MAX_LINE_LENGTH" using f(4) by (simp add: got_def)
    then obtain lb2 s4 where "got_bytes (lo_flush ops) (take got inp) lb1 s2 = Some (lb2, s4)" "inv s4" "lb_safe lb2"
      using got_bytes_safe [OF f(2,3)] by blast
    then show ?thesis
      using Ready t(1) f fl Cons.IH [of s4 lb2 "drop got inp"]
      by (cases "inp = []") (auto simp: got_def [symmetric])
  next
    case Read_Retry
    then show ?thesis using t(1) f(1) Cons.IH [OF f(2,3), of inp] by simp
  next
    case Read_Error
    then show ?thesis using t(1) f(1) fl by simp
  next
    case (Signal s)
    then show ?thesis using Cons.IH [OF signal_safe [OF Cons.prems(1)] Cons.prems(2)] by simp
  qed
qed

end

interpretation lo: line_sink logos_ops "logos_inv fac" for fac
proof
  show "logos_inv fac (lo_signal logos_ops s st)" if "logos_inv fac st" for s st
    using that by (cases s) (simp_all add: logos_ops_def logos_inv_def header_ok_def)
qed (simp_all add: logos_ops_def flush_ok mode_switch_ok)

section \<open>The rate limit\<close>

text \<open>
  A sequence of lines (memory and length) through \<open>_flush_ratelimited\<close>.
\<close>

fun run_lines :: "(byte list \<times> nat) list \<Rightarrow> logos_state \<Rightarrow> logos_state option" where
  "run_lines [] st = Some st"
| "run_lines ((buf, len) # ls) st = do {
     st \<leftarrow> flush_ratelimited buf len st;
     run_lines ls st }"

text \<open>The bytes of the lines that are not notices about a limit.\<close>

definition passed :: "nat \<Rightarrow> (string \<times> string) list \<Rightarrow> byte list list \<Rightarrow> int" where
  "passed h ms out = (\<Sum>l \<leftarrow> filter (\<lambda>l. \<not> notice h ms l) out. int (length l))"

lemma passed_append: "passed h ms (xs @ ys) = passed h ms xs + passed h ms ys"
  by (simp add: passed_def)

lemma passed_notices: "list_all (notice h ms) out \<Longrightarrow> passed h ms out = 0"
  by (simp add: passed_def list_all_iff filter_empty_conv)

lemma passed_one: "passed h ms [l] \<le> int (length l)"
  by (simp add: passed_def)

text \<open>Limited mode, with the buckets filled once: no balance is negative, the clock has started.\<close>

definition limited :: "logos_state \<Rightarrow> bool" where
  "limited st \<longleftrightarrow> \<not> unlimited_mode st \<and> 0 < last_add_time st \<and> last_add_time st \<le> clk st (ticks st) \<and>
     mono (clk st) \<and> (\<forall>b \<in> set (buckets st). 0 \<le> available b)"

lemma room_effect_limited:
  assumes "room_effect False tot b b' a ok" "0 \<le> available b" "0 \<le> tot"
  shows "0 \<le> available b'" "available b' \<le> available b" "same_bucket b b'" "ok \<Longrightarrow> a"
    "ok \<Longrightarrow> btype b = BT_MANDATORY \<Longrightarrow> available b' + tot = available b"
  using assms by (auto simp: room_effect_def split: if_splits)

lemma fill_effect_limited:
  assumes "fill_effect tdiff b b'" "bucket_ok b" "0 \<le> available b" "0 \<le> tdiff"
  shows "0 \<le> available b'" "available b' \<le> available b + tdiff * fill_rate b div 1000" "same_bucket b b'"
proof -
  have "0 \<le> tdiff * fill_rate b" using assms(2,4) by (simp add: bucket_ok_def)
  then have "0 \<le> tdiff * fill_rate b div 1000" by simp
  then show "0 \<le> available b'" "available b' \<le> available b + tdiff * fill_rate b div 1000" "same_bucket b b'"
    using assms by (auto simp: fill_effect_def bucket_ok_def)
qed

lemma same_bucket_trans: "same_bucket a b \<Longrightarrow> same_bucket b c \<Longrightarrow> same_bucket a c"
  by (simp add: same_bucket_def)

lemma admit_limited:
  assumes inv: "logos_inv fac st" and lim: "limited st" and tot: "0 \<le> tot"
  obtains ok st' where "admit tot st = Some (ok, st')" "logos_inv fac st'" "limited st'"
    "length (header st') = length (header st)" "notices_only st st'" "last_add_time st \<le> last_add_time st'"
    "\<forall>i < 3. same_bucket (buckets st ! i) (buckets st' ! i) \<and> (btype (buckets st ! i) = BT_MANDATORY \<longrightarrow>
       (if ok then tot else 0) + available (buckets st' ! i) \<le> available (buckets st ! i) +
         (last_add_time st' - last_add_time st) * fill_rate (buckets st ! i) div 1000)"
proof -
  define D where "D = (\<lambda>s :: logos_state. last_add_time s - last_add_time st)"
  obtain s1 :: logos_state and ok s2 where a: "admit tot st = Some (ok, s2)" "logos_inv fac s2"
    "unlimited_mode s2 = unlimited_mode st" "clk s2 = clk st" "ticks s2 = Suc (ticks st)"
    "length (header s2) = length (header st)" "notices_only st s2" "last_add_time s2 = last_add_time s1"
    "last_add_time st \<noteq> 0 \<longrightarrow> buckets s1 = buckets st \<and> last_add_time s1 = last_add_time st \<or>
       last_add_time s1 = clk st (ticks st) \<and> last_add_time st < clk st (ticks st) \<and>
       (\<forall>i < 3. fill_effect (clk st (ticks st) - last_add_time st) (buckets st ! i) (buckets s1 ! i))"
    "\<exists>a1 a2. room_effect (unlimited_mode st) tot (buckets s1 ! 0) (buckets s2 ! 0) True a1 \<and>
       room_effect (unlimited_mode st) tot (buckets s1 ! 1) (buckets s2 ! 1) a1 a2 \<and>
       room_effect (unlimited_mode st) tot (buckets s1 ! 2) (buckets s2 ! 2) a2 ok"
    by (rule admit_ok [OF inv tot])
  have b: "\<forall>i < 3. bucket_ok (buckets st ! i) \<and> 0 \<le> available (buckets st ! i)"
    and len: "length (buckets s2) = 3" and nz: "last_add_time st \<noteq> 0"
    using inv a(2) lim by (auto simp: logos_inv_def limited_def list_all_length)
  have fill: "same_bucket (buckets st ! i) (buckets s1 ! i) \<and> 0 \<le> available (buckets s1 ! i) \<and>
      available (buckets s1 ! i) \<le> available (buckets st ! i) + D s1 * fill_rate (buckets st ! i) div 1000"
    if "i < 3" for i
    using a(9) nz b that fill_effect_limited [of "D s1" "buckets st ! i" "buckets s1 ! i"]
    by (auto simp: D_def)
  obtain a1 a2 where e: "room_effect False tot (buckets s1 ! 0) (buckets s2 ! 0) True a1"
    "room_effect False tot (buckets s1 ! 1) (buckets s2 ! 1) a1 a2"
    "room_effect False tot (buckets s1 ! 2) (buckets s2 ! 2) a2 ok"
    using a(10) lim by (auto simp: limited_def)
  have room: "same_bucket (buckets s1 ! i) (buckets s2 ! i) \<and> 0 \<le> available (buckets s2 ! i) \<and>
      (btype (buckets s1 ! i) = BT_MANDATORY \<longrightarrow>
         (if ok then tot else 0) + available (buckets s2 ! i) \<le> available (buckets s1 ! i))"
    if "i < 3" for i
  proof -
    have "i = 0 \<or> i = 1 \<or> i = 2" using that by auto
    then show ?thesis
      using room_effect_limited [OF e(1) _ tot] room_effect_limited [OF e(2) _ tot]
        room_effect_limited [OF e(3) _ tot] fill [of 0] fill [of 1] fill [of 2]
      by (cases ok) auto
  qed
  have times: "last_add_time st \<le> last_add_time s2" "last_add_time s2 \<le> clk st (ticks st)"
    "clk st (ticks st) \<le> clk st (Suc (ticks st))"
    using a(8,9) nz lim by (auto simp: limited_def intro: monoD)
  have "\<forall>b \<in> set (buckets s2). 0 \<le> available b"
    using room len by (auto simp: in_set_conv_nth)
  then have "limited s2"
    using lim times a(3-5) by (auto simp: limited_def)
  moreover have "same_bucket (buckets st ! i) (buckets s2 ! i) \<and> (btype (buckets st ! i) = BT_MANDATORY \<longrightarrow>
       (if ok then tot else 0) + available (buckets s2 ! i) \<le> available (buckets st ! i) +
         (last_add_time s2 - last_add_time st) * fill_rate (buckets st ! i) div 1000)" if "i < 3" for i
    using fill [OF that] room [OF that] same_bucket_trans a(8)
    by (auto simp: D_def same_bucket_def)
  ultimately show thesis using that a(1,2,6,7) times(1) by blast
qed

lemma div_add_le: "(x :: int) div 1000 + y div 1000 \<le> (x + y) div 1000"
  by linarith

definition pass_ok :: "byte list \<times> nat \<Rightarrow> bool" where
  "pass_ok l \<longleftrightarrow> stops (fst l) \<and> snd l \<le> length (fst l) \<and> clean (take (snd l) (fst l))"

lemma flush_limited:
  assumes "logos_inv fac st" "limited st" "pass_ok (buf, len)"
  shows "\<exists>st' out. flush_ratelimited buf len st = Some st' \<and> logos_inv fac st' \<and> limited st' \<and>
    length (header st') = length (header st) \<and> msgs st' = msgs st \<and> written st' = written st @ out \<and>
    last_add_time st \<le> last_add_time st' \<and>
    (\<forall>i < 3. same_bucket (buckets st ! i) (buckets st' ! i) \<and> (btype (buckets st ! i) = BT_MANDATORY \<longrightarrow>
       passed (length (header st)) (msgs st) out + available (buckets st' ! i) \<le> available (buckets st ! i) +
         (last_add_time st' - last_add_time st) * fill_rate (buckets st ! i) div 1000))"
proof -
  define tot where "tot = int (length (header st) + len + 1)"
  obtain ok s1 where a: "admit tot st = Some (ok, s1)" "logos_inv fac s1" "limited s1"
    "length (header s1) = length (header st)" "notices_only st s1" "last_add_time st \<le> last_add_time s1"
    "\<forall>i < 3. same_bucket (buckets st ! i) (buckets s1 ! i) \<and> (btype (buckets st ! i) = BT_MANDATORY \<longrightarrow>
       (if ok then tot else 0) + available (buckets s1 ! i) \<le> available (buckets st ! i) +
         (last_add_time s1 - last_add_time st) * fill_rate (buckets st ! i) div 1000)"
    by (rule admit_limited [OF assms(1,2), of tot]) (simp add: tot_def, rule that)
  have buf: "stops buf" "len \<le> length buf" "clean (take len buf)" using assms(3) by (auto simp: pass_ok_def)
  obtain s2 h where f: "flush_unlimited buf len s1 = Some s2" "logos_inv fac s2" "buckets s2 = buckets s1"
    "last_add_time s2 = last_add_time s1" "unlimited_mode s2 = unlimited_mode s1" "clk s2 = clk s1" "ticks s2 = ticks s1"
    "length (header s2) = length (header s1)" "length h = length (header s1)" "written s2 = written s1 @ [h @ take len buf @ [10]]"
    by (rule flush_unlimited_ok [OF a(2) buf]) (elim exE conjE, rule that)
  obtain o1 where o1: "written s1 = written st @ o1" "msgs s1 = msgs st" "passed (length (header st)) (msgs st) o1 = 0"
    using a(5) passed_notices by (auto simp: notices_only_def)
  define st' where "st' = (if ok then s2 else s1)"
  define out where "out = o1 @ (if ok then [h @ take len buf @ [10]] else [])"
  have "int (length (h @ take len buf @ [10])) = tot" using f(9) a(4) buf(2) by (simp add: tot_def)
  then have "passed (length (header st)) (msgs st) out \<le> (if ok then tot else 0)"
    using o1(3) passed_one [of "length (header st)" "msgs st" "h @ take len buf @ [10]"]
    by (auto simp: out_def passed_append) (simp add: passed_def)
  moreover have "flush_ratelimited buf len st = Some st'" "logos_inv fac st'" "limited st'" "buckets st' = buckets s1"
    "last_add_time st' = last_add_time s1" "length (header st') = length (header st)" "msgs st' = msgs st" "written st' = written st @ out"
    using a f o1 by (auto simp: flush_ratelimited_def tot_def st'_def limited_def out_def msgs_def)
  ultimately show ?thesis using a(6,7) by (intro exI [of _ st'] exI [of _ out]) fastforce
qed

lemma run_lines_limited:
  assumes "logos_inv fac st" "limited st" "list_all pass_ok ls"
  shows "\<exists>st' out. run_lines ls st = Some st' \<and> logos_inv fac st' \<and> limited st' \<and> written st' = written st @ out \<and>
    last_add_time st \<le> last_add_time st' \<and>
    (\<forall>i < 3. same_bucket (buckets st ! i) (buckets st' ! i) \<and> (btype (buckets st ! i) = BT_MANDATORY \<longrightarrow>
       passed (length (header st)) (msgs st) out + available (buckets st' ! i) \<le> available (buckets st ! i) +
         (last_add_time st' - last_add_time st) * fill_rate (buckets st ! i) div 1000))"
  using assms
proof (induction ls arbitrary: st)
  case Nil
  then show ?case by (intro exI [of _ st] exI [of _ "[]"]) (simp add: passed_def)
next
  case (Cons l ls)
  obtain buf len where l: "l = (buf, len)" by (cases l)
  let ?p = "passed (length (header st)) (msgs st)"
  obtain s1 o1 where a: "flush_ratelimited buf len st = Some s1" "logos_inv fac s1" "limited s1"
    "length (header s1) = length (header st)" "msgs s1 = msgs st" "written s1 = written st @ o1" "last_add_time st \<le> last_add_time s1"
    "\<forall>i < 3. same_bucket (buckets st ! i) (buckets s1 ! i) \<and> (btype (buckets st ! i) = BT_MANDATORY \<longrightarrow>
       ?p o1 + available (buckets s1 ! i) \<le> available (buckets st ! i) +
         (last_add_time s1 - last_add_time st) * fill_rate (buckets st ! i) div 1000)"
    using flush_limited [OF Cons.prems(1,2), of buf len] Cons.prems(3) l by auto
  obtain st' o2 where r: "run_lines ls s1 = Some st'" "logos_inv fac st'" "limited st'" "written st' = written s1 @ o2"
    "last_add_time s1 \<le> last_add_time st'"
    "\<forall>i < 3. same_bucket (buckets s1 ! i) (buckets st' ! i) \<and> (btype (buckets s1 ! i) = BT_MANDATORY \<longrightarrow>
       ?p o2 + available (buckets st' ! i) \<le> available (buckets s1 ! i) +
         (last_add_time st' - last_add_time s1) * fill_rate (buckets s1 ! i) div 1000)"
    using Cons.IH [OF a(2,3)] Cons.prems(3) a(4,5) by auto
  have "same_bucket (buckets st ! i) (buckets st' ! i) \<and> (btype (buckets st ! i) = BT_MANDATORY \<longrightarrow>
      ?p (o1 @ o2) + available (buckets st' ! i) \<le> available (buckets st ! i) +
         (last_add_time st' - last_add_time st) * fill_rate (buckets st ! i) div 1000)" if "i < 3" for i
  proof -
    define R where "R = fill_rate (buckets st ! i)"
    have sb: "same_bucket (buckets st ! i) (buckets s1 ! i)" "same_bucket (buckets s1 ! i) (buckets st' ! i)"
      using a(8) r(6) that by auto
    have "(last_add_time s1 - last_add_time st) * R div 1000 + (last_add_time st' - last_add_time s1) * R div 1000
        \<le> (last_add_time st' - last_add_time st) * R div 1000"
      using div_add_le [of "(last_add_time s1 - last_add_time st) * R" "(last_add_time st' - last_add_time s1) * R"]
      by (simp add: algebra_simps)
    then show ?thesis
      using a(8) r(6) that sb same_bucket_trans [OF sb] by (force simp: same_bucket_def R_def passed_append)
  qed
  then show ?case using l a r by (intro exI [of _ st'] exI [of _ "o1 @ o2"]) auto
qed

text \<open>
  Claim C6. The rate limit holds: for any sequence of lines in limited mode, once the buckets have been filled, on a monotone clock, with limits up to a gigabyte,
  the bytes that are written, lines with the text of the program's own notices about a limit apart, are at most what each mandatory bucket held at the
  start plus its fill rate times the time over which it was filled. No balance becomes negative and every call returns.
\<close>
theorem rate_limit_conforms:
  assumes "logos_inv fac st" "limited st" "list_all pass_ok ls" "i < 3" "btype (buckets st ! i) = BT_MANDATORY"
  shows "\<exists>st' out. run_lines ls st = Some st' \<and> limited st' \<and> written st' = written st @ out \<and>
    passed (length (header st)) (msgs st) out \<le> available (buckets st ! i) +
      (last_add_time st' - last_add_time st) * fill_rate (buckets st ! i) div 1000 \<and>
    last_add_time st' \<le> clk st' (ticks st')"
proof -
  obtain st' out where r: "run_lines ls st = Some st'" "logos_inv fac st'" "limited st'" "written st' = written st @ out"
    "passed (length (header st)) (msgs st) out + available (buckets st' ! i) \<le> available (buckets st ! i) +
         (last_add_time st' - last_add_time st) * fill_rate (buckets st ! i) div 1000"
    using run_lines_limited [OF assms(1-3)] assms(4,5) by blast
  have "0 \<le> available (buckets st' ! i)"
    using r(2,3) assms(4) by (auto simp: limited_def logos_inv_def)
  then show ?thesis using r by (auto simp: limited_def)
qed

lemma sample_clock: "clock_ok (clk sample_logos)"
  by (auto simp: clock_ok_def sample_logos_def min_def)

lemma sample_logos_inv: "logos_inv (lit ''fac'') sample_logos"
  using sample_clock by (simp add: logos_inv_def header_ok_def)
    (simp add: sample_logos_def init_buckets_def buckets_init_def bucket_ok_def lit_def)

lemma sample_limited:
  "logos_inv (lit ''fac'') (sample_logos\<lparr>last_add_time := 1\<rparr>)" "limited (sample_logos\<lparr>last_add_time := 1\<rparr>)"
  using sample_logos_inv
  by (auto simp: logos_inv_def header_ok_def limited_def sample_logos_def init_buckets_def mono_def)

theorem rate_limit_conforms_witness:
  "\<exists>st' out. run_lines (replicate 100 (lit ''error: x'' @ [10], 8)) (sample_logos\<lparr>last_add_time := 1\<rparr>) = Some st' \<and> limited st' \<and>
    written st' = written (sample_logos\<lparr>last_add_time := 1\<rparr>) @ out \<and>
    passed (length (header (sample_logos\<lparr>last_add_time := 1\<rparr>))) (msgs (sample_logos\<lparr>last_add_time := 1\<rparr>)) out
      \<le> available (buckets (sample_logos\<lparr>last_add_time := 1\<rparr>) ! 0) +
      (last_add_time st' - last_add_time (sample_logos\<lparr>last_add_time := 1\<rparr>)) *
        fill_rate (buckets (sample_logos\<lparr>last_add_time := 1\<rparr>) ! 0) div 1000 \<and>
    last_add_time st' \<le> clk st' (ticks st')"
  by (rule rate_limit_conforms [OF sample_limited])
    (simp_all add: list_all_iff pass_ok_def stops_def lit_def,
     simp add: sample_logos_def init_buckets_def buckets_init_def)

fun outcome_state :: "'s logos_outcome \<Rightarrow> 's" where
  "outcome_state (Running lb inp st) = st"
| "outcome_state (Exited c st) = st"

text \<open>
  Claim C7. The whole program is safe and its output well-formed: for limits of at most a gigabyte and a facility name without control characters, with any environment,
  input, read sizes, errors and signals, while the clock reads between 0 and 139 years, no refill overflows or fails its
  assertion, no array is left, the balance of
  every bucket stays at or below its maximum, and every line written is the level digit, the
  facility without underscores, a text without control characters (newline apart) and a newline.
\<close>
theorem logos_main_safe:
  assumes "length (stack env) = MAX_LINE_LENGTH" "clean (strip_underscores (argv ! 1))" "written st0 = []"
    "limit_arg argv 2 DEFAULT_BYTES_PER_BURST \<le> 10 ^ 9" "limit_arg argv 3 DEFAULT_BYTES_PER_DAY \<le> 10 ^ 9" "clock_ok (clk st0)"
  shows "\<exists>res. logos_main env argv events stdin st0 = Some res \<and>
    list_all (line_ok (strip_underscores (argv ! 1))) (written (outcome_state res)) \<and>
    list_all (\<lambda>b. available b \<le> max_bytes b) (buckets (outcome_state res))"
proof -
  define fac where "fac = strip_underscores (argv ! 1)"
  have fac: "clean fac" using assms(2) by (simp add: fac_def)
  define bb where "bb = limit_arg argv 2 DEFAULT_BYTES_PER_BURST"
  define bd where "bd = limit_arg argv 3 DEFAULT_BYTES_PER_DAY"
  have run: "\<exists>res. read_loop logos_ops events stdin \<lparr>lbuf = stack env, used = 0, overlong = False\<rparr> st =
      Some res \<and> list_all (line_ok fac) (written (outcome_state res)) \<and>
      list_all (\<lambda>b. available b \<le> max_bytes b) (buckets (outcome_state res))"
    if "logos_inv fac st" for st
  proof -
    have "lb_safe \<lparr>lbuf = stack env, used = 0, overlong = False\<rparr>" using assms(1) by (simp add: lb_safe_def)
    moreover have "logos_inv fac s \<Longrightarrow> list_all (line_ok fac) (written s) \<and>
        list_all (\<lambda>b. available b \<le> max_bytes b) (buckets s)" for s
      by (auto simp: logos_inv_def bucket_ok_def list_all_iff)
    ultimately show ?thesis
      using lo.read_loop_safe [OF that, of "\<lparr>lbuf = stack env, used = 0, overlong = False\<rparr>" events stdin]
      by fastforce
  qed
  have early: "written (err_print s st) = written st"
    "buckets (err_print s st) = buckets st" for s st
    by (simp_all add: err_print_def)
  have small: "bb \<le> 1000000000" "bd \<le> 1000000000" using assms(4,5) by (simp_all add: bb_def bd_def)
  have init: "600 \<le> bb \<Longrightarrow> 86400 \<le> bd \<Longrightarrow> list_all bucket_ok (init_buckets bb bd buckets_init)"
    using small by (simp add: init_buckets_def buckets_init_def bucket_ok_def lit_def Let_def) (intro conjI; linarith)
  have zero: "list_all (\<lambda>b. available b \<le> max_bytes b) buckets_init" by (simp add: buckets_init_def)
  have len: "length (init_buckets bb bd buckets_init) = 3" by (simp add: init_buckets_def Let_def)
  have le: "list_all bucket_ok bs \<Longrightarrow> list_all (\<lambda>b. available b \<le> max_bytes b) bs" for bs
    by (auto simp: list_all_iff bucket_ok_def)
  have inv: "logos_inv fac st" if "header st = lit ''<x>'' @ fac @ lit '': ''"
    "buckets st = init_buckets bb bd buckets_init" "backoff st = 5000" "written st = []"
    "600 \<le> bb" "86400 \<le> bd" "clk st = clk st0" "last_add_time st = 0" for st
    using that fac init len assms(6) by (auto simp: logos_inv_def header_ok_def lit_def)
  show ?thesis
    unfolding logos_main_def bb_def [symmetric] bd_def [symmetric] fac_def [symmetric] Let_def
    using assms(3) zero init le by (auto simp: early intro!: run inv)
qed

theorem logos_main_safe_witness:
  "\<exists>res. logos_main \<lparr>env_debug = None, limits_file = False, kmsg_ok = True, chdir_ok = True,
       header_malloc = True, stack = replicate 768 0\<rparr> [lit ''logos'', lit ''my_app'']
     [Signal SIGUSR1, Ready 3, Ready 700] (lit ''w: hello'' @ [9, 10]) sample_logos = Some res \<and>
    list_all (line_ok (strip_underscores ([lit ''logos'', lit ''my_app''] ! 1))) (written (outcome_state res)) \<and>
    list_all (\<lambda>b. available b \<le> max_bytes b) (buckets (outcome_state res))"
  by (rule logos_main_safe) (simp_all add: sample_clock, simp_all add: lit_def strip_underscores_def limit_arg_def sample_logos_def)

text \<open>Beyond the bound: a limit that is accepted makes a refill overflow.\<close>

lemma refill_overflow:
  assumes "fill_rate b = (2 ^ 63 - 1) div 2 div 300" "1000 \<le> tdiff"
  shows "refill tdiff b = None"
proof -
  have "1000 * ((2 ^ 63 - 1) div 2 div 300) \<le> tdiff * fill_rate b" unfolding assms(1) using assms(2) by (intro mult_right_mono) simp_all
  then show ?thesis by (simp add: refill_def fits64_def)
qed

end
