(* ===== verification/Mac_Suppress.thy ===== *)
theory Mac_Suppress
  imports C_Text
begin

unbundle bit_operations_syntax

text \<open>
  The anonymisation of MAC addresses in the log uploader, \<^verbatim>\<open>src/logupload/client/log_uploader.c\<close> from
  \<open>default_consensus_key\<close> on: text that looks like a MAC address is replaced, in place, by a name of
  six letters derived from a keyed digest.

  \<open>HMAC\<close> of OpenSSL is not part of the repository: it is the argument \<open>hmac\<close> (key, message), a
  function to the digest's bytes. The line is a block of memory; \<open>None\<close> is an access outside it.
\<close>

section \<open>The key\<close>

abbreviation (input) CONSENSUS_KEY_LEN :: nat where "CONSENSUS_KEY_LEN \<equiv> 16"
abbreviation (input) MAC_ADDR_LEN :: nat where "MAC_ADDR_LEN \<equiv> 17"

record key_state =
  consensus_key :: "byte list"
  key_ino :: int
  key_mtime :: int

text \<open>
  What the file system answers. \<open>st_ino\<close> and \<open>st_mtime\<close> are the contents of the stat buffer after the
  call: uninitialised when \<open>stat\<close> fails. A file is what \<open>read\<close> returns, \<open>None\<close> when it cannot be
  opened.
\<close>

record key_env =
  stat_ok :: bool
  st_ino :: int
  st_mtime :: int
  key_file :: "byte list option"
  urandom :: "byte list option"
  time_now :: int

definition default_consensus_key :: "key_env \<Rightarrow> key_state \<Rightarrow> key_state" where
  "default_consensus_key env ks =
     (case urandom env of
        None \<Rightarrow> ks
      | Some bs \<Rightarrow>
         if length bs \<noteq> CONSENSUS_KEY_LEN
         then ks\<lparr>consensus_key := replicate CONSENSUS_KEY_LEN (word_of_int (time_now env))\<rparr>
         else ks\<lparr>consensus_key := bs\<rparr>)"

definition get_consensus_key :: "key_env \<Rightarrow> key_state \<Rightarrow> key_state" where
  "get_consensus_key env ks =
     (if \<not> stat_ok env \<and> st_ino env = key_ino ks \<and> st_mtime env = key_mtime ks then ks
      else case key_file env of
        None \<Rightarrow> ks
      | Some bs \<Rightarrow>
         if length bs = CONSENSUS_KEY_LEN
         then ks\<lparr>consensus_key := bs, key_ino := st_ino env, key_mtime := st_mtime env\<rparr>
         else ks)"

section \<open>Names\<close>

definition SOFT :: cstr where
  "SOFT = lit ''AEIOUYV''"

definition HARD :: cstr where
  "HARD = lit ''BCDFGHJKLMNPQRSTVWXYZAEIOU''"

definition trigraph :: "nat \<Rightarrow> cstr option" where
  "trigraph num =
     (let ns = length SOFT; nh = length HARD;
          c3 = num mod nh; c2 = num div nh mod ns; c1 = num div nh div ns
      in do {
        a \<leftarrow> arr_get HARD c1;
        b \<leftarrow> arr_get SOFT c2;
        c \<leftarrow> arr_get HARD c3;
        Some [a, b, c] })"

definition hex_chr_to_int :: "byte \<Rightarrow> nat" where
  "hex_chr_to_int hex =
     (if 48 \<le> hex \<and> hex \<le> 57 then unat hex - 48
      else if 97 \<le> hex \<and> hex \<le> 102 then unat hex - 97 + 10
      else if 65 \<le> hex \<and> hex \<le> 70 then unat hex - 65 + 10
      else 0)"

text \<open>The address as six bytes; \<open>mac\<close> is the memory at the address.\<close>

definition get_binary_mac :: "byte list \<Rightarrow> byte list option" where
  "get_binary_mac mac =
     those (map (\<lambda>i. do {
       h \<leftarrow> arr_get mac i;
       l \<leftarrow> arr_get mac (i + 1);
       Some (push_bit 4 (word_of_nat (hex_chr_to_int h)) OR word_of_nat (hex_chr_to_int l)) })
       [0, 3, 6, 9, 12, 15])"

definition get_anonid_for_mac ::
    "(byte list \<Rightarrow> byte list \<Rightarrow> byte list) \<Rightarrow> key_env \<Rightarrow> byte list \<Rightarrow> key_state \<Rightarrow> (cstr \<times> key_state) option" where
  "get_anonid_for_mac hmac env mac ks =
     (let ks = get_consensus_key env ks
      in do {
        macbin \<leftarrow> get_binary_mac mac;
        let digest = hmac (consensus_key ks) macbin;
        d0 \<leftarrow> arr_get digest 0;
        d1 \<leftarrow> arr_get digest 1;
        d2 \<leftarrow> arr_get digest 2;
        let num = push_bit 16 (ucast d0 :: u32) OR push_bit 8 (ucast d1) OR ucast d2;
        t1 \<leftarrow> trigraph (unat (drop_bit 12 num AND 0x0fff));
        t2 \<leftarrow> trigraph (unat (num AND 0x0fff));
        Some (t1 @ t2, ks) })"

section \<open>Replacing addresses\<close>

definition is_mac_addr :: "byte list \<Rightarrow> byte \<Rightarrow> bool" where
  "is_mac_addr s sep \<longleftrightarrow>
     s ! 2 = sep \<and> s ! 5 = sep \<and> s ! 8 = sep \<and> s ! 11 = sep \<and> s ! 14 = sep \<and>
     is_xdigit (s ! 0) \<and> is_xdigit (s ! 1) \<and> is_xdigit (s ! 3) \<and> is_xdigit (s ! 4) \<and>
     is_xdigit (s ! 6) \<and> is_xdigit (s ! 7) \<and> is_xdigit (s ! 9) \<and> is_xdigit (s ! 10) \<and>
     is_xdigit (s ! 12) \<and> is_xdigit (s ! 13) \<and> is_xdigit (s ! 15) \<and> is_xdigit (s ! 16)"

text \<open>
  \<open>anonymize_mac_address (s, len)\<close> with \<open>s = line + i\<close>: the six letters, then
  \<open>memmove (s + 6, s + 17, len - 11)\<close>.
\<close>

definition anonymize_mac_address ::
    "(byte list \<Rightarrow> byte list \<Rightarrow> byte list) \<Rightarrow> key_env \<Rightarrow> byte list \<Rightarrow> nat \<Rightarrow> nat \<Rightarrow> key_state \<Rightarrow>
       (byte list \<times> key_state) option" where
  "anonymize_mac_address hmac env line i len ks = do {
     (anonid, ks) \<leftarrow> get_anonid_for_mac hmac env (drop i line) ks;
     line \<leftarrow> arr_put line i anonid;
     moved \<leftarrow> arr_slice line (i + 6 + 11) (len - 11);
     line \<leftarrow> arr_put line (i + 6) moved;
     Some (line, ks) }"

definition looks_like_mac :: "byte list \<Rightarrow> bool" where
  "looks_like_mac s \<longleftrightarrow>
     is_mac_addr s (of_char (CHR '':'')) \<or> is_mac_addr s (of_char (CHR ''-'')) \<or>
     is_mac_addr s (of_char (CHR ''_''))"

function suppress_loop ::
    "(byte list \<Rightarrow> byte list \<Rightarrow> byte list) \<Rightarrow> key_env \<Rightarrow> byte list \<Rightarrow> nat \<Rightarrow> nat \<Rightarrow> nat \<Rightarrow> key_state \<Rightarrow>
       (nat \<times> byte list \<times> key_state) option" where
  "suppress_loop hmac env line i len new_len ks =
     (if MAC_ADDR_LEN \<le> len then
        (if length line < i + MAC_ADDR_LEN then None
         else if looks_like_mac (drop i line) then
           (case anonymize_mac_address hmac env line i len ks of
              None \<Rightarrow> None
            | Some (line, ks) \<Rightarrow> suppress_loop hmac env line i (len - 11) (new_len - 11) ks)
         else suppress_loop hmac env line (i + 1) (len - 1) new_len ks)
      else Some (new_len, line, ks))"
  by pat_completeness auto
termination
  by (relation "measure (\<lambda>(hmac, env, line, i, len, new_len, ks). len)") auto

declare suppress_loop.simps [simp del]

definition suppress_mac_addresses ::
    "(byte list \<Rightarrow> byte list \<Rightarrow> byte list) \<Rightarrow> key_env \<Rightarrow> byte list \<Rightarrow> nat \<Rightarrow> key_state \<Rightarrow>
       (nat \<times> byte list \<times> key_state) option" where
  "suppress_mac_addresses hmac env line len ks = suppress_loop hmac env line 0 len len ks"

section \<open>Names are letters, and distinct\<close>

lemma HARD_props: "length HARD = 26" "distinct HARD" "\<forall>c \<in> set HARD. 65 \<le> c \<and> c \<le> 90"
  by (simp_all add: HARD_def lit_def)

lemma SOFT_props: "length SOFT = 7" "distinct SOFT" "\<forall>c \<in> set SOFT. 65 \<le> c \<and> c \<le> 90"
  by (simp_all add: SOFT_def lit_def)

lemma trigraph_eq:
  assumes "n < 4096"
  shows "trigraph n = Some [HARD ! (n div 26 div 7), SOFT ! (n div 26 mod 7), HARD ! (n mod 26)]"
    "n div 26 div 7 < 26"
proof -
  show "n div 26 div 7 < 26" using assms by (simp add: div_mult2_eq [symmetric] div_less_iff_less_mult)
  then show "trigraph n = Some [HARD ! (n div 26 div 7), SOFT ! (n div 26 mod 7), HARD ! (n mod 26)]"
    by (simp add: trigraph_def Let_def HARD_props SOFT_props arr_get_def)
qed

abbreviation (input) is_letter :: "byte \<Rightarrow> bool" where
  "is_letter c \<equiv> 65 \<le> c \<and> c \<le> 90"

lemma trigraph_letters:
  assumes "n < 4096"
  obtains t where "trigraph n = Some t" "length t = 3" "\<forall>c \<in> set t. is_letter c"
proof -
  have "HARD ! (n div 26 div 7) \<in> set HARD" "SOFT ! (n div 26 mod 7) \<in> set SOFT" "HARD ! (n mod 26) \<in> set HARD"
    using trigraph_eq(2) [OF assms] by (simp_all add: HARD_props SOFT_props)
  then show thesis
    using that trigraph_eq(1) [OF assms] HARD_props(3) SOFT_props(3) by auto
qed

lemma div_mod_eq_imp_eq:
  fixes a b c :: nat
  assumes "a div c = b div c" "a mod c = b mod c"
  shows "a = b"
proof -
  have "a = a div c * c + a mod c" by simp
  also have "\<dots> = b" unfolding assms by simp
  finally show ?thesis .
qed

text \<open>
  Three-letter names: every number below 4096 has a name of three capital letters (no index
  leaves the letter tables), and different numbers have different names.
\<close>
lemma trigraph_injective:
  assumes "m < 4096" "n < 4096"
  shows "(\<exists>t. trigraph m = Some t \<and> length t = 3 \<and> list_all is_letter t) \<and>
    (trigraph m = trigraph n \<longleftrightarrow> m = n)"
proof -
  have inj: "m = n" if eq: "trigraph m = trigraph n"
  proof -
    have "HARD ! (m div 26 div 7) = HARD ! (n div 26 div 7)"
      "SOFT ! (m div 26 mod 7) = SOFT ! (n div 26 mod 7)" "HARD ! (m mod 26) = HARD ! (n mod 26)"
      using eq trigraph_eq(1) [OF assms(1)] trigraph_eq(1) [OF assms(2)] by simp_all
    then have c1: "m div 26 div 7 = n div 26 div 7" and c2: "m div 26 mod 7 = n div 26 mod 7"
      and c3: "m mod 26 = n mod 26"
      using nth_eq_iff_index_eq [OF HARD_props(2)] nth_eq_iff_index_eq [OF SOFT_props(2)]
        trigraph_eq(2) [OF assms(1)] trigraph_eq(2) [OF assms(2)]
      by (simp_all only: HARD_props(1) SOFT_props(1) mod_less_divisor zero_less_numeral)
    have "m div 26 = n div 26" by (rule div_mod_eq_imp_eq [OF c1 c2])
    then show "m = n" by (rule div_mod_eq_imp_eq [OF _ c3])
  qed
  obtain t where "trigraph m = Some t" "length t = 3" "\<forall>c \<in> set t. is_letter c"
    by (rule trigraph_letters [OF assms(1)])
  then have "\<exists>t. trigraph m = Some t \<and> length t = 3 \<and> list_all is_letter t"
    by (auto simp: list_all_iff)
  then show ?thesis using inj by blast
qed

text \<open>What is used of \<open>HMAC\<close>: a digest has three bytes or more (MD5's has sixteen).\<close>

definition digest_ok :: "(byte list \<Rightarrow> byte list \<Rightarrow> byte list) \<Rightarrow> bool" where
  "digest_ok hmac \<longleftrightarrow> (\<forall>k m. 3 \<le> length (hmac k m))"

section \<open>Redaction as rewriting\<close>

text \<open>
  The specification: an address anywhere in the text may be replaced by its name. The routine
  rewrites in place; what it leaves is a normal form of this relation.
\<close>

inductive redact ::
    "(byte list \<Rightarrow> byte list \<Rightarrow> byte list) \<Rightarrow> key_env \<Rightarrow> key_state \<Rightarrow> byte list \<Rightarrow> byte list \<Rightarrow> bool"
  for hmac env ks where
  redact_one: "length m = 17 \<Longrightarrow> looks_like_mac m \<Longrightarrow>
     get_anonid_for_mac hmac env m ks = Some (name, ks') \<Longrightarrow>
     redact hmac env ks (u @ m @ v) (u @ name @ v)"

lemma get_consensus_key_idem [simp]:
  "get_consensus_key env (get_consensus_key env ks) = get_consensus_key env ks"
  by (auto simp: get_consensus_key_def split: option.splits)

lemma get_binary_mac_append: "length m = 17 \<Longrightarrow> get_binary_mac (m @ v) = get_binary_mac m"
  by (simp add: get_binary_mac_def arr_get_def nth_append)

lemma get_binary_mac_Some: "17 \<le> length m \<Longrightarrow> \<exists>b. get_binary_mac m = Some b"
  by (auto simp: get_binary_mac_def arr_get_def)

lemma get_anonid_append:
  "length m = 17 \<Longrightarrow> get_anonid_for_mac hmac env (m @ v) ks = get_anonid_for_mac hmac env m ks"
  by (simp add: get_anonid_for_mac_def get_binary_mac_append)

lemma get_anonid_key [simp]:
  "get_anonid_for_mac hmac env m (get_consensus_key env ks) = get_anonid_for_mac hmac env m ks"
  by (simp add: get_anonid_for_mac_def)

lemma and_0xfff_less: "unat (w AND 0x0fff :: u32) < 4096"
proof -
  have "w AND 0x0fff \<le> (0x0fff :: u32)" by (rule word_and_le1)
  then show ?thesis by (simp add: word_le_nat_alt)
qed

lemma get_anonid_Some:
  assumes "digest_ok hmac" "17 \<le> length m"
  shows "\<exists>name. get_anonid_for_mac hmac env m ks = Some (name, get_consensus_key env ks) \<and>
    length name = 6 \<and> (\<forall>c \<in> set name. is_letter c)"
proof -
  obtain b where b: "get_binary_mac m = Some b" using get_binary_mac_Some [OF assms(2)] by blast
  let ?d = "hmac (consensus_key (get_consensus_key env ks)) b"
  have d: "arr_get ?d 0 = Some (?d ! 0)" "arr_get ?d 1 = Some (?d ! 1)" "arr_get ?d 2 = Some (?d ! 2)"
    using assms(1) [unfolded digest_ok_def, rule_format, of "consensus_key (get_consensus_key env ks)" b]
    by (auto simp: arr_get_def)
  let ?n = "push_bit 16 (ucast (?d ! 0) :: u32) OR push_bit 8 (ucast (?d ! 1)) OR ucast (?d ! 2)"
  obtain t1 where t1: "trigraph (unat (drop_bit 12 ?n AND 0x0fff)) = Some t1" "length t1 = 3"
      "\<forall>c \<in> set t1. is_letter c"
    by (rule trigraph_letters [OF and_0xfff_less])
  obtain t2 where t2: "trigraph (unat (?n AND 0x0fff)) = Some t2" "length t2 = 3"
      "\<forall>c \<in> set t2. is_letter c"
    by (rule trigraph_letters [OF and_0xfff_less])
  have "get_anonid_for_mac hmac env m ks = Some (t1 @ t2, get_consensus_key env ks)"
    unfolding get_anonid_for_mac_def Let_def b d bind.bind_lunit t1(1) t2(1) ..
  then show ?thesis using t1 t2 by auto
qed

lemma is_mac_addr_take: "17 \<le> n \<Longrightarrow> is_mac_addr (take n s) sep \<longleftrightarrow> is_mac_addr s sep"
  by (simp add: is_mac_addr_def)

lemma looks_like_mac_take: "17 \<le> n \<Longrightarrow> looks_like_mac (take n s) \<longleftrightarrow> looks_like_mac s"
  by (simp add: looks_like_mac_def is_mac_addr_take)

lemma anonymize_eq:
  assumes "17 \<le> len" "i + len + 6 \<le> length line" "length name = 6"
    "get_anonid_for_mac hmac env (drop i line) ks = Some (name, ks')"
  shows "anonymize_mac_address hmac env line i len ks =
    Some (take i line @ name @ take (len - 11) (drop (i + 17) line) @ drop (i + len - 5) line, ks')"
proof -
  let ?l1 = "take i line @ name @ drop (i + 6) line"
  have "arr_put line i name = Some ?l1" using assms by (simp add: arr_put_Some)
  moreover have "arr_slice ?l1 (i + 6 + 11) (len - 11) = Some (take (len - 11) (drop (i + 17) line))"
    using assms by (simp add: arr_slice_def ac_simps)
  moreover have "arr_put ?l1 (i + 6) (take (len - 11) (drop (i + 17) line)) =
      Some (take i line @ name @ take (len - 11) (drop (i + 17) line) @ drop (i + len - 5) line)"
    using assms by (simp add: arr_put_def ac_simps)
  ultimately show ?thesis by (simp add: anonymize_mac_address_def assms(4))
qed

lemma is_mac_addrD:
  assumes "is_mac_addr s sep"
  shows "j \<in> {2, 5, 8, 11, 14} \<Longrightarrow> s ! j = sep" "j \<in> {0, 1, 15, 16} \<Longrightarrow> is_xdigit (s ! j)"
  using assms by (auto simp: is_mac_addr_def)

lemma is_mac_addr_cong:
  assumes "is_mac_addr s sep" "\<And>j. j < 15 \<Longrightarrow> s' ! j = s ! j" "is_xdigit (s' ! 15)" "is_xdigit (s' ! 16)"
  shows "is_mac_addr s' sep"
  using assms(1,3,4) unfolding is_mac_addr_def by (simp add: assms(2))

lemma separator_in_window:
  assumes "k \<le> (14 :: nat)"
  obtains j where "j \<in> {2, 5, 8, 11, 14}" "k \<le> j" "j \<le> k + 2"
proof -
  consider "k \<le> 2" | "2 < k" "k \<le> 5" | "5 < k" "k \<le> 8" | "8 < k" "k \<le> 11" | "11 < k"
    by linarith
  then show thesis
    using assms that [of 2] that [of 5] that [of 8] that [of 11] that [of 14] by cases simp_all
qed

lemma mac_addr_before_name:
  assumes mac: "looks_like_mac (drop i line)" and i: "i + 17 \<le> length line" and p: "p < i"
    and name: "length name = 6" "\<forall>c \<in> set name. is_letter c"
    and sep: "sep \<in> {58, 45, 95}" and new: "is_mac_addr (drop p (take i line @ name @ rest)) sep"
  shows "is_mac_addr (drop p line) sep"
proof -
  let ?line' = "take i line @ name @ rest"
  have at: "drop p ?line' ! j = ?line' ! (p + j)" for j
    using p i by (intro nth_drop) simp
  have old: "drop p ?line' ! j = drop p line ! j" if "p + j < i" for j
    using that p i unfolding at by (simp add: nth_append)
  have nm: "drop p ?line' ! j = name ! (p + j - i)" if "i \<le> p + j" "p + j < i + 6" for j
    using that p i name(1) unfolding at by (auto simp: nth_append)
  have far: "p + 14 < i"
  proof (rule ccontr)
    assume "\<not> p + 14 < i"
    then have "i - p \<le> 14" by simp
    then obtain j where j: "j \<in> {2, 5, 8, 11, 14}" "i - p \<le> j" "j \<le> i - p + 2"
      by (rule separator_in_window)
    have "name ! (p + j - i) \<in> set name" using j p name(1) by simp
    moreover have "name ! (p + j - i) = sep"
      using nm [of j] is_mac_addrD(1) [OF new j(1)] j p by simp
    ultimately show False using name(2) sep by auto
  qed
  have digits: "is_xdigit (line ! i)" "is_xdigit (line ! (i + 1))"
    using mac i by (auto simp: looks_like_mac_def is_mac_addr_def)
  have tail: "is_xdigit (drop p line ! j)" if "j \<in> {15, 16}" for j
  proof (cases "p + j < i")
    case True
    then show ?thesis using old [of j] is_mac_addrD(2) [OF new, of j] that by auto
  next
    case False
    then have "p + j = i \<or> p + j = i + 1" using far that by auto
    then show ?thesis using digits p i by auto
  qed
  show ?thesis
    using old far by (intro is_mac_addr_cong [OF new] tail) auto
qed

lemma looks_like_mac_seps:
  "looks_like_mac s \<longleftrightarrow> (\<exists>sep \<in> {58, 45, 95}. is_mac_addr s sep)"
  by (simp add: looks_like_mac_def)

lemma looks_like_mac_before_name:
  assumes "looks_like_mac (drop i line)" "i + 17 \<le> length line" "p < i"
    "length name = 6" "\<forall>c \<in> set name. is_letter c" "\<not> looks_like_mac (drop p line)"
  shows "\<not> looks_like_mac (drop p (take i line @ name @ rest))"
  using assms(6) mac_addr_before_name [OF assms(1-5)] unfolding looks_like_mac_seps by blast

lemma redact_key [simp]: "redact hmac env (get_consensus_key env ks) = redact hmac env ks"
  by (intro ext) (simp add: redact.simps)

lemma redact_at:
  assumes "looks_like_mac (drop i line)" "i + len \<le> length line" "17 \<le> len" "length name = 6"
    "get_anonid_for_mac hmac env (drop i line) ks = Some (name, ks')"
  shows "redact hmac env ks (take (i + len) line)
    (take (i + len - 11) (take i line @ name @ take (len - 11) (drop (i + 17) line) @ rest))"
proof -
  let ?m = "take 17 (drop i line)" and ?v = "take (len - 17) (drop (i + 17) line)"
  have m: "length ?m = 17" "looks_like_mac ?m" using assms by (simp_all add: looks_like_mac_take)
  have "get_anonid_for_mac hmac env ?m ks = Some (name, ks')"
    using assms(5) get_anonid_append [OF m(1), of hmac env "drop 17 (drop i line)" ks]
    unfolding append_take_drop_id by simp
  from redact_one [OF m this, of "take i line" ?v]
  have r: "redact hmac env ks (take i line @ ?m @ ?v) (take i line @ name @ ?v)" .
  have 1: "take (i + len) line = take i line @ ?m @ ?v"
  proof -
    have "take len (drop i line) = take (17 + (len - 17)) (drop i line)" using assms(3) by simp
    also have "\<dots> = ?m @ take (len - 17) (drop 17 (drop i line))" by (rule take_add)
    finally show ?thesis by (simp add: take_add ac_simps)
  qed
  have 2: "take (i + len - 11) (take i line @ name @ take (len - 11) (drop (i + 17) line) @ rest) =
      take i line @ name @ ?v"
    using assms(2-4) by simp
  show ?thesis using r unfolding 1 2 .
qed

section \<open>Every address is replaced\<close>

definition mac_free :: "byte list \<Rightarrow> nat \<Rightarrow> bool" where
  "mac_free line n \<longleftrightarrow> (\<forall>p. p + 17 \<le> n \<longrightarrow> \<not> looks_like_mac (drop p line))"

lemma suppress_loop_redacts:
  assumes "digest_ok hmac" "i + len = new_len" "new_len + 6 \<le> length line"
    "\<forall>p < i. p + 17 \<le> new_len \<longrightarrow> \<not> looks_like_mac (drop p line)"
  shows "\<exists>n line' ks'. suppress_loop hmac env line i len new_len ks = Some (n, line', ks') \<and>
    length line' = length line \<and> n \<le> new_len \<and> drop new_len line' = drop new_len line \<and>
    (redact hmac env ks)\<^sup>*\<^sup>* (take new_len line) (take n line') \<and> mac_free line' n"
  using assms
proof (induction hmac env line i len new_len ks rule: suppress_loop.induct)
  case (1 hmac env line i len new_len ks)
  note digest = "1.prems"(1)
  have b: "i + len = new_len" "new_len + 6 \<le> length line" using "1.prems" by auto
  show ?case
  proof (cases "17 \<le> len")
    case False
    then have "mac_free line new_len" using "1.prems" by (auto simp: mac_free_def)
    with False show ?thesis by (subst suppress_loop.simps) auto
  next
    case len: True
    then have room: "\<not> length line < i + 17" using b by simp
    show ?thesis
    proof (cases "looks_like_mac (drop i line)")
      case False
      have "\<forall>p < i + 1. p + 17 \<le> new_len \<longrightarrow> \<not> looks_like_mac (drop p line)"
        using "1.prems"(4) False by (auto simp: less_Suc_eq)
      with "1.IH"(2) [OF len room False digest] show ?thesis
        using len room False b by (subst suppress_loop.simps) simp
    next
      case mac: True
      obtain name where name: "get_anonid_for_mac hmac env (drop i line) ks = Some (name, get_consensus_key env ks)"
          "length name = 6" "\<forall>c \<in> set name. is_letter c"
        using get_anonid_Some [OF digest, of "drop i line" env ks] room by fastforce
      let ?l = "take i line @ name @ take (len - 11) (drop (i + 17) line) @ drop (i + len - 5) line"
      have step: "anonymize_mac_address hmac env line i len ks = Some (?l, get_consensus_key env ks)"
        using b by (intro anonymize_eq len name) simp
      have "\<forall>p < i. p + 17 \<le> new_len - 11 \<longrightarrow> \<not> looks_like_mac (drop p ?l)"
        using looks_like_mac_before_name [OF mac _ _ name(2,3)] "1.prems"(4) room by simp
      moreover have "i + (len - 11) = new_len - 11" "length ?l = length line" "new_len - 11 + 6 \<le> length ?l"
        using b len name(2) by simp_all
      ultimately obtain n line' ks' where r:
          "suppress_loop hmac env ?l i (len - 11) (new_len - 11) (get_consensus_key env ks) = Some (n, line', ks')"
          "length line' = length line" "n \<le> new_len - 11" "drop (new_len - 11) line' = drop (new_len - 11) ?l"
          "(redact hmac env ks)\<^sup>*\<^sup>* (take (new_len - 11) ?l) (take n line')" "mac_free line' n"
        using "1.IH"(1) [OF len room mac step refl digest] unfolding redact_key by metis
      have "redact hmac env ks (take new_len line) (take (new_len - 11) ?l)"
        using redact_at [OF mac _ len name(2,1)] b by auto
      then have "(redact hmac env ks)\<^sup>*\<^sup>* (take new_len line) (take n line')"
        using r(5) by (rule converse_rtranclp_into_rtranclp)
      moreover have "suppress_loop hmac env line i len new_len ks = Some (n, line', ks')"
        using len room mac step r(1) by (subst suppress_loop.simps) simp
      moreover have "drop new_len line' = drop new_len line"
      proof -
        have "drop 11 (drop (new_len - 11) line') = drop 11 (drop (new_len - 11) ?l)" using r(4) by simp
        moreover have "11 + (new_len - 11) = new_len" using b len by simp
        ultimately have "drop new_len line' = drop new_len ?l" unfolding drop_drop by (simp only:)
        also have "\<dots> = drop new_len line" using b len name(2) by (auto simp: ac_simps)
        finally show ?thesis .
      qed
      ultimately show ?thesis using r(2,3,6) by auto
    qed
  qed
qed

text \<open>
  Claim C28. Redaction: with six bytes of memory after the text, \<open>suppress_mac_addresses\<close> stays inside
  the line buffer and leaves the memory behind the text alone; what remains of the text is the given
  one rewritten by replacing addresses with their names, until nothing in it looks like a MAC address
  any more.
\<close>
theorem suppress_mac_addresses_redacts:
  assumes "digest_ok hmac" "len + 6 \<le> length line"
  shows "\<exists>n line' ks'. suppress_mac_addresses hmac env line len ks = Some (n, line', ks') \<and>
    length line' = length line \<and> n \<le> len \<and> drop len line' = drop len line \<and>
    (redact hmac env ks)\<^sup>*\<^sup>* (take len line) (take n line') \<and> mac_free line' n"
  unfolding suppress_mac_addresses_def
  by (rule suppress_loop_redacts) (use assms in auto)

definition sample_env :: key_env where
  "sample_env = \<lparr>stat_ok = True, st_ino = 1, st_mtime = 2, key_file = Some (replicate 16 7), urandom = None,
     time_now = 0\<rparr>"

definition sample_keys :: key_state where
  "sample_keys = \<lparr>consensus_key = replicate 16 0, key_ino = 0, key_mtime = 0\<rparr>"

theorem suppress_mac_addresses_redacts_witness:
  "\<exists>n line' ks'. suppress_mac_addresses (\<lambda>k m. [1, 2, 3]) sample_env (lit ''x 00:1a:22:33:44:55 joined......'') 26 sample_keys
      = Some (n, line', ks') \<and>
    length line' = length (lit ''x 00:1a:22:33:44:55 joined......'') \<and> n \<le> 26 \<and>
    drop 26 line' = drop 26 (lit ''x 00:1a:22:33:44:55 joined......'') \<and>
    (redact (\<lambda>k m. [1, 2, 3]) sample_env sample_keys)\<^sup>*\<^sup>*
      (take 26 (lit ''x 00:1a:22:33:44:55 joined......'')) (take n line') \<and> mac_free line' n"
  by (rule suppress_mac_addresses_redacts) (simp_all add: digest_ok_def lit_def)

text \<open>Text without an address is left as it is.\<close>

lemma suppress_loop_mac_free:
  assumes "mac_free line new_len" "i + len = new_len" "new_len \<le> length line"
  shows "suppress_loop hmac env line i len new_len ks = Some (new_len, line, ks)"
  using assms
proof (induction len arbitrary: i)
  case 0
  then show ?case by (subst suppress_loop.simps) simp
next
  case (Suc len)
  show ?case
  proof (cases "17 \<le> Suc len")
    case True
    then have "\<not> looks_like_mac (drop i line)" using Suc.prems by (auto simp: mac_free_def)
    then show ?thesis using True Suc by (subst suppress_loop.simps) simp
  next
    case False
    then show ?thesis by (subst suppress_loop.simps) simp
  qed
qed

lemma suppress_mac_free:
  "mac_free line n \<Longrightarrow> n \<le> length line \<Longrightarrow> suppress_mac_addresses hmac env line n ks = Some (n, line, ks)"
  unfolding suppress_mac_addresses_def by (rule suppress_loop_mac_free) simp_all

text \<open>
  The block move at a replacement takes \<open>len - 11\<close> bytes from behind the address, six more
  than the text has there: text that fills its buffer and begins with an address is read past its end.
\<close>
lemma suppress_full_buffer_overread:
  assumes "digest_ok hmac" "17 \<le> length line" "looks_like_mac line"
  shows "suppress_mac_addresses hmac env line (length line) ks = None"
proof -
  obtain name where name: "get_anonid_for_mac hmac env line ks = Some (name, get_consensus_key env ks)"
      "length name = 6"
    using get_anonid_Some [OF assms(1,2)] by blast
  have "anonymize_mac_address hmac env line 0 (length line) ks = None"
    using assms(2) name by (simp add: anonymize_mac_address_def arr_put_def arr_slice_def)
  then show ?thesis
    using assms(2,3) unfolding suppress_mac_addresses_def
    by (subst suppress_loop.simps) simp
qed

end
