(* ===== verification/Log_Utils.thy ===== *)
theory Log_Utils
  imports C_Text
begin

text \<open>
  The helpers of the log uploader, \<^verbatim>\<open>src/logupload/client/utils.c\<close>: whole files read and written as strings
  and numbers, and the parser of a kernel log record. (\<open>deflate_inplace\<close> is in the theory of the main
  program.)

  The file system is a record: the contents of the files and, for every path, whether opening and
  reading it works and how much of a write it takes. A pointer argument that the code compares with
  \<open>NULL\<close> is an option; \<open>None\<close> as the result of an operation is undefined behaviour.
\<close>

section \<open>Files\<close>

record fs =
  files :: "cstr \<Rightarrow> byte list option"
  can_read :: "cstr \<Rightarrow> bool"
  can_write :: "cstr \<Rightarrow> bool"
  read_fails :: "cstr \<Rightarrow> bool"
  accepts :: "cstr \<Rightarrow> nat \<Rightarrow> int"

text \<open>\<open>open (O_RDONLY)\<close> and one \<open>read\<close> of at most \<open>n\<close> bytes.\<close>

datatype read_outcome = Open_Failed | Read_Failed | Read_Data "byte list"

definition fs_read :: "fs \<Rightarrow> cstr \<Rightarrow> nat \<Rightarrow> read_outcome" where
  "fs_read w p n =
     (case files w p of
        None \<Rightarrow> Open_Failed
      | Some c \<Rightarrow>
         if \<not> can_read w p then Open_Failed
         else if read_fails w p then Read_Failed
         else Read_Data (take n c))"

text \<open>
  One \<open>write\<close> on a file opened with \<open>O_CREAT\<close>: at the start of the file, what lies behind the written
  bytes is kept (there is no \<open>O_TRUNC\<close>), or, with \<open>O_APPEND\<close>, at its end. The result is \<open>write\<close>'s;
  \<open>None\<close> when the file could not be opened.
\<close>

definition file_content :: "fs \<Rightarrow> cstr \<Rightarrow> byte list" where
  "file_content w p = (case files w p of None \<Rightarrow> [] | Some c \<Rightarrow> c)"

definition fs_write :: "fs \<Rightarrow> bool \<Rightarrow> cstr \<Rightarrow> byte list \<Rightarrow> fs \<times> int option" where
  "fs_write w at_end p data =
     (if \<not> can_write w p then (w, None)
      else let n = accepts w p (length data);
               old = file_content w p;
               bs = take (nat n) data;
               new = (if at_end then old @ bs else bs @ drop (length bs) old)
           in (w\<lparr>files := (files w)(p := Some new)\<rparr>, Some n))"

definition read_file_as_string ::
    "fs \<Rightarrow> cstr option \<Rightarrow> byte list option \<Rightarrow> nat \<Rightarrow> (int \<times> byte list option) option" where
  "read_file_as_string w file_path data len =
     (case file_path of
        None \<Rightarrow> Some (-1, data)
      | Some p \<Rightarrow>
         (case data of
            None \<Rightarrow> Some (-1, None)
          | Some d \<Rightarrow>
             (case fs_read w p (len - 1) of
                Open_Failed \<Rightarrow> Some (-1, data)
              | Read_Failed \<Rightarrow> Some (-1, data)
              | Read_Data bs \<Rightarrow> do {
                  d \<leftarrow> arr_put d 0 bs;
                  d \<leftarrow> arr_put d (length bs) [0];
                  Some (int (length bs), Some d) })))"

fun rstrip_loop :: "byte list \<Rightarrow> nat \<Rightarrow> byte list" where
  "rstrip_loop s 0 = s"
| "rstrip_loop s (Suc l) = (if is_space (s ! l) then rstrip_loop (s[l := 0]) l else s)"

definition rstrip :: "byte list option \<Rightarrow> byte list option option" where
  "rstrip str =
     (case str of
        None \<Rightarrow> Some None
      | Some s \<Rightarrow>
         if 0 \<in> set s then Some (Some (rstrip_loop s (length (cstr_of s)))) else None)"

definition path_exists :: "fs \<Rightarrow> cstr \<Rightarrow> int" where
  "path_exists w p = (if files w p \<noteq> None then 1 else 0)"

text \<open>
  \<open>strtoull (s, NULL, 10)\<close>: white space, a sign, digits; out of range is the largest value, and a
  minus negates in the unsigned type.
\<close>

definition clamp_u64 :: "nat \<Rightarrow> u64" where
  "clamp_u64 n = (if n < 2 ^ 64 then word_of_nat n else - 1)"

definition strtoull :: "cstr \<Rightarrow> u64" where
  "strtoull s =
     (let t = dropWhile is_space s
      in case t of
           [] \<Rightarrow> 0
         | b # r \<Rightarrow>
            if b = 45 then (if dec_value 0 r < 2 ^ 64 then - clamp_u64 (dec_value 0 r) else - 1)
            else if b = 43 then clamp_u64 (dec_value 0 r)
            else clamp_u64 (dec_value 0 t))"

definition read_file_as_uint64 :: "fs \<Rightarrow> cstr \<Rightarrow> u64" where
  "read_file_as_uint64 w p =
     (case fs_read w p 63 of
        Open_Failed \<Rightarrow> 0
      | Read_Failed \<Rightarrow> 0
      | Read_Data bs \<Rightarrow> if 0 < length bs then strtoull (cstr_of bs) else 0)"

definition write_file_as_uint64 :: "fs \<Rightarrow> cstr \<Rightarrow> u64 \<Rightarrow> fs \<times> int" where
  "write_file_as_uint64 w p counter =
     (let data = dec_nat (unat counter) @ [10]
      in case fs_write w False p data of
           (w, None) \<Rightarrow> (w, -1)
         | (w, Some n) \<Rightarrow> (w, if n < int (length data) then -1 else 0))"

definition write_to_file :: "fs \<Rightarrow> cstr \<Rightarrow> cstr \<Rightarrow> fs \<times> int" where
  "write_to_file w p data =
     (case fs_write w True p data of
        (w, None) \<Rightarrow> (w, -1)
      | (w, Some n) \<Rightarrow> (w, if n < int (length data) then -1 else n))"

section \<open>Kernel log records\<close>

text \<open>
  \<open>strchr (s, c)\<close> on memory: the outer option is \<open>None\<close> when neither \<open>c\<close> nor a NUL is found before
  the block ends.
\<close>

fun strchr :: "byte list \<Rightarrow> byte \<Rightarrow> nat option option" where
  "strchr [] c = None"
| "strchr (b # bs) c =
     (if b = c then Some (Some 0)
      else if b = 0 then Some None
      else case strchr bs c of
             None \<Rightarrow> None
           | Some None \<Rightarrow> Some None
           | Some (Some k) \<Rightarrow> Some (Some (Suc k)))"

text \<open>\<open>text\<close> is the offset in the line of what the pointer of the struct points to.\<close>

record line_data =
  level :: u32
  ts_nsec :: u64
  seq :: u64
  text_off :: nat

definition parse_line_data :: "byte list \<Rightarrow> (byte list \<times> line_data option) option" where
  "parse_line_data line = do {
     c1 \<leftarrow> strchr line 44;
     case c1 of None \<Rightarrow> Some (line, None) | Some comma_1 \<Rightarrow> do {
       c2 \<leftarrow> strchr (drop (comma_1 + 1) line) 44;
       case c2 of None \<Rightarrow> Some (line, None) | Some k2 \<Rightarrow> do {
         let comma_2 = comma_1 + 1 + k2;
         s \<leftarrow> strchr (drop (comma_2 + 1) line) 59;
         case s of None \<Rightarrow> Some (line, None) | Some k3 \<Rightarrow> do {
           let semi = comma_2 + 1 + k3;
           nl \<leftarrow> strchr (drop semi line) 10;
           case nl of None \<Rightarrow> Some (line, None) | Some k4 \<Rightarrow> do {
             let newline = semi + k4;
             let data = \<lparr>level = atoi_u32 (cstr_of line),
                         ts_nsec = strtoull (cstr_of (drop (comma_2 + 1) line)),
                         seq = strtoull (cstr_of (drop (comma_1 + 1) line)),
                         text_off = semi + 1\<rparr>;
             line \<leftarrow> arr_put line (newline + 1) [0];
             Some (line, Some data) } } } } }"

section \<open>Stripping\<close>

lemma rstrip_loop_spec:
  assumes "n \<le> length s" "nul_free (take n s)"
  shows "cstr_of (take n (rstrip_loop s n)) = rev (dropWhile is_space (rev (take n s)))"
    "drop n (rstrip_loop s n) = drop n s" "length (rstrip_loop s n) = length s"
  using assms
proof (induction s n rule: rstrip_loop.induct)
  case (1 s)
  { case 1 then show ?case by (simp add: cstr_of_def) }
  { case 2 then show ?case by simp }
  { case 3 then show ?case by simp }
next
  case (2 s l)
  have e: "take (Suc l) s = take l s @ [s ! l]" if "Suc l \<le> length s" using that by (simp add: take_Suc_conv_app_nth)
  { case 1
    show ?case
    proof (cases "is_space (s ! l)")
      case True
      have "take (Suc l) (rstrip_loop (s[l := 0]) l) = take l (rstrip_loop (s[l := 0]) l) @ [0]"
        using 2 True 1 nth_drop [of l "rstrip_loop (s[l := 0]) l" 0] nth_drop [of l "s[l := 0]" 0]
        by (simp add: take_Suc_conv_app_nth nul_free_take e)
      moreover have "cstr_of (t @ [0]) = cstr_of t" for t
        by (induction t) (auto simp: cstr_of_def)
      ultimately show ?thesis using 2(1) [OF True] 1 True by (simp add: e)
    next
      case False
      then show ?thesis using 1 by (simp add: e cstr_of_id)
    qed }
  { case 2
    have "drop (Suc l) (rstrip_loop (s[l := 0]) l) = drop (Suc l) s"
      if "drop l (rstrip_loop (s[l := 0]) l) = drop l (s[l := 0])"
      using arg_cong [OF that, of "drop 1"] by simp
    then show ?case using 2 "2.IH"(2) by (auto simp: e) }
  { case 3
    then show ?case using "2.IH"(3) by (auto simp: e) }
qed

lemma cstr_of_split:
  assumes "0 \<in> set s"
  obtains r where "s = cstr_of s @ 0 # r"
proof -
  obtain a r where "s = a @ 0 # r" "0 \<notin> set a" using split_list_first [OF assms] by blast
  then have "s = cstr_of s @ 0 # r" by (simp add: cstr_of_append_nul cstr_of_id nul_free_def)
  then show thesis by (rule that)
qed

lemma rstrip_eq:
  assumes "0 \<in> set s"
  shows "\<exists>s'. rstrip (Some s) = Some (Some s') \<and> length s' = length s \<and> 0 \<in> set s' \<and>
    cstr_of s' = rev (dropWhile is_space (rev (cstr_of s)))"
proof -
  obtain r where r: "s = cstr_of s @ 0 # r" by (rule cstr_of_split [OF assms])
  let ?n = "length (cstr_of s)"
  have t: "take ?n s = cstr_of s" "drop ?n s = 0 # r" by (subst (2) r, simp)+
  have n: "?n \<le> length s" by (subst (2) r) simp
  note sp = rstrip_loop_spec [OF n, unfolded t(1), OF nul_free_cstr_of]
  have "rstrip_loop s ?n = take ?n (rstrip_loop s ?n) @ 0 # r"
    using sp(2) unfolding t(2) by (metis append_take_drop_id)
  then have "cstr_of (rstrip_loop s ?n) = cstr_of (take ?n (rstrip_loop s ?n))"
    "0 \<in> set (rstrip_loop s ?n)"
    by (metis cstr_of_append_nul, metis in_set_conv_decomp)
  then show ?thesis using assms sp by (simp add: rstrip_def)
qed

text \<open>
  \<open>rstrip\<close> on a terminated string removes exactly the trailing white space and leaves the
  rest of the string, and the size of its memory, alone.
\<close>
lemma rstrip_strips:
  assumes "0 \<in> set s"
  shows "\<exists>s' ws. rstrip (Some s) = Some (Some s') \<and> length s' = length s \<and>
    cstr_of s = cstr_of s' @ ws \<and> list_all is_space ws \<and>
    (cstr_of s' \<noteq> [] \<longrightarrow> \<not> is_space (last (cstr_of s')))"
proof -
  obtain s' where s': "rstrip (Some s) = Some (Some s')" "length s' = length s"
      "cstr_of s' = rev (dropWhile is_space (rev (cstr_of s)))"
    using rstrip_eq [OF assms] by blast
  let ?ws = "rev (takeWhile is_space (rev (cstr_of s)))"
  have "cstr_of s = rev (takeWhile is_space (rev (cstr_of s)) @ dropWhile is_space (rev (cstr_of s)))"
    by simp
  then have "cstr_of s = cstr_of s' @ ?ws" unfolding s'(3) rev_append .
  moreover have "list_all is_space ?ws" by (auto simp: list_all_iff dest: set_takeWhileD)
  moreover have "cstr_of s' \<noteq> [] \<longrightarrow> \<not> is_space (last (cstr_of s'))"
    unfolding s'(3) last_rev using hd_dropWhile [of is_space "rev (cstr_of s)"] by simp
  ultimately show ?thesis using s'(1,2) by blast
qed

section \<open>The counter file\<close>

lemma strtoull_digits:
  assumes "n < 2 ^ 64" "\<not> is_digit c"
  shows "strtoull (dec_nat n @ c # r) = word_of_nat n"
proof -
  obtain b bs where d: "dec_nat n = b # bs" using dec_nat_nonempty [of n] by (cases "dec_nat n") auto
  have "is_digit b" using dec_nat_digits [of n] by (simp add: d)
  then have "strtoull (dec_nat n @ c # r) = clamp_u64 (dec_value 0 (dec_nat n @ c # r))"
    by (simp add: strtoull_def d is_digit_not)
  also have "dec_value 0 (dec_nat n @ c # r) = n"
    using dec_value_stop [OF dec_nat_digits assms(2)] dec_value_dec_nat by simp
  finally show ?thesis using assms(1) by (simp add: clamp_u64_def)
qed

lemma cstr_of_append: "nul_free a \<Longrightarrow> cstr_of (a @ b) = a @ cstr_of b"
  by (auto simp: cstr_of_def nul_free_def takeWhile_append)

lemma counter_write_read:
  assumes "write_file_as_uint64 w p c = (w', 0)" "can_read w p" "\<not> read_fails w p"
  shows "read_file_as_uint64 w' p = c"
proof -
  let ?d = "dec_nat (unat c) @ [10]"
  have open_ok: "can_write w p" and took: "int (length ?d) \<le> accepts w p (length ?d)"
    and w': "w' = w\<lparr>files := (files w)(p := Some (?d @ drop (length ?d) (file_content w p)))\<rparr>"
    using assms(1) by (auto simp: write_file_as_uint64_def fs_write_def Let_def split: if_splits)
  let ?c = "?d @ drop (length ?d) (file_content w p)"
  have "unat c < 10 ^ 20" using unsigned_less [of c, where 'a = nat] by simp
  from length_dec_nat_bound [OF this] have len: "length ?d \<le> 63" by simp
  have "fs_read w' p 63 = Read_Data (take 63 ?c)"
    using assms(2,3) by (simp add: w' fs_read_def)
  moreover have "take 63 ?c = ?d @ take (63 - length ?d) (drop (length ?d) (file_content w p))"
    using len by (simp add: take_Cons')
  moreover have "strtoull (cstr_of (?d @ r)) = c" for r
    using strtoull_digits [of "unat c" 10 "cstr_of r"] unsigned_less [of c, where 'a = nat]
    by (simp add: cstr_of_append dec_nat_nul_free cstr_of_Cons is_digit_def)
  ultimately show ?thesis by (simp add: read_file_as_uint64_def)
qed

text \<open>
  The counter survives a restart: once \<open>write_file_as_uint64\<close> has reported success, reading
  the file gives the number that was written, whatever the file held before (it is not truncated)
  and for every 64-bit value.
\<close>
lemma counter_file_roundtrip:
  assumes "write_file_as_uint64 w p c = (w', 0)" "can_read w p" "\<not> read_fails w p"
  shows "read_file_as_uint64 w' p = c"
  using assms by (rule counter_write_read)

definition sample_fs :: fs where
  "sample_fs = \<lparr>files = (\<lambda>p. Some (lit ''123456'')), can_read = (\<lambda>p. True), can_write = (\<lambda>p. True),
     read_fails = (\<lambda>p. False), accepts = (\<lambda>p n. int n)\<rparr>"

section \<open>The record parser\<close>

lemma strchr_found: "nul_free a \<Longrightarrow> c \<notin> set a \<Longrightarrow> strchr (a @ c # r) c = Some (Some (length a))"
  by (induction a) auto

lemma strchr_cases:
  assumes "0 \<in> set m" "c \<noteq> 0"
  shows "strchr m c = Some None \<or>
    (\<exists>k. strchr m c = Some (Some k) \<and> k < length m \<and> m ! k = c \<and> 0 \<in> set (drop (Suc k) m))"
  using assms
proof (induction m c rule: strchr.induct)
  case (2 b bs c)
  then show ?case by (cases "b = c \<or> b = 0") auto
qed simp

lemma strchr_at:
  assumes "0 \<in> set (drop p m)" "c \<noteq> 0" "strchr (drop p m) c \<noteq> Some None"
  obtains k where "strchr (drop p m) c = Some (Some k)" "p + k < length m" "m ! (p + k) = c"
    "0 \<in> set (drop (p + k + 1) m)"
proof -
  obtain k where k: "strchr (drop p m) c = Some (Some k)" "k < length (drop p m)" "drop p m ! k = c"
      "0 \<in> set (drop (Suc k) (drop p m))"
    using strchr_cases [OF assms(1,2)] assms(3) by blast
  show thesis
  proof (rule that [OF k(1)])
    show "p + k < length m" "m ! (p + k) = c" using k(2,3) by (auto simp: nth_drop)
    show "0 \<in> set (drop (p + k + 1) m)" using k(4) by (simp add: add.commute)
  qed
qed

lemma separators_nonzero: "(44 :: byte) \<noteq> 0" "(59 :: byte) \<noteq> 0" "(10 :: byte) \<noteq> 0"
  by simp_all

lemma nul_drop_bound: "x \<in> set (drop k m) \<Longrightarrow> k < length m"
  by (rule ccontr) simp

text \<open>Where the four searches of the parser end.\<close>

lemma parse_line_data_shape:
  assumes "0 \<in> set line"
  shows "parse_line_data line = Some (line, None) \<or>
    (\<exists>off nl d. parse_line_data line = Some (take (nl + 1) line @ 0 # drop (nl + 2) line, Some d) \<and>
       text_off d = off \<and> 3 \<le> off \<and> off \<le> nl \<and> nl + 1 < length line)"
proof (rule disjCI)
  assume *: "\<not> (\<exists>off nl d. parse_line_data line = Some (take (nl + 1) line @ 0 # drop (nl + 2) line, Some d) \<and>
       text_off d = off \<and> 3 \<le> off \<and> off \<le> nl \<and> nl + 1 < length line)"
  have 0: "0 \<in> set (drop 0 line)" using assms by simp
  show "parse_line_data line = Some (line, None)"
  proof (rule ccontr)
    assume ne: "parse_line_data line \<noteq> Some (line, None)"
    then have "strchr (drop 0 line) 44 \<noteq> Some None" by (auto simp: parse_line_data_def)
    then obtain c1 where c1: "strchr line 44 = Some (Some c1)" "0 \<in> set (drop (c1 + 1) line)"
      using strchr_at [OF 0 separators_nonzero(1)] by (metis drop0 add_0)
    with ne have "strchr (drop (c1 + 1) line) 44 \<noteq> Some None" by (auto simp: parse_line_data_def)
    then obtain c2 where c2: "strchr (drop (c1 + 1) line) 44 = Some (Some c2)" "0 \<in> set (drop (c1 + 1 + c2 + 1) line)"
      using strchr_at [OF c1(2) separators_nonzero(1)] by metis
    with ne c1 have "strchr (drop (c1 + 1 + c2 + 1) line) 59 \<noteq> Some None"
      by (auto simp: parse_line_data_def Let_def)
    then obtain s where s: "strchr (drop (c1 + 1 + c2 + 1) line) 59 = Some (Some s)"
        "line ! (c1 + 1 + c2 + 1 + s) = 59" "0 \<in> set (drop (c1 + 1 + c2 + 1 + s + 1) line)"
      using strchr_at [OF c2(2) separators_nonzero(2)] by metis
    let ?semi = "c1 + 1 + c2 + 1 + s"
    have z: "0 \<in> set (drop ?semi line)"
      using s(3) set_drop_subset_set_drop [of ?semi "?semi + 1" line] by auto
    have "strchr (drop ?semi line) 10 \<noteq> Some None"
      using ne c1 c2 s by (auto simp: parse_line_data_def Let_def)
    then obtain n where n: "strchr (drop ?semi line) 10 = Some (Some n)" "line ! (?semi + n) = 10"
        "0 \<in> set (drop (?semi + n + 1) line)"
      using strchr_at [OF z separators_nonzero(3)] by metis
    have fit: "?semi + n + 1 < length line" by (rule nul_drop_bound [OF n(3)])
    have "n \<noteq> 0" using n(2) s(2) by (intro notI) simp
    then have "?semi + 1 \<le> ?semi + n" by simp
    moreover have "3 \<le> ?semi + 1" by simp
    moreover have "\<exists>d. parse_line_data line =
        Some (take (?semi + n + 1) line @ 0 # drop (?semi + n + 2) line, Some d) \<and> text_off d = ?semi + 1"
      using fit c1(1) c2(1) s(1) n(1) by (simp add: parse_line_data_def Let_def arr_put_def)
    ultimately show False using * fit by blast
  qed
qed

lemma parse_line_data_safe:
  assumes "0 \<in> set line"
  shows "\<exists>line' r. parse_line_data line = Some (line', r) \<and> length line' = length line \<and>
    (\<forall>i. line ! i = 0 \<longrightarrow> line' ! i = 0) \<and>
    (\<forall>d. r = Some d \<longrightarrow> 3 \<le> text_off d \<and> text_off d \<le> length line \<and> 0 \<in> set (drop (text_off d) line'))"
  using parse_line_data_shape [OF assms]
proof (elim disjE exE conjE)
  fix off nl d
  let ?l = "take (nl + 1) line @ 0 # drop (nl + 2) line"
  assume p: "parse_line_data line = Some (?l, Some d)" "text_off d = off" "3 \<le> off" "off \<le> nl" "nl + 1 < length line"
  have "line ! i = 0 \<longrightarrow> ?l ! i = 0" for i
    using p upd_conv_take_nth_drop [of "nl + 1" line 0] nth_list_update [of "nl + 1" line 0 i] by auto
  moreover have "0 \<in> set (drop off ?l)" using p by simp
  ultimately show ?thesis using p by auto
qed (use assms in auto)

text \<open>A record as the kernel formats it: level, sequence number and time stamp, flags, text.\<close>

record kmsg_record =
  k_level :: nat
  k_seq :: nat
  k_ts :: nat
  k_flags :: cstr
  k_text :: cstr

definition kmsg_header :: "kmsg_record \<Rightarrow> cstr" where
  "kmsg_header r = dec_nat (k_level r) @ [44] @ dec_nat (k_seq r) @ [44] @ dec_nat (k_ts r) @ [44] @ k_flags r @ [59]"

definition kmsg_line :: "kmsg_record \<Rightarrow> cstr" where
  "kmsg_line r = kmsg_header r @ k_text r @ [10]"

definition kmsg_wf :: "kmsg_record \<Rightarrow> bool" where
  "kmsg_wf r \<longleftrightarrow> k_level r < 2 ^ 31 \<and> k_seq r < 2 ^ 64 \<and> k_ts r < 2 ^ 64 \<and>
     nul_free (k_flags r) \<and> 59 \<notin> set (k_flags r) \<and> nul_free (k_text r) \<and> 10 \<notin> set (k_text r)"

lemma dec_nat_no_sep: "44 \<notin> set (dec_nat n)" "59 \<notin> set (dec_nat n)" "10 \<notin> set (dec_nat n)"
  using dec_nat_digits [of n] by (auto simp: list_all_iff dest: is_digit_not)

lemma parse_kmsg_line:
  assumes "kmsg_wf r"
  shows "parse_line_data (kmsg_line r @ x # rest) =
    Some (kmsg_line r @ 0 # rest,
      Some \<lparr>level = word_of_nat (k_level r), ts_nsec = word_of_nat (k_ts r), seq = word_of_nat (k_seq r),
            text_off = length (kmsg_header r)\<rparr>)"
proof -
  let ?a = "dec_nat (k_level r)" and ?b = "dec_nat (k_seq r)" and ?c = "dec_nat (k_ts r)"
  let ?t = "k_text r @ 10 # x # rest"
  let ?l3 = "?c @ 44 # k_flags r @ 59 # ?t"
  let ?l2 = "?b @ 44 # ?l3"
  have l: "kmsg_line r @ x # rest = ?a @ 44 # ?l2" by (simp add: kmsg_line_def kmsg_header_def)
  have wf: "nul_free (k_flags r)" "59 \<notin> set (k_flags r)" "nul_free (k_text r)" "10 \<notin> set (k_text r)"
    using assms by (simp_all add: kmsg_wf_def)
  have s1: "strchr (?a @ 44 # ?l2) 44 = Some (Some (length ?a))"
    by (rule strchr_found) (simp_all add: dec_nat_nul_free dec_nat_no_sep)
  have s2: "strchr ?l2 44 = Some (Some (length ?b))"
    by (rule strchr_found) (simp_all add: dec_nat_nul_free dec_nat_no_sep)
  have s3: "strchr ?l3 59 = Some (Some (length (?c @ 44 # k_flags r)))"
    using strchr_found [of "?c @ 44 # k_flags r" 59 ?t] wf by (simp add: dec_nat_nul_free dec_nat_no_sep)
  have s4: "strchr (59 # ?t) 10 = Some (Some (length (59 # k_text r)))"
    using strchr_found [of "59 # k_text r" 10 "x # rest"] wf by simp
  have nd: "\<not> is_digit 44" by (simp add: is_digit_def)
  have "unat (word_of_nat (k_level r) :: u32) = k_level r" "int (k_level r) < 2 ^ 63"
    using assms by (auto simp: kmsg_wf_def unsigned_of_nat take_bit_nat_eq_self_iff)
  then have v1: "atoi_u32 (cstr_of (?a @ 44 # ?l2)) = word_of_nat (k_level r)"
    by (simp add: atoi_u32_def cstr_of_append dec_nat_nul_free cstr_of_Cons c_atoi_digits nd)
  have v2: "strtoull (cstr_of ?l2) = word_of_nat (k_seq r)"
    using assms by (simp add: kmsg_wf_def cstr_of_append dec_nat_nul_free cstr_of_Cons strtoull_digits nd)
  have v3: "strtoull (cstr_of ?l3) = word_of_nat (k_ts r)"
    using assms by (simp add: kmsg_wf_def cstr_of_append dec_nat_nul_free cstr_of_Cons strtoull_digits nd)
  show ?thesis
    unfolding l parse_line_data_def s1 bind.bind_lunit option.case
    using s2 s3 s4 v1 v2 v3
    by (simp add: Let_def arr_put_def kmsg_line_def kmsg_header_def eval_nat_numeral)
qed

lemma kmsg_line_text:
  assumes "kmsg_wf r"
  shows "cstr_of (drop (length (kmsg_header r)) (kmsg_line r @ 0 # rest)) = k_text r @ [10]"
  using assms by (simp add: kmsg_line_def kmsg_wf_def cstr_of_append cstr_of_Cons) (simp add: cstr_of_def)

text \<open>
  The record parser reads what the kernel prints: on a line in the buffer with at least one
  byte behind it, level, sequence number, time stamp and text are those of the record, whatever bytes
  an earlier line left behind this one.
\<close>
lemma parse_line_data_roundtrip:
  assumes "kmsg_wf r"
  shows "\<exists>line' d. parse_line_data (kmsg_line r @ x # rest) = Some (line', Some d) \<and>
    unat (level d) = k_level r \<and> unat (seq d) = k_seq r \<and> unat (ts_nsec d) = k_ts r \<and>
    cstr_of (drop (text_off d) line') = k_text r @ [10]"
  using parse_kmsg_line [OF assms, of x rest] kmsg_line_text [OF assms, of rest] assms
  by (simp add: kmsg_wf_def unsigned_of_nat take_bit_nat_eq_self_iff)

end
