(* ===== verification/Log_Parse.thy ===== *)
theory Log_Parse
  imports Mac_Suppress Log_Utils
begin

text \<open>
  The reader of the kernel log in the log uploader, \<^verbatim>\<open>src/logupload/client/log_uploader.c\<close>: \<open>logmark_once\<close> and
  \<open>parse_and_consume_log_data\<close>, which collects the records of \<^verbatim>\<open>/dev/kmsg\<close> since the last upload in one
  buffer.

  The callback \<open>read_log_data\<close> is a list of what its successive calls return; the run is \<open>Starved\<close> when
  the loop asks for more than the list holds. The clock and the key file are arguments; the key file
  may change between two lines.
\<close>

section \<open>Parameters\<close>

definition LOG_MARKER_START :: cstr where
  "LOG_MARKER_START = lit ''*LOG_UPLOAD_START*''"

definition LOG_MARKER_END :: cstr where
  "LOG_MARKER_END = lit ''*LOG_UPLOAD_END*''"

definition LOG_MARKER_START_LINE :: cstr where
  "LOG_MARKER_START_LINE = lit ''<7>*LOG_UPLOAD_START*'' @ [10]"

definition LOG_MARKER_END_LINE :: cstr where
  "LOG_MARKER_END_LINE = lit ''<7>*LOG_UPLOAD_END*'' @ [10]"

record upload_config =
  server :: "byte list"
  logtype :: "byte list"
  upload_all :: bool
  use_stdout :: bool
  use_stdin :: bool
  freq :: int
  upload_target :: "byte list"

record log_parse_params =
  config :: upload_config
  dev_kmsg_path :: cstr
  version_path :: cstr
  ntp_synced_path :: cstr
  last_log_counter :: u64
  log_buffer :: "byte list"
  total_read :: nat
  line_buffer :: "byte list"
  line_buffer_size :: nat
  last_line_valid :: bool

datatype errno = EAGAIN | EPIPE | EINVAL | EOTHER

datatype log_read = Got "byte list" | Failed errno

record clock =
  tv_sec :: int
  tv_nsec :: int
  tm_mon :: int
  tm_mday :: int
  tm_hour :: int
  tm_min :: int
  tm_sec :: int

text \<open>\<open>%02d\<close>, \<open>%03d\<close>, \<open>%06d\<close> on numbers that are not negative.\<close>

definition zpad :: "nat \<Rightarrow> int \<Rightarrow> cstr" where
  "zpad w i = lpad w 48 (dec_int i)"

section \<open>The log mark\<close>

definition log_mark :: "cstr \<Rightarrow> clock \<Rightarrow> int \<Rightarrow> cstr" where
  "log_mark version clk ntp =
     lit ''<7>T: '' @ version @ lit '' '' @ dec_int (tv_sec clk) @ lit ''.'' @ zpad 3 (tv_nsec clk div 1000000) @
     lit '' '' @ zpad 2 (tm_mon clk + 1) @ lit ''/'' @ zpad 2 (tm_mday clk) @ lit '' '' @ zpad 2 (tm_hour clk) @
     lit '':'' @ zpad 2 (tm_min clk) @ lit '':'' @ zpad 2 (tm_sec clk) @ lit '' ntp='' @ dec_int ntp @ [10]"

definition logmark_once :: "clock \<Rightarrow> cstr \<Rightarrow> cstr \<Rightarrow> cstr \<Rightarrow> fs \<Rightarrow> (fs \<times> int) option" where
  "logmark_once clk output_path ver_path ntp_sync_path w = do {
     (len, v) \<leftarrow> read_file_as_string w (Some ver_path) (Some (replicate 64 0)) 64;
     let version = (if len < 0 then Some (lit ''unknown-version'' @ replicate 49 0) else v);
     version \<leftarrow> rstrip version;
     version \<leftarrow> version;
     let buf = take 1023 (log_mark (cstr_of version) clk (path_exists w ntp_sync_path));
     let (w, rv) = write_to_file w output_path buf;
     Some (w, if rv < 0 then -1 else 0) }"

section \<open>Collecting the records\<close>

text \<open>Subtraction of \<open>unsigned long\<close> values.\<close>

definition ulong_sub :: "nat \<Rightarrow> nat \<Rightarrow> nat" where
  "ulong_sub a b = (if b \<le> a then a - b else a + 2 ^ 64 - b)"

fun is_prefix :: "cstr \<Rightarrow> cstr \<Rightarrow> bool" where
  "is_prefix [] s = True"
| "is_prefix (p # ps) [] = False"
| "is_prefix (p # ps) (c # s) = (p = c \<and> is_prefix ps s)"

fun strstr :: "cstr \<Rightarrow> cstr \<Rightarrow> bool" where
  "strstr [] pat = is_prefix pat []"
| "strstr (c # s) pat = (is_prefix pat (c # s) \<or> strstr s pat)"

text \<open>The local variables of the function, with the state it works on.\<close>

record parse_state =
  ps_params :: log_parse_params
  ps_fs :: fs
  ps_keys :: key_state
  wrote_start_marker :: bool
  last_start_marker :: "nat option"
  last_start_before_end_marker :: "nat option"

definition time_prefix :: "line_data \<Rightarrow> cstr" where
  "time_prefix d =
     (let time_sec = sint (ucast (ts_nsec d div 1000000) :: u32);
          time_usec = sint (ucast (ts_nsec d mod 1000000) :: u32)
      in lit ''['' @ lpad 5 32 (dec_int time_sec) @ lit ''.'' @ zpad 6 time_usec @ lit ''] '')"

definition missed_text :: "line_data \<Rightarrow> u64 \<Rightarrow> cstr" where
  "missed_text d prev =
     lit ''<7>'' @ time_prefix d @ lit ''WARNING: missed '' @ dec_nat (unat (seq d - prev - 1)) @
     lit '' log entries'' @ [10]"

definition entry_text :: "line_data \<Rightarrow> cstr \<Rightarrow> cstr" where
  "entry_text d txt = lit ''<'' @ dec_int (sint (level d)) @ lit ''>'' @ time_prefix d @ txt"

text \<open>\<open>params->total_read += snprintf (params->log_buffer + params->total_read, ...)\<close>\<close>

definition append_log :: "nat \<Rightarrow> cstr \<Rightarrow> log_parse_params \<Rightarrow> log_parse_params option" where
  "append_log log_buffer_size s p = do {
     buf \<leftarrow> snprintf_at (log_buffer p) (total_read p) (ulong_sub log_buffer_size (total_read p)) s;
     Some (p\<lparr>log_buffer := buf, total_read := total_read p + length s\<rparr>) }"

text \<open>The body of the loop after a successful read; the flag says whether the loop goes on.\<close>

definition track_markers :: "bool \<Rightarrow> cstr \<Rightarrow> nat \<Rightarrow> parse_state \<Rightarrow> parse_state" where
  "track_markers check txt pos st =
     (if check then
        (if strstr txt LOG_MARKER_END \<and> last_start_marker st \<noteq> None
         then st\<lparr>last_start_before_end_marker := last_start_marker st, last_start_marker := None\<rparr>
         else if strstr txt LOG_MARKER_START then st\<lparr>last_start_marker := Some pos\<rparr>
         else st)
      else st)"

definition take_entry :: "nat \<Rightarrow> bool \<Rightarrow> line_data \<Rightarrow> cstr \<Rightarrow> parse_state \<Rightarrow> parse_state option" where
  "take_entry log_buffer_size check d txt st =
     (let p = ps_params st
      in if 0 < last_log_counter p \<and> \<not> last_log_counter p + 1 < seq d \<and>
            \<not> upload_all (config p) \<and> seq d \<le> last_log_counter p
         then Some st
         else do {
           p \<leftarrow> (if 0 < last_log_counter p \<and> last_log_counter p + 1 < seq d
                 then append_log log_buffer_size (missed_text d (last_log_counter p)) p
                 else Some p);
           let st = track_markers check txt (total_read p) st;
           p \<leftarrow> append_log log_buffer_size (entry_text d txt) p;
           Some (st\<lparr>ps_params := p\<lparr>last_log_counter := seq d\<rparr>\<rparr>) })"

definition consume_line ::
    "(byte list \<Rightarrow> byte list \<Rightarrow> byte list) \<Rightarrow> key_env \<Rightarrow> nat \<Rightarrow> bool \<Rightarrow> nat \<Rightarrow> parse_state \<Rightarrow> (bool \<times> parse_state) option" where
  "consume_line hmac kenv log_buffer_size check num_read st = do {
     let p = ps_params st;
     (num_read, line, ks) \<leftarrow> suppress_mac_addresses hmac kenv (line_buffer p) num_read (ps_keys st);
     (line, parsed) \<leftarrow> parse_line_data line;
     let p = p\<lparr>line_buffer := line\<rparr>;
     let st = st\<lparr>ps_params := p, ps_keys := ks\<rparr>;
     case parsed of
       None \<Rightarrow> do {
         raw \<leftarrow> arr_slice line 0 num_read;
         buf \<leftarrow> arr_put (log_buffer p) (total_read p) raw;
         Some (True, st\<lparr>ps_params := p\<lparr>log_buffer := buf, total_read := total_read p + num_read\<rparr>\<rparr>) }
     | Some d \<Rightarrow>
         (let txt = cstr_of (drop (text_off d) line)
          in if wrote_start_marker st \<and> strstr txt LOG_MARKER_START
             then Some (False, st\<lparr>ps_params := p\<lparr>last_line_valid := True\<rparr>\<rparr>)
             else do {
               st \<leftarrow> take_entry log_buffer_size check d txt st;
               Some (True, st) }) }"

text \<open>After \<open>EAGAIN\<close>: the start marker and the log mark are written once; \<open>None\<close> inside the option is
  the abort with \<open>NULL\<close>.\<close>

definition write_start_marker :: "clock \<Rightarrow> parse_state \<Rightarrow> (fs \<times> bool) option" where
  "write_start_marker clk st =
     (let p = ps_params st;
          (w, rv) = write_to_file (ps_fs st) (dev_kmsg_path p) LOG_MARKER_START_LINE
      in if rv < 0 then Some (w, False)
         else do {
           (w, rv) \<leftarrow> logmark_once clk (dev_kmsg_path p) (version_path p) (ntp_synced_path p) w;
           Some (w, \<not> rv < 0) })"

datatype loop_end = Broke | Aborted | Starved

lemma append_log_frame:
  assumes "append_log sz s p = Some p'"
  shows "last_line_valid p' = last_line_valid p" "last_log_counter p' = last_log_counter p"
    "line_buffer p' = line_buffer p" "line_buffer_size p' = line_buffer_size p" "config p' = config p"
    "total_read p' = total_read p + length s"
  using assms by (auto simp: append_log_def bind_eq_Some_conv)

lemma track_markers_frame [simp]:
  "ps_params (track_markers c t n st) = ps_params st" "ps_fs (track_markers c t n st) = ps_fs st"
  "ps_keys (track_markers c t n st) = ps_keys st"
  "wrote_start_marker (track_markers c t n st) = wrote_start_marker st"
  by (auto simp: track_markers_def)

lemma take_entry_valid:
  "take_entry sz c d txt st = Some st' \<Longrightarrow> last_line_valid (ps_params st') = last_line_valid (ps_params st)"
  by (auto simp: take_entry_def Let_def bind_eq_Some_conv append_log_frame split: if_splits)

lemma consume_line_valid:
  assumes "consume_line hmac kenv sz c n st = Some (True, st')"
  shows "last_line_valid (ps_params st') = last_line_valid (ps_params st)"
  using assms take_entry_valid
  by (fastforce simp: consume_line_def Let_def bind_eq_Some_conv split: option.splits if_splits prod.splits)

function consume_loop ::
    "(byte list \<Rightarrow> byte list \<Rightarrow> byte list) \<Rightarrow> (nat \<Rightarrow> key_env) \<Rightarrow> clock \<Rightarrow> nat \<Rightarrow> bool \<Rightarrow> log_read list \<Rightarrow> parse_state \<Rightarrow>
       (loop_end \<times> log_read list \<times> parse_state) option" where
  "consume_loop hmac kenv clk log_buffer_size check reads st =
     (let p = ps_params st
      in if log_buffer_size \<le> total_read p + 2 * line_buffer_size p then Some (Broke, reads, st)
         else if last_line_valid p then
           (case consume_line hmac (kenv (length reads)) log_buffer_size check 0
                   (st\<lparr>ps_params := p\<lparr>last_line_valid := False\<rparr>\<rparr>) of
              None \<Rightarrow> None
            | Some (False, st) \<Rightarrow> Some (Broke, reads, st)
            | Some (True, st) \<Rightarrow> consume_loop hmac kenv clk log_buffer_size check reads st)
         else
           (case reads of
              [] \<Rightarrow> Some (Starved, [], st)
            | Failed EAGAIN # rest \<Rightarrow>
               (if wrote_start_marker st then Some (Broke, rest, st)
                else case write_start_marker clk st of
                       None \<Rightarrow> None
                     | Some (w, ok) \<Rightarrow>
                        (if ok then consume_loop hmac kenv clk log_buffer_size check rest
                                      (st\<lparr>ps_fs := w, wrote_start_marker := True\<rparr>)
                         else Some (Aborted, rest, st\<lparr>ps_fs := w\<rparr>)))
            | Failed EPIPE # rest \<Rightarrow> consume_loop hmac kenv clk log_buffer_size check rest st
            | Failed EINVAL # rest \<Rightarrow> consume_loop hmac kenv clk log_buffer_size check rest st
            | Failed EOTHER # rest \<Rightarrow> Some (Aborted, rest, st)
            | Got bs # rest \<Rightarrow>
               (case arr_put (line_buffer p) 0 bs of
                  None \<Rightarrow> None
                | Some line \<Rightarrow>
                   (case consume_line hmac (kenv (length reads)) log_buffer_size check (length bs)
                           (st\<lparr>ps_params := p\<lparr>line_buffer := line\<rparr>\<rparr>) of
                      None \<Rightarrow> None
                    | Some (False, st) \<Rightarrow> Some (Broke, rest, st)
                    | Some (True, st) \<Rightarrow> consume_loop hmac kenv clk log_buffer_size check rest st))))"
  by pat_completeness auto
termination
  by (relation "measure (\<lambda>(hmac, kenv, clk, sz, c, reads, st).
        length reads + (if last_line_valid (ps_params st) then 1 else 0))")
    (auto simp: consume_line_valid)

declare consume_loop.simps [simp del]

text \<open>
  \<open>parse_and_consume_log_data\<close>: \<open>Log_Data\<close> is the offset in the log buffer of the data to use, \<open>Log_Null\<close>
  the result \<open>NULL\<close>.
\<close>

datatype consumed = Log_Data nat | Log_Null | Log_Starved

definition parse_and_consume_log_data ::
    "(byte list \<Rightarrow> byte list \<Rightarrow> byte list) \<Rightarrow> (nat \<Rightarrow> key_env) \<Rightarrow> clock \<Rightarrow> log_read list \<Rightarrow> fs \<Rightarrow> key_state \<Rightarrow>
       log_parse_params \<Rightarrow> (consumed \<times> log_read list \<times> fs \<times> key_state \<times> log_parse_params) option" where
  "parse_and_consume_log_data hmac kenv clk reads w ks params = do {
     let log_buffer_size = total_read params;
     let check_for_markers = (last_log_counter params = 0);
     let st = \<lparr>ps_params = params\<lparr>total_read := 0\<rparr>, ps_fs = w, ps_keys = ks, wrote_start_marker = False,
               last_start_marker = None, last_start_before_end_marker = None\<rparr>;
     (e, reads, st) \<leftarrow> consume_loop hmac kenv clk log_buffer_size check_for_markers reads st;
     let p = ps_params st;
     case e of
       Starved \<Rightarrow> Some (Log_Starved, reads, ps_fs st, ps_keys st, p)
     | Aborted \<Rightarrow> Some (Log_Null, reads, ps_fs st, ps_keys st, p)
     | Broke \<Rightarrow> do {
         buf \<leftarrow> arr_put (log_buffer p) (total_read p) [0];
         let p = p\<lparr>log_buffer := buf\<rparr>;
         case (if check_for_markers then last_start_before_end_marker st else None) of
           Some dupe_size \<Rightarrow>
             Some (Log_Data dupe_size, reads, ps_fs st, ps_keys st,
                   p\<lparr>total_read := ulong_sub (total_read p) dupe_size\<rparr>)
         | None \<Rightarrow> Some (Log_Data 0, reads, ps_fs st, ps_keys st, p) } }"

section \<open>Memory safety\<close>

lemma length_dec_int_32: "length (dec_int (sint (w :: u32))) \<le> 11"
proof -
  have "- (2 ^ 31) \<le> sint w" "sint w < 2 ^ 31"
    using sint_ge [of w] sint_lt [of w] by simp_all
  then have "nat (- sint w) < 10 ^ 10" "nat (sint w) < 10 ^ 10" by simp_all
  from this [THEN length_dec_nat_bound] show ?thesis
    by (simp add: dec_int_def lit_def)
qed

lemma length_lpad: "length (lpad w c s) = max w (length s)"
  by (simp add: lpad_def)

lemma length_time_prefix: "length (time_prefix d) \<le> 26"
  using length_dec_int_32 [of "ucast (ts_nsec d div 1000000)"] length_dec_int_32 [of "ucast (ts_nsec d mod 1000000)"]
  by (simp add: time_prefix_def zpad_def length_lpad lit_def Let_def)

lemma length_missed_text: "length (missed_text d prev) \<le> 78"
proof -
  have "unat (seq d - prev - 1) < 10 ^ 20"
    using unsigned_less [of "seq d - prev - 1", where 'a = nat] by simp
  from length_dec_nat_bound [OF this] show ?thesis
    using length_time_prefix [of d] by (simp add: missed_text_def lit_def)
qed

lemma length_entry_text: "length (entry_text d txt) \<le> 39 + length txt"
  using length_time_prefix [of d] length_dec_int_32 [of "level d"]
  by (simp add: entry_text_def lit_def)

lemma append_log_Some:
  assumes "total_read p + length s < sz" "sz \<le> length (log_buffer p)"
  shows "append_log sz s p =
    Some (p\<lparr>log_buffer := take (total_read p) (log_buffer p) @ s @ 0 # drop (total_read p + length s + 1) (log_buffer p),
            total_read := total_read p + length s\<rparr>)"
  using assms by (simp add: append_log_def snprintf_at_def ulong_sub_def arr_put_def)

text \<open>
  What the loop keeps: the line buffer has its size and ends in a NUL, and the text collected so far,
  with a byte to spare, is within the size the caller gave.
\<close>

definition log_inv :: "nat \<Rightarrow> log_parse_params \<Rightarrow> bool" where
  "log_inv sz p \<longleftrightarrow>
     length (line_buffer p) = line_buffer_size p \<and> 128 \<le> line_buffer_size p \<and>
     line_buffer p ! (line_buffer_size p - 1) = 0 \<and> sz \<le> length (log_buffer p)"

text \<open>The remembered marker positions lie in the text collected so far.\<close>

definition st_inv :: "nat \<Rightarrow> parse_state \<Rightarrow> bool" where
  "st_inv sz st \<longleftrightarrow> log_inv sz (ps_params st) \<and>
     (\<forall>m \<in> set_option (last_start_marker st) \<union> set_option (last_start_before_end_marker st).
        m \<le> total_read (ps_params st))"

lemma st_invD [dest]: "st_inv sz st \<Longrightarrow> log_inv sz (ps_params st)"
  by (simp add: st_inv_def)

lemma st_inv_params:
  assumes "st_inv sz st" "log_inv sz p" "total_read (ps_params st) \<le> total_read p"
  shows "st_inv sz (st\<lparr>ps_params := p\<rparr>)"
  using assms by (fastforce simp: st_inv_def)

lemma st_inv_frame [simp]:
  "st_inv sz (st\<lparr>ps_keys := ks\<rparr>) = st_inv sz st" "st_inv sz (st\<lparr>ps_fs := w\<rparr>) = st_inv sz st"
  "st_inv sz (st\<lparr>wrote_start_marker := b\<rparr>) = st_inv sz st"
  by (simp_all add: st_inv_def)

lemma track_markers_st_inv:
  assumes "st_inv sz st" "log_inv sz p" "total_read (ps_params st) \<le> n" "n \<le> total_read p"
  shows "st_inv sz ((track_markers c t n st)\<lparr>ps_params := p\<rparr>)"
  using assms by (auto simp: st_inv_def track_markers_def)

lemma take_entry_safe:
  assumes "st_inv sz st" "total_read (ps_params st) + 2 * line_buffer_size (ps_params st) < sz"
    "length txt \<le> line_buffer_size (ps_params st)"
  shows "\<exists>st'. take_entry sz c d txt st = Some st' \<and> st_inv sz st' \<and>
    total_read (ps_params st') < sz \<and> line_buffer_size (ps_params st') = line_buffer_size (ps_params st)"
proof (cases "0 < last_log_counter (ps_params st) \<and> last_log_counter (ps_params st) + 1 < seq d")
  case True
  let ?p = "ps_params st"
  note l = length_missed_text [of d "last_log_counter ?p"] length_entry_text [of d "txt"]
  obtain p1 where p1: "append_log sz (missed_text d (last_log_counter ?p)) ?p = Some p1" "log_inv sz p1"
      "total_read p1 = total_read ?p + length (missed_text d (last_log_counter ?p))"
      "line_buffer_size p1 = line_buffer_size ?p"
    using assms st_invD [OF assms(1)] l by (auto simp: append_log_Some log_inv_def)
  obtain p2 where p2: "append_log sz (entry_text d txt) p1 = Some p2" "log_inv sz p2"
      "total_read p2 < sz" "line_buffer_size p2 = line_buffer_size ?p"
    using assms l p1 by (auto simp: append_log_Some log_inv_def)
  have "st_inv sz ((track_markers c txt (total_read p1) st)\<lparr>ps_params := p2\<lparr>last_log_counter := seq d\<rparr>\<rparr>)"
    using assms(1) p1 p2 append_log_frame(6) [OF p2(1)] by (intro track_markers_st_inv) (simp_all add: log_inv_def)
  then show ?thesis using True p1 p2 by (simp add: take_entry_def Let_def)
next
  case False
  let ?p = "ps_params st"
  note l = length_entry_text [of d "txt"]
  obtain p2 where p2: "append_log sz (entry_text d txt) ?p = Some p2" "log_inv sz p2"
      "total_read p2 < sz" "line_buffer_size p2 = line_buffer_size ?p"
    using assms st_invD [OF assms(1)] l by (auto simp: append_log_Some log_inv_def)
  have "st_inv sz ((track_markers c txt (total_read ?p) st)\<lparr>ps_params := p2\<lparr>last_log_counter := seq d\<rparr>\<rparr>)"
    using assms(1) p2 append_log_frame(6) [OF p2(1)] by (intro track_markers_st_inv) (simp_all add: log_inv_def)
  then show ?thesis using False p2 assms by (auto simp: take_entry_def Let_def)
qed

lemma consume_line_safe:
  assumes "digest_ok hmac" "st_inv sz st"
    "total_read (ps_params st) + 2 * line_buffer_size (ps_params st) < sz"
    "n + 7 \<le> line_buffer_size (ps_params st)"
  shows "\<exists>b st'. consume_line hmac kenv sz c n st = Some (b, st') \<and> st_inv sz st' \<and>
    total_read (ps_params st') < sz \<and> line_buffer_size (ps_params st') = line_buffer_size (ps_params st)"
proof -
  let ?p = "ps_params st" and ?L = "line_buffer_size (ps_params st)"
  have len: "length (line_buffer ?p) = ?L" "128 \<le> ?L" "line_buffer ?p ! (?L - 1) = 0" "sz \<le> length (log_buffer ?p)"
    using st_invD [OF assms(2)] by (auto simp: log_inv_def)
  obtain m line ks where s: "suppress_mac_addresses hmac kenv (line_buffer ?p) n (ps_keys st) = Some (m, line, ks)"
      "length line = ?L" "m \<le> n" "drop n line = drop n (line_buffer ?p)"
    unfolding suppress_mac_addresses_def
    using suppress_loop_redacts [OF assms(1), of 0 n n "line_buffer ?p" kenv "ps_keys st"] assms(4) len by auto
  have "drop n line ! (?L - 1 - n) = 0" unfolding s(4) using assms(4) len by simp
  then have z: "line ! (?L - 1) = 0" using assms(4) s(2) by simp
  then have "0 \<in> set line" using s(2) len(2) nth_mem [of "?L - 1" line] by auto
  from parse_line_data_safe [OF this] obtain line' r where r: "parse_line_data line = Some (line', r)"
      "length line' = ?L" "line' ! (?L - 1) = 0"
      "\<forall>d. r = Some d \<longrightarrow> text_off d \<le> length line \<and> 0 \<in> set (drop (text_off d) line')"
    using z s(2) by auto
  let ?p' = "?p\<lparr>line_buffer := line'\<rparr>"
  let ?st = "st\<lparr>ps_params := ?p', ps_keys := ks\<rparr>"
  have log': "log_inv sz ?p'" using r len by (simp add: log_inv_def)
  then have inv': "st_inv sz ?st" using st_inv_params [OF assms(2), of ?p'] by simp
  show ?thesis
  proof (cases r)
    case None
    let ?buf = "take (total_read ?p) (log_buffer ?p) @ take m line' @ drop (total_read ?p + m) (log_buffer ?p)"
    let ?q = "?p'\<lparr>log_buffer := ?buf, total_read := total_read ?p + m\<rparr>"
    have "consume_line hmac kenv sz c n st = Some (True, ?st\<lparr>ps_params := ?q\<rparr>)"
      using None s r assms(3,4) len
      by (simp add: consume_line_def Let_def arr_slice_def arr_put_def)
    moreover have "log_inv sz ?q" using log' s assms(3,4) len by (simp add: log_inv_def)
    then have "st_inv sz (?st\<lparr>ps_params := ?q\<rparr>)" by (intro st_inv_params [OF inv']) simp_all
    ultimately show ?thesis using s assms(3,4) by auto
  next
    case (Some d)
    have "length (cstr_of (drop (text_off d) line')) \<le> length line'"
      unfolding cstr_of_def by (rule order_trans [OF length_takeWhile_le]) simp
    with take_entry_safe [of sz ?st "cstr_of (drop (text_off d) line')" c d] r(2) inv' assms(3)
    obtain st' where e: "take_entry sz c d (cstr_of (drop (text_off d) line')) ?st = Some st'" "st_inv sz st'"
        "total_read (ps_params st') < sz" "line_buffer_size (ps_params st') = ?L" by auto
    have "st_inv sz (?st\<lparr>ps_params := ?p'\<lparr>last_line_valid := True\<rparr>\<rparr>)"
      using log' by (intro st_inv_params [OF inv']) (simp_all add: log_inv_def)
    then show ?thesis using s r Some e assms(3) by (auto simp: consume_line_def Let_def)
  qed
qed

lemma read_file_as_string_block:
  assumes "0 < n" "length d = n"
  shows "\<exists>len d'. read_file_as_string w (Some p) (Some d) n = Some (len, Some d') \<and> length d' = n \<and>
    (0 \<le> len \<longrightarrow> 0 \<in> set d')"
proof (cases "fs_read w p (n - 1)")
  case (Read_Data bs)
  then have "length bs \<le> n - 1" by (auto simp: fs_read_def split: option.splits if_splits)
  then show ?thesis using Read_Data assms
    by (auto simp: read_file_as_string_def arr_put_def)
qed (use assms in \<open>auto simp: read_file_as_string_def\<close>)

lemma logmark_once_Some: "\<exists>w' rv. logmark_once clk out ver ntp w = Some (w', rv)"
proof -
  obtain len d where d: "read_file_as_string w (Some ver) (Some (replicate 64 0)) 64 = Some (len, Some d)"
      "0 \<le> len \<longrightarrow> 0 \<in> set d"
    using read_file_as_string_block [of 64 "replicate 64 0" w ver] by auto
  let ?v = "if len < 0 then lit ''unknown-version'' @ replicate 49 0 else d"
  have "0 \<in> set ?v" using d(2) by (auto simp: lit_def)
  from rstrip_eq [OF this] obtain v' where "rstrip (Some ?v) = Some (Some v')" by blast
  then show ?thesis using d(1) by (auto simp: logmark_once_def Let_def split: prod.splits if_splits)
qed

lemma write_start_marker_Some: "\<exists>w ok. write_start_marker clk st = Some (w, ok)"
proof -
  obtain w rv where w: "write_to_file (ps_fs st) (dev_kmsg_path (ps_params st)) LOG_MARKER_START_LINE = (w, rv)"
    by fastforce
  show ?thesis
    using logmark_once_Some [of clk "dev_kmsg_path (ps_params st)" "version_path (ps_params st)"
        "ntp_synced_path (ps_params st)" w]
    by (auto simp: write_start_marker_def Let_def w)
qed

text \<open>A record of the kernel is shorter than the line buffer: seven bytes are enough to spare.\<close>

definition reads_fit :: "nat \<Rightarrow> log_read list \<Rightarrow> bool" where
  "reads_fit n reads \<longleftrightarrow> list_all (\<lambda>r. case r of Got bs \<Rightarrow> length bs + 7 \<le> n | Failed e \<Rightarrow> True) reads"

lemma put_line_inv:
  assumes "log_inv sz p" "length bs + 7 \<le> line_buffer_size p"
  shows "\<exists>line. arr_put (line_buffer p) 0 bs = Some line \<and> log_inv sz (p\<lparr>line_buffer := line\<rparr>)"
  using assms by (auto simp: log_inv_def arr_put_def nth_append)

text \<open>The loop, one read at a time.\<close>

lemma consume_loop_full:
  "sz \<le> total_read (ps_params st) + 2 * line_buffer_size (ps_params st) \<Longrightarrow>
     consume_loop hmac kenv clk sz c reads st = Some (Broke, reads, st)"
  by (subst consume_loop.simps) (simp add: Let_def)

lemma consume_loop_valid:
  assumes "\<not> sz \<le> total_read (ps_params st) + 2 * line_buffer_size (ps_params st)" "last_line_valid (ps_params st)"
    "consume_line hmac (kenv (length reads)) sz c 0
       (st\<lparr>ps_params := (ps_params st)\<lparr>last_line_valid := False\<rparr>\<rparr>) = Some (b, st')"
  shows "consume_loop hmac kenv clk sz c reads st =
    (if b then consume_loop hmac kenv clk sz c reads st' else Some (Broke, reads, st'))"
  using assms by (subst consume_loop.simps) (simp add: Let_def)

lemma consume_loop_Nil:
  assumes "\<not> sz \<le> total_read (ps_params st) + 2 * line_buffer_size (ps_params st)" "\<not> last_line_valid (ps_params st)"
  shows "consume_loop hmac kenv clk sz c [] st = Some (Starved, [], st)"
  using assms by (subst consume_loop.simps) (simp add: Let_def)

lemma consume_loop_Got:
  assumes "\<not> sz \<le> total_read (ps_params st) + 2 * line_buffer_size (ps_params st)" "\<not> last_line_valid (ps_params st)"
    "arr_put (line_buffer (ps_params st)) 0 bs = Some line"
    "consume_line hmac (kenv (Suc (length rest))) sz c (length bs)
       (st\<lparr>ps_params := (ps_params st)\<lparr>line_buffer := line\<rparr>\<rparr>) = Some (b, st')"
  shows "consume_loop hmac kenv clk sz c (Got bs # rest) st =
    (if b then consume_loop hmac kenv clk sz c rest st' else Some (Broke, rest, st'))"
  using assms by (subst consume_loop.simps) (simp add: Let_def)

lemma consume_loop_Failed:
  assumes "\<not> sz \<le> total_read (ps_params st) + 2 * line_buffer_size (ps_params st)" "\<not> last_line_valid (ps_params st)"
  shows "consume_loop hmac kenv clk sz c (Failed e # rest) st =
    (case e of
       EAGAIN \<Rightarrow>
        (if wrote_start_marker st then Some (Broke, rest, st)
         else case write_start_marker clk st of
                None \<Rightarrow> None
              | Some (w, ok) \<Rightarrow>
                 (if ok then consume_loop hmac kenv clk sz c rest (st\<lparr>ps_fs := w, wrote_start_marker := True\<rparr>)
                  else Some (Aborted, rest, st\<lparr>ps_fs := w\<rparr>)))
     | EOTHER \<Rightarrow> Some (Aborted, rest, st)
     | _ \<Rightarrow> consume_loop hmac kenv clk sz c rest st)"
  using assms by (subst consume_loop.simps) (simp add: Let_def split: errno.split)

text \<open>
  An invariant of the loop: a predicate that processing a line, reading into the line buffer, taking the
  remembered line and writing the start marker preserve.
\<close>

definition loop_invariant ::
    "(byte list \<Rightarrow> byte list \<Rightarrow> byte list) \<Rightarrow> clock \<Rightarrow> nat \<Rightarrow> bool \<Rightarrow> (parse_state \<Rightarrow> bool) \<Rightarrow> bool" where
  "loop_invariant hmac clk sz c P \<longleftrightarrow>
     (\<forall>st n k b st'. P st \<longrightarrow> consume_line hmac k sz c n st = Some (b, st') \<longrightarrow> P st') \<and>
     (\<forall>st l. P st \<longrightarrow> P (st\<lparr>ps_params := (ps_params st)\<lparr>line_buffer := l\<rparr>\<rparr>)) \<and>
     (\<forall>st. P st \<longrightarrow> P (st\<lparr>ps_params := (ps_params st)\<lparr>last_line_valid := False\<rparr>\<rparr>)) \<and>
     (\<forall>st w ok b. P st \<longrightarrow> write_start_marker clk st = Some (w, ok) \<longrightarrow> P (st\<lparr>ps_fs := w, wrote_start_marker := b\<rparr>))"

lemma consume_loop_invariant_reading:
  assumes P: "loop_invariant hmac clk sz c P"
    and "consume_loop hmac kenv clk sz c reads st = Some (e, reads', st')" "P st" "\<not> last_line_valid (ps_params st)"
  shows "P st'"
  using assms(2-)
proof (induction reads arbitrary: st)
  case Nil
  then show ?case
    by (cases "sz \<le> total_read (ps_params st) + 2 * line_buffer_size (ps_params st)")
      (auto simp: consume_loop_full consume_loop_Nil)
next
  case (Cons r rest)
  let ?p = "ps_params st"
  show ?case
  proof (cases "sz \<le> total_read ?p + 2 * line_buffer_size ?p")
    case True
    then show ?thesis using Cons.prems by (auto simp: consume_loop_full)
  next
    case room: False
    show ?thesis
    proof (cases r)
      case (Got bs)
      obtain l b s1 where l: "arr_put (line_buffer ?p) 0 bs = Some l"
          and s1: "consume_line hmac (kenv (Suc (length rest))) sz c (length bs)
            (st\<lparr>ps_params := ?p\<lparr>line_buffer := l\<rparr>\<rparr>) = Some (b, s1)"
        using Cons.prems(1,3) room unfolding Got
        by (subst (asm) consume_loop.simps) (auto simp: Let_def split: option.splits)
      have "P s1" using P Cons.prems(2) s1 unfolding loop_invariant_def by blast
      moreover have "b \<Longrightarrow> \<not> last_line_valid (ps_params s1)"
        using consume_line_valid [of hmac "kenv (Suc (length rest))" sz c "length bs" _ s1] s1 Cons.prems(3) by (cases b) auto
      ultimately show ?thesis
        using Cons.IH [of s1] Cons.prems(1) consume_loop_Got [where kenv = kenv and rest = rest, OF room Cons.prems(3) l s1]
        by (cases b) (auto simp: Got)
    next
      case (Failed e')
      have w: "P (st\<lparr>ps_fs := w, wrote_start_marker := b\<rparr>)" if "write_start_marker clk st = Some (w, ok)" for w ok b
        using P Cons.prems(2) that unfolding loop_invariant_def by blast
      have a: "P (st\<lparr>ps_fs := w\<rparr>)" if "write_start_marker clk st = Some (w, ok)" for w ok
        using w [OF that, of "wrote_start_marker st"] by simp
      show ?thesis
        using Cons.prems w a Cons.IH [of st] Cons.IH [of "st\<lparr>ps_fs := w, wrote_start_marker := True\<rparr>" for w]
        unfolding Failed consume_loop_Failed [OF room Cons.prems(3)]
        by (cases e') (auto split: if_splits option.splits)
    qed
  qed
qed

lemma consume_loop_invariant:
  assumes P: "loop_invariant hmac clk sz c P"
    and run: "consume_loop hmac kenv clk sz c reads st = Some (e, reads', st')" and "P st"
  shows "P st'"
proof (cases "last_line_valid (ps_params st) \<and> \<not> sz \<le> total_read (ps_params st) + 2 * line_buffer_size (ps_params st)")
  case True
  let ?st = "st\<lparr>ps_params := (ps_params st)\<lparr>last_line_valid := False\<rparr>\<rparr>"
  obtain b s1 where s1: "consume_line hmac (kenv (length reads)) sz c 0 ?st = Some (b, s1)"
    using run True by (subst (asm) consume_loop.simps) (auto simp: Let_def split: option.splits)
  have "P s1" using P assms(3) s1 unfolding loop_invariant_def by blast
  moreover have "b \<Longrightarrow> \<not> last_line_valid (ps_params s1)"
    using consume_line_valid [of hmac "kenv (length reads)" sz c 0 ?st s1] s1 by (cases b) auto
  ultimately show ?thesis
    using consume_loop_invariant_reading [OF P, of kenv reads s1] run True
      consume_loop_valid [of sz st hmac kenv reads c b s1] s1 by (cases b) auto
next
  case False
  then show ?thesis
    using consume_loop_invariant_reading [OF P run assms(3)] run assms(3) by (auto simp: consume_loop_full)
qed

lemma consume_loop_safe_reading:
  assumes "digest_ok hmac" "st_inv sz st" "total_read (ps_params st) < sz"
    "reads_fit (line_buffer_size (ps_params st)) reads" "\<not> last_line_valid (ps_params st)"
  shows "\<exists>e reads' st'. consume_loop hmac kenv clk sz c reads st = Some (e, reads', st') \<and>
    st_inv sz st' \<and> total_read (ps_params st') < sz"
  using assms(2-)
proof (induction reads arbitrary: st)
  case Nil
  then show ?case
    by (cases "sz \<le> total_read (ps_params st) + 2 * line_buffer_size (ps_params st)")
      (auto simp: consume_loop_full consume_loop_Nil)
next
  case (Cons r rest)
  let ?p = "ps_params st"
  show ?case
  proof (cases "sz \<le> total_read ?p + 2 * line_buffer_size ?p")
    case True
    then show ?thesis using Cons.prems by (auto simp: consume_loop_full)
  next
    case room: False
    have fit: "reads_fit (line_buffer_size ?p) rest" using Cons.prems(3) by (simp add: reads_fit_def)
    show ?thesis
    proof (cases r)
      case (Got bs)
      have n: "length bs + 7 \<le> line_buffer_size ?p" using Cons.prems(3) by (simp add: Got reads_fit_def)
      obtain line where line: "arr_put (line_buffer ?p) 0 bs = Some line" "log_inv sz (?p\<lparr>line_buffer := line\<rparr>)"
        using put_line_inv [OF st_invD [OF Cons.prems(1)] n] by blast
      let ?st = "st\<lparr>ps_params := ?p\<lparr>line_buffer := line\<rparr>\<rparr>"
      have "st_inv sz ?st" by (rule st_inv_params [OF Cons.prems(1) line(2)]) simp
      then obtain b st' where l: "consume_line hmac (kenv (Suc (length rest))) sz c (length bs) ?st = Some (b, st')"
          "st_inv sz st'" "total_read (ps_params st') < sz"
          "line_buffer_size (ps_params st') = line_buffer_size ?p"
        using consume_line_safe [OF assms(1), of sz ?st "length bs"] room n by fastforce
      have "b \<Longrightarrow> \<not> last_line_valid (ps_params st')"
        using consume_line_valid [of hmac "kenv (Suc (length rest))" sz c "length bs" ?st st'] l(1) Cons.prems(4)
        by (cases b) auto
      then show ?thesis
        using Cons.IH [OF l(2,3)] fit l(2-4) consume_loop_Got [where kenv = kenv and rest = rest, OF room Cons.prems(4) line(1) l(1)]
        by (cases b) (auto simp: Got)
    next
      case (Failed e)
      obtain w ok where w: "write_start_marker clk st = Some (w, ok)" using write_start_marker_Some by blast
      show ?thesis
        unfolding Failed consume_loop_Failed [OF room Cons.prems(4)] w
        using Cons.prems fit Cons.IH [of st] Cons.IH [of "st\<lparr>ps_fs := w, wrote_start_marker := True\<rparr>"]
        by (cases e) simp_all
    qed
  qed
qed

lemma consume_loop_safe:
  assumes "digest_ok hmac" "st_inv sz st" "total_read (ps_params st) < sz"
    "reads_fit (line_buffer_size (ps_params st)) reads"
  shows "\<exists>e reads' st'. consume_loop hmac kenv clk sz c reads st = Some (e, reads', st') \<and>
    st_inv sz st' \<and> total_read (ps_params st') < sz"
proof (cases "last_line_valid (ps_params st) \<and> \<not> sz \<le> total_read (ps_params st) + 2 * line_buffer_size (ps_params st)")
  case True
  let ?st = "st\<lparr>ps_params := (ps_params st)\<lparr>last_line_valid := False\<rparr>\<rparr>"
  have inv: "st_inv sz ?st"
    using st_invD [OF assms(2)] by (intro st_inv_params [OF assms(2)]) (simp_all add: log_inv_def)
  have n: "0 + 7 \<le> line_buffer_size (ps_params ?st)"
    using st_invD [OF assms(2)] by (simp add: log_inv_def)
  obtain b st' where l: "consume_line hmac (kenv (length reads)) sz c 0 ?st = Some (b, st')"
      "st_inv sz st'" "total_read (ps_params st') < sz"
      "line_buffer_size (ps_params st') = line_buffer_size (ps_params st)"
    using consume_line_safe [OF assms(1) inv _ n, of "kenv (length reads)" c] True by fastforce
  have "b \<Longrightarrow> \<not> last_line_valid (ps_params st')"
    using consume_line_valid [of hmac "kenv (length reads)" sz c 0 ?st st'] l(1) by (cases b) auto
  then show ?thesis
    using consume_loop_valid [of sz st hmac kenv reads c b st'] True l
      consume_loop_safe_reading [OF assms(1) l(2,3)] assms(4)
    by (cases b) simp_all
next
  case False
  then show ?thesis using consume_loop_safe_reading [OF assms] assms by (auto simp: consume_loop_full)
qed

text \<open>
  Claim C26. Memory safety of the collector, under two conditions that the main program does not ensure
  itself: the line buffer, of at least 128 bytes, ends in a NUL when the collector is called, and every read
  returns at least seven bytes less than fit the buffer. Then for every sequence of such reads and of read
  errors no buffer is left; the collected text with its terminating NUL lies within the size the caller gave,
  and so does what is returned when the part before the last start marker is cut off.
\<close>
theorem log_buffers_safe:
  assumes "digest_ok hmac" "log_inv (total_read params) params" "0 < total_read params"
    "reads_fit (line_buffer_size params) reads"
  shows "\<exists>r reads' w' ks' p'. parse_and_consume_log_data hmac kenv clk reads w ks params = Some (r, reads', w', ks', p') \<and>
    log_inv (total_read params) p' \<and>
    (\<forall>off. r = Log_Data off \<longrightarrow> off + total_read p' < total_read params \<and> log_buffer p' ! (off + total_read p') = 0)"
proof -
  let ?sz = "total_read params"
  let ?st = "\<lparr>ps_params = params\<lparr>total_read := 0\<rparr>, ps_fs = w, ps_keys = ks, wrote_start_marker = False,
    last_start_marker = None, last_start_before_end_marker = None\<rparr>"
  have "st_inv ?sz ?st" using assms(2) by (simp add: st_inv_def log_inv_def)
  with consume_loop_safe [OF assms(1), of ?sz ?st reads kenv clk "last_log_counter params = 0"] assms(3,4)
  obtain e reads' st where r: "consume_loop hmac kenv clk ?sz (last_log_counter params = 0) reads ?st = Some (e, reads', st)"
      "st_inv ?sz st" "total_read (ps_params st) < ?sz" by auto
  let ?p = "ps_params st"
  have inv: "log_inv ?sz ?p" "?sz \<le> length (log_buffer ?p)" using r(2) by (auto simp: st_inv_def log_inv_def)
  let ?buf = "take (total_read ?p) (log_buffer ?p) @ [0] @ drop (total_read ?p + 1) (log_buffer ?p)"
  have put: "arr_put (log_buffer ?p) (total_read ?p) [0] = Some ?buf"
    using inv r(3) by (simp add: arr_put_def)
  have buf: "?buf ! total_read ?p = 0" "length ?buf = length (log_buffer ?p)"
    using inv r(3) by (simp_all add: nth_append)
  show ?thesis
  proof (cases "e = Broke")
    case True
    show ?thesis
    proof (cases "if last_log_counter params = 0 then last_start_before_end_marker st else None")
      case None
      then show ?thesis using True r(1,3) put buf inv
        by (simp add: parse_and_consume_log_data_def Let_def log_inv_def)
    next
      case (Some m)
      then have "m \<le> total_read ?p" using r(2) by (auto simp: st_inv_def split: if_splits)
      then show ?thesis using True Some r(1,3) put buf inv
        by (simp add: parse_and_consume_log_data_def Let_def log_inv_def ulong_sub_def)
    qed
  next
    case False
    then show ?thesis using r(1) inv
      by (cases e) (simp_all add: parse_and_consume_log_data_def Let_def)
  qed
qed

definition sample_config :: upload_config where
  "sample_config = \<lparr>server = [0], logtype = [0], upload_all = False, use_stdout = False, use_stdin = False,
     freq = 60, upload_target = [0]\<rparr>"

definition sample_params :: log_parse_params where
  "sample_params = \<lparr>config = sample_config, dev_kmsg_path = lit ''/dev/kmsg'', version_path = lit ''/etc/version'',
     ntp_synced_path = lit ''/tmp/ntp.synced'', last_log_counter = 7, log_buffer = replicate 2000 0, total_read = 1000,
     line_buffer = replicate 128 0, line_buffer_size = 128, last_line_valid = False\<rparr>"

definition sample_clock :: clock where
  "sample_clock = \<lparr>tv_sec = 1400000000, tv_nsec = 5000000, tm_mon = 4, tm_mday = 13, tm_hour = 16, tm_min = 53, tm_sec = 20\<rparr>"

theorem log_buffers_safe_witness:
  "\<exists>r reads' w' ks' p'. parse_and_consume_log_data (\<lambda>k m. [1, 2, 3]) (\<lambda>n. sample_env) sample_clock
      [Got (lit ''6,8,5;from 00:11:22:33:44:55'' @ [10]), Failed EPIPE, Got (lit ''junk''), Failed EAGAIN] sample_fs sample_keys sample_params
      = Some (r, reads', w', ks', p') \<and>
    log_inv (total_read sample_params) p' \<and>
    (\<forall>off. r = Log_Data off \<longrightarrow> off + total_read p' < total_read sample_params \<and> log_buffer p' ! (off + total_read p') = 0)"
  by (rule log_buffers_safe) (simp_all add: digest_ok_def log_inv_def sample_params_def reads_fit_def lit_def)

end
