(* ===== verification/Log_Spec.thy ===== *)
theory Log_Spec
  imports Log_Parse
begin

text \<open>
  What an upload of the kernel log promises, and that the collector of the log uploader keeps it. The
  specification works on records and numbers: which records are uploaded, which are reported as
  missed, and how each is printed.
\<close>

section \<open>Specification\<close>

datatype log_item = Missed nat kmsg_record | Entry kmsg_record

text \<open>The items a record adds after the record number \<open>prev\<close> (0: nothing known), and the new number.\<close>

definition rec_items :: "bool \<Rightarrow> nat \<Rightarrow> kmsg_record \<Rightarrow> log_item list" where
  "rec_items every prev r =
     (if 0 < prev \<and> k_seq r \<le> prev \<and> \<not> every then []
      else if 0 < prev \<and> prev + 1 < k_seq r then [Missed (k_seq r - prev - 1) r, Entry r]
      else [Entry r])"

definition rec_next :: "bool \<Rightarrow> nat \<Rightarrow> kmsg_record \<Rightarrow> nat" where
  "rec_next every prev r = (if 0 < prev \<and> k_seq r \<le> prev \<and> \<not> every then prev else k_seq r)"

fun upload_items :: "bool \<Rightarrow> nat \<Rightarrow> kmsg_record list \<Rightarrow> log_item list" where
  "upload_items every prev [] = []"
| "upload_items every prev (r # rs) = rec_items every prev r @ upload_items every (rec_next every prev r) rs"

fun upload_next :: "bool \<Rightarrow> nat \<Rightarrow> kmsg_record list \<Rightarrow> nat" where
  "upload_next every prev [] = prev"
| "upload_next every prev (r # rs) = upload_next every (rec_next every prev r) rs"

definition stamp :: "kmsg_record \<Rightarrow> cstr" where
  "stamp r = lit ''['' @ lpad 5 32 (dec_nat (k_ts r div 1000000)) @ lit ''.'' @
     lpad 6 48 (dec_nat (k_ts r mod 1000000)) @ lit ''] ''"

fun item_text :: "log_item \<Rightarrow> cstr" where
  "item_text (Missed n r) =
     lit ''<7>'' @ stamp r @ lit ''WARNING: missed '' @ dec_nat n @ lit '' log entries'' @ [10]"
| "item_text (Entry r) = lit ''<'' @ dec_nat (k_level r) @ lit ''>'' @ stamp r @ k_text r @ [10]"

definition items_text :: "log_item list \<Rightarrow> cstr" where
  "items_text is = concat (map item_text is)"

lemma items_text_simps [simp]:
  "items_text [] = []" "items_text (i # is) = item_text i @ items_text is"
  "items_text (is @ js) = items_text is @ items_text js"
  by (simp_all add: items_text_def)

lemma upload_items_append [simp]:
  "upload_items every prev (rs @ qs) = upload_items every prev rs @ upload_items every (upload_next every prev rs) qs"
  by (induction rs arbitrary: prev) auto

lemma upload_next_append [simp]:
  "upload_next every prev (rs @ qs) = upload_next every (upload_next every prev rs) qs"
  by (induction rs arbitrary: prev) auto

text \<open>The records a list of items uploads, and how many it reports as missed.\<close>

definition item_entries :: "log_item list \<Rightarrow> kmsg_record list" where
  "item_entries is = concat (map (\<lambda>i. case i of Entry r \<Rightarrow> [r] | Missed n r \<Rightarrow> []) is)"

definition item_missed :: "log_item list \<Rightarrow> nat" where
  "item_missed is = sum_list (map (\<lambda>i. case i of Entry r \<Rightarrow> 0 | Missed n r \<Rightarrow> n) is)"

lemma item_simps [simp]:
  "item_entries [] = []" "item_entries (Entry r # is) = r # item_entries is"
  "item_entries (Missed n r # is) = item_entries is" "item_entries (is @ js) = item_entries is @ item_entries js"
  "item_missed [] = 0" "item_missed (Entry r # is) = item_missed is"
  "item_missed (Missed n r # is) = n + item_missed is" "item_missed (is @ js) = item_missed is + item_missed js"
  by (simp_all add: item_entries_def item_missed_def)

lemma upload_fresh:
  assumes "0 < prev" "sorted_wrt (<) (map k_seq rs)" "list_all (\<lambda>r. prev < k_seq r) rs"
  shows "item_entries (upload_items False prev rs) = rs \<and>
    prev + length rs + item_missed (upload_items False prev rs) = upload_next False prev rs"
  using assms
proof (induction rs arbitrary: prev)
  case (Cons r rs)
  have n: "rec_next False prev r = k_seq r" using Cons.prems by (simp add: rec_next_def)
  have "list_all (\<lambda>q. k_seq r < k_seq q) rs" using Cons.prems(2) by (simp add: list_all_iff)
  then have "item_entries (upload_items False (k_seq r) rs) = rs \<and>
    k_seq r + length rs + item_missed (upload_items False (k_seq r) rs) = upload_next False (k_seq r) rs"
    using Cons.prems by (intro Cons.IH) auto
  then show ?case using Cons.prems n by (auto simp: rec_items_def)
qed simp

lemma upload_next_ge: "0 < prev \<Longrightarrow> prev \<le> upload_next False prev rs"
proof (induction rs arbitrary: prev)
  case (Cons r rs)
  then have "0 < rec_next False prev r" "prev \<le> rec_next False prev r" by (auto simp: rec_next_def)
  then show ?case using Cons.IH [of "rec_next False prev r"] by simp
qed simp

lemma upload_old:
  assumes "0 < prev" "list_all (\<lambda>r. k_seq r \<le> prev) rs"
  shows "upload_items False prev rs = [] \<and> upload_next False prev rs = prev"
  using assms by (induction rs) (auto simp: rec_items_def rec_next_def)

section \<open>One record\<close>

text \<open>Records as the kernel makes them: well-formed, in range, short enough for the line buffer, no address in them.\<close>

definition rec_ok :: "nat \<Rightarrow> kmsg_record \<Rightarrow> bool" where
  "rec_ok n r \<longleftrightarrow> kmsg_wf r \<and> k_seq r < 2 ^ 64 - 1 \<and> k_ts r < 2 ^ 31 * 1000000 \<and>
     length (kmsg_line r) + 7 \<le> n \<and> mac_free (kmsg_line r) (length (kmsg_line r))"

definition rec_data :: "kmsg_record \<Rightarrow> line_data" where
  "rec_data r = \<lparr>level = word_of_nat (k_level r), ts_nsec = word_of_nat (k_ts r), seq = word_of_nat (k_seq r),
     text_off = length (kmsg_header r)\<rparr>"

lemma unat_u64: "n < 2 ^ 64 \<Longrightarrow> unat (word_of_nat n :: u64) = n"
  by (simp add: unsigned_of_nat take_bit_nat_eq_self_iff)

lemma uint_u64: "n < 2 ^ 64 \<Longrightarrow> uint (word_of_nat n :: u64) = int n"
  by (simp add: unsigned_of_nat take_bit_nat_eq_self_iff)

lemma sint_u32: "n < 2 ^ 31 \<Longrightarrow> sint (word_of_nat n :: u32) = int n"
  by (simp add: signed_of_nat signed_take_bit_int_eq_self_iff)

lemma ucast_u64: "n < 2 ^ 64 \<Longrightarrow> ucast (word_of_nat n :: u64) = (word_of_nat n :: u32)"
  by (simp add: unsigned_of_nat take_bit_nat_eq_self)

lemma seq_rec_data [simp]: "seq (rec_data r) = word_of_nat (k_seq r)"
  by (simp add: rec_data_def)

lemma u64_less: "a < 2 ^ 64 \<Longrightarrow> b < 2 ^ 64 \<Longrightarrow> (word_of_nat a :: u64) < word_of_nat b \<longleftrightarrow> a < b"
  by (simp add: word_less_nat_alt unat_u64)

lemma dec_int_of_nat [simp]: "dec_int (int n) = dec_nat n"
  by (simp add: dec_int_def)

lemma time_prefix_stamp:
  assumes "rec_ok n r"
  shows "time_prefix (rec_data r) = stamp r"
proof -
  have b: "k_ts r < 2 ^ 64" "k_ts r div 1000000 < 2 ^ 31"
    using assms by (auto simp: rec_ok_def kmsg_wf_def less_mult_imp_div_less)
  have d: "int (k_ts r) div 1000000 = int (k_ts r div 1000000)" "int (k_ts r) mod 1000000 = int (k_ts r mod 1000000)"
    by (simp_all add: zdiv_int zmod_int)
  have w: "(word_of_nat (k_ts r) :: u64) div 1000000 = word_of_nat (k_ts r div 1000000)"
    "(word_of_nat (k_ts r) :: u64) mod 1000000 = word_of_nat (k_ts r mod 1000000)"
    unfolding word_div_def word_mod_def using uint_u64 [OF b(1)] d by simp_all
  show ?thesis
    using sint_u32 [OF b(2)] sint_u32 [of "k_ts r mod 1000000"] ucast_u64 [of "k_ts r div 1000000"]
      ucast_u64 [of "k_ts r mod 1000000"] b
    by (simp add: time_prefix_def rec_data_def w stamp_def zpad_def Let_def)
qed

lemma entry_text_item:
  assumes "rec_ok n r"
  shows "entry_text (rec_data r) (k_text r @ [10]) = item_text (Entry r)"
proof -
  have "k_level r < 2 ^ 31" using assms by (simp add: rec_ok_def kmsg_wf_def)
  then have "sint (level (rec_data r)) = int (k_level r)"
    using sint_u32 [of "k_level r"] by (simp add: rec_data_def)
  then show ?thesis by (simp add: entry_text_def time_prefix_stamp [OF assms])
qed

lemma missed_text_item:
  assumes "rec_ok n r" "prev < k_seq r"
  shows "missed_text (rec_data r) (word_of_nat prev) = item_text (Missed (k_seq r - prev - 1) r)"
proof -
  have "(word_of_nat (k_seq r) :: u64) - word_of_nat prev - 1 = word_of_nat (k_seq r - prev - 1)"
    using assms(2) by (simp add: of_nat_diff)
  moreover have "k_seq r - prev - 1 < 2 ^ 64" using assms(1) by (auto simp: rec_ok_def)
  ultimately have "unat (seq (rec_data r) - word_of_nat prev - 1) = k_seq r - prev - 1"
    using unat_u64 by (simp add: rec_data_def)
  then show ?thesis by (simp add: missed_text_def time_prefix_stamp [OF assms(1)])
qed

text \<open>
  \<open>collected st txt prev st'\<close>: from \<open>st\<close> to \<open>st'\<close> the text \<open>txt\<close> was added to the log buffer and the record
  number became \<open>prev\<close>; nothing else that matters changed.
\<close>

definition collected :: "parse_state \<Rightarrow> cstr \<Rightarrow> nat \<Rightarrow> parse_state \<Rightarrow> bool" where
  "collected st s prev st' \<longleftrightarrow>
     (let p = ps_params st; p' = ps_params st'
      in total_read p' = total_read p + length s \<and>
         take (total_read p') (log_buffer p') = take (total_read p) (log_buffer p) @ s \<and>
         length (log_buffer p') = length (log_buffer p) \<and>
         last_log_counter p' = word_of_nat prev \<and> last_line_valid p' = last_line_valid p \<and>
         length (line_buffer p') = length (line_buffer p) \<and>
         line_buffer_size p' = line_buffer_size p \<and> config p' = config p \<and>
         dev_kmsg_path p' = dev_kmsg_path p \<and> version_path p' = version_path p \<and>
         ntp_synced_path p' = ntp_synced_path p \<and>
         ps_fs st' = ps_fs st \<and> wrote_start_marker st' = wrote_start_marker st)"

lemma append_log_collect:
  assumes "total_read p + length s < sz" "sz \<le> length (log_buffer p)"
  obtains buf where "append_log sz s p = Some (p\<lparr>log_buffer := buf, total_read := total_read p + length s\<rparr>)"
    "take (total_read p + length s) buf = take (total_read p) (log_buffer p) @ s" "length buf = length (log_buffer p)"
  using append_log_Some [OF assms] assms by (auto intro: that)

lemma take_entry_collects:
  assumes ok: "rec_ok n r" and prev: "last_log_counter (ps_params st) = word_of_nat prev" "prev < 2 ^ 64 - 1"
    and room: "total_read (ps_params st) + length (items_text (rec_items (upload_all (config (ps_params st))) prev r)) < sz"
      "sz \<le> length (log_buffer (ps_params st))"
  shows "\<exists>st'. take_entry sz False (rec_data r) (k_text r @ [10]) st = Some st' \<and>
    collected st (items_text (rec_items (upload_all (config (ps_params st))) prev r))
      (rec_next (upload_all (config (ps_params st))) prev r) st'"
proof -
  let ?p = "ps_params st" and ?every = "upload_all (config (ps_params st))"
  let ?e = "item_text (Entry r)" and ?m = "item_text (Missed (k_seq r - prev - 1) r)"
  have sq: "k_seq r < 2 ^ 64" using ok by (simp add: rec_ok_def)
  have w: "0 < last_log_counter ?p \<longleftrightarrow> 0 < prev" "last_log_counter ?p + 1 < seq (rec_data r) \<longleftrightarrow> prev + 1 < k_seq r"
    "seq (rec_data r) \<le> last_log_counter ?p \<longleftrightarrow> k_seq r \<le> prev"
    using u64_less [of 0 prev] u64_less [of "prev + 1" "k_seq r"] u64_less [of prev "k_seq r"] prev sq
    by (auto simp: add.commute not_less [symmetric])
  consider (old) "0 < prev" "k_seq r \<le> prev" "\<not> ?every" | (gap) "0 < prev" "prev + 1 < k_seq r"
    | (plain) "\<not> (0 < prev \<and> k_seq r \<le> prev \<and> \<not> ?every)" "\<not> (0 < prev \<and> prev + 1 < k_seq r)" by blast
  then show ?thesis
  proof cases
    case old
    then have "take_entry sz False (rec_data r) (k_text r @ [10]) st = Some st" using w by (simp add: take_entry_def Let_def)
    with old prev show ?thesis by (auto simp: collected_def rec_items_def rec_next_def Let_def)
  next
    case gap
    then have it: "rec_items ?every prev r = [Missed (k_seq r - prev - 1) r, Entry r]" "rec_next ?every prev r = k_seq r"
      by (auto simp: rec_items_def rec_next_def)
    have room1: "total_read ?p + length ?m < sz" using room(1) by (simp add: it)
    obtain b1 where b1: "append_log sz ?m ?p = Some (?p\<lparr>log_buffer := b1, total_read := total_read ?p + length ?m\<rparr>)"
        "take (total_read ?p + length ?m) b1 = take (total_read ?p) (log_buffer ?p) @ ?m" "length b1 = length (log_buffer ?p)"
      by (rule append_log_collect [OF room1 room(2)])
    let ?q = "?p\<lparr>log_buffer := b1, total_read := total_read ?p + length ?m\<rparr>"
    have room2: "total_read ?q + length ?e < sz" "sz \<le> length (log_buffer ?q)" using room b1(3) by (simp_all add: it)
    obtain b2 where b2: "append_log sz ?e ?q = Some (?q\<lparr>log_buffer := b2, total_read := total_read ?q + length ?e\<rparr>)"
        "take (total_read ?q + length ?e) b2 = take (total_read ?q) (log_buffer ?q) @ ?e" "length b2 = length (log_buffer ?q)"
      by (rule append_log_collect [OF room2])
    show ?thesis
      using gap w b1 b2 missed_text_item [OF ok, of prev] prev(1)
      by (simp add: take_entry_def Let_def entry_text_item [OF ok] track_markers_def collected_def it
          del: item_text.simps)
  next
    case plain
    then have it: "rec_items ?every prev r = [Entry r]" "rec_next ?every prev r = k_seq r"
      by (auto simp: rec_items_def rec_next_def)
    have room1: "total_read ?p + length ?e < sz" using room(1) by (simp add: it)
    obtain b1 where b1: "append_log sz ?e ?p = Some (?p\<lparr>log_buffer := b1, total_read := total_read ?p + length ?e\<rparr>)"
        "take (total_read ?p + length ?e) b1 = take (total_read ?p) (log_buffer ?p) @ ?e" "length b1 = length (log_buffer ?p)"
      by (rule append_log_collect [OF room1 room(2)])
    have "\<not> (0 < last_log_counter ?p \<and> last_log_counter ?p + 1 < seq (rec_data r))"
      "\<not> (0 < last_log_counter ?p \<and> \<not> ?every \<and> seq (rec_data r) \<le> last_log_counter ?p)" using plain w by auto
    then show ?thesis using b1
      by (auto simp: take_entry_def Let_def entry_text_item [OF ok] track_markers_def collected_def it
          simp del: item_text.simps)
  qed
qed

section \<open>Sequences of records\<close>

lemma mac_free_append:
  assumes "mac_free a (length a)"
  shows "mac_free (a @ b) (length a)"
  unfolding mac_free_def
proof (intro allI impI)
  fix p :: nat
  assume p: "p + 17 \<le> length a"
  have "take 17 (drop p (a @ b)) = take 17 (drop p a)" using p by simp
  then have "looks_like_mac (drop p (a @ b)) \<longleftrightarrow> looks_like_mac (drop p a)"
    by (metis looks_like_mac_take order_refl)
  then show "\<not> looks_like_mac (drop p (a @ b))" using assms p by (simp add: mac_free_def)
qed

lemma consume_record:
  assumes dig: "digest_ok hmac" and inv: "st_inv sz st" and ok: "rec_ok (line_buffer_size (ps_params st)) r"
    and prev: "last_log_counter (ps_params st) = word_of_nat prev" "prev < 2 ^ 64 - 1"
    and room: "total_read (ps_params st) + length (items_text (rec_items (upload_all (config (ps_params st))) prev r)) +
      2 * line_buffer_size (ps_params st) < sz"
    and nv: "\<not> last_line_valid (ps_params st)" and nm: "\<not> (wrote_start_marker st \<and> strstr (k_text r @ [10]) LOG_MARKER_START)"
  shows "\<exists>st'. consume_loop hmac kenv clk sz False (Got (kmsg_line r) # rest) st = consume_loop hmac kenv clk sz False rest st' \<and>
    collected st (items_text (rec_items (upload_all (config (ps_params st))) prev r))
      (rec_next (upload_all (config (ps_params st))) prev r) st' \<and> st_inv sz st'"
proof -
  let ?p = "ps_params st" and ?n = "length (kmsg_line r)" and ?k = "kenv (Suc (length rest))"
  have linv: "log_inv sz ?p" using inv by auto
  have n: "?n + 7 \<le> line_buffer_size ?p" and wf: "kmsg_wf r" and mf: "mac_free (kmsg_line r) ?n"
    using ok by (simp_all add: rec_ok_def)
  obtain x tl where tl: "drop ?n (line_buffer ?p) = x # tl"
    using n linv by (cases "drop ?n (line_buffer ?p)") (auto simp: log_inv_def)
  let ?line = "kmsg_line r @ x # tl"
  have put: "arr_put (line_buffer ?p) 0 (kmsg_line r) = Some ?line"
    using n linv tl by (simp add: arr_put_def log_inv_def)
  let ?s1 = "st\<lparr>ps_params := ?p\<lparr>line_buffer := ?line\<rparr>\<rparr>"
  have sup: "suppress_mac_addresses hmac ?k ?line ?n (ps_keys st) = Some (?n, ?line, ps_keys st)"
    by (rule suppress_mac_free [OF mac_free_append [OF mf]]) simp
  let ?s2 = "st\<lparr>ps_params := ?p\<lparr>line_buffer := kmsg_line r @ 0 # tl\<rparr>\<rparr>"
  let ?every = "upload_all (config ?p)"
  have rooms: "total_read (ps_params ?s2) + length (items_text (rec_items ?every prev r)) < sz"
    "sz \<le> length (log_buffer (ps_params ?s2))" using room linv by (simp_all add: log_inv_def)
  obtain st' where te: "take_entry sz False (rec_data r) (k_text r @ [10]) ?s2 = Some st'"
      "collected ?s2 (items_text (rec_items ?every prev r)) (rec_next ?every prev r) st'"
    using take_entry_collects [OF ok, of ?s2 prev sz] prev rooms by auto
  have cl: "consume_line hmac ?k sz False ?n ?s1 = Some (True, st')"
    using sup parse_kmsg_line [OF wf, of x tl] kmsg_line_text [OF wf, of tl] nm te(1)
    by (simp add: consume_line_def Let_def rec_data_def)
  have ninv: "\<not> sz \<le> total_read ?p + 2 * line_buffer_size ?p" using room by simp
  have "log_inv sz (?p\<lparr>line_buffer := ?line\<rparr>)" using put_line_inv [OF linv n] put by auto
  then have "st_inv sz ?s1" by (intro st_inv_params [OF inv]) simp_all
  from consume_line_safe [OF dig this, of ?n ?k False] have "st_inv sz st'" using cl n ninv by auto
  moreover have "length (kmsg_line r @ 0 # tl) = length (line_buffer ?p)"
    using put by (auto dest: arr_put_length)
  then have "collected st (items_text (rec_items ?every prev r)) (rec_next ?every prev r) st'"
    using te(2) by (auto simp: collected_def Let_def)
  ultimately show ?thesis
    using consume_loop_Got [where kenv = kenv and rest = rest, OF ninv nv put cl] by auto
qed

lemma collected_trans:
  assumes "collected st s prev st1" "collected st1 s' prev' st2"
  shows "collected st (s @ s') prev' st2"
  using assms by (auto simp: collected_def Let_def)

lemma rec_next_bound: "rec_ok n r \<Longrightarrow> prev < 2 ^ 64 - 1 \<Longrightarrow> rec_next every prev r < 2 ^ 64 - 1"
  by (simp add: rec_next_def rec_ok_def)

lemma upload_next_bound: "prev < 2 ^ 64 - 1 \<Longrightarrow> list_all (rec_ok n) rs \<Longrightarrow> upload_next every prev rs < 2 ^ 64 - 1"
proof (induction rs arbitrary: prev)
  case (Cons r rs)
  then show ?case using rec_next_bound [of n r prev every] by simp
qed simp

lemma consume_records:
  assumes "digest_ok hmac" "st_inv sz st" "list_all (rec_ok (line_buffer_size (ps_params st))) rs"
    "last_log_counter (ps_params st) = word_of_nat prev" "prev < 2 ^ 64 - 1"
    "total_read (ps_params st) + length (items_text (upload_items (upload_all (config (ps_params st))) prev rs)) +
      2 * line_buffer_size (ps_params st) < sz"
    "\<not> last_line_valid (ps_params st)"
    "wrote_start_marker st \<longrightarrow> list_all (\<lambda>r. \<not> strstr (k_text r @ [10]) LOG_MARKER_START) rs"
  shows "\<exists>st'. consume_loop hmac kenv clk sz False (map (\<lambda>r. Got (kmsg_line r)) rs @ rest) st =
      consume_loop hmac kenv clk sz False rest st' \<and>
    collected st (items_text (upload_items (upload_all (config (ps_params st))) prev rs))
      (upload_next (upload_all (config (ps_params st))) prev rs) st' \<and> st_inv sz st'"
  using assms(2-)
proof (induction rs arbitrary: st prev)
  case Nil
  then show ?case by (auto simp: collected_def Let_def)
next
  case (Cons r rs)
  let ?p = "ps_params st" and ?every = "upload_all (config (ps_params st))"
  let ?rest = "map (\<lambda>r. Got (kmsg_line r)) rs @ rest"
  obtain st1 where s1: "consume_loop hmac kenv clk sz False (Got (kmsg_line r) # ?rest) st =
      consume_loop hmac kenv clk sz False ?rest st1"
      "collected st (items_text (rec_items ?every prev r)) (rec_next ?every prev r) st1" "st_inv sz st1"
    using consume_record [OF assms(1) Cons.prems(1), of r prev kenv clk ?rest] Cons.prems by auto
  note c = s1(2) [unfolded collected_def Let_def]
  have "\<exists>st'. consume_loop hmac kenv clk sz False ?rest st1 = consume_loop hmac kenv clk sz False rest st' \<and>
    collected st1 (items_text (upload_items ?every (rec_next ?every prev r) rs))
      (upload_next ?every (rec_next ?every prev r) rs) st' \<and> st_inv sz st'"
    using Cons.IH [OF s1(3), of "rec_next ?every prev r"] Cons.prems c rec_next_bound [of "line_buffer_size ?p" r prev ?every]
    by auto
  then obtain st' where st': "consume_loop hmac kenv clk sz False ?rest st1 = consume_loop hmac kenv clk sz False rest st'"
      "collected st1 (items_text (upload_items ?every (rec_next ?every prev r) rs))
        (upload_next ?every (rec_next ?every prev r) rs) st'" "st_inv sz st'" by blast
  show ?case
    using s1(1) st'(1,3) collected_trans [OF s1(2) st'(2)] by (intro exI [of _ st']) simp
qed

section \<open>One upload\<close>

text \<open>The record left in the line buffer by the previous upload: its start marker.\<close>

definition holds_record :: "log_parse_params \<Rightarrow> kmsg_record \<Rightarrow> bool" where
  "holds_record p m \<longleftrightarrow> last_line_valid p \<and> take (Suc (length (kmsg_line m))) (line_buffer p) = kmsg_line m @ [0]"

lemma consume_pending:
  assumes dig: "digest_ok hmac" and inv: "st_inv sz st" and ok: "rec_ok (line_buffer_size (ps_params st)) m"
    and prev: "last_log_counter (ps_params st) = word_of_nat prev" "prev < 2 ^ 64 - 1"
    and room: "total_read (ps_params st) + length (items_text (rec_items (upload_all (config (ps_params st))) prev m)) +
      2 * line_buffer_size (ps_params st) < sz"
    and holds: "holds_record (ps_params st) m" and nm: "\<not> wrote_start_marker st"
  shows "\<exists>st'. consume_loop hmac kenv clk sz False reads st = consume_loop hmac kenv clk sz False reads st' \<and>
    collected (st\<lparr>ps_params := (ps_params st)\<lparr>last_line_valid := False\<rparr>\<rparr>)
      (items_text (rec_items (upload_all (config (ps_params st))) prev m))
      (rec_next (upload_all (config (ps_params st))) prev m) st' \<and> st_inv sz st'"
proof -
  let ?p = "ps_params st" and ?k = "kenv (length reads)" and ?every = "upload_all (config (ps_params st))"
  let ?s1 = "st\<lparr>ps_params := ?p\<lparr>last_line_valid := False\<rparr>\<rparr>"
  have linv: "log_inv sz ?p" using inv by auto
  have wf: "kmsg_wf m" and valid: "last_line_valid ?p" using ok holds by (simp_all add: rec_ok_def holds_record_def)
  obtain tl where tl: "line_buffer ?p = kmsg_line m @ 0 # tl"
  proof
    show "line_buffer ?p = kmsg_line m @ 0 # drop (Suc (length (kmsg_line m))) (line_buffer ?p)"
      using holds append_take_drop_id [of "Suc (length (kmsg_line m))" "line_buffer ?p"] by (simp add: holds_record_def)
  qed
  have sup: "suppress_mac_addresses hmac ?k (line_buffer ?p) 0 (ps_keys st) = Some (0, line_buffer ?p, ps_keys st)"
    by (rule suppress_mac_free) (simp_all add: mac_free_def)
  have same: "ps_params st\<lparr>last_line_valid := False, line_buffer := kmsg_line m @ 0 # tl\<rparr> = ?p\<lparr>last_line_valid := False\<rparr>"
    by (simp add: tl [symmetric])
  have rooms: "total_read (ps_params ?s1) + length (items_text (rec_items ?every prev m)) < sz"
    "sz \<le> length (log_buffer (ps_params ?s1))" using room linv by (simp_all add: log_inv_def)
  obtain st' where te: "take_entry sz False (rec_data m) (k_text m @ [10]) ?s1 = Some st'"
      "collected ?s1 (items_text (rec_items ?every prev m)) (rec_next ?every prev m) st'"
    using take_entry_collects [OF ok, of ?s1 prev sz] prev rooms by auto
  have cl: "consume_line hmac ?k sz False 0 ?s1 = Some (True, st')"
    using sup parse_kmsg_line [OF wf, of 0 tl] kmsg_line_text [OF wf, of tl] nm te(1)
    by (simp add: consume_line_def Let_def rec_data_def tl same)
  have ninv: "\<not> sz \<le> total_read ?p + 2 * line_buffer_size ?p" using room by simp
  have inv1: "st_inv sz ?s1" using linv by (intro st_inv_params [OF inv]) (simp_all add: log_inv_def)
  have "0 + 7 \<le> line_buffer_size (ps_params ?s1)" using linv by (simp add: log_inv_def)
  from consume_line_safe [OF dig inv1 _ this, of ?k False] have "st_inv sz st'" using cl ninv by auto
  then show ?thesis
    using consume_loop_valid [where kenv = kenv, OF ninv valid cl] te(2) by auto
qed

lemma consume_marker:
  assumes inv: "st_inv sz st" and ok: "rec_ok (line_buffer_size (ps_params st)) m"
    and room: "total_read (ps_params st) + 2 * line_buffer_size (ps_params st) < sz"
    and nv: "\<not> last_line_valid (ps_params st)" and mark: "wrote_start_marker st" "strstr (k_text m @ [10]) LOG_MARKER_START"
  shows "\<exists>line. consume_loop hmac kenv clk sz c (Got (kmsg_line m) # rest) st =
      Some (Broke, rest, st\<lparr>ps_params := (ps_params st)\<lparr>line_buffer := line, last_line_valid := True\<rparr>\<rparr>) \<and>
    length line = length (line_buffer (ps_params st)) \<and> line ! (line_buffer_size (ps_params st) - 1) = 0 \<and>
    take (Suc (length (kmsg_line m))) line = kmsg_line m @ [0]"
proof -
  let ?p = "ps_params st" and ?n = "length (kmsg_line m)" and ?k = "kenv (Suc (length rest))"
  have linv: "log_inv sz ?p" using inv by auto
  have n: "?n + 7 \<le> line_buffer_size ?p" and wf: "kmsg_wf m" and mf: "mac_free (kmsg_line m) ?n"
    using ok by (simp_all add: rec_ok_def)
  obtain x tl where tl: "drop ?n (line_buffer ?p) = x # tl"
    using n linv by (cases "drop ?n (line_buffer ?p)") (auto simp: log_inv_def)
  let ?line = "kmsg_line m @ x # tl"
  have put: "arr_put (line_buffer ?p) 0 (kmsg_line m) = Some ?line"
    using n linv tl by (simp add: arr_put_def log_inv_def)
  have sup: "suppress_mac_addresses hmac ?k ?line ?n (ps_keys st) = Some (?n, ?line, ps_keys st)"
    by (rule suppress_mac_free [OF mac_free_append [OF mf]]) simp
  let ?s = "st\<lparr>ps_params := ?p\<lparr>line_buffer := kmsg_line m @ 0 # tl, last_line_valid := True\<rparr>\<rparr>"
  have cl: "consume_line hmac ?k sz c ?n (st\<lparr>ps_params := ?p\<lparr>line_buffer := ?line\<rparr>\<rparr>) = Some (False, ?s)"
    using sup parse_kmsg_line [OF wf, of x tl] kmsg_line_text [OF wf, of tl] mark
    by (simp add: consume_line_def Let_def)
  have ninv: "\<not> sz \<le> total_read ?p + 2 * line_buffer_size ?p" using room by simp
  have len: "length (kmsg_line m @ 0 # tl) = length (line_buffer ?p)" using put by (auto dest: arr_put_length)
  have "line_buffer ?p ! (line_buffer_size ?p - 1) = (x # tl) ! (line_buffer_size ?p - 1 - ?n)"
    using n linv by (simp add: tl [symmetric] log_inv_def)
  then have "(kmsg_line m @ 0 # tl) ! (line_buffer_size ?p - 1) = 0"
    using n linv by (auto simp: nth_append nth_Cons log_inv_def split: nat.splits)
  then show ?thesis
    using consume_loop_Got [where kenv = kenv and rest = rest, OF ninv nv put cl] len by auto
qed

lemma write_to_file_frame:
  "can_write (fst (write_to_file w p s)) = can_write w" "accepts (fst (write_to_file w p s)) = accepts w"
  by (simp_all add: write_to_file_def fs_write_def Let_def)

lemma logmark_once_frame:
  assumes "logmark_once clk out ver ntp w = Some (w', rv)"
  shows "can_write w' = can_write w" "accepts w' = accepts w"
  using assms by (auto simp: logmark_once_def Let_def bind_eq_Some_conv case_prod_beta write_to_file_frame)

lemma write_start_marker_ok:
  assumes "can_write (ps_fs st) (dev_kmsg_path (ps_params st))"
    "\<And>n. accepts (ps_fs st) (dev_kmsg_path (ps_params st)) n = int n"
  shows "\<exists>w'. write_start_marker clk st = Some (w', True) \<and>
    can_write w' = can_write (ps_fs st) \<and> accepts w' = accepts (ps_fs st)"
proof -
  have w: "\<exists>w'. write_to_file w (dev_kmsg_path (ps_params st)) s = (w', int (length s)) \<and>
      can_write w' = can_write w \<and> accepts w' = accepts w"
    if "can_write w = can_write (ps_fs st)" "accepts w = accepts (ps_fs st)" for w s
    using assms that by (simp add: write_to_file_def fs_write_def Let_def)
  obtain w1 where w1: "write_to_file (ps_fs st) (dev_kmsg_path (ps_params st)) LOG_MARKER_START_LINE =
      (w1, int (length LOG_MARKER_START_LINE))" "can_write w1 = can_write (ps_fs st)" "accepts w1 = accepts (ps_fs st)"
    using w [OF refl refl] by blast
  obtain w2 rv where w2: "logmark_once clk (dev_kmsg_path (ps_params st)) (version_path (ps_params st))
      (ntp_synced_path (ps_params st)) w1 = Some (w2, rv)" using logmark_once_Some by blast
  have "snd (write_to_file w1 (dev_kmsg_path (ps_params st)) s) = int (length s)" for s
    using w [OF w1(2,3), of s] by auto
  then have "rv = 0" using w2
    by (auto simp: logmark_once_def Let_def bind_eq_Some_conv case_prod_beta split: if_splits)
  moreover have "can_write w2 = can_write w1" "accepts w2 = accepts w1"
    using logmark_once_frame [OF w2] by simp_all
  ultimately show ?thesis using w1 w2 by (simp add: write_start_marker_def Let_def)
qed

text \<open>
  What the kernel hands out during one upload: records, the end of what is there (upon which the start
  marker is written), more records, and the start marker.
\<close>

definition upload_script :: "kmsg_record list \<Rightarrow> kmsg_record list \<Rightarrow> kmsg_record \<Rightarrow> log_read list" where
  "upload_script rs qs m =
     map (\<lambda>r. Got (kmsg_line r)) rs @ [Failed EAGAIN] @ map (\<lambda>r. Got (kmsg_line r)) qs @ [Got (kmsg_line m)]"

definition pending :: "log_parse_params \<Rightarrow> kmsg_record list \<Rightarrow> bool" where
  "pending p ms \<longleftrightarrow> (if last_line_valid p then (\<exists>m. ms = [m] \<and> holds_record p m) else ms = [])"

lemma pending_frame [simp]: "pending (p\<lparr>total_read := n\<rparr>) ms = pending p ms" "pending (p\<lparr>log_buffer := b\<rparr>) ms = pending p ms"
  by (simp_all add: pending_def holds_record_def)

lemma consume_pending_list:
  assumes "digest_ok hmac" "st_inv sz st" "list_all (rec_ok (line_buffer_size (ps_params st))) ms" "pending (ps_params st) ms"
    "last_log_counter (ps_params st) = word_of_nat prev" "prev < 2 ^ 64 - 1"
    "total_read (ps_params st) + length (items_text (upload_items (upload_all (config (ps_params st))) prev ms)) +
      2 * line_buffer_size (ps_params st) < sz" "\<not> wrote_start_marker st"
  shows "\<exists>st'. consume_loop hmac kenv clk sz False reads st = consume_loop hmac kenv clk sz False reads st' \<and>
    collected (st\<lparr>ps_params := (ps_params st)\<lparr>last_line_valid := False\<rparr>\<rparr>)
      (items_text (upload_items (upload_all (config (ps_params st))) prev ms))
      (upload_next (upload_all (config (ps_params st))) prev ms) st' \<and> st_inv sz st'"
proof (cases "last_line_valid (ps_params st)")
  case True
  then obtain m where m: "ms = [m]" "holds_record (ps_params st) m" using assms(4) by (auto simp: pending_def)
  show ?thesis
    using consume_pending [OF assms(1,2) _ assms(5,6) _ m(2) assms(8), of kenv clk reads] assms(3,7) by (simp add: m(1))
next
  case False
  then have "ms = []" using assms(4) by (simp add: pending_def)
  moreover have "st\<lparr>ps_params := (ps_params st)\<lparr>last_line_valid := False\<rparr>\<rparr> = st" using False by simp
  ultimately show ?thesis using assms(2,5) by (auto simp: collected_def Let_def)
qed

lemma consume_script:
  fixes params :: log_parse_params and ms rs qs :: "kmsg_record list" and prev :: nat
  defines "t \<equiv> items_text (upload_items (upload_all (config params)) prev (ms @ rs @ qs))"
  assumes "digest_ok hmac" "log_inv (total_read params) params" "pending params ms"
    "list_all (rec_ok (line_buffer_size params)) (ms @ rs @ qs @ [m])"
    "last_log_counter params = word_of_nat prev" "0 < prev" "prev < 2 ^ 64 - 1"
    "length (items_text (upload_items (upload_all (config params)) prev (ms @ rs @ qs))) + 2 * line_buffer_size params
      < total_read params"
    "list_all (\<lambda>r. \<not> strstr (k_text r @ [10]) LOG_MARKER_START) qs" "strstr (k_text m @ [10]) LOG_MARKER_START"
    "can_write w (dev_kmsg_path params)" "\<forall>n. accepts w (dev_kmsg_path params) n = int n"
  shows "\<exists>st. consume_loop hmac kenv clk (total_read params) False (upload_script rs qs m @ rest)
      \<lparr>ps_params = params\<lparr>total_read := 0\<rparr>, ps_fs = w, ps_keys = ks, wrote_start_marker = False,
       last_start_marker = None, last_start_before_end_marker = None\<rparr> = Some (Broke, rest, st) \<and>
    total_read (ps_params st) = length t \<and> take (length t) (log_buffer (ps_params st)) = t \<and>
    last_log_counter (ps_params st) = word_of_nat (upload_next (upload_all (config params)) prev (ms @ rs @ qs)) \<and>
    pending (ps_params st) [m] \<and> log_inv (total_read params) (ps_params st) \<and>
    line_buffer_size (ps_params st) = line_buffer_size params \<and> config (ps_params st) = config params \<and>
    dev_kmsg_path (ps_params st) = dev_kmsg_path params \<and>
    can_write (ps_fs st) = can_write w \<and> accepts (ps_fs st) = accepts w"
proof -
  let ?sz = "total_read params" and ?L = "line_buffer_size params" and ?every = "upload_all (config params)"
  let ?st = "\<lparr>ps_params = params\<lparr>total_read := 0\<rparr>, ps_fs = w, ps_keys = ks, wrote_start_marker = False,
    last_start_marker = None, last_start_before_end_marker = None\<rparr>"
  let ?loop = "consume_loop hmac kenv clk ?sz False"
  let ?tail = "map (\<lambda>r. Got (kmsg_line r)) qs @ [Got (kmsg_line m)] @ rest"
  let ?n1 = "upload_next ?every prev ms" and ?n2 = "upload_next ?every (upload_next ?every prev ms) rs"
  let ?t1 = "items_text (upload_items ?every prev ms)" and ?t2 = "items_text (upload_items ?every ?n1 rs)"
    and ?t3 = "items_text (upload_items ?every ?n2 qs)"
  note bound = upload_next_bound [where n = ?L and every = ?every]
  have inv0: "st_inv ?sz ?st" using assms(3) by (simp add: st_inv_def log_inv_def)
  have oks: "list_all (rec_ok ?L) ms" "list_all (rec_ok ?L) rs" "list_all (rec_ok ?L) qs" "rec_ok ?L m"
    using assms(5) by simp_all
  have len: "length ?t1 + length ?t2 + length ?t3 + 2 * ?L < ?sz" using assms(9) by simp
  obtain s1 where s1: "?loop (upload_script rs qs m @ rest) ?st = ?loop (upload_script rs qs m @ rest) s1"
      "collected (?st\<lparr>ps_params := (ps_params ?st)\<lparr>last_line_valid := False\<rparr>\<rparr>) ?t1 ?n1 s1" "st_inv ?sz s1"
    using consume_pending_list [OF assms(2) inv0, of ms prev kenv clk "upload_script rs qs m @ rest"]
      assms(4,6,8) oks len by auto
  note c1 = s1(2) [unfolded collected_def Let_def, simplified]
  obtain s2 where s2: "?loop (map (\<lambda>r. Got (kmsg_line r)) rs @ Failed EAGAIN # ?tail) s1 = ?loop (Failed EAGAIN # ?tail) s2"
      "collected s1 ?t2 ?n2 s2" "st_inv ?sz s2"
    using consume_records [OF assms(2) s1(3), of rs ?n1 kenv clk "Failed EAGAIN # ?tail"] c1 oks len assms(8) bound
    by auto
  note c2 = s2(2) [unfolded collected_def Let_def, simplified]
  obtain w' where w': "write_start_marker clk s2 = Some (w', True)" "can_write w' = can_write w" "accepts w' = accepts w"
    using write_start_marker_ok [of s2 clk] c1 c2 assms(12,13) by auto
  let ?s2 = "s2\<lparr>ps_fs := w', wrote_start_marker := True\<rparr>"
  have e2: "?loop (Failed EAGAIN # ?tail) s2 = ?loop ?tail ?s2"
    using consume_loop_Failed [of ?sz s2 hmac kenv clk False EAGAIN ?tail] w' c1 c2 len by simp
  have inv2: "st_inv ?sz ?s2" using s2(3) by simp
  obtain s3 where s3: "?loop ?tail ?s2 = ?loop (Got (kmsg_line m) # rest) s3"
      "collected ?s2 ?t3 (upload_next ?every ?n2 qs) s3" "st_inv ?sz s3"
    using consume_records [OF assms(2) inv2, of qs ?n2 kenv clk "Got (kmsg_line m) # rest"] c1 c2 oks len assms(8,10) bound
    by auto
  note c3 = s3(2) [unfolded collected_def Let_def, simplified]
  obtain line where e3: "?loop (Got (kmsg_line m) # rest) s3 =
      Some (Broke, rest, s3\<lparr>ps_params := (ps_params s3)\<lparr>line_buffer := line, last_line_valid := True\<rparr>\<rparr>)"
      "length line = ?L" "line ! (?L - 1) = 0" "take (Suc (length (kmsg_line m))) line = kmsg_line m @ [0]"
    using consume_marker [OF s3(3), of m hmac kenv clk False rest] c1 c2 c3 oks len assms(3,11) by (auto simp: log_inv_def)
  let ?p3 = "(ps_params s3)\<lparr>line_buffer := line, last_line_valid := True\<rparr>"
  have run: "?loop (upload_script rs qs m @ rest) ?st = Some (Broke, rest, s3\<lparr>ps_params := ?p3\<rparr>)"
    using s1(1) s2(1) e2 s3(1) e3(1) by (simp add: upload_script_def)
  have tot: "total_read ?p3 = length t" "take (length t) (log_buffer ?p3) = t"
    unfolding t_def using c1 c2 c3 by (auto simp: ac_simps)
  have "last_log_counter ?p3 = word_of_nat (upload_next ?every prev (ms @ rs @ qs))" using c3 by simp
  moreover have "pending ?p3 [m]" using e3(4) by (simp add: pending_def holds_record_def)
  moreover have "log_inv ?sz ?p3"
    using st_invD [OF s3(3)] c1 c2 c3 e3(2,3) by (simp add: log_inv_def)
  moreover have "line_buffer_size ?p3 = ?L" "config ?p3 = config params" "dev_kmsg_path ?p3 = dev_kmsg_path params"
    "can_write (ps_fs s3) = can_write w" "accepts (ps_fs s3) = accepts w" using c1 c2 c3 w' by simp_all
  ultimately show ?thesis using run tot by (intro exI [of _ "s3\<lparr>ps_params := ?p3\<rparr>"]) simp
qed

lemma upload_run:
  assumes "digest_ok hmac" "log_inv (total_read params) params" "pending params ms"
    "list_all (rec_ok (line_buffer_size params)) (ms @ rs @ qs @ [m])"
    "last_log_counter params = word_of_nat prev" "0 < prev" "prev < 2 ^ 64 - 1"
    "length (items_text (upload_items (upload_all (config params)) prev (ms @ rs @ qs))) + 2 * line_buffer_size params
      < total_read params"
    "list_all (\<lambda>r. \<not> strstr (k_text r @ [10]) LOG_MARKER_START) qs" "strstr (k_text m @ [10]) LOG_MARKER_START"
    "can_write w (dev_kmsg_path params)" "\<forall>n. accepts w (dev_kmsg_path params) n = int n"
  shows "\<exists>w' ks' p'. parse_and_consume_log_data hmac kenv clk (upload_script rs qs m @ rest) w ks params
      = Some (Log_Data 0, rest, w', ks', p') \<and>
    take (total_read p') (log_buffer p') = items_text (upload_items (upload_all (config params)) prev (ms @ rs @ qs)) \<and>
    last_log_counter p' = word_of_nat (upload_next (upload_all (config params)) prev (ms @ rs @ qs)) \<and>
    pending p' [m] \<and> log_inv (total_read params) p' \<and> line_buffer_size p' = line_buffer_size params \<and> config p' = config params \<and>
    dev_kmsg_path p' = dev_kmsg_path params \<and> can_write w' = can_write w \<and> accepts w' = accepts w"
proof -
  let ?sz = "total_read params" and ?t = "items_text (upload_items (upload_all (config params)) prev (ms @ rs @ qs))"
  obtain st where st: "consume_loop hmac kenv clk ?sz False (upload_script rs qs m @ rest)
      \<lparr>ps_params = params\<lparr>total_read := 0\<rparr>, ps_fs = w, ps_keys = ks, wrote_start_marker = False,
       last_start_marker = None, last_start_before_end_marker = None\<rparr> = Some (Broke, rest, st)"
      "total_read (ps_params st) = length ?t" "take (length ?t) (log_buffer (ps_params st)) = ?t"
      "last_log_counter (ps_params st) = word_of_nat (upload_next (upload_all (config params)) prev (ms @ rs @ qs))"
      "pending (ps_params st) [m]" "log_inv ?sz (ps_params st)" "line_buffer_size (ps_params st) = line_buffer_size params"
      "config (ps_params st) = config params" "dev_kmsg_path (ps_params st) = dev_kmsg_path params"
      "can_write (ps_fs st) = can_write w" "accepts (ps_fs st) = accepts w"
    using consume_script [OF assms, of kenv clk rest ks] by blast
  let ?p = "ps_params st"
  let ?buf = "take (length ?t) (log_buffer ?p) @ [0] @ drop (length ?t + 1) (log_buffer ?p)"
  have room: "length ?t < ?sz" "?sz \<le> length (log_buffer ?p)" using assms(8) st(6) by (simp_all add: log_inv_def)
  have put: "arr_put (log_buffer ?p) (total_read ?p) [0] = Some ?buf"
    unfolding st(2) using room by (simp add: arr_put_def)
  have nz: "last_log_counter params \<noteq> 0" using assms(5-7) u64_less [of 0 prev] by auto
  have "parse_and_consume_log_data hmac kenv clk (upload_script rs qs m @ rest) w ks params =
      Some (Log_Data 0, rest, ps_fs st, ps_keys st, ?p\<lparr>log_buffer := ?buf\<rparr>)"
    using st(1) put nz by (simp add: parse_and_consume_log_data_def Let_def)
  moreover have "take (total_read (?p\<lparr>log_buffer := ?buf\<rparr>)) (log_buffer (?p\<lparr>log_buffer := ?buf\<rparr>)) = ?t"
    using st(2,3) by simp
  moreover have "log_inv ?sz (?p\<lparr>log_buffer := ?buf\<rparr>)" using st(6) room by (simp add: log_inv_def)
  moreover have "last_log_counter (?p\<lparr>log_buffer := ?buf\<rparr>) =
      word_of_nat (upload_next (upload_all (config params)) prev (ms @ rs @ qs))"
    "pending (?p\<lparr>log_buffer := ?buf\<rparr>) [m]" "line_buffer_size (?p\<lparr>log_buffer := ?buf\<rparr>) = line_buffer_size params"
    "config (?p\<lparr>log_buffer := ?buf\<rparr>) = config params" "dev_kmsg_path (?p\<lparr>log_buffer := ?buf\<rparr>) = dev_kmsg_path params"
    using st(4,5,7-9) by simp_all
  ultimately show ?thesis using st(10,11) by blast
qed

definition sample_record :: "nat \<Rightarrow> cstr \<Rightarrow> kmsg_record" where
  "sample_record n s = \<lparr>k_level = 6, k_seq = n, k_ts = 5, k_flags = [45], k_text = s\<rparr>"

lemma mac_free_upt: "mac_free line n \<longleftrightarrow> list_all (\<lambda>p. \<not> looks_like_mac (drop p line)) [0..<n - 16]"
  by (auto simp: mac_free_def list_all_iff)

lemma sample_marker:
  assumes "0 < n" "n < 10"
  shows "rec_ok 128 (sample_record n LOG_MARKER_START)" "strstr (k_text (sample_record n LOG_MARKER_START) @ [10]) LOG_MARKER_START"
proof -
  have "dec_nat n = [word_of_nat (48 + n)]" "dec_nat 6 = [54]" "dec_nat 5 = [53]" using assms by (simp_all add: dec_nat.simps)
  then show "rec_ok 128 (sample_record n LOG_MARKER_START)"
    using assms
    by (simp add: rec_ok_def sample_record_def kmsg_wf_def kmsg_line_def kmsg_header_def LOG_MARKER_START_def lit_def
        mac_free_upt looks_like_mac_def is_mac_addr_def upt_rec)
  show "strstr (k_text (sample_record n LOG_MARKER_START) @ [10]) LOG_MARKER_START"
    by (simp add: sample_record_def LOG_MARKER_START_def lit_def)
qed

lemma sample_line:
  assumes "0 < n" "n < 10"
  shows "rec_ok 128 (sample_record n (lit ''up''))" "\<not> strstr (k_text (sample_record n (lit ''up'')) @ [10]) LOG_MARKER_START"
proof -
  have "dec_nat n = [word_of_nat (48 + n)]" "dec_nat 6 = [54]" "dec_nat 5 = [53]" using assms by (simp_all add: dec_nat.simps)
  then show "rec_ok 128 (sample_record n (lit ''up''))"
    using assms
    by (simp add: rec_ok_def sample_record_def kmsg_wf_def kmsg_line_def kmsg_header_def lit_def mac_free_def)
  show "\<not> strstr (k_text (sample_record n (lit ''up'')) @ [10]) LOG_MARKER_START"
    by (simp add: sample_record_def LOG_MARKER_START_def lit_def)
qed

text \<open>
  Claim C25. One upload is exact. With room in the log buffer, on well-formed records and a writable
  \<^verbatim>\<open>/dev/kmsg\<close>, \<open>parse_and_consume_log_data\<close> returns the text the specification gives for the record
  kept from the last upload and all records before its own start marker: records already uploaded are
  skipped, gaps in the numbering are reported with their size, every other record is printed with its
  level, time and text. The counter becomes the number of the last record, and the start marker is
  kept for the next upload.
\<close>
theorem upload_exact:
  assumes "digest_ok hmac" "log_inv (total_read params) params" "pending params ms"
    "list_all (rec_ok (line_buffer_size params)) (ms @ rs @ qs @ [m])"
    "last_log_counter params = word_of_nat prev" "0 < prev" "prev < 2 ^ 64 - 1"
    "length (items_text (upload_items (upload_all (config params)) prev (ms @ rs @ qs))) + 2 * line_buffer_size params
      < total_read params"
    "list_all (\<lambda>r. \<not> strstr (k_text r @ [10]) LOG_MARKER_START) qs" "strstr (k_text m @ [10]) LOG_MARKER_START"
    "can_write w (dev_kmsg_path params)" "\<forall>n. accepts w (dev_kmsg_path params) n = int n"
  shows "\<exists>w' ks' p'. parse_and_consume_log_data hmac kenv clk (upload_script rs qs m @ rest) w ks params
      = Some (Log_Data 0, rest, w', ks', p') \<and>
    take (total_read p') (log_buffer p') = items_text (upload_items (upload_all (config params)) prev (ms @ rs @ qs)) \<and>
    last_log_counter p' = word_of_nat (upload_next (upload_all (config params)) prev (ms @ rs @ qs)) \<and>
    pending p' [m] \<and> log_inv (total_read params) p'"
  using upload_run [OF assms, of kenv clk rest ks] by blast

definition sample_params2 :: log_parse_params where
  "sample_params2 = sample_params\<lparr>last_log_counter := word_of_nat 2\<rparr>"

lemma sample_params2_facts:
  "log_inv 1000 sample_params2" "pending sample_params2 []" "line_buffer_size sample_params2 = 128"
  "total_read sample_params2 = 1000" "\<not> upload_all (config sample_params2)" "last_log_counter sample_params2 = word_of_nat 2"
  "can_write sample_fs (dev_kmsg_path sample_params2)" "\<forall>n. accepts sample_fs (dev_kmsg_path sample_params2) n = int n"
  by (simp_all add: sample_params2_def sample_params_def sample_config_def log_inv_def pending_def sample_fs_def)

lemma sample_record_seq [simp]: "k_seq (sample_record n s) = n"
  by (simp add: sample_record_def)

lemma sample_entry_length: "n < 10 \<Longrightarrow> length (item_text (Entry (sample_record n s))) = 19 + length s"
  by (simp add: sample_record_def stamp_def lpad_def lit_def dec_nat.simps)

lemma sample_missed_length: "k < 10 \<Longrightarrow> length (item_text (Missed k (sample_record n s))) = 48"
  by (simp add: sample_record_def stamp_def lpad_def lit_def dec_nat.simps)

lemma sample_lengths: "length (lit ''up'') = 2" "length LOG_MARKER_START = 18"
  by (simp_all add: LOG_MARKER_START_def lit_def)

lemmas sample_facts = sample_params2_facts sample_marker sample_line sample_entry_length sample_missed_length sample_lengths

theorem upload_exact_witness:
  "\<exists>w' ks' p'. parse_and_consume_log_data (\<lambda>k m. [1, 2, 3]) (\<lambda>n. sample_env) sample_clock
      (upload_script [sample_record 3 (lit ''up'')] [sample_record 5 (lit ''up'')] (sample_record 6 LOG_MARKER_START) @ [])
      sample_fs sample_keys sample_params2 = Some (Log_Data 0, [], w', ks', p') \<and>
    take (total_read p') (log_buffer p') = items_text (upload_items (upload_all (config sample_params2)) 2
      ([] @ [sample_record 3 (lit ''up'')] @ [sample_record 5 (lit ''up'')])) \<and>
    last_log_counter p' = word_of_nat (upload_next (upload_all (config sample_params2)) 2
      ([] @ [sample_record 3 (lit ''up'')] @ [sample_record 5 (lit ''up'')])) \<and>
    pending p' [sample_record 6 LOG_MARKER_START] \<and> log_inv (total_read sample_params2) p'"
  by (rule upload_exact)
    (simp_all add: digest_ok_def sample_facts rec_items_def rec_next_def del: item_text.simps)

text \<open>
  Claim C9. No record is lost and none is uploaded twice. Two uploads in a row, over records with
  increasing numbers: the two texts together are the printed form of items whose entries are all those
  records, each once and in order, and the number of records reported as missed is exact: the
  counter has advanced by the records uploaded plus the records reported missing.
\<close>
theorem uploads_lose_nothing:
  assumes "digest_ok hmac" "log_inv (total_read params) params" "pending params ms" "\<not> upload_all (config params)"
    "list_all (rec_ok (line_buffer_size params)) (ms @ rs @ qs @ [m] @ rs' @ qs' @ [m'])"
    "last_log_counter params = word_of_nat prev" "0 < prev" "prev < 2 ^ 64 - 1"
    "sorted_wrt (<) (map k_seq (ms @ rs @ qs @ [m] @ rs' @ qs'))"
    "list_all (\<lambda>r. prev < k_seq r) (ms @ rs @ qs @ [m] @ rs' @ qs')"
    "length (items_text (upload_items False prev (ms @ rs @ qs @ [m] @ rs' @ qs'))) + 2 * line_buffer_size params
      < total_read params"
    "list_all (\<lambda>r. \<not> strstr (k_text r @ [10]) LOG_MARKER_START) (qs @ qs')"
    "list_all (\<lambda>r. strstr (k_text r @ [10]) LOG_MARKER_START) [m, m']"
    "can_write w (dev_kmsg_path params)" "\<forall>n. accepts w (dev_kmsg_path params) n = int n"
  shows "\<exists>w1 ks1 p1 w2 ks2 p2 is.
    parse_and_consume_log_data hmac kenv clk (upload_script rs qs m @ upload_script rs' qs' m' @ rest) w ks params
      = Some (Log_Data 0, upload_script rs' qs' m' @ rest, w1, ks1, p1) \<and>
    parse_and_consume_log_data hmac kenv clk' (upload_script rs' qs' m' @ rest) w1 ks1 (p1\<lparr>total_read := total_read params\<rparr>)
      = Some (Log_Data 0, rest, w2, ks2, p2) \<and>
    take (total_read p1) (log_buffer p1) @ take (total_read p2) (log_buffer p2) = items_text is \<and>
    item_entries is = ms @ rs @ qs @ [m] @ rs' @ qs' \<and>
    unat (last_log_counter p2) = prev + length (ms @ rs @ qs @ [m] @ rs' @ qs') + item_missed is"
proof -
  let ?n1 = "upload_next False prev (ms @ rs @ qs)"
  let ?is = "upload_items False prev (ms @ rs @ qs @ [m] @ rs' @ qs')"
  have ua: "upload_all (config params) = False" using assms(4) by simp
  have split: "?is = upload_items False prev (ms @ rs @ qs) @ upload_items False ?n1 ([m] @ rs' @ qs')"
    using upload_items_append [of False prev "ms @ rs @ qs" "[m] @ rs' @ qs'"] by simp
  have b: "?n1 < 2 ^ 64 - 1" using assms(5) by (intro upload_next_bound [OF assms(8), of "line_buffer_size params"]) simp
  have pos: "0 < ?n1" using upload_next_ge [OF assms(7), of "ms @ rs @ qs"] assms(7) by linarith
  have h1: "list_all (rec_ok (line_buffer_size params)) (ms @ rs @ qs @ [m])"
    "length (items_text (upload_items (upload_all (config params)) prev (ms @ rs @ qs))) + 2 * line_buffer_size params
      < total_read params"
    "list_all (\<lambda>r. \<not> strstr (k_text r @ [10]) LOG_MARKER_START) qs" "strstr (k_text m @ [10]) LOG_MARKER_START"
    using assms(5,11-13) unfolding ua split items_text_simps by simp_all
  obtain w1 ks1 p1 where r1: "parse_and_consume_log_data hmac kenv clk (upload_script rs qs m @ upload_script rs' qs' m' @ rest) w ks params
      = Some (Log_Data 0, upload_script rs' qs' m' @ rest, w1, ks1, p1)"
      "take (total_read p1) (log_buffer p1) = items_text (upload_items False prev (ms @ rs @ qs))"
      "last_log_counter p1 = word_of_nat ?n1" "pending p1 [m]" "log_inv (total_read params) p1"
      "line_buffer_size p1 = line_buffer_size params" "config p1 = config params" "dev_kmsg_path p1 = dev_kmsg_path params"
      "can_write w1 = can_write w" "accepts w1 = accepts w"
    using upload_run [OF assms(1-3) h1(1) assms(6-8) h1(2-4) assms(14,15), of kenv clk "upload_script rs' qs' m' @ rest" ks]
    unfolding ua by blast
  let ?p = "p1\<lparr>total_read := total_read params\<rparr>"
  have ua2: "upload_all (config ?p) = False" using ua r1(7) by simp
  have h2: "log_inv (total_read ?p) ?p" "pending ?p [m]" "list_all (rec_ok (line_buffer_size ?p)) ([m] @ rs' @ qs' @ [m'])"
    "last_log_counter ?p = word_of_nat ?n1"
    "length (items_text (upload_items (upload_all (config ?p)) ?n1 ([m] @ rs' @ qs'))) + 2 * line_buffer_size ?p < total_read ?p"
    "list_all (\<lambda>r. \<not> strstr (k_text r @ [10]) LOG_MARKER_START) qs'" "strstr (k_text m' @ [10]) LOG_MARKER_START"
    "can_write w1 (dev_kmsg_path ?p)" "\<forall>n. accepts w1 (dev_kmsg_path ?p) n = int n"
    using assms(5,11-15) r1(3-) unfolding ua2 split items_text_simps by (simp_all add: log_inv_def)
  obtain w2 ks2 p2 where r2: "parse_and_consume_log_data hmac kenv clk' (upload_script rs' qs' m' @ rest) w1 ks1 ?p
      = Some (Log_Data 0, rest, w2, ks2, p2)"
      "take (total_read p2) (log_buffer p2) = items_text (upload_items False ?n1 ([m] @ rs' @ qs'))"
      "last_log_counter p2 = word_of_nat (upload_next False ?n1 ([m] @ rs' @ qs'))"
    using upload_run [OF assms(1) h2(1-4) pos b h2(5-), of kenv clk' rest ks1] unfolding ua2 by blast
  have nx: "upload_next False ?n1 ([m] @ rs' @ qs') = upload_next False prev (ms @ rs @ qs @ [m] @ rs' @ qs')" by simp
  have "upload_next False prev (ms @ rs @ qs @ [m] @ rs' @ qs') < 2 ^ 64 - 1"
    using assms(5) by (intro upload_next_bound [OF assms(8), of "line_buffer_size params"]) simp
  then have "unat (last_log_counter p2) = prev + length (ms @ rs @ qs @ [m] @ rs' @ qs') + item_missed ?is"
    unfolding r2(3) nx using unat_u64 upload_fresh [OF assms(7,9,10)] by simp
  moreover have "item_entries ?is = ms @ rs @ qs @ [m] @ rs' @ qs'" using upload_fresh [OF assms(7,9,10)] by blast
  moreover have "take (total_read p1) (log_buffer p1) @ take (total_read p2) (log_buffer p2) = items_text ?is"
    unfolding r1(2) r2(2) split by simp
  ultimately show ?thesis using r1(1) r2(1) by blast
qed

theorem uploads_lose_nothing_witness:
  "\<exists>w1 ks1 p1 w2 ks2 p2 is.
    parse_and_consume_log_data (\<lambda>k m. [1, 2, 3]) (\<lambda>n. sample_env) sample_clock
      (upload_script [sample_record 3 (lit ''up'')] [] (sample_record 5 LOG_MARKER_START) @
       upload_script [] [sample_record 6 (lit ''up'')] (sample_record 7 LOG_MARKER_START) @ []) sample_fs sample_keys sample_params2
      = Some (Log_Data 0, upload_script [] [sample_record 6 (lit ''up'')] (sample_record 7 LOG_MARKER_START) @ [], w1, ks1, p1) \<and>
    parse_and_consume_log_data (\<lambda>k m. [1, 2, 3]) (\<lambda>n. sample_env) sample_clock
      (upload_script [] [sample_record 6 (lit ''up'')] (sample_record 7 LOG_MARKER_START) @ []) w1 ks1
      (p1\<lparr>total_read := total_read sample_params2\<rparr>) = Some (Log_Data 0, [], w2, ks2, p2) \<and>
    take (total_read p1) (log_buffer p1) @ take (total_read p2) (log_buffer p2) = items_text is \<and>
    item_entries is = [] @ [sample_record 3 (lit ''up'')] @ [] @ [sample_record 5 LOG_MARKER_START] @ [] @ [sample_record 6 (lit ''up'')] \<and>
    unat (last_log_counter p2) = 2 + length ([] @ [sample_record 3 (lit ''up'')] @ [] @ [sample_record 5 LOG_MARKER_START] @ [] @
      [sample_record 6 (lit ''up'')]) + item_missed is"
  by (rule uploads_lose_nothing)
    (simp_all add: digest_ok_def sample_facts rec_items_def rec_next_def del: item_text.simps)

end
