(* ===== verification/Kv_Extract.thy ===== *)
theory Kv_Extract
  imports Log_Utils
begin

text \<open>
  The key/value pairs sent along with an upload, \<^verbatim>\<open>src/logupload/client/kvextract.c\<close>: a linked list of heap
  blocks with the model, the serial number, the addresses and the log type of the device.

  The heap is a map from addresses to blocks; \<open>malloc\<close> fails as the list \<open>malloc_ok\<close> says (and succeeds
  when that is used up). Reading or freeing a block that is not allocated is undefined behaviour and
  gives \<open>None\<close>, as does a failing \<open>assert\<close> and a string function that leaves its buffer.
\<close>

section \<open>The heap\<close>

abbreviation (input) MAX_KV_LENGTH :: nat where "MAX_KV_LENGTH \<equiv> 128"

definition KV_OK :: int where "KV_OK = 0"
definition KV_FAIL :: int where "KV_FAIL = -1"
definition KV_NOTHING :: int where "KV_NOTHING = 1"

record kvpair =
  key :: "byte list"
  val :: "byte list"
  next_pair :: "nat option"

record kv_heap =
  blocks :: "nat \<Rightarrow> kvpair option"
  brk :: nat
  malloc_ok :: "bool list"

definition zero_pair :: kvpair where
  "zero_pair = \<lparr>key = replicate MAX_KV_LENGTH 0, val = replicate MAX_KV_LENGTH 0, next_pair = None\<rparr>"

text \<open>\<open>malloc (sizeof (struct kvpair))\<close>, and the \<open>memset\<close> that follows it in every case.\<close>

definition new_pair :: "kv_heap \<Rightarrow> nat option \<times> kv_heap" where
  "new_pair h =
     (case malloc_ok h of
        False # oks \<Rightarrow> (None, h\<lparr>malloc_ok := oks\<rparr>)
      | _ \<Rightarrow> (Some (brk h),
              h\<lparr>blocks := (blocks h)(brk h := Some zero_pair), brk := brk h + 1, malloc_ok := tl (malloc_ok h)\<rparr>))"

definition get_block :: "kv_heap \<Rightarrow> nat \<Rightarrow> kvpair option" where
  "get_block h a = blocks h a"

definition put_block :: "kv_heap \<Rightarrow> nat \<Rightarrow> kvpair \<Rightarrow> kv_heap option" where
  "put_block h a b = (if blocks h a = None then None else Some (h\<lparr>blocks := (blocks h)(a := Some b)\<rparr>))"

definition free_block :: "kv_heap \<Rightarrow> nat \<Rightarrow> kv_heap option" where
  "free_block h a = (if blocks h a = None then None else Some (h\<lparr>blocks := (blocks h)(a := None)\<rparr>))"

partial_function (option) free_kv_pairs :: "nat option \<Rightarrow> kv_heap \<Rightarrow> kv_heap option" where
  "free_kv_pairs pairs h =
     (case pairs of
        None \<Rightarrow> Some h
      | Some a \<Rightarrow> do {
          b \<leftarrow> get_block h a;
          h \<leftarrow> free_block h a;
          free_kv_pairs (next_pair b) h })"

section \<open>Pairs\<close>

text \<open>\<open>strcpy\<close> of a C string into a block.\<close>

definition strcpy :: "byte list \<Rightarrow> cstr \<Rightarrow> byte list option" where
  "strcpy dst s = arr_put dst 0 (s @ [0])"

text \<open>
  \<open>get_pair_from_file\<close>: the result with what it leaves in \<open>*pair\<close>. \<open>pair\<close> itself is \<open>NULL\<close> when the flag
  is not set.
\<close>

definition get_pair_from_file ::
    "fs \<Rightarrow> cstr \<Rightarrow> cstr \<Rightarrow> bool \<Rightarrow> kv_heap \<Rightarrow> (int \<times> nat option \<times> kv_heap) option" where
  "get_pair_from_file w filepath k pair h =
     (if \<not> pair then Some (KV_FAIL, None, h)
      else case new_pair h of
        (None, h) \<Rightarrow> Some (KV_FAIL, None, h)
      | (Some a, h) \<Rightarrow> do {
          b \<leftarrow> get_block h a;
          (len, v) \<leftarrow> read_file_as_string w (Some filepath) (Some (val b)) MAX_KV_LENGTH;
          if len < 0 then do {
            h \<leftarrow> free_block h a;
            Some (KV_NOTHING, None, h) }
          else do {
            v \<leftarrow> rstrip v;
            v \<leftarrow> v;
            if \<not> length k < MAX_KV_LENGTH then None
            else do {
              k \<leftarrow> strcpy (key b) k;
              h \<leftarrow> put_block h a (b\<lparr>key := k, val := v\<rparr>);
              Some (KV_OK, Some a, h) } } })"

datatype family = AF_INET | AF_INET6 | AF_OTHER

record ifaddr =
  ifa_name :: cstr
  ifa_addr :: "(family \<times> byte list) option"

text \<open>
  The two callbacks: the resolver gets the address and the size of the buffer and gives its result and
  the buffer's new contents; the other one gets the interface, the buffer and its size.
\<close>

record kvextractparams =
  interfaces_to_check :: "cstr list"
  ifaddrs :: "ifaddr list"
  platform_path :: cstr
  serial_path :: cstr
  kv_logtype :: "cstr option"
  name_info_resolver :: "family \<times> byte list \<Rightarrow> byte list \<Rightarrow> int \<times> byte list"
  interface_to_mac :: "cstr \<Rightarrow> byte list \<Rightarrow> int \<times> byte list"

text \<open>
  A new pair behind the tail: \<open>pair_tail->next_pair = malloc (...)\<close>; the outcome is the new tail, or
  \<open>None\<close> inside when \<open>malloc\<close> fails (then \<open>next_pair\<close> is \<open>NULL\<close>).
\<close>

definition add_pair :: "nat \<Rightarrow> kv_heap \<Rightarrow> (nat option \<times> kv_heap) option" where
  "add_pair tail h = do {
     let (a, h) = new_pair h;
     b \<leftarrow> get_block h tail;
     h \<leftarrow> put_block h tail (b\<lparr>next_pair := a\<rparr>);
     Some (a, h) }"

text \<open>The result of a part of \<open>extract_kv_pairs\<close>: the new tail, or \<open>None\<close> for the return with \<open>NULL\<close>, upon
  which the pairs made so far have been freed.\<close>

definition give_up :: "nat \<Rightarrow> kv_heap \<Rightarrow> (nat option \<times> kv_heap) option" where
  "give_up head h = do {
     h \<leftarrow> free_kv_pairs (Some head) h;
     Some (None, h) }"

definition ip_pair :: "kvextractparams \<Rightarrow> family \<times> byte list \<Rightarrow> nat \<Rightarrow> nat \<Rightarrow> kv_heap \<Rightarrow> (nat option \<times> kv_heap) option" where
  "ip_pair params sa head tail h = do {
     (a, h) \<leftarrow> add_pair tail h;
     case a of
       None \<Rightarrow> give_up head h
     | Some a \<Rightarrow> do {
         b \<leftarrow> get_block h a;
         let (rv, v) = name_info_resolver params sa (val b);
         h \<leftarrow> put_block h a (b\<lparr>val := v\<rparr>);
         if rv \<noteq> 0 then give_up head h
         else do {
           k \<leftarrow> strcpy (key b) (if fst sa = AF_INET then lit ''ip'' else lit ''ip6'');
           h \<leftarrow> put_block h a (b\<lparr>key := k, val := v\<rparr>);
           Some (Some a, h) } } }"

fun ip_pairs :: "kvextractparams \<Rightarrow> ifaddr list \<Rightarrow> nat \<Rightarrow> nat \<Rightarrow> kv_heap \<Rightarrow> (nat option \<times> kv_heap) option" where
  "ip_pairs params [] head tail h = Some (Some tail, h)"
| "ip_pairs params (i # is) head tail h =
     (case ifa_addr i of
        None \<Rightarrow> ip_pairs params is head tail h
      | Some sa \<Rightarrow>
         if fst sa \<noteq> AF_OTHER \<and> ifa_name i \<in> set (interfaces_to_check params)
         then (case ip_pair params sa head tail h of
                 None \<Rightarrow> None
               | Some (None, h) \<Rightarrow> Some (None, h)
               | Some (Some tail, h) \<Rightarrow> ip_pairs params is head tail h)
         else ip_pairs params is head tail h)"

text \<open>\<open>mac_buf\<close> is a buffer of 32 bytes that all calls share.\<close>

fun hw_pairs :: "kvextractparams \<Rightarrow> cstr list \<Rightarrow> byte list \<Rightarrow> nat \<Rightarrow> nat \<Rightarrow> kv_heap \<Rightarrow> (nat option \<times> kv_heap) option" where
  "hw_pairs params [] mac_buf head tail h = Some (Some tail, h)"
| "hw_pairs params (i # is) mac_buf head tail h =
     (case interface_to_mac params i mac_buf of
        (rv, mac_buf) \<Rightarrow>
          if rv = 0
          then (case add_pair tail h of
                  None \<Rightarrow> None
                | Some (None, h) \<Rightarrow> give_up head h
                | Some (Some a, h) \<Rightarrow> do {
                    b \<leftarrow> get_block h a;
                    k \<leftarrow> strcpy (key b) (lit ''hw'');
                    v \<leftarrow> (if 0 \<in> set mac_buf then strcpy (val b) (cstr_of mac_buf) else None);
                    h \<leftarrow> put_block h a (b\<lparr>key := k, val := v\<rparr>);
                    hw_pairs params is mac_buf head a h })
          else hw_pairs params is mac_buf head tail h)"

definition logtype_pair :: "kvextractparams \<Rightarrow> nat \<Rightarrow> nat \<Rightarrow> kv_heap \<Rightarrow> (nat option \<times> kv_heap) option" where
  "logtype_pair params head tail h =
     (case kv_logtype params of
        None \<Rightarrow> Some (Some tail, h)
      | Some t \<Rightarrow>
         if 0 < length t
         then (case add_pair tail h of
                 None \<Rightarrow> None
               | Some (None, h) \<Rightarrow> give_up head h
               | Some (Some a, h) \<Rightarrow> do {
                   b \<leftarrow> get_block h a;
                   k \<leftarrow> strcpy (key b) (lit ''logtype'');
                   v \<leftarrow> strcpy (val b) t;
                   h \<leftarrow> put_block h a (b\<lparr>key := k, val := v\<rparr>);
                   Some (Some a, h) })
         else Some (Some tail, h))"

text \<open>What follows the model and the serial number.\<close>

definition network_pairs :: "kvextractparams \<Rightarrow> byte list \<Rightarrow> nat \<Rightarrow> nat \<Rightarrow> kv_heap \<Rightarrow> (nat option \<times> kv_heap) option" where
  "network_pairs params mac_buf head tail h = do {
     (t, h) \<leftarrow> ip_pairs params (ifaddrs params) head tail h;
     case t of None \<Rightarrow> Some (None, h) | Some tail \<Rightarrow> do {
       (t, h) \<leftarrow> hw_pairs params (interfaces_to_check params) mac_buf head tail h;
       case t of None \<Rightarrow> Some (None, h) | Some tail \<Rightarrow> do {
         (t, h) \<leftarrow> logtype_pair params head tail h;
         case t of None \<Rightarrow> Some (None, h) | Some tail \<Rightarrow> Some (Some head, h) } } }"

text \<open>The serial number is read into \<open>pair_tail->next_pair\<close>: whatever \<open>get_pair_from_file\<close> leaves there is stored.\<close>

definition extract_kv_pairs :: "fs \<Rightarrow> kvextractparams \<Rightarrow> byte list \<Rightarrow> kv_heap \<Rightarrow> (nat option \<times> kv_heap) option" where
  "extract_kv_pairs w params mac_buf h = do {
     (rv, a, h) \<leftarrow> get_pair_from_file w (platform_path params) (lit ''model'') True h;
     if rv \<noteq> KV_OK then Some (None, h)
     else do {
       head \<leftarrow> a;
       (rv, a, h) \<leftarrow> get_pair_from_file w (serial_path params) (lit ''serial'') True h;
       b \<leftarrow> get_block h head;
       h \<leftarrow> put_block h head (b\<lparr>next_pair := a\<rparr>);
       if rv \<noteq> KV_OK then give_up head h
       else do {
         tail \<leftarrow> a;
         network_pairs params mac_buf head tail h } } }"

section \<open>The chain of pairs\<close>

text \<open>
  \<open>built h0 h kvs\<close>: the heap \<open>h\<close> is \<open>h0\<close> with one chain of new blocks behind it, which holds the pairs
  \<open>kvs\<close> in order.
\<close>

definition built :: "kv_heap \<Rightarrow> kv_heap \<Rightarrow> (byte list \<times> byte list) list \<Rightarrow> bool" where
  "built h0 h kvs \<longleftrightarrow>
     brk h = brk h0 + length kvs \<and>
     blocks h = (\<lambda>a. if brk h0 \<le> a \<and> a < brk h
       then Some \<lparr>key = fst (kvs ! (a - brk h0)), val = snd (kvs ! (a - brk h0)),
                  next_pair = (if a + 1 < brk h then Some (a + 1) else None)\<rparr>
       else blocks h0 a)"

definition fresh :: "kv_heap \<Rightarrow> bool" where
  "fresh h \<longleftrightarrow> (\<forall>a \<ge> brk h. blocks h a = None)"

lemma free_chain:
  assumes "a < n" "\<And>x. a \<le> x \<Longrightarrow> x < n \<Longrightarrow> \<exists>b. blocks h x = Some b \<and> next_pair b = (if x + 1 < n then Some (x + 1) else None)"
  shows "free_kv_pairs (Some a) h = Some (h\<lparr>blocks := (\<lambda>x. if a \<le> x \<and> x < n then None else blocks h x)\<rparr>)"
  using assms
proof (induction "n - a" arbitrary: a h)
  case (Suc k)
  obtain b where b: "blocks h a = Some b" "next_pair b = (if a + 1 < n then Some (a + 1) else None)"
    using Suc.prems(2) [of a] Suc.prems(1) by auto
  let ?h = "h\<lparr>blocks := (blocks h)(a := None)\<rparr>"
  have step: "free_kv_pairs (Some a) h = free_kv_pairs (next_pair b) ?h"
    using b(1) by (subst free_kv_pairs.simps) (simp add: get_block_def free_block_def)
  show ?case
  proof (cases "a + 1 < n")
    case True
    have "free_kv_pairs (Some (a + 1)) ?h = Some (?h\<lparr>blocks := (\<lambda>x. if a + 1 \<le> x \<and> x < n then None else blocks ?h x)\<rparr>)"
      using Suc.hyps(2) True Suc.prems(2) by (intro Suc.hyps(1)) auto
    moreover have "(\<lambda>x. if a + 1 \<le> x \<and> x < n then None else blocks ?h x) = (\<lambda>x. if a \<le> x \<and> x < n then None else blocks h x)"
      using True by (auto simp: fun_eq_iff)
    ultimately show ?thesis using step b(2) True by simp
  next
    case False
    then have "blocks ?h = (\<lambda>x. if a \<le> x \<and> x < n then None else blocks h x)" using Suc.prems(1) by (auto simp: fun_eq_iff)
    then show ?thesis using step b(2) False by (subst (asm) (2) free_kv_pairs.simps) simp
  qed
qed simp

lemma free_built:
  assumes "built h0 h kvs" "fresh h0" "kvs \<noteq> []"
  shows "\<exists>h'. free_kv_pairs (Some (brk h0)) h = Some h' \<and> blocks h' = blocks h0"
proof -
  have "free_kv_pairs (Some (brk h0)) h = Some (h\<lparr>blocks := (\<lambda>x. if brk h0 \<le> x \<and> x < brk h then None else blocks h x)\<rparr>)"
    using assms by (intro free_chain) (auto simp: built_def)
  then show ?thesis using assms by (auto simp: built_def fresh_def fun_eq_iff)
qed

lemma give_up_built:
  assumes "built h0 h kvs" "fresh h0" "kvs \<noteq> []"
  shows "\<exists>h'. give_up (brk h0) h = Some (None, h') \<and> blocks h' = blocks h0"
  using free_built [OF assms] by (auto simp: give_up_def)

lemma built_put:
  assumes "built h0 h (kvs @ [p])"
  shows "\<exists>h'. put_block h (brk h - 1) \<lparr>key = k, val = v, next_pair = None\<rparr> = Some h' \<and> built h0 h' (kvs @ [(k, v)])"
  using assms by (auto simp: put_block_def built_def fun_eq_iff nth_append less_Suc_eq)

lemma built_get:
  assumes "built h0 h (kvs @ [p])"
  shows "get_block h (brk h - 1) = Some \<lparr>key = fst p, val = snd p, next_pair = None\<rparr>"
  using assms by (auto simp: get_block_def built_def nth_append)

lemma built_add:
  assumes "built h0 h kvs" "kvs \<noteq> []"
  shows "(\<exists>h'. add_pair (brk h - 1) h = Some (None, h') \<and> built h0 h' kvs) \<or>
    (\<exists>h'. add_pair (brk h - 1) h = Some (Some (brk h), h') \<and> brk h' = brk h + 1 \<and>
       built h0 h' (kvs @ [(replicate 128 0, replicate 128 0)]))"
proof -
  obtain ks p where kvs: "kvs = ks @ [p]" using assms(2) by (cases kvs rule: rev_cases) auto
  have top: "blocks h (brk h - 1) = Some \<lparr>key = fst p, val = snd p, next_pair = None\<rparr>"
    using built_get [of h0 h ks p] assms(1) by (simp add: kvs get_block_def)
  then have same: "(blocks h)(brk h - 1 \<mapsto> \<lparr>key = fst p, val = snd p, next_pair = None\<rparr>) = blocks h"
    by (intro fun_upd_idem)
  show ?thesis
  proof (cases "\<exists>oks. malloc_ok h = False # oks")
    case True
    then obtain oks where "new_pair h = (None, h\<lparr>malloc_ok := oks\<rparr>)" by (auto simp: new_pair_def)
    then have "add_pair (brk h - 1) h = Some (None, h\<lparr>malloc_ok := oks, blocks := blocks h\<rparr>)"
      using top same by (simp add: add_pair_def get_block_def put_block_def)
    then show ?thesis using assms(1) by (auto simp: built_def)
  next
    case False
    then have "new_pair h = (Some (brk h), h\<lparr>blocks := (blocks h)(brk h := Some zero_pair), brk := brk h + 1,
        malloc_ok := tl (malloc_ok h)\<rparr>)"
      by (auto simp: new_pair_def split: list.splits bool.splits)
    moreover have "brk h = Suc (brk h0 + length ks)" using assms(1) by (simp add: built_def kvs)
    ultimately have "\<exists>h'. add_pair (brk h - 1) h = Some (Some (brk h), h') \<and> brk h' = brk h + 1 \<and>
         built h0 h' (kvs @ [(replicate 128 0, replicate 128 0)])"
      using assms(1) top
      by (auto simp: kvs add_pair_def get_block_def put_block_def built_def fun_eq_iff zero_pair_def nth_append less_Suc_eq)
    then show ?thesis by simp
  qed
qed

section \<open>Every part keeps the chain\<close>

text \<open>A pair with one of the given keys: both fields have their size and are terminated.\<close>

definition pair_is :: "cstr list \<Rightarrow> byte list \<times> byte list \<Rightarrow> bool" where
  "pair_is ks p \<longleftrightarrow> length (fst p) = 128 \<and> 0 \<in> set (fst p) \<and> cstr_of (fst p) \<in> set ks \<and>
     length (snd p) = 128 \<and> 0 \<in> set (snd p)"

lemma strcpy_Some:
  assumes "length s < length dst" "nul_free s"
  obtains d where "strcpy dst s = Some d" "length d = length dst" "0 \<in> set d" "cstr_of d = s"
  using assms that [of "s @ 0 # drop (Suc (length s)) dst"]
  by (auto simp: strcpy_def arr_put_def cstr_of_nul_free)

text \<open>The result of a part that starts with the pairs \<open>kvs\<close>: given up and all freed, or some pairs more.\<close>

definition outcome :: "kv_heap \<Rightarrow> (byte list \<times> byte list) list \<Rightarrow> cstr list \<Rightarrow> (nat option \<times> kv_heap) option \<Rightarrow> bool" where
  "outcome h0 kvs ks r \<longleftrightarrow>
     (\<exists>h. r = Some (None, h) \<and> blocks h = blocks h0) \<or>
     (\<exists>h new. r = Some (Some (brk h - 1), h) \<and> built h0 h (kvs @ new) \<and> list_all (pair_is ks) new)"

lemma outcome_append:
  assumes "outcome h0 (kvs @ new) ks r" "list_all (pair_is ks) new"
  shows "outcome h0 kvs ks r"
  using assms unfolding outcome_def by (metis append.assoc list_all_append)

lemma get_pair_cases:
  assumes "fresh h" "length k < 128" "nul_free k"
  shows "(\<exists>rv h'. get_pair_from_file w p k True h = Some (rv, None, h') \<and> rv \<noteq> KV_OK \<and> blocks h' = blocks h) \<or>
    (\<exists>K V h'. get_pair_from_file w p k True h = Some (KV_OK, Some (brk h), h') \<and> pair_is [k] (K, V) \<and> brk h' = brk h + 1 \<and>
       blocks h' = (blocks h)(brk h \<mapsto> \<lparr>key = K, val = V, next_pair = None\<rparr>))"
proof (cases "\<exists>oks. malloc_ok h = False # oks")
  case True
  then show ?thesis by (auto simp: get_pair_from_file_def new_pair_def KV_FAIL_def KV_OK_def)
next
  case False
  let ?h = "h\<lparr>blocks := (blocks h)(brk h \<mapsto> zero_pair), brk := brk h + 1, malloc_ok := tl (malloc_ok h)\<rparr>"
  from False have np: "new_pair h = (Some (brk h), ?h)" by (auto simp: new_pair_def split: list.splits bool.splits)
  have none: "blocks h (brk h) = None" using assms(1) by (simp add: fresh_def)
  show ?thesis
  proof (cases "\<exists>bs. fs_read w p 127 = Read_Data bs")
    case False
    then have "read_file_as_string w (Some p) (Some (val zero_pair)) 128 = Some (-1, Some (val zero_pair))"
      by (auto simp: read_file_as_string_def split: read_outcome.splits)
    then show ?thesis using np none
      by (auto simp: get_pair_from_file_def get_block_def free_block_def KV_NOTHING_def KV_OK_def fun_upd_idem)
  next
    case True
    then obtain bs where bs: "fs_read w p 127 = Read_Data bs" by blast
    then have len: "length bs \<le> 127" by (auto simp: fs_read_def split: option.splits if_splits)
    let ?v = "bs @ 0 # drop (Suc (length bs)) (replicate 128 0)"
    have rd: "read_file_as_string w (Some p) (Some (val zero_pair)) 128 = Some (int (length bs), Some ?v)"
      using bs len by (simp add: read_file_as_string_def zero_pair_def arr_put_def)
    obtain V where V: "rstrip (Some ?v) = Some (Some V)" "length V = 128" "0 \<in> set V"
      using rstrip_eq [of ?v] len by auto
    obtain K where K: "strcpy (key zero_pair) k = Some K" "length K = 128" "0 \<in> set K" "cstr_of K = k"
      using assms(2,3) by (auto intro: strcpy_Some [of k "key zero_pair"] simp: zero_pair_def)
    have "get_pair_from_file w p k True h = Some (KV_OK, Some (brk h),
        ?h\<lparr>blocks := (blocks h)(brk h \<mapsto> \<lparr>key = K, val = V, next_pair = None\<rparr>)\<rparr>)"
      using np rd V(1) K(1) assms(2)
      by (simp add: get_pair_from_file_def get_block_def put_block_def) (simp add: zero_pair_def)
    then show ?thesis using V K by (auto simp: pair_is_def)
  qed
qed

text \<open>What the callbacks promise: they keep the size of the buffer, and success means a terminated string.\<close>

definition callbacks_ok :: "kvextractparams \<Rightarrow> bool" where
  "callbacks_ok params \<longleftrightarrow>
     (\<forall>sa buf. length (snd (name_info_resolver params sa buf)) = length buf \<and>
        (fst (name_info_resolver params sa buf) = 0 \<longrightarrow> 0 \<in> set (snd (name_info_resolver params sa buf)))) \<and>
     (\<forall>i buf. length (snd (interface_to_mac params i buf)) = length buf \<and>
        (fst (interface_to_mac params i buf) = 0 \<longrightarrow> 0 \<in> set (snd (interface_to_mac params i buf))))"

text \<open>Filling the new block at the end of the chain.\<close>

lemma fill_pair:
  assumes "built h0 h (kvs @ [p])" "pair_is ks (K, V)"
  shows "\<exists>h'. put_block h (brk h - 1) \<lparr>key = K, val = V, next_pair = None\<rparr> = Some h' \<and> brk h' = brk h \<and>
    built h0 h' (kvs @ [(K, V)]) \<and> outcome h0 kvs ks (Some (Some (brk h - 1), h'))"
proof -
  obtain h' where h': "put_block h (brk h - 1) \<lparr>key = K, val = V, next_pair = None\<rparr> = Some h'" "built h0 h' (kvs @ [(K, V)])"
    using built_put [OF assms(1)] by blast
  have "brk h' = brk h" using h'(1) by (auto simp: put_block_def split: if_splits)
  then show ?thesis using h' assms(2) unfolding outcome_def by (intro exI [of _ h'] conjI) auto
qed

lemma ip_pair_outcome:
  assumes "built h0 h kvs" "fresh h0" "kvs \<noteq> []" "callbacks_ok params"
  shows "outcome h0 kvs [lit ''ip'', lit ''ip6''] (ip_pair params sa (brk h0) (brk h - 1) h)"
  using built_add [OF assms(1,3)]
proof (elim disjE exE conjE)
  fix h1
  assume "add_pair (brk h - 1) h = Some (None, h1)" "built h0 h1 kvs"
  then show ?thesis using give_up_built [OF _ assms(2,3), of h1] by (auto simp: ip_pair_def outcome_def)
next
  fix h1
  let ?z = "replicate 128 (0 :: byte)"
  assume h1: "add_pair (brk h - 1) h = Some (Some (brk h), h1)" "brk h1 = brk h + 1" "built h0 h1 (kvs @ [(?z, ?z)])"
  obtain rv v where rv: "name_info_resolver params sa ?z = (rv, v)" "length v = 128" "rv = 0 \<Longrightarrow> 0 \<in> set v"
    using assms(4) unfolding callbacks_ok_def by (metis length_replicate prod.collapse)
  have get: "get_block h1 (brk h) = Some \<lparr>key = ?z, val = ?z, next_pair = None\<rparr>"
    using built_get [OF h1(3)] h1(2) by simp
  obtain h2 where h2: "put_block h1 (brk h) \<lparr>key = ?z, val = v, next_pair = None\<rparr> = Some h2" "built h0 h2 (kvs @ [(?z, v)])"
    using built_put [OF h1(3), of ?z v] h1(2) by auto
  have b2: "brk h2 = brk h1" using h2(1) by (auto simp: put_block_def split: if_splits)
  let ?k = "if fst sa = AF_INET then lit ''ip'' else lit ''ip6''"
  obtain K where K: "strcpy ?z ?k = Some K" "length K = 128" "0 \<in> set K" "cstr_of K = ?k"
    by (rule strcpy_Some [of ?k ?z]) (auto simp: lit_def)
  show ?thesis
  proof (cases "rv = 0")
    case True
    then have "pair_is [lit ''ip'', lit ''ip6''] (K, v)" using K rv by (auto simp: pair_is_def)
    from fill_pair [OF h2(2) this] obtain h3 where
        "put_block h2 (brk h) \<lparr>key = K, val = v, next_pair = None\<rparr> = Some h3"
        "outcome h0 kvs [lit ''ip'', lit ''ip6''] (Some (Some (brk h), h3))"
      using h1(2) b2 by auto
    then show ?thesis using h1(1) get rv(1) h2(1) K(1) True by (simp add: ip_pair_def)
  next
    case False
    then show ?thesis
      using h1(1) get rv(1) h2(1) give_up_built [OF h2(2) assms(2)] by (auto simp: ip_pair_def outcome_def)
  qed
qed

lemma outcome_start: "built h0 h kvs \<Longrightarrow> outcome h0 kvs ks (Some (Some (brk h - 1), h))"
  by (auto simp: outcome_def intro!: exI [of _ "[]"])

lemma ip_pairs_outcome:
  assumes "built h0 h kvs" "fresh h0" "kvs \<noteq> []" "callbacks_ok params"
  shows "outcome h0 kvs [lit ''ip'', lit ''ip6''] (ip_pairs params is (brk h0) (brk h - 1) h)"
  using assms
proof (induction "is" arbitrary: h kvs)
  case Nil
  then show ?case using outcome_start [of h0 h kvs] by simp
next
  case (Cons i "is")
  show ?case
  proof (cases "\<exists>sa. ifa_addr i = Some sa \<and> fst sa \<noteq> AF_OTHER \<and> ifa_name i \<in> set (interfaces_to_check params)")
    case True
    then obtain sa where sa: "ifa_addr i = Some sa" "fst sa \<noteq> AF_OTHER" "ifa_name i \<in> set (interfaces_to_check params)"
      by blast
    from ip_pair_outcome [OF Cons.prems, of sa, unfolded outcome_def] show ?thesis
    proof (elim disjE exE conjE)
      fix h1
      assume "ip_pair params sa (brk h0) (brk h - 1) h = Some (None, h1)" "blocks h1 = blocks h0"
      then show ?thesis using sa by (auto simp: outcome_def)
    next
      fix h1 new
      assume h1: "ip_pair params sa (brk h0) (brk h - 1) h = Some (Some (brk h1 - 1), h1)" "built h0 h1 (kvs @ new)"
        "list_all (pair_is [lit ''ip'', lit ''ip6'']) new"
      have "outcome h0 (kvs @ new) [lit ''ip'', lit ''ip6''] (ip_pairs params is (brk h0) (brk h1 - 1) h1)"
        using Cons.prems h1 by (intro Cons.IH) auto
      from outcome_append [OF this h1(3)] show ?thesis using sa h1(1) by simp
    qed
  next
    case False
    then have "ip_pairs params (i # is) (brk h0) (brk h - 1) h = ip_pairs params is (brk h0) (brk h - 1) h"
      by (auto split: option.splits)
    then show ?thesis using Cons by simp
  qed
qed

text \<open>A pair with a fixed key and a given value, as for the hardware addresses and the log type.\<close>

lemma add_fixed_pair:
  assumes "built h0 h kvs" "fresh h0" "kvs \<noteq> []" "length k < 128" "nul_free k" "length v < 128" "nul_free v"
  shows "(\<exists>h1 h2. add_pair (brk h - 1) h = Some (None, h1) \<and> give_up (brk h0) h1 = Some (None, h2) \<and> blocks h2 = blocks h0) \<or>
    (\<exists>h1 h2 b K V. add_pair (brk h - 1) h = Some (Some (brk h), h1) \<and> get_block h1 (brk h) = Some b \<and>
       strcpy (key b) k = Some K \<and> strcpy (val b) v = Some V \<and>
       put_block h1 (brk h) (b\<lparr>key := K, val := V\<rparr>) = Some h2 \<and> brk h = brk h2 - 1 \<and>
       built h0 h2 (kvs @ [(K, V)]) \<and> pair_is [k] (K, V))"
  using built_add [OF assms(1,3)]
proof (elim disjE exE conjE)
  fix h1
  assume "add_pair (brk h - 1) h = Some (None, h1)" "built h0 h1 kvs"
  then show ?thesis using give_up_built [OF _ assms(2,3), of h1] by auto
next
  fix h1
  let ?z = "replicate 128 (0 :: byte)"
  assume h1: "add_pair (brk h - 1) h = Some (Some (brk h), h1)" "brk h1 = brk h + 1" "built h0 h1 (kvs @ [(?z, ?z)])"
  have get: "get_block h1 (brk h) = Some \<lparr>key = ?z, val = ?z, next_pair = None\<rparr>"
    using built_get [OF h1(3)] h1(2) by simp
  obtain K where K: "strcpy ?z k = Some K" "length K = 128" "0 \<in> set K" "cstr_of K = k"
    by (rule strcpy_Some [of k ?z]) (use assms in auto)
  obtain V where V: "strcpy ?z v = Some V" "length V = 128" "0 \<in> set V"
    by (rule strcpy_Some [of v ?z]) (use assms in auto)
  have ok: "pair_is [k] (K, V)" using K V by (simp add: pair_is_def)
  from fill_pair [OF h1(3) ok] obtain h2 where "put_block h1 (brk h) \<lparr>key = K, val = V, next_pair = None\<rparr> = Some h2"
      "brk h2 = brk h1" "built h0 h2 (kvs @ [(K, V)])"
    using h1(2) by auto
  then show ?thesis using h1 get K(1) V(1) ok by auto
qed

lemma hw_pairs_outcome:
  assumes "built h0 h kvs" "fresh h0" "kvs \<noteq> []" "callbacks_ok params" "length mac_buf = 32"
  shows "outcome h0 kvs [lit ''hw''] (hw_pairs params is mac_buf (brk h0) (brk h - 1) h)"
  using assms
proof (induction "is" arbitrary: h kvs mac_buf)
  case Nil
  then show ?case using outcome_start [of h0 h kvs] by simp
next
  case (Cons i "is")
  obtain rv buf where rv: "interface_to_mac params i mac_buf = (rv, buf)" by fastforce
  then have buf: "length buf = 32" "rv = 0 \<Longrightarrow> 0 \<in> set buf"
    using Cons.prems(4,5) unfolding callbacks_ok_def by (metis fst_conv snd_conv)+
  have hw: "length (lit ''hw'') < 128" "nul_free (lit ''hw'')" by (simp_all add: lit_def)
  have v: "length (cstr_of buf) < 128" using length_takeWhile_le [of "\<lambda>b. b \<noteq> 0" buf] buf(1) by (simp add: cstr_of_def)
  show ?case
  proof (cases "rv = 0")
    case True
    from add_fixed_pair [OF Cons.prems(1-3) hw v nul_free_cstr_of] show ?thesis
    proof (elim disjE exE conjE)
      fix h1 h2
      assume "add_pair (brk h - 1) h = Some (None, h1)" "give_up (brk h0) h1 = Some (None, h2)" "blocks h2 = blocks h0"
      then show ?thesis using rv True by (auto simp: outcome_def)
    next
      fix h1 h2 b K V
      assume h1: "add_pair (brk h - 1) h = Some (Some (brk h), h1)" "get_block h1 (brk h) = Some b"
        "strcpy (key b) (lit ''hw'') = Some K" "strcpy (val b) (cstr_of buf) = Some V"
        "put_block h1 (brk h) (b\<lparr>key := K, val := V\<rparr>) = Some h2" "brk h = brk h2 - 1"
        "built h0 h2 (kvs @ [(K, V)])" "pair_is [lit ''hw''] (K, V)"
      have "outcome h0 (kvs @ [(K, V)]) [lit ''hw''] (hw_pairs params is buf (brk h0) (brk h2 - 1) h2)"
        using Cons.prems h1(7) buf by (intro Cons.IH) auto
      from outcome_append [OF this] have "outcome h0 kvs [lit ''hw''] (hw_pairs params is buf (brk h0) (brk h) h2)"
        using h1(6,8) by simp
      then show ?thesis using rv True buf(2) h1(1-5) by simp
    qed
  next
    case False
    then show ?thesis using Cons.IH [OF Cons.prems(1-4) buf(1)] rv by simp
  qed
qed

lemma logtype_pair_outcome:
  assumes "built h0 h kvs" "fresh h0" "kvs \<noteq> []" "\<forall>t. kv_logtype params = Some t \<longrightarrow> length t < 128 \<and> nul_free t"
  shows "outcome h0 kvs [lit ''logtype''] (logtype_pair params (brk h0) (brk h - 1) h)"
proof (cases "\<exists>t. kv_logtype params = Some t \<and> 0 < length t")
  case True
  then obtain t where t: "kv_logtype params = Some t" "0 < length t" by blast
  have lt: "length (lit ''logtype'') < 128" "nul_free (lit ''logtype'')" by (simp_all add: lit_def)
  have "length t < 128" "nul_free t" using assms(4) t(1) by auto
  from add_fixed_pair [OF assms(1-3) lt this] show ?thesis
  proof (elim disjE exE conjE)
    fix h1 h2
    assume "add_pair (brk h - 1) h = Some (None, h1)" "give_up (brk h0) h1 = Some (None, h2)" "blocks h2 = blocks h0"
    then show ?thesis using t by (auto simp: logtype_pair_def outcome_def)
  next
    fix h1 h2 b K V
    assume h1: "add_pair (brk h - 1) h = Some (Some (brk h), h1)" "get_block h1 (brk h) = Some b"
      "strcpy (key b) (lit ''logtype'') = Some K" "strcpy (val b) t = Some V"
      "put_block h1 (brk h) (b\<lparr>key := K, val := V\<rparr>) = Some h2" "brk h = brk h2 - 1"
      "built h0 h2 (kvs @ [(K, V)])" "pair_is [lit ''logtype''] (K, V)"
    have "outcome h0 kvs [lit ''logtype''] (Some (Some (brk h2 - 1), h2))"
      using outcome_append [OF outcome_start [OF h1(7)]] h1(8) by simp
    then show ?thesis using t h1(1-6) by (simp add: logtype_pair_def)
  qed
next
  case False
  then have "logtype_pair params (brk h0) (brk h - 1) h = Some (Some (brk h - 1), h)"
    by (auto simp: logtype_pair_def split: option.splits)
  then show ?thesis using outcome_start [OF assms(1)] by simp
qed

section \<open>The whole extraction\<close>

definition kv_result :: "kv_heap \<Rightarrow> nat option \<Rightarrow> kv_heap \<Rightarrow> bool" where
  "kv_result h r h' \<longleftrightarrow>
     (case r of
        None \<Rightarrow> blocks h' = blocks h
      | Some a \<Rightarrow> \<exists>m s ips hws lts h''. a = brk h \<and> built h h' ([m, s] @ ips @ hws @ lts) \<and>
          pair_is [lit ''model''] m \<and> pair_is [lit ''serial''] s \<and>
          list_all (pair_is [lit ''ip'', lit ''ip6'']) ips \<and> list_all (pair_is [lit ''hw'']) hws \<and>
          list_all (pair_is [lit ''logtype'']) lts \<and>
          free_kv_pairs (Some a) h' = Some h'' \<and> blocks h'' = blocks h)"

lemma first_two_pairs:
  assumes "fresh h"
  shows "(\<exists>rv h'. get_pair_from_file w p (lit ''model'') True h = Some (rv, None, h') \<and> rv \<noteq> KV_OK \<and> blocks h' = blocks h) \<or>
    (\<exists>h1 h2 h3 b rv m. get_pair_from_file w p (lit ''model'') True h = Some (KV_OK, Some (brk h), h1) \<and>
       get_pair_from_file w q (lit ''serial'') True h1 = Some (rv, None, h2) \<and> rv \<noteq> KV_OK \<and>
       get_block h2 (brk h) = Some b \<and> put_block h2 (brk h) (b\<lparr>next_pair := None\<rparr>) = Some h3 \<and>
       (\<exists>h4. give_up (brk h) h3 = Some (None, h4) \<and> blocks h4 = blocks h)) \<or>
    (\<exists>h1 h2 h3 b m s. get_pair_from_file w p (lit ''model'') True h = Some (KV_OK, Some (brk h), h1) \<and>
       get_pair_from_file w q (lit ''serial'') True h1 = Some (KV_OK, Some (brk h1), h2) \<and>
       get_block h2 (brk h) = Some b \<and> put_block h2 (brk h) (b\<lparr>next_pair := Some (brk h1)\<rparr>) = Some h3 \<and>
       brk h1 = brk h3 - 1 \<and> built h h3 [m, s] \<and> pair_is [lit ''model''] m \<and> pair_is [lit ''serial''] s)"
proof -
  have lits: "length (lit ''model'') < 128" "nul_free (lit ''model'')" "length (lit ''serial'') < 128" "nul_free (lit ''serial'')"
    by (simp_all add: lit_def)
  from get_pair_cases [OF assms lits(1,2), of w p] show ?thesis
  proof (elim disjE exE conjE)
    fix K V h1
    assume h1: "get_pair_from_file w p (lit ''model'') True h = Some (KV_OK, Some (brk h), h1)" "pair_is [lit ''model''] (K, V)"
      "brk h1 = brk h + 1" "blocks h1 = (blocks h)(brk h \<mapsto> \<lparr>key = K, val = V, next_pair = None\<rparr>)"
    have "fresh h1" using assms h1(3,4) by (auto simp: fresh_def)
    from get_pair_cases [OF this lits(3,4), of w q] show ?thesis
    proof (elim disjE exE conjE)
      fix rv h2
      assume h2: "get_pair_from_file w q (lit ''serial'') True h1 = Some (rv, None, h2)" "rv \<noteq> KV_OK" "blocks h2 = blocks h1"
      have one: "built h (h2\<lparr>brk := brk h + 1\<rparr>) [(K, V)]" using h1 h2 by (auto simp: built_def fun_eq_iff)
      let ?b = "\<lparr>key = K, val = V, next_pair = None\<rparr>"
      have "free_kv_pairs (Some (brk h)) h2 = Some (h2\<lparr>blocks := (\<lambda>x. if brk h \<le> x \<and> x < brk h + 1 then None else blocks h2 x)\<rparr>)"
        using h1 h2 by (intro free_chain) auto
      moreover have "(\<lambda>x. if brk h \<le> x \<and> x < brk h + 1 then None else blocks h2 x) = blocks h"
        using assms h1 h2 by (auto simp: fresh_def fun_eq_iff)
      moreover have "h2\<lparr>blocks := (blocks h2)(brk h \<mapsto> ?b)\<rparr> = h2" using h1 h2 by (simp add: fun_upd_idem)
      ultimately have "get_block h2 (brk h) = Some ?b \<and> put_block h2 (brk h) (?b\<lparr>next_pair := None\<rparr>) = Some h2 \<and>
          (\<exists>h4. give_up (brk h) h2 = Some (None, h4) \<and> blocks h4 = blocks h)"
        using h1 h2 by (simp add: get_block_def put_block_def give_up_def)
      then show ?thesis using h1(1) h2(1,2) by blast
    next
      fix K' V' h2
      assume h2: "get_pair_from_file w q (lit ''serial'') True h1 = Some (KV_OK, Some (brk h1), h2)" "pair_is [lit ''serial''] (K', V')"
        "brk h2 = brk h1 + 1" "blocks h2 = (blocks h1)(brk h1 \<mapsto> \<lparr>key = K', val = V', next_pair = None\<rparr>)"
      let ?b = "\<lparr>key = K, val = V, next_pair = None\<rparr>"
      let ?h3 = "h2\<lparr>blocks := (blocks h2)(brk h \<mapsto> ?b\<lparr>next_pair := Some (brk h1)\<rparr>)\<rparr>"
      have "get_block h2 (brk h) = Some ?b" "put_block h2 (brk h) (?b\<lparr>next_pair := Some (brk h1)\<rparr>) = Some ?h3"
        using h1 h2 by (simp_all add: get_block_def put_block_def)
      moreover have "built h ?h3 [(K, V), (K', V')]" using h1 h2 by (auto simp: built_def fun_eq_iff nth_Cons split: nat.splits)
      moreover have "brk h1 = brk ?h3 - 1" using h2(3) by simp
      ultimately show ?thesis using h1(1,2) h2(1,2) by blast
    qed
  qed blast
qed

lemma outcomeE:
  assumes "outcome h0 kvs ks r"
  obtains h where "r = Some (None, h)" "blocks h = blocks h0"
    | h new where "r = Some (Some (brk h - 1), h)" "built h0 h (kvs @ new)" "list_all (pair_is ks) new"
  using assms unfolding outcome_def by blast

lemma network_pairs_result:
  assumes "fresh h" "built h h3 [m, s]" "pair_is [lit ''model''] m" "pair_is [lit ''serial''] s" "callbacks_ok params"
    "length mac_buf = 32" "\<forall>t. kv_logtype params = Some t \<longrightarrow> length t < 128 \<and> nul_free t"
  shows "\<exists>r h'. network_pairs params mac_buf (brk h) (brk h3 - 1) h3 = Some (r, h') \<and> kv_result h r h'"
proof -
  have "outcome h [m, s] [lit ''ip'', lit ''ip6''] (ip_pairs params (ifaddrs params) (brk h) (brk h3 - 1) h3)"
    by (rule ip_pairs_outcome) (use assms in auto)
  then show ?thesis
  proof (cases rule: outcomeE)
    case (1 h4)
    then show ?thesis by (simp add: network_pairs_def kv_result_def)
  next
    case ip: (2 h4 ips)
    have "outcome h ([m, s] @ ips) [lit ''hw''] (hw_pairs params (interfaces_to_check params) mac_buf (brk h) (brk h4 - 1) h4)"
      by (rule hw_pairs_outcome) (use assms ip in auto)
    then show ?thesis
    proof (cases rule: outcomeE)
      case (1 h5)
      then show ?thesis using ip by (simp add: network_pairs_def kv_result_def)
    next
      case hw: (2 h5 hws)
      have "outcome h (([m, s] @ ips) @ hws) [lit ''logtype''] (logtype_pair params (brk h) (brk h5 - 1) h5)"
        by (rule logtype_pair_outcome) (use assms hw in auto)
      then show ?thesis
      proof (cases rule: outcomeE)
        case (1 h6)
        then show ?thesis using ip hw by (simp add: network_pairs_def kv_result_def)
      next
        case lt: (2 h6 lts)
        have b: "built h h6 ([m, s] @ ips @ hws @ lts)" using lt(2) by simp
        obtain h7 where "free_kv_pairs (Some (brk h)) h6 = Some h7" "blocks h7 = blocks h"
          using free_built [OF b assms(1)] by auto
        then have "kv_result h (Some (brk h)) h6"
          unfolding kv_result_def option.case using b assms(3,4) ip(3) hw(3) lt(3) by blast
        then show ?thesis using ip hw lt by (simp add: network_pairs_def)
      qed
    qed
  qed
qed

text \<open>
  Claim C29. The pairs of an upload: whatever the files hold and wherever \<open>malloc\<close> or the resolver fails,
  \<open>extract_kv_pairs\<close> makes no invalid access; when it returns \<open>NULL\<close> every block it allocated has been
  freed, and otherwise its result is a chain of terminated pairs in the order model, serial, IP
  addresses, hardware addresses, log type, which \<open>free_kv_pairs\<close> releases completely.
\<close>
theorem extract_kv_pairs_no_leak:
  assumes "fresh h" "callbacks_ok params" "length mac_buf = 32"
    "\<forall>t. kv_logtype params = Some t \<longrightarrow> length t < 128 \<and> nul_free t"
  shows "\<exists>r h'. extract_kv_pairs w params mac_buf h = Some (r, h') \<and> kv_result h r h'"
  using first_two_pairs [OF assms(1), of w "platform_path params" "serial_path params"]
proof (elim disjE exE conjE)
  fix h1 h2 h3 b m s
  assume h: "get_pair_from_file w (platform_path params) (lit ''model'') True h = Some (KV_OK, Some (brk h), h1)"
    "get_pair_from_file w (serial_path params) (lit ''serial'') True h1 = Some (KV_OK, Some (brk h1), h2)"
    "get_block h2 (brk h) = Some b" "put_block h2 (brk h) (b\<lparr>next_pair := Some (brk h1)\<rparr>) = Some h3"
    "brk h1 = brk h3 - 1" and ms: "built h h3 [m, s]" "pair_is [lit ''model''] m" "pair_is [lit ''serial''] s"
  show ?thesis
    using network_pairs_result [OF assms(1) ms assms(2-4)] h by (simp add: extract_kv_pairs_def)
qed (auto simp: extract_kv_pairs_def kv_result_def)

definition sample_kv :: kvextractparams where
  "sample_kv = \<lparr>interfaces_to_check = [lit ''br0'', lit ''wan0''],
     ifaddrs = [\<lparr>ifa_name = lit ''br0'', ifa_addr = Some (AF_INET, [10, 0, 0, 1])\<rparr>],
     platform_path = lit ''/tmp/platform'', serial_path = lit ''/tmp/serial'', kv_logtype = Some (lit ''dmesg''),
     name_info_resolver = (\<lambda>sa buf. (if buf = [] then 1 else 0, replicate (length buf) 0)),
     interface_to_mac = (\<lambda>i buf. (if i = lit ''br0'' \<and> buf \<noteq> [] then 0 else -1, replicate (length buf) 0))\<rparr>"

theorem extract_kv_pairs_no_leak_witness:
  "\<exists>r h'. extract_kv_pairs sample_fs sample_kv (replicate 32 1) \<lparr>blocks = (\<lambda>a. None), brk = 0, malloc_ok = [True, True, True, False]\<rparr>
      = Some (r, h') \<and> kv_result \<lparr>blocks = (\<lambda>a. None), brk = 0, malloc_ok = [True, True, True, False]\<rparr> r h'"
  by (rule extract_kv_pairs_no_leak) (simp_all add: fresh_def callbacks_ok_def sample_kv_def lit_def)

end
