(* ===== verification/Deflate_Inplace.thy ===== *)
theory Deflate_Inplace
  imports Log_Utils
begin

text \<open>
  \<open>deflate_inplace\<close> of \<^verbatim>\<open>src/logupload/client/utils.c\<close>: the log data is compressed into the buffer it lies in. The
  first call of \<open>deflate\<close> writes to a small buffer on the stack; the space of the input it consumed then
  takes the output of the following calls.

  zlib is not part of the repository: its functions are the fields of a record, over a stream state of
  any type. \<open>zlib_ok\<close> is what its manual promises of them.

  The length is an \<open>unsigned long\<close> and the counters of the stream are 32 bits wide; the model does not cut the length to
  32 bits, so it is the code's behaviour on buffers below 4 GB. The uploader's buffer is a few megabytes.
\<close>

section \<open>The interface of zlib\<close>

definition Z_OK :: int where "Z_OK = 0"
definition Z_STREAM_END :: int where "Z_STREAM_END = 1"
definition Z_STREAM_ERROR :: int where "Z_STREAM_ERROR = -2"
definition Z_BUF_ERROR :: int where "Z_BUF_ERROR = -5"

lemmas z_codes = Z_OK_def Z_STREAM_END_def Z_STREAM_ERROR_def Z_BUF_ERROR_def

text \<open>
  \<open>z_deflate z inp n finish\<close>: one call with the available input and \<open>n\<close> bytes of room; the result, the
  number of bytes consumed, the bytes produced and the new stream.
\<close>

record 'z zlib =
  z_end :: "'z \<Rightarrow> 'z"
  z_init :: "'z \<Rightarrow> int \<Rightarrow> int \<times> 'z"
  z_deflate :: "'z \<Rightarrow> byte list \<Rightarrow> nat \<Rightarrow> bool \<Rightarrow> int \<times> nat \<times> byte list \<times> 'z"

section \<open>Compression in place\<close>

text \<open>Pointer differences are stored in the 32-bit \<open>avail_out\<close>.\<close>

definition uint_sub :: "nat \<Rightarrow> nat \<Rightarrow> nat" where
  "uint_sub a b = (if b \<le> a then a - b else a + 2 ^ 32 - b)"

partial_function (option) deflate_loop ::
    "'z zlib \<Rightarrow> nat \<Rightarrow> int \<Rightarrow> 'z \<Rightarrow> byte list \<Rightarrow> nat \<Rightarrow> nat \<Rightarrow> nat \<Rightarrow> nat \<Rightarrow> (int \<times> 'z \<times> byte list \<times> nat \<times> nat) option" where
  "deflate_loop zl out_len rv z buf next_in avail_in next_out avail_out =
     (if rv = Z_OK then do {
        let avail_out = (if avail_in \<noteq> 0 then uint_sub next_in next_out else uint_sub out_len next_out);
        inp \<leftarrow> arr_slice buf next_in avail_in;
        let (rv, k, out, z) = z_deflate zl z inp avail_out True;
        buf \<leftarrow> arr_put buf next_out out;
        deflate_loop zl out_len rv z buf (next_in + k) (avail_in - k) (next_out + length out) (avail_out - length out) }
      else Some (rv, z, buf, next_out, avail_out))"

definition deflate_inplace ::
    "'z zlib \<Rightarrow> 'z \<Rightarrow> byte list \<Rightarrow> nat \<Rightarrow> nat \<Rightarrow> (int \<times> 'z \<times> byte list \<times> nat) option" where
  "deflate_inplace zl strm buf len out_len = do {
     let strm = z_end zl strm;
     let (rv, strm) = z_init zl strm 1;
     if rv \<noteq> Z_OK then Some (rv, strm, buf, out_len)
     else do {
       inp \<leftarrow> arr_slice buf 0 len;
       let (rv, k, temp, strm) = z_deflate zl strm inp 1024 False;
       if 1024 < length temp then None
       else if rv = Z_STREAM_ERROR then Some (rv, strm, buf, out_len)
       else do {
         let temp_used = length temp;
         (rv, strm, buf, next_out, avail_out) \<leftarrow>
            deflate_loop zl out_len rv strm buf k (len - k) 0 (1024 - temp_used);
         if rv = Z_STREAM_END then
           (if avail_out < temp_used then Some (Z_BUF_ERROR, strm, buf, out_len)
            else do {
              moved \<leftarrow> arr_slice buf 0 next_out;
              buf \<leftarrow> arr_put buf temp_used moved;
              buf \<leftarrow> arr_put buf 0 temp;
              Some (Z_OK, strm, buf, next_out + temp_used) })
         else Some (rv, strm, buf, out_len) } } }"

section \<open>What zlib promises\<close>

text \<open>
  \<open>zin\<close> and \<open>zout\<close> are what a stream has consumed and produced since it was initialised, \<open>enc\<close> the
  compressed form of a text: a call takes a prefix of its input and fits its room, \<open>Z_OK\<close> means some
  progress, and \<open>Z_STREAM_END\<close>, only when finishing, that all input was taken and all output produced.
\<close>

definition zlib_ok :: "'z zlib \<Rightarrow> ('z \<Rightarrow> byte list) \<Rightarrow> ('z \<Rightarrow> byte list) \<Rightarrow> (byte list \<Rightarrow> byte list) \<Rightarrow> bool" where
  "zlib_ok zl zin zout enc \<longleftrightarrow>
     (\<forall>z l z'. z_init zl z l = (Z_OK, z') \<longrightarrow> zin z' = [] \<and> zout z' = []) \<and>
     (\<forall>z inp n fin rv k out z'. z_deflate zl z inp n fin = (rv, k, out, z') \<longrightarrow>
        k \<le> length inp \<and> length out \<le> n \<and> zin z' = zin z @ take k inp \<and> zout z' = zout z @ out \<and>
        (rv = Z_OK \<longrightarrow> 0 < k + length out) \<and>
        (rv = Z_STREAM_END \<longrightarrow> fin \<and> k = length inp \<and> zout z' = enc (zin z')))"

lemma zlib_deflateD:
  assumes "zlib_ok zl zin zout enc" "z_deflate zl z inp n fin = (rv, k, out, z')"
  shows "k \<le> length inp" "length out \<le> n" "zin z' = zin z @ take k inp" "zout z' = zout z @ out"
    "rv = Z_OK \<Longrightarrow> 0 < k + length out" "rv = Z_STREAM_END \<Longrightarrow> fin \<and> k = length inp \<and> zout z' = enc (zin z')"
  using assms unfolding zlib_ok_def by blast+

text \<open>
  The invariant of the loop: the input not yet consumed is still in place, and what zlib has produced is
  the small buffer followed by the beginning of the large one.
\<close>

definition loop_inv :: "('z \<Rightarrow> byte list) \<Rightarrow> ('z \<Rightarrow> byte list) \<Rightarrow> byte list \<Rightarrow> byte list \<Rightarrow> nat \<Rightarrow> byte list \<Rightarrow>
    'z \<Rightarrow> byte list \<Rightarrow> nat \<Rightarrow> nat \<Rightarrow> nat \<Rightarrow> bool" where
  "loop_inv zin zout txt temp out_len buf0 z buf next_in avail_in next_out \<longleftrightarrow>
     next_in + avail_in = length txt \<and> length txt \<le> out_len \<and> out_len \<le> length buf0 \<and> length buf = length buf0 \<and>
     next_out \<le> (if avail_in = 0 then out_len else next_in) \<and>
     zin z @ take avail_in (drop next_in buf) = txt \<and> zout z = temp @ take next_out buf \<and>
     drop out_len buf = drop out_len buf0"

lemma loop_step:
  assumes ok: "zlib_ok zl zin zout enc"
    and inv: "loop_inv zin zout txt temp out_len buf0 z buf next_in avail_in next_out"
    and ao: "avail_out = (if avail_in \<noteq> 0 then uint_sub next_in next_out else uint_sub out_len next_out)"
    and step: "z_deflate zl z (take avail_in (drop next_in buf)) avail_out True = (rv, k, out, z')"
  shows "\<exists>buf'. arr_slice buf next_in avail_in = Some (take avail_in (drop next_in buf)) \<and> arr_put buf next_out out = Some buf' \<and>
    loop_inv zin zout txt temp out_len buf0 z' buf' (next_in + k) (avail_in - k) (next_out + length out) \<and>
    next_out + length out + (avail_out - length out) \<le> out_len \<and>
    (rv = Z_OK \<longrightarrow> avail_in - k + (out_len - (next_out + length out)) < avail_in + (out_len - next_out)) \<and>
    (rv = Z_STREAM_END \<longrightarrow> temp @ take (next_out + length out) buf' = enc txt)"
proof -
  note d = zlib_deflateD [OF ok step]
  let ?buf = "take next_out buf @ out @ drop (next_out + length out) buf"
  have i: "next_in + avail_in = length txt" "length txt \<le> out_len" "out_len \<le> length buf0" "length buf = length buf0"
    "next_out \<le> (if avail_in = 0 then out_len else next_in)" "zin z @ take avail_in (drop next_in buf) = txt"
    "zout z = temp @ take next_out buf" "drop out_len buf = drop out_len buf0"
    using inv by (auto simp: loop_inv_def)
  have k: "k \<le> avail_in" using d(1) by simp
  have room: "next_out + length out \<le> (if avail_in = 0 then out_len else next_in)"
    using d(2) i(5) ao by (auto simp: uint_sub_def split: if_splits)
  then have fit: "next_out + length out \<le> out_len" using i(1,2) by (auto split: if_splits)
  have put: "arr_put buf next_out out = Some ?buf" using fit i by (simp add: arr_put_def)
  have slice: "arr_slice buf next_in avail_in = Some (take avail_in (drop next_in buf))"
    using i by (simp add: arr_slice_def)
  have keep: "drop m ?buf = drop m buf" if "next_out + length out \<le> m" for m
    using that fit i by (simp add: min_def)
  have rest: "take k (take avail_in (drop next_in buf)) @ take (avail_in - k) (drop (next_in + k) ?buf) =
      take avail_in (drop next_in buf)"
  proof (cases "avail_in = 0")
    case False
    then have "drop (next_in + k) ?buf = drop k (drop next_in buf)" using room by (subst keep) (simp_all add: add.commute)
    then show ?thesis using k by (metis append_take_drop_id drop_take)
  qed simp
  have "loop_inv zin zout txt temp out_len buf0 z' ?buf (next_in + k) (avail_in - k) (next_out + length out)"
    unfolding loop_inv_def using i k room fit d(3,4) rest keep [OF fit] by (auto split: if_splits)
  moreover have "next_out + length out + (avail_out - length out) \<le> out_len"
    using i d(2) ao by (auto simp: uint_sub_def split: if_splits)
  moreover have "temp @ take (next_out + length out) ?buf = enc txt" if "rv = Z_STREAM_END"
  proof -
    have "zin z' = txt" using d(3) d(6) [OF that] i(6) by (metis order_refl take_all)
    then show ?thesis using d(4) d(6) [OF that] i(3,4,7) fit by simp
  qed
  moreover have "avail_in - k + (out_len - (next_out + length out)) < avail_in + (out_len - next_out)" if "rv = Z_OK"
    using d(5) [OF that] k fit by linarith
  ultimately show ?thesis using put slice by auto
qed

lemma deflate_loop_ends:
  assumes ok: "zlib_ok zl zin zout enc"
    and inv: "loop_inv zin zout txt temp out_len buf0 z buf next_in avail_in next_out"
  shows "\<exists>rv' z' buf' no ao. deflate_loop zl out_len Z_OK z buf next_in avail_in next_out avail_out = Some (rv', z', buf', no, ao) \<and>
    rv' \<noteq> Z_OK \<and> length buf' = length buf0 \<and> drop out_len buf' = drop out_len buf0 \<and> no + ao \<le> out_len \<and>
    (rv' = Z_STREAM_END \<longrightarrow> temp @ take no buf' = enc txt)"
  using inv
proof (induction "avail_in + (out_len - next_out)" arbitrary: z buf next_in avail_in next_out avail_out rule: less_induct)
  case less
  let ?ao = "if avail_in \<noteq> 0 then uint_sub next_in next_out else uint_sub out_len next_out"
  obtain rv k out z1 where d: "z_deflate zl z (take avail_in (drop next_in buf)) ?ao True = (rv, k, out, z1)"
    by (metis prod_cases4)
  obtain buf1 where s: "arr_slice buf next_in avail_in = Some (take avail_in (drop next_in buf))" "arr_put buf next_out out = Some buf1"
      "loop_inv zin zout txt temp out_len buf0 z1 buf1 (next_in + k) (avail_in - k) (next_out + length out)"
      "next_out + length out + (?ao - length out) \<le> out_len"
      "rv = Z_OK \<longrightarrow> avail_in - k + (out_len - (next_out + length out)) < avail_in + (out_len - next_out)"
      "rv = Z_STREAM_END \<longrightarrow> temp @ take (next_out + length out) buf1 = enc txt"
    using loop_step [OF ok less.prems refl d] by blast
  have eq: "deflate_loop zl out_len Z_OK z buf next_in avail_in next_out avail_out =
      deflate_loop zl out_len rv z1 buf1 (next_in + k) (avail_in - k) (next_out + length out) (?ao - length out)"
    using d s(1,2) by (subst deflate_loop.simps) (simp add: Let_def)
  show ?case
  proof (cases "rv = Z_OK")
    case True
    have "\<exists>rv' z' buf' no ao. deflate_loop zl out_len Z_OK z1 buf1 (next_in + k) (avail_in - k) (next_out + length out) (?ao - length out)
        = Some (rv', z', buf', no, ao) \<and>
      rv' \<noteq> Z_OK \<and> length buf' = length buf0 \<and> drop out_len buf' = drop out_len buf0 \<and> no + ao \<le> out_len \<and>
      (rv' = Z_STREAM_END \<longrightarrow> temp @ take no buf' = enc txt)"
      using s(5) True by (intro less.hyps s(3)) simp
    then show ?thesis unfolding eq True .
  next
    case False
    then show ?thesis unfolding eq using s(3,4,6) by (subst deflate_loop.simps) (simp add: loop_inv_def)
  qed
qed

text \<open>
  Claim C30. Compression in place. With a zlib that keeps its promises and a buffer at least as large as
  the data, the loop ends, nothing outside the buffer is touched, and when \<open>Z_OK\<close> is returned the
  buffer starts with the compressed form of the data that was in it, of the size reported.
\<close>
theorem deflate_inplace_compresses:
  assumes ok: "zlib_ok zl zin zout enc" and size: "len \<le> out_len" "out_len \<le> length buf"
  shows "\<exists>rv strm' buf' n. deflate_inplace zl strm buf len out_len = Some (rv, strm', buf', n) \<and>
    length buf' = length buf \<and> drop out_len buf' = drop out_len buf \<and>
    (rv = Z_OK \<longrightarrow> n \<le> out_len \<and> take n buf' = enc (take len buf))"
proof -
  obtain rv0 s0 where init: "z_init zl (z_end zl strm) 1 = (rv0, s0)" by fastforce
  obtain rv1 k temp s1 where d: "z_deflate zl s0 (take len buf) 1024 False = (rv1, k, temp, s1)" by (metis prod_cases4)
  note dd = zlib_deflateD [OF ok d]
  have inp: "arr_slice buf 0 len = Some (take len buf)" using size by (simp add: arr_slice_def)
  let ?loop = "deflate_loop zl out_len rv1 s1 buf k (len - k) 0 (1024 - length temp)"
  consider "rv0 \<noteq> Z_OK" | "rv0 = Z_OK" "rv1 = Z_STREAM_ERROR" | "rv0 = Z_OK" "rv1 \<noteq> Z_OK" "rv1 \<noteq> Z_STREAM_ERROR"
    | "rv0 = Z_OK" "rv1 = Z_OK" by blast
  then show ?thesis
  proof cases
    case 1
    then show ?thesis by (simp add: deflate_inplace_def Let_def init)
  next
    case 2
    then show ?thesis using inp d dd(2) by (simp add: deflate_inplace_def Let_def init z_codes)
  next
    case 3
    then have "?loop = Some (rv1, s1, buf, 0, 1024 - length temp)" by (subst deflate_loop.simps) simp
    then show ?thesis using 3 inp d dd(2,6) by (auto simp: deflate_inplace_def Let_def init z_codes)
  next
    case 4
    have s0: "zin s0 = []" "zout s0 = []" using ok init 4(1) by (auto simp: zlib_ok_def)
    have "take k (take len buf) @ take (len - k) (drop k buf) = take len buf"
      using dd(1) size by (metis append_take_drop_id drop_take)
    then have "loop_inv zin zout (take len buf) temp out_len buf s1 buf k (len - k) 0"
      using dd(1,3,4) s0 size by (auto simp: loop_inv_def)
    from deflate_loop_ends [OF ok this, of "1024 - length temp"] 4(2)
    obtain rv' z' buf' no ao where l: "?loop = Some (rv', z', buf', no, ao)" "rv' \<noteq> Z_OK" "length buf' = length buf"
        "drop out_len buf' = drop out_len buf" "no + ao \<le> out_len" "rv' = Z_STREAM_END \<longrightarrow> temp @ take no buf' = enc (take len buf)"
      by blast
    show ?thesis
    proof (cases "rv' = Z_STREAM_END \<and> length temp \<le> ao")
      case True
      have fits: "length temp + no \<le> out_len" using True l(5) by linarith
      let ?b1 = "take (length temp) buf' @ take no buf' @ drop (length temp + no) buf'"
      let ?b2 = "temp @ take no buf' @ drop (length temp + no) buf'"
      have "arr_slice buf' 0 no = Some (take no buf')" "arr_put buf' (length temp) (take no buf') = Some ?b1"
        "arr_put ?b1 0 temp = Some ?b2"
        using True l(3,5) size by (simp_all add: arr_slice_def arr_put_def)
      then have "deflate_inplace zl strm buf len out_len = Some (Z_OK, z', ?b2, no + length temp)"
        using 4 inp d dd(2) l(1) True by (simp add: deflate_inplace_def Let_def init z_codes)
      moreover have "take (no + length temp) ?b2 = enc (take len buf)" using True l(3,5,6) size by simp
      moreover have "length ?b2 = length buf" "drop out_len ?b2 = drop out_len buf"
        using fits l(3,4) size by simp_all
      ultimately show ?thesis using True l(5) by simp
    next
      case False
      then show ?thesis using 4 inp d dd(2) l by (auto simp: deflate_inplace_def Let_def init z_codes)
    qed
  qed
qed

text \<open>A codec that keeps the promises: it stores its input.\<close>

definition store_codec :: "(byte list \<times> byte list) zlib" where
  "store_codec = \<lparr>z_end = id, z_init = (\<lambda>z l. (Z_OK, ([], []))),
     z_deflate = (\<lambda>z inp n fin. let k = min (length inp) n
        in (if fin \<and> k = length inp then Z_STREAM_END else if k = 0 then Z_BUF_ERROR else Z_OK, k, take k inp,
            (fst z @ take k inp, snd z @ take k inp)))\<rparr>"

lemma store_codec_ok: "zlib_ok store_codec fst (\<lambda>z. fst z) id"
  by (auto simp: zlib_ok_def store_codec_def Let_def z_codes split: if_splits)

theorem deflate_inplace_compresses_witness:
  "\<exists>rv strm' buf' n. deflate_inplace store_codec ([], []) [1, 2, 3, 0, 0] 3 4 = Some (rv, strm', buf', n) \<and>
    length buf' = length [1, 2, 3, 0, 0 :: byte] \<and> drop 4 buf' = drop 4 [1, 2, 3, 0, 0] \<and>
    (rv = Z_OK \<longrightarrow> n \<le> 4 \<and> take n buf' = id (take 3 [1, 2, 3, 0, 0]))"
  by (rule deflate_inplace_compresses [OF store_codec_ok]) simp_all

end
