(* ===== verification/Log_Main.thy ===== *)
theory Log_Main
  imports Log_Parse Kv_Extract Deflate_Inplace
begin

text \<open>
  The main program of the log uploader, \<^verbatim>\<open>src/logupload/client/log_uploader_main.c\<close>: options, and the cycle of
  collecting, compressing and uploading.

  The environment of a run are the command line, the memory \<open>malloc\<close> and the stack give, the file system,
  what \<^verbatim>\<open>/dev/kmsg\<close> and standard input return, and, for every cycle, a record of what the system answers
  in it. The HTTP transfer of \<^verbatim>\<open>upload.c\<close> is one answer: its result. A run is \<open>Waiting\<close> when it asks for input
  that the environment does not have.
\<close>

section \<open>Constants\<close>

definition DEFAULT_SERVER :: cstr where "DEFAULT_SERVER = lit ''https://diag.cpe.gfsvc.com''"
definition COUNTER_MARKER_FILE :: cstr where "COUNTER_MARKER_FILE = lit ''/tmp/loguploadcounter''"
definition LOGS_UPLOADED_MARKER_FILE :: cstr where "LOGS_UPLOADED_MARKER_FILE = lit ''/tmp/logs-uploaded''"
definition DEFAULT_UPLOAD_TARGET :: cstr where "DEFAULT_UPLOAD_TARGET = lit ''dmesg''"
definition MAX_LOG_SIZE :: nat where "MAX_LOG_SIZE = 8 * 1024 * 1024"
definition LOG_BUF_EXTRA :: nat where "LOG_BUF_EXTRA = 65536"
definition DEV_KMSG_PATH :: cstr where "DEV_KMSG_PATH = lit ''/dev/kmsg''"
definition NTP_SYNCED_PATH :: cstr where "NTP_SYNCED_PATH = lit ''/tmp/ntp.synced''"
definition VERSION_PATH :: cstr where "VERSION_PATH = lit ''/etc/version''"
definition SERIAL_PATH :: cstr where "SERIAL_PATH = lit ''/tmp/serial''"
definition PLATFORM_PATH :: cstr where "PLATFORM_PATH = lit ''/tmp/platform''"
definition LOG_LINE_BUFFER_SIZE :: nat where "LOG_LINE_BUFFER_SIZE = 8192"

definition main_interfaces :: "cstr list" where
  "main_interfaces = map lit [''br0'', ''br1'', ''eth0'', ''man'', ''pon0'', ''wcli0'', ''wcli1'', ''wlan0_portal'', ''wlan1_portal'']"

section \<open>Hardware addresses\<close>

text \<open>\<open>%02x\<close> of a \<open>char\<close>: where \<open>char\<close> is signed, a byte above 127 is a negative int and prints as eight digits.\<close>

definition hex_char :: "bool \<Rightarrow> byte \<Rightarrow> cstr" where
  "hex_char char_signed b =
     (if char_signed \<and> 128 \<le> b then lit ''ffffff'' @ hex_fixed 2 (unat b) else hex_fixed 2 (unat b))"

definition mac_text :: "bool \<Rightarrow> byte list \<Rightarrow> cstr" where
  "mac_text char_signed m =
     hex_char char_signed (m ! 0) @ [58] @ hex_char char_signed (m ! 1) @ [58] @ hex_char char_signed (m ! 2) @ [58] @
     hex_char char_signed (m ! 3) @ [58] @ hex_char char_signed (m ! 4) @ [58] @ hex_char char_signed (m ! 5)"

definition snprintf_buf :: "byte list \<Rightarrow> cstr \<Rightarrow> byte list" where
  "snprintf_buf buf s =
     (let t = take (length buf - 1) s in if buf = [] then [] else t @ 0 # drop (length t + 1) buf)"

definition iface_to_mac :: "bool \<Rightarrow> (cstr \<Rightarrow> byte list option) \<Rightarrow> cstr \<Rightarrow> byte list \<Rightarrow> int \<times> byte list" where
  "iface_to_mac char_signed hwaddr iface buf =
     (if length buf < 18 then (-1, buf)
      else if 16 < length iface + 1 then (-1, buf)
      else case hwaddr iface of
             None \<Rightarrow> (-1, buf)
           | Some m \<Rightarrow> (0, snprintf_buf buf (mac_text char_signed m)))"

section \<open>Options\<close>

datatype getopt_result = Opt char cstr | Bad_Opt | Opts_Done "cstr list"

text \<open>The table of \<open>long_options\<close>: name, whether an argument is required, short form.\<close>

definition long_options :: "(cstr \<times> bool \<times> char) list" where
  "long_options = [(lit ''server'', True, CHR ''s''), (lit ''all'', False, CHR ''a''), (lit ''logtype'', True, CHR ''l''),
     (lit ''freq'', True, CHR ''f''), (lit ''stdout'', False, CHR ''d''), (lit ''stdin'', True, CHR ''i'')]"

text \<open>\<open>getopt_long\<close> finds a name by exact match, else by the only name it abbreviates.\<close>

definition find_option :: "cstr \<Rightarrow> (bool \<times> char) option" where
  "find_option n =
     (case filter (\<lambda>o'. fst o' = n) long_options of
        o' # r \<Rightarrow> Some (snd o')
      | [] \<Rightarrow> (case filter (\<lambda>o'. is_prefix n (fst o')) long_options of
                 [o'] \<Rightarrow> Some (snd o')
               | _ \<Rightarrow> None))"

text \<open>
  One call of \<open>getopt_long (argc, argv, "", long_options, NULL)\<close>: the arguments not yet scanned, and those
  skipped because they are no options (they end up last).
\<close>

fun getopt_long :: "cstr list \<Rightarrow> cstr list \<Rightarrow> getopt_result \<times> cstr list \<times> cstr list" where
  "getopt_long [] skipped = (Opts_Done skipped, [], skipped)"
| "getopt_long (a # as) skipped =
     (if a = lit ''--'' then (Opts_Done (skipped @ as), [], skipped @ as)
      else if is_prefix (lit ''--'') a then
        (let body = drop 2 a;
             n = takeWhile (\<lambda>c. c \<noteq> 61) body;
             has_value = (61 \<in> set body);
             value = drop (length n + 1) body
         in case find_option n of
              None \<Rightarrow> (Bad_Opt, as, skipped)
            | Some (False, c) \<Rightarrow> if has_value then (Bad_Opt, as, skipped) else (Opt c [], as, skipped)
            | Some (True, c) \<Rightarrow>
                if has_value then (Opt c value, as, skipped)
                else (case as of [] \<Rightarrow> (Bad_Opt, as, skipped) | v # as' \<Rightarrow> (Opt c v, as', skipped)))
      else if is_prefix (lit ''-'') a \<and> a \<noteq> lit ''-'' then (Bad_Opt, as, skipped)
      else getopt_long as (skipped @ [a]))"

lemma getopt_long_length: "getopt_long args skipped = (Opt c v, as, sk) \<Longrightarrow> length as < length args"
  by (induction args skipped rule: getopt_long.induct)
    (auto simp: Let_def less_Suc_eq split: if_splits option.splits prod.splits bool.splits list.splits)

function parse_opts :: "upload_config \<Rightarrow> cstr list \<Rightarrow> cstr list \<Rightarrow> int \<times> upload_config" where
  "parse_opts cfg args skipped =
     (case getopt_long args skipped of
        (Opts_Done rest, as, sk) \<Rightarrow> (if rest \<noteq> [] then -1 else 0, cfg)
      | (Bad_Opt, as, sk) \<Rightarrow> (-1, cfg)
      | (Opt c optarg, as, sk) \<Rightarrow>
         if c = CHR ''a'' then parse_opts (cfg\<lparr>upload_all := True\<rparr>) as sk
         else if c = CHR ''d'' then parse_opts (cfg\<lparr>use_stdout := True\<rparr>) as sk
         else if c = CHR ''s'' then parse_opts (cfg\<lparr>server := snprintf_buf (server cfg) optarg\<rparr>) as sk
         else if c = CHR ''i'' then
           parse_opts (cfg\<lparr>use_stdin := True, upload_target := snprintf_buf (upload_target cfg) optarg\<rparr>) as sk
         else if c = CHR ''l'' then parse_opts (cfg\<lparr>logtype := snprintf_buf (logtype cfg) optarg\<rparr>) as sk
         else if c = CHR ''f'' then
           (let cfg = cfg\<lparr>freq := atoi_int optarg\<rparr>
            in if freq cfg < 0 then (-1, cfg) else parse_opts cfg as sk)
         else (-1, cfg))"
  by pat_completeness auto
termination
  by (relation "measure (\<lambda>(cfg, args, skipped). length args)") (auto dest: getopt_long_length [OF sym])

declare parse_opts.simps [simp del]

definition parse_args :: "upload_config \<Rightarrow> cstr list \<Rightarrow> int \<times> upload_config" where
  "parse_args cfg args = parse_opts cfg args []"

text \<open>\<open>freq\<close> is never negative, so the division is that of C. \<open>random\<close> gives a \<open>long\<close>; the sum is a \<open>long\<close> and the result is cut to an \<open>int\<close>.\<close>

definition pick_delay :: "nat \<Rightarrow> upload_config \<Rightarrow> int" where
  "pick_delay random cfg =
     (let variance = freq cfg div 12
      in wrap_int ((freq cfg - variance) + int random mod (variance * 2 + 1)))"

section \<open>One cycle\<close>

datatype stdin_read = In_Data "byte list" | In_Eof | In_Error errno_in
and errno_in = In_EINTR | In_EOTHER

text \<open>What the system answers in one cycle. \<open>c_mac_mem\<close> is an uninitialised buffer on the stack.\<close>

record cycle =
  c_random :: nat
  c_kenv :: "nat \<Rightarrow> key_env"
  c_clock :: clock
  c_clock_start :: clock
  c_ifaddrs :: "ifaddr list option"
  c_resolver :: "family \<times> byte list \<Rightarrow> byte list \<Rightarrow> int \<times> byte list"
  c_hwaddr :: "cstr \<Rightarrow> byte list option"
  c_mac_mem :: "byte list"
  c_upload :: int

record 'z main_state =
  m_params :: log_parse_params
  m_fs :: fs
  m_keys :: key_state
  m_kmsg :: "log_read list"
  m_stdin :: "(stdin_read \<times> bool) list"
  m_strm :: 'z
  m_heap :: kv_heap
  m_uploads :: "(cstr \<times> cstr \<times> byte list) list"
  m_stdout :: "byte list"
  m_delays :: "int list"

text \<open>\<open>m_delays\<close> are the delays given to \<open>alarm\<close> and \<open>sleep\<close>.\<close>

datatype step = Continue | Exit int | Waiting

text \<open>
  The reads from standard input; the flag with a read says whether the alarm has gone off by the time
  its result is looked at. The result is the last value of \<open>num_read\<close>, the buffer and \<open>total_read\<close>.
\<close>

fun stdin_loop :: "(stdin_read \<times> bool) list \<Rightarrow> byte list \<Rightarrow> nat \<Rightarrow>
    ((stdin_read \<times> byte list \<times> nat \<times> (stdin_read \<times> bool) list) option) option" where
  "stdin_loop [] buf tot = Some None"
| "stdin_loop ((r, interrupted) # rest) buf tot =
     (case r of
        In_Data bs \<Rightarrow>
          if bs = [] \<or> MAX_LOG_SIZE - tot < length bs then None
          else do {
            buf \<leftarrow> arr_put buf tot bs;
            if interrupted then Some (Some (r, buf, tot, rest)) else stdin_loop rest buf (tot + length bs) }
      | _ \<Rightarrow> Some (Some (r, buf, tot, rest)))"

text \<open>The first half of the loop body: the data to use and its length, or the end of the run.\<close>

definition read_phase ::
    "(byte list \<Rightarrow> byte list \<Rightarrow> byte list) \<Rightarrow> cycle \<Rightarrow> 'z main_state \<Rightarrow> ((step + nat \<times> nat) \<times> 'z main_state) option" where
  "read_phase hmac c st =
     (let p = m_params st; cfg = config p
      in if use_stdin cfg then do {
           let st = st\<lparr>m_delays := m_delays st @ [pick_delay (c_random c) cfg]\<rparr>;
           r \<leftarrow> stdin_loop (m_stdin st) (log_buffer p) 0;
           case r of
             None \<Rightarrow> Some (Inl Waiting, st)
           | Some (num_read, buf, tot, rest) \<Rightarrow>
              (let st = st\<lparr>m_params := p\<lparr>log_buffer := buf\<rparr>, m_stdin := rest\<rparr>
               in if num_read = In_Error In_EOTHER then Some (Inl (Exit 2), st)
                  else if num_read = In_Eof \<and> tot = 0 then Some (Inl (Exit 0), st)
                  else Some (Inr (0, tot), st)) }
         else do {
           let w = (m_fs st)\<lparr>files := (files (m_fs st))(LOGS_UPLOADED_MARKER_FILE := None)\<rparr>;
           (w, rv) \<leftarrow> (if last_log_counter p = 0
                      then logmark_once (c_clock_start c) DEV_KMSG_PATH VERSION_PATH NTP_SYNCED_PATH w
                      else Some (w, 0));
           if rv \<noteq> 0 then Some (Inl (Exit 3), st\<lparr>m_fs := w\<rparr>)
           else do {
             (r, reads, w, ks, p) \<leftarrow> parse_and_consume_log_data hmac (c_kenv c) (c_clock c) (m_kmsg st) w (m_keys st)
                (p\<lparr>total_read := MAX_LOG_SIZE\<rparr>);
             let st = st\<lparr>m_params := p, m_fs := w, m_keys := ks, m_kmsg := reads\<rparr>;
             case r of
               Log_Null \<Rightarrow> Some (Inl (Exit 4), st)
             | Log_Starved \<Rightarrow> Some (Inl Waiting, st)
             | Log_Data off \<Rightarrow> Some (Inr (off, total_read p), st) } })"

text \<open>Compressing and uploading; \<open>None\<close> inside the option when it succeeded.\<close>

definition kv_params :: "bool \<Rightarrow> cycle \<Rightarrow> ifaddr list \<Rightarrow> upload_config \<Rightarrow> kvextractparams" where
  "kv_params char_signed c ifs cfg =
     \<lparr>interfaces_to_check = main_interfaces, ifaddrs = ifs, platform_path = PLATFORM_PATH, serial_path = SERIAL_PATH,
      kv_logtype = Some (cstr_of (logtype cfg)), name_info_resolver = c_resolver c,
      interface_to_mac = iface_to_mac char_signed (c_hwaddr c)\<rparr>"

definition commit_upload :: "cycle \<Rightarrow> 'z main_state \<Rightarrow> step option \<times> 'z main_state" where
  "commit_upload c st =
     (case write_file_as_uint64 (m_fs st) COUNTER_MARKER_FILE (last_log_counter (m_params st)) of
        (w, rv) \<Rightarrow>
          if rv \<noteq> 0 then (Some (Exit 9), st\<lparr>m_fs := w\<rparr>)
          else (None, st\<lparr>m_fs := (if can_write w LOGS_UPLOADED_MARKER_FILE
                 then w\<lparr>files := (files w)(LOGS_UPLOADED_MARKER_FILE := Some (file_content w LOGS_UPLOADED_MARKER_FILE))\<rparr>
                 else w)\<rparr>))"

definition upload_phase ::
    "'z zlib \<Rightarrow> bool \<Rightarrow> cycle \<Rightarrow> nat \<Rightarrow> nat \<Rightarrow> 'z main_state \<Rightarrow> (step option \<times> 'z main_state) option" where
  "upload_phase zl char_signed c off tot st =
     (let p = m_params st; cfg = config p
      in case c_ifaddrs c of
           None \<Rightarrow> Some (Some (Exit 5), st)
         | Some ifs \<Rightarrow> do {
             (kvpairs, h) \<leftarrow> extract_kv_pairs (m_fs st) (kv_params char_signed c ifs cfg) (c_mac_mem c) (m_heap st);
             let st = st\<lparr>m_heap := h\<rparr>;
             if kvpairs = None then Some (Some (Exit 6), st)
             else do {
               (comp_result, z, buf, compressed_size) \<leftarrow>
                 deflate_inplace zl (m_strm st) (drop off (log_buffer p)) tot (MAX_LOG_SIZE + LOG_BUF_EXTRA - off);
               let st = st\<lparr>m_strm := z, m_params := p\<lparr>log_buffer := take off (log_buffer p) @ buf\<rparr>\<rparr>;
               if comp_result \<noteq> Z_OK then Some (Some (Exit 7), st)
               else do {
                 data \<leftarrow> arr_slice buf 0 compressed_size;
                 let st = st\<lparr>m_uploads := m_uploads st @ [(cstr_of (server cfg), cstr_of (upload_target cfg), data)]\<rparr>;
                 h \<leftarrow> free_kv_pairs kvpairs (m_heap st);
                 let st = st\<lparr>m_heap := h\<rparr>;
                 if c_upload c \<noteq> 0 then Some (Some (Exit 8), st)
                 else Some (commit_upload c st) } } })"

definition main_cycle ::
    "(byte list \<Rightarrow> byte list \<Rightarrow> byte list) \<Rightarrow> 'z zlib \<Rightarrow> bool \<Rightarrow> cycle \<Rightarrow> 'z main_state \<Rightarrow> (step \<times> 'z main_state) option" where
  "main_cycle hmac zl char_signed c st = do {
     (r, st) \<leftarrow> read_phase hmac c st;
     case r of
       Inl s \<Rightarrow> Some (s, st)
     | Inr (off, tot) \<Rightarrow> do {
         (s, st) \<leftarrow> (if use_stdout (config (m_params st)) then do {
                      data \<leftarrow> arr_slice (log_buffer (m_params st)) off tot;
                      Some (None, st\<lparr>m_stdout := m_stdout st @ data\<rparr>) }
                    else upload_phase zl char_signed c off tot st);
         case s of
           Some s \<Rightarrow> Some (s, st)
         | None \<Rightarrow>
            (let cfg = config (m_params st);
                 (w, rv) = (if use_stdin cfg then (m_fs st, 0) else write_to_file (m_fs st) DEV_KMSG_PATH LOG_MARKER_END_LINE);
                 st = st\<lparr>m_fs := w\<rparr>
             in if rv < 0 then Some (Exit 10, st)
                else if freq cfg = 0 then Some (Exit 0, st)
                else if use_stdin cfg then Some (Continue, st)
                else Some (Continue, st\<lparr>m_delays := m_delays st @ [pick_delay (c_random c) cfg]\<rparr>)) } }"

section \<open>The program\<close>

fun upload_loop ::
    "(byte list \<Rightarrow> byte list \<Rightarrow> byte list) \<Rightarrow> 'z zlib \<Rightarrow> bool \<Rightarrow> cycle list \<Rightarrow> 'z main_state \<Rightarrow> (step \<times> 'z main_state) option" where
  "upload_loop hmac zl char_signed [] st = Some (Waiting, st)"
| "upload_loop hmac zl char_signed (c # cs) st =
     (case main_cycle hmac zl char_signed c st of
        None \<Rightarrow> None
      | Some (Continue, st) \<Rightarrow> upload_loop hmac zl char_signed cs st
      | Some (s, st) \<Rightarrow> Some (s, st))"

definition initial_config :: upload_config where
  "initial_config =
     \<lparr>server = snprintf_buf (replicate 1024 0) DEFAULT_SERVER, logtype = replicate 128 0, upload_all = False,
      use_stdout = False, use_stdin = False, freq = 0, upload_target = snprintf_buf (replicate 1024 0) DEFAULT_UPLOAD_TARGET\<rparr>"

text \<open>
  \<open>main\<close>. A wrong command line prints the usage, which ends the program with status 0. \<open>log_mem\<close> is what
  \<open>malloc\<close> gives for the log buffer, \<open>line_mem\<close> the uninitialised line buffer; opening the device for reading fails
  when it cannot be read.
\<close>

definition log_uploader_main ::
    "(byte list \<Rightarrow> byte list \<Rightarrow> byte list) \<Rightarrow> 'z zlib \<Rightarrow> bool \<Rightarrow> key_env \<Rightarrow> cstr list \<Rightarrow> byte list option \<Rightarrow> byte list \<Rightarrow> cycle list \<Rightarrow>
       'z main_state \<Rightarrow> (step \<times> 'z main_state) option" where
  "log_uploader_main hmac zl char_signed kenv args log_mem line_mem cs st =
     (let st = st\<lparr>m_keys := default_consensus_key kenv (m_keys st)\<rparr>;
          (rv, cfg) = (if args = [] then (0, initial_config) else parse_args initial_config args)
      in if rv < 0 then Some (Exit 0, st)
         else case log_mem of
                None \<Rightarrow> Some (Exit 98, st)
              | Some mem \<Rightarrow>
                 if \<not> use_stdin cfg \<and> \<not> can_read (m_fs st) DEV_KMSG_PATH then Some (Exit 1, st)
                 else upload_loop hmac zl char_signed cs
                        (st\<lparr>m_params := \<lparr>config = cfg, dev_kmsg_path = DEV_KMSG_PATH, version_path = VERSION_PATH,
                           ntp_synced_path = NTP_SYNCED_PATH,
                           last_log_counter = read_file_as_uint64 (m_fs st) COUNTER_MARKER_FILE,
                           log_buffer = mem, total_read = 0, line_buffer = line_mem,
                           line_buffer_size = LOG_LINE_BUFFER_SIZE, last_line_valid = False\<rparr>\<rparr>))"

section \<open>What the collector changes in the file system\<close>

text \<open>Two file systems that differ at most in the contents of the given files.\<close>

definition fs_same :: "cstr set \<Rightarrow> fs \<Rightarrow> fs \<Rightarrow> bool" where
  "fs_same S w w' \<longleftrightarrow> (\<forall>q. q \<notin> S \<longrightarrow> files w' q = files w q) \<and> can_read w' = can_read w \<and> can_write w' = can_write w \<and>
     read_fails w' = read_fails w \<and> accepts w' = accepts w"

lemma fs_same_refl [simp]: "fs_same S w w"
  by (simp add: fs_same_def)

lemma fs_same_trans: "fs_same S w w1 \<Longrightarrow> fs_same S w1 w2 \<Longrightarrow> fs_same S w w2"
  by (simp add: fs_same_def)

lemma write_to_file_same: "p \<in> S \<Longrightarrow> fs_same S w (fst (write_to_file w p d))"
  by (auto simp: write_to_file_def fs_write_def Let_def fs_same_def)

lemma write_counter_same: "p \<in> S \<Longrightarrow> fs_same S w (fst (write_file_as_uint64 w p c))"
  by (auto simp: write_file_as_uint64_def fs_write_def Let_def fs_same_def)

lemma logmark_once_same: "logmark_once clk p v n w = Some (w', rv) \<Longrightarrow> p \<in> S \<Longrightarrow> fs_same S w w'"
  using write_to_file_same by (fastforce simp: logmark_once_def Let_def bind_eq_Some_conv case_prod_beta)

lemma write_start_marker_same:
  assumes "write_start_marker clk st = Some (w, ok)"
  shows "fs_same {dev_kmsg_path (ps_params st)} (ps_fs st) w"
proof -
  let ?p = "dev_kmsg_path (ps_params st)"
  obtain w1 rv where w1: "write_to_file (ps_fs st) ?p LOG_MARKER_START_LINE = (w1, rv)" by fastforce
  have s1: "fs_same {?p} (ps_fs st) w1" using write_to_file_same [of ?p "{?p}" "ps_fs st" LOG_MARKER_START_LINE] w1 by simp
  show ?thesis
    using assms w1 s1 fs_same_trans [OF s1] logmark_once_same
    by (fastforce simp: write_start_marker_def Let_def bind_eq_Some_conv split: if_splits)
qed

lemma append_log_paths:
  assumes "append_log sz s p = Some p'"
  shows "dev_kmsg_path p' = dev_kmsg_path p"
  using assms by (auto simp: append_log_def bind_eq_Some_conv)

lemma take_entry_frame:
  assumes "take_entry sz c d s st = Some st'"
  shows "ps_fs st' = ps_fs st" "config (ps_params st') = config (ps_params st)"
    "dev_kmsg_path (ps_params st') = dev_kmsg_path (ps_params st)"
  using assms
  by (auto simp: take_entry_def Let_def bind_eq_Some_conv append_log_frame append_log_paths split: if_splits)

lemma consume_line_frame:
  assumes "consume_line hmac k sz c n st = Some (b, st')"
  shows "ps_fs st' = ps_fs st \<and> config (ps_params st') = config (ps_params st) \<and>
    dev_kmsg_path (ps_params st') = dev_kmsg_path (ps_params st)"
  using assms take_entry_frame
  by (fastforce simp: consume_line_def Let_def bind_eq_Some_conv split: option.splits if_splits prod.splits)

lemma consume_loop_frame:
  assumes "consume_loop hmac kenv clk sz c reads st = Some (e, reads', st')"
  shows "fs_same {dev_kmsg_path (ps_params st)} (ps_fs st) (ps_fs st') \<and> config (ps_params st') = config (ps_params st) \<and>
    dev_kmsg_path (ps_params st') = dev_kmsg_path (ps_params st)"
proof -
  let ?P = "\<lambda>s. fs_same {dev_kmsg_path (ps_params st)} (ps_fs st) (ps_fs s) \<and> config (ps_params s) = config (ps_params st) \<and>
    dev_kmsg_path (ps_params s) = dev_kmsg_path (ps_params st)"
  have marker: "fs_same {dev_kmsg_path (ps_params st)} (ps_fs st) w" if "?P s" "write_start_marker clk s = Some (w, ok)" for s w ok
    using that(1) write_start_marker_same [OF that(2)] fs_same_trans by metis
  have "loop_invariant hmac clk sz c ?P"
    unfolding loop_invariant_def using consume_line_frame marker by auto
  from consume_loop_invariant [OF this assms] show ?thesis by simp
qed

lemma parse_and_consume_frame:
  assumes "parse_and_consume_log_data hmac kenv clk reads w ks params = Some (r, reads', w', ks', p')"
  shows "fs_same {dev_kmsg_path params} w w' \<and> config p' = config params"
proof -
  let ?st = "\<lparr>ps_params = params\<lparr>total_read := 0\<rparr>, ps_fs = w, ps_keys = ks, wrote_start_marker = False,
    last_start_marker = None, last_start_before_end_marker = None\<rparr>"
  obtain e rest st where run: "consume_loop hmac kenv clk (total_read params) (last_log_counter params = 0) reads ?st = Some (e, rest, st)"
    using assms by (auto simp: parse_and_consume_log_data_def Let_def bind_eq_Some_conv)
  have "w' = ps_fs st" "config p' = config (ps_params st)"
    using assms run by (auto simp: parse_and_consume_log_data_def Let_def bind_eq_Some_conv split: loop_end.splits option.splits if_splits)
  then show ?thesis using consume_loop_frame [OF run] by simp
qed

section \<open>The counter follows the uploads\<close>

lemma read_uint64_same: "fs_same S w w' \<Longrightarrow> p \<notin> S \<Longrightarrow> read_file_as_uint64 w' p = read_file_as_uint64 w p"
  by (cases "files w p") (auto simp: read_file_as_uint64_def fs_read_def fs_same_def)

lemma paths_distinct:
  "COUNTER_MARKER_FILE \<noteq> DEV_KMSG_PATH" "COUNTER_MARKER_FILE \<noteq> LOGS_UPLOADED_MARKER_FILE"
  by (simp_all add: COUNTER_MARKER_FILE_def DEV_KMSG_PATH_def LOGS_UPLOADED_MARKER_FILE_def lit_def)

lemma read_phase_frame:
  assumes "read_phase hmac c st = Some (r, st')" "dev_kmsg_path (m_params st) = DEV_KMSG_PATH"
  shows "fs_same {DEV_KMSG_PATH, LOGS_UPLOADED_MARKER_FILE} (m_fs st) (m_fs st') \<and> m_uploads st' = m_uploads st"
proof (cases "use_stdin (config (m_params st))")
  case True
  then obtain o' where o': "stdin_loop (m_stdin st) (log_buffer (m_params st)) 0 = Some o'"
    using assms(1) by (auto simp: read_phase_def Let_def bind_eq_Some_conv)
  show ?thesis
  proof (cases o')
    case None
    then show ?thesis using assms(1) True o' by (auto simp: read_phase_def Let_def)
  next
    case (Some q)
    obtain num buf tot rest where q: "q = (num, buf, tot, rest)" by (metis prod_cases4)
    show ?thesis using assms(1) True o' by (auto simp: read_phase_def Let_def Some q split: if_splits)
  qed
next
  case False
  let ?S = "{DEV_KMSG_PATH, LOGS_UPLOADED_MARKER_FILE}"
  let ?w = "(m_fs st)\<lparr>files := (files (m_fs st))(LOGS_UPLOADED_MARKER_FILE := None)\<rparr>"
  have s0: "fs_same ?S (m_fs st) ?w" by (simp add: fs_same_def)
  obtain w1 rv where w1: "(if last_log_counter (m_params st) = 0
        then logmark_once (c_clock_start c) DEV_KMSG_PATH VERSION_PATH NTP_SYNCED_PATH ?w else Some (?w, 0)) = Some (w1, rv)"
    using assms(1) False by (auto simp: read_phase_def Let_def bind_eq_Some_conv)
  have s1: "fs_same ?S (m_fs st) w1"
    using w1 s0 logmark_once_same [of _ DEV_KMSG_PATH VERSION_PATH NTP_SYNCED_PATH ?w w1 rv ?S] fs_same_trans [OF s0]
    by (auto split: if_splits)
  show ?thesis
  proof (cases "rv = 0")
    case True
    obtain q reads w2 ks p2 where p2: "parse_and_consume_log_data hmac (c_kenv c) (c_clock c) (m_kmsg st) w1 (m_keys st)
        ((m_params st)\<lparr>total_read := MAX_LOG_SIZE\<rparr>) = Some (q, reads, w2, ks, p2)"
      using assms(1) False True w1 by (auto simp: read_phase_def Let_def bind_eq_Some_conv)
    have "fs_same ?S w1 w2"
      using parse_and_consume_frame [OF p2] assms(2) by (auto simp: fs_same_def)
    from fs_same_trans [OF s1 this] show ?thesis
      using assms(1) False True w1 p2 by (auto simp: read_phase_def Let_def split: consumed.splits)
  next
    case rv: False
    then show ?thesis using assms(1) False w1 s1 by (auto simp: read_phase_def Let_def)
  qed
qed

lemma commit_upload_result:
  assumes "commit_upload c st = (s, st')"
  shows "m_uploads st' = m_uploads st" "last_log_counter (m_params st') = last_log_counter (m_params st)"
    "s = None \<or> s = Some (Exit 9)"
    "s = None \<Longrightarrow> \<exists>w. write_file_as_uint64 (m_fs st) COUNTER_MARKER_FILE (last_log_counter (m_params st)) = (w, 0) \<and>
       fs_same {LOGS_UPLOADED_MARKER_FILE} w (m_fs st')"
    "fs_same {COUNTER_MARKER_FILE, LOGS_UPLOADED_MARKER_FILE} (m_fs st) (m_fs st')"
proof -
  obtain w rv where w: "write_file_as_uint64 (m_fs st) COUNTER_MARKER_FILE (last_log_counter (m_params st)) = (w, rv)" by fastforce
  have "fs_same {COUNTER_MARKER_FILE, LOGS_UPLOADED_MARKER_FILE} (m_fs st) w"
    using write_counter_same [of COUNTER_MARKER_FILE "{COUNTER_MARKER_FILE, LOGS_UPLOADED_MARKER_FILE}" "m_fs st"] w by (metis fst_conv insertCI)
  then show "fs_same {COUNTER_MARKER_FILE, LOGS_UPLOADED_MARKER_FILE} (m_fs st) (m_fs st')"
    using assms w by (auto simp: commit_upload_def fs_same_def split: if_splits)
  show "m_uploads st' = m_uploads st" "last_log_counter (m_params st') = last_log_counter (m_params st)" "s = None \<or> s = Some (Exit 9)"
    using assms w by (auto simp: commit_upload_def split: if_splits)
  show "\<exists>w. write_file_as_uint64 (m_fs st) COUNTER_MARKER_FILE (last_log_counter (m_params st)) = (w, 0) \<and>
       fs_same {LOGS_UPLOADED_MARKER_FILE} w (m_fs st')" if "s = None"
    using assms w that by (auto simp: commit_upload_def fs_same_def split: if_splits)
qed

lemma upload_phase_cases:
  assumes "upload_phase zl cs c off tot st = Some (s, st')"
  shows "m_fs st' = m_fs st \<and> s \<noteq> None \<and> s \<notin> Some ` {Continue, Exit 0, Exit 10} \<or>
    (\<exists>st1 u. commit_upload c st1 = (s, st') \<and> m_uploads st1 = m_uploads st @ [u] \<and> m_fs st1 = m_fs st \<and> c_upload c = 0)"
proof (cases "c_ifaddrs c")
  case None
  then show ?thesis using assms by (auto simp: upload_phase_def Let_def)
next
  case (Some ifs)
  let ?p = "m_params st"
  obtain kv h where kv: "extract_kv_pairs (m_fs st) (kv_params cs c ifs (config ?p)) (c_mac_mem c) (m_heap st) = Some (kv, h)"
    using assms Some by (auto simp: upload_phase_def Let_def bind_eq_Some_conv)
  show ?thesis
  proof (cases "kv = None")
    case True
    then show ?thesis using assms Some kv by (auto simp: upload_phase_def Let_def)
  next
    case kvs: False
    obtain rv z buf n where d: "deflate_inplace zl (m_strm st) (drop off (log_buffer ?p)) tot (MAX_LOG_SIZE + LOG_BUF_EXTRA - off)
        = Some (rv, z, buf, n)"
      using assms Some kv kvs by (auto simp: upload_phase_def Let_def bind_eq_Some_conv)
    show ?thesis
    proof (cases "rv = Z_OK")
      case False
      then show ?thesis using assms Some kv kvs d by (auto simp: upload_phase_def Let_def)
    next
      case True
      obtain data h' where e: "arr_slice buf 0 n = Some data" "free_kv_pairs kv h = Some h'"
        using assms Some kv kvs d True by (auto simp: upload_phase_def Let_def bind_eq_Some_conv)
      show ?thesis
        using assms Some kv kvs d True e by (auto simp: upload_phase_def Let_def split: if_splits)
    qed
  qed
qed

lemma upload_phase_result:
  assumes "upload_phase zl cs c off tot st = Some (s, st')"
  shows "files (m_fs st') COUNTER_MARKER_FILE = files (m_fs st) COUNTER_MARKER_FILE \<or>
      c_upload c = 0 \<and> (\<exists>u. m_uploads st' = m_uploads st @ [u])" (is ?g1)
    and "s \<notin> Some ` {Continue, Exit 0, Exit 10}" (is ?g2)
    and "s = None \<Longrightarrow> \<exists>w. write_file_as_uint64 (m_fs st) COUNTER_MARKER_FILE (last_log_counter (m_params st')) = (w, 0) \<and>
         fs_same {LOGS_UPLOADED_MARKER_FILE} w (m_fs st')" (is "_ \<Longrightarrow> ?g3")
proof -
  have "?g1 \<and> ?g2 \<and> (s = None \<longrightarrow> ?g3)"
    using upload_phase_cases [OF assms]
  proof (elim disjE exE conjE)
    fix st1 u
    assume 1: "commit_upload c st1 = (s, st')" "m_uploads st1 = m_uploads st @ [u]" "m_fs st1 = m_fs st" "c_upload c = 0"
    note r = commit_upload_result [OF 1(1)]
    have ?g1 using r(1) 1(2,4) by metis
    moreover have ?g2 using r(3) by auto
    moreover have ?g3 if "s = None" using r(4) [OF that] r(2) 1(3) by simp
    ultimately show ?thesis by blast
  qed auto
  then show ?g1 ?g2 "s = None \<Longrightarrow> ?g3" by blast+
qed

text \<open>
  Claim C27. The counter file is a commit record. In one cycle it changes only when the upload of the
  cycle's data has been accepted, and when a cycle that uploaded goes on, or ends with status 0 or
  at the end marker, reading the file gives the number of the last record collected: after a crash or
  a failed upload the records are collected again, after a success they are not.
\<close>
theorem counter_follows_upload:
  assumes "main_cycle hmac zl cs c st = Some (s, st')" "dev_kmsg_path (m_params st) = DEV_KMSG_PATH"
  shows "(files (m_fs st') COUNTER_MARKER_FILE \<noteq> files (m_fs st) COUNTER_MARKER_FILE \<longrightarrow>
      c_upload c = 0 \<and> (\<exists>u. m_uploads st' = m_uploads st @ [u])) \<and>
    (s \<in> {Continue, Exit 0, Exit 10} \<and> m_uploads st' \<noteq> m_uploads st \<and> can_read (m_fs st) COUNTER_MARKER_FILE \<and>
       \<not> read_fails (m_fs st) COUNTER_MARKER_FILE \<longrightarrow>
      read_file_as_uint64 (m_fs st') COUNTER_MARKER_FILE = last_log_counter (m_params st'))"
proof -
  obtain r st1 where r: "read_phase hmac c st = Some (r, st1)"
    using assms(1) by (auto simp: main_cycle_def bind_eq_Some_conv)
  have f1: "fs_same {DEV_KMSG_PATH, LOGS_UPLOADED_MARKER_FILE} (m_fs st) (m_fs st1)" "m_uploads st1 = m_uploads st"
    using read_phase_frame [OF r assms(2)] by auto
  have c1: "files (m_fs st1) COUNTER_MARKER_FILE = files (m_fs st) COUNTER_MARKER_FILE"
    using f1(1) paths_distinct by (simp add: fs_same_def)
  show ?thesis
  proof (cases r)
    case (Inl q)
    then have "st' = st1" using assms(1) r by (simp add: main_cycle_def)
    then show ?thesis using f1(2) c1 by simp
  next
    case (Inr ot)
    obtain off tot where ot: "r = Inr (off, tot)" using Inr by fastforce
    let ?out = "use_stdout (config (m_params st1))"
    obtain q st2 where q: "(if ?out then do {
          data \<leftarrow> arr_slice (log_buffer (m_params st1)) off tot;
          Some (None, st1\<lparr>m_stdout := m_stdout st1 @ data\<rparr>) } else upload_phase zl cs c off tot st1) = Some (q, st2)"
      using assms(1) r ot by (auto simp: main_cycle_def bind_eq_Some_conv)
    have last: "\<exists>w. fs_same {DEV_KMSG_PATH} (m_fs st2) w \<and> m_fs st' = w \<and> m_params st' = m_params st2 \<and> m_uploads st' = m_uploads st2"
      if "q = None"
      using assms(1) r ot q that write_to_file_same [of DEV_KMSG_PATH "{DEV_KMSG_PATH}" "m_fs st2" LOG_MARKER_END_LINE]
      by (auto simp: main_cycle_def Let_def case_prod_beta split: if_splits)
    have fail: "s = q' \<and> st' = st2" if "q = Some q'" for q' using assms(1) r ot q that by (simp add: main_cycle_def)
    show ?thesis
    proof (cases ?out)
      case True
      then have "q = None" "m_fs st2 = m_fs st1" "m_uploads st2 = m_uploads st1" using q by (auto simp: bind_eq_Some_conv)
      then show ?thesis using last c1 f1(2) paths_distinct by (auto simp: fs_same_def)
    next
      case False
      then have u: "upload_phase zl cs c off tot st1 = Some (q, st2)" using q by simp
      note ur = upload_phase_result [OF u]
      show ?thesis
      proof (cases q)
        case None
        obtain w0 where w0: "write_file_as_uint64 (m_fs st1) COUNTER_MARKER_FILE (last_log_counter (m_params st2)) = (w0, 0)"
            "fs_same {LOGS_UPLOADED_MARKER_FILE} w0 (m_fs st2)" using ur(3) None by blast
        have l: "fs_same {DEV_KMSG_PATH} (m_fs st2) (m_fs st')" "m_params st' = m_params st2" "m_uploads st' = m_uploads st2"
          using last [OF None] by auto
        have "read_file_as_uint64 (m_fs st') COUNTER_MARKER_FILE = read_file_as_uint64 w0 COUNTER_MARKER_FILE"
          using read_uint64_same [OF l(1)] read_uint64_same [OF w0(2)] paths_distinct by simp
        moreover have "can_read (m_fs st1) = can_read (m_fs st)" "read_fails (m_fs st1) = read_fails (m_fs st)"
          using f1(1) by (simp_all add: fs_same_def)
        moreover have "files (m_fs st') COUNTER_MARKER_FILE = files (m_fs st2) COUNTER_MARKER_FILE"
          using l(1) paths_distinct by (simp add: fs_same_def)
        ultimately show ?thesis using counter_write_read [OF w0(1)] ur(1) l c1 f1(2) by auto
      next
        case (Some q')
        then show ?thesis using fail [OF Some] ur(1,2) c1 f1(2) by auto
      qed
    qed
  qed
qed

definition sample_cycle :: cycle where
  "sample_cycle = \<lparr>c_random = 5, c_kenv = (\<lambda>n. sample_env), c_clock = sample_clock, c_clock_start = sample_clock,
     c_ifaddrs = Some [], c_resolver = (\<lambda>sa buf. (1, buf)), c_hwaddr = (\<lambda>i. None), c_mac_mem = replicate 32 1, c_upload = 0\<rparr>"

definition sample_state :: "(byte list \<times> byte list) main_state" where
  "sample_state = \<lparr>m_params = sample_params\<lparr>config := sample_config\<lparr>use_stdin := True\<rparr>, log_buffer := replicate 20 0\<rparr>,
     m_fs = sample_fs, m_keys = sample_keys, m_kmsg = [],
     m_stdin = [(In_Data [1, 2, 3], False), (In_Eof, False), (In_Eof, False)], m_strm = ([], []),
     m_heap = \<lparr>blocks = (\<lambda>a. None), brk = 0, malloc_ok = []\<rparr>, m_uploads = [], m_stdout = [], m_delays = []\<rparr>"

lemma free_kv_eqs:
  "free_kv_pairs None h = Some h"
  "free_kv_pairs (Some a) h = do { b \<leftarrow> get_block h a; h \<leftarrow> free_block h a; free_kv_pairs (next_pair b) h }"
  by (subst free_kv_pairs.simps, simp)+

lemma sample_file: "fs_read sample_fs p 127 = Read_Data (lit ''123456'')"
  by (simp add: fs_read_def sample_fs_def lit_def)

lemma sample_rstrip:
  "rstrip (Some (49 # 50 # 51 # 52 # 53 # 54 # 0 # replicate 121 0)) = Some (Some (49 # 50 # 51 # 52 # 53 # 54 # 0 # replicate 121 0))"
proof -
  let ?s = "49 # 50 # 51 # 52 # 53 # 54 # 0 # replicate 121 (0 :: byte)"
  have "length (cstr_of ?s) = Suc 5" by (simp add: cstr_of_def)
  moreover have "rstrip_loop ?s (Suc 5) = ?s" unfolding rstrip_loop.simps by (simp add: is_space_def)
  ultimately show ?thesis by (simp add: rstrip_def)
qed

lemma sample_read:
  "read_file_as_string sample_fs (Some p) (Some (replicate 128 0)) 128 = Some (6, Some (lit ''123456'' @ 0 # replicate 121 0))"
  using sample_file [of p] by (simp add: read_file_as_string_def arr_put_def lit_def)

lemma sample_kv_run:
  "\<exists>h h'. extract_kv_pairs sample_fs (kv_params False sample_cycle [] (sample_config\<lparr>use_stdin := True\<rparr>)) (replicate 32 1)
     \<lparr>blocks = (\<lambda>a. None), brk = 0, malloc_ok = []\<rparr> = Some (Some 0, h) \<and> free_kv_pairs (Some 0) h = Some h'"
  by (simp add: extract_kv_pairs_def kv_params_def sample_cycle_def get_pair_from_file_def new_pair_def get_block_def
      zero_pair_def sample_read sample_rstrip strcpy_def arr_put_def put_block_def KV_OK_def network_pairs_def main_interfaces_def
      iface_to_mac_def logtype_pair_def sample_config_def cstr_of_def free_kv_eqs free_block_def lit_def)

lemma store_eqs:
  "z_end store_codec z = z" "z_init store_codec z l = (Z_OK, ([], []))"
  "z_deflate store_codec z inp n fin = (let k = min (length inp) n
     in (if fin \<and> k = length inp then Z_STREAM_END else if k = 0 then Z_BUF_ERROR else Z_OK, k, take k inp,
         (fst z @ take k inp, snd z @ take k inp)))"
  by (simp_all add: store_codec_def)

lemma sample_deflate:
  assumes "3 \<le> n"
  shows "deflate_inplace store_codec ([], []) (1 # 2 # 3 # replicate 17 0) 3 n =
    Some (Z_OK, ([1, 2, 3], [1, 2, 3]), 1 # 2 # 3 # replicate 17 0, 3)"
proof -
  have "deflate_loop store_codec n Z_OK ([1, 2, 3], [1, 2, 3]) (1 # 2 # 3 # replicate 17 0) 3 0 0 1021 =
      Some (Z_STREAM_END, ([1, 2, 3], [1, 2, 3]), 1 # 2 # 3 # replicate 17 0, 0, n)"
    by (subst deflate_loop.simps, subst deflate_loop.simps)
      (simp add: store_eqs Let_def arr_slice_def arr_put_def uint_sub_def z_codes)
  then show ?thesis using assms
    by (simp add: deflate_inplace_def store_eqs Let_def arr_slice_def arr_put_def z_codes numeral_3_eq_3)
qed

lemma sample_write: "snd (write_file_as_uint64 sample_fs p c) = 0"
  by (simp add: write_file_as_uint64_def fs_write_def sample_fs_def Let_def)

lemma sample_run: "\<exists>s st'. main_cycle (\<lambda>k m. [1, 2, 3]) store_codec False sample_cycle sample_state = Some (s, st')"
proof -
  obtain h h' where h: "extract_kv_pairs sample_fs (kv_params False sample_cycle [] (sample_config\<lparr>use_stdin := True\<rparr>)) (replicate 32 1)
     \<lparr>blocks = (\<lambda>a. None), brk = 0, malloc_ok = []\<rparr> = Some (Some 0, h)" "free_kv_pairs (Some 0) h = Some h'"
    using sample_kv_run by blast
  have rd: "read_phase (\<lambda>k m. [1, 2, 3]) sample_cycle sample_state = Some (Inr (0, 3),
      sample_state\<lparr>m_params := (m_params sample_state)\<lparr>log_buffer := 1 # 2 # 3 # replicate 17 0\<rparr>,
        m_stdin := [(In_Eof, False)], m_delays := [pick_delay 5 (config (m_params sample_state))]\<rparr>)"
    by (simp add: read_phase_def sample_state_def sample_config_def sample_cycle_def MAX_LOG_SIZE_def arr_put_def Let_def numeral_3_eq_3)
  show ?thesis
    using h sample_deflate
    by (simp add: main_cycle_def rd upload_phase_def commit_upload_def)
      (simp add: sample_state_def sample_config_def sample_cycle_def arr_slice_def MAX_LOG_SIZE_def LOG_BUF_EXTRA_def
        Let_def case_prod_beta commit_upload_def sample_write)
qed

theorem counter_follows_upload_witness:
  "\<exists>s st'. main_cycle (\<lambda>k m. [1, 2, 3]) store_codec False sample_cycle sample_state = Some (s, st') \<and>
    (files (m_fs st') COUNTER_MARKER_FILE \<noteq> files (m_fs sample_state) COUNTER_MARKER_FILE \<longrightarrow>
      c_upload sample_cycle = 0 \<and> (\<exists>u. m_uploads st' = m_uploads sample_state @ [u])) \<and>
    (s \<in> {Continue, Exit 0, Exit 10} \<and> m_uploads st' \<noteq> m_uploads sample_state \<and> can_read (m_fs sample_state) COUNTER_MARKER_FILE \<and>
       \<not> read_fails (m_fs sample_state) COUNTER_MARKER_FILE \<longrightarrow>
      read_file_as_uint64 (m_fs st') COUNTER_MARKER_FILE = last_log_counter (m_params st'))"
proof -
  obtain s st' where r: "main_cycle (\<lambda>k m. [1, 2, 3]) store_codec False sample_cycle sample_state = Some (s, st')"
    using sample_run by blast
  have "dev_kmsg_path (m_params sample_state) = DEV_KMSG_PATH"
    by (simp add: sample_state_def sample_params_def DEV_KMSG_PATH_def)
  from counter_follows_upload [OF r this] r show ?thesis by blast
qed

section \<open>Delays\<close>

text \<open>
  The delay between uploads is within a twelfth of the configured one, for every value of
  \<open>random\<close>, as long as that upper bound is an \<open>int\<close>.
\<close>
lemma pick_delay_bounds:
  assumes "0 \<le> freq cfg" "freq cfg + freq cfg div 12 < 2 ^ 31"
  shows "freq cfg - freq cfg div 12 \<le> pick_delay r cfg \<and> pick_delay r cfg \<le> freq cfg + freq cfg div 12"
proof -
  let ?v = "freq cfg div 12" and ?m = "int r mod (freq cfg div 12 * 2 + 1)"
  have m: "0 \<le> ?m" "?m \<le> ?v * 2"
    using assms(1) pos_mod_bound [of "?v * 2 + 1" "int r"] by auto
  have v: "0 \<le> ?v" "?v \<le> freq cfg" using assms(1) by auto
  have "wrap_int (freq cfg - ?v + ?m) = freq cfg - ?v + ?m"
    using m v assms(2) by (intro wrap_int_id) linarith+
  then show ?thesis using m by (simp add: pick_delay_def Let_def)
qed

end
