(* ===== verification/Getopt.thy ===== *)
theory Getopt
  imports C_Text
begin

text \<open>
  \<open>getopt (argc, argv, optstring)\<close> of the GNU C library for single-letter options, as the
  command line tools call it until it returns -1. The scan does not depend on what the caller does
  with an option, so the model yields the whole sequence of results at once, and the operands that
  \<open>argv\<close> holds from \<open>optind\<close> on after the last call (arguments that are no options are moved behind
  the options).
\<close>

text \<open>A result: an option with its \<open>optarg\<close> (empty for a flag), or \<open>'?'\<close>.\<close>

datatype short_opt = Short char cstr | Bad_Short

text \<open>The option string as a table: letter, and whether an argument follows.\<close>

type_synonym opt_table = "(char \<times> bool) list"

definition find_short :: "opt_table \<Rightarrow> byte \<Rightarrow> (char \<times> bool) option" where
  "find_short tab b = find (\<lambda>(c, _). of_char c = b) tab"

text \<open>The letters of one argument, and the arguments after it.\<close>

fun getopt_word :: "opt_table \<Rightarrow> cstr \<Rightarrow> cstr list \<Rightarrow> short_opt list \<times> cstr list" where
  "getopt_word tab [] args = ([], args)"
| "getopt_word tab (b # bs) args =
     (case find_short tab b of
        None \<Rightarrow> (let (os, rest) = getopt_word tab bs args in (Bad_Short # os, rest))
      | Some (c, False) \<Rightarrow> (let (os, rest) = getopt_word tab bs args in (Short c [] # os, rest))
      | Some (c, True) \<Rightarrow>
          if bs \<noteq> [] then ([Short c bs], args)
          else (case args of
                  [] \<Rightarrow> ([Bad_Short], [])
                | a # as \<Rightarrow> ([Short c a], as)))"

lemma getopt_word_length: "length (snd (getopt_word tab bs args)) \<le> length args"
  by (induction tab bs args rule: getopt_word.induct)
    (auto simp: Let_def case_prod_beta split: option.splits prod.splits bool.splits list.splits)

function getopt :: "opt_table \<Rightarrow> cstr list \<Rightarrow> short_opt list \<times> cstr list" where
  "getopt tab [] = ([], [])"
| "getopt tab (a # as) =
     (if a = lit ''--'' then ([], as)
      else if take 1 a = lit ''-'' \<and> a \<noteq> lit ''-'' then
        (let (os, rest) = getopt_word tab (drop 1 a) as; (os', operands) = getopt tab rest
         in (os @ os', operands))
      else (let (os, operands) = getopt tab as in (os, a # operands)))"
  by pat_completeness auto
termination
proof (relation "measure (\<lambda>(tab, args). length args)", goal_cases)
  case (2 tab a as x os rest)
  then have "length rest \<le> length as"
    using getopt_word_length [of tab "drop 1 a" as] by (metis snd_conv)
  then show ?case by simp
qed auto

lemma getopt_operands: "\<forall>a \<in> set args. take 1 a \<noteq> lit ''-'' \<Longrightarrow> getopt tab args = ([], args)"
  by (induction tab args rule: getopt.induct) (auto simp: lit_def)

end
