(* ===== verification/Ts_Sequencer.thy ===== *)
theory Ts_Sequencer
  imports Crc32 Getopt "HOL-Library.Signed_Division"
begin

unbundle bit_operations_syntax

text \<open>
  The transport stream checker, \<^verbatim>\<open>src/dvbutils/tssequencer.c\<close>, with the helpers of
  \<^verbatim>\<open>src/dvbutils/common.c\<close> it uses. The kernel is a record of the results of its calls
  (\<open>ts_env\<close>); each turn of the main loop takes one \<open>ts_event\<close> (what \<open>select\<close>, \<open>read\<close> and \<open>write\<close>
  answer in it), and the \<open>n\<close>-th call of \<open>clock_gettime\<close> gives \<open>clk n\<close>. A run is the value for a
  finite sequence of events: it ended, or it is still waiting when they are used up.

  Results. \<open>None\<close> is undefined behaviour (an access outside a table, the overflow of a signed
  counter, a division by zero); \<open>Inl\<close> is a call of \<open>fatal\<close>, which exits with status 1.
  The text written to the terminal is kept as the values that are printed (\<open>reports\<close>).
\<close>

section \<open>Constants, options and state\<close>

definition TS_PACKET_SIZE :: nat where "TS_PACKET_SIZE = 188"
definition PID_MASK :: u32 where "PID_MASK = 0x1fff"
definition NULL_PID :: nat where "NULL_PID = 0x1fff"
definition ALL_PID :: nat where "ALL_PID = 0x2000"
definition SYNC_BYTE :: byte where "SYNC_BYTE = 0x47"
definition EXPECTED_CRC :: u32 where "EXPECTED_CRC = 0x2144df1c"

text \<open>The local variables of \<open>main\<close> that the options set.\<close>

record ts_opts =
  adapter :: int
  demux :: int
  max_seq_num :: int
  summary :: bool
  quiet :: bool
  pid :: int
  timeout_ms :: int
  buffer_size :: int
  realtime :: bool
  use_crc :: bool
  infile :: "cstr option"
  outfile :: "cstr option"

text \<open>A block printed by \<open>print_stats\<close> (the rows, the interval, the counters, the time), and the summary at exit.\<close>

datatype report =
  Stats "(nat \<times> int) list" int int int int int
| Summary int int int int

text \<open>
  The tables, the static counters and the remaining locals; \<open>calls\<close> counts the calls of
  \<open>clock_gettime\<close>, \<open>written\<close> is what the output file received.
\<close>

record ts_state =
  pid_table :: "int list"
  seq_table :: "u32 list"
  packets :: int
  skipped :: int
  bad_seq_num_count :: int
  bad_crc_count :: int
  lost_packets :: int
  start :: int
  t0 :: int
  calls :: nat
  written :: "byte list"
  reports :: "report list"

text \<open>\<open>++\<close> on an \<open>int\<close>.\<close>

definition int_inc :: "int \<Rightarrow> int option" where
  "int_inc x = (if x < 2 ^ 31 - 1 then Some (x + 1) else None)"

definition bump :: "int list \<Rightarrow> nat \<Rightarrow> int list option" where
  "bump t i = do { v \<leftarrow> arr_get t i; v \<leftarrow> int_inc v; Some (t[i := v]) }"

section \<open>Helpers of common.c\<close>

definition time_ms :: "(int \<times> int) option \<Rightarrow> int" where
  "time_ms tv = (case tv of None \<Rightarrow> -1 | Some (tv_sec, tv_nsec) \<Rightarrow> tv_sec * 1000 + tv_nsec div 1000000)"

type_synonym ts_clock = "nat \<Rightarrow> (int \<times> int) option"

text \<open>A call of \<open>time_ms\<close> in the program.\<close>

definition ts_now :: "ts_clock \<Rightarrow> ts_state \<Rightarrow> int \<times> ts_state" where
  "ts_now clk s = (time_ms (clk (calls s)), s\<lparr>calls := calls s + 1\<rparr>)"

text \<open>The fields of \<open>struct dmx_pes_filter_params\<close> that are set to something else than a constant.\<close>

record dmx_filter =
  filter_pid :: "16 word"
  filter_tap :: bool

text \<open>Results of the system calls of the set-up: the scheduler, \<open>open\<close>, \<open>creat\<close> and the two \<open>ioctl\<close>s.\<close>

record ts_env =
  sched_setscheduler :: int
  open_file :: "cstr \<Rightarrow> int"
  open_dev :: "cstr \<Rightarrow> bool \<Rightarrow> int"
  creat_file :: "cstr \<Rightarrow> int"
  ioctl_buffer :: "int \<Rightarrow> int \<Rightarrow> int"
  ioctl_filter :: "int \<Rightarrow> dmx_filter \<Rightarrow> int"

text \<open>The path is cut at the 99 characters that fit the buffer.\<close>

definition dvb_open :: "ts_env \<Rightarrow> int \<Rightarrow> int \<Rightarrow> cstr \<Rightarrow> bool \<Rightarrow> int" where
  "dvb_open env adapter_no device type readonly =
     (let s = take 99 (lit ''/dev/dvb/adapter'' @ dec_int adapter_no @ lit ''/'' @ type @ dec_int device);
          fd = open_dev env s readonly
      in if fd < 0 then -1 else fd)"

section \<open>The functions of tssequencer.c\<close>

definition set_buffer_size :: "ts_env \<Rightarrow> int \<Rightarrow> int \<Rightarrow> int" where
  "set_buffer_size env dmxfd size' = ioctl_buffer env dmxfd size'"

definition set_pid_filter :: "ts_env \<Rightarrow> int \<Rightarrow> 16 word \<Rightarrow> bool \<Rightarrow> int" where
  "set_pid_filter env dmxfd pid' use_dvr =
     ioctl_filter env dmxfd \<lparr>filter_pid = pid', filter_tap = use_dvr\<rparr>"

text \<open>
  \<open>print_stats\<close> prints a row for each entry that is not zero and clears it. The rates it prints
  are floating point quotients of the recorded count and interval.
\<close>

definition print_stats :: "int \<Rightarrow> int \<Rightarrow> ts_state \<Rightarrow> ts_state" where
  "print_stats diff_ms uptime_ms s =
     (let rows = filter (\<lambda>(i, v). v > 0) (enumerate 0 (take (ALL_PID + 1) (pid_table s)))
      in s\<lparr>pid_table := map (\<lambda>v. if v > 0 then 0 else v) (pid_table s),
           reports := reports s @
             [Stats rows diff_ms uptime_ms (bad_crc_count s) (bad_seq_num_count s) (lost_packets s)]\<rparr>)"

text \<open>
  \<open>wait_for_input\<close>: \<open>select\<close> refuses a negative time with \<open>EINVAL\<close>; otherwise it answers whether
  there is something to read. C division truncates towards zero.
\<close>

definition wait_for_input :: "bool \<Rightarrow> int \<Rightarrow> bool" where
  "wait_for_input ready' timeout =
     (let tv_sec = timeout sdiv 1000; tv_usec = (timeout smod 1000) * 1000
      in ready' \<and> 0 \<le> tv_sec \<and> 0 \<le> tv_usec)"

subsection \<open>One packet\<close>

text \<open>
  The check of the sequence number. The operands are unsigned, \<open>lost_packets\<close> is not: the sum is
  formed modulo \<open>2 ^ 32\<close> and converted back.
\<close>

definition account_seq :: "ts_opts \<Rightarrow> u32 \<Rightarrow> u32 \<Rightarrow> ts_state \<Rightarrow> (string + ts_state) option" where
  "account_seq opts seq_num expected s =
     (if seq_num = expected then Some (Inr s)
      else do {
        bad \<leftarrow> int_inc (bad_seq_num_count s);
        lost \<leftarrow>
          (if seq_num > expected then Some (wrap_int (lost_packets s + uint (seq_num - expected)))
           else let delta = (seq_num + word_of_int (max_seq_num opts)) - expected
                in if delta < 100 then Some (wrap_int (lost_packets s + uint delta))
                   else int_inc (lost_packets s));
        Some (if lost < bad then Inl ''Lost packets less than bad sequence; check max sequence!''
              else Inr (s\<lparr>bad_seq_num_count := bad, lost_packets := lost\<rparr>)) })"

text \<open>The modulus is converted to unsigned; zero is a division by zero.\<close>

definition next_seq :: "ts_opts \<Rightarrow> u32 \<Rightarrow> u32 option" where
  "next_seq opts prev =
     (if (word_of_int (max_seq_num opts) :: u32) = 0 then None
      else Some ((prev + 1) mod word_of_int (max_seq_num opts)))"

definition packet_pid :: "byte list \<Rightarrow> nat" where
  "packet_pid pkt = unat ((push_bit 8 (ucast (pkt ! 1)) OR ucast (pkt ! 2)) AND PID_MASK)"

text \<open>The shift of the first byte reaches the sign bit of an \<open>int\<close>; as compiled, the bits stay where they are.\<close>

definition packet_seq :: "byte list \<Rightarrow> u32" where
  "packet_seq pkt =
     push_bit 24 (ucast (pkt ! 4)) OR push_bit 16 (ucast (pkt ! 5)) OR push_bit 8 (ucast (pkt ! 6)) OR ucast (pkt ! 7)"

definition count_packet :: "nat \<Rightarrow> ts_state \<Rightarrow> ts_state option" where
  "count_packet pkt_pid s = do {
     table \<leftarrow> bump (pid_table s) pkt_pid;
     table \<leftarrow> bump table ALL_PID;
     count \<leftarrow> int_inc (packets s);
     Some (s\<lparr>pid_table := table, packets := count\<rparr>) }"

definition warm_up :: "ts_clock \<Rightarrow> nat \<Rightarrow> u32 \<Rightarrow> ts_state \<Rightarrow> ts_state" where
  "warm_up clk pkt_pid seq_num s =
     (let (now, s) = ts_now clk s
      in s\<lparr>start := now, t0 := now, seq_table := (seq_table s)[pkt_pid := seq_num], skipped := skipped s + 1\<rparr>)"

definition verify_seq :: "ts_opts \<Rightarrow> nat \<Rightarrow> u32 \<Rightarrow> ts_state \<Rightarrow> (string + ts_state) option" where
  "verify_seq opts pkt_pid seq_num s = do {
     old \<leftarrow> arr_get (seq_table s) pkt_pid;
     expected \<leftarrow> next_seq opts old;
     r \<leftarrow> account_seq opts seq_num expected s;
     Some (map_sum id (\<lambda>s. s\<lparr>seq_table := (seq_table s)[pkt_pid := seq_num]\<rparr>) r) }"

definition crc_ok :: "byte list \<Rightarrow> bool" where
  "crc_ok pkt \<longleftrightarrow> crc32 0 (take (TS_PACKET_SIZE - 4) (drop 4 pkt)) = EXPECTED_CRC"

text \<open>The body of the loop over the packets of a read. The index into the tables has 13 bits.\<close>

definition check_packet :: "ts_opts \<Rightarrow> ts_clock \<Rightarrow> byte list \<Rightarrow> ts_state \<Rightarrow> (string + ts_state) option" where
  "check_packet opts clk pkt s =
     (if pkt ! 0 \<noteq> SYNC_BYTE then Some (Inl ''Not a valid packet'')
      else let pkt_pid = packet_pid pkt; seq_num = packet_seq pkt in
        (case count_packet pkt_pid s of
           None \<Rightarrow> None
         | Some s \<Rightarrow>
             if skipped s < 100 then Some (Inr (warm_up clk pkt_pid seq_num s))
             else if pkt_pid = NULL_PID then Some (Inr s)
             else if use_crc opts \<and> \<not> crc_ok pkt then
               map_option (\<lambda>bad. Inr (s\<lparr>bad_crc_count := bad\<rparr>)) (int_inc (bad_crc_count s))
             else verify_seq opts pkt_pid seq_num s))"

function packet_loop ::
  "ts_opts \<Rightarrow> ts_clock \<Rightarrow> byte list \<Rightarrow> nat \<Rightarrow> ts_state \<Rightarrow> (string + ts_state) option" where
  "packet_loop opts clk buf i s =
     (if i < length buf then do {
        pkt \<leftarrow> arr_slice buf i TS_PACKET_SIZE;
        r \<leftarrow> check_packet opts clk pkt s;
        (case r of
           Inl msg \<Rightarrow> Some (Inl msg)
         | Inr s \<Rightarrow> packet_loop opts clk buf (i + TS_PACKET_SIZE) s) }
      else Some (Inr s))"
  by pat_completeness auto
termination
  by (relation "measure (\<lambda>(opts, clk, buf, i, s). length buf - i)") (auto simp: TS_PACKET_SIZE_def)

declare packet_loop.simps [simp del]

subsection \<open>The main loop\<close>

text \<open>A \<open>read\<close> yields at most the 21 packets of \<open>rbuf_size\<close> bytes; an empty one is the end of the input.\<close>

datatype ts_read = Read_Error | Read_Data "byte list"

record ts_event =
  ready :: bool
  input :: ts_read
  write_len :: nat

datatype ts_flow = Break_Loop | Continue_Loop

definition timed_out :: "ts_opts \<Rightarrow> int \<Rightarrow> ts_state \<Rightarrow> bool" where
  "timed_out opts t1 s \<longleftrightarrow> timeout_ms opts > 0 \<and> t1 - start s \<ge> timeout_ms opts"

definition save_packets :: "ts_opts \<Rightarrow> ts_clock \<Rightarrow> nat \<Rightarrow> byte list \<Rightarrow> ts_state \<Rightarrow> ts_flow \<times> ts_state" where
  "save_packets opts clk w data s =
     (let s = s\<lparr>written := written s @ take w data\<rparr>
      in if timeout_ms opts > 0 then
           (let (now, s) = ts_now clk s
            in (if now - start s \<ge> timeout_ms opts then Break_Loop else Continue_Loop, s))
         else (Continue_Loop, s))"

definition periodic_stats :: "ts_opts \<Rightarrow> ts_clock \<Rightarrow> ts_state \<Rightarrow> ts_flow \<times> ts_state" where
  "periodic_stats opts clk s =
     (if packets s mod 128 = 0 then
        (let (t1, s) = ts_now clk s; diff = wrap_int (t1 - t0 s)
         in if diff \<ge> 1000 then
              (let s = (if quiet opts then s else print_stats diff (wrap_int (t1 - start s)) s)
               in if timed_out opts t1 s then (Break_Loop, s) else (Continue_Loop, s\<lparr>t0 := t1\<rparr>))
            else (Continue_Loop, s))
      else (Continue_Loop, s))"

definition ts_turn ::
  "ts_opts \<Rightarrow> ts_clock \<Rightarrow> int \<Rightarrow> ts_event \<Rightarrow> ts_state \<Rightarrow> (string + ts_flow \<times> ts_state) option" where
  "ts_turn opts clk outfd ev s =
     (let (t1, s) = ts_now clk s in
      if timed_out opts t1 s then Some (Inr (Break_Loop, s))
      else if \<not> wait_for_input (ready ev) (wrap_int (timeout_ms opts - (t1 - start s))) then
        Some (Inr (Continue_Loop, s))
      else case input ev of
        Read_Error \<Rightarrow> Some (Inr (Break_Loop, s))
      | Read_Data data \<Rightarrow>
          if data = [] then Some (Inr (Break_Loop, s))
          else if length data mod TS_PACKET_SIZE \<noteq> 0 then Some (Inl ''Read partial packet'')
          else if outfd > 0 then Some (Inr (save_packets opts clk (write_len ev) data s))
          else do {
            r \<leftarrow> packet_loop opts clk data 0 s;
            Some (map_sum id (periodic_stats opts clk) r) })"

text \<open>The loop: the flag says whether it was left.\<close>

fun ts_loop ::
  "ts_opts \<Rightarrow> ts_clock \<Rightarrow> int \<Rightarrow> ts_event list \<Rightarrow> ts_state \<Rightarrow> (string + bool \<times> ts_state) option" where
  "ts_loop opts clk outfd [] s = Some (Inr (False, s))"
| "ts_loop opts clk outfd (ev # evs) s =
     (case ts_turn opts clk outfd ev s of
        None \<Rightarrow> None
      | Some (Inl msg) \<Rightarrow> Some (Inl msg)
      | Some (Inr (Break_Loop, s)) \<Rightarrow> Some (Inr (True, s))
      | Some (Inr (Continue_Loop, s)) \<Rightarrow> ts_loop opts clk outfd evs s)"

subsection \<open>Start and end\<close>

definition ts_options :: opt_table where
  "ts_options = [(CHR ''a'', True), (CHR ''d'', True), (CHR ''b'', True), (CHR ''i'', True), (CHR ''m'', True),
     (CHR ''o'', True), (CHR ''p'', True), (CHR ''t'', True), (CHR ''c'', False), (CHR ''q'', False),
     (CHR ''r'', False), (CHR ''s'', False), (CHR ''h'', False)]"

definition ts_defaults :: ts_opts where
  "ts_defaults = \<lparr>adapter = 0, demux = 0, max_seq_num = 1000000, summary = False, quiet = False, pid = 0x2000,
     timeout_ms = 0, buffer_size = 16 * 1024 * 1024, realtime = False, use_crc = True,
     infile = None, outfile = None\<rparr>"

text \<open>\<open>Inl\<close> is the exit of \<open>usage\<close>; \<open>timeout_ms *= 1000\<close> may overflow.\<close>

fun ts_parse :: "short_opt list \<Rightarrow> ts_opts \<Rightarrow> (int + ts_opts) option" where
  "ts_parse [] opts = Some (Inr opts)"
| "ts_parse (Bad_Short # os) opts = Some (Inl 1)"
| "ts_parse (Short c optarg # os) opts =
     (if c = CHR ''a'' then ts_parse os (opts\<lparr>adapter := atoi_int optarg\<rparr>)
      else if c = CHR ''d'' then ts_parse os (opts\<lparr>demux := atoi_int optarg\<rparr>)
      else if c = CHR ''b'' then ts_parse os (opts\<lparr>buffer_size := atoi_int optarg\<rparr>)
      else if c = CHR ''i'' then ts_parse os (opts\<lparr>infile := Some optarg\<rparr>)
      else if c = CHR ''m'' then ts_parse os (opts\<lparr>max_seq_num := atoi_int optarg\<rparr>)
      else if c = CHR ''o'' then ts_parse os (opts\<lparr>outfile := Some optarg\<rparr>)
      else if c = CHR ''p'' then ts_parse os (opts\<lparr>pid := atoi_int optarg\<rparr>)
      else if c = CHR ''t'' then
        (let t = atoi_int optarg * 1000
         in if - (2 ^ 31) \<le> t \<and> t < 2 ^ 31 then ts_parse os (opts\<lparr>timeout_ms := t\<rparr>) else None)
      else if c = CHR ''c'' then ts_parse os (opts\<lparr>use_crc := False\<rparr>)
      else if c = CHR ''q'' then ts_parse os (opts\<lparr>quiet := True\<rparr>)
      else if c = CHR ''r'' then ts_parse os (opts\<lparr>realtime := True\<rparr>)
      else if c = CHR ''s'' then ts_parse os (opts\<lparr>summary := True\<rparr>)
      else Some (Inl 1))"

text \<open>
  Opening the input: \<open>Inl\<close> is an exit with status 1, \<open>Inr\<close> the descriptor of the output file. An
  input file that cannot be opened is reported and the demultiplexer is used instead; \<open>use_dvr\<close>
  is never set.
\<close>

definition ts_open :: "ts_env \<Rightarrow> ts_opts \<Rightarrow> int + int" where
  "ts_open env opts =
     (if realtime opts \<and> sched_setscheduler env < 0 then Inl 1
      else let infd = (case infile opts of None \<Rightarrow> 0 | Some f \<Rightarrow> open_file env f) in
      if infd \<le> 0 then
        (let dmxfd = dvb_open env (adapter opts) (demux opts) (lit ''demux'') False in
         if dmxfd < 0 then Inl 1
         else if set_buffer_size env dmxfd (buffer_size opts) < 0 then Inl 1
         else if set_pid_filter env dmxfd (word_of_int (pid opts)) False < 0 then Inl 1
         else Inr (case outfile opts of None \<Rightarrow> 0 | Some f \<Rightarrow> creat_file env f))
      else Inr 0)"

definition ts_init :: "ts_clock \<Rightarrow> ts_state" where
  "ts_init clk = (let now = time_ms (clk 0) in
     \<lparr>pid_table = replicate (ALL_PID + 1) 0, seq_table = replicate (ALL_PID + 1) 0, packets = 0, skipped = 0,
      bad_seq_num_count = 0, bad_crc_count = 0, lost_packets = 0, start = now, t0 = now, calls = 1,
      written = [], reports = []\<rparr>)"

definition ts_finish :: "ts_opts \<Rightarrow> ts_clock \<Rightarrow> ts_state \<Rightarrow> int \<times> ts_state" where
  "ts_finish opts clk s =
     (let s = (if summary opts then
                 (let (now, s) = ts_now clk s
                  in s\<lparr>reports := reports s @ [Summary (bad_crc_count s) (bad_seq_num_count s) (lost_packets s) (now - start s)]\<rparr>)
               else s)
      in (if bad_crc_count s > 0 \<or> bad_seq_num_count s > 0 then 1 else 0, s))"

text \<open>
  The exit status (none while the program is still waiting) and the state then; the initial state
  stands for a run that ended in \<open>usage\<close>, in \<open>fatal\<close> or before the loop.
\<close>

definition tssequencer_main ::
  "ts_env \<Rightarrow> ts_clock \<Rightarrow> ts_event list \<Rightarrow> cstr list \<Rightarrow> (int option \<times> ts_state) option" where
  "tssequencer_main env clk evs args = do {
     r \<leftarrow> ts_parse (fst (getopt ts_options args)) ts_defaults;
     (case r of
        Inl st \<Rightarrow> Some (Some st, ts_init clk)
      | Inr opts \<Rightarrow>
          (case ts_open env opts of
             Inl st \<Rightarrow> Some (Some st, ts_init clk)
           | Inr outfd \<Rightarrow> do {
               r \<leftarrow> ts_loop opts clk outfd evs (ts_init clk);
               Some (case r of
                       Inl msg \<Rightarrow> (Some 1, ts_init clk)
                     | Inr (False, s) \<Rightarrow> (None, s)
                     | Inr (True, s) \<Rightarrow> map_prod Some id (ts_finish opts clk s)) })) }"

section \<open>The invariant\<close>

text \<open>
  Sizes of the tables, a count of packets per identifier within the number of packets, the
  warm-up counter, at least one lost packet per gap, and a start time that was read from the clock.
\<close>

definition ts_inv :: "ts_clock \<Rightarrow> ts_state \<Rightarrow> bool" where
  "ts_inv clk s \<longleftrightarrow>
     length (pid_table s) = ALL_PID + 1 \<and> length (seq_table s) = ALL_PID + 1 \<and>
     (\<forall>v \<in> set (pid_table s). 0 \<le> v \<and> v \<le> packets s) \<and> 0 \<le> packets s \<and> 0 \<le> skipped s \<and> skipped s \<le> 100 \<and>
     0 \<le> bad_crc_count s \<and> 0 \<le> bad_seq_num_count s \<and> bad_seq_num_count s \<le> lost_packets s \<and>
     lost_packets s < 2 ^ 31 \<and> (\<exists>i < calls s. start s = time_ms (clk i))"

lemma ts_invD:
  assumes "ts_inv clk s"
  shows "length (pid_table s) = 8193" "length (seq_table s) = 8193" "0 \<le> skipped s" "skipped s \<le> 100"
    "0 \<le> bad_seq_num_count s" "bad_seq_num_count s \<le> lost_packets s" "0 \<le> packets s" "0 \<le> bad_crc_count s"
    "\<And>i. i < 8193 \<Longrightarrow> 0 \<le> pid_table s ! i \<and> pid_table s ! i \<le> packets s"
  using assms by (auto simp: ts_inv_def ALL_PID_def dest: nth_mem)

lemma packet_pid_less: "packet_pid pkt < 8192"
proof -
  have "packet_pid pkt = unat (take_bit 13 (push_bit 8 (ucast (pkt ! 1)) OR ucast (pkt ! 2) :: u32))"
    unfolding packet_pid_def PID_MASK_def by (simp add: take_bit_eq_mask mask_eq_exp_minus_1)
  also have "\<dots> < 2 ^ 13"
    unfolding unsigned_take_bit_eq by (rule take_bit_nat_less_exp)
  finally show ?thesis by simp
qed

lemma int_inc_Some: "int_inc x = Some y \<longleftrightarrow> y = x + 1 \<and> x < 2 ^ 31 - 1"
  by (auto simp: int_inc_def)

lemma bump_Some:
  "bump t i = Some t' \<longleftrightarrow> i < length t \<and> t ! i < 2 ^ 31 - 1 \<and> t' = t[i := t ! i + 1]"
  by (auto simp: bump_def arr_get_def int_inc_def bind_eq_Some_conv split: if_splits)

lemma bump_set:
  assumes "i < length t" "\<forall>v \<in> set t. 0 \<le> v \<and> v \<le> (n :: int)"
  shows "\<forall>v \<in> set (t[i := t ! i + 1]). 0 \<le> v \<and> v \<le> n + 1"
proof
  fix v
  assume "v \<in> set (t[i := t ! i + 1])"
  then consider "v = t ! i + 1" | "v \<in> set t" using set_update_subset_insert by fastforce
  then show "0 \<le> v \<and> v \<le> n + 1"
  proof cases
    case 1
    have "t ! i \<in> set t" using assms(1) by simp
    with 1 assms(2) show ?thesis by auto
  next
    case 2
    with assms(2) show ?thesis by force
  qed
qed

text \<open>The two entries that a packet counts in are different, so each grows by one.\<close>

lemma bump_twice:
  assumes "p < 8192" "length t = 8193" "\<forall>v \<in> set t. 0 \<le> v \<and> v \<le> (n :: int)"
    and "bump t p = Some t1" "bump t1 ALL_PID = Some t2"
  shows "length t2 = 8193" "\<forall>v \<in> set t2. 0 \<le> v \<and> v \<le> n + 1"
proof -
  from assms have t1: "t1 = t[p := t ! p + 1]" and t2: "t2 = t1[8192 := t1 ! 8192 + 1]"
    by (auto simp: bump_Some ALL_PID_def)
  show "length t2 = 8193" using t1 t2 assms(2) by simp
  have eq: "t2 = (t[8192 := t ! 8192 + 1])[p := t ! p + 1]"
    using t1 t2 assms(1) by (auto simp: list_update_swap)
  show "\<forall>v \<in> set t2. 0 \<le> v \<and> v \<le> n + 1"
  proof
    fix v
    assume "v \<in> set t2"
    then consider "v = t ! p + 1" | "v \<in> set (t[8192 := t ! 8192 + 1])"
      unfolding eq using set_update_subset_insert by fastforce
    then show "0 \<le> v \<and> v \<le> n + 1"
    proof cases
      case 1
      have "t ! p \<in> set t" using assms(1,2) by simp
      with 1 assms(3) show ?thesis by auto
    next
      case 2
      then show ?thesis using bump_set [of 8192 t n] assms(2,3) by auto
    qed
  qed
qed

lemma wrap_int_range: "- (2 ^ 31) \<le> wrap_int i" "wrap_int i < 2 ^ 31"
  using sint_ge [of "word_of_int i :: u32"] sint_lt [of "word_of_int i :: u32"]
  by (simp_all add: wrap_int_def)

lemma map_sum_Inr: "map_sum id f r = Inr y \<longleftrightarrow> (\<exists>u. r = Inr u \<and> y = f u)"
  by (cases r) auto

lemma account_seq_frame:
  assumes "account_seq opts q e s = Some (Inr s')" "bad_seq_num_count s \<le> lost_packets s" "0 \<le> bad_seq_num_count s"
    "lost_packets s < 2 ^ 31"
  obtains b l where "s' = s\<lparr>bad_seq_num_count := b, lost_packets := l\<rparr>" "0 \<le> b" "b \<le> l" "l < 2 ^ 31"
proof (cases "q = e")
  case True
  with assms show ?thesis
    by (intro that [where b = "bad_seq_num_count s" and l = "lost_packets s"]) (simp_all add: account_seq_def)
next
  case False
  with assms(1) obtain b l where s': "s' = s\<lparr>bad_seq_num_count := b, lost_packets := l\<rparr>"
    and "int_inc (bad_seq_num_count s) = Some b" "b \<le> l"
    and "l < 2 ^ 31"
    using wrap_int_range(2) by (fastforce simp: account_seq_def bind_eq_Some_conv Let_def int_inc_Some not_less split: if_splits)
  moreover from \<open>int_inc (bad_seq_num_count s) = Some b\<close> assms(3) have "0 \<le> b" by (simp add: int_inc_Some)
  ultimately show ?thesis using that by blast
qed

lemma count_packet_inv:
  assumes "count_packet p s = Some s'" "p < 8192" "ts_inv clk s"
  shows "ts_inv clk s'" "packets s' = packets s + 1"
proof -
  from assms(1) obtain t1 t2 where b: "bump (pid_table s) p = Some t1" "bump t1 ALL_PID = Some t2"
    and s': "s' = s\<lparr>pid_table := t2, packets := packets s + 1\<rparr>"
    by (auto simp: count_packet_def bind_eq_Some_conv int_inc_Some)
  have "length t2 = 8193" "\<forall>v \<in> set t2. 0 \<le> v \<and> v \<le> packets s + 1"
    using bump_twice [OF assms(2) _ _ b] ts_invD(1) [OF assms(3)] assms(3) by (auto simp: ts_inv_def)
  with assms(3) show "ts_inv clk s'" unfolding ts_inv_def s' by (simp add: ALL_PID_def)
  show "packets s' = packets s + 1" using s' by simp
qed

lemma warm_up_inv: "ts_inv clk s \<Longrightarrow> skipped s < 100 \<Longrightarrow> ts_inv clk (warm_up clk p q s)"
  by (auto simp: ts_inv_def warm_up_def ts_now_def)

lemma verify_seq_inv:
  assumes "verify_seq opts p q s = Some (Inr s')" "ts_inv clk s"
  shows "ts_inv clk s'"
proof -
  from assms(1) obtain e u where a: "account_seq opts q e s = Some (Inr u)"
    and s': "s' = u\<lparr>seq_table := (seq_table u)[p := q]\<rparr>"
    unfolding verify_seq_def by (auto simp: bind_eq_Some_conv map_sum_Inr)
  from a assms(2) obtain b l where "u = s\<lparr>bad_seq_num_count := b, lost_packets := l\<rparr>" "0 \<le> b" "b \<le> l" "l < 2 ^ 31"
    by (auto simp: ts_inv_def elim: account_seq_frame)
  with assms(2) show ?thesis unfolding s' by (simp add: ts_inv_def)
qed

lemma check_packet_split:
  assumes "check_packet opts clk pkt s = Some (Inr s')"
  obtains u where "count_packet (packet_pid pkt) s = Some u" and
    "(if skipped u < 100 then Some (Inr (warm_up clk (packet_pid pkt) (packet_seq pkt) u))
      else if packet_pid pkt = NULL_PID then Some (Inr u)
      else if use_crc opts \<and> \<not> crc_ok pkt then
        map_option (\<lambda>bad. Inr (u\<lparr>bad_crc_count := bad\<rparr>)) (int_inc (bad_crc_count u))
      else verify_seq opts (packet_pid pkt) (packet_seq pkt) u) = Some (Inr s')"
  using assms by (cases "count_packet (packet_pid pkt) s") (simp_all add: check_packet_def Let_def split: if_split_asm)

lemma check_packet_inv:
  assumes "check_packet opts clk pkt s = Some (Inr s')" "ts_inv clk s"
  shows "ts_inv clk s'"
proof -
  from assms(1) obtain u where u: "count_packet (packet_pid pkt) s = Some u" and r:
    "(if skipped u < 100 then Some (Inr (warm_up clk (packet_pid pkt) (packet_seq pkt) u))
      else if packet_pid pkt = NULL_PID then Some (Inr u)
      else if use_crc opts \<and> \<not> crc_ok pkt then
        map_option (\<lambda>bad. Inr (u\<lparr>bad_crc_count := bad\<rparr>)) (int_inc (bad_crc_count u))
      else verify_seq opts (packet_pid pkt) (packet_seq pkt) u) = Some (Inr s')"
    by (rule check_packet_split)
  have inv: "ts_inv clk u" by (rule count_packet_inv(1) [OF u packet_pid_less assms(2)])
  consider "skipped u < 100" | "100 \<le> skipped u" "packet_pid pkt = NULL_PID"
    | "100 \<le> skipped u" "packet_pid pkt \<noteq> NULL_PID" "use_crc opts \<and> \<not> crc_ok pkt"
    | "100 \<le> skipped u" "packet_pid pkt \<noteq> NULL_PID" "\<not> (use_crc opts \<and> \<not> crc_ok pkt)"
    by linarith
  then show ?thesis
  proof cases
    case 1
    with r inv show ?thesis by (auto simp: warm_up_inv)
  next
    case 2
    with r inv show ?thesis by simp
  next
    case 3
    with r obtain bad where "int_inc (bad_crc_count u) = Some bad" "s' = u\<lparr>bad_crc_count := bad\<rparr>" by auto
    with inv show ?thesis by (simp add: ts_inv_def int_inc_Some)
  next
    case 4
    with r have "verify_seq opts (packet_pid pkt) (packet_seq pkt) u = Some (Inr s')" by simp
    then show ?thesis using inv by (rule verify_seq_inv)
  qed
qed

lemma packet_loop_inv:
  "packet_loop opts clk buf i s = Some (Inr s') \<Longrightarrow> ts_inv clk s \<Longrightarrow> ts_inv clk s'"
proof (induction opts clk buf i s rule: packet_loop.induct)
  case (1 opts clk buf i s)
  show ?case
  proof (cases "i < length buf")
    case True
    with "1.prems"(1) obtain pkt r where p: "arr_slice buf i TS_PACKET_SIZE = Some pkt"
      and c: "check_packet opts clk pkt s = Some r" and r: "(case r of Inl msg \<Rightarrow> Some (Inl msg)
        | Inr s \<Rightarrow> packet_loop opts clk buf (i + TS_PACKET_SIZE) s) = Some (Inr s')"
      by (subst (asm) packet_loop.simps) (auto simp: bind_eq_Some_conv)
    from r obtain u where u: "r = Inr u" by (cases r) auto
    with r have l: "packet_loop opts clk buf (i + TS_PACKET_SIZE) u = Some (Inr s')" by simp
    show ?thesis
      by (rule "1.IH" [OF True p c u l]) (rule check_packet_inv [OF c [unfolded u] "1.prems"(2)])
  next
    case False
    with "1.prems" show ?thesis by (simp add: packet_loop.simps)
  qed
qed

lemma ts_now_inv: "ts_inv clk s \<Longrightarrow> ts_inv clk (snd (ts_now clk s))"
  by (auto simp: ts_inv_def ts_now_def intro: less_SucI)

lemma print_stats_inv: "ts_inv clk s \<Longrightarrow> ts_inv clk (print_stats d u s)"
  by (auto simp: ts_inv_def print_stats_def Let_def)

lemma periodic_stats_inv: "ts_inv clk s \<Longrightarrow> ts_inv clk (snd (periodic_stats opts clk s))"
proof -
  assume inv: "ts_inv clk s"
  obtain t1 u where n: "ts_now clk s = (t1, u)" by fastforce
  have u: "ts_inv clk u" using ts_now_inv [OF inv] n by simp
  have t: "ts_inv clk (v\<lparr>t0 := t1\<rparr>)" if "ts_inv clk v" for v using that by (simp add: ts_inv_def)
  show ?thesis
    by (auto simp: periodic_stats_def n Let_def inv u t print_stats_inv)
qed

lemma save_packets_inv: "ts_inv clk s \<Longrightarrow> ts_inv clk (snd (save_packets opts clk w data s))"
proof -
  assume "ts_inv clk s"
  then have inv: "ts_inv clk (s\<lparr>written := x\<rparr>)" for x by (simp add: ts_inv_def)
  have "snd (save_packets opts clk w data s) \<in>
      {snd (ts_now clk (s\<lparr>written := written s @ take w data\<rparr>)), s\<lparr>written := written s @ take w data\<rparr>}"
    by (auto simp: save_packets_def Let_def case_prod_beta)
  with inv ts_now_inv show ?thesis by auto
qed

lemma ts_turn_inv:
  assumes "ts_turn opts clk outfd ev s = Some (Inr (f, s'))" "ts_inv clk s"
  shows "ts_inv clk s'"
proof -
  obtain t1 u where n: "ts_now clk s = (t1, u)" by fastforce
  have u: "ts_inv clk u" using ts_now_inv [OF assms(2)] n by simp
  consider "s' = u" | data where "save_packets opts clk (write_len ev) data u = (f, s')"
    | data v where "packet_loop opts clk data 0 u = Some (Inr v)" "periodic_stats opts clk v = (f, s')"
    using assms(1) unfolding ts_turn_def n
    by (auto simp: bind_eq_Some_conv map_sum_Inr split: if_split_asm ts_read.split_asm)
  then show ?thesis
  proof cases
    case 1
    with u show ?thesis by simp
  next
    case 2
    then show ?thesis using save_packets_inv [OF u] by (metis snd_conv)
  next
    case 3
    then show ?thesis using periodic_stats_inv packet_loop_inv [OF _ u] by (metis snd_conv)
  qed
qed

lemma ts_loop_inv:
  "ts_loop opts clk outfd evs s = Some (Inr (b, s')) \<Longrightarrow> ts_inv clk s \<Longrightarrow> ts_inv clk s'"
proof (induction evs arbitrary: s)
  case (Cons ev evs)
  then obtain f u where t: "ts_turn opts clk outfd ev s = Some (Inr (f, u))"
    by (auto split: option.split_asm sum.split_asm prod.split_asm ts_flow.split_asm)
  have u: "ts_inv clk u" by (rule ts_turn_inv [OF t Cons.prems(2)])
  show ?case using Cons.IH [OF _ u] Cons.prems(1) u t by (cases f) auto
qed simp

lemma ts_init_inv: "ts_inv clk (ts_init clk)"
  by (simp add: ts_inv_def ts_init_def Let_def)

section \<open>A sender, and the gaps the checker sees\<close>

text \<open>
  Packets as the header of the source describes them: sync byte, identifier, continuity byte, the
  sequence number, the payload and the checksum of bytes 4 to 184. The sender keeps the last
  number of every identifier; \<open>sent_gap\<close> packets of the identifier are lost before the packet.
\<close>

definition be_bytes :: "u32 \<Rightarrow> byte list" where
  "be_bytes w = [ucast (drop_bit 24 w), ucast (drop_bit 16 w), ucast (drop_bit 8 w), ucast w]"

definition ts_packet :: "nat \<Rightarrow> byte \<Rightarrow> u32 \<Rightarrow> byte list \<Rightarrow> byte list" where
  "ts_packet p cc w body =
     [SYNC_BYTE, word_of_nat (p div 256), word_of_nat (p mod 256), cc] @
     (be_bytes w @ body) @ le_bytes (crc32 0 (be_bytes w @ body))"

record ts_sent =
  sent_pid :: nat
  sent_cc :: byte
  sent_gap :: nat
  sent_body :: "byte list"

definition sent_wf :: "ts_sent \<Rightarrow> bool" where
  "sent_wf x \<longleftrightarrow> sent_pid x < 8192 \<and> length (sent_body x) = 176"

definition sent_seq :: "nat \<Rightarrow> (nat \<Rightarrow> nat) \<Rightarrow> ts_sent \<Rightarrow> nat" where
  "sent_seq m prev x = (prev (sent_pid x) + 1 + sent_gap x) mod m"

fun transmit :: "nat \<Rightarrow> (nat \<Rightarrow> nat) \<Rightarrow> ts_sent list \<Rightarrow> byte list list" where
  "transmit m prev [] = []"
| "transmit m prev (x # xs) =
     ts_packet (sent_pid x) (sent_cc x) (word_of_nat (sent_seq m prev x)) (sent_body x) #
     transmit m (prev(sent_pid x := sent_seq m prev x)) xs"

text \<open>
  The gaps that count: those of packets after the first hundred, null packets apart. A gap can be
  told from a stale packet when the numbers did not wrap around in it, or when it is below 100.
\<close>

fun counted_gaps :: "nat \<Rightarrow> ts_sent list \<Rightarrow> nat list" where
  "counted_gaps k [] = []"
| "counted_gaps k (x # xs) =
     (if k < 100 then counted_gaps (k + 1) xs
      else if sent_pid x = NULL_PID then counted_gaps k xs
      else sent_gap x # counted_gaps k xs)"

fun gaps_visible :: "nat \<Rightarrow> (nat \<Rightarrow> nat) \<Rightarrow> nat \<Rightarrow> ts_sent list \<Rightarrow> bool" where
  "gaps_visible m prev k [] = True"
| "gaps_visible m prev k (x # xs) =
     ((k < 100 \<or> sent_pid x = NULL_PID \<or>
       sent_gap x < m \<and> ((prev (sent_pid x) + 1) mod m + sent_gap x < m \<or> sent_gap x < 100)) \<and>
      gaps_visible m (prev(sent_pid x := sent_seq m prev x)) (if k < 100 then k + 1 else k) xs)"

lemma be_word_bytes:
  "push_bit 24 (ucast (ucast (drop_bit 24 w) :: byte)) OR push_bit 16 (ucast (ucast (drop_bit 16 w) :: byte)) OR
   push_bit 8 (ucast (ucast (drop_bit 8 w) :: byte)) OR ucast (ucast w :: byte) = (w :: u32)"
proof (rule bit_word_eqI)
  fix n
  assume "n < LENGTH(32)"
  consider "n < 8" | "8 \<le> n" "n < 16" | "16 \<le> n" "n < 24" | "24 \<le> n" by linarith
  then show "bit (push_bit 24 (ucast (ucast (drop_bit 24 w) :: byte)) OR push_bit 16 (ucast (ucast (drop_bit 16 w) :: byte)) OR
      push_bit 8 (ucast (ucast (drop_bit 8 w) :: byte)) OR ucast (ucast w :: byte) :: u32) n = bit w n"
    using \<open>n < LENGTH(32)\<close> by cases (auto simp: bit_simps)
qed

lemma packet_fields:
  assumes "p < 8192" "length body = 176"
  shows "ts_packet p cc w body ! 0 = SYNC_BYTE" "packet_pid (ts_packet p cc w body) = p"
    "packet_seq (ts_packet p cc w body) = w" "length (ts_packet p cc w body) = TS_PACKET_SIZE"
    "crc_ok (ts_packet p cc w body)"
proof -
  show "ts_packet p cc w body ! 0 = SYNC_BYTE" "length (ts_packet p cc w body) = TS_PACKET_SIZE"
    using assms by (simp_all add: ts_packet_def be_bytes_def TS_PACKET_SIZE_def)
  have "take 184 (drop 4 (ts_packet p cc w body)) = (be_bytes w @ body) @ le_bytes (crc32 0 (be_bytes w @ body))"
    using assms by (simp add: ts_packet_def be_bytes_def)
  then have "crc32 0 (take 184 (drop 4 (ts_packet p cc w body))) = 0x2144df1c"
    by (simp only: crc32_own_residue)
  then show "crc_ok (ts_packet p cc w body)"
    by (simp add: crc_ok_def TS_PACKET_SIZE_def EXPECTED_CRC_def)
  have "packet_seq (ts_packet p cc w body) = push_bit 24 (ucast (ucast (drop_bit 24 w) :: byte)) OR
      push_bit 16 (ucast (ucast (drop_bit 16 w) :: byte)) OR push_bit 8 (ucast (ucast (drop_bit 8 w) :: byte)) OR
      ucast (ucast w :: byte)"
    by (simp add: packet_seq_def ts_packet_def be_bytes_def)
  also have "\<dots> = w" by (rule be_word_bytes)
  finally show "packet_seq (ts_packet p cc w body) = w" .
  have "push_bit 8 (ucast (word_of_nat (p div 256) :: byte)) OR ucast (word_of_nat (p mod 256) :: byte) =
      push_bit 8 (word_of_nat (p div 256) :: u32) + ucast (word_of_nat (p mod 256) :: byte)"
    unfolding push_bit_8_add [symmetric]
    using assms(1) by (simp add: unsigned_of_nat take_bit_nat_eq_self)
  also have "\<dots> = word_of_nat (p div 256) * 256 + word_of_nat (p mod 256)"
    by (simp add: push_bit_eq_mult unsigned_of_nat take_bit_nat_eq_self)
  also have "\<dots> = word_of_nat p" by (metis div_mult_mod_eq of_nat_add of_nat_mult of_nat_numeral)
  finally have "packet_pid (ts_packet p cc w body) = unat (take_bit 13 (word_of_nat p :: u32))"
    by (simp add: packet_pid_def ts_packet_def PID_MASK_def take_bit_eq_mask mask_eq_exp_minus_1)
  also have "\<dots> = p" using assms(1) by (simp add: unsigned_take_bit_eq unsigned_of_nat take_bit_nat_eq_self)
  finally show "packet_pid (ts_packet p cc w body) = p" .
qed

lemma u32_nat_arith:
  assumes "a < 2 ^ 31" "b < 2 ^ 31"
  shows "((word_of_nat a :: u32) = word_of_nat b) = (a = b)" "((word_of_nat a :: u32) < word_of_nat b) = (a < b)"
    "b \<le> a \<Longrightarrow> uint ((word_of_nat a :: u32) - word_of_nat b) = int a - int b"
    "uint (word_of_nat a :: u32) = int a"
    "(word_of_nat a :: u32) mod word_of_nat b = word_of_nat (a mod b)"
proof -
  have u: "unat (word_of_nat a :: u32) = a" "unat (word_of_nat b :: u32) = b"
    using assms by (simp_all add: unsigned_of_nat take_bit_nat_eq_self)
  show "((word_of_nat a :: u32) = word_of_nat b) = (a = b)" using u by metis
  show "((word_of_nat a :: u32) < word_of_nat b) = (a < b)" by (simp only: word_less_nat_alt u)
  show "uint (word_of_nat a :: u32) = int a" by (metis u(1) uint_nat)
  show "uint ((word_of_nat a :: u32) - word_of_nat b) = int a - int b" if "b \<le> a"
    using that u by (simp add: uint_nat unat_sub word_le_nat_alt of_nat_diff)
  show "(word_of_nat a :: u32) mod word_of_nat b = word_of_nat (a mod b)"
    by (simp only: word_arith_nat_mod u)
qed

lemma account_seq_gap:
  assumes m: "max_seq_num opts = int m" "m < 2 ^ 31" and e: "e < m" and g: "g < m" "e + g < m \<or> g < 100"
    and c: "0 \<le> bad_seq_num_count s" "bad_seq_num_count s \<le> lost_packets s" "lost_packets s + int g < 2 ^ 31"
  shows "account_seq opts (word_of_nat ((e + g) mod m)) (word_of_nat e) s =
    Some (Inr (s\<lparr>bad_seq_num_count := bad_seq_num_count s + (if g > 0 then 1 else 0),
                  lost_packets := lost_packets s + int g\<rparr>))"
proof -
  consider "g = 0" | "0 < g" "e + g < m" | "0 < g" "m \<le> e + g" by linarith
  then show ?thesis
  proof cases
    case 1
    with e show ?thesis by (simp add: account_seq_def)
  next
    case 2
    have "account_seq opts (word_of_nat (e + g)) (word_of_nat e) s =
      Some (Inr (s\<lparr>bad_seq_num_count := bad_seq_num_count s + 1, lost_packets := lost_packets s + int g\<rparr>))"
      using 2 m c u32_nat_arith(1,3) [of "e + g" e] u32_nat_arith(2) [of e "e + g"]
        wrap_int_id [of "lost_packets s + int g"]
      by (simp add: account_seq_def int_inc_def)
    with 2 show ?thesis by simp
  next
    case 3
    define q where "q = e + g - m"
    have eg: "e + g = q + m" using 3 by (simp add: q_def)
    have q: "q < e" "q < m" using eg g e by linarith+
    have r: "(e + g) mod m = q" using eg q by simp
    have g100: "g < 100" using 3 g by linarith
    have w: "(word_of_nat e :: u32) + word_of_nat g = word_of_nat q + word_of_nat m"
      by (metis eg of_nat_add)
    have d: "(word_of_nat q + word_of_int (int m)) - word_of_nat e = (word_of_nat g :: u32)"
      using w by (simp add: algebra_simps)
    have "(word_of_nat g :: u32) < 100" "uint (word_of_nat g :: u32) = int g"
      using u32_nat_arith(2) [of g 100] u32_nat_arith(4) [of g 0] g100 by simp_all
    then have "account_seq opts (word_of_nat q) (word_of_nat e) s =
      Some (Inr (s\<lparr>bad_seq_num_count := bad_seq_num_count s + 1, lost_packets := lost_packets s + int g\<rparr>))"
      using 3(1) m c q e d u32_nat_arith(1) [of q e] u32_nat_arith(2) [of e q] wrap_int_id [of "lost_packets s + int g"]
      by (simp add: account_seq_def int_inc_def)
    with 3 r show ?thesis by simp
  qed
qed

subsection \<open>One sent packet\<close>

definition seq_match :: "nat \<Rightarrow> (nat \<Rightarrow> nat) \<Rightarrow> ts_state \<Rightarrow> bool" where
  "seq_match m prev s \<longleftrightarrow> (\<forall>p < 8191. prev p < m \<and> seq_table s ! p = word_of_nat (prev p))"

text \<open>What a piece of the stream does to the counters, given the gaps in it.\<close>

definition counts_gaps :: "nat list \<Rightarrow> ts_state \<Rightarrow> ts_state \<Rightarrow> bool" where
  "counts_gaps gs s s' \<longleftrightarrow>
     lost_packets s' = lost_packets s + int (sum_list gs) \<and>
     bad_seq_num_count s' = bad_seq_num_count s + int (length (filter (\<lambda>g. 0 < g) gs)) \<and>
     bad_crc_count s' = bad_crc_count s"

lemma counts_gaps_trans: "counts_gaps a s s' \<Longrightarrow> counts_gaps b s' s'' \<Longrightarrow> counts_gaps (a @ b) s s''"
  by (auto simp: counts_gaps_def)

lemma count_packet_defined:
  assumes "ts_inv clk s" "p < 8192" "packets s < 2 ^ 31 - 1"
  obtains t where "count_packet p s = Some (s\<lparr>pid_table := t, packets := packets s + 1\<rparr>)"
proof -
  have "pid_table s ! p < 2 ^ 31 - 1" "pid_table s ! 8192 < 2 ^ 31 - 1"
    using ts_invD(9) [OF assms(1), of p] ts_invD(9) [OF assms(1), of 8192] assms(2,3) by linarith+
  then show ?thesis
    using assms(2,3) ts_invD(1) [OF assms(1)] that
    by (auto simp: count_packet_def bump_Some int_inc_def ALL_PID_def bump_def arr_get_def)
qed

lemma seq_match_update:
  assumes "seq_match m prev s" "p < 8192" "q < m" "length (seq_table s) = 8193"
    "seq_table s' = (seq_table s)[p := word_of_nat q]"
  shows "seq_match m (prev(p := q)) s'"
  using assms by (auto simp: seq_match_def nth_list_update)

lemma next_seq_sent:
  assumes "max_seq_num opts = int m" "0 < m" "m < 2 ^ 31" "p < m"
  shows "next_seq opts (word_of_nat p) = Some (word_of_nat ((p + 1) mod m))"
proof -
  have z: "(word_of_nat m :: u32) \<noteq> 0" using u32_nat_arith(1) [of m 0] assms by simp
  have "(word_of_nat (p + 1) :: u32) mod word_of_nat m = word_of_nat ((p + 1) mod m)"
    using assms by (intro u32_nat_arith(5)) linarith+
  with z assms(1) show ?thesis by (simp add: next_seq_def add.commute)
qed

lemma sent_packet:
  assumes m: "max_seq_num opts = int m" "0 < m" "m < 2 ^ 31"
    and inv: "ts_inv clk s" and match: "seq_match m prev s" and wf: "sent_wf x"
    and vis: "gaps_visible m prev (nat (skipped s)) [x]"
    and n: "packets s < 2 ^ 31 - 1" and l: "lost_packets s + int (sum_list (counted_gaps (nat (skipped s)) [x])) < 2 ^ 31"
  shows "\<exists>s'. check_packet opts clk (ts_packet (sent_pid x) (sent_cc x) (word_of_nat (sent_seq m prev x)) (sent_body x)) s =
      Some (Inr s') \<and>
    ts_inv clk s' \<and> packets s' = packets s + 1 \<and> seq_match m (prev(sent_pid x := sent_seq m prev x)) s' \<and>
    skipped s' = (if skipped s < 100 then skipped s + 1 else skipped s) \<and>
    counts_gaps (counted_gaps (nat (skipped s)) [x]) s s'"
proof -
  let ?p = "sent_pid x" and ?q = "sent_seq m prev x" and ?g = "sent_gap x"
  let ?pkt = "ts_packet ?p (sent_cc x) (word_of_nat ?q) (sent_body x)"
  let ?prev = "prev(?p := ?q)"
  have p: "?p < 8192" and b: "length (sent_body x) = 176" using wf by (simp_all add: sent_wf_def)
  note f = packet_fields [OF p b, of "sent_cc x" "word_of_nat ?q"]
  have q: "?q < m" using m by (simp add: sent_seq_def)
  note d = ts_invD [OF inv]
  obtain t where c: "count_packet ?p s = Some (s\<lparr>pid_table := t, packets := packets s + 1\<rparr>)"
    using count_packet_defined [OF inv p n] by blast
  let ?u = "s\<lparr>pid_table := t, packets := packets s + 1\<rparr>"
  have fin: ?thesis if "check_packet opts clk ?pkt s = Some (Inr s')" "packets s' = packets s + 1" "seq_match m ?prev s'"
      "skipped s' = (if skipped s < 100 then skipped s + 1 else skipped s)"
      "counts_gaps (counted_gaps (nat (skipped s)) [x]) s s'" for s'
    using that check_packet_inv [OF that(1) inv] by blast
  consider "skipped s < 100" | "\<not> skipped s < 100" "?p = NULL_PID" | "\<not> skipped s < 100" "?p \<noteq> NULL_PID" by blast
  then show ?thesis
  proof cases
    case 1
    then have "check_packet opts clk ?pkt s = Some (Inr (warm_up clk ?p (word_of_nat ?q) ?u))"
      using f c by (simp add: check_packet_def Let_def)
    then show ?thesis
    proof (rule fin)
      show "seq_match m ?prev (warm_up clk ?p (word_of_nat ?q) ?u)"
        by (rule seq_match_update [OF match p q d(2)]) (simp add: warm_up_def ts_now_def)
    qed (use 1 d in \<open>simp_all add: warm_up_def ts_now_def counts_gaps_def nat_less_iff\<close>)
  next
    case 2
    then have "check_packet opts clk ?pkt s = Some (Inr ?u)"
      using f c by (simp add: check_packet_def Let_def)
    then show ?thesis
    proof (rule fin)
      show "seq_match m ?prev ?u" using match 2 by (auto simp: seq_match_def NULL_PID_def)
    qed (use 2 d in \<open>simp_all add: counts_gaps_def nat_less_iff\<close>)
  next
    case 3
    then have np: "?p < 8191" and k: "\<not> nat (skipped s) < 100" using p by (auto simp: NULL_PID_def)
    let ?e = "(prev ?p + 1) mod m"
    have pr: "prev ?p < m" "seq_table s ! ?p = word_of_nat (prev ?p)" using match np by (auto simp: seq_match_def)
    have g: "?g < m" "?e + ?g < m \<or> ?g < 100" using vis 3 k by auto
    have "(?e + ?g) mod m = ?q" by (simp add: sent_seq_def mod_simps)
    then have "account_seq opts (word_of_nat ?q) (word_of_nat ?e) ?u =
        Some (Inr (?u\<lparr>bad_seq_num_count := bad_seq_num_count s + (if ?g > 0 then 1 else 0),
                      lost_packets := lost_packets s + int ?g\<rparr>))"
      using account_seq_gap [OF m(1,3) _ g, of ?u] m d l 3 k by simp
    then have "check_packet opts clk ?pkt s = Some (Inr (?u\<lparr>bad_seq_num_count := bad_seq_num_count s + (if ?g > 0 then 1 else 0),
                      lost_packets := lost_packets s + int ?g, seq_table := (seq_table s)[?p := word_of_nat ?q]\<rparr>))"
      using f c 3 next_seq_sent [OF m pr(1)] pr(2) d(2) p
      by (simp add: check_packet_def Let_def verify_seq_def arr_get_def)
    then show ?thesis
    proof (rule fin)
      show "seq_match m ?prev (?u\<lparr>bad_seq_num_count := bad_seq_num_count s + (if ?g > 0 then 1 else 0),
                      lost_packets := lost_packets s + int ?g, seq_table := (seq_table s)[?p := word_of_nat ?q]\<rparr>)"
        by (rule seq_match_update [OF match p q d(2)]) simp
    qed (use 3 k in \<open>simp_all add: counts_gaps_def\<close>)
  qed
qed

subsection \<open>A stream, and a run\<close>

fun after_sent :: "nat \<Rightarrow> (nat \<Rightarrow> nat) \<Rightarrow> ts_sent list \<Rightarrow> nat \<Rightarrow> nat" where
  "after_sent m prev [] = prev"
| "after_sent m prev (x # xs) = after_sent m (prev(sent_pid x := sent_seq m prev x)) xs"

definition warmed :: "nat \<Rightarrow> ts_sent list \<Rightarrow> nat" where
  "warmed k xs = max k (min 100 (k + length xs))"

lemma warmed_step: "warmed (if k < 100 then k + 1 else k) xs = warmed k (x # xs)"
  by (auto simp: warmed_def)

lemma warmed_Cons: "k < 100 \<Longrightarrow> warmed k (x # xs) = warmed (Suc k) xs" "\<not> k < 100 \<Longrightarrow> warmed k (x # xs) = warmed k xs"
  by (auto simp: warmed_def)

lemma counted_gaps_append: "counted_gaps k (xs @ ys) = counted_gaps k xs @ counted_gaps (warmed k xs) ys"
  by (induction k xs rule: counted_gaps.induct) (auto simp: warmed_def)

lemma gaps_visible_append:
  "gaps_visible m prev k (xs @ ys) \<longleftrightarrow>
     gaps_visible m prev k xs \<and> gaps_visible m (after_sent m prev xs) (warmed k xs) ys"
proof (induction m prev k xs rule: gaps_visible.induct)
  case (2 m prev k x xs)
  then show ?case by (cases "k < 100") (simp_all add: warmed_Cons del: fun_upd_apply)
qed (simp add: warmed_def)

lemma counted_gaps_Cons: "counted_gaps k (x # xs) = counted_gaps k [x] @ counted_gaps (if k < 100 then k + 1 else k) xs"
  by simp

lemma gaps_visible_Cons:
  "gaps_visible m prev k (x # xs) \<longleftrightarrow>
     gaps_visible m prev k [x] \<and> gaps_visible m (prev(sent_pid x := sent_seq m prev x)) (if k < 100 then k + 1 else k) xs"
  by simp

lemma packet_loop_sent:
  assumes "max_seq_num opts = int m" "0 < m" "m < 2 ^ 31"
  shows "ts_inv clk s \<Longrightarrow> seq_match m prev s \<Longrightarrow> list_all sent_wf xs \<Longrightarrow>
    gaps_visible m prev (nat (skipped s)) xs \<Longrightarrow> packets s + int (length xs) < 2 ^ 31 \<Longrightarrow>
    lost_packets s + int (sum_list (counted_gaps (nat (skipped s)) xs)) < 2 ^ 31 \<Longrightarrow>
    \<exists>s'. packet_loop opts clk (pre @ concat (transmit m prev xs)) (length pre) s = Some (Inr s') \<and>
      ts_inv clk s' \<and> packets s' = packets s + int (length xs) \<and> seq_match m (after_sent m prev xs) s' \<and>
      nat (skipped s') = warmed (nat (skipped s)) xs \<and> counts_gaps (counted_gaps (nat (skipped s)) xs) s s'"
proof (induction xs arbitrary: pre prev s)
  case Nil
  then show ?case
    using ts_invD(4) [OF Nil(1)] by (simp add: packet_loop.simps counts_gaps_def warmed_def)
next
  case (Cons x xs)
  let ?k = "nat (skipped s)" and ?prev = "prev(sent_pid x := sent_seq m prev x)"
  let ?pkt = "ts_packet (sent_pid x) (sent_cc x) (word_of_nat (sent_seq m prev x)) (sent_body x)"
  have g: "counted_gaps ?k (x # xs) = counted_gaps ?k [x] @ counted_gaps (if ?k < 100 then ?k + 1 else ?k) xs"
    by (rule counted_gaps_Cons)
  have v: "gaps_visible m prev ?k [x]" "gaps_visible m ?prev (if ?k < 100 then ?k + 1 else ?k) xs"
    using Cons.prems(4) gaps_visible_Cons by blast+
  have wf: "sent_wf x" using Cons.prems by simp
  obtain u where u: "check_packet opts clk ?pkt s = Some (Inr u)" "ts_inv clk u" "packets u = packets s + 1"
      "seq_match m ?prev u" "skipped u = (if skipped s < 100 then skipped s + 1 else skipped s)"
      "counts_gaps (counted_gaps ?k [x]) s u"
    using sent_packet [OF assms Cons.prems(1,2) wf v(1)] Cons.prems(5,6) unfolding g by auto
  have k: "nat (skipped u) = (if ?k < 100 then ?k + 1 else ?k)" using u(5) ts_invD(3) [OF Cons.prems(1)] by auto
  have len: "length ?pkt = TS_PACKET_SIZE" using wf by (simp add: sent_wf_def packet_fields(4))
  have "\<exists>s'. packet_loop opts clk ((pre @ ?pkt) @ concat (transmit m ?prev xs)) (length (pre @ ?pkt)) u = Some (Inr s') \<and>
      ts_inv clk s' \<and> packets s' = packets u + int (length xs) \<and> seq_match m (after_sent m ?prev xs) s' \<and>
      nat (skipped s') = warmed (nat (skipped u)) xs \<and> counts_gaps (counted_gaps (nat (skipped u)) xs) u s'"
  proof (rule Cons.IH [OF u(2,4)])
    show "lost_packets u + int (sum_list (counted_gaps (nat (skipped u)) xs)) < 2 ^ 31"
      using Cons.prems(6) u(6) unfolding k g by (simp add: counts_gaps_def)
    show "gaps_visible m ?prev (nat (skipped u)) xs" using v(2) unfolding k .
    show "packets u + int (length xs) < 2 ^ 31" using Cons.prems(5) u(3) by simp
    show "list_all sent_wf xs" using Cons.prems(3) by simp
  qed
  then obtain s' where s': "packet_loop opts clk ((pre @ ?pkt) @ concat (transmit m ?prev xs)) (length (pre @ ?pkt)) u = Some (Inr s')"
      "ts_inv clk s'" "packets s' = packets u + int (length xs)" "seq_match m (after_sent m ?prev xs) s'"
      "nat (skipped s') = warmed (nat (skipped u)) xs" "counts_gaps (counted_gaps (nat (skipped u)) xs) u s'"
    by blast
  have "packet_loop opts clk (pre @ concat (transmit m prev (x # xs))) (length pre) s = Some (Inr s')"
    using s'(1) u(1) len
    by (subst packet_loop.simps) (simp add: arr_slice_def TS_PACKET_SIZE_def)
  moreover have "counts_gaps (counted_gaps ?k (x # xs)) s s'"
    unfolding g using counts_gaps_trans [OF u(6) s'(6)] k by simp
  moreover have "nat (skipped s') = warmed ?k (x # xs)" using s'(5) unfolding k by (simp only: warmed_step)
  ultimately show ?case using s'(2,3,4) u(3) by auto
qed

text \<open>The reads of a stream: each returns some packets, the last one nothing.\<close>

fun stream_reads :: "nat \<Rightarrow> (nat \<Rightarrow> nat) \<Rightarrow> ts_sent list list \<Rightarrow> ts_event list" where
  "stream_reads m prev [] = [\<lparr>ready = True, input = Read_Data [], write_len = 0\<rparr>]"
| "stream_reads m prev (c # cs) =
     \<lparr>ready = True, input = Read_Data (concat (transmit m prev c)), write_len = 0\<rparr> #
     stream_reads m (after_sent m prev c) cs"

text \<open>The clock does not go back, and the run is shorter than the timeout.\<close>

definition in_time :: "ts_clock \<Rightarrow> int \<Rightarrow> bool" where
  "in_time clk t \<longleftrightarrow>
     (\<forall>i j. i \<le> j \<longrightarrow> time_ms (clk i) \<le> time_ms (clk j) \<and> time_ms (clk j) - time_ms (clk i) < t)"

lemma in_timeD:
  assumes "in_time clk t" "ts_inv clk s"
  shows "start s \<le> time_ms (clk (calls s))" "time_ms (clk (calls s)) - start s < t"
  using assms by (auto simp: in_time_def ts_inv_def)

lemma wait_for_input_nonneg:
  assumes "0 \<le> t"
  shows "wait_for_input r t = r"
proof -
  have "t sdiv 1000 = t div 1000" "t smod 1000 = t mod 1000"
    using assms by (auto simp: signed_divide_int_def signed_modulo_int_def sgn_if)
  with assms show ?thesis by (simp add: wait_for_input_def Let_def pos_imp_zdiv_nonneg_iff)
qed

lemma wait_for_input_negative:
  assumes "t < 0"
  shows "\<not> wait_for_input r t"
proof -
  have "t sdiv 1000 = - ((- t) div 1000)" "t smod 1000 = - ((- t) mod 1000)"
    using assms by (simp_all add: signed_divide_int_def signed_modulo_int_def)
  moreover have "0 < (- t) div 1000 \<or> 0 < (- t) mod 1000"
    using assms div_mult_mod_eq [of "- t" 1000] pos_imp_zdiv_nonneg_iff [of 1000 "- t"] pos_mod_sign [of 1000 "- t"]
    by linarith
  ultimately show ?thesis by (auto simp: wait_for_input_def Let_def)
qed

lemma periodic_stats_in_time:
  assumes "in_time clk (timeout_ms opts)" "ts_inv clk s"
  shows "\<exists>s'. periodic_stats opts clk s = (Continue_Loop, s') \<and> counts_gaps [] s s' \<and> packets s' = packets s \<and>
    skipped s' = skipped s \<and> seq_table s' = seq_table s"
proof -
  have "\<not> time_ms (clk (calls s)) - start s \<ge> timeout_ms opts" using in_timeD [OF assms] by simp
  then show ?thesis
    by (auto simp: periodic_stats_def ts_now_def Let_def timed_out_def print_stats_def counts_gaps_def)
qed

lemma ts_turn_sent:
  assumes m: "max_seq_num opts = int m" "0 < m" "m < 2 ^ 31"
    and time: "in_time clk (timeout_ms opts)" "timeout_ms opts < 2 ^ 31"
    and inv: "ts_inv clk s" "seq_match m prev s" and xs: "list_all sent_wf xs" "xs \<noteq> []"
      "gaps_visible m prev (nat (skipped s)) xs" "packets s + int (length xs) < 2 ^ 31"
      "lost_packets s + int (sum_list (counted_gaps (nat (skipped s)) xs)) < 2 ^ 31"
  shows "\<exists>s'. ts_turn opts clk 0 \<lparr>ready = True, input = Read_Data (concat (transmit m prev xs)), write_len = 0\<rparr> s =
      Some (Inr (Continue_Loop, s')) \<and> ts_inv clk s' \<and>
      packets s' = packets s + int (length xs) \<and> seq_match m (after_sent m prev xs) s' \<and>
      nat (skipped s') = warmed (nat (skipped s)) xs \<and> counts_gaps (counted_gaps (nat (skipped s)) xs) s s'"
proof -
  let ?u = "s\<lparr>calls := calls s + 1\<rparr>" and ?data = "concat (transmit m prev xs)"
  let ?ev = "\<lparr>ready = True, input = Read_Data ?data, write_len = 0\<rparr>"
  note now = in_timeD [OF time(1) inv(1)]
  have u: "ts_inv clk ?u" "seq_match m prev ?u" using ts_now_inv [OF inv(1)] inv(2) by (simp_all add: ts_now_def seq_match_def)
  obtain v where v: "packet_loop opts clk ([] @ ?data) (length ([] :: byte list)) ?u = Some (Inr v)" "ts_inv clk v"
      "packets v = packets s + int (length xs)" "seq_match m (after_sent m prev xs) v"
      "nat (skipped v) = warmed (nat (skipped s)) xs" "counts_gaps (counted_gaps (nat (skipped s)) xs) s v"
    using packet_loop_sent [OF m u xs(1), of "[]"] xs(3-5) by (auto simp: counts_gaps_def)
  obtain s' where s': "periodic_stats opts clk v = (Continue_Loop, s')" "counts_gaps [] v s'"
      "packets s' = packets v" "skipped s' = skipped v" "seq_table s' = seq_table v"
    using periodic_stats_in_time [OF time(1) v(2)] by blast
  have len: "length ?data = TS_PACKET_SIZE * length xs"
    using xs(1) by (induction m prev xs rule: transmit.induct) (auto simp: sent_wf_def packet_fields(4))
  then have ne: "?data \<noteq> []" using xs(2) by (metis TS_PACKET_SIZE_def length_0_conv mult_eq_0_iff zero_neq_numeral)
  have "wait_for_input True (wrap_int (timeout_ms opts - (time_ms (clk (calls s)) - start s)))"
    using now time(2) by (subst wrap_int_id) (auto simp: wait_for_input_nonneg)
  then have "ts_turn opts clk 0 ?ev s = Some (Inr (Continue_Loop, s'))"
    using now ne len v(1) s'(1) by (simp add: ts_turn_def ts_now_def timed_out_def)
  moreover have "ts_inv clk s'" using periodic_stats_inv [OF v(2), of opts] s'(1) by simp
  moreover have "counts_gaps (counted_gaps (nat (skipped s)) xs) s s'"
    using counts_gaps_trans [OF v(6) s'(2)] by simp
  ultimately show ?thesis using v(3-5) s'(3-5) by (auto simp: seq_match_def)
qed

lemma ts_loop_sent:
  assumes m: "max_seq_num opts = int m" "0 < m" "m < 2 ^ 31"
    and time: "in_time clk (timeout_ms opts)" "timeout_ms opts < 2 ^ 31"
  shows "ts_inv clk s \<Longrightarrow> seq_match m prev s \<Longrightarrow> list_all sent_wf (concat cs) \<Longrightarrow> [] \<notin> set cs \<Longrightarrow>
    gaps_visible m prev (nat (skipped s)) (concat cs) \<Longrightarrow> packets s + int (length (concat cs)) < 2 ^ 31 \<Longrightarrow>
    lost_packets s + int (sum_list (counted_gaps (nat (skipped s)) (concat cs))) < 2 ^ 31 \<Longrightarrow>
    \<exists>s'. ts_loop opts clk 0 (stream_reads m prev cs) s = Some (Inr (True, s')) \<and>
      counts_gaps (counted_gaps (nat (skipped s)) (concat cs)) s s'"
proof (induction cs arbitrary: prev s)
  case Nil
  have "wait_for_input True (wrap_int (timeout_ms opts - (time_ms (clk (calls s)) - start s)))"
    using in_timeD [OF time(1) Nil(1)] time(2) by (subst wrap_int_id) (auto simp: wait_for_input_nonneg)
  then show ?case
    using in_timeD [OF time(1) Nil(1)] by (simp add: ts_turn_def ts_now_def timed_out_def counts_gaps_def)
next
  case (Cons c cs)
  let ?k = "nat (skipped s)"
  have a: "counted_gaps ?k (concat (c # cs)) = counted_gaps ?k c @ counted_gaps (warmed ?k c) (concat cs)"
    and v: "gaps_visible m prev ?k c" "gaps_visible m (after_sent m prev c) (warmed ?k c) (concat cs)"
    using Cons.prems(5) by (simp_all add: counted_gaps_append gaps_visible_append)
  obtain u where u: "ts_turn opts clk 0 \<lparr>ready = True, input = Read_Data (concat (transmit m prev c)), write_len = 0\<rparr> s =
      Some (Inr (Continue_Loop, u))" "ts_inv clk u" "packets u = packets s + int (length c)"
      "seq_match m (after_sent m prev c) u" "nat (skipped u) = warmed ?k c" "counts_gaps (counted_gaps ?k c) s u"
    using ts_turn_sent [OF m time Cons.prems(1,2) _ _ v(1)] Cons.prems(3,4,6,7) unfolding a by auto
  obtain s' where s': "ts_loop opts clk 0 (stream_reads m (after_sent m prev c) cs) u = Some (Inr (True, s'))"
      "counts_gaps (counted_gaps (warmed ?k c) (concat cs)) u s'"
    using Cons.IH [OF u(2,4)] Cons.prems(3,4,6,7) v(2) u(3,5,6) unfolding a counts_gaps_def by auto
  show ?case unfolding a using counts_gaps_trans [OF u(6) s'(2)] u(1) s'(1) by simp
qed

section \<open>Properties\<close>

text \<open>
  Claim C10. A whole run of the checker, given a timeout (\<open>-t\<close>) longer than the run, over a stream of
  undamaged packets that is delivered in reads of any number of packets and then ends: \<open>lost_packets\<close>
  is exactly the number of packets missing after the warm-up of 100 packets (null packets apart),
  \<open>bad_seq_num_count\<close> the number of gaps, no checksum is reported, and the exit status is 0 when
  nothing was lost and 1 otherwise. The sender numbers each identifier from 1 on, modulo
  \<open>max_seq_num\<close>; a gap is below that modulus, and below 100 packets when it crosses the wrap-around, the checker's limit
  for telling a gap from a stale packet; the counts fit their 32 bits. Without a timeout the program
  stalls (\<open>default_timeout_stalls\<close>).
\<close>
theorem tssequencer_counts_losses:
  assumes opts: "ts_parse (fst (getopt ts_options args)) ts_defaults = Some (Inr opts)"
    and env: "ts_open env opts = Inr 0"
    and m: "max_seq_num opts = int m" "0 < m" "m < 2 ^ 31"
    and time: "in_time clk (timeout_ms opts)" "timeout_ms opts < 2 ^ 31"
    and xs: "list_all sent_wf (concat cs)" "[] \<notin> set cs" "gaps_visible m (\<lambda>_. 0) 0 (concat cs)"
      "length (concat cs) < 2 ^ 31" "sum_list (counted_gaps 0 (concat cs)) < 2 ^ 31"
  shows "\<exists>s. tssequencer_main env clk (stream_reads m (\<lambda>_. 0) cs) args =
      Some (Some (if \<exists>g \<in> set (counted_gaps 0 (concat cs)). g > 0 then 1 else 0), s) \<and>
    lost_packets s = int (sum_list (counted_gaps 0 (concat cs))) \<and>
    bad_seq_num_count s = int (length (filter (\<lambda>g. 0 < g) (counted_gaps 0 (concat cs)))) \<and> bad_crc_count s = 0"
proof -
  let ?g = "counted_gaps 0 (concat cs)" and ?i = "ts_init clk"
  have match: "seq_match m (\<lambda>_. 0) ?i" using m(2) by (auto simp: seq_match_def ts_init_def Let_def ALL_PID_def)
  have z: "packets ?i = 0" "skipped ?i = 0" "lost_packets ?i = 0" "bad_seq_num_count ?i = 0" "bad_crc_count ?i = 0"
    by (simp_all add: ts_init_def Let_def)
  obtain s where s: "ts_loop opts clk 0 (stream_reads m (\<lambda>_. 0) cs) ?i = Some (Inr (True, s))" "counts_gaps ?g ?i s"
    using ts_loop_sent [OF m time ts_init_inv match xs(1,2)] xs(3-5) z by auto
  have c: "bad_crc_count s = 0" "lost_packets s = int (sum_list ?g)"
    "bad_seq_num_count s = int (length (filter (\<lambda>g. 0 < g) ?g))"
    using s(2) z by (simp_all add: counts_gaps_def)
  have st: "(bad_seq_num_count s > 0) = (\<exists>g \<in> set ?g. g > 0)"
    by (simp add: c(3) filter_empty_conv)
  show ?thesis
    using opts env s(1) c(1,2) c(3) st
    by (auto simp: tssequencer_main_def ts_finish_def ts_now_def Let_def)
qed

lemma warm_up_gaps: "k + length xs \<le> 100 \<Longrightarrow> counted_gaps k xs = [] \<and> gaps_visible m prev k xs"
  by (induction m prev k xs rule: gaps_visible.induct) auto

theorem tssequencer_counts_losses_witness:
  "\<exists>s. tssequencer_main
      \<lparr>sched_setscheduler = 0, open_file = (\<lambda>_. 3), open_dev = (\<lambda>_ _. -1), creat_file = (\<lambda>_. -1),
       ioctl_buffer = (\<lambda>_ _. 0), ioctl_filter = (\<lambda>_ _. 0)\<rparr>
      (\<lambda>_. Some (7, 0))
      (stream_reads 1000000 (\<lambda>_. 0)
         [replicate 100 \<lparr>sent_pid = 33, sent_cc = 0, sent_gap = 0, sent_body = replicate 176 0\<rparr>,
          [\<lparr>sent_pid = 33, sent_cc = 0, sent_gap = 2, sent_body = replicate 176 0\<rparr>]])
      [lit ''-t5'', lit ''-i'', lit ''f''] = Some (Some 1, s) \<and>
    lost_packets s = 2 \<and> bad_seq_num_count s = 1 \<and> bad_crc_count s = 0"
proof -
  let ?x = "\<lparr>sent_pid = 33, sent_cc = 0, sent_gap = 0, sent_body = replicate 176 (0 :: byte)\<rparr>"
  let ?y = "\<lparr>sent_pid = 33, sent_cc = 0, sent_gap = 2, sent_body = replicate 176 (0 :: byte)\<rparr>"
  let ?cs = "[replicate 100 ?x, [?y]]"
  let ?opts = "ts_defaults\<lparr>timeout_ms := 5000, infile := Some (lit ''f'')\<rparr>"
  let ?env = "\<lparr>sched_setscheduler = 0, open_file = (\<lambda>_. 3), open_dev = (\<lambda>_ _. -1), creat_file = (\<lambda>_. -1),
       ioctl_buffer = (\<lambda>_ _. 0), ioctl_filter = (\<lambda>_ _. 0)\<rparr> :: ts_env"
  have w: "counted_gaps 0 (replicate 100 ?x) = []" "gaps_visible m prev 0 (replicate 100 ?x)" "warmed 0 (replicate 100 ?x) = 100" for m prev
    using warm_up_gaps [of 0 "replicate 100 ?x"] by (simp_all add: warmed_def)
  have g: "counted_gaps 0 (concat ?cs) = [2]"
    by (simp only: concat.simps append_Nil2 counted_gaps_append w append_Nil) (simp add: NULL_PID_def)
  have a: "ts_parse (fst (getopt ts_options [lit ''-t5'', lit ''-i'', lit ''f''])) ts_defaults = Some (Inr ?opts)"
    by (simp add: lit_def find_short_def ts_options_def atoi_int_def atoi_u32_def c_atoi_def is_space_def is_digit_def)
  have b: "ts_open ?env ?opts = Inr 0" by (simp add: ts_open_def ts_defaults_def)
  have m: "max_seq_num ?opts = int 1000000" "0 < (1000000 :: nat)" "(1000000 :: nat) < 2 ^ 31"
    by (simp_all add: ts_defaults_def)
  have c: "in_time (\<lambda>_. Some (7, 0)) (timeout_ms ?opts)" "timeout_ms ?opts < 2 ^ 31" by (simp_all add: in_time_def)
  have d: "list_all sent_wf (concat ?cs)" "[] \<notin> set ?cs" by (simp_all add: sent_wf_def list_all_iff)
  have e: "gaps_visible 1000000 (\<lambda>_. 0) 0 (concat ?cs)"
    by (simp only: concat.simps append_Nil2 gaps_visible_append w) simp
  have f: "length (concat ?cs) < 2 ^ 31" "sum_list (counted_gaps 0 (concat ?cs)) < 2 ^ 31" unfolding g by simp_all
  show ?thesis
    using tssequencer_counts_losses [OF a b m c d e f] unfolding g by simp
qed

text \<open>
  After the warm-up a packet whose payload was damaged within four neighbouring bytes
  (sequence number and checksum included) is always recognised: it counts as a checksum error and
  changes neither the expected sequence number nor the losses.
\<close>
lemma corrupted_packet_counted:
  assumes "ts_inv clk s" "100 \<le> skipped s" "packets s < 2 ^ 31 - 1" "bad_crc_count s < 2 ^ 31 - 1"
    and "use_crc opts" "p < 8191" "length body = 176"
    and "drop 4 (ts_packet p cc w body) = a @ x @ z" "length x = 4" "length y = 4" "x \<noteq> y"
  shows "\<exists>s'. check_packet opts clk (take 4 (ts_packet p cc w body) @ a @ y @ z) s = Some (Inr s') \<and>
    bad_crc_count s' = bad_crc_count s + 1 \<and> packets s' = packets s + 1 \<and> seq_table s' = seq_table s \<and>
    lost_packets s' = lost_packets s \<and> bad_seq_num_count s' = bad_seq_num_count s"
proof -
  let ?good = "ts_packet p cc w body" let ?bad = "take 4 ?good @ a @ y @ z"
  have p: "p < 8192" using assms by simp
  note f = packet_fields [OF p assms(7), of cc w]
  have len: "length (a @ x @ z) = 184"
    unfolding assms(8) [symmetric] using f(4) by (simp add: TS_PACKET_SIZE_def)
  have four: "length (take 4 ?good) = 4" using f(4) by (simp add: TS_PACKET_SIZE_def)
  have head: "?bad ! i = ?good ! i" if "i < 4" for i using that four by (simp add: nth_append)
  have "packet_pid ?bad = p" using f(2) unfolding packet_pid_def by (simp only: head)
  moreover have "?bad ! 0 = SYNC_BYTE" using f(1) head [of 0] by simp
  moreover have "\<not> crc_ok ?bad"
  proof -
    have "take 184 (drop 4 ?good) = a @ x @ z" "take 184 (drop 4 ?bad) = a @ y @ z"
      using assms(8-10) len four by simp_all
    with f(5) show ?thesis
      using crc_ref_burst [OF assms(9,10,11), of a z] by (auto simp: crc_ok_def TS_PACKET_SIZE_def crc32_ref)
  qed
  moreover obtain t where "count_packet p s = Some (s\<lparr>pid_table := t, packets := packets s + 1\<rparr>)"
    using count_packet_defined [OF assms(1) p assms(3)] by blast
  ultimately show ?thesis
    using assms by (simp add: check_packet_def Let_def NULL_PID_def int_inc_def)
qed

definition ts_warm :: ts_state where
  "ts_warm = (ts_init (\<lambda>_. Some (7, 0)))\<lparr>skipped := 100, packets := 100\<rparr>"

lemma ts_warm_inv: "ts_inv (\<lambda>_. Some (7, 0)) ts_warm"
  using ts_init_inv [of "\<lambda>_. Some (7, 0)"] by (simp add: ts_inv_def ts_warm_def ts_init_def Let_def)

text \<open>
  Without a timeout (the default) the checker stops reading as soon as the clock is past
  \<open>start\<close>: \<open>wait_for_input\<close> is then called with a negative time, which \<open>select\<close> refuses, and the loop
  starts over. However much input is waiting, nothing is ever read again and the loop is never left.
\<close>
lemma default_timeout_stalls:
  assumes "timeout_ms opts = 0"
    and "\<forall>i \<ge> calls s. 0 < time_ms (clk i) - start s \<and> time_ms (clk i) - start s < 2 ^ 31"
  shows "ts_loop opts clk outfd evs s = Some (Inr (False, s\<lparr>calls := calls s + length evs\<rparr>))"
  using assms(2)
proof (induction evs arbitrary: s)
  case (Cons ev evs)
  let ?d = "time_ms (clk (calls s)) - start s"
  have d: "0 < ?d" "?d < 2 ^ 31" using Cons.prems by auto
  have "\<not> wait_for_input r (- ?d)" for r using d(1) by (intro wait_for_input_negative) simp
  moreover have "wrap_int (timeout_ms opts - ?d) = - ?d" using d assms(1) by (subst wrap_int_id) auto
  ultimately have "ts_turn opts clk outfd ev s = Some (Inr (Continue_Loop, s\<lparr>calls := calls s + 1\<rparr>))"
    using assms(1) by (simp add: ts_turn_def ts_now_def timed_out_def)
  then show ?case using Cons.IH [of "s\<lparr>calls := calls s + 1\<rparr>"] Cons.prems by simp
qed simp

text \<open>
  For any bytes in a packet, the tables are accessed within their bounds and no
  operation is undefined, as long as the counters have not reached the end of their type and the
  modulus is not zero; and the invariant holds afterwards: the tables keep their size, no count of
  an identifier exceeds the number of packets, and there is at least one lost packet per gap.
\<close>
lemma check_packet_safe:
  assumes "ts_inv clk s" "packets s < 2 ^ 31 - 1" "bad_crc_count s < 2 ^ 31 - 1" "lost_packets s < 2 ^ 31 - 1"
    and "(word_of_int (max_seq_num opts) :: u32) \<noteq> 0"
  shows "\<exists>r. check_packet opts clk pkt s = Some r \<and> (\<forall>s'. r = Inr s' \<longrightarrow> ts_inv clk s')"
proof -
  obtain t where c: "count_packet (packet_pid pkt) s = Some (s\<lparr>pid_table := t, packets := packets s + 1\<rparr>)"
    using count_packet_defined [OF assms(1) packet_pid_less assms(2)] by blast
  let ?u = "s\<lparr>pid_table := t, packets := packets s + 1\<rparr>"
  have "verify_seq opts (packet_pid pkt) q ?u \<noteq> None" for q
    using assms ts_invD [OF assms(1)] packet_pid_less [of pkt]
    by (auto simp: verify_seq_def arr_get_def next_seq_def account_seq_def int_inc_def Let_def)
  then have "check_packet opts clk pkt s \<noteq> None"
    using c assms(3) by (auto simp: check_packet_def Let_def int_inc_def)
  then show ?thesis using check_packet_inv [OF _ assms(1)] by fastforce
qed

end
