(* ===== verification/Hnvram.thy ===== *)
theory Hnvram
  imports Getopt
begin

unbundle bit_operations_syntax

text \<open>
  The NVRAM tool, \<^verbatim>\<open>src/hnvram/hnvram_main.c\<close>. The driver library \<open>HMX_NVRAM_*\<close> is not part of the
  repository: it is a record of functions over an abstract store, with the behaviour that the
  tool relies on as the named hypothesis \<open>hmx_ok\<close>.

  Results. \<open>None\<close> is undefined behaviour (reading or writing outside a buffer). A function that
  may call \<open>exit\<close> gives \<open>Inl\<close> of the status; a \<open>NULL\<close> is an inner \<open>None\<close>. Buffers on the stack that
  the source leaves uninitialised start as zeros; each is written before it is read.
\<close>

section \<open>Fields and formats\<close>

definition NVRAM_MAX_DATA :: nat where "NVRAM_MAX_DATA = 64 * 1024"
definition GPN_HEX_BYTES :: nat where "GPN_HEX_BYTES = 4"

datatype hnvram_format =
  HNVRAM_STRING | HNVRAM_MAC | HNVRAM_HMXSWVERS | HNVRAM_UINT8 | HNVRAM_GPN | HNVRAM_HEXSTRING

text \<open>The enumeration of the driver is known by its names only.\<close>

type_synonym NVRAM_FIELD_T = string

record hnvram_field =
  fname :: cstr
  nvram_type :: NVRAM_FIELD_T
  fformat :: hnvram_format

definition fld :: "string \<Rightarrow> NVRAM_FIELD_T \<Rightarrow> hnvram_format \<Rightarrow> hnvram_field" where
  "fld n t f = \<lparr>fname = lit n, nvram_type = t, fformat = f\<rparr>"

definition nvram_fields :: "hnvram_field list" where
  "nvram_fields = [
     fld ''SYSTEM_ID'' ''NVRAM_FIELD_SYSTEM_ID'' HNVRAM_STRING,
     fld ''MAC_ADDR'' ''NVRAM_FIELD_MAC_ADDR'' HNVRAM_MAC,
     fld ''SERIAL_NO'' ''NVRAM_FIELD_SERIAL_NO'' HNVRAM_STRING,
     fld ''LOADER_VERSION'' ''NVRAM_FIELD_LOADER_VERSION'' HNVRAM_HMXSWVERS,
     fld ''ACTIVATED_KERNEL_NUM'' ''NVRAM_FIELD_ACTIVATED_KERNEL_NUM'' HNVRAM_UINT8,
     fld ''MTD_TYPE_FOR_KERNEL'' ''NVRAM_FIELD_MTD_TYPE_FOR_KERNEL'' HNVRAM_STRING,
     fld ''ACTIVATED_KERNEL_NAME'' ''NVRAM_FIELD_ACTIVATED_KERNEL_NAME'' HNVRAM_STRING,
     fld ''EXTRA_KERNEL_OPT'' ''NVRAM_FIELD_EXTRA_KERNEL_OPT'' HNVRAM_STRING,
     fld ''PLATFORM_NAME'' ''NVRAM_FIELD_PLATFORM_NAME'' HNVRAM_STRING,
     fld ''1ST_SERIAL_NUMBER'' ''NVRAM_FIELD_1ST_SERIAL_NUMBER'' HNVRAM_STRING,
     fld ''2ND_SERIAL_NUMBER'' ''NVRAM_FIELD_2ND_SERIAL_NUMBER'' HNVRAM_STRING,
     fld ''GPN'' ''NVRAM_FIELD_GPN'' HNVRAM_GPN,
     fld ''MAC_ADDR_MOCA'' ''NVRAM_FIELD_MAC_ADDR_MOCA'' HNVRAM_MAC,
     fld ''MAC_ADDR_BT'' ''NVRAM_FIELD_MAC_ADDR_BT'' HNVRAM_MAC,
     fld ''MAC_ADDR_WIFI'' ''NVRAM_FIELD_MAC_ADDR_WIFI'' HNVRAM_MAC,
     fld ''MAC_ADDR_WIFI2'' ''NVRAM_FIELD_MAC_ADDR_WIFI2'' HNVRAM_MAC,
     fld ''MAC_ADDR_WAN'' ''NVRAM_FIELD_MAC_ADDR_WAN'' HNVRAM_MAC,
     fld ''HDCP_KEY'' ''NVRAM_FIELD_HDCP_KEY'' HNVRAM_HEXSTRING,
     fld ''DTCP_KEY'' ''NVRAM_FIELD_DTCP_KEY'' HNVRAM_HEXSTRING,
     fld ''GOOGLE_SSL_PEM'' ''NVRAM_FIELD_GOOGLE_SSL_PEM'' HNVRAM_STRING,
     fld ''GOOGLE_SSL_CRT'' ''NVRAM_FIELD_GOOGLE_SSL_CRT'' HNVRAM_STRING,
     fld ''PAIRED_DISK'' ''NVRAM_FIELD_PAIRED_DISK'' HNVRAM_STRING,
     fld ''PARTITION_VER'' ''NVRAM_FIELD_PARTITION_VER'' HNVRAM_STRING,
     fld ''HW_VER'' ''NVRAM_FIELD_HW_VER'' HNVRAM_UINT8,
     fld ''UITYPE'' ''NVRAM_FIELD_UITYPE'' HNVRAM_STRING,
     fld ''LASER_CHANNEL'' ''NVRAM_FIELD_LASER_CHANNEL'' HNVRAM_STRING,
     fld ''MAC_ADDR_PON'' ''NVRAM_FIELD_MAC_ADDR_PON'' HNVRAM_MAC,
     fld ''PRODUCTION_UNIT'' ''NVRAM_FIELD_PRODUCTION_UNIT'' HNVRAM_STRING,
     fld ''BOOT_TARGET'' ''NVRAM_FIELD_BOOT_TARGET'' HNVRAM_STRING,
     fld ''ANDROID_ACTIVE_PARTITION'' ''NVRAM_FIELD_ANDROID_ACTIVE_PARTITION'' HNVRAM_STRING]"

definition get_nvram_field :: "cstr \<Rightarrow> hnvram_field option" where
  "get_nvram_field name = find (\<lambda>f. strcasecmp_eq name (fname f)) nvram_fields"

section \<open>The driver library\<close>

datatype drv_error = DRV_OK | DRV_ERR | DRV_OTHER int

datatype hmx_partition = PARTITION_UNSPECIFIED | PARTITION_RO | PARTITION_RW

text \<open>
  Each function gives the error code. A reading function gives the bytes it puts into the buffer,
  of which the buffer takes what fits, and the length it reports.
\<close>

record 's hmx =
  HMX_NVRAM_GetLength :: "NVRAM_FIELD_T \<Rightarrow> 's \<Rightarrow> drv_error \<times> nat"
  HMX_NVRAM_GetField :: "NVRAM_FIELD_T \<Rightarrow> 's \<Rightarrow> drv_error \<times> byte list"
  HMX_NVRAM_SetField :: "NVRAM_FIELD_T \<Rightarrow> byte list \<Rightarrow> 's \<Rightarrow> drv_error \<times> 's"
  HMX_NVRAM_Read :: "hmx_partition \<Rightarrow> cstr \<Rightarrow> 's \<Rightarrow> drv_error \<times> byte list \<times> nat"
  HMX_NVRAM_Write :: "hmx_partition \<Rightarrow> cstr \<Rightarrow> byte list \<Rightarrow> 's \<Rightarrow> drv_error \<times> 's"
  HMX_NVRAM_Remove :: "hmx_partition \<Rightarrow> cstr \<Rightarrow> 's \<Rightarrow> drv_error \<times> 's"
  HMX_NVRAM_Dir :: "'s \<Rightarrow> drv_error \<times> cstr"
  HMX_NVRAM_Init :: "cstr option \<Rightarrow> 's \<Rightarrow> int \<times> 's"

definition fill :: "byte list \<Rightarrow> byte list \<Rightarrow> byte list" where
  "fill buf bs = take (length buf) bs @ drop (length bs) buf"

text \<open>A C string read from a block; without a NUL the read leaves the block.\<close>

definition str_at :: "byte list \<Rightarrow> cstr option" where
  "str_at m = (if 0 \<in> set m then Some (cstr_of m) else None)"

section \<open>Reading\<close>

definition format_string :: "byte list \<Rightarrow> byte list \<Rightarrow> byte list option" where
  "format_string data output = do { s \<leftarrow> str_at data; snprintf_at output 0 (length output) s }"

definition hex2 :: "byte \<Rightarrow> cstr" where
  "hex2 b = hex_fixed 2 (unat b)"

definition colon :: cstr where "colon = lit '':''"

definition format_mac :: "byte list \<Rightarrow> byte list \<Rightarrow> byte list option" where
  "format_mac data output = do {
     d \<leftarrow> arr_slice data 0 6;
     snprintf_at output 0 (length output)
       (hex2 (d ! 0) @ colon @ hex2 (d ! 1) @ colon @ hex2 (d ! 2) @ colon @
        hex2 (d ! 3) @ colon @ hex2 (d ! 4) @ colon @ hex2 (d ! 5)) }"

definition format_hmxswvers :: "byte list \<Rightarrow> byte list \<Rightarrow> byte list option" where
  "format_hmxswvers data output = do {
     d \<leftarrow> arr_slice data 0 2;
     snprintf_at output 0 (length output) (dec_nat (unat (d ! 1)) @ lit ''.'' @ dec_nat (unat (d ! 0))) }"

definition format_uint8 :: "byte list \<Rightarrow> byte list \<Rightarrow> byte list option" where
  "format_uint8 data output = do {
     d \<leftarrow> arr_get data 0;
     snprintf_at output 0 (length output) (dec_nat (unat d)) }"

fun hexstring_loop :: "byte list \<Rightarrow> nat \<Rightarrow> nat \<Rightarrow> byte list \<Rightarrow> byte list option" where
  "hexstring_loop data i 0 output = Some output"
| "hexstring_loop data i (Suc n) output = do {
     d \<leftarrow> arr_get data i;
     output \<leftarrow> snprintf_at output (i * 2) 3 (hex2 d);
     hexstring_loop data (i + 1) n output }"

text \<open>The length is an \<open>int\<close>; a negative one makes an empty loop.\<close>

definition format_hexstring :: "byte list \<Rightarrow> int \<Rightarrow> byte list \<Rightarrow> (int + byte list) option" where
  "format_hexstring data datalen output =
     (if int (length output) < datalen * 2 + 1 then Some (Inl 1)
      else map_option Inr (hexstring_loop data 0 (nat datalen) output))"

definition format_gpn :: "byte list \<Rightarrow> int \<Rightarrow> byte list \<Rightarrow> (int + byte list) option" where
  "format_gpn data data_len output =
     (if data_len = int GPN_HEX_BYTES then format_hexstring data (int GPN_HEX_BYTES) output
      else map_option Inr (format_string data output))"

definition format_nvram :: "hnvram_format \<Rightarrow> byte list \<Rightarrow> int \<Rightarrow> byte list \<Rightarrow> (int + byte list) option" where
  "format_nvram format data data_len output = do {
     output \<leftarrow> arr_put output 0 [0];
     (case format of
        HNVRAM_STRING \<Rightarrow> map_option Inr (format_string data output)
      | HNVRAM_MAC \<Rightarrow> map_option Inr (format_mac data output)
      | HNVRAM_HMXSWVERS \<Rightarrow> map_option Inr (format_hmxswvers data output)
      | HNVRAM_UINT8 \<Rightarrow> map_option Inr (format_uint8 data output)
      | HNVRAM_GPN \<Rightarrow> format_gpn data data_len output
      | HNVRAM_HEXSTRING \<Rightarrow> format_hexstring data data_len output) }"

text \<open>\<open>read_raw_nvram\<close>: the result, and the buffer.\<close>

definition read_raw_nvram :: "'s hmx \<Rightarrow> 's \<Rightarrow> cstr \<Rightarrow> byte list \<Rightarrow> int \<times> byte list" where
  "read_raw_nvram h st name output =
     (case get_nvram_field name of
        None \<Rightarrow> (-1, output)
      | Some field \<Rightarrow>
          (case HMX_NVRAM_GetLength h (nvram_type field) st of (e, ret) \<Rightarrow>
             if e \<noteq> DRV_OK then (-1, output)
             else if ret > length output then (-1, output)
             else (case HMX_NVRAM_GetField h (nvram_type field) st of (e, bs) \<Rightarrow>
                     if e \<noteq> DRV_OK then (-1, fill output bs) else (int ret, fill output bs))))"

text \<open>
  The value of a field or variable as stored: format, bytes, length and (for a variable) the
  partition. The array \<open>data\<close> is cleared first, so what follows the stored bytes is zero.
\<close>

definition fetch_nvram ::
  "'s hmx \<Rightarrow> 's \<Rightarrow> cstr \<Rightarrow> hmx_partition \<Rightarrow> (hnvram_format \<times> byte list \<times> nat) option \<times> hmx_partition" where
  "fetch_nvram h st name part_used =
     (let data = replicate NVRAM_MAX_DATA 0 in
      case get_nvram_field name of
        Some field \<Rightarrow>
          (case HMX_NVRAM_GetField h (nvram_type field) st of (e, bs) \<Rightarrow>
             if e \<noteq> DRV_OK then (None, part_used)
             else (case HMX_NVRAM_GetLength h (nvram_type field) st of (e, data_len) \<Rightarrow>
                     if e \<noteq> DRV_OK then (None, part_used)
                     else (Some (fformat field, fill data bs, data_len), part_used)))
      | None \<Rightarrow>
          (case HMX_NVRAM_Read h PARTITION_RW name st of (e, bs, data_len) \<Rightarrow>
             if e = DRV_OK then (Some (HNVRAM_STRING, fill data bs, data_len), PARTITION_RW)
             else let data = fill data bs in
               (case HMX_NVRAM_Read h PARTITION_RO name st of (e, bs, data_len) \<Rightarrow>
                  if e = DRV_OK then (Some (HNVRAM_STRING, fill data bs, data_len), PARTITION_RO)
                  else (None, PARTITION_RO))))"

definition read_nvram ::
  "'s hmx \<Rightarrow> 's \<Rightarrow> cstr \<Rightarrow> byte list \<Rightarrow> bool \<Rightarrow> hmx_partition \<Rightarrow> (int + byte list option \<times> hmx_partition) option" where
  "read_nvram h st name output quiet' part_used =
     (case fetch_nvram h st name part_used of
        (None, part_used) \<Rightarrow> Some (Inr (None, part_used))
      | (Some (format_type, data, data_len), part_used) \<Rightarrow> do {
          r \<leftarrow> format_nvram format_type data (wrap_int (int data_len)) (replicate (NVRAM_MAX_DATA * 2) 0);
          (case r of
             Inl status \<Rightarrow> Some (Inl status)
           | Inr formatbuf \<Rightarrow> do {
               nv \<leftarrow> str_at formatbuf;
               output \<leftarrow> snprintf_at output 0 (length output) (if quiet' then nv else name @ lit ''='' @ nv);
               Some (Inr (Some output, part_used)) }) })"

section \<open>Writing\<close>

text \<open>The parsers give the buffer and the number of bytes; \<open>outlen\<close> on entry is the size of the buffer.\<close>

type_synonym parsed = "(byte list \<times> nat) option option"

definition parse_string :: "cstr \<Rightarrow> byte list \<Rightarrow> parsed" where
  "parse_string inp output =
     (if length inp > length output then Some None
      else map_option (\<lambda>output. Some (output, length inp)) (arr_put output 0 inp))"

definition parse_hexdigit :: "byte \<Rightarrow> nat" where
  "parse_hexdigit c =
     (if 48 \<le> c \<and> c \<le> 57 then unat c - 48
      else if 97 \<le> c \<and> c \<le> 102 then 10 + (unat c - 97)
      else if 65 \<le> c \<and> c \<le> 70 then 10 + (unat c - 65)
      else 0xff)"

text \<open>
  The conversion \<open>%02hhx\<close> of \<open>sscanf\<close>: white space, then at most two characters: an optional sign
  and hexadecimal digits. A prefix \<open>0x\<close> leaves no room for a digit and is no match.
\<close>

fun scan_hex2 :: "cstr \<Rightarrow> (byte \<times> cstr) option" where
  "scan_hex2 [] = None"
| "scan_hex2 (c # s) =
     (if is_space c then scan_hex2 s
      else if c = 45 \<or> c = 43 then
        (case s of
           d # r \<Rightarrow> if is_xdigit d then
               Some (if c = 45 then - word_of_nat (parse_hexdigit d) else word_of_nat (parse_hexdigit d), r) else None
         | [] \<Rightarrow> None)
      else if is_xdigit c then
        (case s of
           d # r \<Rightarrow> if is_xdigit d then Some (word_of_nat (16 * parse_hexdigit c + parse_hexdigit d), r)
                    else if c = 48 \<and> (d = 120 \<or> d = 88) then None
                    else Some (word_of_nat (parse_hexdigit c), s)
         | [] \<Rightarrow> Some (word_of_nat (parse_hexdigit c), s))
      else None)"

text \<open>\<open>%hhd\<close>: the value of \<open>strtol\<close>, of which the low eight bits are stored.\<close>

fun scan_dec :: "cstr \<Rightarrow> (byte \<times> cstr) option" where
  "scan_dec [] = None"
| "scan_dec (c # s) =
     (if is_space c then scan_dec s
      else let digits = (if c = 45 \<or> c = 43 then s else c # s) in
        if takeWhile is_digit digits = [] then None
        else Some (word_of_int (max (- (2 ^ 63)) (min (2 ^ 63 - 1) (c_atoi (c # s)))), dropWhile is_digit digits))"

definition scan_char :: "byte \<Rightarrow> cstr \<Rightarrow> cstr option" where
  "scan_char c s = (case s of b # r \<Rightarrow> if b = c then Some r else None | [] \<Rightarrow> None)"

definition parse_mac :: "cstr \<Rightarrow> byte list \<Rightarrow> parsed" where
  "parse_mac inp output =
     (if length output < 6 then Some None
      else case
        do { (b0, s) \<leftarrow> scan_hex2 inp; s \<leftarrow> scan_char 58 s; (b1, s) \<leftarrow> scan_hex2 s; s \<leftarrow> scan_char 58 s;
             (b2, s) \<leftarrow> scan_hex2 s; s \<leftarrow> scan_char 58 s; (b3, s) \<leftarrow> scan_hex2 s; s \<leftarrow> scan_char 58 s;
             (b4, s) \<leftarrow> scan_hex2 s; s \<leftarrow> scan_char 58 s; (b5, s) \<leftarrow> scan_hex2 s;
             Some [b0, b1, b2, b3, b4, b5] } of
        None \<Rightarrow> Some None
      | Some bs \<Rightarrow> map_option (\<lambda>output. Some (output, 6)) (arr_put output 0 bs))"

definition parse_hmxswvers :: "cstr \<Rightarrow> byte list \<Rightarrow> parsed" where
  "parse_hmxswvers inp output =
     (if length output < 2 then Some None
      else case do { (b1, s) \<leftarrow> scan_dec inp; s \<leftarrow> scan_char 46 s; (b0, s) \<leftarrow> scan_dec s; Some [b0, b1] } of
        None \<Rightarrow> Some None
      | Some bs \<Rightarrow> map_option (\<lambda>output. Some (output, 2)) (arr_put output 0 bs))"

text \<open>A character of the input, the terminating NUL included.\<close>

definition char_at :: "cstr \<Rightarrow> nat \<Rightarrow> byte option" where
  "char_at s i = arr_get (s @ [0]) i"

definition parse_uint8 :: "cstr \<Rightarrow> byte list \<Rightarrow> parsed" where
  "parse_uint8 inp output =
     (if length output < 1 then Some None
      else do {
        c \<leftarrow> char_at inp 0;
        output \<leftarrow> arr_put output 0 [c - 48];
        Some (Some (output, 1)) })"

text \<open>The two digits are \<open>int\<close>s; the byte keeps the low eight bits.\<close>

definition hex_pair :: "byte \<Rightarrow> byte \<Rightarrow> byte" where
  "hex_pair c d = word_of_nat (push_bit 4 (parse_hexdigit c) OR parse_hexdigit d)"

fun parse_hexstring_loop :: "cstr \<Rightarrow> nat \<Rightarrow> nat \<Rightarrow> byte list \<Rightarrow> byte list option" where
  "parse_hexstring_loop inp i 0 output = Some output"
| "parse_hexstring_loop inp i (Suc n) output = do {
     c \<leftarrow> char_at inp (2 * i);
     d \<leftarrow> char_at inp (2 * i + 1);
     output \<leftarrow> arr_put output i [hex_pair c d];
     parse_hexstring_loop inp (i + 1) n output }"

definition parse_hexstring :: "cstr \<Rightarrow> byte list \<Rightarrow> parsed" where
  "parse_hexstring inp output =
     (let len = min (length output) (length inp div 2)
      in map_option (\<lambda>output. Some (output, len)) (parse_hexstring_loop inp 0 len output))"

fun is_hexstring :: "cstr \<Rightarrow> nat \<Rightarrow> bool" where
  "is_hexstring [] n = (n = 0)"
| "is_hexstring (c # s) 0 = False"
| "is_hexstring (c # s) (Suc n) = (is_xdigit c \<and> is_hexstring s n)"

definition parse_gpn :: "cstr \<Rightarrow> byte list \<Rightarrow> parsed" where
  "parse_gpn inp output =
     (if length output < 4 then Some None
      else if is_hexstring inp (GPN_HEX_BYTES * 2) then
        (case do { (b0, s) \<leftarrow> scan_hex2 inp; (b1, s) \<leftarrow> scan_hex2 s; (b2, s) \<leftarrow> scan_hex2 s; (b3, s) \<leftarrow> scan_hex2 s;
                   Some [b0, b1, b2, b3] } of
           None \<Rightarrow> Some None
         | Some bs \<Rightarrow> map_option (\<lambda>output. Some (output, GPN_HEX_BYTES)) (arr_put output 0 bs))
      else parse_string inp output)"

definition parse_nvram :: "hnvram_format \<Rightarrow> cstr \<Rightarrow> byte list \<Rightarrow> parsed" where
  "parse_nvram format inp output = do {
     output \<leftarrow> arr_put output 0 [0];
     (case format of
        HNVRAM_STRING \<Rightarrow> parse_string inp output
      | HNVRAM_MAC \<Rightarrow> parse_mac inp output
      | HNVRAM_HMXSWVERS \<Rightarrow> parse_hmxswvers inp output
      | HNVRAM_UINT8 \<Rightarrow> parse_uint8 inp output
      | HNVRAM_GPN \<Rightarrow> parse_gpn inp output
      | HNVRAM_HEXSTRING \<Rightarrow> parse_hexstring inp output) }"

definition clear_nvram :: "'s hmx \<Rightarrow> cstr \<Rightarrow> 's \<Rightarrow> drv_error \<times> 's" where
  "clear_nvram h optarg st =
     (let (err1, st) = HMX_NVRAM_Remove h PARTITION_RW optarg st;
          (err2, st) = HMX_NVRAM_Remove h PARTITION_RO optarg st
      in if (err1 = DRV_ERR \<or> err1 = DRV_OK) \<and> (err2 = DRV_ERR \<or> err2 = DRV_OK) then (DRV_OK, st) else (DRV_ERR, st))"

text \<open>\<open>write_nvram\<close>: \<open>Inl\<close> is an exit inside; \<open>Inr\<close> the result and the store.\<close>

definition write_nvram :: "'s hmx \<Rightarrow> cstr \<Rightarrow> cstr \<Rightarrow> hmx_partition \<Rightarrow> 's \<Rightarrow> (int + int \<times> 's) option" where
  "write_nvram h name val desired_part st =
     (let field = get_nvram_field name;
          format_type = (case field of Some f \<Rightarrow> fformat f | None \<Rightarrow> HNVRAM_STRING)
      in if length val > NVRAM_MAX_DATA then Some (Inr (-1, st))
         else do {
           p \<leftarrow> parse_nvram format_type val (replicate NVRAM_MAX_DATA 0);
           (case p of
              None \<Rightarrow> Some (Inr (-2, st))
            | Some (nvram_value, nvram_len) \<Rightarrow>
                (case field of
                   None \<Rightarrow> do {
                     r \<leftarrow> read_nvram h st name (replicate NVRAM_MAX_DATA 0) True PARTITION_UNSPECIFIED;
                     (case r of
                        Inl status \<Rightarrow> Some (Inl status)
                      | Inr (None, part_used) \<Rightarrow> Some (Inr (-3, st))
                      | Inr (Some tmp, part_used) \<Rightarrow>
                          if desired_part \<noteq> PARTITION_UNSPECIFIED \<and> desired_part \<noteq> part_used then Some (Inr (-4, st))
                          else (case HMX_NVRAM_Write h part_used name (take nvram_len nvram_value) st of (er, st) \<Rightarrow>
                                  Some (Inr (if er \<noteq> DRV_OK then -5 else 0, st)))) }
                 | Some f \<Rightarrow>
                     if desired_part \<noteq> PARTITION_UNSPECIFIED then Some (Inr (-6, st))
                     else (case HMX_NVRAM_SetField h (nvram_type f) (take nvram_len nvram_value) st of (er, st) \<Rightarrow>
                             Some (Inr (if er \<noteq> DRV_OK then -7 else 0, st))))) })"

definition write_nvram_new :: "'s hmx \<Rightarrow> bool \<Rightarrow> cstr \<Rightarrow> cstr \<Rightarrow> hmx_partition \<Rightarrow> 's \<Rightarrow> (int \<times> 's) option" where
  "write_nvram_new h can_add name val desired_part st =
     (if \<not> can_add then Some (-1, st)
      else do {
        p \<leftarrow> parse_nvram HNVRAM_STRING val (replicate NVRAM_MAX_DATA 0);
        (case p of
           None \<Rightarrow> Some (-2, st)
         | Some (nvram_value, nvram_len) \<Rightarrow>
             (let part = (if desired_part = PARTITION_UNSPECIFIED then PARTITION_RW else desired_part)
              in case HMX_NVRAM_Write h part name (take nvram_len nvram_value) st of (er, st) \<Rightarrow>
                   Some (if er \<noteq> DRV_OK then -3 else 0, st))) })"

definition init_nvram :: "'s hmx \<Rightarrow> cstr option \<Rightarrow> 's \<Rightarrow> int \<times> 's" where
  "init_nvram h location st = HMX_NVRAM_Init h location st"

section \<open>The command line\<close>

record 's hnvram_state =
  op :: "char option"
  op_cnt :: nat
  q_flag :: bool
  b_flag :: bool
  can_add_flag :: bool
  desired_part :: hmx_partition
  store :: 's
  stdout :: "byte list"

definition hnvram_options :: opt_table where
  "hnvram_options = [(CHR ''d'', False), (CHR ''b'', False), (CHR ''q'', False), (CHR ''r'', False), (CHR ''n'', False),
     (CHR ''p'', True), (CHR ''w'', True), (CHR ''k'', True)]"

text \<open>Option \<open>-w\<close>: \<open>Inl\<close> is the status of an exit (or of \<open>return -1\<close>) with the store at that point.\<close>

definition write_option :: "'s hmx \<Rightarrow> cstr \<Rightarrow> 's hnvram_state \<Rightarrow> (int \<times> 's hnvram_state + 's hnvram_state) option" where
  "write_option h optarg s =
     (if 61 \<notin> set optarg then Some (Inl (-1, s))
      else let name = takeWhile (\<lambda>c. c \<noteq> 61) optarg; val = drop (length name + 1) optarg in do {
        r \<leftarrow> write_nvram h name val (desired_part s) (store s);
        (case r of
           Inl status \<Rightarrow> Some (Inl (status, s))
         | Inr (ret, st) \<Rightarrow> do {
             (ret, st) \<leftarrow> (if ret = -3 then write_nvram_new h (can_add_flag s) name val (desired_part s) st else Some (ret, st));
             let s = s\<lparr>store := st\<rparr>;
             Some (if ret \<noteq> 0 then Inl (1, s) else Inr s) }) })"

fun hnvram_opts ::
  "'s hmx \<Rightarrow> short_opt list \<Rightarrow> 's hnvram_state \<Rightarrow> (int \<times> 's hnvram_state + 's hnvram_state) option" where
  "hnvram_opts h [] s = Some (Inr s)"
| "hnvram_opts h (Bad_Short # os) s = Some (Inl (1, s))"
| "hnvram_opts h (Short c optarg # os) s =
     (if c = CHR ''b'' then hnvram_opts h os (s\<lparr>b_flag := True\<rparr>)
      else if c = CHR ''q'' then hnvram_opts h os (s\<lparr>q_flag := True\<rparr>)
      else if c = CHR ''n'' then hnvram_opts h os (s\<lparr>can_add_flag := True\<rparr>)
      else if c = CHR ''p'' then
        (if optarg = lit ''RO'' then hnvram_opts h os (s\<lparr>desired_part := PARTITION_RO\<rparr>)
         else if optarg = lit ''RW'' then hnvram_opts h os (s\<lparr>desired_part := PARTITION_RW\<rparr>)
         else Some (Inl (1, s)))
      else if c = CHR ''w'' then
        (case write_option h optarg s of
           None \<Rightarrow> None
         | Some (Inl e) \<Rightarrow> Some (Inl e)
         | Some (Inr s) \<Rightarrow> hnvram_opts h os s)
      else if c = CHR ''k'' then
        (case clear_nvram h optarg (store s) of (e, st) \<Rightarrow>
           let s = s\<lparr>store := st\<rparr> in if e \<noteq> DRV_OK then Some (Inl (1, s)) else hnvram_opts h os s)
      else if c = CHR ''r'' \<or> c = CHR ''d'' then
        hnvram_opts h os (s\<lparr>op_cnt := (if op s \<noteq> Some c then op_cnt s + 1 else op_cnt s), op := Some c\<rparr>)
      else Some (Inl (1, s)))"

fun read_operands :: "'s hmx \<Rightarrow> cstr list \<Rightarrow> byte list \<Rightarrow> 's hnvram_state \<Rightarrow> (int \<times> 's hnvram_state) option" where
  "read_operands h [] output s = Some (0, s)"
| "read_operands h (name # names) output s =
     (if b_flag s then
        (case read_raw_nvram h (store s) name output of (len, output) \<Rightarrow>
           if len < 0 then Some (1, s)
           else do {
             bs \<leftarrow> arr_slice output 0 (nat len);
             read_operands h names output (s\<lparr>stdout := stdout s @ bs\<rparr>) })
      else do {
        r \<leftarrow> read_nvram h (store s) name output (q_flag s) PARTITION_UNSPECIFIED;
        (case r of
           Inl status \<Rightarrow> Some (status, s)
         | Inr (None, _) \<Rightarrow> Some (1, s)
         | Inr (Some output, _) \<Rightarrow> do {
             t \<leftarrow> str_at output;
             read_operands h names output (s\<lparr>stdout := stdout s @ t @ [10]\<rparr>) }) })"

text \<open>The exit status and the state at that point; \<open>location\<close> is the environment variable.\<close>

definition hnvram_main :: "'s hmx \<Rightarrow> cstr option \<Rightarrow> 's \<Rightarrow> cstr list \<Rightarrow> (int \<times> 's hnvram_state) option" where
  "hnvram_main h location st args =
     (let (ret, st) = init_nvram h location st;
          s = \<lparr>op = None, op_cnt = 0, q_flag = False, b_flag = False, can_add_flag = False,
               desired_part = PARTITION_UNSPECIFIED, store = st, stdout = []\<rparr>;
          (os, operands) = getopt hnvram_options args
      in if ret \<noteq> 0 then Some (1, s)
         else do {
           r \<leftarrow> hnvram_opts h os s;
           (case r of
              Inl e \<Rightarrow> Some e
            | Inr s \<Rightarrow>
                if op_cnt s > 1 then Some (1, s)
                else if op s = Some (CHR ''d'') then
                  (if operands \<noteq> [] then Some (1, s)
                   else Some (0, s\<lparr>stdout := stdout s @ snd (HMX_NVRAM_Dir h (store s))\<rparr>))
                else if op s = Some (CHR ''r'') then
                  (if operands = [] then Some (1, s) else read_operands h operands (replicate NVRAM_MAX_DATA 0) s)
                else Some (0, s)) })"

section \<open>Printing and parsing agree\<close>

lemma cstr_of_terminated: "nul_free s \<Longrightarrow> cstr_of (s @ 0 # r) = s"
  by (rule cstr_of_nul_free)

lemma snprintf_at_start:
  assumes "length s < length buf"
  shows "snprintf_at buf 0 (length buf) s = Some (s @ 0 # drop (length s + 1) buf)"
  using assms by (auto simp: snprintf_at_def arr_put_def)

lemma hex_digit_facts:
  assumes "n < 16"
  shows "parse_hexdigit (hex_digit n) = n" "is_xdigit (hex_digit n)" "\<not> is_space (hex_digit n)"
    "hex_digit n \<noteq> 45" "hex_digit n \<noteq> 43" "hex_digit n \<noteq> 0"
proof -
  have "n \<in> {0..<16}" using assms by simp
  then have "n \<in> set [0..<16]" by simp
  moreover have "\<forall>n \<in> set [0..<16]. parse_hexdigit (hex_digit n) = n \<and> is_xdigit (hex_digit n) \<and> \<not> is_space (hex_digit n) \<and>
      hex_digit n \<noteq> 45 \<and> hex_digit n \<noteq> 43 \<and> hex_digit n \<noteq> 0"
    by (simp add: upt_rec hex_digit_def parse_hexdigit_def is_xdigit_def is_digit_def is_space_def)
  ultimately show "parse_hexdigit (hex_digit n) = n" "is_xdigit (hex_digit n)" "\<not> is_space (hex_digit n)"
    "hex_digit n \<noteq> 45" "hex_digit n \<noteq> 43" "hex_digit n \<noteq> 0"
    by blast+
qed

lemma hex2_digits: "hex2 b = [hex_digit (unat b div 16), hex_digit (unat b mod 16)]"
proof -
  have "unat b < 256" using unsigned_less [of b, where 'a = nat] by simp
  then have "unat b div 16 mod 16 = unat b div 16" by simp
  then show ?thesis by (simp add: hex2_def numeral_2_eq_2)
qed

lemma hex2_nibbles: "unat (b :: byte) div 16 < 16" "unat b mod 16 < 16"
  "word_of_nat (16 * (unat b div 16) + unat b mod 16) = b"
proof -
  show "unat b div 16 < 16" using unsigned_less [of b, where 'a = nat] by simp
  have "16 * (unat b div 16) + unat b mod 16 = unat b" by simp
  moreover have "word_of_nat (unat b) = b" by simp
  ultimately show "word_of_nat (16 * (unat b div 16) + unat b mod 16) = b" by metis
qed simp

lemma nul_free_hex2 [simp]: "nul_free (hex2 b)"
  by (simp add: hex2_digits hex_digit_facts(6) hex2_nibbles)

lemma length_hex2 [simp]: "length (hex2 b) = 2"
  by (simp add: hex2_digits)

lemma scan_hex2_hex2: "scan_hex2 (hex2 b @ r) = Some (b, r)"
  using hex_digit_facts [OF hex2_nibbles(1) [of b]] hex_digit_facts [OF hex2_nibbles(2) [of b]] hex2_nibbles(3) [of b]
  by (simp add: hex2_digits del: of_nat_add of_nat_mult)

lemma hex_pair_hex2: "hex2 b = [c, d] \<Longrightarrow> hex_pair c d = b"
proof -
  assume "hex2 b = [c, d]"
  then have cd: "c = hex_digit (unat b div 16)" "d = hex_digit (unat b mod 16)" by (simp_all add: hex2_digits)
  have lo: "bit (unat b mod 16) n \<Longrightarrow> n < 4" for n
    using bit_take_bit_iff [of 4 "unat b" n] by (simp add: take_bit_eq_mod)
  have "push_bit 4 (unat b div 16) OR unat b mod 16 = push_bit 4 (unat b div 16) + unat b mod 16"
    by (subst disjunctive_add) (auto simp: bit_push_bit_iff dest: lo)
  also have "\<dots> = 16 * (unat b div 16) + unat b mod 16" by (simp add: push_bit_eq_mult)
  finally show ?thesis
    unfolding hex_pair_def cd
    by (simp only: hex_digit_facts(1) [OF hex2_nibbles(1)] hex_digit_facts(1) [OF hex2_nibbles(2)] hex2_nibbles(3))
qed

lemma nul_free_hex [simp]: "nul_free (concat (map hex2 d))"
  by (induction d) auto

lemma length_hex [simp]: "length (concat (map hex2 d)) = 2 * length d"
  by (induction d) auto

lemma hexstring_loop_text:
  "length pre = 2 * i \<Longrightarrow> i + n \<le> length data \<Longrightarrow> 2 * n \<le> length rest \<Longrightarrow>
     hexstring_loop data i n (pre @ 0 # rest) =
       Some (pre @ concat (map hex2 (take n (drop i data))) @ 0 # drop (2 * n) rest)"
proof (induction n arbitrary: i pre rest)
  case (Suc n)
  then have i: "i < length data" by simp
  have "snprintf_at (pre @ 0 # rest) (i * 2) 3 (hex2 (data ! i)) = Some ((pre @ hex2 (data ! i)) @ 0 # drop 2 rest)"
    using Suc.prems by (simp add: snprintf_at_def arr_put_def mult.commute)
  moreover have "drop i data = data ! i # drop (Suc i) data" using i by (simp add: Cons_nth_drop_Suc)
  ultimately show ?case
    using Suc.IH [of "pre @ hex2 (data ! i)" "i + 1" "drop 2 rest"] Suc.prems i by (simp add: arr_get_def add.commute)
qed simp

lemma char_at_hex:
  assumes "i < length d"
  shows "char_at (concat (map hex2 d)) (2 * i) = Some (hex_digit (unat (d ! i) div 16))"
    "char_at (concat (map hex2 d)) (2 * i + 1) = Some (hex_digit (unat (d ! i) mod 16))"
proof -
  have "concat (map hex2 d) = concat (map hex2 (take i d)) @ hex2 (d ! i) @ concat (map hex2 (drop (Suc i) d))"
    using assms by (metis concat_append id_take_nth_drop list.simps(9) map_append concat.simps(2))
  then have "concat (map hex2 d) ! (2 * i) = hex_digit (unat (d ! i) div 16)"
    "concat (map hex2 d) ! (2 * i + 1) = hex_digit (unat (d ! i) mod 16)"
    using assms by (simp_all add: nth_append hex2_digits)
  then show "char_at (concat (map hex2 d)) (2 * i) = Some (hex_digit (unat (d ! i) div 16))"
    "char_at (concat (map hex2 d)) (2 * i + 1) = Some (hex_digit (unat (d ! i) mod 16))"
    using assms by (simp_all add: char_at_def arr_get_def nth_append)
qed

lemma parse_hexstring_loop_text:
  "length pre = i \<Longrightarrow> i + n \<le> length d \<Longrightarrow> n \<le> length rest \<Longrightarrow>
     parse_hexstring_loop (concat (map hex2 d)) i n (pre @ rest) = Some (pre @ take n (drop i d) @ drop n rest)"
proof (induction n arbitrary: i pre rest)
  case (Suc n)
  then have i: "i < length d" by simp
  have "hex_pair (hex_digit (unat (d ! i) div 16)) (hex_digit (unat (d ! i) mod 16)) = d ! i"
    by (rule hex_pair_hex2) (rule hex2_digits)
  moreover have "arr_put (pre @ rest) i [d ! i] = Some ((pre @ [d ! i]) @ drop 1 rest)"
    using Suc.prems by (simp add: arr_put_def)
  moreover have "drop i d = d ! i # drop (Suc i) d" using i by (simp add: Cons_nth_drop_Suc)
  ultimately show ?case
    using Suc.IH [of "pre @ [d ! i]" "i + 1" "drop 1 rest"] Suc.prems i char_at_hex [OF i] by simp
qed simp

text \<open>Stored bytes that a format represents, and their text.\<close>

fun nv_wf :: "hnvram_format \<Rightarrow> byte list \<Rightarrow> bool" where
  "nv_wf HNVRAM_STRING d = nul_free d"
| "nv_wf HNVRAM_MAC d = (length d = 6)"
| "nv_wf HNVRAM_HMXSWVERS d = (length d = 2)"
| "nv_wf HNVRAM_UINT8 d = (length d = 1 \<and> unat (hd d) < 10)"
| "nv_wf HNVRAM_GPN d = (length d = 4 \<or> nul_free d \<and> \<not> is_hexstring d 8)"
| "nv_wf HNVRAM_HEXSTRING d = True"

fun nv_text :: "hnvram_format \<Rightarrow> byte list \<Rightarrow> cstr" where
  "nv_text HNVRAM_STRING d = d"
| "nv_text HNVRAM_MAC d =
     hex2 (d ! 0) @ colon @ hex2 (d ! 1) @ colon @ hex2 (d ! 2) @ colon @
     hex2 (d ! 3) @ colon @ hex2 (d ! 4) @ colon @ hex2 (d ! 5)"
| "nv_text HNVRAM_HMXSWVERS d = dec_nat (unat (d ! 1)) @ lit ''.'' @ dec_nat (unat (d ! 0))"
| "nv_text HNVRAM_UINT8 d = dec_nat (unat (hd d))"
| "nv_text HNVRAM_GPN d = (if length d = 4 then concat (map hex2 d) else d)"
| "nv_text HNVRAM_HEXSTRING d = concat (map hex2 d)"

lemma nul_free_nv_text: "nv_wf fmt d \<Longrightarrow> nul_free (nv_text fmt d)"
  by (cases fmt) (auto simp: colon_def lit_def dec_nat_nul_free)

lemma length_dec_byte: "length (dec_nat (unat (b :: byte))) \<le> 3"
  using unsigned_less [of b, where 'a = nat] by (intro length_dec_nat_bound) simp_all

lemma length_nv_text: "nv_wf fmt d \<Longrightarrow> length (nv_text fmt d) \<le> max 17 (2 * length d)"
  using length_dec_byte [of "d ! 0"] length_dec_byte [of "d ! 1"] length_dec_byte [of "hd d"]
  by (cases fmt) (auto simp: colon_def lit_def max_def)

lemma format_string_text:
  "nul_free d \<Longrightarrow> length d < length output \<Longrightarrow>
     format_string (d @ 0 # z) output = Some (d @ 0 # drop (length d + 1) output)"
  by (simp add: format_string_def str_at_def cstr_of_nul_free snprintf_at_start)

lemma format_hexstring_text:
  assumes "2 * length d < length output" "output ! 0 = 0"
  shows "format_hexstring (d @ z) (int (length d)) output = Some (Inr (concat (map hex2 d) @ 0 # drop (2 * length d + 1) output))"
proof -
  obtain r where r: "output = 0 # r" by (rule list.exhaust [of "output"]) (use assms in auto)
  then show ?thesis
    using hexstring_loop_text [of "[]" 0 "length d" "d @ z" r] assms by (simp add: format_hexstring_def)
qed

lemma six_bytes: "length d = 6 \<Longrightarrow> d = [d ! 0, d ! 1, d ! 2, d ! 3, d ! 4, d ! 5]"
  by (auto simp: numeral_eq_Suc length_Suc_conv)

lemma two_bytes: "length d = 2 \<Longrightarrow> d = [d ! 0, d ! 1]"
  by (auto simp: numeral_eq_Suc length_Suc_conv)

lemma four_bytes: "length d = 4 \<Longrightarrow> d = [d ! 0, d ! 1, d ! 2, d ! 3]"
  by (auto simp: numeral_eq_Suc length_Suc_conv)

lemma format_nvram_text:
  assumes wf: "nv_wf fmt d" and len: "max 17 (2 * length d) < length output"
  shows "\<exists>r. format_nvram fmt (d @ 0 # z) (int (length d)) output = Some (Inr (nv_text fmt d @ 0 # r))"
proof -
  define output' where "output' = 0 # drop 1 output"
  have o': "length output' = length output" "output' ! 0 = 0" using len by (auto simp: output'_def)
  have put: "arr_put output 0 [0] = Some output'" using len by (auto simp: arr_put_def output'_def)
  have l: "length (nv_text fmt d) < length output'" using length_nv_text [OF wf] len o'(1) by linarith
  note s = snprintf_at_start [OF l]
  have str: "\<exists>r. format_string (d @ 0 # z) output' = Some (d @ 0 # r)" if "nul_free d"
    using format_string_text [OF that, of output' z] len o'(1) by auto
  have hex: "\<exists>r. format_hexstring (d @ 0 # z) (int (length d)) output' = Some (Inr (concat (map hex2 d) @ 0 # r))"
    using format_hexstring_text [of d output' "0 # z"] len o' by auto
  show ?thesis
  proof (cases fmt)
    case HNVRAM_STRING
    with str wf put show ?thesis by (auto simp: format_nvram_def)
  next
    case HNVRAM_MAC
    with wf have "take 6 (d @ 0 # z) = d" by simp
    with HNVRAM_MAC wf put s show ?thesis by (simp add: format_nvram_def format_mac_def arr_slice_def)
  next
    case HNVRAM_HMXSWVERS
    with wf have "take 2 (d @ 0 # z) = d" by simp
    with HNVRAM_HMXSWVERS wf put s show ?thesis by (simp add: format_nvram_def format_hmxswvers_def arr_slice_def)
  next
    case HNVRAM_UINT8
    with wf have "(d @ 0 # z) ! 0 = hd d" by (cases d) auto
    with HNVRAM_UINT8 wf put s show ?thesis by (simp add: format_nvram_def format_uint8_def arr_get_def)
  next
    case HNVRAM_GPN
    with wf str hex put show ?thesis by (auto simp: format_nvram_def format_gpn_def GPN_HEX_BYTES_def)
  next
    case HNVRAM_HEXSTRING
    with hex put show ?thesis by (simp add: format_nvram_def)
  qed
qed

lemma scan_dec_nat:
  assumes "\<not> is_digit c" "n < 256"
  shows "scan_dec (dec_nat n @ c # r) = Some (word_of_nat n, c # r)"
proof -
  obtain b bs where d: "dec_nat n = b # bs" using dec_nat_nonempty [of n] by (cases "dec_nat n") auto
  have dig: "list_all is_digit (b # bs)" using dec_nat_digits [of n] by (simp add: d)
  then have "takeWhile is_digit (b # bs @ c # r) = b # bs" "dropWhile is_digit (b # bs @ c # r) = c # r"
    using assms(1) by (auto simp: takeWhile_append dropWhile_append list_all_iff)
  moreover have "c_atoi (b # bs @ c # r) = int n" using c_atoi_digits [OF assms(1), of n r] by (simp add: d)
  ultimately show ?thesis
    using dig is_digit_not [of b] assms(2) by (simp add: d Let_def)
qed

lemma scan_dec_nat_end: "n < 256 \<Longrightarrow> scan_dec (dec_nat n) = Some (word_of_nat n, [])"
proof -
  assume n: "n < 256"
  obtain b bs where d: "dec_nat n = b # bs" using dec_nat_nonempty [of n] by (cases "dec_nat n") auto
  have dig: "list_all is_digit (b # bs)" using dec_nat_digits [of n] by (simp add: d)
  then have "takeWhile is_digit (b # bs) = b # bs" "dropWhile is_digit (b # bs) = []"
    by (auto simp: list_all_iff takeWhile_eq_all_conv)
  moreover have "c_atoi (b # bs) = int n"
    using dig is_digit_not [of b] dec_value_dec_nat [of n] by (simp add: d c_atoi_def)
  ultimately show ?thesis using dig is_digit_not [of b] n by (simp add: d Let_def)
qed

lemma is_hexstring_hex: "is_hexstring (concat (map hex2 d)) (2 * length d)"
  by (induction d) (auto simp: hex2_digits hex_digit_facts(2) hex2_nibbles)

lemma parse_nvram_text:
  assumes wf: "nv_wf fmt d" and len: "length d \<le> length output" "6 \<le> length output"
  shows "parse_nvram fmt (nv_text fmt d) output = Some (Some (d @ drop (length d) (0 # drop 1 output), length d))"
proof -
  define output' where "output' = 0 # drop 1 output"
  have o': "length output' = length output" using len by (auto simp: output'_def)
  have put: "arr_put output 0 [0] = Some output'" using len by (auto simp: arr_put_def output'_def)
  have store: "arr_put output' 0 d = Some (d @ drop (length d) output')" using len o' by (simp add: arr_put_def)
  have str: "parse_string d output' = Some (Some (d @ drop (length d) output', length d))"
    using len store o' by (simp add: parse_string_def)
  show ?thesis unfolding output'_def [symmetric]
  proof (cases fmt)
    case HNVRAM_STRING
    with str put show "parse_nvram fmt (nv_text fmt d) output = Some (Some (d @ drop (length d) output', length d))"
      by (simp add: parse_nvram_def)
  next
    case HNVRAM_MAC
    have d: "[d ! 0, d ! Suc 0, d ! 2, d ! 3, d ! 4, d ! 5] = d" using HNVRAM_MAC wf six_bytes [of d] by simp
    have e: "scan_hex2 (hex2 (d ! 5)) = Some (d ! 5, [])" using scan_hex2_hex2 [of "d ! 5" "[]"] by simp
    have "parse_mac (nv_text HNVRAM_MAC d) output' = Some (Some (d @ drop (length d) output', length d))"
      using len o' store HNVRAM_MAC wf
      by (simp add: parse_mac_def scan_hex2_hex2 scan_char_def colon_def lit_def e d)
    with HNVRAM_MAC put show "parse_nvram fmt (nv_text fmt d) output = Some (Some (d @ drop (length d) output', length d))"
      by (simp add: parse_nvram_def)
  next
    case HNVRAM_HMXSWVERS
    have d: "[d ! 0, d ! Suc 0] = d" using HNVRAM_HMXSWVERS wf two_bytes [of d] by simp
    have lt: "unat (b :: byte) < 256" for b using unsigned_less [of b, where 'a = nat] by simp
    have "scan_dec (dec_nat (unat (d ! 1)) @ 46 # dec_nat (unat (d ! 0))) = Some (d ! 1, 46 # dec_nat (unat (d ! 0)))"
      using scan_dec_nat [OF _ lt] by (simp add: is_digit_def)
    then have "parse_hmxswvers (nv_text HNVRAM_HMXSWVERS d) output' = Some (Some (d @ drop (length d) output', length d))"
      using len o' store HNVRAM_HMXSWVERS wf scan_dec_nat_end [OF lt [of "d ! 0"]]
      by (simp add: parse_hmxswvers_def scan_char_def lit_def d)
    with HNVRAM_HMXSWVERS put show "parse_nvram fmt (nv_text fmt d) output = Some (Some (d @ drop (length d) output', length d))"
      by (simp add: parse_nvram_def)
  next
    case HNVRAM_UINT8
    with wf obtain b where b: "d = [b]" "unat b < 10" by (cases d) auto
    have "dec_nat (unat b) = [word_of_nat (48 + unat b)]" using b(2) by (subst dec_nat.simps) simp
    then have "parse_uint8 (nv_text HNVRAM_UINT8 d) output' = Some (Some (d @ drop (length d) output', length d))"
      using len o' store b by (auto simp: parse_uint8_def char_at_def arr_get_def)
    with HNVRAM_UINT8 put show "parse_nvram fmt (nv_text fmt d) output = Some (Some (d @ drop (length d) output', length d))"
      by (simp add: parse_nvram_def)
  next
    case HNVRAM_GPN
    have "parse_gpn (nv_text HNVRAM_GPN d) output' = Some (Some (d @ drop (length d) output', length d))"
    proof (cases "length d = 4")
      case True
      then have d: "[d ! 0, d ! Suc 0, d ! 2, d ! 3] = d" using four_bytes [of d] by simp
      have h: "is_hexstring (concat (map hex2 d)) 8" using is_hexstring_hex [of d] True by simp
      have c: "concat (map hex2 d) = hex2 (d ! 0) @ hex2 (d ! 1) @ hex2 (d ! 2) @ hex2 (d ! 3)"
        by (subst d [symmetric]) simp
      have e: "scan_hex2 (hex2 (d ! 3)) = Some (d ! 3, [])" using scan_hex2_hex2 [of "d ! 3" "[]"] by simp
      show ?thesis
        using len o' store True h
        by (simp add: parse_gpn_def GPN_HEX_BYTES_def c scan_hex2_hex2 e d)
    next
      case False
      with HNVRAM_GPN wf str len o' show ?thesis by (simp add: parse_gpn_def GPN_HEX_BYTES_def)
    qed
    with HNVRAM_GPN put show "parse_nvram fmt (nv_text fmt d) output = Some (Some (d @ drop (length d) output', length d))"
      by (simp add: parse_nvram_def)
  next
    case HNVRAM_HEXSTRING
    have "parse_hexstring (concat (map hex2 d)) output' = Some (Some (d @ drop (length d) output', length d))"
      using len o' parse_hexstring_loop_text [of "[]" 0 "length d" d output']
      by (simp add: parse_hexstring_def Let_def)
    with HNVRAM_HEXSTRING put show "parse_nvram fmt (nv_text fmt d) output = Some (Some (d @ drop (length d) output', length d))"
      by (simp add: parse_nvram_def)
  qed
qed

section \<open>The store behind the driver\<close>

text \<open>
  What the tool relies on: the driver keeps byte strings for the fields (\<open>fv\<close>) and for the variables
  of the two partitions (\<open>vv\<close>). A read gives the bytes and their number, or fails and leaves the
  buffer alone; a write that reports success has stored the bytes under its key and left the other
  variables alone. Nothing is assumed of a write that fails.
\<close>

definition hmx_ok ::
  "'s hmx \<Rightarrow> (NVRAM_FIELD_T \<Rightarrow> 's \<Rightarrow> byte list option) \<Rightarrow> (hmx_partition \<Rightarrow> cstr \<Rightarrow> 's \<Rightarrow> byte list option) \<Rightarrow> bool" where
  "hmx_ok h fv vv \<longleftrightarrow>
     (\<forall>t st. case fv t st of
        Some bs \<Rightarrow> HMX_NVRAM_GetField h t st = (DRV_OK, bs) \<and> HMX_NVRAM_GetLength h t st = (DRV_OK, length bs)
      | None \<Rightarrow> fst (HMX_NVRAM_GetField h t st) \<noteq> DRV_OK) \<and>
     (\<forall>p n st. case vv p n st of
        Some bs \<Rightarrow> HMX_NVRAM_Read h p n st = (DRV_OK, bs, length bs)
      | None \<Rightarrow> fst (HMX_NVRAM_Read h p n st) \<noteq> DRV_OK \<and> fst (snd (HMX_NVRAM_Read h p n st)) = []) \<and>
     (\<forall>t bs st st'. HMX_NVRAM_SetField h t bs st = (DRV_OK, st') \<longrightarrow>
        fv t st' = Some bs \<and> (\<forall>p n. vv p n st' = vv p n st)) \<and>
     (\<forall>p n bs st st'. HMX_NVRAM_Write h p n bs st = (DRV_OK, st') \<longrightarrow>
        (\<forall>q k. vv q k st' = (if q = p \<and> k = n then Some bs else vv q k st)))"

text \<open>The value a name stands for: a field, or a variable of the first partition that has it.\<close>

definition stored ::
  "(NVRAM_FIELD_T \<Rightarrow> 's \<Rightarrow> byte list option) \<Rightarrow> (hmx_partition \<Rightarrow> cstr \<Rightarrow> 's \<Rightarrow> byte list option) \<Rightarrow>
   's \<Rightarrow> cstr \<Rightarrow> byte list option" where
  "stored fv vv st name =
     (case get_nvram_field name of
        Some f \<Rightarrow> fv (nvram_type f) st
      | None \<Rightarrow> (case vv PARTITION_RW name st of Some bs \<Rightarrow> Some bs | None \<Rightarrow> vv PARTITION_RO name st))"

definition format_of :: "cstr \<Rightarrow> hnvram_format" where
  "format_of name = (case get_nvram_field name of Some f \<Rightarrow> fformat f | None \<Rightarrow> HNVRAM_STRING)"

lemma hmx_ok_read:
  assumes "hmx_ok h fv vv"
  shows "fv t st = Some bs \<Longrightarrow> HMX_NVRAM_GetField h t st = (DRV_OK, bs) \<and> HMX_NVRAM_GetLength h t st = (DRV_OK, length bs)"
    "fv t st = None \<Longrightarrow> fst (HMX_NVRAM_GetField h t st) \<noteq> DRV_OK"
    "vv p n st = Some bs \<Longrightarrow> HMX_NVRAM_Read h p n st = (DRV_OK, bs, length bs)"
    "vv p n st = None \<Longrightarrow> fst (HMX_NVRAM_Read h p n st) \<noteq> DRV_OK \<and> fst (snd (HMX_NVRAM_Read h p n st)) = []"
proof -
  have a: "case fv t st of
        Some bs \<Rightarrow> HMX_NVRAM_GetField h t st = (DRV_OK, bs) \<and> HMX_NVRAM_GetLength h t st = (DRV_OK, length bs)
      | None \<Rightarrow> fst (HMX_NVRAM_GetField h t st) \<noteq> DRV_OK"
    and b: "case vv p n st of
        Some bs \<Rightarrow> HMX_NVRAM_Read h p n st = (DRV_OK, bs, length bs)
      | None \<Rightarrow> fst (HMX_NVRAM_Read h p n st) \<noteq> DRV_OK \<and> fst (snd (HMX_NVRAM_Read h p n st)) = []"
    using assms unfolding hmx_ok_def by blast+
  show "fv t st = Some bs \<Longrightarrow> HMX_NVRAM_GetField h t st = (DRV_OK, bs) \<and> HMX_NVRAM_GetLength h t st = (DRV_OK, length bs)"
    "fv t st = None \<Longrightarrow> fst (HMX_NVRAM_GetField h t st) \<noteq> DRV_OK" using a by simp_all
  show "vv p n st = Some bs \<Longrightarrow> HMX_NVRAM_Read h p n st = (DRV_OK, bs, length bs)"
    "vv p n st = None \<Longrightarrow> fst (HMX_NVRAM_Read h p n st) \<noteq> DRV_OK \<and> fst (snd (HMX_NVRAM_Read h p n st)) = []"
    using b by simp_all
qed

lemma hmx_ok_write:
  assumes "hmx_ok h fv vv"
  shows "HMX_NVRAM_SetField h t bs st = (DRV_OK, st') \<Longrightarrow> fv t st' = Some bs \<and> (\<forall>p n. vv p n st' = vv p n st)"
    "HMX_NVRAM_Write h p n bs st = (DRV_OK, st') \<Longrightarrow> vv q k st' = (if q = p \<and> k = n then Some bs else vv q k st)"
  using assms unfolding hmx_ok_def by blast+

lemma fill_nil [simp]: "fill buf [] = buf"
  by (simp add: fill_def)

lemma fetch_stored:
  assumes "hmx_ok h fv vv"
  shows "\<exists>p. fetch_nvram h st name part =
    (map_option (\<lambda>d. (format_of name, fill (replicate NVRAM_MAX_DATA 0) d, length d)) (stored fv vv st name), p) \<and>
    (get_nvram_field name = None \<longrightarrow> p = (if vv PARTITION_RW name st = None then PARTITION_RO else PARTITION_RW))"
proof (cases "get_nvram_field name")
  case (Some f)
  then show ?thesis
    using hmx_ok_read(1,2) [OF assms, of "nvram_type f" st]
    by (cases "fv (nvram_type f) st") (auto simp: fetch_nvram_def stored_def format_of_def Let_def case_prod_beta)
next
  case None
  note r = hmx_ok_read(3,4) [OF assms]
  show ?thesis
  proof (cases "vv PARTITION_RW name st")
    case rw: None
    then show ?thesis
      using None r(2) [OF rw] r(1) [of PARTITION_RO name st] r(2) [of PARTITION_RO name st]
      by (cases "vv PARTITION_RO name st") (auto simp: fetch_nvram_def stored_def format_of_def Let_def case_prod_beta)
  next
    case rw: (Some d)
    then show ?thesis using None r(1) [OF rw] by (simp add: fetch_nvram_def stored_def format_of_def)
  qed
qed

lemma read_stored:
  assumes "hmx_ok h fv vv" "stored fv vv st name = Some d" "nv_wf (format_of name) d" "length d < NVRAM_MAX_DATA"
    and "length (nv_text (format_of name) d) < length output"
  shows "\<exists>r p. read_nvram h st name output True part = Some (Inr (Some (nv_text (format_of name) d @ 0 # r), p))"
proof -
  let ?t = "nv_text (format_of name) d"
  obtain p where f: "fetch_nvram h st name part = (Some (format_of name, fill (replicate NVRAM_MAX_DATA 0) d, length d), p)"
    using fetch_stored [OF assms(1), of st name part] assms(2) by auto
  have z: "fill (replicate NVRAM_MAX_DATA 0) d = d @ 0 # replicate (NVRAM_MAX_DATA - length d - 1) 0"
    using assms(4) by (cases "NVRAM_MAX_DATA - length d") (simp_all add: fill_def)
  have "wrap_int (int (length d)) = int (length d)" using assms(4) by (intro wrap_int_id) (simp_all add: NVRAM_MAX_DATA_def)
  moreover obtain r where "format_nvram (format_of name) (d @ 0 # replicate (NVRAM_MAX_DATA - length d - 1) 0) (int (length d))
      (replicate (NVRAM_MAX_DATA * 2) 0) = Some (Inr (?t @ 0 # r))"
    using format_nvram_text [OF assms(3), of "replicate (NVRAM_MAX_DATA * 2) 0"] assms(4)
    by (auto simp: NVRAM_MAX_DATA_def)
  moreover have "str_at (?t @ 0 # r) = Some ?t" for r
    using nul_free_nv_text [OF assms(3)] by (simp add: str_at_def cstr_of_nul_free)
  ultimately show ?thesis
    using snprintf_at_start [OF assms(5)] by (simp add: read_nvram_def f z)
qed

lemma read_nvram_nothing:
  assumes "hmx_ok h fv vv" "stored fv vv st name = None"
  shows "\<exists>p. read_nvram h st name output q part = Some (Inr (None, p))"
  using fetch_stored [OF assms(1), of st name part] assms(2) by (auto simp: read_nvram_def)

text \<open>The partition that \<open>read_nvram\<close> reports is the one of the value found.\<close>

lemma read_nvram_part:
  assumes "hmx_ok h fv vv" "get_nvram_field name = None" "read_nvram h st name output q part = Some (Inr (r, p))"
  shows "p = (if vv PARTITION_RW name st = None then PARTITION_RO else PARTITION_RW)"
    "r = None \<longleftrightarrow> stored fv vv st name = None"
proof -
  obtain p' where f: "fetch_nvram h st name part =
    (map_option (\<lambda>d. (format_of name, fill (replicate NVRAM_MAX_DATA 0) d, length d)) (stored fv vv st name), p')"
    and p': "p' = (if vv PARTITION_RW name st = None then PARTITION_RO else PARTITION_RW)"
    using fetch_stored [OF assms(1), of st name part] assms(2) by auto
  have "p = p' \<and> (r = None \<longleftrightarrow> stored fv vv st name = None)"
  proof (cases "stored fv vv st name")
    case None
    then show ?thesis using assms(3) by (simp add: read_nvram_def f)
  next
    case (Some d)
    define F where "F = format_nvram (format_of name) (fill (replicate NVRAM_MAX_DATA 0) d) (wrap_int (int (length d)))
        (replicate (NVRAM_MAX_DATA * 2) 0)"
    have a: "F \<bind> case_sum (\<lambda>status. Some (Inl status)) (\<lambda>formatbuf. do {
          nv \<leftarrow> str_at formatbuf;
          output \<leftarrow> snprintf_at output 0 (length output) (if q then nv else name @ lit ''='' @ nv);
          Some (Inr (Some output, p')) }) = Some (Inr (r, p))"
      using assms(3) by (simp add: read_nvram_def f Some F_def)
    then obtain b where "F = Some (Inr b)" by (cases F; cases "the F") auto
    with a Some show ?thesis by (auto simp: bind_eq_Some_conv)
  qed
  then show "p = (if vv PARTITION_RW name st = None then PARTITION_RO else PARTITION_RW)" "r = None \<longleftrightarrow> stored fv vv st name = None"
    using p' by simp_all
qed

text \<open>A successful write of a value in its normal form stores its bytes and touches no other variable.\<close>

definition stores ::
  "(NVRAM_FIELD_T \<Rightarrow> 's \<Rightarrow> byte list option) \<Rightarrow> (hmx_partition \<Rightarrow> cstr \<Rightarrow> 's \<Rightarrow> byte list option) \<Rightarrow>
   cstr \<Rightarrow> byte list \<Rightarrow> 's \<Rightarrow> 's \<Rightarrow> bool" where
  "stores fv vv name d st st' \<longleftrightarrow> stored fv vv st' name = Some d \<and> (\<forall>p n. n \<noteq> name \<longrightarrow> vv p n st' = vv p n st)"

lemma parse_value:
  assumes "nv_wf fmt d" "length d \<le> NVRAM_MAX_DATA"
  obtains v where "parse_nvram fmt (nv_text fmt d) (replicate NVRAM_MAX_DATA 0) = Some (Some (v, length d))" "take (length d) v = d"
  using parse_nvram_text [OF assms(1), of "replicate NVRAM_MAX_DATA 0"] assms(2) that by (simp add: NVRAM_MAX_DATA_def)

lemma write_field_stores:
  assumes ok: "hmx_ok h fv vv" and f: "get_nvram_field name = Some f"
    and wf: "nv_wf (fformat f) d" "length d \<le> NVRAM_MAX_DATA"
    and w: "write_nvram h name (nv_text (fformat f) d) part st = Some (Inr (0, st'))"
  shows "stores fv vv name d st st'"
proof -
  obtain v where "parse_nvram (fformat f) (nv_text (fformat f) d) (replicate NVRAM_MAX_DATA 0) = Some (Some (v, length d))"
    "take (length d) v = d" using parse_value [OF wf] .
  with w f have "HMX_NVRAM_SetField h (nvram_type f) d st = (DRV_OK, st')"
    by (cases "HMX_NVRAM_SetField h (nvram_type f) d st") (auto simp: write_nvram_def Let_def split: if_split_asm)
  from hmx_ok_write(1) [OF ok this] f show ?thesis by (simp add: stores_def stored_def)
qed

lemma write_variable_stores:
  assumes ok: "hmx_ok h fv vv" and f: "get_nvram_field name = None" and wf: "nul_free d" "length d \<le> NVRAM_MAX_DATA"
    and w: "write_nvram h name d part st = Some (Inr (0, st'))"
  shows "stores fv vv name d st st'"
proof -
  obtain v where v: "parse_nvram HNVRAM_STRING d (replicate NVRAM_MAX_DATA 0) = Some (Some (v, length d))" "take (length d) v = d"
    using parse_value [of HNVRAM_STRING d] wf by auto
  let ?zeros = "replicate NVRAM_MAX_DATA (0 :: byte)"
  define R where "R = read_nvram h st name ?zeros True PARTITION_UNSPECIFIED"
  note w' = w [unfolded write_nvram_def Let_def R_def [symmetric]]
  obtain q where q: "R = Some (Inr q)"
    using w' v f wf(2) by (cases R; cases "the R") auto
  obtain tmp p where tp: "q = (Some tmp, p)"
    using w' v f wf(2) unfolding q by (cases q; cases "fst q") auto
  have r: "read_nvram h st name ?zeros True PARTITION_UNSPECIFIED = Some (Inr (Some tmp, p))"
    using q tp by (simp add: R_def)
  have wr: "HMX_NVRAM_Write h p name d st = (DRV_OK, st')"
    using w' v f wf(2) unfolding q tp
    by (cases "HMX_NVRAM_Write h p name d st") (auto split: if_split_asm)
  note p = read_nvram_part [OF ok f r]
  show ?thesis
    using hmx_ok_write(2) [OF ok wr] p f by (auto simp: stores_def stored_def split: if_split_asm option.splits)
qed

lemma write_new_stores:
  assumes ok: "hmx_ok h fv vv" and f: "get_nvram_field name = None" and wf: "nul_free d" "length d \<le> NVRAM_MAX_DATA"
    and n: "stored fv vv st name = None"
    and w: "write_nvram_new h can_add name d part st = Some (0, st')"
  shows "stores fv vv name d st st'"
proof -
  obtain v where v: "parse_nvram HNVRAM_STRING d (replicate NVRAM_MAX_DATA 0) = Some (Some (v, length d))" "take (length d) v = d"
    using parse_value [of HNVRAM_STRING d] wf by auto
  define p where "p = (if part = PARTITION_UNSPECIFIED then PARTITION_RW else part)"
  have p: "p = PARTITION_RW \<or> p = PARTITION_RO" by (cases part) (auto simp: p_def)
  from w v have wr: "HMX_NVRAM_Write h p name d st = (DRV_OK, st')"
    by (cases "HMX_NVRAM_Write h p name d st") (auto simp: write_nvram_new_def p_def Let_def split: if_split_asm)
  show ?thesis
    using hmx_ok_write(2) [OF ok wr] p f n by (auto simp: stores_def stored_def split: option.splits)
qed

lemma write_nvram_missing:
  assumes ok: "hmx_ok h fv vv" and w: "write_nvram h name val part st = Some (Inr (-3, st'))"
  shows "get_nvram_field name = None \<and> st' = st \<and> stored fv vv st name = None"
proof -
  define R where "R = read_nvram h st name (replicate NVRAM_MAX_DATA 0) True PARTITION_UNSPECIFIED"
  note w' = w [unfolded write_nvram_def Let_def R_def [symmetric]]
  obtain v where v: "parse_nvram (format_of name) val (replicate NVRAM_MAX_DATA 0) = Some (Some v)"
    using w' unfolding format_of_def [symmetric]
    by (cases "parse_nvram (format_of name) val (replicate NVRAM_MAX_DATA 0)"; cases "the (parse_nvram (format_of name) val (replicate NVRAM_MAX_DATA 0))")
       (auto split: if_split_asm)
  have f: "get_nvram_field name = None"
  proof (rule ccontr)
    assume "get_nvram_field name \<noteq> None"
    then obtain f where f: "get_nvram_field name = Some f" by blast
    then show False
      using w' v by (cases "HMX_NVRAM_SetField h (nvram_type f) (take (snd v) (fst v)) st")
        (auto simp: format_of_def case_prod_beta split: if_split_asm)
  qed
  obtain q where q: "R = Some (Inr q)"
    using w' v f by (cases R; cases "the R") (auto simp: format_of_def case_prod_beta split: if_split_asm)
  obtain p where p: "q = (None, p)" "st' = st"
    using w' v f unfolding q
    by (cases q; cases "fst q") (auto simp: format_of_def case_prod_beta split: if_split_asm)
  show ?thesis using read_nvram_part(2) [OF ok f, of st _ True PARTITION_UNSPECIFIED None p] q p f by (simp add: R_def)
qed

lemma write_option_stores:
  assumes ok: "hmx_ok h fv vv" and name: "61 \<notin> set name"
    and wf: "nv_wf (format_of name) d" "length d \<le> NVRAM_MAX_DATA"
    and w: "write_option h (name @ 61 # nv_text (format_of name) d) s = Some (Inr s')"
  shows "stores fv vv name d (store s) (store s')"
proof -
  let ?val = "nv_text (format_of name) d" and ?st = "store s"
  have tw: "takeWhile (\<lambda>c. c \<noteq> 61) (name @ 61 # ?val) = name" using name by (subst takeWhile_append2) auto
  have dr: "drop (length name + 1) (name @ 61 # ?val) = ?val" by simp
  define W where "W = write_nvram h name ?val (desired_part s) ?st"
  have w': "W \<bind> case_sum (\<lambda>status. Some (Inl (status, s))) (\<lambda>(ret, st). do {
      (ret, st) \<leftarrow> (if ret = -3 then write_nvram_new h (can_add_flag s) name ?val (desired_part s) st else Some (ret, st));
      let s = s\<lparr>store := st\<rparr>;
      Some (if ret \<noteq> 0 then Inl (1, s) else Inr s) }) = Some (Inr s')"
    using w [unfolded write_option_def tw Let_def, unfolded tw dr W_def [symmetric]] by (simp add: Let_def)
  obtain ret st1 where W: "W = Some (Inr (ret, st1))" using w' by (cases W; cases "the W") auto
  consider "ret = 0" "store s' = st1"
    | "ret = -3" "write_nvram_new h (can_add_flag s) name ?val (desired_part s) st1 = Some (0, store s')"
    using w' unfolding W by (auto simp: bind_eq_Some_conv Let_def split: if_split_asm)
  then show ?thesis
  proof cases
    case 1
    then show ?thesis
      using W wf write_field_stores [OF ok] write_variable_stores [OF ok]
      by (cases "get_nvram_field name") (auto simp: W_def format_of_def)
  next
    case 2
    have f: "get_nvram_field name = None" and st1: "st1 = ?st" and n: "stored fv vv ?st name = None"
      using write_nvram_missing [OF ok] W 2(1) by (auto simp: W_def)
    show ?thesis
      using write_new_stores [OF ok f _ _ n] 2(2) wf st1 f by (simp add: format_of_def)
  qed
qed

section \<open>Properties\<close>

text \<open>
  For every format, printing stored bytes and parsing the text gives the same bytes
  back: any MAC address, version, four-byte or textual part number, hexadecimal key of any bytes,
  string without NULs, and any number below 10.
\<close>
lemma format_parse_roundtrip:
  assumes "nv_wf fmt d" "length d \<le> length buf" "6 \<le> length buf" "max 17 (2 * length d) < length out"
  shows "\<exists>out'. format_nvram fmt (d @ 0 # z) (int (length d)) out = Some (Inr out') \<and>
    (\<exists>buf'. parse_nvram fmt (cstr_of out') buf = Some (Some (buf', length d)) \<and> take (length d) buf' = d)"
proof -
  obtain r where "format_nvram fmt (d @ 0 # z) (int (length d)) out = Some (Inr (nv_text fmt d @ 0 # r))"
    using format_nvram_text [OF assms(1,4)] by blast
  moreover have "cstr_of (nv_text fmt d @ 0 # r) = nv_text fmt d"
    using nul_free_nv_text [OF assms(1)] by (rule cstr_of_nul_free)
  ultimately show ?thesis using parse_nvram_text [OF assms(1-3)] by (intro exI conjI) auto
qed

text \<open>
  Claim C11. After \<open>-w NAME=value\<close> succeeded, reading \<open>NAME\<close> gives the value, for fields of every format
  and for variables, existing ones (in either partition) and new ones (with \<open>-n\<close> and \<open>-p\<close>); no other
  variable has changed. The value is any text in the normal form of its format.
\<close>
theorem write_then_read:
  assumes "hmx_ok h fv vv" "61 \<notin> set name" "nv_wf (format_of name) d"
    and "length d < NVRAM_MAX_DATA" "length (nv_text (format_of name) d) < NVRAM_MAX_DATA"
    and "write_option h (name @ 61 # nv_text (format_of name) d) s = Some (Inr s')"
  shows "\<exists>out p. read_nvram h (store s') name (replicate NVRAM_MAX_DATA 0) True part = Some (Inr (Some out, p)) \<and>
      str_at out = Some (nv_text (format_of name) d) \<and> (\<forall>q n. n \<noteq> name \<longrightarrow> vv q n (store s') = vv q n (store s))"
proof -
  have st: "stores fv vv name d (store s) (store s')"
    using write_option_stores [OF assms(1-3) _ assms(6)] assms(4) by simp
  then have keep: "\<forall>q n. n \<noteq> name \<longrightarrow> vv q n (store s') = vv q n (store s)" by (simp add: stores_def)
  have "\<exists>r p. read_nvram h (store s') name (replicate NVRAM_MAX_DATA 0) True part =
      Some (Inr (Some (nv_text (format_of name) d @ 0 # r), p))"
    using read_stored [OF assms(1) _ assms(3,4)] st assms(5) by (simp add: stores_def)
  moreover have "str_at (nv_text (format_of name) d @ 0 # r) = Some (nv_text (format_of name) d)" for r
    using nul_free_nv_text [OF assms(3)] by (simp add: str_at_def cstr_of_nul_free)
  ultimately show ?thesis using keep by blast
qed

text \<open>A driver for examples: two maps, every call succeeds where it can.\<close>

type_synonym map_store = "(NVRAM_FIELD_T \<Rightarrow> byte list option) \<times> (hmx_partition \<times> cstr \<Rightarrow> byte list option)"

definition map_hmx :: "map_store hmx" where
  "map_hmx = \<lparr>
     HMX_NVRAM_GetLength = (\<lambda>t st. case fst st t of Some bs \<Rightarrow> (DRV_OK, length bs) | None \<Rightarrow> (DRV_ERR, 0)),
     HMX_NVRAM_GetField = (\<lambda>t st. case fst st t of Some bs \<Rightarrow> (DRV_OK, bs) | None \<Rightarrow> (DRV_ERR, [])),
     HMX_NVRAM_SetField = (\<lambda>t bs st. (DRV_OK, ((fst st)(t := Some bs), snd st))),
     HMX_NVRAM_Read = (\<lambda>p n st. case snd st (p, n) of Some bs \<Rightarrow> (DRV_OK, bs, length bs) | None \<Rightarrow> (DRV_ERR, [], 0)),
     HMX_NVRAM_Write = (\<lambda>p n bs st. (DRV_OK, (fst st, (snd st)((p, n) := Some bs)))),
     HMX_NVRAM_Remove = (\<lambda>p n st. case snd st (p, n) of
        Some bs \<Rightarrow> (DRV_OK, (fst st, (snd st)((p, n) := None))) | None \<Rightarrow> (DRV_ERR, st)),
     HMX_NVRAM_Dir = (\<lambda>st. (DRV_OK, [])),
     HMX_NVRAM_Init = (\<lambda>location st. (0, st))\<rparr>"

lemma map_hmx_ok: "hmx_ok map_hmx (\<lambda>t st. fst st t) (\<lambda>p n st. snd st (p, n))"
  by (auto simp: hmx_ok_def map_hmx_def split: option.splits)

definition fresh_state :: "map_store hnvram_state" where
  "fresh_state = \<lparr>op = None, op_cnt = 0, q_flag = False, b_flag = False, can_add_flag = True,
     desired_part = PARTITION_RO, store = (Map.empty, Map.empty), stdout = []\<rparr>"

lemma no_field_x: "get_nvram_field [120] = None"
  by (simp add: get_nvram_field_def nvram_fields_def fld_def lit_def strcasecmp_eq_def to_lower_def)

lemma write_new_example:
  "write_option map_hmx ([120] @ 61 # [97, 98]) fresh_state =
     Some (Inr (fresh_state\<lparr>store := (Map.empty, [(PARTITION_RO, [120]) \<mapsto> [97, 98]])\<rparr>))"
  by (simp add: write_option_def write_nvram_def write_nvram_new_def no_field_x parse_nvram_def parse_string_def
      arr_put_def NVRAM_MAX_DATA_def read_nvram_def fetch_nvram_def fresh_state_def map_hmx_def Let_def)

theorem write_then_read_witness:
  "\<exists>out p. read_nvram map_hmx (Map.empty, [(PARTITION_RO, [120]) \<mapsto> [97, 98]]) [120] (replicate NVRAM_MAX_DATA 0) True PARTITION_RW =
     Some (Inr (Some out, p)) \<and> str_at out = Some [97, 98]"
proof -
  have f: "format_of [120] = HNVRAM_STRING" by (simp add: format_of_def no_field_x)
  show ?thesis
    using write_then_read [OF map_hmx_ok, of "[120]" "[97, 98]" fresh_state
        "fresh_state\<lparr>store := (Map.empty, [(PARTITION_RO, [120]) \<mapsto> [97, 98]])\<rparr>" PARTITION_RW]
      write_new_example f by (auto simp: NVRAM_MAX_DATA_def)
qed

text \<open>
  A write that is refused (value too long, not of the field's format, unknown variable,
  wrong partition) has not called the driver's writing functions: the store is the same. Only the
  results -5 and -7 come from a failed write of the driver.
\<close>
lemma refused_write_keeps_store:
  assumes "write_nvram h name val part st = Some (Inr (r, st'))" "r \<notin> {0, -5, -7}"
  shows "st' = st"
proof -
  define R where "R = read_nvram h st name (replicate NVRAM_MAX_DATA 0) True PARTITION_UNSPECIFIED"
  define P where "P = parse_nvram (format_of name) val (replicate NVRAM_MAX_DATA 0)"
  note w = assms(1) [unfolded write_nvram_def Let_def format_of_def [symmetric] R_def [symmetric] P_def [symmetric]]
  show ?thesis
  proof (cases "length val > NVRAM_MAX_DATA")
    case True
    with w show ?thesis by simp
  next
    case False
    then obtain v where P: "P = Some v" using w by (cases P) auto
    show ?thesis
    proof (cases v)
      case None
      with w False P show ?thesis by simp
    next
      case (Some bl)
      show ?thesis
      proof (cases "get_nvram_field name")
        case (Some f)
        with w False P \<open>v = Some bl\<close> assms(2) show ?thesis
          by (cases "HMX_NVRAM_SetField h (nvram_type f) (take (snd bl) (fst bl)) st")
            (auto simp: case_prod_beta split: if_split_asm)
      next
        case None
        obtain q where q: "R = Some (Inr q)"
          using w False P \<open>v = Some bl\<close> None by (cases R; cases "the R") (auto simp: case_prod_beta)
        show ?thesis
          using w False P \<open>v = Some bl\<close> None assms(2) unfolding q
          by (cases "fst q"; cases "HMX_NVRAM_Write h (snd q) name (take (snd bl) (fst bl)) st")
            (auto simp: case_prod_beta split: if_split_asm)
      qed
    qed
  qed
qed

text \<open>
  A value of exactly \<open>NVRAM_MAX_DATA\<close> characters is accepted for writing, but the array it is
  read into has no room for a terminating NUL: printing such a variable reads past the array.
\<close>
lemma full_value_overread:
  assumes "hmx_ok h fv vv" "get_nvram_field name = None" "stored fv vv st name = Some d"
    and "nul_free d" "length d = NVRAM_MAX_DATA"
  shows "parse_nvram HNVRAM_STRING d (replicate NVRAM_MAX_DATA 0) = Some (Some (d, NVRAM_MAX_DATA)) \<and>
    read_nvram h st name out q part = None"
proof -
  have fmt: "format_of name = HNVRAM_STRING" using assms(2) by (simp add: format_of_def)
  obtain p where f: "fetch_nvram h st name part = (Some (HNVRAM_STRING, fill (replicate NVRAM_MAX_DATA 0) d, length d), p)"
    using fetch_stored [OF assms(1), of st name part] assms(3) fmt by auto
  have "fill (replicate NVRAM_MAX_DATA 0) d = d" using assms(5) by (simp add: fill_def)
  moreover have "str_at d = None" using assms(4) by (simp add: str_at_def nul_free_def)
  ultimately have "read_nvram h st name out q part = None"
    by (simp add: read_nvram_def f format_nvram_def format_string_def arr_put_def NVRAM_MAX_DATA_def)
  moreover have "parse_nvram HNVRAM_STRING d (replicate NVRAM_MAX_DATA 0) = Some (Some (d, NVRAM_MAX_DATA))"
    using parse_nvram_text [of HNVRAM_STRING d "replicate NVRAM_MAX_DATA 0"] assms(4,5) by (simp add: NVRAM_MAX_DATA_def)
  ultimately show ?thesis by simp
qed

text \<open>Numbers of more than one digit are printed in full, but only their first digit is read.\<close>

lemma uint8_no_roundtrip:
  assumes "10 \<le> unat b"
  shows "\<exists>c. parse_nvram HNVRAM_UINT8 (dec_nat (unat b)) [0] = Some (Some ([c], 1)) \<and> unat c < 10"
proof -
  obtain c bs where d: "dec_nat (unat b) = c # bs" using dec_nat_nonempty by (cases "dec_nat (unat b)") auto
  have "is_digit c" using dec_nat_digits [of "unat b"] by (simp add: d)
  then have "48 \<le> unat c" "unat c \<le> 57" by (simp_all add: is_digit_def word_le_nat_alt)
  then have "unat (c - 48) = unat c - 48" by (simp add: unat_sub word_le_nat_alt)
  then show ?thesis using \<open>unat c \<le> 57\<close>
    by (simp add: parse_nvram_def parse_uint8_def char_at_def arr_get_def arr_put_def d)
qed

end
