(* ===== verification/Ras_Codec.thy ===== *)
theory Ras_Codec
  imports C_Text
begin

text \<open>
  The decoder of the voice remote controls: \<open>src/rcu_audio/RAS_lib.c\<close> and \<open>RAS_lib.h\<close>. An
  audio packet carries a three-byte header (the predicted value and the step index of the
  sender) and then one ADPCM code in every nibble; the decoder turns each nibble into one
  16-bit sample, and can replay the last packet where one was lost.

  The static variables of the file are the fields of the record \<open>ras\<close>. Values of the C types
  \<open>int16\<close> and \<open>int8\<close> are integers, and \<open>wrap16\<close> and \<open>wrap8\<close> are the conversions that the
  assignments to such variables make (the compilers the code is built with reduce modulo the
  width). Tables and buffers are lists with checked access, \<open>None\<close> is an access outside one. The
  source declares \<open>rf_DataFrame\<close> static, but writes it before its only use, so it is no state.
\<close>

section \<open>State and tables\<close>

definition MAX_INPUT_BUF_SIZE :: int where "MAX_INPUT_BUF_SIZE = 128"
definition RAS_PACKET_LOST :: int where "RAS_PACKET_LOST = 0"
definition RAS_DECODE_TI_TYPE1 :: int where "RAS_DECODE_TI_TYPE1 = 1"
definition RAS_NO_PEC :: int where "RAS_NO_PEC = 0"
definition RAS_PEC_MODE1 :: int where "RAS_PEC_MODE1 = 1"
definition RAS_SOFTWARE_VERSION :: int where "RAS_SOFTWARE_VERSION = 0x0103"

lemmas ras_const_defs = MAX_INPUT_BUF_SIZE_def RAS_PACKET_LOST_def RAS_DECODE_TI_TYPE1_def
  RAS_NO_PEC_def RAS_PEC_MODE1_def RAS_SOFTWARE_VERSION_def

definition wrap16 :: "int \<Rightarrow> int" where
  "wrap16 i = (i + 2 ^ 15) mod 2 ^ 16 - 2 ^ 15"

definition wrap8 :: "int \<Rightarrow> int" where
  "wrap8 i = (i + 2 ^ 7) mod 2 ^ 8 - 2 ^ 7"

record ras =
  PV_Dec :: int
  SI_Dec :: int
  ras_pec_mode :: int
  per_buff :: "int list"

text \<open>The variables before the first call: static storage starts as zero.\<close>

definition ras_start :: ras where
  "ras_start = \<lparr>PV_Dec = 0, SI_Dec = 0, ras_pec_mode = 0, per_buff = replicate 512 0\<rparr>"

definition codec_stepsize_Lut :: "int list" where
  "codec_stepsize_Lut =
     [7, 8, 9, 10, 11, 12, 13, 14,
      16, 17, 19, 21, 23, 25, 28, 31,
      34, 37, 41, 45, 50, 55, 60, 66, 73, 80, 88, 97, 107, 118, 130, 143,
      157, 173, 190, 209, 230, 253, 279, 307, 337, 371, 408, 449, 494, 544, 598, 658,
      724, 796, 876, 963, 1060, 1166, 1282, 1411, 1552, 1707, 1878, 2066, 2272, 2499, 2749, 3024,
      3327, 3660, 4026, 4428, 4871, 5358, 5894, 6484, 7132, 7845, 8630, 9493, 10442, 11487, 12635,
      13899, 15289, 16818, 18500, 20350, 22385, 24623, 27086, 29794, 32767]"

definition codec_IndexLut :: "int list" where
  "codec_IndexLut = [-1, -1, -1, -1, 2, 4, 6, 8, -1, -1, -1, -1, 2, 4, 6, 8]"

text \<open>A table read at an index of type \<open>int8\<close>, which may be negative.\<close>

definition lut_get :: "int list \<Rightarrow> int \<Rightarrow> int option" where
  "lut_get t i = (if i < 0 then None else arr_get t (nat i))"

section \<open>Operations\<close>

definition clamp_index :: "int \<Rightarrow> int" where
  "clamp_index i = (if i < 0 then 0 else if i > 88 then 88 else i)"

definition codec_DecodeSingle :: "byte \<Rightarrow> ras \<Rightarrow> (int \<times> ras) option" where
  "codec_DecodeSingle codec_4bits st = do {
     step \<leftarrow> lut_get codec_stepsize_Lut (SI_Dec st);
     let step = wrap16 step;
     let cum_diff = wrap16 (drop_bit 3 step);
     d \<leftarrow> lut_get codec_IndexLut (uint codec_4bits);
     let st = st\<lparr>SI_Dec := clamp_index (wrap8 (SI_Dec st + d))\<rparr>;
     let cum_diff = (if codec_4bits AND 4 \<noteq> 0 then wrap16 (cum_diff + step) else cum_diff);
     let cum_diff = (if codec_4bits AND 2 \<noteq> 0 then wrap16 (cum_diff + drop_bit 1 step) else cum_diff);
     let cum_diff = (if codec_4bits AND 1 \<noteq> 0 then wrap16 (cum_diff + drop_bit 2 step) else cum_diff);
     let pv = (if codec_4bits AND 8 \<noteq> 0
               then (if PV_Dec st < - 32767 + cum_diff then - 32767 else wrap16 (PV_Dec st - cum_diff))
               else (if PV_Dec st > 0x7fff - cum_diff then 0x7fff else wrap16 (PV_Dec st + cum_diff)));
     Some (pv, st\<lparr>PV_Dec := pv\<rparr>)
   }"

text \<open>
  The loop of \<open>codec_DecodeBuff\<close>: \<open>out\<close> and \<open>src\<close> are the positions of the two pointers, \<open>endp\<close>
  the end of the output. One round writes two samples.
\<close>

function codec_loop ::
    "byte list \<Rightarrow> nat \<Rightarrow> nat \<Rightarrow> nat \<Rightarrow> int list \<Rightarrow> ras \<Rightarrow> (int list \<times> ras) option" where
  "codec_loop frame endp out src dst st =
     (if out < endp then do {
        codec \<leftarrow> arr_get frame src;
        (temp, st) \<leftarrow> codec_DecodeSingle (codec AND 0xF) st;
        dst \<leftarrow> arr_put dst out [temp];
        let codec = drop_bit 4 codec;
        let codec = codec AND 0xF;
        (temp, st) \<leftarrow> codec_DecodeSingle codec st;
        dst \<leftarrow> arr_put dst (out + 1) [temp];
        codec_loop frame endp (out + 2) (src + 1) dst st
      } else Some (dst, st))"
  by pat_completeness auto

termination
  by (relation "measure (\<lambda>(frame, endp, out, _). endp - out)") auto

declare codec_loop.simps [simp del]

definition codec_DecodeBuff ::
    "int list \<Rightarrow> byte list \<Rightarrow> nat \<Rightarrow> int \<Rightarrow> int \<Rightarrow> ras \<Rightarrow> (int list \<times> int \<times> int \<times> ras) option" where
  "codec_DecodeBuff dst frame srcSize si pv st = do {
     (dst, st) \<leftarrow> codec_loop frame (drop_bit 1 srcSize) 0 0 dst (st\<lparr>PV_Dec := pv, SI_Dec := si\<rparr>);
     Some (dst, SI_Dec st, PV_Dec st, st)
   }"

text \<open>The loop \<open>for (i = 0; i < n; i++) dst[i] = src[i];\<close> of the error concealment.\<close>

fun copy_samples :: "int list \<Rightarrow> int list \<Rightarrow> nat \<Rightarrow> int list option" where
  "copy_samples dst src 0 = Some dst"
| "copy_samples dst src (Suc n) = do {
     dst \<leftarrow> copy_samples dst src n;
     v \<leftarrow> arr_get src n;
     arr_put dst n [v]
   }"

text \<open>A status is of type \<open>uint8\<close>: the source's \<open>-1\<close> is returned as 255.\<close>

definition RAS_Init :: "int \<Rightarrow> ras \<Rightarrow> int \<times> ras" where
  "RAS_Init pec_mode st =
     (if pec_mode > RAS_PEC_MODE1 then (255, st)
      else (0, st\<lparr>ras_pec_mode := pec_mode, per_buff := replicate (nat (MAX_INPUT_BUF_SIZE * 4)) 0\<rparr>))"

definition RAS_GetVersion :: int where
  "RAS_GetVersion = RAS_SOFTWARE_VERSION"

text \<open>
  The result is the status, \<open>*outputLenght\<close>, the output buffer and the new state. A pointer is
  \<open>None\<close> when it is null; the block behind \<open>input\<close> is read before the test for null.
\<close>

type_synonym ras_result = "int \<times> int \<times> int list option \<times> ras"

definition RAS_option ::
    "int \<Rightarrow> byte list \<Rightarrow> nat \<Rightarrow> int \<Rightarrow> int \<Rightarrow> int list \<Rightarrow> ras \<Rightarrow> (int list \<times> ras) option" where
  "RAS_option opt frame n step_index predicted_value obuf st =
     (if opt = RAS_PACKET_LOST then
        (if ras_pec_mode st = RAS_PEC_MODE1 then do {
           obuf \<leftarrow> copy_samples obuf (per_buff st) n;
           Some (obuf, st)
         } else Some (obuf, st))
      else if opt = RAS_DECODE_TI_TYPE1 then do {
        (obuf, si, pv, st) \<leftarrow> codec_DecodeBuff obuf frame n step_index predicted_value st;
        (if ras_pec_mode st = RAS_PEC_MODE1 then do {
           pb \<leftarrow> copy_samples (per_buff st) obuf n;
           Some (obuf, st\<lparr>per_buff := pb\<rparr>)
         } else Some (obuf, st))
      }
      else Some (obuf, st))"

definition RAS_Decode ::
    "int \<Rightarrow> byte list option \<Rightarrow> int \<Rightarrow> int list option \<Rightarrow> ras \<Rightarrow> ras_result option" where
  "RAS_Decode opt input inputLength out st =
     (case out of
        None \<Rightarrow> Some (255, 0, out, st)
      | Some obuf \<Rightarrow>
          if inputLength > MAX_INPUT_BUF_SIZE then Some (255, 0, out, st)
          else do {
            inp \<leftarrow> input;
            b0 \<leftarrow> arr_get inp 0;
            b1 \<leftarrow> arr_get inp 1;
            let predicted_value = wrap16 (uint b0 + push_bit 8 (uint b1));
            b2 \<leftarrow> arr_get inp 2;
            let step_index = wrap8 (uint b2);
            let inputLength = (inputLength - 3) mod 2 ^ 16;
            (obuf, st) \<leftarrow> RAS_option opt (drop 3 inp) (nat (inputLength * 4)) step_index predicted_value obuf st;
            Some (0, (inputLength * 4) mod 2 ^ 16, Some obuf, st)
          })"

section \<open>Widths\<close>

lemma wrap16_id [simp]: "- 32768 \<le> i \<Longrightarrow> i \<le> 32767 \<Longrightarrow> wrap16 i = i"
  by (simp add: wrap16_def)

lemma wrap16_bounds: "- 32768 \<le> wrap16 i" "wrap16 i \<le> 32767"
  using pos_mod_bound [of "65536 :: int" "i + 32768"] pos_mod_sign [of "65536 :: int" "i + 32768"]
  by (auto simp: wrap16_def simp del: pos_mod_bound pos_mod_sign)

lemma wrap16_add: "wrap16 (wrap16 a + b) = wrap16 (a + b)"
  by (simp add: wrap16_def algebra_simps mod_simps)

lemma wrap16_add2: "wrap16 (b + wrap16 a) = wrap16 (b + a)"
  using wrap16_add [of a b] by (simp add: add.commute)

lemma wrap16_diff: "wrap16 (b - wrap16 a) = wrap16 (b - a)"
  by (simp add: wrap16_def algebra_simps mod_simps)

lemma wrap16_add3: "wrap16 (a + (b + wrap16 c)) = wrap16 (a + (b + c))"
  using wrap16_add2 [of "a + b" c] by (simp add: add.assoc)

lemma wrap8_id [simp]: "- 128 \<le> i \<Longrightarrow> i \<le> 127 \<Longrightarrow> wrap8 i = i"
  by (simp add: wrap8_def)

lemma wrap8_byte: "wrap8 (uint (b :: byte)) = (if uint b < 128 then uint b else uint b - 256)"
proof -
  have "0 \<le> uint b" "uint b < 256" using uint_lt2p [of b] by auto
  moreover have "(uint b + 128) mod 256 = (uint b - 128) mod 256"
    using mod_add_self2 [of "uint b - 128" 256] by (simp add: algebra_simps)
  ultimately show ?thesis by (cases "uint b < 128") (auto simp: wrap8_def)
qed

lemma clamp_index_bounds: "0 \<le> clamp_index i" "clamp_index i \<le> 88"
  by (auto simp: clamp_index_def)

section \<open>The reference decoder\<close>

text \<open>
  IMA ADPCM as its specification has it, over unbounded integers and with tables of its own: the
  step sizes, the change of the index (by the magnitude \<open>m\<close> of a code: down by one for \<open>m < 4\<close>, up by
  \<open>2 (m - 3)\<close> otherwise), the difference of a code (an eighth of the step, and the step, its half
  and its quarter for the three bits of the magnitude, each rounded down), and the sum, which
  saturates. The lower limit \<open>lo\<close> is a parameter: IMA saturates at \<open>-32768\<close>, the decoder of the
  remote controls at \<open>-32767\<close>.
\<close>

definition ima_steps :: "int list" where
  "ima_steps =
     [7, 8, 9, 10, 11, 12, 13, 14, 16, 17,
      19, 21, 23, 25, 28, 31, 34, 37, 41, 45,
      50, 55, 60, 66, 73, 80, 88, 97, 107, 118,
      130, 143, 157, 173, 190, 209, 230, 253, 279, 307,
      337, 371, 408, 449, 494, 544, 598, 658, 724, 796,
      876, 963, 1060, 1166, 1282, 1411, 1552, 1707, 1878, 2066,
      2272, 2499, 2749, 3024, 3327, 3660, 4026, 4428, 4871, 5358,
      5894, 6484, 7132, 7845, 8630, 9493, 10442, 11487, 12635, 13899,
      15289, 16818, 18500, 20350, 22385, 24623, 27086, 29794, 32767]"

definition ima_adjust :: "byte \<Rightarrow> int" where
  "ima_adjust c = (let m = int (unat c mod 8) in if m < 4 then - 1 else 2 * (m - 3))"

definition ima_diff :: "int \<Rightarrow> byte \<Rightarrow> int" where
  "ima_diff step c = step div 8 + (if bit c 2 then step else 0) +
     (if bit c 1 then step div 2 else 0) + (if bit c 0 then step div 4 else 0)"

definition ima_value :: "int \<Rightarrow> int \<Rightarrow> int \<Rightarrow> byte \<Rightarrow> int" where
  "ima_value lo pv d c = max lo (min 32767 (if bit c 3 then pv - d else pv + d))"

definition ima_index :: "int \<Rightarrow> byte \<Rightarrow> int" where
  "ima_index si c = max 0 (min 88 (si + ima_adjust c))"

fun ima_decode :: "int \<Rightarrow> int \<Rightarrow> int \<Rightarrow> byte list \<Rightarrow> int list" where
  "ima_decode lo si pv [] = []"
| "ima_decode lo si pv (c # cs) =
     (let v = ima_value lo pv (ima_diff (ima_steps ! nat si) c) c
      in v # ima_decode lo (ima_index si c) v cs)"

text \<open>Whether all differences of a run fit in 16 bits.\<close>

fun ima_fits :: "int \<Rightarrow> byte list \<Rightarrow> bool" where
  "ima_fits si [] \<longleftrightarrow> True"
| "ima_fits si (c # cs) \<longleftrightarrow>
     ima_diff (ima_steps ! nat si) c \<le> 32767 \<and> ima_fits (ima_index si c) cs"

text \<open>Whether the lower limit \<open>lo\<close> is that of the decoder, or no sample of the run reaches below it.\<close>

definition limit_ok :: "int \<Rightarrow> int \<Rightarrow> int \<Rightarrow> byte list \<Rightarrow> bool" where
  "limit_ok lo si pv cs \<longleftrightarrow> lo = - 32767 \<or> lo = - 32768 \<and> list_all (\<lambda>v. - 32767 \<le> v) (ima_decode lo si pv cs)"

definition nibbles :: "byte list \<Rightarrow> byte list" where
  "nibbles bs = concat (map (\<lambda>b. [b AND 0xF, drop_bit 4 b AND 0xF]) bs)"

section \<open>One sample\<close>

lemma byte_and_bit:
  "(c AND 1 \<noteq> 0) = bit (c :: byte) 0" "(c AND 2 \<noteq> 0) = bit c 1"
  "(c AND 4 \<noteq> 0) = bit c 2" "(c AND 8 \<noteq> 0) = bit c 3"
  using and_exp_eq_0_iff_not_bit [of c 0] and_exp_eq_0_iff_not_bit [of c 1]
    and_exp_eq_0_iff_not_bit [of c 2] and_exp_eq_0_iff_not_bit [of c 3]
  by simp_all

lemma length_stepsize [simp]: "length codec_stepsize_Lut = 89"
  by (simp add: codec_stepsize_Lut_def)

lemma length_IndexLut [simp]: "length codec_IndexLut = 16"
  by (simp add: codec_IndexLut_def)

lemma stepsize_bounds:
  assumes "i < 89"
  shows "0 \<le> codec_stepsize_Lut ! i" "codec_stepsize_Lut ! i \<le> 32767"
proof -
  have "\<forall>x \<in> set codec_stepsize_Lut. 0 \<le> x \<and> x \<le> 32767" by (simp add: codec_stepsize_Lut_def)
  then show "0 \<le> codec_stepsize_Lut ! i" "codec_stepsize_Lut ! i \<le> 32767"
    using assms by auto
qed

lemma IndexLut_bounds:
  assumes "i < 16"
  shows "- 1 \<le> codec_IndexLut ! i" "codec_IndexLut ! i \<le> 8"
proof -
  have "\<forall>x \<in> set codec_IndexLut. - 1 \<le> x \<and> x \<le> 8" by (simp add: codec_IndexLut_def)
  then show "- 1 \<le> codec_IndexLut ! i" "codec_IndexLut ! i \<le> 8"
    using assms by auto
qed

lemma stepsize_ima: "codec_stepsize_Lut = ima_steps"
  by (simp add: codec_stepsize_Lut_def ima_steps_def)

lemma IndexLut_ima: "unat c < 16 \<Longrightarrow> codec_IndexLut ! unat c = ima_adjust c"
proof -
  assume "unat c < 16"
  then have "unat c \<in> set [0..<16]" by simp
  moreover have "\<forall>n \<in> set [0..<16]. codec_IndexLut ! n = (let m = int (n mod 8) in if m < 4 then - 1 else 2 * (m - 3))"
    by (simp add: upt_conv_Cons codec_IndexLut_def Let_def)
  ultimately show ?thesis by (simp add: ima_adjust_def)
qed

lemma nibble_less: "unat (b AND 0xF :: byte) < 16"
proof -
  have "b AND 0xF = take_bit 4 b" by (simp add: take_bit_eq_mask mask_eq_exp_minus_1)
  then show ?thesis by (simp add: unsigned_take_bit_eq take_bit_nat_less_exp [of 4, simplified])
qed

text \<open>The difference as the code accumulates it: the reference's, reduced to 16 bits.\<close>

lemma cum_diff_wraps:
  assumes "0 \<le> step" "step \<le> 32767"
  shows
    "(let cum_diff = wrap16 (drop_bit 3 step);
          cum_diff = (if bit c 2 then wrap16 (cum_diff + step) else cum_diff);
          cum_diff = (if bit c 1 then wrap16 (cum_diff + drop_bit 1 step) else cum_diff)
      in if bit c 0 then wrap16 (cum_diff + drop_bit 2 step) else cum_diff)
     = wrap16 (ima_diff step c)"
  by (simp add: Let_def ima_diff_def wrap16_add wrap16_add2 wrap16_add3 drop_bit_eq_div ac_simps)

definition decoded_value :: "int \<Rightarrow> int \<Rightarrow> byte \<Rightarrow> int" where
  "decoded_value pv d c =
     (if bit c 3 then (if pv < - 32767 + wrap16 d then - 32767 else wrap16 (pv - wrap16 d))
      else (if pv > 32767 - wrap16 d then 32767 else wrap16 (pv + wrap16 d)))"

lemma codec_DecodeSingle_eq:
  assumes "0 \<le> SI_Dec st" "SI_Dec st \<le> 88" "unat c < 16"
  shows "codec_DecodeSingle c st =
    (let v = decoded_value (PV_Dec st) (ima_diff (codec_stepsize_Lut ! nat (SI_Dec st)) c) c
     in Some (v, st\<lparr>SI_Dec := ima_index (SI_Dec st) c, PV_Dec := v\<rparr>))"
proof -
  let ?s = "codec_stepsize_Lut ! nat (SI_Dec st)"
  have n: "nat (SI_Dec st) < 89" using assms by linarith
  have s: "0 \<le> ?s" "?s \<le> 32767" using stepsize_bounds [OF n] by auto
  have g: "lut_get codec_stepsize_Lut (SI_Dec st) = Some ?s" "wrap16 ?s = ?s"
    using assms n s by (auto simp: lut_get_def carr_simps)
  have u: "nat (uint c) = unat c" by simp
  have i: "lut_get codec_IndexLut (uint c) = Some (codec_IndexLut ! unat c)"
    using assms by (simp add: lut_get_def carr_simps)
  have w: "clamp_index (wrap8 (SI_Dec st + codec_IndexLut ! unat c)) = ima_index (SI_Dec st) c"
    using assms IndexLut_bounds [OF assms(3)] by (simp add: clamp_index_def ima_index_def IndexLut_ima)
  show ?thesis
    unfolding codec_DecodeSingle_def g i bind.bind_lunit byte_and_bit
    using cum_diff_wraps [OF s, of c]
    by (simp add: g w decoded_value_def Let_def)
qed

section \<open>A buffer of samples\<close>

text \<open>What the loop computes, without the buffers: the samples and the final step and value.\<close>

fun dec_run :: "int \<Rightarrow> int \<Rightarrow> byte list \<Rightarrow> int list \<times> int \<times> int" where
  "dec_run si pv [] = ([], si, pv)"
| "dec_run si pv (c # cs) =
     (let v = decoded_value pv (ima_diff (codec_stepsize_Lut ! nat si) c) c;
          (vs, si', pv') = dec_run (ima_index si c) v cs
      in (v # vs, si', pv'))"

lemma ima_index_bounds: "0 \<le> ima_index si c" "ima_index si c \<le> 88"
  by (auto simp: ima_index_def)

lemma decoded_value_bounds: "- 32768 \<le> decoded_value pv d c" "decoded_value pv d c \<le> 32767"
  using wrap16_bounds by (auto simp: decoded_value_def)

lemma ima_diff_nonneg: "0 \<le> si \<Longrightarrow> si \<le> 88 \<Longrightarrow> 0 \<le> ima_diff (codec_stepsize_Lut ! nat si) c"
  using stepsize_bounds(1) [of "nat si"]
  by (auto simp: ima_diff_def nat_less_iff pos_imp_zdiv_nonneg_iff intro!: add_nonneg_nonneg)

lemma decoded_value_ima:
  assumes "0 \<le> d" "d \<le> 32767" "lo \<le> pv" "pv \<le> 32767" "lo = - 32767 \<or> lo = - 32768 \<and> - 32767 \<le> ima_value lo pv d c"
  shows "decoded_value pv d c = ima_value lo pv d c"
  using assms by (auto simp: decoded_value_def ima_value_def max_def min_def split: if_splits)

lemma dec_run_length: "dec_run si pv cs = (vs, si', pv') \<Longrightarrow> length vs = length cs"
  by (induction cs arbitrary: si pv vs si' pv') (auto simp: Let_def split: prod.splits)

lemma dec_run_bounds:
  "dec_run si pv cs = (vs, si', pv') \<Longrightarrow> 0 \<le> si \<Longrightarrow> si \<le> 88 \<Longrightarrow> - 32768 \<le> pv \<Longrightarrow> pv \<le> 32767 \<Longrightarrow>
     0 \<le> si' \<and> si' \<le> 88 \<and> - 32768 \<le> pv' \<and> pv' \<le> 32767 \<and> (\<forall>v \<in> set vs. - 32768 \<le> v \<and> v \<le> 32767)"
proof (induction cs arbitrary: si pv vs si' pv')
  case (Cons c cs)
  let ?v = "decoded_value pv (ima_diff (codec_stepsize_Lut ! nat si) c) c"
  obtain ws where r: "dec_run (ima_index si c) ?v cs = (ws, si', pv')" "vs = ?v # ws"
    using Cons.prems(1) by (auto simp: Let_def split: prod.splits)
  show ?case
    using Cons.IH [OF r(1)] ima_index_bounds decoded_value_bounds r(2) by auto
qed auto

lemma dec_run_ima:
  "ima_fits si cs \<Longrightarrow> 0 \<le> si \<Longrightarrow> si \<le> 88 \<Longrightarrow> lo \<le> pv \<Longrightarrow> pv \<le> 32767 \<Longrightarrow> limit_ok lo si pv cs \<Longrightarrow>
     fst (dec_run si pv cs) = ima_decode lo si pv cs"
proof (induction cs arbitrary: si pv)
  case (Cons c cs)
  let ?d = "ima_diff (ima_steps ! nat si) c"
  let ?v = "ima_value lo pv ?d c"
  have v: "decoded_value pv ?d c = ?v"
    using Cons.prems ima_diff_nonneg [of si c]
    by (intro decoded_value_ima) (auto simp: stepsize_ima limit_ok_def Let_def)
  have "lo \<le> ?v" "?v \<le> 32767" "limit_ok lo (ima_index si c) ?v cs"
    using Cons.prems(6) by (auto simp: limit_ok_def Let_def ima_value_def)
  then have "fst (dec_run (ima_index si c) ?v cs) = ima_decode lo (ima_index si c) ?v cs"
    using Cons.prems(1) ima_index_bounds by (intro Cons.IH) auto
  then show ?case by (auto simp: Let_def stepsize_ima v split: prod.splits)
qed simp

lemma nibbles_Cons: "nibbles (b # bs) = [b AND 0xF, drop_bit 4 b AND 0xF] @ nibbles bs"
  by (simp add: nibbles_def)

lemma length_nibbles [simp]: "length (nibbles bs) = 2 * length bs"
  by (induction bs) (auto simp: nibbles_def)

lemma dec_run_append2:
  "dec_run si pv ([c, d] @ cs) =
     (let v = decoded_value pv (ima_diff (codec_stepsize_Lut ! nat si) c) c;
          si2 = ima_index si c;
          w = decoded_value v (ima_diff (codec_stepsize_Lut ! nat si2) d) d;
          (vs, si', pv') = dec_run (ima_index si2 d) w cs
      in (v # w # vs, si', pv'))"
  by (simp add: Let_def split: prod.splits)

lemma codec_loop_eq:
  assumes "src + n \<le> length frame" "out + 2 * n \<le> length dst" "0 \<le> SI_Dec st" "SI_Dec st \<le> 88"
  shows "codec_loop frame (out + 2 * n) out src dst st =
    (case dec_run (SI_Dec st) (PV_Dec st) (nibbles (take n (drop src frame))) of (vs, si, pv) \<Rightarrow>
       Some (take out dst @ vs @ drop (out + 2 * n) dst, st\<lparr>SI_Dec := si, PV_Dec := pv\<rparr>))"
  using assms
proof (induction n arbitrary: out src dst st)
  case 0
  then show ?case by (simp add: codec_loop.simps nibbles_def)
next
  case (Suc n)
  let ?b = "frame ! src"
  let ?c = "?b AND 0xF" let ?d = "drop_bit 4 ?b AND 0xF"
  define v where "v = decoded_value (PV_Dec st) (ima_diff (codec_stepsize_Lut ! nat (SI_Dec st)) ?c) ?c"
  define st1 where "st1 = st\<lparr>SI_Dec := ima_index (SI_Dec st) ?c, PV_Dec := v\<rparr>"
  define w where "w = decoded_value v (ima_diff (codec_stepsize_Lut ! nat (ima_index (SI_Dec st) ?c)) ?d) ?d"
  define st2 where "st2 = st1\<lparr>SI_Dec := ima_index (SI_Dec st1) ?d, PV_Dec := w\<rparr>"
  define dst2 where "dst2 = take out dst @ [v, w] @ drop (out + 2) dst"
  have 1: "codec_DecodeSingle ?c st = Some (v, st1)"
    using Suc.prems nibble_less by (simp add: codec_DecodeSingle_eq v_def st1_def Let_def)
  have 2: "codec_DecodeSingle ?d st1 = Some (w, st2)"
    using ima_index_bounds nibble_less
    by (subst codec_DecodeSingle_eq) (auto simp: w_def st2_def st1_def Let_def)
  have g: "arr_get frame src = Some ?b" using Suc.prems by (simp add: carr_simps)
  have p: "arr_put dst out [v] = Some (take out dst @ [v] @ drop (out + 1) dst)"
    using Suc.prems by (simp add: carr_simps)
  have q: "arr_put (take out dst @ [v] @ drop (out + 1) dst) (out + 1) [w] = Some dst2"
    using Suc.prems by (simp add: carr_simps dst2_def min_def)
  have "codec_loop frame (out + 2 * Suc n) out src dst st
      = codec_loop frame ((out + 2) + 2 * n) (out + 2) (src + 1) dst2 st2"
    by (subst codec_loop.simps) (use g 1 2 p q in \<open>simp add: Let_def\<close>)
  also have "\<dots> = (case dec_run (SI_Dec st2) (PV_Dec st2) (nibbles (take n (drop (src + 1) frame))) of
       (vs, si, pv) \<Rightarrow> Some (take (out + 2) dst2 @ vs @ drop (out + 2 + 2 * n) dst2,
         st2\<lparr>SI_Dec := si, PV_Dec := pv\<rparr>))"
    using Suc.prems ima_index_bounds by (intro Suc.IH) (auto simp: dst2_def st2_def st1_def)
  finally have l: "codec_loop frame (out + 2 * Suc n) out src dst st = \<dots>" .
  have t: "take (Suc n) (drop src frame) = ?b # take n (drop (src + 1) frame)"
    using Suc.prems by (metis Suc_eq_plus1 Cons_nth_drop_Suc add_Suc_right le_add1 less_le_trans
        less_Suc_eq_le take_Suc_Cons add_leD1 le_imp_less_Suc)
  show ?case
    unfolding l t nibbles_Cons dec_run_append2
    using Suc.prems
    by (simp add: Let_def v_def [symmetric] w_def [symmetric] st1_def st2_def dst2_def min_def
        add.commute [of out] split: prod.splits)
qed

section \<open>Decoding a packet\<close>

lemma copy_samples_eq:
  "n \<le> length src \<Longrightarrow> n \<le> length dst \<Longrightarrow> copy_samples dst src n = Some (take n src @ drop n dst)"
proof (induction n)
  case (Suc n)
  then have "drop n dst = dst ! n # drop (Suc n) dst" by (simp add: Cons_nth_drop_Suc)
  with Suc show ?case by (simp add: carr_simps take_Suc_conv_app_nth)
qed simp

text \<open>The header of a packet: the predicted value and the step index of the sender.\<close>

definition hdr_value :: "byte list \<Rightarrow> int" where
  "hdr_value inp = wrap16 (uint (inp ! 0) + 256 * uint (inp ! 1))"

definition hdr_index :: "byte list \<Rightarrow> int" where
  "hdr_index inp = wrap8 (uint (inp ! 2))"

lemma hdr_value_bounds: "- 32768 \<le> hdr_value inp" "hdr_value inp \<le> 32767"
  using wrap16_bounds by (auto simp: hdr_value_def)

lemma hdr_index_ok: "0 \<le> hdr_index inp \<and> hdr_index inp \<le> 88 \<longleftrightarrow> uint (inp ! 2) \<le> 88"
  using uint_lt2p [of "inp ! 2"] by (auto simp: hdr_index_def wrap8_byte)

text \<open>The codes of a packet with \<open>n\<close> bytes of data and what the decoder makes of them.\<close>

definition packet_codes :: "byte list \<Rightarrow> nat \<Rightarrow> byte list" where
  "packet_codes inp n = nibbles (take n (drop 3 inp))"

definition packet_run :: "byte list \<Rightarrow> nat \<Rightarrow> int list \<times> int \<times> int" where
  "packet_run inp n = dec_run (hdr_index inp) (hdr_value inp) (packet_codes inp n)"

lemma RAS_Decode_head:
  assumes "n \<le> 125" "3 \<le> length inp"
  shows "RAS_Decode opt (Some inp) (int n + 3) (Some obuf) st = do {
      (obuf, st) \<leftarrow> RAS_option opt (drop 3 inp) (n * 4) (hdr_index inp) (hdr_value inp) obuf st;
      Some (0, 4 * int n, Some obuf, st) }"
proof -
  have g: "arr_get inp 0 = Some (inp ! 0)" "arr_get inp (Suc 0) = Some (inp ! Suc 0)"
    "arr_get inp 2 = Some (inp ! 2)"
    using assms by (auto simp: arr_get_def)
  have n: "nat (int n * 4) = n * 4" "(int n * 4) mod 65536 = 4 * int n" "int n mod 65536 = int n"
    using assms by (auto simp: nat_mult_distrib)
  show ?thesis
    unfolding RAS_Decode_def using assms
    by (simp add: g n MAX_INPUT_BUF_SIZE_def hdr_value_def hdr_index_def
        push_bit_eq_mult mult.commute [of "uint _"])
qed

definition decoded_packet :: "byte list \<Rightarrow> nat \<Rightarrow> int list \<Rightarrow> int list" where
  "decoded_packet inp n obuf = fst (packet_run inp n) @ drop (2 * n) obuf"

lemma length_packet_run: "n + 3 \<le> length inp \<Longrightarrow> length (fst (packet_run inp n)) = 2 * n"
  by (cases "packet_run inp n") (auto dest!: dec_run_length simp: packet_run_def packet_codes_def)

lemma RAS_Decode_ok:
  assumes "n \<le> 125" "n + 3 \<le> length inp" "uint (inp ! 2) \<le> 88"
    and "length (per_buff st) = 512" "4 * n \<le> length obuf"
  shows "RAS_Decode RAS_DECODE_TI_TYPE1 (Some inp) (int n + 3) (Some obuf) st =
    (let obuf' = decoded_packet inp n obuf;
         st' = st\<lparr>PV_Dec := snd (snd (packet_run inp n)), SI_Dec := fst (snd (packet_run inp n))\<rparr>
     in Some (0, 4 * int n, Some obuf',
          if ras_pec_mode st = 1
          then st'\<lparr>per_buff := take (4 * n) obuf' @ drop (4 * n) (per_buff st)\<rparr> else st'))"
proof -
  obtain vs si pv where r: "packet_run inp n = (vs, si, pv)" by (cases "packet_run inp n") auto
  have v: "length vs = 2 * n" using length_packet_run [OF assms(2)] r by simp
  define st0 where "st0 = st\<lparr>PV_Dec := hdr_value inp, SI_Dec := hdr_index inp\<rparr>"
  have c: "codec_loop (drop 3 inp) (0 + 2 * n) 0 0 obuf st0
      = Some (vs @ drop (2 * n) obuf, st0\<lparr>SI_Dec := si, PV_Dec := pv\<rparr>)"
    using assms hdr_index_ok [of inp] r
    by (subst codec_loop_eq) (auto simp: st0_def packet_run_def packet_codes_def)
  have s: "drop_bit (Suc 0) (n * 4) = 2 * n" by (simp add: drop_bit_Suc)
  have d: "codec_DecodeBuff obuf (drop 3 inp) (n * 4) (hdr_index inp) (hdr_value inp) st
      = Some (vs @ drop (2 * n) obuf, si, pv, st\<lparr>PV_Dec := pv, SI_Dec := si\<rparr>)"
    using c by (simp add: codec_DecodeBuff_def s st0_def)
  have p: "copy_samples (per_buff st) (vs @ drop (2 * n) obuf) (n * 4)
      = Some (take (4 * n) (vs @ drop (2 * n) obuf) @ drop (4 * n) (per_buff st))"
    using assms(1,4,5) v by (subst copy_samples_eq) (auto simp: mult.commute)
  show ?thesis
    using assms by (subst RAS_Decode_head)
      (auto simp: r d p decoded_packet_def RAS_option_def ras_const_defs Let_def)
qed

section \<open>Properties\<close>

definition is_int16 :: "int \<Rightarrow> bool" where
  "is_int16 i \<longleftrightarrow> - 32768 \<le> i \<and> i \<le> 32767"

text \<open>
  Claim C16. A packet of at most 125 data bytes behind its three-byte header, passed with a length
  that counts the header (the documentation says it does not), whose step index is at most 88 and
  whose differences fit in 16 bits, is decoded as the reference says: the first samples of the output
  are those of the ADPCM decoder started with the header's predicted value and step index, one for
  each nibble of the data, low nibble first, and the rest of the output buffer is left as it was. The
  reference is that of IMA, with lower limit \<open>-32768\<close>, if none of its samples is that limit; for any
  samples it is the one whose lower limit is \<open>-32767\<close>, as in the source, if the packet does not start
  below it.
\<close>

theorem ras_decode_is_ima:
  assumes "n \<le> 125" "n + 3 \<le> length inp" "uint (inp ! 2) \<le> 88"
    and "length (per_buff st) = 512" "4 * n \<le> length obuf"
    and "ima_fits (hdr_index inp) (packet_codes inp n)"
  shows "\<exists>vs st'. RAS_Decode RAS_DECODE_TI_TYPE1 (Some inp) (int n + 3) (Some obuf) st =
      Some (0, 4 * int n, Some (vs @ drop (2 * n) obuf), st') \<and> length vs = 2 * n \<and>
    (list_all (\<lambda>v. - 32768 < v) (ima_decode (- 32768) (hdr_index inp) (hdr_value inp) (packet_codes inp n)) \<longrightarrow>
      vs = ima_decode (- 32768) (hdr_index inp) (hdr_value inp) (packet_codes inp n)) \<and>
    (- 32768 < hdr_value inp \<longrightarrow> vs = ima_decode (- 32767) (hdr_index inp) (hdr_value inp) (packet_codes inp n))"
proof -
  let ?vs = "fst (packet_run inp n)" and ?cs = "packet_codes inp n"
  have h: "0 \<le> hdr_index inp" "hdr_index inp \<le> 88" "- 32768 \<le> hdr_value inp" "hdr_value inp \<le> 32767"
    using assms(3) hdr_index_ok [of inp] hdr_value_bounds by auto
  have "?vs = ima_decode lo (hdr_index inp) (hdr_value inp) ?cs"
    if "limit_ok lo (hdr_index inp) (hdr_value inp) ?cs" "lo \<le> hdr_value inp" for lo
    unfolding packet_run_def using assms(6) h that by (intro dec_run_ima) auto
  note run = this [of "- 32768"] this [of "- 32767"]
  have "(- 32767 \<le> v) = (- 32768 < v)" for v :: int by linarith
  then show ?thesis
    using run RAS_Decode_ok [OF assms(1-5)] h(3) length_packet_run [OF assms(2)]
    by (simp add: decoded_packet_def Let_def limit_ok_def)
qed

theorem ras_decode_is_ima_witness:
  "\<exists>st'. RAS_Decode RAS_DECODE_TI_TYPE1 (Some [0x10, 0, 1, 0x7F]) 4 (Some [9, 9, 9, 9]) ras_start =
    Some (0, 4, Some [1, 32, 9, 9], st')"
proof -
  let ?i = "[0x10, 0, 1, 0x7F] :: byte list"
  have c: "packet_codes ?i 1 = [0xF, 7]" by (simp add: packet_codes_def nibbles_def)
  have h: "hdr_index ?i = 1" "hdr_value ?i = 16" by (simp_all add: hdr_index_def hdr_value_def)
  have s: "ima_steps ! 1 = 8" "ima_steps ! 9 = 17" by (simp_all add: ima_steps_def)
  have x: "ima_index 1 0xF = 9" by (simp add: ima_index_def ima_adjust_def)
  have d: "ima_diff 8 0xF = 15" "ima_diff 17 7 = 31" by (simp_all add: ima_diff_def)
  have v: "ima_decode (- 32768) 1 16 [0xF, 7] = [1, 32]"
    by (simp add: Let_def s [simplified] x d ima_value_def)
  have f: "ima_fits 1 [0xF, 7]" by (simp add: s [simplified] x d)
  show ?thesis
    using ras_decode_is_ima [of 1 ?i ras_start "[9, 9, 9, 9]"]
    by (auto simp: c [simplified] h v f ras_start_def simp del: ima_decode.simps ima_fits.simps)
qed

text \<open>
  Claim C33. A packet with at least one byte of data, passed with a correct length and an output
  buffer of the size the documentation asks for, is decoded without an access outside an array if
  and only if the step index in its header is at most 88: the decoder does not check it before
  the first table look-up.
\<close>

theorem ras_decode_safe_iff:
  assumes "0 < n" "n \<le> 125" "n + 3 \<le> length inp"
    and "length (per_buff st) = 512" "4 * n \<le> length obuf"
  shows "RAS_Decode RAS_DECODE_TI_TYPE1 (Some inp) (int n + 3) (Some obuf) st \<noteq> None \<longleftrightarrow>
    uint (inp ! 2) \<le> 88"
proof (cases "uint (inp ! 2) \<le> 88")
  case True
  then show ?thesis using RAS_Decode_ok [OF assms(2,3) True assms(4,5)] by (simp add: Let_def)
next
  case False
  define st0 where "st0 = st\<lparr>PV_Dec := hdr_value inp, SI_Dec := hdr_index inp\<rparr>"
  have "lut_get codec_stepsize_Lut (hdr_index inp) = None"
    using False hdr_index_ok [of inp] by (auto simp: lut_get_def arr_get_def)
  then have "codec_DecodeSingle c st0 = None" for c
    by (simp add: codec_DecodeSingle_def st0_def)
  then have "codec_loop (drop 3 inp) (drop_bit 1 (n * 4)) 0 0 obuf st0 = None"
    using assms(1) by (subst codec_loop.simps) (auto simp: drop_bit_Suc split: bind_splits)
  then show ?thesis
    using False assms by (subst RAS_Decode_head)
      (auto simp: RAS_option_def ras_const_defs codec_DecodeBuff_def st0_def)
qed

theorem ras_decode_safe_iff_witness:
  "RAS_Decode RAS_DECODE_TI_TYPE1 (Some [0, 0, 88, 0x7F]) 4 (Some [0, 0, 0, 0]) ras_start \<noteq> None \<and>
   RAS_Decode RAS_DECODE_TI_TYPE1 (Some [0, 0, 89, 0x7F]) 4 (Some [0, 0, 0, 0]) ras_start = None"
  using ras_decode_safe_iff [of 1 "[0, 0, 88, 0x7F]" ras_start "[0, 0, 0, 0]"]
    ras_decode_safe_iff [of 1 "[0, 0, 89, 0x7F]" ras_start "[0, 0, 0, 0]"]
  by (simp add: ras_start_def del: not_None_eq)

text \<open>
  With error concealment on, a lost packet is replaced by the last one: after a packet
  has been decoded, reporting a lost packet of the same length puts into the output the very
  samples that the decoder had put there, and leaves the library's state alone. The replayed part
  is twice as long as what was decoded: behind the decoded samples it holds what the caller's
  buffer held there before the decoding.
\<close>

lemma lost_packet_replays:
  assumes "n \<le> 125" "n + 3 \<le> length inp" "uint (inp ! 2) \<le> 88"
    and "length (per_buff st) = 512" "4 * n \<le> length obuf" "ras_pec_mode st = RAS_PEC_MODE1"
    and "RAS_Decode RAS_DECODE_TI_TYPE1 (Some inp) (int n + 3) (Some obuf) st = Some (0, olen, Some dec, st')"
    and "3 \<le> length inp2" "4 * n \<le> length obuf2"
  shows "RAS_Decode RAS_PACKET_LOST (Some inp2) (int n + 3) (Some obuf2) st' =
      Some (0, olen, Some (take (4 * n) dec @ drop (4 * n) obuf2), st') \<and>
    take (2 * n) dec = fst (packet_run inp n) \<and> drop (2 * n) dec = drop (2 * n) obuf"
proof -
  let ?d = "decoded_packet inp n obuf"
  have d: "dec = ?d" "olen = 4 * int n" "ras_pec_mode st' = 1"
    "per_buff st' = take (4 * n) ?d @ drop (4 * n) (per_buff st)"
    using RAS_Decode_ok [OF assms(1-5)] assms(6,7) by (auto simp: Let_def ras_const_defs)
  have l: "length (fst (packet_run inp n)) = 2 * n" using length_packet_run [OF assms(2)] .
  then have ld: "4 * n \<le> length ?d" using assms(5) by (simp add: decoded_packet_def)
  have "copy_samples obuf2 (per_buff st') (n * 4) = Some (take (4 * n) ?d @ drop (4 * n) obuf2)"
    using assms(9) ld by (subst copy_samples_eq) (auto simp: d mult.commute)
  then show ?thesis
    using assms l by (subst RAS_Decode_head)
      (auto simp: RAS_option_def ras_const_defs d decoded_packet_def)
qed

lemma diff_mono:
  "s \<le> m \<Longrightarrow> s + s div 2 + s div 4 + s div 8 \<le> m + m div 2 + m div 4 + (m :: int) div 8"
  by (intro add_mono zdiv_mono1) auto

text \<open>
  Where the difference of a code does not fit in 16 bits, which happens from step index
  82 on, the decoder does not saturate: the 16-bit accumulator turns negative, both limit
  tests are missed, and the sample is the exact sum reduced modulo 65536, so that a loud step
  upwards from a value that is not negative comes out at most at 28667 where the reference gives
  the maximum 32767.
\<close>

lemma difference_overflow_wraps:
  assumes "0 \<le> SI_Dec st" "SI_Dec st \<le> 88" "is_int16 (PV_Dec st)" "unat c < 16"
    and "d = ima_diff (codec_stepsize_Lut ! nat (SI_Dec st)) c" "32767 < d"
  shows "\<exists>v st'. codec_DecodeSingle c st = Some (v, st') \<and>
    v = wrap16 (if bit c 3 then PV_Dec st - d else PV_Dec st + d) \<and> 82 \<le> SI_Dec st \<and>
    (\<not> bit c 3 \<and> 0 \<le> PV_Dec st \<longrightarrow> v \<le> 28667 \<and> ima_value (- 32768) (PV_Dec st) d c = 32767)"
proof -
  let ?s = "codec_stepsize_Lut ! nat (SI_Dec st)"
  have s: "0 \<le> ?s" "?s \<le> 32767" using stepsize_bounds [of "nat (SI_Dec st)"] assms(1,2) by (auto simp: nat_less_iff)
  have d: "d \<le> ?s + ?s div 2 + ?s div 4 + ?s div 8" using s unfolding assms(5) ima_diff_def by auto
  then have d2: "d \<le> 61436" using diff_mono [OF s(2)] by simp
  have w: "wrap16 d = d - 65536"
    using assms(6) d2 mod_pos_pos_trivial [of "d - 32768" 65536] mod_add_self2 [of "d - 32768" 65536]
    by (simp add: wrap16_def add.commute)
  have i82: "82 \<le> SI_Dec st"
  proof (rule ccontr)
    assume "\<not> 82 \<le> SI_Dec st"
    then have "codec_stepsize_Lut ! nat (SI_Dec st) \<in> set (take 82 codec_stepsize_Lut)"
      using assms(1) by (auto simp: in_set_conv_nth intro!: exI [of _ "nat (SI_Dec st)"])
    then have "?s \<le> 16818" unfolding codec_stepsize_Lut_def by auto
    then show False using d assms(6) diff_mono [of ?s 16818] by simp
  qed
  have v: "decoded_value (PV_Dec st) d c = wrap16 (if bit c 3 then PV_Dec st - d else PV_Dec st + d)"
    using assms(3,6) d2 wrap16_add2 [of "PV_Dec st" d] wrap16_diff [of "PV_Dec st" d]
    by (auto simp: decoded_value_def w is_int16_def)
  have "\<not> bit c 3 \<and> 0 \<le> PV_Dec st \<Longrightarrow> wrap16 (PV_Dec st + d) = PV_Dec st + d - 65536"
    using assms(3,6) d2 wrap16_add2 [of "PV_Dec st" d] by (simp add: w is_int16_def)
  with v i82 d2 assms show ?thesis
    by (auto simp: codec_DecodeSingle_eq Let_def ima_value_def is_int16_def)
qed

end
