(* ===== verification/C_Num.thy ===== *)
theory C_Num
  imports C_Text
begin

text \<open>
  \<open>strtol\<close> and \<open>strtoul\<close> of a number written in base 10 or, with base 0, in the base that its
  prefix names (\<open>0x\<close> hexadecimal, \<open>0\<close> octal, otherwise decimal). \<open>long\<close> has 64 bits. Each
  function returns the value and the text behind the number (the whole text when there is none),
  which is what \<open>endptr\<close> points to. Also the division of C.
\<close>

definition digit_val :: "byte \<Rightarrow> nat" where
  "digit_val b =
     (if is_digit b then unat b - 48
      else if 97 \<le> b \<and> b \<le> 102 then unat b - 87
      else if 65 \<le> b \<and> b \<le> 70 then unat b - 55
      else 99)"

fun num_scan :: "nat \<Rightarrow> nat \<Rightarrow> cstr \<Rightarrow> nat \<times> cstr" where
  "num_scan base acc [] = (acc, [])"
| "num_scan base acc (c # r) =
     (if digit_val c < base then num_scan base (acc * base + digit_val c) r else (acc, c # r))"

fun has_digit :: "nat \<Rightarrow> cstr \<Rightarrow> bool" where
  "has_digit base [] \<longleftrightarrow> False"
| "has_digit base (c # r) \<longleftrightarrow> digit_val c < base"

definition hex_prefix :: "cstr \<Rightarrow> bool" where
  "hex_prefix s \<longleftrightarrow> take 1 s = [48] \<and> (take 1 (drop 1 s) = [120] \<or> take 1 (drop 1 s) = [88]) \<and>
     has_digit 16 (drop 2 s)"

definition num_base0 :: "cstr \<Rightarrow> (nat \<times> cstr) option" where
  "num_base0 s =
     (if hex_prefix s then Some (num_scan 16 0 (drop 2 s))
      else let base = (if take 1 s = [48] then 8 else 10)
           in if has_digit base s then Some (num_scan base 0 s) else None)"

definition num_base10 :: "cstr \<Rightarrow> (nat \<times> cstr) option" where
  "num_base10 s = (if has_digit 10 s then Some (num_scan 10 0 s) else None)"

text \<open>White space and the sign before a number: whether it is negative, and the rest.\<close>

definition num_sign :: "cstr \<Rightarrow> bool \<times> cstr" where
  "num_sign s =
     (case dropWhile is_space s of
        [] \<Rightarrow> (False, [])
      | c # r \<Rightarrow> if c = 45 then (True, r) else if c = 43 then (False, r) else (False, c # r))"

definition clamp_long :: "int \<Rightarrow> int" where
  "clamp_long i = max (- (2 ^ 63)) (min (2 ^ 63 - 1) i)"

definition strtol_with :: "(cstr \<Rightarrow> (nat \<times> cstr) option) \<Rightarrow> cstr \<Rightarrow> int \<times> cstr" where
  "strtol_with f s =
     (let (neg, t) = num_sign s
      in case f t of
           None \<Rightarrow> (0, s)
         | Some (n, r) \<Rightarrow> (clamp_long (if neg then - int n else int n), r))"

definition strtoul_with :: "(cstr \<Rightarrow> (nat \<times> cstr) option) \<Rightarrow> cstr \<Rightarrow> int \<times> cstr" where
  "strtoul_with f s =
     (let (neg, t) = num_sign s
      in case f t of
           None \<Rightarrow> (0, s)
         | Some (n, r) \<Rightarrow>
             (if 2 ^ 64 \<le> n then 2 ^ 64 - 1 else if neg then (- int n) mod 2 ^ 64 else int n, r))"

abbreviation (input) strtol0 :: "cstr \<Rightarrow> int \<times> cstr" where
  "strtol0 \<equiv> strtol_with num_base0"

abbreviation (input) strtol10 :: "cstr \<Rightarrow> int \<times> cstr" where
  "strtol10 \<equiv> strtol_with num_base10"

abbreviation (input) strtoul0 :: "cstr \<Rightarrow> int \<times> cstr" where
  "strtoul0 \<equiv> strtoul_with num_base0"

text \<open>Division and remainder of C, which round to zero, for a positive divisor.\<close>

definition c_quot :: "int \<Rightarrow> int \<Rightarrow> int" where
  "c_quot a b = sgn a * (\<bar>a\<bar> div b)"

definition c_rem :: "int \<Rightarrow> int \<Rightarrow> int" where
  "c_rem a b = sgn a * (\<bar>a\<bar> mod b)"

section \<open>Facts\<close>

lemma digit_val_digit: "is_digit b \<Longrightarrow> digit_val b = unat b - 48 \<and> digit_val b < 10"
  by (auto simp: digit_val_def is_digit_def word_le_nat_alt)

lemma digit_val_less_10: "digit_val b < 10 \<longleftrightarrow> is_digit b"
proof (cases "is_digit b")
  case False
  then show ?thesis by (auto simp: digit_val_def word_le_nat_alt)
qed (use digit_val_digit [of b] in simp)

lemma num_scan_dec: "num_scan 10 acc s = (dec_value acc s, dropWhile is_digit s)"
proof (induction s arbitrary: acc)
  case (Cons c s)
  then show ?case
    using digit_val_digit [of c] by (auto simp: digit_val_less_10 mult.commute)
qed simp

lemma num_scan_rest: "num_scan base acc s = (n, r) \<Longrightarrow> length r \<le> length s"
  by (induction base acc s rule: num_scan.induct) (auto split: if_splits)

lemma dec_nat_Cons: "\<exists>b bs. dec_nat n = b # bs \<and> is_digit b"
  using dec_nat_nonempty [of n] dec_nat_digits [of n] by (cases "dec_nat n") auto

text \<open>Printing an integer and reading it in base 10 gives the integer back.\<close>

lemma strtol10_dec_int:
  assumes "- (2 ^ 63) \<le> i" "i < 2 ^ 63" "r = [] \<or> \<not> is_digit (hd r)"
  shows "strtol10 (dec_int i @ r) = (i, r)"
proof -
  obtain b bs where d: "dec_nat (nat \<bar>i\<bar>) = b # bs" "is_digit b" using dec_nat_Cons by blast
  have v: "dec_value 0 (dec_nat n @ r) = n" for n
    using assms(3) dec_value_stop [OF dec_nat_digits] dec_value_dec_nat by (cases r) auto
  have s: "dropWhile is_digit (dec_nat n @ r) = r" for n
    using dec_nat_digits [of n] assms(3) by (subst dropWhile_append2) (auto simp: list_all_iff, cases r, auto)
  have b10: "num_base10 (dec_nat n @ r) = Some (n, r)" for n
    using dec_nat_Cons [of n] v [of n] s [of n] unfolding num_base10_def num_scan_dec
    by (auto simp: digit_val_less_10)
  have "num_sign (dec_int i @ r) = (i < 0, dec_nat (nat \<bar>i\<bar>) @ r)"
    using d is_digit_not [OF d(2)]
    by (cases "i < 0") (auto simp: dec_int_def num_sign_def lit_def is_space_def)
  then show ?thesis using assms(1,2) by (auto simp: strtol_with_def b10 clamp_long_def)
qed

lemma c_rem_range: "0 \<le> a \<Longrightarrow> 0 < b \<Longrightarrow> 0 \<le> c_rem a b \<and> c_rem a b < b"
  by (cases "a = 0") (auto simp: c_rem_def sgn_if)

lemma c_rem_above: "0 < b \<Longrightarrow> c_rem a b < b"
  by (auto simp: c_rem_def sgn_if abs_if intro: le_less_trans [of _ 0])

lemma c_quot_nonneg: "0 \<le> a \<Longrightarrow> 0 < b \<Longrightarrow> c_quot a b = a div b"
  by (cases "a = 0") (simp_all add: c_quot_def)

lemma c_rem_nonneg: "0 \<le> a \<Longrightarrow> c_rem a b = a mod b"
  by (cases "a = 0") (simp_all add: c_rem_def)

lemma dec_value_digit:
  assumes "0 \<le> d" "d < 10"
  shows "dec_value acc (word_of_int (48 + d) # bs) = dec_value (10 * acc + nat d) bs"
proof -
  have "d \<in> {0, 1, 2, 3, 4, 5, 6, 7, 8, 9}" using assms by (simp, presburger)
  then show ?thesis by (elim insertE) (simp_all add: is_digit_def)
qed

end
