(* ===== verification/Gpio_Files.thy ===== *)
theory Gpio_Files
  imports C_Num
begin

text \<open>
  The file operations of the GPIO mailbox: \<open>src/gpio-mailbox/fileops.c\<close>. The mailbox talks to
  other programs through small text files, which it replaces as a whole: a number is written to
  a temporary file that is then renamed over the old one.

  The file system is a record: the contents of each file, which files can be opened and read,
  how many bytes a file takes before the disk is full (\<open>room\<close>), and a trail of all contents after
  each system call, which is what a concurrent reader can see.
\<close>

section \<open>Names\<close>

lemma of_char_byte: "(of_char c :: byte) = word_of_nat (of_char c)"
  by (simp add: of_nat_of_char)

lemma of_char_byte_eq: "(of_char c :: byte) = of_char d \<longleftrightarrow> c = d"
proof
  assume "(of_char c :: byte) = of_char d"
  then have "take_bit 8 (of_char c :: nat) = take_bit 8 (of_char d)"
    unfolding of_char_byte by (simp add: word_of_nat_eq_iff)
  moreover have "take_bit 8 (of_char x :: nat) = of_char x" for x
    using nat_of_char_less_256 [of x] by (simp add: take_bit_nat_eq_self_iff)
  ultimately show "c = d" by simp
qed simp

lemma lit_eq [simp]: "lit a = lit b \<longleftrightarrow> a = b"
  unfolding lit_def by (rule inj_map_eq_map) (auto simp: inj_def of_char_byte_eq)

section \<open>The file system\<close>

record fsys =
  contents :: "cstr \<Rightarrow> cstr option"
  can_open :: "cstr \<Rightarrow> bool"
  can_read :: "cstr \<Rightarrow> bool"
  room :: "cstr \<Rightarrow> nat"
  trail :: "(cstr \<Rightarrow> cstr option) list"

definition fs_set :: "(cstr \<Rightarrow> cstr option) \<Rightarrow> fsys \<Rightarrow> fsys" where
  "fs_set c fs = fs\<lparr>contents := c, trail := trail fs @ [c]\<rparr>"

text \<open>\<open>open\<close> with \<open>O_RDONLY\<close> and one \<open>read\<close> of at most \<open>n\<close> bytes.\<close>

datatype fs_read = No_File | Read_Failed | Read_Bytes cstr

definition fs_read_file :: "cstr \<Rightarrow> nat \<Rightarrow> fsys \<Rightarrow> fs_read" where
  "fs_read_file name n fs =
     (case contents fs name of
        None \<Rightarrow> No_File
      | Some bs \<Rightarrow> if \<not> can_open fs name then No_File
                   else if can_read fs name then Read_Bytes (take n bs) else Read_Failed)"

definition fs_unlink :: "cstr \<Rightarrow> fsys \<Rightarrow> bool \<times> fsys" where
  "fs_unlink name fs =
     (case contents fs name of
        None \<Rightarrow> (False, fs)
      | Some _ \<Rightarrow> (True, fs_set ((contents fs)(name := None)) fs))"

definition fs_rename :: "cstr \<Rightarrow> cstr \<Rightarrow> fsys \<Rightarrow> int \<times> fsys" where
  "fs_rename old new fs =
     (case contents fs old of
        None \<Rightarrow> (- 1, fs)
      | Some bs \<Rightarrow> (0, fs_set ((contents fs)(old := None, new := Some bs)) fs))"

section \<open>fileops.c\<close>

definition read_file_long :: "cstr \<Rightarrow> fsys \<Rightarrow> int" where
  "read_file_long name fs =
     (case fs_read_file name 31 fs of
        No_File \<Rightarrow> - 1
      | Read_Failed \<Rightarrow> - 1
      | Read_Bytes bs \<Rightarrow> fst (strtol10 (cstr_of bs)))"

definition write_file_string :: "cstr \<Rightarrow> cstr \<Rightarrow> fsys \<Rightarrow> int \<times> fsys" where
  "write_file_string name content fs =
     (if can_open fs name then
        (let fs = fs_set ((contents fs)(name := Some [])) fs;
             fs = fs_set ((contents fs)(name := Some (take (room fs name) content))) fs
         in (0, fs))
      else (- 1, fs))"

definition tmp_name :: "cstr \<Rightarrow> cstr" where
  "tmp_name name = name @ lit ''.tmp''"

definition write_file_string_atomic :: "cstr \<Rightarrow> cstr \<Rightarrow> fsys \<Rightarrow> int \<times> fsys" where
  "write_file_string_atomic name content fs =
     (let (ret, fs) = write_file_string (tmp_name name) content fs
      in if ret \<ge> 0 then fs_rename (tmp_name name) name fs else (- 1, fs))"

text \<open>
  The macro \<open>WRITE_TO_FILE\<close>: \<open>oldv\<close> is the value behind the pointer, \<open>None\<close> for a null pointer;
  \<open>fmt\<close> is the text of a value, cut at the 127 bytes that fit the buffer.
\<close>

definition WRITE_TO_FILE ::
    "cstr \<Rightarrow> int option \<Rightarrow> int \<Rightarrow> bool \<Rightarrow> (int \<Rightarrow> cstr) \<Rightarrow> fsys \<Rightarrow> int option \<times> fsys" where
  "WRITE_TO_FILE name oldv newv atomic fmt fs =
     (if oldv = None \<or> oldv \<noteq> Some newv then
        (let buf = take 127 (fmt newv);
             fs = snd (if atomic then write_file_string_atomic name buf fs
                       else write_file_string name buf fs)
         in (map_option (\<lambda>_. newv) oldv, fs))
      else (oldv, fs))"

definition write_file_longlong_atomic :: "cstr \<Rightarrow> int option \<Rightarrow> int \<Rightarrow> fsys \<Rightarrow> int option \<times> fsys" where
  "write_file_longlong_atomic name oldv newv fs = WRITE_TO_FILE name oldv newv True dec_int fs"

definition write_file_int_atomic :: "cstr \<Rightarrow> int option \<Rightarrow> int \<Rightarrow> fsys \<Rightarrow> int option \<times> fsys" where
  "write_file_int_atomic name oldv newv fs = WRITE_TO_FILE name oldv newv True dec_int fs"

definition write_file_longlong :: "cstr \<Rightarrow> int option \<Rightarrow> int \<Rightarrow> fsys \<Rightarrow> int option \<times> fsys" where
  "write_file_longlong name oldv newv fs = WRITE_TO_FILE name oldv newv False dec_int fs"

definition write_file_int :: "cstr \<Rightarrow> int option \<Rightarrow> int \<Rightarrow> fsys \<Rightarrow> int option \<times> fsys" where
  "write_file_int name oldv newv fs = WRITE_TO_FILE name oldv newv False dec_int fs"

text \<open>
  The values of type \<open>double\<close> that the mailbox writes are thousandths (\<open>x / 1000.0\<close>), kept here
  as the integer \<open>x\<close>; two such values differ as doubles when they differ as integers. \<open>fmt2\<close> is
  the text \<open>printf\<close> makes of the double with \<open>%.2f\<close>.
\<close>

definition write_file_double_atomic ::
    "(int \<Rightarrow> cstr) \<Rightarrow> cstr \<Rightarrow> int option \<Rightarrow> int \<Rightarrow> fsys \<Rightarrow> int option \<times> fsys" where
  "write_file_double_atomic fmt2 name oldv newv fs = WRITE_TO_FILE name oldv newv True fmt2 fs"

definition write_file_double ::
    "(int \<Rightarrow> cstr) \<Rightarrow> cstr \<Rightarrow> int option \<Rightarrow> int \<Rightarrow> fsys \<Rightarrow> int option \<times> fsys" where
  "write_file_double fmt2 name oldv newv fs = WRITE_TO_FILE name oldv newv False fmt2 fs"

section \<open>What the operations keep\<close>

lemma fs_set_simps [simp]:
  "contents (fs_set c fs) = c" "can_open (fs_set c fs) = can_open fs"
  "can_read (fs_set c fs) = can_read fs" "room (fs_set c fs) = room fs"
  "trail (fs_set c fs) = trail fs @ [c]"
  by (simp_all add: fs_set_def)

text \<open>What stays the same in every operation: the access rights and the disk.\<close>

definition same_disk :: "fsys \<Rightarrow> fsys \<Rightarrow> bool" where
  "same_disk a b \<longleftrightarrow> can_open a = can_open b \<and> can_read a = can_read b \<and> room a = room b"

lemma same_disk_refl [simp]: "same_disk a a"
  by (simp add: same_disk_def)

lemma same_disk_trans: "same_disk a b \<Longrightarrow> same_disk b c \<Longrightarrow> same_disk a c"
  by (simp add: same_disk_def)

lemma same_disk_set [simp]: "same_disk a (fs_set c b) = same_disk a b"
  by (simp add: same_disk_def)

lemma tmp_name_neq [simp]: "tmp_name n \<noteq> n" "n \<noteq> tmp_name n"
  by (simp_all add: tmp_name_def lit_def)

lemma same_disk_unlink [frame_simps]: "same_disk a (snd (fs_unlink n b)) = same_disk a b"
  by (simp add: fs_unlink_def split: option.split)

lemma same_disk_write_string: "same_disk a (snd (write_file_string n c b)) = same_disk a b"
  by (simp add: write_file_string_def Let_def)

lemma same_disk_atomic: "same_disk a (snd (write_file_string_atomic n c b)) = same_disk a b"
  by (simp add: write_file_string_atomic_def write_file_string_def fs_rename_def Let_def split: option.split)

lemma same_disk_WRITE [frame_simps]: "same_disk a (snd (WRITE_TO_FILE n ov v at f b)) = same_disk a b"
  by (simp add: WRITE_TO_FILE_def Let_def same_disk_write_string same_disk_atomic)

lemma write_string_contents:
  "can_open fs name \<Longrightarrow>
     contents (snd (write_file_string name s fs)) = (contents fs)(name := Some (take (room fs name) s))"
  by (simp add: write_file_string_def Let_def fun_eq_iff)

lemma atomic_contents:
  "can_open fs (tmp_name name) \<Longrightarrow>
     contents (snd (write_file_string_atomic name s fs)) =
       (contents fs)(tmp_name name := None, name := Some (take (room fs (tmp_name name)) s))"
  by (auto simp: write_file_string_atomic_def write_file_string_def fs_rename_def Let_def fun_eq_iff)

lemma atomic_closed: "\<not> can_open fs (tmp_name name) \<Longrightarrow> snd (write_file_string_atomic name s fs) = fs"
  by (simp add: write_file_string_atomic_def write_file_string_def)

text \<open>
  The trail grows at its end; \<open>news a b\<close> are the contents a reader can see between \<open>a\<close> and \<open>b\<close>.
\<close>

definition news :: "fsys \<Rightarrow> fsys \<Rightarrow> (cstr \<Rightarrow> cstr option) list" where
  "news a b = drop (length (trail a)) (trail b)"

lemma atomic_news:
  "can_open fs (tmp_name name) \<Longrightarrow>
     trail (snd (write_file_string_atomic name s fs)) = trail fs @
       [(contents fs)(tmp_name name := Some []),
        (contents fs)(tmp_name name := Some (take (room fs (tmp_name name)) s)),
        (contents fs)(tmp_name name := None, name := Some (take (room fs (tmp_name name)) s))]"
  by (auto simp: write_file_string_atomic_def write_file_string_def fs_rename_def Let_def fun_eq_iff)

lemma length_dec_int_bound:
  assumes "- (10 ^ k) < i" "i < 10 ^ k" "0 < k"
  shows "length (dec_int i) \<le> k + 1"
proof -
  have "nat \<bar>i\<bar> < 10 ^ k" using assms by (simp add: nat_less_iff)
  then have "length (dec_nat (nat \<bar>i\<bar>)) \<le> k" using assms(3) by (rule length_dec_nat_bound)
  then show ?thesis by (cases "i < 0") (simp_all add: dec_int_def lit_def)
qed

lemma nul_free_dec_int: "nul_free (dec_int i)"
  by (simp add: dec_int_def dec_nat_nul_free lit_def)

text \<open>A reader of a file that is being replaced sees the old contents or the whole new number.\<close>

lemma write_atomic_readers:
  assumes "c \<in> set (news fs (snd (write_file_longlong_atomic name oldv v fs)))"
    and "20 \<le> room fs (tmp_name name)" "- (2 ^ 63) \<le> v" "v < 2 ^ 63" "n \<noteq> tmp_name name"
  shows "c n = contents fs n \<or> n = name \<and> c n = Some (dec_int v)"
proof -
  have "length (dec_int v) \<le> 20"
    using length_dec_int_bound [of 19 v] assms(3,4) by simp
  then have t: "take 127 (dec_int v) = dec_int v" "take (room fs (tmp_name name)) (dec_int v) = dec_int v"
    using assms(2) by auto
  show ?thesis
  proof (cases "can_open fs (tmp_name name)")
    case True
    then show ?thesis
      using assms(1,5) t atomic_news [OF True]
      by (auto simp: write_file_longlong_atomic_def WRITE_TO_FILE_def Let_def news_def split: if_splits)
  next
    case False
    then show ?thesis
      using assms(1)
      by (simp add: write_file_longlong_atomic_def WRITE_TO_FILE_def Let_def news_def
          write_file_string_atomic_def write_file_string_def split: if_splits)
  qed
qed

text \<open>A number written to a device file is what a read of the file returns.\<close>

lemma read_write_int:
  assumes "can_open fs name" "can_read fs name" "11 \<le> room fs name" "- (2 ^ 31) \<le> v" "v < 2 ^ 31"
  shows "read_file_long name (snd (write_file_int name None v fs)) = v"
proof -
  have "length (dec_int v) \<le> 11" using length_dec_int_bound [of 10 v] assms(4,5) by simp
  then have t: "take 127 (dec_int v) = dec_int v" "take (room fs name) (dec_int v) = dec_int v"
    "take 31 (dec_int v) = dec_int v" using assms(3) by auto
  then show ?thesis
    using assms strtol10_dec_int [of v "[]"] nul_free_dec_int [of v]
    by (simp add: write_file_int_def WRITE_TO_FILE_def write_file_string_def read_file_long_def
        fs_read_file_def Let_def cstr_simps)
qed
section \<open>Properties\<close>

text \<open>
  Claim C34. A number is replaced as a whole. While \<open>write_file_longlong_atomic\<close> publishes a new
  64-bit value in a file, with room for the 20 bytes of its text in the temporary file, every
  state of the disk that another program can see has the old contents in every file but the
  temporary one, or the complete text of the new value in the published one, so that a reader
  gets the old number or the new one (the published file can be opened and read); and afterwards,
  if the temporary file could be opened and the value was not the published one already, it gets
  the new one.
\<close>

theorem number_replaced_whole:
  assumes "20 \<le> room fs (tmp_name name)" "- (2 ^ 63) \<le> v" "v < 2 ^ 63" "can_read fs name" "can_open fs name"
  shows "(\<forall>c \<in> set (news fs (snd (write_file_longlong_atomic name oldv v fs))).
      (\<forall>n. n \<noteq> tmp_name name \<longrightarrow> c n = contents fs n \<or> n = name \<and> c n = Some (dec_int v)) \<and>
      read_file_long name (fs\<lparr>contents := c\<rparr>) \<in> {read_file_long name fs, v}) \<and>
    (can_open fs (tmp_name name) \<and> oldv \<noteq> Some v \<longrightarrow>
      read_file_long name (snd (write_file_longlong_atomic name oldv v fs)) = v)"
proof -
  have len: "length (dec_int v) \<le> 20" using length_dec_int_bound [of 19 v] assms(2,3) by simp
  have rd: "read_file_long name (fs\<lparr>contents := c\<rparr>) = v" if "c name = Some (dec_int v)" for c
    using that assms(4,5) len strtol10_dec_int [OF assms(2,3), of "[]"] nul_free_dec_int [of v]
    by (simp add: read_file_long_def fs_read_file_def cstr_simps)
  have same: "read_file_long name (fs\<lparr>contents := c\<rparr>) = read_file_long name fs" if "c name = contents fs name" for c
    using that by (simp add: read_file_long_def fs_read_file_def split: option.split)
  have 1: "c n = contents fs n \<or> n = name \<and> c n = Some (dec_int v)"
    if "c \<in> set (news fs (snd (write_file_longlong_atomic name oldv v fs)))" "n \<noteq> tmp_name name" for c n
    using write_atomic_readers [OF that(1) assms(1-3) that(2)] .
  have 2: "read_file_long name (snd (write_file_longlong_atomic name oldv v fs)) = v"
    if "can_open fs (tmp_name name)" "oldv \<noteq> Some v"
  proof -
    let ?b = "snd (write_file_longlong_atomic name oldv v fs)"
    have "contents ?b name = Some (dec_int v)" "can_read ?b = can_read fs" "can_open ?b = can_open fs"
      using that len assms(1) atomic_contents [OF that(1), of "dec_int v"] same_disk_WRITE [of fs name oldv v True dec_int fs]
      by (auto simp: write_file_longlong_atomic_def WRITE_TO_FILE_def Let_def same_disk_def)
    then show ?thesis
      using assms(4,5) len strtol10_dec_int [OF assms(2,3), of "[]"] nul_free_dec_int [of v]
      by (simp add: read_file_long_def fs_read_file_def cstr_simps)
  qed
  have 3: "read_file_long name (fs\<lparr>contents := c\<rparr>) \<in> {read_file_long name fs, v}"
    if "c \<in> set (news fs (snd (write_file_longlong_atomic name oldv v fs)))" for c
    using 1 [OF that tmp_name_neq(2)] rd [of c] same [of c] by auto
  show ?thesis using 1 2 3 by blast
qed

definition sample_fs :: fsys where
  "sample_fs = \<lparr>contents = [lit ''speed'' \<mapsto> lit ''99''], can_open = (\<lambda>_. True), can_read = (\<lambda>_. True),
     room = (\<lambda>_. 100), trail = []\<rparr>"

theorem number_replaced_whole_witness:
  "length (news sample_fs (snd (write_file_longlong_atomic (lit ''speed'') (Some 99) 1234 sample_fs))) = 3 \<and>
   read_file_long (lit ''speed'') (snd (write_file_longlong_atomic (lit ''speed'') (Some 99) 1234 sample_fs)) = 1234 \<and>
   list_all (\<lambda>c. read_file_long (lit ''speed'') (sample_fs\<lparr>contents := c\<rparr>) \<in> {read_file_long (lit ''speed'') sample_fs, 1234})
     (news sample_fs (snd (write_file_longlong_atomic (lit ''speed'') (Some 99) 1234 sample_fs)))"
proof -
  have "length (news sample_fs (snd (write_file_longlong_atomic (lit ''speed'') (Some 99) 1234 sample_fs))) = 3"
    by (simp add: write_file_longlong_atomic_def WRITE_TO_FILE_def news_def atomic_news Let_def sample_fs_def)
  then show ?thesis
    using number_replaced_whole [of sample_fs "lit ''speed''" 1234 "Some 99"]
    by (simp add: list_all_iff) (simp add: sample_fs_def)
qed

end
