(* ===== verification/Gpio_Pins.thy ===== *)
theory Gpio_Pins
  imports Gpio_Files
begin

text \<open>
  The pins of the GPIO mailbox: the interface \<open>src/gpio-mailbox/pin.h\<close> and four of the boards
  that implement it, \<open>gfch100.c\<close>, \<open>gfrg240.c\<close>, \<open>gfiber-lt.c\<close> (device files in sysfs) and
  \<open>windcharger.c\<close> (registers mapped from \<open>/dev/mem\<close>).

  The functions of an implementation are a record \<open>pin_ops\<close> over the state \<open>'h\<close> of its hardware;
  the handle, which is never null once \<open>PinCreate\<close> has succeeded, is part of that state.
  \<open>PinValue\<close> returns its status and the value it stores. What the mailbox relies on is the
  locale \<open>pin_driver\<close>, interpreted on each of the boards.
\<close>

section \<open>pin.h\<close>

datatype PinId =
    PIN_NONE | PIN_LED_RED | PIN_LED_BLUE | PIN_LED_ACTIVITY | PIN_LED_STANDBY | PIN_BUTTON_RESET
  | PIN_TEMP_CPU | PIN_TEMP_EXTERNAL | PIN_MVOLTS_CPU | PIN_FAN_CHASSIS | PIN_MAX

definition PIN_ERROR :: int where "PIN_ERROR = - 1"
definition PIN_OKAY :: int where "PIN_OKAY = 0"

record 'h pin_ops =
  PinIsPresent :: "'h \<Rightarrow> PinId \<Rightarrow> int"
  PinValue :: "'h \<Rightarrow> PinId \<Rightarrow> int \<times> int \<times> 'h"
  PinSetValue :: "'h \<Rightarrow> PinId \<Rightarrow> int \<Rightarrow> int \<times> 'h"

definition is_led :: "PinId \<Rightarrow> bool" where
  "is_led i \<longleftrightarrow> i = PIN_LED_RED \<or> i = PIN_LED_BLUE \<or> i = PIN_LED_ACTIVITY \<or> i = PIN_LED_STANDBY"

section \<open>Boards with device files\<close>

record file_platform =
  name :: cstr
  temp_cpu :: cstr
  led_red :: cstr
  led_blue :: cstr
  led_activity :: cstr

definition set_sysfile :: "cstr \<Rightarrow> int \<Rightarrow> fsys \<Rightarrow> fsys" where
  "set_sysfile s level fs = snd (write_file_int s None level fs)"

definition get_sysfile :: "cstr \<Rightarrow> fsys \<Rightarrow> int" where
  "get_sysfile s fs = wrap_int (read_file_long s fs)"

subsection \<open>gfch100.c\<close>

definition gfch100_platform :: file_platform where
  "gfch100_platform =
     \<lparr>name = lit ''GFCH100'', temp_cpu = lit ''/sys/class/hwmon/hwmon0/temp1_input'',
      led_red = lit ''/dev/gpio/led_red/value'', led_blue = [],
      led_activity = lit ''/dev/gpio/led_activity/value''\<rparr>"

definition gfch100_PinIsPresent :: "fsys \<Rightarrow> PinId \<Rightarrow> int" where
  "gfch100_PinIsPresent h i =
     (case i of PIN_LED_RED \<Rightarrow> 1 | PIN_LED_ACTIVITY \<Rightarrow> 1 | PIN_TEMP_CPU \<Rightarrow> 1 | _ \<Rightarrow> 0)"

definition gfch100_PinValue :: "fsys \<Rightarrow> PinId \<Rightarrow> int \<times> int \<times> fsys" where
  "gfch100_PinValue h i =
     (case i of
        PIN_LED_RED \<Rightarrow> (PIN_OKAY, get_sysfile (led_red gfch100_platform) h, h)
      | PIN_LED_ACTIVITY \<Rightarrow> (PIN_OKAY, get_sysfile (led_activity gfch100_platform) h, h)
      | PIN_TEMP_CPU \<Rightarrow> (PIN_OKAY, get_sysfile (temp_cpu gfch100_platform) h, h)
      | _ \<Rightarrow> (PIN_ERROR, - 1, h))"

definition gfch100_PinSetValue :: "fsys \<Rightarrow> PinId \<Rightarrow> int \<Rightarrow> int \<times> fsys" where
  "gfch100_PinSetValue h i value =
     (case i of
        PIN_LED_RED \<Rightarrow> (PIN_OKAY, set_sysfile (led_red gfch100_platform) value h)
      | PIN_LED_ACTIVITY \<Rightarrow> (PIN_OKAY, set_sysfile (led_activity gfch100_platform) value h)
      | _ \<Rightarrow> (PIN_ERROR, h))"

definition gfch100 :: "fsys pin_ops" where
  "gfch100 = \<lparr>PinIsPresent = gfch100_PinIsPresent, PinValue = gfch100_PinValue,
              PinSetValue = gfch100_PinSetValue\<rparr>"

subsection \<open>gfrg240.c\<close>

definition gfrg240_platform :: file_platform where
  "gfrg240_platform =
     \<lparr>name = lit ''GFRG240'', temp_cpu = lit ''/sys/class/hwmon/hwmon0/temp1_input'',
      led_red = lit ''/sys/class/leds/pca955x:1/brightness'', led_blue = [],
      led_activity = lit ''/sys/class/leds/pca955x:0/brightness''\<rparr>"

definition gfrg240_PinIsPresent :: "fsys \<Rightarrow> PinId \<Rightarrow> int" where
  "gfrg240_PinIsPresent h i =
     (case i of PIN_LED_RED \<Rightarrow> 1 | PIN_LED_ACTIVITY \<Rightarrow> 1 | PIN_TEMP_CPU \<Rightarrow> 1 | _ \<Rightarrow> 0)"

definition gfrg240_PinValue :: "fsys \<Rightarrow> PinId \<Rightarrow> int \<times> int \<times> fsys" where
  "gfrg240_PinValue h i =
     (case i of
        PIN_LED_RED \<Rightarrow> (PIN_OKAY, get_sysfile (led_red gfrg240_platform) h, h)
      | PIN_LED_ACTIVITY \<Rightarrow> (PIN_OKAY, get_sysfile (led_activity gfrg240_platform) h, h)
      | PIN_TEMP_CPU \<Rightarrow> (PIN_OKAY, get_sysfile (temp_cpu gfrg240_platform) h, h)
      | _ \<Rightarrow> (PIN_ERROR, - 1, h))"

text \<open>The percentage scaled to the range of the LED driver; the division of C rounds to zero.\<close>

definition scale_led :: "int \<Rightarrow> int" where
  "scale_led value = (let p = wrap_int (value * 25) in sgn p * (\<bar>p\<bar> div 10))"

definition gfrg240_PinSetValue :: "fsys \<Rightarrow> PinId \<Rightarrow> int \<Rightarrow> int \<times> fsys" where
  "gfrg240_PinSetValue h i value =
     (let scaled = scale_led value
      in case i of
        PIN_LED_RED \<Rightarrow> (PIN_OKAY, set_sysfile (led_red gfrg240_platform) scaled h)
      | PIN_LED_ACTIVITY \<Rightarrow> (PIN_OKAY, set_sysfile (led_activity gfrg240_platform) scaled h)
      | _ \<Rightarrow> (PIN_ERROR, h))"

definition gfrg240 :: "fsys pin_ops" where
  "gfrg240 = \<lparr>PinIsPresent = gfrg240_PinIsPresent, PinValue = gfrg240_PinValue,
              PinSetValue = gfrg240_PinSetValue\<rparr>"

subsection \<open>gfiber-lt.c\<close>

definition gfiber_lt_platform :: file_platform where
  "gfiber_lt_platform =
     \<lparr>name = lit ''GFLT110'', temp_cpu = lit ''/sys/devices/platform/KW2Thermal.0/temp1_input'',
      led_red = lit ''/sys/devices/platform/board/leds:sys-red/brightness'',
      led_blue = lit ''/sys/devices/platform/board/leds:sys-blue/brightness'', led_activity = []\<rparr>"

definition gfiber_lt_PinIsPresent :: "fsys \<Rightarrow> PinId \<Rightarrow> int" where
  "gfiber_lt_PinIsPresent h i =
     (case i of PIN_LED_RED \<Rightarrow> 1 | PIN_LED_BLUE \<Rightarrow> 1 | PIN_TEMP_CPU \<Rightarrow> 1 | _ \<Rightarrow> 0)"

definition gfiber_lt_PinValue :: "fsys \<Rightarrow> PinId \<Rightarrow> int \<times> int \<times> fsys" where
  "gfiber_lt_PinValue h i =
     (case i of
        PIN_LED_RED \<Rightarrow> (PIN_OKAY, get_sysfile (led_red gfiber_lt_platform) h, h)
      | PIN_LED_BLUE \<Rightarrow> (PIN_OKAY, get_sysfile (led_blue gfiber_lt_platform) h, h)
      | PIN_TEMP_CPU \<Rightarrow> (PIN_OKAY, get_sysfile (temp_cpu gfiber_lt_platform) h, h)
      | _ \<Rightarrow> (PIN_ERROR, - 1, h))"

definition gfiber_lt_PinSetValue :: "fsys \<Rightarrow> PinId \<Rightarrow> int \<Rightarrow> int \<times> fsys" where
  "gfiber_lt_PinSetValue h i value =
     (case i of
        PIN_LED_RED \<Rightarrow> (PIN_OKAY, set_sysfile (led_red gfiber_lt_platform) value h)
      | PIN_LED_BLUE \<Rightarrow> (PIN_OKAY, set_sysfile (led_blue gfiber_lt_platform) value h)
      | _ \<Rightarrow> (PIN_ERROR, h))"

definition gfiber_lt :: "fsys pin_ops" where
  "gfiber_lt = \<lparr>PinIsPresent = gfiber_lt_PinIsPresent, PinValue = gfiber_lt_PinValue,
                PinSetValue = gfiber_lt_PinSetValue\<rparr>"

section \<open>windcharger.c\<close>

text \<open>
  The registers \<open>regs\<close> are the 16 words of the mapped area; \<open>reg_log\<close> is the sequence of all
  writes to them. \<open>old_val\<close> of the two LEDs is the level last written. The mapping itself is a
  parameter: whether it succeeds and what the registers hold then.
\<close>

record Gpio =
  shift :: nat
  old_val :: int

record windcharger =
  regs :: "u32 list"
  reg_log :: "(nat \<times> u32) list"
  wc_red :: Gpio
  wc_blue :: Gpio
  wc_reset_shift :: nat
  wc_files :: fsys

definition in_offset :: nat where "in_offset = 1"
definition set_offset :: nat where "set_offset = 3"
definition clear_offset :: nat where "clear_offset = 4"
definition GPIO_OUT_FUNCTION0 :: nat where "GPIO_OUT_FUNCTION0 = 0xB"
definition GPIO_OUT_ENABLE :: nat where "GPIO_OUT_ENABLE = 0"
definition GPIO_CNTL_PER_REG :: nat where "GPIO_CNTL_PER_REG = 4"
definition SYS_TEMP1 :: cstr where "SYS_TEMP1 = lit ''/sys/class/hwmon/hwmon0/device/temp1_input''"

definition gfmn100_platform :: "u32 list \<Rightarrow> fsys \<Rightarrow> windcharger" where
  "gfmn100_platform r fs =
     \<lparr>regs = r, reg_log = [], wc_red = \<lparr>shift = 16, old_val = - 1\<rparr>,
      wc_blue = \<lparr>shift = 11, old_val = - 1\<rparr>, wc_reset_shift = 13, wc_files = fs\<rparr>"

definition reg_write :: "nat \<Rightarrow> u32 \<Rightarrow> windcharger \<Rightarrow> windcharger" where
  "reg_write i v h = h\<lparr>regs := (regs h)[i := v], reg_log := reg_log h @ [(i, v)]\<rparr>"

text \<open>Shifting a 32-bit value by 32 or more places is undefined.\<close>

definition shl32 :: "u32 \<Rightarrow> nat \<Rightarrow> u32 option" where
  "shl32 w n = (if n < 32 then Some (push_bit n w) else None)"

definition wc_set_gpio :: "Gpio \<Rightarrow> int \<Rightarrow> windcharger \<Rightarrow> Gpio \<times> windcharger" where
  "wc_set_gpio g level h =
     (if old_val g = level then (g, h)
      else (g\<lparr>old_val := level\<rparr>,
            reg_write (if level > 0 then set_offset else clear_offset) (push_bit (shift g) 1) h))"

definition wc_get_gpio :: "nat \<Rightarrow> windcharger \<Rightarrow> int" where
  "wc_get_gpio pin h = (if bit (regs h ! in_offset) pin then 1 else 0)"

definition set_direction :: "Gpio \<Rightarrow> windcharger \<Rightarrow> windcharger option" where
  "set_direction g h = do {
     data \<leftarrow> arr_get (regs h) GPIO_OUT_ENABLE;
     m \<leftarrow> shl32 1 (shift g);
     Some (reg_write GPIO_OUT_ENABLE (data AND NOT m) h)
   }"

definition set_pinmux :: "Gpio \<Rightarrow> windcharger \<Rightarrow> windcharger option" where
  "set_pinmux g h = do {
     let addr_offset = shift g div GPIO_CNTL_PER_REG;
     let byte_offset = shift g - addr_offset;
     let reg_addr = GPIO_OUT_FUNCTION0 + addr_offset;
     data \<leftarrow> arr_get (regs h) reg_addr;
     m \<leftarrow> shl32 0xFF (8 * byte_offset);
     Some (reg_write reg_addr (data AND NOT m) h)
   }"

definition initialize_gpios :: "windcharger \<Rightarrow> windcharger option" where
  "initialize_gpios h = do {
     h \<leftarrow> set_pinmux (wc_red h) h;
     h \<leftarrow> set_pinmux (wc_blue h) h;
     h \<leftarrow> set_direction (wc_red h) h;
     set_direction (wc_blue h) h
   }"

definition set_red_led :: "int \<Rightarrow> windcharger \<Rightarrow> windcharger" where
  "set_red_led level h =
     (let (g, h) = wc_set_gpio (wc_red h) (if level \<noteq> 0 then 1 else 0) h in h\<lparr>wc_red := g\<rparr>)"

definition set_blue_led :: "int \<Rightarrow> windcharger \<Rightarrow> windcharger" where
  "set_blue_led level h =
     (let (g, h) = wc_set_gpio (wc_blue h) (if level \<noteq> 0 then 1 else 0) h in h\<lparr>wc_blue := g\<rparr>)"

definition wc_PinIsPresent :: "windcharger \<Rightarrow> PinId \<Rightarrow> int" where
  "wc_PinIsPresent h i =
     (case i of PIN_LED_RED \<Rightarrow> 1 | PIN_LED_BLUE \<Rightarrow> 1 | PIN_BUTTON_RESET \<Rightarrow> 1 | PIN_TEMP_CPU \<Rightarrow> 1 | _ \<Rightarrow> 0)"

definition wc_PinValue :: "windcharger \<Rightarrow> PinId \<Rightarrow> int \<times> int \<times> windcharger" where
  "wc_PinValue h i =
     (case i of
        PIN_LED_RED \<Rightarrow> (PIN_OKAY, wc_get_gpio (shift (wc_red h)) h, h)
      | PIN_LED_BLUE \<Rightarrow> (PIN_OKAY, wc_get_gpio (shift (wc_blue h)) h, h)
      | PIN_BUTTON_RESET \<Rightarrow> (PIN_OKAY, if wc_get_gpio (wc_reset_shift h) h = 0 then 1 else 0, h)
      | PIN_TEMP_CPU \<Rightarrow> (PIN_OKAY, wrap_int (read_file_long SYS_TEMP1 (wc_files h)), h)
      | _ \<Rightarrow> (PIN_ERROR, - 1, h))"

definition wc_PinSetValue :: "windcharger \<Rightarrow> PinId \<Rightarrow> int \<Rightarrow> int \<times> windcharger" where
  "wc_PinSetValue h i value =
     (case i of
        PIN_LED_RED \<Rightarrow> (PIN_OKAY, set_red_led value h)
      | PIN_LED_BLUE \<Rightarrow> (PIN_OKAY, set_blue_led value h)
      | _ \<Rightarrow> (PIN_ERROR, h))"

definition wc_ops :: "windcharger pin_ops" where
  "wc_ops = \<lparr>PinIsPresent = wc_PinIsPresent, PinValue = wc_PinValue, PinSetValue = wc_PinSetValue\<rparr>"

definition get_platform_info :: "cstr \<Rightarrow> u32 list \<Rightarrow> fsys \<Rightarrow> windcharger option" where
  "get_platform_info platform_name r fs =
     (if strncmp_eq platform_name (lit ''GFMN100'') 7 then Some (gfmn100_platform r fs) else None)"

datatype 'h pin_create = Handle 'h | Null_Handle | Exits int

definition wc_PinCreate :: "bool \<Rightarrow> cstr \<Rightarrow> u32 list \<Rightarrow> fsys \<Rightarrow> windcharger pin_create option" where
  "wc_PinCreate mapped platform_name r fs =
     (case get_platform_info platform_name r fs of
        None \<Rightarrow> Some (Exits 1)
      | Some h \<Rightarrow> if \<not> mapped then Some Null_Handle
                  else do { h \<leftarrow> initialize_gpios h; Some (Handle h) })"

section \<open>The contract of a driver\<close>

text \<open>
  What the mailbox relies on: setting a pin changes which pins are present on no board, and
  setting an LED that is present, to a brightness between 0 and 100, lights it exactly when the
  brightness is not 0 and leaves the other LEDs alone. \<open>ready\<close> is the condition under which the
  hardware can be reached, \<open>led_on\<close> the state of the LEDs. \<open>set_present\<close> sets a pin if the board
  has it, as the mailbox does for each of the LEDs.
\<close>

definition set_present :: "'h pin_ops \<Rightarrow> PinId \<Rightarrow> int \<Rightarrow> 'h \<Rightarrow> 'h" where
  "set_present ops i v h = (if PinIsPresent ops h i \<noteq> 0 then snd (PinSetValue ops h i v) else h)"

locale pin_driver =
  fixes ops :: "'h pin_ops"
    and ready :: "'h \<Rightarrow> bool"
    and led_on :: "'h \<Rightarrow> PinId \<Rightarrow> bool"
  assumes present_set: "PinIsPresent ops (snd (PinSetValue ops h i v)) j = PinIsPresent ops h j"
    and ready_set: "ready h \<Longrightarrow> ready (snd (PinSetValue ops h i v))"
    and led_set: "ready h \<Longrightarrow> is_led i \<Longrightarrow> PinIsPresent ops h i \<noteq> 0 \<Longrightarrow> 0 \<le> v \<Longrightarrow> v \<le> 100 \<Longrightarrow>
      led_on (snd (PinSetValue ops h i v)) i \<longleftrightarrow> v \<noteq> 0"
    and led_other: "ready h \<Longrightarrow> i \<noteq> j \<Longrightarrow> led_on (snd (PinSetValue ops h i v)) j = led_on h j"
begin

lemma present_set_present [simp]: "PinIsPresent ops (set_present ops i v h) j = PinIsPresent ops h j"
  by (simp add: set_present_def present_set)

lemma ready_set_present: "ready h \<Longrightarrow> ready (set_present ops i v h)"
  by (simp add: set_present_def ready_set)

lemma led_set_present:
  "ready h \<Longrightarrow> is_led i \<Longrightarrow> 0 \<le> v \<Longrightarrow> v \<le> 100 \<Longrightarrow> is_led j \<Longrightarrow> PinIsPresent ops h j \<noteq> 0 \<Longrightarrow>
     led_on (set_present ops i v h) j = (if i = j then v \<noteq> 0 else led_on h j)"
  by (auto simp: set_present_def led_set led_other)

end

section \<open>The boards keep the contract\<close>

definition dev_ok :: "cstr \<Rightarrow> fsys \<Rightarrow> bool" where
  "dev_ok path fs \<longleftrightarrow> can_open fs path \<and> can_read fs path \<and> 11 \<le> room fs path"

lemma dev_ok_set [simp]: "dev_ok p (set_sysfile q v fs) = dev_ok p fs"
  using same_disk_WRITE [of fs q None v False dec_int fs]
  by (simp add: dev_ok_def set_sysfile_def write_file_int_def same_disk_def)

lemma get_set_sysfile:
  "dev_ok p fs \<Longrightarrow> - (2 ^ 31) \<le> v \<Longrightarrow> v < 2 ^ 31 \<Longrightarrow> get_sysfile p (set_sysfile p v fs) = v"
  using read_write_int [of fs p v] by (simp add: dev_ok_def get_sysfile_def set_sysfile_def wrap_int_id)

lemma get_set_sysfile_other:
  assumes "p \<noteq> q"
  shows "get_sysfile p (set_sysfile q v fs) = get_sysfile p fs"
proof -
  have "contents (set_sysfile q v fs) p = contents fs p"
    using assms by (simp add: set_sysfile_def write_file_int_def WRITE_TO_FILE_def write_file_string_def Let_def)
  moreover have "same_disk fs (set_sysfile q v fs)"
    by (simp add: set_sysfile_def write_file_int_def frame_simps)
  then have "can_open (set_sysfile q v fs) = can_open fs" "can_read (set_sysfile q v fs) = can_read fs"
    by (simp_all add: same_disk_def)
  ultimately show ?thesis
    by (auto simp: get_sysfile_def read_file_long_def fs_read_file_def split: option.split)
qed

lemma scale_led_0: "0 \<le> v \<Longrightarrow> v \<le> 100 \<Longrightarrow> scale_led v = 25 * v div 10"
  by (simp add: scale_led_def Let_def wrap_int_id) (cases "v = 0", auto simp: sgn_if mult.commute)

lemma scale_led_iff: "0 \<le> v \<Longrightarrow> v \<le> 100 \<Longrightarrow> scale_led v = 0 \<longleftrightarrow> v = 0"
  by (auto simp: scale_led_0)

definition gfch100_ready :: "fsys \<Rightarrow> bool" where
  "gfch100_ready h \<longleftrightarrow> dev_ok (led_red gfch100_platform) h \<and> dev_ok (led_activity gfch100_platform) h"

definition gfch100_on :: "fsys \<Rightarrow> PinId \<Rightarrow> bool" where
  "gfch100_on h i \<longleftrightarrow> fst (snd (gfch100_PinValue h i)) \<noteq> 0"

lemma gfch100_paths:
  "led_red gfch100_platform \<noteq> led_activity gfch100_platform"
  "led_red gfch100_platform \<noteq> temp_cpu gfch100_platform"
  "led_activity gfch100_platform \<noteq> temp_cpu gfch100_platform"
  by (simp_all add: gfch100_platform_def lit_def)

interpretation ch: pin_driver gfch100 gfch100_ready gfch100_on
proof unfold_locales
  fix h i j v
  show "PinIsPresent gfch100 (snd (PinSetValue gfch100 h i v)) j = PinIsPresent gfch100 h j"
    by (simp add: gfch100_def gfch100_PinIsPresent_def split: PinId.split)
  show "gfch100_ready h \<Longrightarrow> gfch100_ready (snd (PinSetValue gfch100 h i v))"
    by (cases i) (simp_all add: gfch100_def gfch100_PinSetValue_def gfch100_ready_def)
  show "gfch100_ready h \<Longrightarrow> is_led i \<Longrightarrow> PinIsPresent gfch100 h i \<noteq> 0 \<Longrightarrow> 0 \<le> v \<Longrightarrow> v \<le> 100 \<Longrightarrow>
      gfch100_on (snd (PinSetValue gfch100 h i v)) i \<longleftrightarrow> v \<noteq> 0"
    by (cases i) (simp_all add: gfch100_def gfch100_PinSetValue_def gfch100_ready_def gfch100_on_def
        gfch100_PinValue_def gfch100_PinIsPresent_def is_led_def get_set_sysfile)
  show "gfch100_ready h \<Longrightarrow> i \<noteq> j \<Longrightarrow> gfch100_on (snd (PinSetValue gfch100 h i v)) j = gfch100_on h j"
    using gfch100_paths gfch100_paths [symmetric]
    by (cases i; cases j) (simp_all add: gfch100_def gfch100_PinSetValue_def gfch100_on_def
        gfch100_PinValue_def get_set_sysfile_other)
qed

definition gfrg240_ready :: "fsys \<Rightarrow> bool" where
  "gfrg240_ready h \<longleftrightarrow> dev_ok (led_red gfrg240_platform) h \<and> dev_ok (led_activity gfrg240_platform) h"

definition gfrg240_on :: "fsys \<Rightarrow> PinId \<Rightarrow> bool" where
  "gfrg240_on h i \<longleftrightarrow> fst (snd (gfrg240_PinValue h i)) \<noteq> 0"

lemma gfrg240_paths:
  "led_red gfrg240_platform \<noteq> led_activity gfrg240_platform"
  "led_red gfrg240_platform \<noteq> temp_cpu gfrg240_platform"
  "led_activity gfrg240_platform \<noteq> temp_cpu gfrg240_platform"
  by (simp_all add: gfrg240_platform_def lit_def)

lemma get_set_scaled:
  "dev_ok p fs \<Longrightarrow> 0 \<le> v \<Longrightarrow> v \<le> 100 \<Longrightarrow> get_sysfile p (set_sysfile p (scale_led v) fs) = 25 * v div 10"
  by (subst get_set_sysfile) (auto simp: scale_led_0)

interpretation rg: pin_driver gfrg240 gfrg240_ready gfrg240_on
proof unfold_locales
  fix h i j v
  show "PinIsPresent gfrg240 (snd (PinSetValue gfrg240 h i v)) j = PinIsPresent gfrg240 h j"
    by (simp add: gfrg240_def gfrg240_PinIsPresent_def split: PinId.split)
  show "gfrg240_ready h \<Longrightarrow> gfrg240_ready (snd (PinSetValue gfrg240 h i v))"
    by (cases i) (simp_all add: gfrg240_def gfrg240_PinSetValue_def gfrg240_ready_def Let_def)
  show "gfrg240_ready h \<Longrightarrow> is_led i \<Longrightarrow> PinIsPresent gfrg240 h i \<noteq> 0 \<Longrightarrow> 0 \<le> v \<Longrightarrow> v \<le> 100 \<Longrightarrow>
      gfrg240_on (snd (PinSetValue gfrg240 h i v)) i \<longleftrightarrow> v \<noteq> 0"
    by (cases i) (auto simp: gfrg240_def gfrg240_PinSetValue_def gfrg240_ready_def gfrg240_on_def
        gfrg240_PinValue_def gfrg240_PinIsPresent_def is_led_def get_set_scaled)
  show "gfrg240_ready h \<Longrightarrow> i \<noteq> j \<Longrightarrow> gfrg240_on (snd (PinSetValue gfrg240 h i v)) j = gfrg240_on h j"
    using gfrg240_paths gfrg240_paths [symmetric]
    by (cases i; cases j) (simp_all add: gfrg240_def gfrg240_PinSetValue_def gfrg240_on_def
        gfrg240_PinValue_def get_set_sysfile_other Let_def)
qed

definition gfiber_lt_ready :: "fsys \<Rightarrow> bool" where
  "gfiber_lt_ready h \<longleftrightarrow> dev_ok (led_red gfiber_lt_platform) h \<and> dev_ok (led_blue gfiber_lt_platform) h"

definition gfiber_lt_on :: "fsys \<Rightarrow> PinId \<Rightarrow> bool" where
  "gfiber_lt_on h i \<longleftrightarrow> fst (snd (gfiber_lt_PinValue h i)) \<noteq> 0"

lemma gfiber_lt_paths:
  "led_red gfiber_lt_platform \<noteq> led_blue gfiber_lt_platform"
  "led_red gfiber_lt_platform \<noteq> temp_cpu gfiber_lt_platform"
  "led_blue gfiber_lt_platform \<noteq> temp_cpu gfiber_lt_platform"
  by (simp_all add: gfiber_lt_platform_def lit_def)

interpretation lt: pin_driver gfiber_lt gfiber_lt_ready gfiber_lt_on
proof unfold_locales
  fix h i j v
  show "PinIsPresent gfiber_lt (snd (PinSetValue gfiber_lt h i v)) j = PinIsPresent gfiber_lt h j"
    by (simp add: gfiber_lt_def gfiber_lt_PinIsPresent_def split: PinId.split)
  show "gfiber_lt_ready h \<Longrightarrow> gfiber_lt_ready (snd (PinSetValue gfiber_lt h i v))"
    by (cases i) (simp_all add: gfiber_lt_def gfiber_lt_PinSetValue_def gfiber_lt_ready_def)
  show "gfiber_lt_ready h \<Longrightarrow> is_led i \<Longrightarrow> PinIsPresent gfiber_lt h i \<noteq> 0 \<Longrightarrow> 0 \<le> v \<Longrightarrow> v \<le> 100 \<Longrightarrow>
      gfiber_lt_on (snd (PinSetValue gfiber_lt h i v)) i \<longleftrightarrow> v \<noteq> 0"
    by (cases i) (simp_all add: gfiber_lt_def gfiber_lt_PinSetValue_def gfiber_lt_ready_def gfiber_lt_on_def
        gfiber_lt_PinValue_def gfiber_lt_PinIsPresent_def is_led_def get_set_sysfile)
  show "gfiber_lt_ready h \<Longrightarrow> i \<noteq> j \<Longrightarrow> gfiber_lt_on (snd (PinSetValue gfiber_lt h i v)) j = gfiber_lt_on h j"
    using gfiber_lt_paths gfiber_lt_paths [symmetric]
    by (cases i; cases j) (simp_all add: gfiber_lt_def gfiber_lt_PinSetValue_def gfiber_lt_on_def
        gfiber_lt_PinValue_def get_set_sysfile_other)
qed

text \<open>
  On the register board the level of an output is decided by the last write that has its bit, to
  the set register or to the clear register. The cached level is that of the output, unless
  nothing has been written yet.
\<close>

definition out_write :: "nat \<Rightarrow> nat \<times> u32 \<Rightarrow> bool \<Rightarrow> bool" where
  "out_write s w b =
     (if fst w = set_offset \<and> bit (snd w) s then True
      else if fst w = clear_offset \<and> bit (snd w) s then False else b)"

definition wc_out :: "windcharger \<Rightarrow> nat \<Rightarrow> bool" where
  "wc_out h s = fold (out_write s) (reg_log h) False"

definition cache_ok :: "Gpio \<Rightarrow> windcharger \<Rightarrow> bool" where
  "cache_ok g h \<longleftrightarrow> old_val g = - 1 \<or> (old_val g = 0 \<or> old_val g = 1) \<and> wc_out h (shift g) = (old_val g > 0)"

definition wc_ready :: "windcharger \<Rightarrow> bool" where
  "wc_ready h \<longleftrightarrow> shift (wc_red h) = 16 \<and> shift (wc_blue h) = 11 \<and> cache_ok (wc_red h) h \<and> cache_ok (wc_blue h) h"

definition wc_on :: "windcharger \<Rightarrow> PinId \<Rightarrow> bool" where
  "wc_on h i =
     (case i of PIN_LED_RED \<Rightarrow> wc_out h (shift (wc_red h)) | PIN_LED_BLUE \<Rightarrow> wc_out h (shift (wc_blue h)) | _ \<Rightarrow> False)"

lemma wc_out_write:
  assumes "s < 32"
  shows "wc_out (reg_write set_offset (2 ^ s) h) k \<longleftrightarrow> k = s \<or> wc_out h k"
    "wc_out (reg_write clear_offset (2 ^ s) h) k \<longleftrightarrow> k \<noteq> s \<and> wc_out h k"
  using assms
  by (auto simp: wc_out_def reg_write_def out_write_def set_offset_def clear_offset_def bit_exp_iff
      possible_bit_def)

lemma wc_out_upd [simp]: "wc_out (h\<lparr>wc_red := g\<rparr>) = wc_out h" "wc_out (h\<lparr>wc_blue := g\<rparr>) = wc_out h"
  by (simp_all add: wc_out_def fun_eq_iff)

lemma reg_write_leds [simp]: "wc_red (reg_write r v h) = wc_red h" "wc_blue (reg_write r v h) = wc_blue h"
  by (simp_all add: reg_write_def)

lemma wc_set_gpio_out:
  assumes "cache_ok g h" "shift g < 32" "wc_set_gpio g l h = (g', h')" "l = 0 \<or> l = 1"
  shows "wc_out h' k = (if k = shift g then l = 1 else wc_out h k)" "shift g' = shift g" "old_val g' = l"
    "wc_red h' = wc_red h" "wc_blue h' = wc_blue h"
  using assms
  by (auto simp: wc_set_gpio_def cache_ok_def wc_out_write split: if_splits)

lemma set_red_led_ok:
  assumes "wc_ready h"
  shows "wc_ready (set_red_led v h)" "wc_out (set_red_led v h) 16 \<longleftrightarrow> v \<noteq> 0"
    "wc_out (set_red_led v h) 11 = wc_out h 11" "shift (wc_red (set_red_led v h)) = 16"
    "shift (wc_blue (set_red_led v h)) = 11"
proof -
  obtain g' h' where s: "wc_set_gpio (wc_red h) (if v \<noteq> 0 then 1 else 0) h = (g', h')" by force
  have c: "cache_ok (wc_red h) h" "shift (wc_red h) = 16" "shift (wc_blue h) = 11" "cache_ok (wc_blue h) h"
    using assms by (auto simp: wc_ready_def)
  note f = wc_set_gpio_out [OF c(1) _ s]
  show "wc_ready (set_red_led v h)" "wc_out (set_red_led v h) 16 \<longleftrightarrow> v \<noteq> 0"
    "wc_out (set_red_led v h) 11 = wc_out h 11" "shift (wc_red (set_red_led v h)) = 16"
    "shift (wc_blue (set_red_led v h)) = 11"
    using c f by (auto simp: set_red_led_def s wc_ready_def cache_ok_def)
qed

lemma set_blue_led_ok:
  assumes "wc_ready h"
  shows "wc_ready (set_blue_led v h)" "wc_out (set_blue_led v h) 11 \<longleftrightarrow> v \<noteq> 0"
    "wc_out (set_blue_led v h) 16 = wc_out h 16" "shift (wc_red (set_blue_led v h)) = 16"
    "shift (wc_blue (set_blue_led v h)) = 11"
proof -
  obtain g' h' where s: "wc_set_gpio (wc_blue h) (if v \<noteq> 0 then 1 else 0) h = (g', h')" by force
  have c: "cache_ok (wc_red h) h" "shift (wc_red h) = 16" "shift (wc_blue h) = 11" "cache_ok (wc_blue h) h"
    using assms by (auto simp: wc_ready_def)
  note f = wc_set_gpio_out [OF c(4) _ s]
  show "wc_ready (set_blue_led v h)" "wc_out (set_blue_led v h) 11 \<longleftrightarrow> v \<noteq> 0"
    "wc_out (set_blue_led v h) 16 = wc_out h 16" "shift (wc_red (set_blue_led v h)) = 16"
    "shift (wc_blue (set_blue_led v h)) = 11"
    using c f by (auto simp: set_blue_led_def s wc_ready_def cache_ok_def)
qed

lemmas wc_led_simps = set_red_led_ok set_blue_led_ok

interpretation wc: pin_driver wc_ops wc_ready wc_on
proof unfold_locales
  fix h i j v
  show "PinIsPresent wc_ops (snd (PinSetValue wc_ops h i v)) j = PinIsPresent wc_ops h j"
    by (simp add: wc_ops_def wc_PinIsPresent_def split: PinId.split)
  show "wc_ready h \<Longrightarrow> wc_ready (snd (PinSetValue wc_ops h i v))"
    by (cases i) (simp_all add: wc_ops_def wc_PinSetValue_def wc_led_simps)
  show "wc_ready h \<Longrightarrow> is_led i \<Longrightarrow> PinIsPresent wc_ops h i \<noteq> 0 \<Longrightarrow> 0 \<le> v \<Longrightarrow> v \<le> 100 \<Longrightarrow>
      wc_on (snd (PinSetValue wc_ops h i v)) i \<longleftrightarrow> v \<noteq> 0"
    by (cases i) (simp_all add: wc_ops_def wc_PinSetValue_def wc_PinIsPresent_def is_led_def wc_on_def wc_led_simps)
  have s: "wc_ready h \<Longrightarrow> shift (wc_red h) = 16 \<and> shift (wc_blue h) = 11" by (simp add: wc_ready_def)
  show "wc_ready h \<Longrightarrow> i \<noteq> j \<Longrightarrow> wc_on (snd (PinSetValue wc_ops h i v)) j = wc_on h j"
    using s by (cases i; cases j) (simp_all add: wc_ops_def wc_PinSetValue_def wc_on_def wc_led_simps)
qed

text \<open>
  Creating the handle of the register board never gets past setting up the pins: the
  byte offset of a pin's control is computed as the pin number less the register index, not as
  its position within the register, so that both LEDs shift by more than the width of the
  register.
\<close>

lemma windcharger_pinmux_undefined:
  "wc_PinCreate True (lit ''GFMN100'') r fs = None \<and>
   8 * (shift (wc_red (gfmn100_platform r fs)) mod GPIO_CNTL_PER_REG) < 32 \<and>
   (\<forall>h. set_pinmux (wc_red (gfmn100_platform r fs)) h = None \<and> set_pinmux (wc_blue (gfmn100_platform r fs)) h = None)"
  by (simp add: wc_PinCreate_def get_platform_info_def strncmp_eq_take lit_def initialize_gpios_def
      set_pinmux_def gfmn100_platform_def GPIO_CNTL_PER_REG_def shl32_def Let_def split: bind_split)

end
