(* ===== verification/Gpio_Mailbox.thy ===== *)
theory Gpio_Mailbox
  imports Gpio_Pins
begin

text \<open>
  The GPIO mailbox itself, \<open>src/gpio-mailbox/gpio-mailbox.c\<close>: a loop that shows the LED pattern
  of the file \<open>leds\<close>, drives the fan as the file \<open>fanpercent\<close> asks, publishes temperature,
  voltage and fan speed in files, and reports how long the reset button has been held.

  The static variables and the locals of \<open>run_gpio_mailbox\<close> are the record \<open>mailbox\<close>, over the
  hardware state \<open>'h\<close> of the board's driver. One round of the loop is \<open>mailbox_tick\<close>; its input is
  what the clocks return and what other programs have done to the files since the last round.
  Times are unbounded integers (the code keeps milliseconds in 64 bits). Temperature and
  voltage, doubles in the code, are kept in thousandths. \<open>pin_log\<close> records the pins set, in
  order, \<open>button_log\<close> the times and values at which the reset button was read, and \<open>slept\<close> the microseconds of the last sleep; the messages to \<open>stderr\<close> and the watchdog
  \<open>alarm\<close> are left out. \<open>None\<close> is an access outside an array.
\<close>

section \<open>State\<close>

definition POLL_HZ :: int where "POLL_HZ = 2000"
definition USEC_PER_TICK :: int where "USEC_PER_TICK = 1000000 div POLL_HZ"

text \<open>\<open>HIGH_TEMP_OVERRIDE\<close>, 100.0 degrees, in thousandths.\<close>

definition HIGH_TEMP_OVERRIDE :: int where "HIGH_TEMP_OVERRIDE = 100000"

record leds =
  led_sequence_arr :: "int list"
  led_sequence_for_brightness :: "int list"
  led_sequence_len :: nat
  led_total_time :: nat

record 'h mailbox =
  hw :: 'h
  files :: fsys
  pin_log :: "(PinId \<times> int) list"
  button_log :: "(int \<times> int) list"
  slept :: int
  is_limited_leds :: bool
  platform_b0 :: bool
  has_fan :: bool
  has_reset_button :: bool
  has_cpu_voltage :: bool
  led :: leds
  inner_loop_ticks :: int
  msec_per_led :: int
  fan_loop_count :: int
  last_time :: int
  last_print_time :: int
  last_led :: int
  reset_start :: int
  offset :: int
  fanspeed :: int
  reset_amt :: int
  readyval :: int
  cpu_temp :: int
  cpu_volts :: int
  wantspeed_warned :: int
  wantspeed :: int
  fan_detected_speed :: int

definition leds_start :: leds where
  "leds_start = \<lparr>led_sequence_arr = replicate 16 0, led_sequence_for_brightness = replicate 16 0,
                 led_sequence_len = 1, led_total_time = 1000\<rparr>"

section \<open>Setting the LEDs\<close>

definition pin_set :: "'h pin_ops \<Rightarrow> PinId \<Rightarrow> int \<Rightarrow> 'h mailbox \<Rightarrow> 'h mailbox" where
  "pin_set ops i v st = st\<lparr>hw := snd (PinSetValue ops (hw st) i v), pin_log := pin_log st @ [(i, v)]\<rparr>"

definition pin_set_present :: "'h pin_ops \<Rightarrow> PinId \<Rightarrow> int \<Rightarrow> 'h mailbox \<Rightarrow> 'h mailbox" where
  "pin_set_present ops i v st = (if PinIsPresent ops (hw st) i \<noteq> 0 then pin_set ops i v st else st)"

definition led_fields :: "bool \<Rightarrow> bool \<Rightarrow> int \<Rightarrow> int" where
  "led_fields limited b0 bits =
     (if limited then
        (let bits = (if bits AND 2 \<noteq> 0 then bits OR 4 else bits)
         in if bits AND 8 \<noteq> 0 then bits OR 5 else bits)
      else if b0 then
        ((bits AND 8) OR drop_bit 1 (bits AND 4) OR drop_bit 1 (bits AND 2) OR
           push_bit 2 (bits AND 1)) XOR 0xf
      else bits)"

definition set_leds_from_bitfields :: "'h pin_ops \<Rightarrow> int \<Rightarrow> int \<Rightarrow> 'h mailbox \<Rightarrow> 'h mailbox" where
  "set_leds_from_bitfields ops bits brightness st =
     (if contents (files st) (lit ''disable'') \<noteq> None \<and> can_open (files st) (lit ''disable'') then st
      else
        let bits = led_fields (is_limited_leds st) (platform_b0 st) bits;
            st = pin_set_present ops PIN_LED_RED (if bits AND 1 \<noteq> 0 then brightness else 0) st;
            st = pin_set_present ops PIN_LED_BLUE (if bits AND 2 \<noteq> 0 then brightness else 0) st;
            st = pin_set_present ops PIN_LED_ACTIVITY (if bits AND 4 \<noteq> 0 then brightness else 0) st
        in pin_set_present ops PIN_LED_STANDBY (if bits AND 8 \<noteq> 0 then brightness else 0) st)"

section \<open>Files\<close>

text \<open>
  \<open>read_file\<close> does not look for an error of \<open>read\<close>: the result \<open>-1\<close> is an index of the buffer.
\<close>

definition read_file :: "cstr \<Rightarrow> fsys \<Rightarrow> cstr option" where
  "read_file filename fs =
     (case fs_read_file filename 1023 fs of
        No_File \<Rightarrow> Some []
      | Read_Failed \<Rightarrow> None
      | Read_Bytes bs \<Rightarrow> Some (cstr_of bs))"

definition create_file :: "cstr \<Rightarrow> fsys \<Rightarrow> fsys" where
  "create_file filename fs =
     (if contents fs filename = None \<and> can_open fs filename
      then fs_set ((contents fs)(filename := Some [])) fs else fs)"

section \<open>The LED pattern\<close>

definition is_sep :: "byte \<Rightarrow> bool" where
  "is_sep b \<longleftrightarrow> b = 32 \<or> b = 9 \<or> b = 10 \<or> b = 13"

text \<open>\<open>strsep\<close>: the next token and what is left, \<open>None\<close> when no separator follows.\<close>

definition strsep :: "cstr \<Rightarrow> cstr \<times> cstr option" where
  "strsep s =
     (case dropWhile (\<lambda>b. \<not> is_sep b) s of
        [] \<Rightarrow> (s, None)
      | _ # r \<Rightarrow> (takeWhile (\<lambda>b. \<not> is_sep b) s, Some r))"

text \<open>
  The loop over the repetitions. The pattern is an array of \<open>char\<close>; only its low four bits are
  ever used, so that the signedness of \<open>char\<close> does not matter.
\<close>

primrec led_repeat :: "nat \<Rightarrow> int \<Rightarrow> int \<Rightarrow> leds \<Rightarrow> leds option" where
  "led_repeat 0 v brightness l = Some l"
| "led_repeat (Suc n) v brightness l =
     (if led_sequence_len l \<ge> 16 then Some l
      else do {
        s \<leftarrow> arr_put (led_sequence_arr l) (led_sequence_len l) [v mod 256];
        b \<leftarrow> arr_put (led_sequence_for_brightness l) (led_sequence_len l) [brightness];
        led_repeat n v brightness
          (l\<lparr>led_sequence_arr := s, led_sequence_for_brightness := b, led_sequence_len := led_sequence_len l + 1\<rparr>)
      })"

definition total_time :: "cstr \<Rightarrow> nat" where
  "total_time s =
     (let t = nat ((fst (strtoul0 s) * 1000) mod 2 ^ 32);
          t = (if t > 10000 then 10000 else t)
      in if t < 1000 then 1000 else t)"

definition starts_with :: "byte \<Rightarrow> cstr \<Rightarrow> bool" where
  "starts_with c s \<longleftrightarrow> take 1 s = [c]"

definition led_token :: "cstr \<Rightarrow> leds \<Rightarrow> leds option" where
  "led_token p l =
     (if starts_with (of_char CHR ''x'') p then Some (l\<lparr>led_total_time := total_time (tl p)\<rparr>)
      else
        let (v, sep) = strtoul0 p;
            (brightness, sep) =
              (if starts_with (of_char CHR ''@'') sep
               then (let (b, r) = strtoul0 (tl sep) in (wrap_int b, r)) else (100, sep));
            repetition = (if starts_with (of_char CHR ''x'') sep then wrap_int (fst (strtoul0 (tl sep))) else 1)
        in led_repeat (nat repetition) (wrap_int v) brightness l)"

lemma strsep_less: "snd (strsep buf) = Some r \<Longrightarrow> length r < length buf"
  using length_dropWhile_le [of "\<lambda>b. \<not> is_sep b" buf]
  by (auto simp: strsep_def split: list.splits)

function led_tokens :: "cstr option \<Rightarrow> leds \<Rightarrow> leds option" where
  "led_tokens None l = Some l"
| "led_tokens (Some buf) l =
     (if led_sequence_len l \<le> 16 then
        (if fst (strsep buf) = [] then led_tokens (snd (strsep buf)) l
         else do { l \<leftarrow> led_token (fst (strsep buf)) l; led_tokens (snd (strsep buf)) l })
      else Some l)"
  by pat_completeness auto
termination
  by (relation "measure (\<lambda>(b, _). case b of None \<Rightarrow> 0 | Some s \<Rightarrow> Suc (length s))")
     (auto simp: strsep_less split: option.split)

definition read_led_sequence_file :: "cstr \<Rightarrow> fsys \<Rightarrow> leds \<Rightarrow> leds option" where
  "read_led_sequence_file filename fs l = do {
     buf \<leftarrow> read_file filename fs;
     l \<leftarrow> led_tokens (Some buf) (l\<lparr>led_sequence_len := 0, led_total_time := 1000\<rparr>);
     (if led_sequence_len l = 0 then do {
        s \<leftarrow> arr_put (led_sequence_arr l) 0 [1];
        Some (l\<lparr>led_sequence_arr := s, led_sequence_len := 1\<rparr>)
      } else Some l)
   }"

definition led_index :: "int \<Rightarrow> leds \<Rightarrow> nat" where
  "led_index frac l =
     (let i = wrap_int (c_quot (int (led_sequence_len l) * frac) (int (led_total_time l)));
          i = (if i \<ge> int (led_sequence_len l) then int (led_sequence_len l) else i)
      in if i < 0 then 0 else nat i)"

definition led_sequence_update :: "'h pin_ops \<Rightarrow> int \<Rightarrow> 'h mailbox \<Rightarrow> 'h mailbox option" where
  "led_sequence_update ops frac st =
     (let i = led_index frac (led st);
          (removed, fs) = fs_unlink (lit ''activity'') (files st);
          activity_toggle = (if removed then 4 else 0)
      in do {
        s \<leftarrow> arr_get (led_sequence_arr (led st)) i;
        b \<leftarrow> arr_get (led_sequence_for_brightness (led st)) i;
        Some (set_leds_from_bitfields ops (s XOR activity_toggle) b (st\<lparr>files := fs\<rparr>))
      })"

definition msec_offset :: "int \<Rightarrow> int \<Rightarrow> nat \<Rightarrow> int" where
  "msec_offset m_mono m_real tot =
     c_rem ((c_rem m_mono (int tot) - c_rem m_real (int tot)) + int tot) (int tot)"

section \<open>The main loop\<close>

text \<open>
  The input of one round: the clock at its start, the two clocks that \<open>msec_offset\<close> reads, and the
  files that other programs have written or removed.
\<close>

record tick =
  t_now :: int
  t_mono :: int
  t_real :: int
  t_env :: "(cstr \<times> cstr option) list"

definition env_change :: "cstr \<times> cstr option \<Rightarrow> fsys \<Rightarrow> fsys" where
  "env_change e fs = fs_set ((contents fs)(fst e := snd e)) fs"

text \<open>The loop that halves the ticks until the activity light blinks often enough.\<close>

function halve_ticks :: "int \<Rightarrow> int" where
  "halve_ticks x = (if x > POLL_HZ div 16 then halve_ticks (x div 2) else x)"
  by pat_completeness auto
termination
  by (relation "measure nat") (auto simp: POLL_HZ_def)

declare halve_ticks.simps [simp del]

definition led_block :: "tick \<Rightarrow> 'h mailbox \<Rightarrow> 'h mailbox option" where
  "led_block tk st =
     (if t_now tk - last_led st \<ge> msec_per_led st then do {
        l \<leftarrow> read_led_sequence_file (lit ''leds'') (files st) (led st);
        (if led_sequence_len l > 0 then
           Some (st\<lparr>led := l,
                    inner_loop_ticks := halve_ticks (POLL_HZ div int (led_sequence_len l) + 1),
                    msec_per_led := int (led_total_time l) div int (led_sequence_len l) + 1,
                    last_led := t_now tk,
                    offset := msec_offset (t_mono tk) (t_real tk) (led_total_time l),
                    files := create_file (lit ''leds-ready'') (files st)\<rparr>)
         else None)
      } else Some st)"

definition fan_want :: "cstr \<Rightarrow> 'h mailbox \<Rightarrow> 'h mailbox" where
  "fan_want wantspeed_str st =
     (if wantspeed_str \<noteq> [] then
        (let w = wrap_int (fst (strtol0 wantspeed_str))
         in if w < 0 \<or> w > 100 then st\<lparr>wantspeed_warned := w, wantspeed := 100\<rparr>
            else if w < 100 \<and> cpu_temp st \<ge> HIGH_TEMP_OVERRIDE
            then st\<lparr>wantspeed_warned := w, wantspeed := 100\<rparr>
            else st\<lparr>wantspeed_warned := - 42, wantspeed := w\<rparr>)
      else st\<lparr>wantspeed_warned := 1, wantspeed := 100\<rparr>)"

definition fan_block :: "'h pin_ops \<Rightarrow> 'h mailbox \<Rightarrow> 'h mailbox option" where
  "fan_block ops st =
     (if has_fan st then do {
        s \<leftarrow> read_file (lit ''fanpercent'') (files st);
        let st = fan_want s st;
        let st = pin_set ops PIN_FAN_CHASSIS (wantspeed st) st;
        let (v, fs) = write_file_longlong_atomic (lit ''fanspeed'') (Some (fanspeed st)) (fan_detected_speed st) (files st);
        Some (st\<lparr>fanspeed := the v, files := fs\<rparr>)
      } else Some st)"

definition temp_block :: "(int \<Rightarrow> cstr) \<Rightarrow> 'h pin_ops \<Rightarrow> 'h mailbox \<Rightarrow> 'h mailbox" where
  "temp_block fmt2 ops st =
     (let (status, value, h) = PinValue ops (hw st) PIN_TEMP_CPU;
          st = st\<lparr>hw := h\<rparr>
      in if status = 0 then
           (let (v, fs) = write_file_double_atomic fmt2 (lit ''cpu_temperature'') (Some (cpu_temp st)) value (files st)
            in st\<lparr>cpu_temp := the v, files := fs\<rparr>)
         else st)"

definition volts_block :: "(int \<Rightarrow> cstr) \<Rightarrow> 'h pin_ops \<Rightarrow> 'h mailbox \<Rightarrow> 'h mailbox" where
  "volts_block fmt2 ops st =
     (if \<not> has_cpu_voltage st then
        (let (v, fs) = write_file_double_atomic fmt2 (lit ''cpu_voltage'') (Some (cpu_volts st)) 0 (files st)
         in st\<lparr>cpu_volts := the v, files := fs\<rparr>)
      else
        let (status, value, h) = PinValue ops (hw st) PIN_MVOLTS_CPU;
            st = st\<lparr>hw := h\<rparr>
        in if status = 0 then
             (let (v, fs) = write_file_double_atomic fmt2 (lit ''cpu_voltage'') (Some (cpu_volts st)) value (files st)
              in st\<lparr>cpu_volts := the v, files := fs\<rparr>)
           else st)"

definition slow_block :: "(int \<Rightarrow> cstr) \<Rightarrow> 'h pin_ops \<Rightarrow> tick \<Rightarrow> 'h mailbox \<Rightarrow> 'h mailbox option" where
  "slow_block fmt2 ops tk st =
     (if t_now tk - last_time st > 2000 then do {
        st \<leftarrow> fan_block ops st;
        let st = temp_block fmt2 ops st;
        let st = volts_block fmt2 ops st;
        Some (st\<lparr>last_time := t_now tk\<rparr>)
      } else Some st)"

definition read_button :: "'h pin_ops \<Rightarrow> tick \<Rightarrow> 'h mailbox \<Rightarrow> int \<times> 'h mailbox" where
  "read_button ops tk st =
     (let (reset_button, h) =
            (if has_reset_button st then
               (let (status, value, h) = PinValue ops (hw st) PIN_BUTTON_RESET in (value, h))
             else (0, hw st))
      in (reset_button, st\<lparr>hw := h, button_log := button_log st @ [(t_now tk, reset_button)]\<rparr>))"

definition reset_block :: "tick \<Rightarrow> int \<Rightarrow> 'h mailbox \<Rightarrow> 'h mailbox" where
  "reset_block tk reset_button st =
     (if reset_button \<noteq> 0 then
        (let st = (if reset_start st = 0 then st\<lparr>reset_start := t_now tk - 1\<rparr> else st);
             (v, fs) = write_file_longlong_atomic (lit ''reset_button_msecs'') (Some (reset_amt st))
                         (t_now tk - reset_start st) (files st)
         in st\<lparr>reset_amt := the v, files := fs\<rparr>)
      else
        let fs = (if reset_amt st \<noteq> 0 then snd (fs_unlink (lit ''reset_button_msecs'') (files st)) else files st)
        in st\<lparr>files := fs, reset_amt := 0, reset_start := 0\<rparr>)"

definition ready_block :: "'h mailbox \<Rightarrow> 'h mailbox" where
  "ready_block st =
     (let (v, fs) = write_file_longlong_atomic (lit ''ready'') (Some (readyval st)) 1 (files st)
      in st\<lparr>readyval := the v, files := fs\<rparr>)"

definition sleep_block :: "'h pin_ops \<Rightarrow> tick \<Rightarrow> 'h mailbox \<Rightarrow> 'h mailbox" where
  "sleep_block ops tk st =
     (if has_fan st then
        (let c = c_rem (fan_loop_count st + 1) 16;
             st = st\<lparr>fan_loop_count := c\<rparr>
         in if c = 0 then
              (let (status, value, h) = PinValue ops (hw st) PIN_FAN_CHASSIS
               in st\<lparr>hw := h, fan_detected_speed := value\<rparr>)
            else
              let tot = int (led_total_time (led st));
                  time_to_boundary = (tot - c_rem (t_now tk - offset st) tot) * 1000;
                  delay = USEC_PER_TICK * inner_loop_ticks st
              in st\<lparr>slept := if delay > time_to_boundary then time_to_boundary else delay\<rparr>)
      else st\<lparr>slept := USEC_PER_TICK * inner_loop_ticks st\<rparr>)"

definition mailbox_tick :: "(int \<Rightarrow> cstr) \<Rightarrow> 'h pin_ops \<Rightarrow> tick \<Rightarrow> 'h mailbox \<Rightarrow> 'h mailbox option" where
  "mailbox_tick fmt2 ops tk st = do {
     let st = st\<lparr>files := fold env_change (t_env tk) (files st)\<rparr>;
     st \<leftarrow> led_block tk st;
     let tot = int (led_total_time (led st));
     st \<leftarrow> led_sequence_update ops (c_rem (t_now tk + tot - offset st) tot) st;
     st \<leftarrow> slow_block fmt2 ops tk st;
     let (reset_button, st) = read_button ops tk st;
     let st = (if t_now tk - last_print_time st \<ge> 6000 then st\<lparr>last_print_time := t_now tk\<rparr> else st);
     let st = reset_block tk reset_button st;
     let st = ready_block st;
     Some (sleep_block ops tk st)
   }"

fun mailbox_loop :: "(int \<Rightarrow> cstr) \<Rightarrow> 'h pin_ops \<Rightarrow> tick list \<Rightarrow> 'h mailbox \<Rightarrow> 'h mailbox option" where
  "mailbox_loop fmt2 ops [] st = Some st"
| "mailbox_loop fmt2 ops (tk # tks) st = do {
     st \<leftarrow> mailbox_tick fmt2 ops tk st;
     mailbox_loop fmt2 ops tks st
   }"

fun c_strstr :: "cstr \<Rightarrow> cstr \<Rightarrow> bool" where
  "c_strstr s [] = True"
| "c_strstr [] (p # ps) = False"
| "c_strstr (c # s) (p # ps) = (strncmp_eq (c # s) (p # ps) (length (p # ps)) \<or> c_strstr s (p # ps))"

definition mailbox_start ::
    "'h pin_ops \<Rightarrow> int \<Rightarrow> tick \<Rightarrow> 'h \<Rightarrow> fsys \<Rightarrow> 'h mailbox option" where
  "mailbox_start ops pid tk h fs = do {
     info \<leftarrow> read_file (lit ''/proc/cpuinfo'') fs;
     Some \<lparr>hw = h, files = snd (write_file_longlong_atomic (lit ''/var/run/gpio-mailbox'') None pid fs),
           pin_log = [], button_log = [], slept = 0,
           is_limited_leds = (PinIsPresent ops h PIN_LED_BLUE = 0 \<or> PinIsPresent ops h PIN_LED_STANDBY = 0),
           platform_b0 = c_strstr info (lit ''BCM7425B0''),
           has_fan = (PinIsPresent ops h PIN_FAN_CHASSIS \<noteq> 0),
           has_reset_button = (PinIsPresent ops h PIN_BUTTON_RESET \<noteq> 0),
           has_cpu_voltage = (PinIsPresent ops h PIN_MVOLTS_CPU \<noteq> 0),
           led = leds_start, inner_loop_ticks = 0, msec_per_led = 0, fan_loop_count = 0,
           last_time = 0, last_print_time = t_now tk, last_led = 0, reset_start = 0,
           offset = msec_offset (t_mono tk) (t_real tk) (led_total_time leds_start),
           fanspeed = - 42, reset_amt = - 42, readyval = - 42, cpu_temp = - 42000, cpu_volts = - 42000,
           wantspeed_warned = - 42, wantspeed = 0, fan_detected_speed = 0\<rparr>
   }"

text \<open>
  What follows the loop once a signal has set \<open>shutdown_sig\<close>; \<open>brightness\<close> is 1, or
  \<open>GFLT_DEFAULT_BRIGHTNESS\<close> on the boards of \<open>gfiber-lt.c\<close>.
\<close>

definition GFLT_DEFAULT_BRIGHTNESS :: int where "GFLT_DEFAULT_BRIGHTNESS = 100"

definition mailbox_shutdown :: "'h pin_ops \<Rightarrow> int \<Rightarrow> 'h mailbox \<Rightarrow> 'h mailbox" where
  "mailbox_shutdown ops brightness st =
     (let st = set_leds_from_bitfields ops 1 brightness st
      in if has_fan st then pin_set ops PIN_FAN_CHASSIS 100 st else st)"

definition run_gpio_mailbox ::
    "(int \<Rightarrow> cstr) \<Rightarrow> 'h pin_ops \<Rightarrow> int \<Rightarrow> int \<Rightarrow> tick \<Rightarrow> tick list \<Rightarrow> 'h \<Rightarrow> fsys \<Rightarrow> 'h mailbox option" where
  "run_gpio_mailbox fmt2 ops brightness pid t0 tks h fs = do {
     st \<leftarrow> mailbox_start ops pid t0 h fs;
     st \<leftarrow> mailbox_loop fmt2 ops tks st;
     Some (mailbox_shutdown ops brightness st)
   }"

text \<open>
  The handlers. \<open>sig_handler\<close> sets \<open>shutdown_sig\<close>, writes a line and says whether the stack is printed; \<open>parent_sighandler\<close> of the
  other process leaves the file the boot process waits for before it dies of the signal.
\<close>

definition sig_handler :: "int \<Rightarrow> int \<times> cstr \<times> bool" where
  "sig_handler sig =
     (sig,
      lit ''exiting on signal '' @
        map (\<lambda>d. word_of_int (48 + d)) [c_rem (c_quot sig 100) 10, c_rem (c_quot sig 10) 10, c_rem sig 10] @ [10],
      sig \<noteq> 2 \<and> sig \<noteq> 15)"

definition parent_died :: "fsys \<Rightarrow> fsys" where
  "parent_died fs = create_file (lit ''/var/run/gpio-mailbox'') fs"

definition parent_sighandler :: "int \<Rightarrow> fsys \<Rightarrow> int \<times> fsys" where
  "parent_sighandler sig fs = (sig, parent_died fs)"

text \<open>
  \<open>main\<close>: the exit status, the files, and what the mailbox left when it ran; \<open>handle\<close> is what \<open>PinCreate\<close> returned. The
  directories are made by the system and not part of \<open>fsys\<close>.
\<close>

definition gpio_main ::
    "(int \<Rightarrow> cstr) \<Rightarrow> 'h pin_ops \<Rightarrow> int \<Rightarrow> int \<Rightarrow> bool \<Rightarrow> 'h option \<Rightarrow> tick \<Rightarrow> tick list \<Rightarrow> fsys \<Rightarrow>
     (int \<times> fsys \<times> 'h mailbox option) option" where
  "gpio_main fmt2 ops brightness pid chdir_ok handle t0 tks fs =
     (if \<not> chdir_ok then Some (1, fs, None)
      else case handle of
        None \<Rightarrow> Some (98, fs, None)
      | Some h \<Rightarrow> do {
          st \<leftarrow> run_gpio_mailbox fmt2 ops brightness pid t0 tks h fs;
          Some (98, parent_died (files st), Some st)
        })"

section \<open>The LED pattern stays in its arrays\<close>

definition leds_wf :: "leds \<Rightarrow> bool" where
  "leds_wf l \<longleftrightarrow> length (led_sequence_arr l) = 16 \<and> length (led_sequence_for_brightness l) = 16 \<and>
     led_sequence_len l \<le> 16 \<and> 1000 \<le> led_total_time l \<and> led_total_time l \<le> 10000"

lemma led_repeat_wf:
  "leds_wf l \<Longrightarrow> \<exists>l'. led_repeat n v b l = Some l' \<and> leds_wf l'"
proof (induction n arbitrary: l)
  case (Suc n)
  show ?case
  proof (cases "led_sequence_len l \<ge> 16")
    case False
    let ?k = "led_sequence_len l"
    obtain s where s: "arr_put (led_sequence_arr l) ?k [v mod 256] = Some s" "length s = 16"
      using Suc.prems False by (auto simp: leds_wf_def carr_simps)
    obtain c where c: "arr_put (led_sequence_for_brightness l) ?k [b] = Some c" "length c = 16"
      using Suc.prems False by (auto simp: leds_wf_def carr_simps)
    show ?thesis
      using Suc.IH [of "l\<lparr>led_sequence_arr := s, led_sequence_for_brightness := c, led_sequence_len := ?k + 1\<rparr>"]
        Suc.prems False s c by (simp add: leds_wf_def)
  qed (use Suc.prems in simp)
qed simp

lemma led_token_wf: "leds_wf l \<Longrightarrow> \<exists>l'. led_token p l = Some l' \<and> leds_wf l'"
  using led_repeat_wf [of l] by (auto simp: led_token_def Let_def leds_wf_def total_time_def split: prod.split)

lemma led_tokens_wf: "leds_wf l \<Longrightarrow> \<exists>l'. led_tokens b l = Some l' \<and> leds_wf l'"
proof (induction b l rule: led_tokens.induct)
  case (2 buf l)
  show ?case
  proof (cases "fst (strsep buf) = []")
    case True
    then show ?thesis using 2 by auto
  next
    case False
    obtain l1 where "led_token (fst (strsep buf)) l = Some l1" "leds_wf l1"
      using led_token_wf "2.prems" by blast
    then show ?thesis using "2.IH"(2) [OF _ False] "2.prems" False by auto
  qed
qed simp

lemma read_led_sequence_wf:
  assumes "leds_wf l" "read_file f fs \<noteq> None"
  shows "\<exists>l'. read_led_sequence_file f fs l = Some l' \<and> leds_wf l' \<and> 1 \<le> led_sequence_len l'"
proof -
  obtain buf where b: "read_file f fs = Some buf" using assms(2) by auto
  have "leds_wf (l\<lparr>led_sequence_len := 0, led_total_time := 1000\<rparr>)" using assms(1) by (simp add: leds_wf_def)
  then obtain l1 where l1: "led_tokens (Some buf) (l\<lparr>led_sequence_len := 0, led_total_time := 1000\<rparr>) = Some l1"
    "leds_wf l1" using led_tokens_wf by blast
  then have "arr_put (led_sequence_arr l1) 0 [1] = Some (1 # drop 1 (led_sequence_arr l1))"
    by (simp add: leds_wf_def carr_simps)
  then show ?thesis
    using l1 b by (cases "led_sequence_len l1 = 0") (auto simp: read_led_sequence_file_def leds_wf_def)
qed

lemma msec_offset_range:
  "0 \<le> m \<Longrightarrow> 0 < T \<Longrightarrow> 0 \<le> msec_offset m r T \<and> msec_offset m r T < int T"
  using c_rem_range [of m "int T"] c_rem_above [of "int T" r]
  unfolding msec_offset_def by (intro c_rem_range) auto

lemma led_index_less:
  assumes "leds_wf l" "1 \<le> led_sequence_len l" "0 \<le> frac" "frac < int (led_total_time l)"
  shows "led_index frac l < led_sequence_len l"
proof -
  let ?n = "int (led_sequence_len l)" and ?T = "int (led_total_time l)"
  define i where "i = (?n * frac) div ?T"
  have T: "0 < ?T" using assms(1) by (simp add: leds_wf_def)
  have "?n * frac < ?n * ?T" using assms by simp
  moreover have "i * ?T \<le> ?n * frac"
    unfolding i_def using div_mult_mod_eq [of "?n * frac" ?T] pos_mod_sign [OF T, of "?n * frac"] by linarith
  ultimately have "i * ?T < ?n * ?T" by linarith
  then have "i < ?n" using T by simp
  moreover have "0 \<le> i" unfolding i_def using assms(3) T by (simp add: pos_imp_zdiv_nonneg_iff)
  moreover have "c_quot (?n * frac) ?T = i"
    using assms(3) by (cases "?n * frac = 0") (auto simp: c_quot_def i_def sgn_if mult_less_0_iff)
  moreover have "?n \<le> 16" using assms(1) by (simp add: leds_wf_def)
  ultimately show ?thesis by (simp add: led_index_def Let_def wrap_int_id)
qed

section \<open>What each part of a round changes\<close>

definition led_settings :: "(PinId \<times> int) list \<Rightarrow> int \<Rightarrow> bool" where
  "led_settings lg b \<longleftrightarrow> (\<forall>(i, v) \<in> set lg. is_led i \<and> (v = 0 \<or> v = b))"

lemma pin_set_present_frame:
  "\<exists>h lg. pin_set_present ops i v st = st\<lparr>hw := h, pin_log := pin_log st @ lg\<rparr> \<and> set lg \<subseteq> {(i, v)}"
  by (rule exI [of _ "if PinIsPresent ops (hw st) i \<noteq> 0 then snd (PinSetValue ops (hw st) i v) else hw st"],
      rule exI [of _ "if PinIsPresent ops (hw st) i \<noteq> 0 then [(i, v)] else []"])
     (auto simp: pin_set_present_def pin_set_def)

lemma set_leds_frame:
  "\<exists>h lg. set_leds_from_bitfields ops f b st = st\<lparr>hw := h, pin_log := pin_log st @ lg\<rparr> \<and> led_settings lg b"
proof (cases "contents (files st) (lit ''disable'') \<noteq> None \<and> can_open (files st) (lit ''disable'')")
  case True
  then show ?thesis
    by (intro exI [of _ "hw st"] exI [of _ "[]"]) (simp add: set_leds_from_bitfields_def led_settings_def)
next
  case False
  let ?f = "led_fields (is_limited_leds st) (platform_b0 st) f"
  let ?v = "\<lambda>m. if ?f AND m \<noteq> 0 then b else 0"
  obtain h1 l1 where 1: "pin_set_present ops PIN_LED_RED (?v 1) st = st\<lparr>hw := h1, pin_log := pin_log st @ l1\<rparr>"
    "set l1 \<subseteq> {(PIN_LED_RED, ?v 1)}"
    using pin_set_present_frame [of ops PIN_LED_RED "?v 1" st] by (elim exE conjE)
  define s1 where "s1 = st\<lparr>hw := h1, pin_log := pin_log st @ l1\<rparr>"
  obtain h2 l2 where 2: "pin_set_present ops PIN_LED_BLUE (?v 2) s1 = s1\<lparr>hw := h2, pin_log := pin_log s1 @ l2\<rparr>"
    "set l2 \<subseteq> {(PIN_LED_BLUE, ?v 2)}"
    using pin_set_present_frame [of ops PIN_LED_BLUE "?v 2" s1] by (elim exE conjE)
  define s2 where "s2 = s1\<lparr>hw := h2, pin_log := pin_log s1 @ l2\<rparr>"
  obtain h3 l3 where 3: "pin_set_present ops PIN_LED_ACTIVITY (?v 4) s2 = s2\<lparr>hw := h3, pin_log := pin_log s2 @ l3\<rparr>"
    "set l3 \<subseteq> {(PIN_LED_ACTIVITY, ?v 4)}"
    using pin_set_present_frame [of ops PIN_LED_ACTIVITY "?v 4" s2] by (elim exE conjE)
  define s3 where "s3 = s2\<lparr>hw := h3, pin_log := pin_log s2 @ l3\<rparr>"
  obtain h4 l4 where 4: "pin_set_present ops PIN_LED_STANDBY (?v 8) s3 = s3\<lparr>hw := h4, pin_log := pin_log s3 @ l4\<rparr>"
    "set l4 \<subseteq> {(PIN_LED_STANDBY, ?v 8)}"
    using pin_set_present_frame [of ops PIN_LED_STANDBY "?v 8" s3] by (elim exE conjE)
  have "set_leds_from_bitfields ops f b st = s3\<lparr>hw := h4, pin_log := pin_log s3 @ l4\<rparr>"
    using False 1(1) 2(1) 3(1) 4(1) unfolding set_leds_from_bitfields_def s3_def s2_def s1_def
    by (simp only: if_False Let_def)
  also have "\<dots> = st\<lparr>hw := h4, pin_log := pin_log st @ (l1 @ l2 @ l3 @ l4)\<rparr>"
    by (simp add: s3_def s2_def s1_def)
  finally have e: "set_leds_from_bitfields ops f b st = \<dots>" .
  have "led_settings (l1 @ l2 @ l3 @ l4) b"
    using 1(2) 2(2) 3(2) 4(2) by (auto simp: led_settings_def is_led_def split: if_splits)
  with e show ?thesis by blast
qed

lemma led_update_frame:
  assumes "leds_wf (led st)" "1 \<le> led_sequence_len (led st)" "0 \<le> frac" "frac < int (led_total_time (led st))"
  shows "\<exists>h lg b. led_sequence_update ops frac st =
      Some (st\<lparr>files := snd (fs_unlink (lit ''activity'') (files st)), hw := h, pin_log := pin_log st @ lg\<rparr>) \<and>
    led_settings lg b \<and> b \<in> set (take (led_sequence_len (led st)) (led_sequence_for_brightness (led st)))"
proof -
  let ?i = "led_index frac (led st)" and ?b = "led_sequence_for_brightness (led st) ! led_index frac (led st)"
  have i: "?i < led_sequence_len (led st)" using led_index_less [OF assms] .
  then have l: "?i < length (led_sequence_arr (led st))" "?i < length (led_sequence_for_brightness (led st))"
    using assms(1) by (auto simp: leds_wf_def)
  have "?b \<in> set (take (led_sequence_len (led st)) (led_sequence_for_brightness (led st)))"
    using i l(2) by (auto simp: in_set_conv_nth intro!: exI [of _ ?i])
  moreover have "\<exists>x. led_sequence_update ops frac st = Some (set_leds_from_bitfields ops x ?b
      (st\<lparr>files := snd (fs_unlink (lit ''activity'') (files st))\<rparr>))"
    using l by (simp add: led_sequence_update_def carr_simps Let_def split_beta) blast
  moreover have "\<exists>h lg. set_leds_from_bitfields ops x ?b (st\<lparr>files := fs\<rparr>)
      = st\<lparr>files := fs, hw := h, pin_log := pin_log st @ lg\<rparr> \<and> led_settings lg ?b" for x fs
    using set_leds_frame [of ops x ?b "st\<lparr>files := fs\<rparr>"] by simp
  ultimately show ?thesis by metis
qed

lemma halve_ticks_range: "0 \<le> x \<Longrightarrow> 0 \<le> halve_ticks x \<and> halve_ticks x \<le> 125"
proof (induction x rule: halve_ticks.induct)
  case (1 x)
  then show ?case by (subst (1 2) halve_ticks.simps) (auto simp: POLL_HZ_def)
qed

lemma can_read_read_file: "can_read fs f \<Longrightarrow> read_file f fs \<noteq> None"
  by (auto simp: read_file_def fs_read_file_def split: option.split)

lemma led_block_frame:
  assumes "leds_wf (led st)" "1 \<le> led_sequence_len (led st)" "0 \<le> offset st"
    "offset st < int (led_total_time (led st))" "0 \<le> inner_loop_ticks st" "inner_loop_ticks st \<le> 125"
    and "can_read (files st) (lit ''leds'')" "0 \<le> t_mono tk"
  shows "\<exists>l it mp ll off fs. led_block tk st = Some (st\<lparr>led := l, inner_loop_ticks := it, msec_per_led := mp,
      last_led := ll, offset := off, files := fs\<rparr>) \<and> leds_wf l \<and> 1 \<le> led_sequence_len l \<and> 0 \<le> off \<and>
    off < int (led_total_time l) \<and> 0 \<le> it \<and> it \<le> 125 \<and>
    (fs = files st \<or> fs = create_file (lit ''leds-ready'') (files st))"
proof (cases "t_now tk - last_led st \<ge> msec_per_led st")
  case False
  then have "led_block tk st = Some (st\<lparr>led := led st, inner_loop_ticks := inner_loop_ticks st,
      msec_per_led := msec_per_led st, last_led := last_led st, offset := offset st, files := files st\<rparr>)"
    by (simp add: led_block_def)
  then show ?thesis using assms by blast
next
  case True
  obtain l where l: "read_led_sequence_file (lit ''leds'') (files st) (led st) = Some l" "leds_wf l"
    "1 \<le> led_sequence_len l"
    using read_led_sequence_wf [OF assms(1) can_read_read_file [OF assms(7)]] by blast
  have "0 < led_total_time l" using l(2) by (simp add: leds_wf_def)
  note o = msec_offset_range [OF assms(8) this, of "t_real tk"]
  have "0 \<le> POLL_HZ div int (led_sequence_len l) + 1"
    using l(3) by (simp add: POLL_HZ_def pos_imp_zdiv_nonneg_iff)
  note h = halve_ticks_range [OF this]
  show ?thesis using True l o h by (simp add: led_block_def) blast
qed

text \<open>
  What the fan is to do: the abstract rule, from the text of \<open>fanpercent\<close> and the temperature. The
  request is the number \<open>strtol\<close> reads, cut to an \<open>int\<close>, so a text without a number is a request for 0.
\<close>

definition fan_level :: "cstr \<Rightarrow> int \<Rightarrow> int" where
  "fan_level s temp =
     (let w = wrap_int (fst (strtol0 s))
      in if s \<noteq> [] \<and> 0 \<le> w \<and> w \<le> 100 \<and> temp < HIGH_TEMP_OVERRIDE then w else 100)"

lemma fan_level_range: "0 \<le> fan_level s temp \<and> fan_level s temp \<le> 100"
  by (simp add: fan_level_def Let_def)

lemma fan_want_frame:
  "\<exists>ww. fan_want s st = st\<lparr>wantspeed_warned := ww, wantspeed := fan_level s (cpu_temp st)\<rparr>"
proof -
  define w where "w = wrap_int (fst (strtol0 s))"
  define bad where "bad \<longleftrightarrow> w < 0 \<or> w > 100 \<or> w < 100 \<and> cpu_temp st \<ge> HIGH_TEMP_OVERRIDE"
  have "fan_want s st = st\<lparr>wantspeed_warned := if s = [] then 1 else if bad then w else - 42,
      wantspeed := fan_level s (cpu_temp st)\<rparr>"
    by (cases "s = []"; cases "w = 100")
       (simp_all add: fan_want_def fan_level_def w_def [symmetric] bad_def Let_def)
  then show ?thesis by blast
qed

section \<open>Files other programs read\<close>

definition pub_ints :: "cstr list" where
  "pub_ints = [lit ''fanspeed'', lit ''reset_button_msecs'', lit ''ready'']"

definition pub_doubles :: "cstr list" where
  "pub_doubles = [lit ''cpu_temperature'', lit ''cpu_voltage'']"

definition disk_ok :: "fsys \<Rightarrow> bool" where
  "disk_ok fs \<longleftrightarrow> can_read fs (lit ''leds'') \<and> can_read fs (lit ''fanpercent'') \<and>
     (\<forall>n \<in> set (pub_ints @ pub_doubles). can_open fs (tmp_name n) \<and> 127 \<le> room fs (tmp_name n))"

text \<open>A step of the files that touches neither the button's report nor the ready flag.\<close>

definition quiet :: "fsys \<Rightarrow> fsys \<Rightarrow> bool" where
  "quiet a b \<longleftrightarrow> same_disk a b \<and>
     contents b (lit ''reset_button_msecs'') = contents a (lit ''reset_button_msecs'') \<and>
     contents b (lit ''ready'') = contents a (lit ''ready'')"

lemma quiet_refl [simp]: "quiet a a"
  by (simp add: quiet_def)

lemma disk_ok_same: "same_disk a b \<Longrightarrow> disk_ok b = disk_ok a"
  by (simp add: disk_ok_def same_disk_def)

lemma quiet_trans [trans]: "quiet a b \<Longrightarrow> quiet b c \<Longrightarrow> quiet a c"
  using same_disk_trans [of a b c] by (simp add: quiet_def)

lemma quiet_set:
  assumes "n \<noteq> lit ''reset_button_msecs''" "n \<noteq> lit ''ready''"
  shows "quiet fs (fs_set ((contents fs)(n := v)) fs)"
  using assms by (auto simp: quiet_def)

lemma tmp_lit: "tmp_name (lit a) = lit (a @ ''.tmp'')"
  by (simp add: tmp_name_def lit_def)

lemma WRITE_contents:
  "can_open fs (tmp_name n) \<Longrightarrow> 127 \<le> room fs (tmp_name n) \<Longrightarrow> ov \<noteq> Some v \<Longrightarrow>
     contents (snd (WRITE_TO_FILE n ov v True fmt fs)) = (contents fs)(tmp_name n := None, n := Some (take 127 (fmt v)))"
  using atomic_contents [of fs n "take 127 (fmt v)"] by (auto simp: WRITE_TO_FILE_def Let_def min_def)

lemma WRITE_contents_other:
  "m \<noteq> n \<Longrightarrow> m \<noteq> tmp_name n \<Longrightarrow> contents (snd (WRITE_TO_FILE n ov v True fmt fs)) m = contents fs m"
  by (auto simp: WRITE_TO_FILE_def Let_def write_file_string_atomic_def write_file_string_def fs_rename_def)

lemma quiet_WRITE:
  assumes "n = lit ''fanspeed'' \<or> n = lit ''cpu_temperature'' \<or> n = lit ''cpu_voltage''"
  shows "quiet fs (snd (WRITE_TO_FILE n ov v True fmt fs))"
proof -
  have "lit ''ready'' \<noteq> n" "lit ''ready'' \<noteq> tmp_name n" "lit ''reset_button_msecs'' \<noteq> n"
    "lit ''reset_button_msecs'' \<noteq> tmp_name n" using assms by (auto simp: tmp_lit)
  then show ?thesis by (simp add: quiet_def frame_simps WRITE_contents_other)
qed

definition input_files :: "cstr list" where
  "input_files = [lit ''leds'', lit ''fanpercent'', lit ''activity'', lit ''disable'']"

definition tick_ok :: "tick \<Rightarrow> bool" where
  "tick_ok tk \<longleftrightarrow> 1 < t_now tk \<and> 0 \<le> t_mono tk \<and> list_all (\<lambda>e. fst e \<in> set input_files) (t_env tk)"

lemma quiet_name:
  assumes "n \<notin> set (pub_ints @ pub_doubles)"
  shows "quiet fs (fs_set ((contents fs)(n := v)) fs)"
  using assms by (intro quiet_set) (auto simp: pub_ints_def)

lemma quiet_env: "list_all (\<lambda>e. fst e \<in> set input_files) es \<Longrightarrow> quiet fs (fold env_change es fs)"
proof (induction es arbitrary: fs)
  case (Cons e es)
  have "fst e \<notin> set (pub_ints @ pub_doubles)"
    using Cons.prems by (auto simp: input_files_def pub_ints_def pub_doubles_def)
  then have "quiet fs (env_change e fs)" unfolding env_change_def by (rule quiet_name)
  also have "quiet \<dots> (fold env_change es (env_change e fs))" using Cons by simp
  finally show ?case by simp
qed simp

lemma quiet_unlink_activity: "quiet fs (snd (fs_unlink (lit ''activity'') fs))"
  using quiet_name [of "lit ''activity''" fs None]
  by (simp add: fs_unlink_def pub_ints_def pub_doubles_def split: option.split)

lemma quiet_create: "quiet fs (create_file (lit ''leds-ready'') fs)"
  using quiet_name [of "lit ''leds-ready''" fs "Some []"]
  by (simp add: create_file_def pub_ints_def pub_doubles_def)

lemma fan_block_frame:
  assumes "disk_ok (files st)"
  shows "\<exists>ww w lg h x fs. fan_block ops st = Some (st\<lparr>wantspeed_warned := ww, wantspeed := w, hw := h,
      pin_log := pin_log st @ lg, fanspeed := x, files := fs\<rparr>) \<and> quiet (files st) fs \<and>
    (has_fan st \<longrightarrow> lg = [(PIN_FAN_CHASSIS, fan_level (the (read_file (lit ''fanpercent'') (files st))) (cpu_temp st))]) \<and>
    (\<not> has_fan st \<longrightarrow> lg = [])"
proof (cases "has_fan st")
  case False
  then have "fan_block ops st = Some (st\<lparr>wantspeed_warned := wantspeed_warned st, wantspeed := wantspeed st, hw := hw st,
      pin_log := pin_log st @ [], fanspeed := fanspeed st, files := files st\<rparr>)" by (simp add: fan_block_def)
  then show ?thesis using False quiet_refl by blast
next
  case True
  obtain s where s: "read_file (lit ''fanpercent'') (files st) = Some s"
    using can_read_read_file [of "files st" "lit ''fanpercent''"] assms by (auto simp: disk_ok_def)
  obtain ww where w: "fan_want s st = st\<lparr>wantspeed_warned := ww, wantspeed := fan_level s (cpu_temp st)\<rparr>"
    using fan_want_frame by blast
  define W where "W = WRITE_TO_FILE (lit ''fanspeed'') (Some (fanspeed st)) (fan_detected_speed st) True dec_int (files st)"
  have q: "quiet (files st) (snd W)" unfolding W_def by (rule quiet_WRITE) auto
  have e: "fan_block ops st = Some (st\<lparr>wantspeed_warned := ww, wantspeed := fan_level s (cpu_temp st),
      hw := snd (PinSetValue ops (hw st) PIN_FAN_CHASSIS (fan_level s (cpu_temp st))),
      pin_log := pin_log st @ [(PIN_FAN_CHASSIS, fan_level s (cpu_temp st))],
      fanspeed := the (fst W), files := snd W\<rparr>)"
    using True s w by (simp add: fan_block_def pin_set_def write_file_longlong_atomic_def W_def split_beta)
  show ?thesis
    apply (intro exI conjI)
       apply (rule e)
      apply (rule q)
    using True s by simp_all
qed

lemma temp_block_frame:
  "\<exists>h v fs. temp_block fmt2 ops st = st\<lparr>hw := h, cpu_temp := v, files := fs\<rparr> \<and> quiet (files st) fs"
proof -
  obtain status x h where p: "PinValue ops (hw st) PIN_TEMP_CPU = (status, x, h)" by (metis prod_cases3)
  define W where "W = WRITE_TO_FILE (lit ''cpu_temperature'') (Some (cpu_temp st)) x True fmt2 (files st)"
  have q: "quiet (files st) (snd W)" unfolding W_def by (rule quiet_WRITE) auto
  have "temp_block fmt2 ops st = st\<lparr>hw := h, cpu_temp := if status = 0 then the (fst W) else cpu_temp st,
      files := if status = 0 then snd W else files st\<rparr>"
    by (simp add: temp_block_def p W_def write_file_double_atomic_def split_beta)
  moreover have "quiet (files st) (if status = 0 then snd W else files st)" using q by simp
  ultimately show ?thesis by blast
qed

lemma volts_block_frame:
  "\<exists>h v fs. volts_block fmt2 ops st = st\<lparr>hw := h, cpu_volts := v, files := fs\<rparr> \<and> quiet (files st) fs"
proof -
  obtain status x h where p: "PinValue ops (hw st) PIN_MVOLTS_CPU = (status, x, h)" by (metis prod_cases3)
  define W where "W x = WRITE_TO_FILE (lit ''cpu_voltage'') (Some (cpu_volts st)) x True fmt2 (files st)" for x
  have q: "quiet (files st) (snd (W x))" for x unfolding W_def by (rule quiet_WRITE) auto
  consider "\<not> has_cpu_voltage st" | "has_cpu_voltage st" "status = 0" | "has_cpu_voltage st" "status \<noteq> 0" by blast
  then show ?thesis
  proof cases
    case 1
    then have "volts_block fmt2 ops st = st\<lparr>hw := hw st, cpu_volts := the (fst (W 0)), files := snd (W 0)\<rparr>"
      by (simp add: volts_block_def W_def write_file_double_atomic_def split_beta)
    then show ?thesis using q by blast
  next
    case 2
    then have "volts_block fmt2 ops st = st\<lparr>hw := h, cpu_volts := the (fst (W x)), files := snd (W x)\<rparr>"
      by (simp add: volts_block_def p W_def write_file_double_atomic_def split_beta)
    then show ?thesis using q by blast
  next
    case 3
    then have "volts_block fmt2 ops st = st\<lparr>hw := h, cpu_volts := cpu_volts st, files := files st\<rparr>"
      by (simp add: volts_block_def p)
    then show ?thesis using quiet_refl by blast
  qed
qed

text \<open>The part of the state that the slow half of a round leaves alone.\<close>

definition same_core :: "'h mailbox \<Rightarrow> 'h mailbox \<Rightarrow> bool" where
  "same_core a b \<longleftrightarrow> led b = led a \<and> offset b = offset a \<and> inner_loop_ticks b = inner_loop_ticks a \<and>
     has_fan b = has_fan a \<and> has_reset_button b = has_reset_button a \<and> is_limited_leds b = is_limited_leds a \<and>
     platform_b0 b = platform_b0 a \<and> reset_start b = reset_start a \<and> reset_amt b = reset_amt a \<and>
     readyval b = readyval a \<and> button_log b = button_log a \<and> slept b = slept a"

definition fan_due :: "tick \<Rightarrow> 'h mailbox \<Rightarrow> bool" where
  "fan_due tk st \<longleftrightarrow> has_fan st \<and> t_now tk - last_time st > 2000"

lemma slow_block_frame:
  assumes "disk_ok (files st)"
  shows "\<exists>st'. slow_block fmt2 ops tk st = Some st' \<and> same_core st st' \<and> quiet (files st) (files st') \<and>
    last_print_time st' = last_print_time st \<and>
    pin_log st' = pin_log st @ (if fan_due tk st
      then [(PIN_FAN_CHASSIS, fan_level (the (read_file (lit ''fanpercent'') (files st))) (cpu_temp st))] else [])"
proof (cases "t_now tk - last_time st > 2000")
  case False
  then show ?thesis by (simp add: slow_block_def same_core_def fan_due_def)
next
  case True
  let ?l = "[(PIN_FAN_CHASSIS, fan_level (the (read_file (lit ''fanpercent'') (files st))) (cpu_temp st))]"
  obtain ww w lg h x f1 where 1: "fan_block ops st = Some (st\<lparr>wantspeed_warned := ww, wantspeed := w, hw := h,
      pin_log := pin_log st @ lg, fanspeed := x, files := f1\<rparr>)" "quiet (files st) f1"
    "has_fan st \<longrightarrow> lg = ?l" "\<not> has_fan st \<longrightarrow> lg = []"
    using fan_block_frame [OF assms, of ops] by (elim exE conjE)
  define s1 where "s1 = st\<lparr>wantspeed_warned := ww, wantspeed := w, hw := h,
      pin_log := pin_log st @ lg, fanspeed := x, files := f1\<rparr>"
  obtain h2 v2 f2 where 2: "temp_block fmt2 ops s1 = s1\<lparr>hw := h2, cpu_temp := v2, files := f2\<rparr>"
    "quiet (files s1) f2" 
    using temp_block_frame [of fmt2 ops s1] by (elim exE conjE)
  define s2 where "s2 = s1\<lparr>hw := h2, cpu_temp := v2, files := f2\<rparr>"
  obtain h3 v3 f3 where 3: "volts_block fmt2 ops s2 = s2\<lparr>hw := h3, cpu_volts := v3, files := f3\<rparr>"
    "quiet (files s2) f3" 
    using volts_block_frame [of fmt2 ops s2] by (elim exE conjE)
  define s3 where "s3 = s2\<lparr>hw := h3, cpu_volts := v3, files := f3\<rparr>"
  have e: "slow_block fmt2 ops tk st = Some (s3\<lparr>last_time := t_now tk\<rparr>)"
    using True 1(1) 2(1) 3(1) unfolding slow_block_def s3_def s2_def s1_def by simp
  have "quiet (files st) (files s3)"
    using quiet_trans [OF quiet_trans [OF 1(2), of f2] , of f3] 2(2) 3(2)
    by (simp add: s3_def s2_def s1_def)
  moreover have "same_core st (s3\<lparr>last_time := t_now tk\<rparr>)"
    by (simp add: same_core_def s3_def s2_def s1_def)
  moreover have "pin_log s3 = pin_log st @ (if fan_due tk st then ?l else [])"
    using 1(3,4) True by (simp add: s3_def s2_def s1_def fan_due_def)
  moreover have "last_print_time s3 = last_print_time st" by (simp add: s3_def s2_def s1_def)
  ultimately show ?thesis by (intro exI [of _ "s3\<lparr>last_time := t_now tk\<rparr>"]) (simp add: e)
qed

text \<open>The boot process is not left waiting: after \<open>main\<close>, and after a signal to the other process, the file is there.\<close>

lemma parent_died_announces:
  "can_open fs (lit ''/var/run/gpio-mailbox'') \<Longrightarrow> contents (parent_died fs) (lit ''/var/run/gpio-mailbox'') \<noteq> None"
  by (simp add: parent_died_def create_file_def fs_set_def)

lemma gpio_main_announces:
  assumes "gpio_main fmt2 ops brightness pid True (Some h) t0 tks fs = Some (rc, fs', m)"
    "can_open fs' (lit ''/var/run/gpio-mailbox'')"
  shows "rc = 98 \<and> contents fs' (lit ''/var/run/gpio-mailbox'') \<noteq> None"
proof -
  obtain st where st: "run_gpio_mailbox fmt2 ops brightness pid t0 tks h fs = Some st"
    using assms(1) by (cases "run_gpio_mailbox fmt2 ops brightness pid t0 tks h fs") (simp_all add: gpio_main_def)
  then have "rc = 98" "fs' = parent_died (files st)" using assms(1) by (simp_all add: gpio_main_def)
  moreover have "can_open (parent_died f) = can_open f" for f by (simp add: parent_died_def create_file_def fs_set_def)
  ultimately show ?thesis using assms(2) parent_died_announces [of "files st"] by simp
qed

text \<open>The line of a signal shows its number, with three digits.\<close>

lemma sig_handler_message:
  assumes "0 \<le> sig" "sig < 1000" "sig_handler sig = (shutdown_sig, line, trace)"
  shows "shutdown_sig = sig \<and> dec_value 0 (take 3 (drop 18 line)) = nat sig"
proof -
  define a b c where "a = c_rem (c_quot sig 100) 10" and "b = c_rem (c_quot sig 10) 10" and "c = c_rem sig 10"
  have eqs: "a = sig div 100 mod 10" "b = sig div 10 mod 10" "c = sig mod 10"
    using assms(1) by (simp_all add: a_def b_def c_def c_quot_nonneg c_rem_nonneg)
  then have r: "0 \<le> a" "a < 10" "0 \<le> b" "b < 10" "0 \<le> c" "c < 10" by simp_all
  have "a = sig div 100" unfolding eqs using assms(1,2) by (intro mod_pos_pos_trivial) (auto simp: pos_imp_zdiv_nonneg_iff)
  then have "a = sig div 10 div 10" by (simp add: zdiv_zmult2_eq [symmetric])
  then have sum: "100 * a + 10 * b + c = sig"
    using div_mult_mod_eq [of sig 10] div_mult_mod_eq [of "sig div 10" 10] unfolding eqs(2,3) by linarith
  have "dec_value 0 (map (\<lambda>d. word_of_int (48 + d)) [a, b, c]) = nat (100 * a + 10 * b + c)"
    unfolding list.map using r by (simp only: dec_value_digit dec_value.simps(1))
      (simp add: nat_add_distrib nat_mult_distrib)
  then show ?thesis using assms(3) sum by (auto simp: sig_handler_def lit_def a_def b_def c_def)
qed

end
