(* ===== verification/Gpio_Spec.thy ===== *)
theory Gpio_Spec
  imports Gpio_Mailbox
begin

text \<open>
  The properties of the GPIO mailbox: the invariant of its main loop, what the fan is told, what
  the report of the reset button says, and what the
  LEDs show, on each of the boards.
\<close>

section \<open>The report of the reset button\<close>

text \<open>
  The log of the button is a list of times and values. A press begins with the first sample of
  the run of pressed samples at the end of the log.
\<close>

definition press_start :: "(int \<times> int) list \<Rightarrow> int" where
  "press_start lg = fst (last (takeWhile (\<lambda>s. snd s \<noteq> 0) (rev lg)))"

definition pressed :: "(int \<times> int) list \<Rightarrow> bool" where
  "pressed lg \<longleftrightarrow> lg \<noteq> [] \<and> snd (last lg) \<noteq> 0"

definition press_report :: "(int \<times> int) list \<Rightarrow> cstr option" where
  "press_report lg =
     (if pressed lg then Some (take 127 (dec_int (fst (last lg) - press_start lg + 1))) else None)"

lemma press_start_snoc:
  "v \<noteq> 0 \<Longrightarrow> press_start (lg @ [(t, v)]) = (if pressed lg then press_start lg else t)"
proof -
  assume v: "v \<noteq> 0"
  show ?thesis
  proof (cases "pressed lg")
    case True
    then obtain a b where "rev lg = a # b" "snd a \<noteq> 0"
      by (cases "rev lg") (auto simp: pressed_def rev_swap)
    then show ?thesis using v True by (simp add: press_start_def)
  next
    case False
    then have "takeWhile (\<lambda>s. snd s \<noteq> 0) (rev lg) = []"
      by (cases "rev lg") (auto simp: pressed_def rev_swap)
    then show ?thesis using v False by (simp add: press_start_def)
  qed
qed

lemma press_start_le:
  assumes "pressed lg" "\<forall>s \<in> set lg. 1 < fst s \<and> fst s \<le> t"
  shows "1 < press_start lg \<and> press_start lg \<le> t"
proof -
  let ?w = "takeWhile (\<lambda>s. snd s \<noteq> 0) (rev lg)"
  obtain a b where "rev lg = a # b" "snd a \<noteq> 0"
    using assms(1) by (cases "rev lg") (auto simp: pressed_def rev_swap)
  then have "?w \<noteq> []" by simp
  then have "last ?w \<in> set lg" using last_in_set [of ?w] set_takeWhileD by fastforce
  then show ?thesis using assms(2) by (simp add: press_start_def)
qed

text \<open>The variables and the file that go with a log.\<close>

definition press_ok :: "'h mailbox \<Rightarrow> bool" where
  "press_ok st \<longleftrightarrow>
     (let lg = button_log st in
      if lg = [] then reset_start st = 0 \<and> reset_amt st = - 42
      else contents (files st) (lit ''reset_button_msecs'') = press_report lg \<and>
        (if pressed lg
         then reset_start st = press_start lg - 1 \<and> reset_amt st = fst (last lg) - press_start lg + 1
         else reset_start st = 0 \<and> reset_amt st = 0))"

definition times_ok :: "int \<Rightarrow> 'h mailbox \<Rightarrow> bool" where
  "times_ok t st \<longleftrightarrow> sorted (map fst (button_log st)) \<and> (\<forall>s \<in> set (button_log st). 1 < fst s \<and> fst s \<le> t)"

lemma sorted_le_last: "sorted (map fst lg) \<Longrightarrow> s \<in> set lg \<Longrightarrow> fst s \<le> fst (last lg)"
  by (induction lg rule: rev_induct) (auto simp: sorted_append)

lemma press_start_last:
  assumes "times_ok t st" "pressed (button_log st)"
  shows "press_start (button_log st) \<le> fst (last (button_log st))"
proof -
  have "\<forall>s \<in> set (button_log st). 1 < fst s \<and> fst s \<le> fst (last (button_log st))"
    using assms(1) by (simp add: times_ok_def sorted_le_last)
  from press_start_le [OF assms(2) this] show ?thesis by simp
qed

definition reset_step :: "tick \<Rightarrow> int \<Rightarrow> 'h mailbox \<Rightarrow> 'h mailbox" where
  "reset_step tk v st = reset_block tk v (st\<lparr>button_log := button_log st @ [(t_now tk, v)]\<rparr>)"

lemma reset_file_disk:
  "disk_ok fs \<Longrightarrow> can_open fs (tmp_name (lit ''reset_button_msecs'')) \<and> 127 \<le> room fs (tmp_name (lit ''reset_button_msecs''))"
  by (auto simp: disk_ok_def pub_ints_def)

lemma reset_step_press:
  assumes "press_ok st" "times_ok (t_now tk) st" "disk_ok (files st)" "1 < t_now tk"
  shows "press_ok (reset_step tk v st)"
proof (cases "v = 0")
  case True
  have "contents (snd (fs_unlink n fs)) n = None" for n fs
    by (auto simp: fs_unlink_def split: option.split)
  moreover have "reset_amt st = 0 \<Longrightarrow> contents (files st) (lit ''reset_button_msecs'') = None"
    using assms(1) press_start_last [OF assms(2)]
    by (auto simp: press_ok_def Let_def times_ok_def press_report_def split: if_splits)
  ultimately show ?thesis
    using True by (auto simp: press_ok_def reset_step_def reset_block_def Let_def pressed_def press_report_def)
next
  case False
  let ?lg = "button_log st @ [(t_now tk, v)]" and ?n = "lit ''reset_button_msecs''"
  define rs where "rs = press_start ?lg - 1"
  have rs: "(if reset_start st = 0 then t_now tk - 1 else reset_start st) = rs"
    using assms(1) press_start_snoc [OF False, of "button_log st" "t_now tk"]
      press_start_le [of "button_log st" "t_now tk"] assms(2,4)
    by (auto simp: press_ok_def rs_def Let_def times_ok_def pressed_def split: if_splits)
  define amt where "amt = t_now tk - rs"
  let ?W = "WRITE_TO_FILE ?n (Some (reset_amt st)) amt True dec_int (files st)"
  have st': "reset_step tk v st = st\<lparr>button_log := ?lg, reset_start := rs, reset_amt := amt, files := snd ?W\<rparr>"
    using False rs by (auto simp: reset_step_def reset_block_def write_file_longlong_atomic_def amt_def
        WRITE_TO_FILE_def Let_def split_beta)
  have amt: "amt = t_now tk - press_start ?lg + 1" by (simp add: amt_def rs_def)
  have "contents (snd ?W) ?n = Some (take 127 (dec_int amt))"
  proof (cases "reset_amt st = amt")
    case True
    have "amt \<noteq> 0" "amt \<noteq> - 42"
      using press_start_le [of ?lg "t_now tk"] assms(2,4) False amt
      by (auto simp: pressed_def times_ok_def)
    then have "contents (files st) ?n = Some (take 127 (dec_int amt))"
      using assms(1) True by (auto simp: press_ok_def Let_def press_report_def split: if_splits)
    then show ?thesis using True by (simp add: WRITE_TO_FILE_def)
  next
    case False
    then show ?thesis using WRITE_contents [of "files st" ?n] reset_file_disk [OF assms(3)] by simp
  qed
  then show ?thesis
    using False amt unfolding st' by (simp add: press_ok_def press_report_def pressed_def rs_def)
qed

section \<open>The invariant of the main loop\<close>

definition mb_inv :: "int \<Rightarrow> 'h mailbox \<Rightarrow> bool" where
  "mb_inv t st \<longleftrightarrow>
     leds_wf (led st) \<and> 1 \<le> led_sequence_len (led st) \<and> 0 \<le> offset st \<and>
     offset st < int (led_total_time (led st)) \<and> 0 \<le> inner_loop_ticks st \<and> inner_loop_ticks st \<le> 125 \<and>
     0 \<le> slept st \<and> slept st \<le> 62500 \<and>
     disk_ok (files st) \<and> press_ok st \<and> times_ok t st \<and>
     (readyval st = - 42 \<and> button_log st = [] \<or>
      readyval st = 1 \<and> contents (files st) (lit ''ready'') = Some (dec_int 1))"

definition fan_cmds :: "(PinId \<times> int) list \<Rightarrow> int list" where
  "fan_cmds lg = map snd (filter (\<lambda>p. fst p = PIN_FAN_CHASSIS) lg)"

lemma fan_cmds_append [simp]: "fan_cmds (a @ b) = fan_cmds a @ fan_cmds b"
  by (simp add: fan_cmds_def)

lemma fan_cmds_leds: "led_settings lg b \<Longrightarrow> fan_cmds lg = []"
  by (auto simp: fan_cmds_def led_settings_def is_led_def filter_empty_conv)

lemma reset_block_frame:
  assumes "disk_ok (files st)"
  shows "\<exists>rs ra fs. reset_block tk v st = st\<lparr>reset_start := rs, reset_amt := ra, files := fs\<rparr> \<and>
    same_disk (files st) fs \<and> contents fs (lit ''ready'') = contents (files st) (lit ''ready'')"
proof (cases "v = 0")
  case True
  let ?fs = "if reset_amt st \<noteq> 0 then snd (fs_unlink (lit ''reset_button_msecs'') (files st)) else files st"
  have "reset_block tk v st = st\<lparr>reset_start := 0, reset_amt := 0, files := ?fs\<rparr>"
    using True by (simp add: reset_block_def)
  moreover have "same_disk (files st) ?fs" by (simp add: frame_simps)
  moreover have "contents ?fs (lit ''ready'') = contents (files st) (lit ''ready'')"
    by (auto simp: fs_unlink_def split: option.split)
  ultimately show ?thesis by blast
next
  case False
  define rs where "rs = (if reset_start st = 0 then t_now tk - 1 else reset_start st)"
  define W where "W = WRITE_TO_FILE (lit ''reset_button_msecs'') (Some (reset_amt st)) (t_now tk - rs) True dec_int (files st)"
  have "reset_block tk v st = st\<lparr>reset_start := rs, reset_amt := the (fst W), files := snd W\<rparr>"
    using False by (simp add: reset_block_def write_file_longlong_atomic_def W_def rs_def Let_def split_beta)
  moreover have "same_disk (files st) (snd W)" by (simp add: W_def frame_simps)
  moreover have "contents (snd W) (lit ''ready'') = contents (files st) (lit ''ready'')"
    unfolding W_def by (rule WRITE_contents_other) (auto simp: tmp_lit)
  ultimately show ?thesis by blast
qed

lemma ready_block_frame:
  assumes "disk_ok (files st)"
    and "readyval st \<noteq> 1 \<or> contents (files st) (lit ''ready'') = Some (dec_int 1)"
  shows "\<exists>fs. ready_block st = st\<lparr>readyval := 1, files := fs\<rparr> \<and> same_disk (files st) fs \<and>
    contents fs (lit ''ready'') = Some (dec_int 1) \<and>
    contents fs (lit ''reset_button_msecs'') = contents (files st) (lit ''reset_button_msecs'')"
proof -
  define W where "W = WRITE_TO_FILE (lit ''ready'') (Some (readyval st)) 1 True dec_int (files st)"
  have "ready_block st = st\<lparr>readyval := 1, files := snd W\<rparr>"
    by (auto simp: ready_block_def write_file_longlong_atomic_def W_def WRITE_TO_FILE_def Let_def split_beta)
  moreover have "same_disk (files st) (snd W)" by (simp add: W_def frame_simps)
  moreover have "contents (snd W) (lit ''reset_button_msecs'') = contents (files st) (lit ''reset_button_msecs'')"
    unfolding W_def by (rule WRITE_contents_other) (auto simp: tmp_lit)
  moreover have "contents (snd W) (lit ''ready'') = Some (dec_int 1)"
  proof (cases "readyval st = 1")
    case True
    then show ?thesis using assms(2) by (simp add: W_def WRITE_TO_FILE_def)
  next
    case False
    have d: "can_open (files st) (tmp_name (lit ''ready''))" "127 \<le> room (files st) (tmp_name (lit ''ready''))"
      using assms(1) by (auto simp: disk_ok_def pub_ints_def)
    have "take 127 (dec_int 1) = dec_int 1" using length_dec_int_bound [of 1 1] by simp
    then show ?thesis using False WRITE_contents [OF d, of "Some (readyval st)" 1 dec_int] by (simp add: W_def)
  qed
  ultimately show ?thesis by blast
qed

lemma sleep_block_frame:
  assumes "0 < led_total_time (led st)" "0 \<le> inner_loop_ticks st" "inner_loop_ticks st \<le> 125"
    "0 \<le> slept st" "slept st \<le> 62500"
  shows "\<exists>c h sp v. sleep_block ops tk st = st\<lparr>fan_loop_count := c, hw := h, fan_detected_speed := v, slept := sp\<rparr> \<and>
    0 \<le> sp \<and> sp \<le> 62500"
proof -
  obtain s x h where p: "PinValue ops (hw st) PIN_FAN_CHASSIS = (s, x, h)" by (metis prod_cases3)
  define b where "b = (int (led_total_time (led st)) - c_rem (t_now tk - offset st) (int (led_total_time (led st)))) * 1000"
  define d where "d = USEC_PER_TICK * inner_loop_ticks st"
  define c where "c = c_rem (fan_loop_count st + 1) 16"
  have b: "0 \<le> b" using c_rem_above [of "int (led_total_time (led st))" "t_now tk - offset st"] assms(1)
    by (simp add: b_def)
  have d: "0 \<le> d" "d \<le> 62500" using assms(2,3) by (simp_all add: d_def USEC_PER_TICK_def POLL_HZ_def)
  consider "\<not> has_fan st" | "has_fan st" "c = 0" | "has_fan st" "c \<noteq> 0" by blast
  then show ?thesis
  proof cases
    case 1
    then have "sleep_block ops tk st = st\<lparr>fan_loop_count := fan_loop_count st, hw := hw st,
        fan_detected_speed := fan_detected_speed st, slept := d\<rparr>" by (simp add: sleep_block_def d_def)
    then show ?thesis using d by blast
  next
    case 2
    then have "sleep_block ops tk st = st\<lparr>fan_loop_count := c, hw := h, fan_detected_speed := x, slept := slept st\<rparr>"
      by (simp add: sleep_block_def c_def p)
    then show ?thesis using assms(4,5) by blast
  next
    case 3
    then have "sleep_block ops tk st = st\<lparr>fan_loop_count := c, hw := hw st,
        fan_detected_speed := fan_detected_speed st, slept := min d b\<rparr>"
      by (simp add: sleep_block_def c_def d_def b_def Let_def min_def)
    then show ?thesis using d b by (metis min.coboundedI1 min.boundedI)
  qed
qed

text \<open>The first half of a round: the files of other programs, the pattern and the LEDs.\<close>

lemma led_half:
  assumes "mb_inv t st" "tick_ok tk"
  shows "\<exists>s2. (do { s1 \<leftarrow> led_block tk (st\<lparr>files := fold env_change (t_env tk) (files st)\<rparr>);
      led_sequence_update ops (c_rem (t_now tk + int (led_total_time (led s1)) - offset s1) (int (led_total_time (led s1)))) s1 }) = Some s2 \<and>
    leds_wf (led s2) \<and> 1 \<le> led_sequence_len (led s2) \<and> 0 \<le> offset s2 \<and> offset s2 < int (led_total_time (led s2)) \<and>
    0 \<le> inner_loop_ticks s2 \<and> inner_loop_ticks s2 \<le> 125 \<and> slept s2 = slept st \<and>
    quiet (files st) (files s2) \<and> contents (files s2) (lit ''fanpercent'') = contents (fold env_change (t_env tk) (files st)) (lit ''fanpercent'') \<and>
    fan_cmds (pin_log s2) = fan_cmds (pin_log st) \<and> has_fan s2 = has_fan st \<and> last_time s2 = last_time st \<and> cpu_temp s2 = cpu_temp st \<and>
    reset_start s2 = reset_start st \<and> reset_amt s2 = reset_amt st \<and> button_log s2 = button_log st \<and> readyval s2 = readyval st"
proof -
  define f0 where "f0 = fold env_change (t_env tk) (files st)"
  define s0 where "s0 = st\<lparr>files := f0\<rparr>"
  have q0: "quiet (files st) f0" unfolding f0_def using assms(2) by (intro quiet_env) (simp add: tick_ok_def)
  then have d0: "disk_ok f0" using assms(1) disk_ok_same [of "files st" f0] by (simp add: quiet_def mb_inv_def)
  obtain l it mp ll off f1 where 1: "led_block tk s0 = Some (s0\<lparr>led := l, inner_loop_ticks := it, msec_per_led := mp,
      last_led := ll, offset := off, files := f1\<rparr>)" and l: "leds_wf l" "1 \<le> led_sequence_len l" "0 \<le> off"
    "off < int (led_total_time l)" "0 \<le> it" "it \<le> 125"
    and f1: "f1 = files s0 \<or> f1 = create_file (lit ''leds-ready'') (files s0)"
    using led_block_frame [of s0 tk] assms d0 by (force simp: s0_def mb_inv_def disk_ok_def tick_ok_def)
  define s1 where "s1 = s0\<lparr>led := l, inner_loop_ticks := it, msec_per_led := mp, last_led := ll, offset := off, files := f1\<rparr>"
  have q1: "quiet f0 f1" using f1 quiet_create by (auto simp: s0_def)
  have c1: "contents f1 (lit ''fanpercent'') = contents f0 (lit ''fanpercent'')"
    using f1 by (auto simp: s0_def create_file_def)
  let ?T = "int (led_total_time l)"
  have "0 \<le> t_now tk + ?T - off" using assms(2) l(4) by (simp add: tick_ok_def)
  moreover have "0 < ?T" using l(1) by (simp add: leds_wf_def)
  ultimately have r: "0 \<le> c_rem (t_now tk + ?T - off) ?T \<and> c_rem (t_now tk + ?T - off) ?T < ?T" by (rule c_rem_range)
  obtain h lg b where 2: "led_sequence_update ops (c_rem (t_now tk + ?T - off) ?T) s1 =
      Some (s1\<lparr>files := snd (fs_unlink (lit ''activity'') (files s1)), hw := h, pin_log := pin_log s1 @ lg\<rparr>)"
    "led_settings lg b"
    using led_update_frame [of s1 "c_rem (t_now tk + ?T - off) ?T" ops] l r by (force simp: s1_def)
  define s2 where "s2 = s1\<lparr>files := snd (fs_unlink (lit ''activity'') (files s1)), hw := h, pin_log := pin_log s1 @ lg\<rparr>"
  have q2: "quiet f1 (snd (fs_unlink (lit ''activity'') f1))" by (rule quiet_unlink_activity)
  have c2: "contents (snd (fs_unlink (lit ''activity'') f1)) (lit ''fanpercent'') = contents f1 (lit ''fanpercent'')"
    by (auto simp: fs_unlink_def split: option.split)
  have q: "quiet (files st) (snd (fs_unlink (lit ''activity'') f1))"
    by (rule quiet_trans [OF quiet_trans [OF q0 q1] q2])
  show ?thesis
    using 1 2 l q c1 c2 fan_cmds_leds [OF 2(2)] unfolding f0_def [symmetric] s0_def [symmetric]
    by (intro exI [of _ s2]) (simp add: s2_def s1_def s0_def)
qed

lemma read_button_frame:
  "\<exists>v h. read_button ops tk st = (v, st\<lparr>hw := h, button_log := button_log st @ [(t_now tk, v)]\<rparr>)"
proof -
  define r where "r = (if has_reset_button st then snd (PinValue ops (hw st) PIN_BUTTON_RESET) else (0, hw st))"
  have "read_button ops tk st = (fst r, st\<lparr>hw := snd r, button_log := button_log st @ [(t_now tk, fst r)]\<rparr>)"
    by (simp add: read_button_def r_def Let_def split_beta)
  then show ?thesis by blast
qed

lemma read_file_same:
  "same_disk a b \<Longrightarrow> contents b n = contents a n \<Longrightarrow> read_file n b = read_file n a"
  by (auto simp: read_file_def fs_read_file_def same_disk_def split: option.split)

text \<open>One round of the loop.\<close>

lemma tick_step:
  assumes inv: "mb_inv t st" and tk: "tick_ok tk" and t: "t \<le> t_now tk"
  shows "\<exists>st' v. mailbox_tick fmt2 ops tk st = Some st' \<and> mb_inv (t_now tk) st' \<and>
    button_log st' = button_log st @ [(t_now tk, v)] \<and> has_fan st' = has_fan st \<and>
    fan_cmds (pin_log st') = fan_cmds (pin_log st) @ (if fan_due tk st
      then [fan_level (the (read_file (lit ''fanpercent'') (fold env_change (t_env tk) (files st)))) (cpu_temp st)] else [])"
proof -
  obtain s2 where h2: "(do { s1 \<leftarrow> led_block tk (st\<lparr>files := fold env_change (t_env tk) (files st)\<rparr>);
      led_sequence_update ops (c_rem (t_now tk + int (led_total_time (led s1)) - offset s1) (int (led_total_time (led s1)))) s1 }) = Some s2"
    and l2: "leds_wf (led s2)" "1 \<le> led_sequence_len (led s2)" "0 \<le> offset s2" "offset s2 < int (led_total_time (led s2))"
      "0 \<le> inner_loop_ticks s2" "inner_loop_ticks s2 \<le> 125" "slept s2 = slept st"
    and q2: "quiet (files st) (files s2)"
    and c2: "contents (files s2) (lit ''fanpercent'') = contents (fold env_change (t_env tk) (files st)) (lit ''fanpercent'')"
    and g2: "fan_cmds (pin_log s2) = fan_cmds (pin_log st)" "has_fan s2 = has_fan st" "last_time s2 = last_time st" "cpu_temp s2 = cpu_temp st"
      "reset_start s2 = reset_start st" "reset_amt s2 = reset_amt st" "button_log s2 = button_log st" "readyval s2 = readyval st"
    using led_half [OF inv tk, of ops] by (elim exE conjE)
  have sw: "disk_ok (files st)" using inv by (auto simp: mb_inv_def)
  have d2: "disk_ok (files s2)" using q2 sw(1) disk_ok_same by (auto simp: quiet_def)
  have env: "same_disk (fold env_change (t_env tk) (files st)) (files s2)"
    using q2 quiet_env [of "t_env tk" "files st"] tk by (auto simp: quiet_def same_disk_def tick_ok_def)
  obtain s3 where h3: "slow_block fmt2 ops tk s2 = Some s3" and core: "same_core s2 s3"
    and q3: "quiet (files s2) (files s3)"
    and lg3: "pin_log s3 = pin_log s2 @ (if fan_due tk s2
      then [(PIN_FAN_CHASSIS, fan_level (the (read_file (lit ''fanpercent'') (files s2))) (cpu_temp s2))] else [])"
    using slow_block_frame [OF d2, of fmt2 ops tk] by blast
  have q: "quiet (files st) (files s3)" using q2 q3 by (rule quiet_trans)
  have sw3: "disk_ok (files s3)"
    using q sw disk_ok_same by (auto simp: quiet_def)
  obtain v h where h4: "read_button ops tk s3 = (v, s3\<lparr>hw := h, button_log := button_log s3 @ [(t_now tk, v)]\<rparr>)"
    using read_button_frame [of ops tk s3] by (elim exE)
  define pt where "pt = (if t_now tk - last_print_time s3 \<ge> 6000 then t_now tk else last_print_time s3)"
  define x where "x = s3\<lparr>hw := h, last_print_time := pt\<rparr>"
  define s5 where "s5 = s3\<lparr>hw := h, button_log := button_log s3 @ [(t_now tk, v)], last_print_time := pt\<rparr>"
  have x5: "x\<lparr>button_log := button_log x @ [(t_now tk, v)]\<rparr> = s5"
    unfolding x_def s5_def by (rule mailbox.equality) simp_all
  have press: "press_ok (reset_block tk v s5)"
  proof -
    have e: "button_log x = button_log st" "reset_start x = reset_start st" "reset_amt x = reset_amt st"
      "contents (files x) (lit ''reset_button_msecs'') = contents (files st) (lit ''reset_button_msecs'')"
      using core g2 q by (simp_all add: same_core_def quiet_def x_def)
    have "press_ok st" "times_ok t st" using inv by (simp_all add: mb_inv_def)
    then have "press_ok x" "times_ok (t_now tk) x"
      using t unfolding press_ok_def times_ok_def e by (simp, force)
    then have "press_ok (reset_step tk v x)"
      using sw3 tk by (intro reset_step_press) (simp_all add: x_def tick_ok_def)
    then show ?thesis by (simp only: reset_step_def x5)
  qed
  obtain rs ra f6 where h6: "reset_block tk v s5 = s5\<lparr>reset_start := rs, reset_amt := ra, files := f6\<rparr>"
    and d6: "same_disk (files s5) f6" "contents f6 (lit ''ready'') = contents (files s5) (lit ''ready'')"
    using reset_block_frame [of s5 tk v] sw3 by (auto simp: s5_def)
  define s6 where "s6 = s5\<lparr>reset_start := rs, reset_amt := ra, files := f6\<rparr>"
  have rdy: "readyval s6 \<noteq> 1 \<or> contents (files s6) (lit ''ready'') = Some (dec_int 1)"
    using inv core g2 q d6(2) by (auto simp: s6_def s5_def mb_inv_def same_core_def quiet_def)
  have dk6: "disk_ok (files s6)" using sw3 d6(1) disk_ok_same [of "files s5" f6] by (simp add: s6_def s5_def)
  obtain f7 where h7: "ready_block s6 = s6\<lparr>readyval := 1, files := f7\<rparr>"
    and d7: "same_disk (files s6) f7" "contents f7 (lit ''ready'') = Some (dec_int 1)"
      "contents f7 (lit ''reset_button_msecs'') = contents (files s6) (lit ''reset_button_msecs'')"
    using ready_block_frame [OF dk6 rdy] by blast
  define s7 where "s7 = s6\<lparr>readyval := 1, files := f7\<rparr>"
  have l7: "led s7 = led s2" "offset s7 = offset s2" "inner_loop_ticks s7 = inner_loop_ticks s2" "slept s7 = slept st"
    "has_fan s7 = has_fan st" "button_log s7 = button_log st @ [(t_now tk, v)]" "pin_log s7 = pin_log s3"
    using core g2 l2(7) by (auto simp: s7_def s6_def s5_def same_core_def)
  obtain c h8 sp u where h8: "sleep_block ops tk s7 = s7\<lparr>fan_loop_count := c, hw := h8, fan_detected_speed := u, slept := sp\<rparr>"
    and sp: "0 \<le> sp" "sp \<le> 62500"
    using sleep_block_frame [of s7 ops tk] l2 l7 inv by (auto simp: leds_wf_def mb_inv_def)
  define s8 where "s8 = s7\<lparr>fan_loop_count := c, hw := h8, fan_detected_speed := u, slept := sp\<rparr>"
  have tick: "mailbox_tick fmt2 ops tk st = Some s8"
  proof -
    have p5: "(let st = s3\<lparr>hw := h, button_log := button_log s3 @ [(t_now tk, v)]\<rparr>
        in if t_now tk - last_print_time st \<ge> 6000 then st\<lparr>last_print_time := t_now tk\<rparr> else st) = s5"
      by (auto simp: s5_def pt_def)
    obtain s1 where 1: "led_block tk (st\<lparr>files := fold env_change (t_env tk) (files st)\<rparr>) = Some s1"
      "led_sequence_update ops (c_rem (t_now tk + int (led_total_time (led s1)) - offset s1) (int (led_total_time (led s1)))) s1 = Some s2"
      using h2 by (auto split: bind_splits)
    show ?thesis
      using 1 h3 h4 p5 h6 h7 h8
      by (simp add: mailbox_tick_def Let_def s6_def [symmetric] s7_def [symmetric] s8_def [symmetric])
  qed
  have p8: "press_ok s8"
    using press unfolding h6 s6_def [symmetric] using d7(3) by (simp add: press_ok_def s8_def s7_def Let_def)
  have t8: "times_ok (t_now tk) s8"
    using inv t tk l7(6) by (auto simp: mb_inv_def times_ok_def s8_def sorted_append tick_ok_def)
  have dk8: "disk_ok (files s8)" using dk6 d7(1) disk_ok_same [of "files s6" f7] by (simp add: s8_def s7_def)
  have "mb_inv (t_now tk) s8"
    using l2 l7 sp p8 t8 dk8 d7 by (simp add: mb_inv_def s8_def) (simp add: s7_def)
  moreover have "button_log s8 = button_log st @ [(t_now tk, v)]" "has_fan s8 = has_fan st"
    using l7 by (simp_all add: s8_def)
  moreover have "fan_cmds (pin_log s8) = fan_cmds (pin_log st) @ (if fan_due tk st
      then [fan_level (the (read_file (lit ''fanpercent'') (fold env_change (t_env tk) (files st)))) (cpu_temp st)] else [])"
    using lg3 l7(7) g2 read_file_same [OF env c2] by (simp add: s8_def fan_due_def fan_cmds_def)
  ultimately show ?thesis using tick by blast
qed

section \<open>Runs\<close>

lemma quiet_WRITE_other:
  assumes "n \<notin> set (pub_ints @ pub_doubles)" "tmp_name n \<notin> set (pub_ints @ pub_doubles)"
  shows "quiet fs (snd (WRITE_TO_FILE n ov v True fmt fs))"
proof -
  have "lit ''ready'' \<noteq> n" "lit ''ready'' \<noteq> tmp_name n" "lit ''reset_button_msecs'' \<noteq> n"
    "lit ''reset_button_msecs'' \<noteq> tmp_name n" using assms by (auto simp: pub_ints_def)
  then show ?thesis by (simp add: quiet_def frame_simps WRITE_contents_other)
qed

text \<open>What a run starts from: files that can be read and written, and a clock that is not negative.\<close>

definition start_ok :: "tick \<Rightarrow> fsys \<Rightarrow> bool" where
  "start_ok t0 fs \<longleftrightarrow> disk_ok fs \<and> can_read fs (lit ''/proc/cpuinfo'') \<and> 0 \<le> t_mono t0"

definition ticks_ok :: "tick list \<Rightarrow> bool" where
  "ticks_ok tks \<longleftrightarrow> list_all tick_ok tks \<and> sorted (map t_now tks)"

lemma leds_start_wf: "leds_wf leds_start" "led_sequence_len leds_start = 1" "led_total_time leds_start = 1000"
  by (simp_all add: leds_wf_def leds_start_def)

lemma start_inv:
  assumes "start_ok t0 fs"
  shows "\<exists>st. mailbox_start ops pid t0 h fs = Some st \<and> mb_inv 1 st \<and> button_log st = [] \<and> pin_log st = [] \<and>
    has_fan st = (PinIsPresent ops h PIN_FAN_CHASSIS \<noteq> 0)"
proof -
  obtain info where i: "read_file (lit ''/proc/cpuinfo'') fs = Some info"
    using assms can_read_read_file [of fs "lit ''/proc/cpuinfo''"] by (auto simp: start_ok_def)
  let ?f = "snd (WRITE_TO_FILE (lit ''/var/run/gpio-mailbox'') None pid True dec_int fs)"
  have q: "quiet fs ?f" by (rule quiet_WRITE_other) (auto simp: pub_ints_def pub_doubles_def tmp_lit)
  then have f: "disk_ok ?f"
    using assms disk_ok_same by (auto simp: quiet_def start_ok_def)
  have o: "0 \<le> msec_offset (t_mono t0) (t_real t0) (led_total_time leds_start) \<and>
      msec_offset (t_mono t0) (t_real t0) (led_total_time leds_start) < int (led_total_time leds_start)"
    using assms leds_start_wf by (intro msec_offset_range) (auto simp: start_ok_def)
  show ?thesis
    using i f o leds_start_wf
    by (simp add: mailbox_start_def write_file_longlong_atomic_def mb_inv_def press_ok_def times_ok_def)
qed

lemma loop_inv:
  "mb_inv t st \<Longrightarrow> list_all tick_ok tks \<Longrightarrow> sorted (t # map t_now tks) \<Longrightarrow>
     \<exists>st'. mailbox_loop fmt2 ops tks st = Some st' \<and> mb_inv (last (t # map t_now tks)) st' \<and>
       map fst (button_log st') = map fst (button_log st) @ map t_now tks \<and> has_fan st' = has_fan st \<and>
       (\<exists>cs. fan_cmds (pin_log st') = fan_cmds (pin_log st) @ cs \<and> (\<forall>v \<in> set cs. 0 \<le> v \<and> v \<le> 100))"
proof (induction tks arbitrary: t st)
  case (Cons tk tks)
  have tk: "tick_ok tk" "t \<le> t_now tk" and tks: "list_all tick_ok tks" "sorted (t_now tk # map t_now tks)"
    using Cons.prems by auto
  obtain s1 v where 1: "mailbox_tick fmt2 ops tk st = Some s1" "mb_inv (t_now tk) s1"
    "button_log s1 = button_log st @ [(t_now tk, v)]" "has_fan s1 = has_fan st"
    "fan_cmds (pin_log s1) = fan_cmds (pin_log st) @ (if fan_due tk st
      then [fan_level (the (read_file (lit ''fanpercent'') (fold env_change (t_env tk) (files st)))) (cpu_temp st)] else [])"
    using tick_step [OF Cons.prems(1) tk, of fmt2 ops] by (elim exE conjE)
  obtain st' cs where 2: "mailbox_loop fmt2 ops tks s1 = Some st'" "mb_inv (last (t_now tk # map t_now tks)) st'"
    "map fst (button_log st') = map fst (button_log s1) @ map t_now tks" "has_fan st' = has_fan s1"
    "fan_cmds (pin_log st') = fan_cmds (pin_log s1) @ cs" "\<forall>v \<in> set cs. 0 \<le> v \<and> v \<le> 100"
    using Cons.IH [OF 1(2) tks] by (elim exE conjE)
  define c1 where "c1 = (if fan_due tk st
      then [fan_level (the (read_file (lit ''fanpercent'') (fold env_change (t_env tk) (files st)))) (cpu_temp st)] else [])"
  have "\<forall>v \<in> set (c1 @ cs). 0 \<le> v \<and> v \<le> 100" using 2(6) fan_level_range by (auto simp: c1_def)
  moreover have "fan_cmds (pin_log st') = fan_cmds (pin_log st) @ (c1 @ cs)" using 1(5) 2(5) by (simp add: c1_def)
  moreover have "mailbox_loop fmt2 ops (tk # tks) st = Some st'" using 1(1) 2(1) by simp
  moreover have "map fst (button_log st') = map fst (button_log st) @ map t_now (tk # tks)" using 1(3) 2(3) by simp
  ultimately show ?case using 1(4) 2(2,4) by auto
qed auto

lemma run_inv:
  assumes "start_ok t0 fs" "ticks_ok tks"
  shows "\<exists>s0 st. mailbox_start ops pid t0 h fs = Some s0 \<and> mailbox_loop fmt2 ops tks s0 = Some st \<and>
    mb_inv (last (1 # map t_now tks)) st \<and> map fst (button_log st) = map t_now tks \<and>
    has_fan st = (PinIsPresent ops h PIN_FAN_CHASSIS \<noteq> 0) \<and>
    (\<forall>v \<in> set (fan_cmds (pin_log st)). 0 \<le> v \<and> v \<le> 100)"
proof -
  obtain s0 where 0: "mailbox_start ops pid t0 h fs = Some s0" "mb_inv 1 s0" "button_log s0 = []" "pin_log s0 = []"
    "has_fan s0 = (PinIsPresent ops h PIN_FAN_CHASSIS \<noteq> 0)"
    using start_inv [OF assms(1), of ops pid h] by (elim exE conjE)
  have "sorted (1 # map t_now tks)"
    using assms(2) by (auto simp: ticks_ok_def list_all_iff tick_ok_def)
  then show ?thesis
    using loop_inv [OF 0(2) _ \<open>sorted (1 # map t_now tks)\<close>, of fmt2 ops] assms(2) unfolding ticks_ok_def
    by (elim conjE) (drule meta_mp, assumption, elim exE conjE, intro exI conjI,
      rule 0(1), assumption, assumption, simp add: 0, simp add: 0, simp add: 0 fan_cmds_def)
qed

section \<open>The LEDs of a board\<close>

definition led_mask :: "PinId \<Rightarrow> int" where
  "led_mask i = (case i of PIN_LED_RED \<Rightarrow> 1 | PIN_LED_BLUE \<Rightarrow> 2 | PIN_LED_ACTIVITY \<Rightarrow> 4 | PIN_LED_STANDBY \<Rightarrow> 8 | _ \<Rightarrow> 0)"

lemma hw_pin_set_present [simp]: "hw (pin_set_present ops i v st) = set_present ops i v (hw st)"
  by (simp add: pin_set_present_def pin_set_def set_present_def)

context pin_driver
begin

lemma set_leds_shown:
  assumes "ready (hw st)" "contents (files st) (lit ''disable'') = None" "0 \<le> b" "b \<le> 100"
    and "is_led i" "PinIsPresent ops (hw st) i \<noteq> 0"
  shows "led_on (hw (set_leds_from_bitfields ops f b st)) i \<longleftrightarrow>
    led_fields (is_limited_leds st) (platform_b0 st) f AND led_mask i \<noteq> 0 \<and> b \<noteq> 0"
    and "ready (hw (set_leds_from_bitfields ops f b st))"
    and "PinIsPresent ops (hw (set_leds_from_bitfields ops f b st)) i = PinIsPresent ops (hw st) i"
proof -
  let ?f = "led_fields (is_limited_leds st) (platform_b0 st) f"
  let ?v = "\<lambda>m. if ?f AND m \<noteq> 0 then b else 0"
  define h1 where "h1 = set_present ops PIN_LED_RED (?v 1) (hw st)"
  define h2 where "h2 = set_present ops PIN_LED_BLUE (?v 2) h1"
  define h3 where "h3 = set_present ops PIN_LED_ACTIVITY (?v 4) h2"
  define h4 where "h4 = set_present ops PIN_LED_STANDBY (?v 8) h3"
  have e: "hw (set_leds_from_bitfields ops f b st) = h4"
    using assms(2) by (simp add: set_leds_from_bitfields_def h4_def h3_def h2_def h1_def Let_def)
  have r: "ready h1" "ready h2" "ready h3" "ready h4"
    using assms(1) by (simp_all add: h4_def h3_def h2_def h1_def ready_set_present)
  have p: "PinIsPresent ops h1 i = PinIsPresent ops (hw st) i" "PinIsPresent ops h2 i = PinIsPresent ops (hw st) i"
    "PinIsPresent ops h3 i = PinIsPresent ops (hw st) i" "PinIsPresent ops h4 i = PinIsPresent ops (hw st) i"
    by (simp_all add: h4_def h3_def h2_def h1_def)
  have v: "0 \<le> ?v m" "?v m \<le> 100" for m using assms(3,4) by auto
  have l: "is_led PIN_LED_RED" "is_led PIN_LED_BLUE" "is_led PIN_LED_ACTIVITY" "is_led PIN_LED_STANDBY"
    by (simp_all add: is_led_def)
  have "led_on h1 i = (if i = PIN_LED_RED then ?v 1 \<noteq> 0 else led_on (hw st) i)"
    unfolding h1_def using led_set_present [OF assms(1) l(1) v assms(5,6), of 1] by auto
  moreover have "led_on h2 i = (if i = PIN_LED_BLUE then ?v 2 \<noteq> 0 else led_on h1 i)"
    unfolding h2_def using led_set_present [OF r(1) l(2) v assms(5), of 2] assms(6) p by auto
  moreover have "led_on h3 i = (if i = PIN_LED_ACTIVITY then ?v 4 \<noteq> 0 else led_on h2 i)"
    unfolding h3_def using led_set_present [OF r(2) l(3) v assms(5), of 4] assms(6) p by auto
  moreover have "led_on h4 i = (if i = PIN_LED_STANDBY then ?v 8 \<noteq> 0 else led_on h3 i)"
    unfolding h4_def using led_set_present [OF r(3) l(4) v assms(5), of 8] assms(6) p by auto
  ultimately show "led_on (hw (set_leds_from_bitfields ops f b st)) i \<longleftrightarrow> ?f AND led_mask i \<noteq> 0 \<and> b \<noteq> 0"
    using assms(5) unfolding e by (auto simp: is_led_def led_mask_def)
  show "ready (hw (set_leds_from_bitfields ops f b st))" using r by (simp add: e)
  show "PinIsPresent ops (hw (set_leds_from_bitfields ops f b st)) i = PinIsPresent ops (hw st) i"
    using p by (simp add: e)
qed

lemma shutdown_shown:
  assumes "ready (hw st)" "contents (files st) (lit ''disable'') = None" "1 \<le> b" "b \<le> 100"
    and "is_led i" "PinIsPresent ops (hw st) i \<noteq> 0" "is_limited_leds st \<or> \<not> platform_b0 st"
  shows "led_on (hw (mailbox_shutdown ops b st)) i \<longleftrightarrow> i = PIN_LED_RED"
proof -
  define s1 where "s1 = set_leds_from_bitfields ops 1 b st"
  have f: "led_fields (is_limited_leds st) (platform_b0 st) 1 = 1" using assms(7) by (auto simp: led_fields_def)
  have "led_on (hw s1) i \<longleftrightarrow> i = PIN_LED_RED"
    using set_leds_shown(1) [OF assms(1,2) _ assms(4-6), of 1] assms(3,5)
    by (auto simp: s1_def f led_mask_def is_led_def)
  moreover have "ready (hw s1)" using set_leds_shown(2) [OF assms(1,2) _ assms(4-6), of 1] assms(3) by (simp add: s1_def)
  moreover have "PIN_FAN_CHASSIS \<noteq> i" using assms(5) by (auto simp: is_led_def)
  ultimately show ?thesis
    unfolding mailbox_shutdown_def s1_def [symmetric] Let_def by (simp add: pin_set_def led_other)
qed

end

section \<open>Properties\<close>

text \<open>For the concrete instances: an empty disk without limits, and a board on which all is well.\<close>

definition empty_disk :: fsys where
  "empty_disk = \<lparr>contents = (\<lambda>_. None), can_open = (\<lambda>_. True), can_read = (\<lambda>_. True), room = (\<lambda>_. 1000), trail = []\<rparr>"

definition all_pins :: "unit pin_ops" where
  "all_pins = \<lparr>PinIsPresent = (\<lambda>_ _. 1), PinValue = (\<lambda>h _. (0, 1, h)), PinSetValue = (\<lambda>h _ _. (0, h))\<rparr>"

definition at_ms :: "int \<Rightarrow> tick" where
  "at_ms t = \<lparr>t_now = t, t_mono = t, t_real = t, t_env = []\<rparr>"

lemma at_ms_simps [simp]: "t_now (at_ms t) = t" "t_env (at_ms t) = []"
  by (simp_all add: at_ms_def)

lemma empty_disk_ok: "start_ok (at_ms 5000) empty_disk"
  by (simp add: start_ok_def disk_ok_def empty_disk_def at_ms_def)

lemma at_ms_ok: "ticks_ok [at_ms 5000, at_ms 5060]" "ticks_ok [at_ms 5000]"
  by (simp_all add: ticks_ok_def tick_ok_def at_ms_def)

text \<open>
  Claim C13. The main loop never leaves an array, whatever the board's driver returns and whatever
  other programs write into the input files: any number of rounds and the shutdown complete, and
  the loop never sleeps for more than 62.5 milliseconds. The input files (\<open>leds\<close>, \<open>fanpercent\<close>,
  \<open>/proc/cpuinfo\<close>) are missing or can be read, since a read that fails makes \<open>read_file\<close> write
  \<open>buf[-1]\<close>; the temporary files can be created and have room for 127 bytes; monotonic time is
  not negative and the time of the rounds does not run backwards. What the real-time clock says does not matter.
\<close>

theorem mailbox_never_faults:
  assumes "start_ok t0 fs" "ticks_ok tks"
  shows "\<exists>st. run_gpio_mailbox fmt2 ops b pid t0 tks h fs = Some st \<and> 0 \<le> slept st \<and> slept st \<le> 62500"
proof -
  obtain s0 st where 1: "mailbox_start ops pid t0 h fs = Some s0" "mailbox_loop fmt2 ops tks s0 = Some st"
    "mb_inv (last (1 # map t_now tks)) st"
    using run_inv [OF assms, of ops pid h fmt2] by (elim exE conjE)
  have "slept (mailbox_shutdown ops b st) = slept st"
    using set_leds_frame [of ops 1 b st] by (auto simp: mailbox_shutdown_def pin_set_def Let_def)
  then show ?thesis using 1 by (simp add: run_gpio_mailbox_def mb_inv_def)
qed

theorem mailbox_never_faults_witness:
  "\<exists>st. run_gpio_mailbox dec_int all_pins 1 77 (at_ms 5000) [at_ms 5000, at_ms 5060] () empty_disk = Some st \<and> slept st \<le> 62500"
  using mailbox_never_faults [OF empty_disk_ok at_ms_ok(1), of dec_int all_pins 1 77 "()"] by blast

text \<open>
  Claim C12. The fan obeys its rule. After any number of rounds, the next round tells the fan
  exactly what the rule says, or nothing if two seconds have not passed. The request is what
  \<open>strtol\<close> reads in \<open>fanpercent\<close>, cut to an \<open>int\<close>: a text without a number is the request 0, and a
  number beyond 32 bits wraps around. A request from 0 to 100 is passed on while the CPU is below
  100 degrees; a missing or empty file, a request outside 0 to 100 and a hot CPU give 100. Every
  value ever sent to the fan lies between 0 and 100, and the shutdown leaves the fan at 100. The
  conditions on files and clocks are those of the main loop's safety.
\<close>

theorem fan_follows_rule:
  assumes "start_ok t0 fs" "ticks_ok (tks @ [tk])"
  shows "\<exists>s0 st st'. mailbox_start ops pid t0 h fs = Some s0 \<and> mailbox_loop fmt2 ops tks s0 = Some st \<and>
    mailbox_tick fmt2 ops tk st = Some st' \<and>
    fan_cmds (pin_log st') = fan_cmds (pin_log st) @ (if fan_due tk st
      then [fan_level (the (read_file (lit ''fanpercent'') (fold env_change (t_env tk) (files st)))) (cpu_temp st)] else []) \<and>
    (\<forall>v \<in> set (fan_cmds (pin_log st')). 0 \<le> v \<and> v \<le> 100) \<and>
    (fan_due tk st \<and> HIGH_TEMP_OVERRIDE \<le> cpu_temp st \<longrightarrow> last (fan_cmds (pin_log st')) = 100) \<and>
    (has_fan st' \<longrightarrow> last (fan_cmds (pin_log (mailbox_shutdown ops b st'))) = 100)"
proof -
  have tks: "ticks_ok tks" and tk: "tick_ok tk" and le: "last (1 # map t_now tks) \<le> t_now tk"
    using assms(2) by (auto simp: ticks_ok_def sorted_append tick_ok_def last_map)
  obtain s0 st where 1: "mailbox_start ops pid t0 h fs = Some s0" "mailbox_loop fmt2 ops tks s0 = Some st"
    and inv: "mb_inv (last (1 # map t_now tks)) st" and c: "\<forall>v \<in> set (fan_cmds (pin_log st)). 0 \<le> v \<and> v \<le> 100"
    using run_inv [OF assms(1) tks, of ops pid h fmt2] by (elim exE conjE)
  obtain st' v where 2: "mailbox_tick fmt2 ops tk st = Some st'" "has_fan st' = has_fan st"
    and f: "fan_cmds (pin_log st') = fan_cmds (pin_log st) @ (if fan_due tk st
      then [fan_level (the (read_file (lit ''fanpercent'') (fold env_change (t_env tk) (files st)))) (cpu_temp st)] else [])"
    using tick_step [OF inv tk le, of fmt2 ops] by (elim exE conjE)
  have "\<forall>v \<in> set (fan_cmds (pin_log st')). 0 \<le> v \<and> v \<le> 100" using c f fan_level_range by (auto split: if_splits)
  moreover have "fan_due tk st \<and> HIGH_TEMP_OVERRIDE \<le> cpu_temp st \<longrightarrow> last (fan_cmds (pin_log st')) = 100"
    using f by (simp add: fan_level_def)
  moreover have "has_fan st' \<longrightarrow> last (fan_cmds (pin_log (mailbox_shutdown ops b st'))) = 100"
    using set_leds_frame [of ops 1 b st'] by (auto simp: mailbox_shutdown_def pin_set_def Let_def fan_cmds_def)
  ultimately show ?thesis using 1 2 f by blast
qed

theorem fan_follows_rule_witness:
  "\<exists>s0 st. mailbox_start all_pins 77 (at_ms 5000) () empty_disk = Some s0 \<and>
    mailbox_tick dec_int all_pins (at_ms 5000) s0 = Some st \<and> fan_cmds (pin_log st) = [100]"
proof -
  have t: "ticks_ok ([] @ [at_ms 5000])" using at_ms_ok(2) by simp
  obtain s0 s1 st where 1: "mailbox_start all_pins 77 (at_ms 5000) () empty_disk = Some s0"
    "mailbox_loop dec_int all_pins [] s0 = Some s1" "mailbox_tick dec_int all_pins (at_ms 5000) s1 = Some st"
    and f: "fan_cmds (pin_log st) = fan_cmds (pin_log s1) @ (if fan_due (at_ms 5000) s1
      then [fan_level (the (read_file (lit ''fanpercent'') (fold env_change (t_env (at_ms 5000)) (files s1)))) (cpu_temp s1)] else [])"
    using fan_follows_rule [OF empty_disk_ok t, of all_pins 77 "()" dec_int 1] by (elim exE conjE)
  have s1: "s1 = s0" using 1(2) by simp
  have "pin_log s0 = []" "fan_due (at_ms 5000) s0" "read_file (lit ''fanpercent'') (files s0) = Some []"
    using 1(1) by (auto simp: mailbox_start_def fan_due_def all_pins_def empty_disk_def read_file_def
        fs_read_file_def write_file_longlong_atomic_def WRITE_contents_other tmp_lit split: bind_splits)
  with 1 f show ?thesis unfolding s1 by (simp add: fan_cmds_def fan_level_def)
qed

text \<open>Garbage in \<open>fanpercent\<close> is not an invalid request: it stops the fan.\<close>

lemma garbage_stops_fan: "temp < HIGH_TEMP_OVERRIDE \<Longrightarrow> fan_level (lit ''auto'') temp = 0"
  by (simp add: fan_level_def strtol_with_def num_sign_def lit_def is_space_def num_base0_def hex_prefix_def digit_val_def wrap_int_def)

text \<open>
  Claim C14. The report of the reset button is right. After any number of rounds, at least one, the
  file \<open>reset_button_msecs\<close> does not exist if the button was up when last read, and otherwise
  holds the number of milliseconds since the first reading of the current press, counted from
  one; and the file \<open>ready\<close> says 1.
\<close>

theorem reset_report_correct:
  assumes "start_ok t0 fs" "ticks_ok tks" "tks \<noteq> []"
  shows "\<exists>s0 st. mailbox_start ops pid t0 h fs = Some s0 \<and> mailbox_loop fmt2 ops tks s0 = Some st \<and>
    map fst (button_log st) = map t_now tks \<and>
    contents (files st) (lit ''reset_button_msecs'') = press_report (button_log st) \<and>
    contents (files st) (lit ''ready'') = Some (lit ''1'')"
proof -
  obtain s0 st where 1: "mailbox_start ops pid t0 h fs = Some s0" "mailbox_loop fmt2 ops tks s0 = Some st"
    "mb_inv (last (1 # map t_now tks)) st" "map fst (button_log st) = map t_now tks"
    using run_inv [OF assms(1,2), of ops pid h fmt2] by (elim exE conjE)
  have ne: "button_log st \<noteq> []" using 1(4) assms(3) by auto
  have "dec_int 1 = lit ''1''" by (simp add: dec_int_def dec_nat.simps lit_def)
  then show ?thesis using 1 ne by (auto simp: mb_inv_def press_ok_def Let_def)
qed

theorem reset_report_correct_witness:
  "\<exists>s0 st. mailbox_start all_pins 77 (at_ms 5000) () empty_disk = Some s0 \<and>
    mailbox_loop dec_int all_pins [at_ms 5000, at_ms 5060] s0 = Some st \<and>
    map fst (button_log st) = [5000, 5060] \<and>
    contents (files st) (lit ''reset_button_msecs'') = press_report (button_log st)"
  using reset_report_correct [OF empty_disk_ok at_ms_ok(1), of all_pins 77 "()" dec_int] by auto

text \<open>Nobody has taken over the LEDs, and the board is not one with inverted polarity.\<close>

definition calm :: "'h mailbox \<Rightarrow> bool" where
  "calm st \<longleftrightarrow> contents (files st) (lit ''disable'') = None \<and> (is_limited_leds st \<or> \<not> platform_b0 st)"

text \<open>
  When the mailbox shuts down, the red LED of each board is lit and its other LEDs are
  dark, whatever they showed before: on the boards with device files and on the board with
  registers, whose driver writes a level only when its cached copy differs.
\<close>

lemma shutdown_shows_red:
  assumes "1 \<le> b" "b \<le> 100" "is_led i"
  shows "(\<forall>st. gfch100_ready (hw st) \<and> calm st \<and> PinIsPresent gfch100 (hw st) i \<noteq> 0 \<longrightarrow>
      gfch100_on (hw (mailbox_shutdown gfch100 b st)) i = (i = PIN_LED_RED)) \<and>
    (\<forall>st. gfrg240_ready (hw st) \<and> calm st \<and> PinIsPresent gfrg240 (hw st) i \<noteq> 0 \<longrightarrow>
      gfrg240_on (hw (mailbox_shutdown gfrg240 b st)) i = (i = PIN_LED_RED)) \<and>
    (\<forall>st. gfiber_lt_ready (hw st) \<and> calm st \<and> PinIsPresent gfiber_lt (hw st) i \<noteq> 0 \<longrightarrow>
      gfiber_lt_on (hw (mailbox_shutdown gfiber_lt b st)) i = (i = PIN_LED_RED)) \<and>
    (\<forall>st. wc_ready (hw st) \<and> calm st \<and> PinIsPresent wc_ops (hw st) i \<noteq> 0 \<longrightarrow>
      wc_on (hw (mailbox_shutdown wc_ops b st)) i = (i = PIN_LED_RED))"
  using assms ch.shutdown_shown rg.shutdown_shown lt.shutdown_shown wc.shutdown_shown
  unfolding calm_def by blast

text \<open>
  A missing pattern is to be shown as an error by the red LED, but is shown by no LED:
  with no file \<open>leds\<close> when the mailbox starts, the pattern becomes the single entry red, the
  brightness that goes with it keeps its initial value 0, and every LED is set to 0.
\<close>

lemma missing_pattern_stays_dark:
  assumes "contents (files st) (lit ''leds'') = None" "led st = leds_start" "t_now tk - last_led st \<ge> msec_per_led st"
    and "0 \<le> frac" "frac < 1000"
  shows "\<exists>s1 s2 lg. led_block tk st = Some s1 \<and> led_sequence_update ops frac s1 = Some s2 \<and>
    take (led_sequence_len (led s1)) (led_sequence_arr (led s1)) = [1] \<and>
    pin_log s2 = pin_log st @ lg \<and> (\<forall>p \<in> set lg. snd p = 0)"
proof -
  define l where "l = leds_start\<lparr>led_sequence_arr := 1 # replicate 15 0, led_sequence_len := 1\<rparr>"
  have "read_file (lit ''leds'') (files st) = Some []" using assms(1) by (simp add: read_file_def fs_read_file_def)
  moreover have "led_tokens (Some []) (leds_start\<lparr>led_sequence_len := 0, led_total_time := 1000\<rparr>)
      = Some (leds_start\<lparr>led_sequence_len := 0, led_total_time := 1000\<rparr>)"
    by (simp add: strsep_def)
  ultimately have l: "read_led_sequence_file (lit ''leds'') (files st) (led st) = Some l"
    using assms(2) by (simp add: read_led_sequence_file_def leds_start_def l_def carr_simps numeral_nat)
  have w: "leds_wf l" "led_sequence_len l = 1" "led_total_time l = 1000"
    "led_sequence_for_brightness l = replicate 16 0"
    by (simp_all add: l_def leds_wf_def leds_start_def)
  obtain s1 where s1: "led_block tk st = Some s1" "led s1 = l" "pin_log s1 = pin_log st"
    using assms(3) l w(2) by (auto simp: led_block_def)
  have r: "leds_wf (led s1)" "1 \<le> led_sequence_len (led s1)" using w s1(2) by simp_all
  obtain h lg b where u: "led_sequence_update ops frac s1 =
      Some (s1\<lparr>files := snd (fs_unlink (lit ''activity'') (files s1)), hw := h, pin_log := pin_log s1 @ lg\<rparr>)"
    and b: "led_settings lg b" "b \<in> set (take (led_sequence_len (led s1)) (led_sequence_for_brightness (led s1)))"
    using led_update_frame [OF r assms(4), of ops] assms(5) w(3) s1(2) by (auto simp del: snd_conv)
  have "b = 0" using b(2) s1(2) w by simp
  then have "\<forall>p \<in> set lg. snd p = 0" using b(1) by (auto simp: led_settings_def)
  moreover have "take (led_sequence_len l) (led_sequence_arr l) = [1]" by (simp add: l_def)
  ultimately show ?thesis using s1 u by auto
qed

end
