(* ===== verification/Tax_Signature.thy ===== *)
theory Tax_Signature
  imports Getopt
begin

text \<open>
  Signatures of Wi-Fi clients: \<open>src/taxonomy/tax_signature.c\<close>. From the probe and association
  requests of a captured exchange the program computes a text that characterises the kind of
  client: the numbers of the information elements (IEs) in order, and the values of some of them.

  The buffers of \<open>ie_to_string\<close> are blocks of their C sizes, the capture is a list of packets, each
  the block of its captured bytes; \<open>None\<close> is an access outside a block, or the printing of the
  address before any has been stored. Sizes of type \<open>size_t\<close> are natural numbers, reduced modulo
  \<open>2 ^ 64\<close> where a subtraction can go below zero. Reading the capture file is libpcap's: the packets
  it returns are the input.
\<close>

section \<open>Strings\<close>

definition strncat :: "byte list \<Rightarrow> cstr \<Rightarrow> nat \<Rightarrow> byte list option" where
  "strncat dst src n =
     (let k = length (cstr_of dst)
      in if k < length dst then arr_put dst k (take n src @ [0]) else None)"

text \<open>\<open>snprintf (buf, sizeof (buf), ...)\<close> of the text \<open>s\<close>.\<close>

definition print_buf :: "byte list \<Rightarrow> cstr \<Rightarrow> byte list option" where
  "print_buf buf s = snprintf_at buf 0 (length buf) s"

definition le16 :: "byte list \<Rightarrow> nat" where
  "le16 bs = unat (bs ! 0) + 256 * unat (bs ! 1)"

definition le32 :: "byte list \<Rightarrow> nat" where
  "le32 bs = unat (le_word (bs ! 0) (bs ! 1) (bs ! 2) (bs ! 3))"

section \<open>The model name of WPS\<close>

definition safe_char :: "byte \<Rightarrow> byte" where
  "safe_char s =
     (let is_lower = (97 \<le> s \<and> s \<le> 122);
          is_upper = (65 \<le> s \<and> s \<le> 90);
          is_dig = (48 \<le> s \<and> s \<le> 57)
      in if is_lower \<or> is_upper \<or> is_dig then s else 95)"

definition no_mischief_strncpy :: "byte list \<Rightarrow> byte list \<Rightarrow> nat \<Rightarrow> byte list option" where
  "no_mischief_strncpy dst src n = do {
     s \<leftarrow> arr_slice src 0 n;
     arr_put dst 0 (map safe_char s)
   }"

function get_wps_name :: "byte list \<Rightarrow> nat \<Rightarrow> byte list \<Rightarrow> nat \<Rightarrow> (nat \<times> byte list) option" where
  "get_wps_name nam name_len data data_len =
     (if data_len \<ge> 4 then do {
        b0 \<leftarrow> arr_get data 0;
        b1 \<leftarrow> arr_get data 1;
        let idn = 256 * unat b0 + unat b1;
        b2 \<leftarrow> arr_get data 2;
        b3 \<leftarrow> arr_get data 3;
        let elen = 256 * unat b2 + unat b3;
        let data = drop 4 data;
        (if elen > data_len - 4 then Some (0, nam)
         else if idn = 0x1023 then do {
           let n = (if elen < name_len then elen else name_len);
           nam \<leftarrow> no_mischief_strncpy nam data n;
           Some (n, nam)
         }
         else get_wps_name nam name_len (drop elen data) (data_len - 4 - elen))
      } else Some (0, nam))"
  by pat_completeness auto

termination
  by (relation "measure (\<lambda>(_, _, _, data_len). data_len)") auto

declare get_wps_name.simps [simp del]

section \<open>The signature\<close>

definition MAX_EXTCAP :: nat where "MAX_EXTCAP = 254"
definition WPS_NAME_LEN :: nat where "WPS_NAME_LEN = 32"

record tax_bufs =
  htcap :: "byte list"
  htagg :: "byte list"
  htmcs :: "byte list"
  vhtcap :: "byte list"
  vhtrxmcs :: "byte list"
  vhttxmcs :: "byte list"
  extcap :: "byte list"
  txpow :: "byte list"
  wps :: "byte list"

definition tax_start :: tax_bufs where
  "tax_start =
     \<lparr>htcap = replicate (7 + 4 + 1) 0, htagg = replicate (7 + 2 + 1) 0, htmcs = replicate (7 + 8 + 1) 0,
      vhtcap = replicate (8 + 8 + 1) 0, vhtrxmcs = replicate (10 + 8 + 1) 0, vhttxmcs = replicate (10 + 8 + 1) 0,
      extcap = replicate (8 + 2 * MAX_EXTCAP + 1) 0, txpow = replicate (7 + 4 + 1) 0,
      wps = replicate (WPS_NAME_LEN + 5 + 1) 0\<rparr>"

text \<open>Printing of two hexadecimal digits and of the decimal number of a byte.\<close>

definition hex_byte :: "byte \<Rightarrow> cstr" where
  "hex_byte b = hex_fixed 2 (unat b)"

definition dec_byte :: "byte \<Rightarrow> cstr" where
  "dec_byte b = dec_nat (unat b)"

text \<open>A vendor-specific element of at least four bytes: its tag, and the WPS model name.\<close>

definition vendor_ie :: "cstr \<Rightarrow> byte \<Rightarrow> byte list \<Rightarrow> nat \<Rightarrow> tax_bufs \<Rightarrow> (cstr \<times> tax_bufs) option" where
  "vendor_ie sep idb ie elen b = do {
     i0 \<leftarrow> arr_get ie 0;
     i1 \<leftarrow> arr_get ie 1;
     i2 \<leftarrow> arr_get ie 2;
     i3 \<leftarrow> arr_get ie 3;
     b \<leftarrow> (if i0 = 0 \<and> i1 = 0x50 \<and> i2 = 0xf2 \<and> i3 = 4 then do {
             (n, model_name) \<leftarrow> get_wps_name (replicate (WPS_NAME_LEN + 1) 0) WPS_NAME_LEN (drop 4 ie) (elen - 4);
             (if n \<noteq> 0 then do {
                w \<leftarrow> print_buf (wps b) (lit '',wps:'' @ cstr_of model_name);
                Some (b\<lparr>wps := w\<rparr>)
              } else Some b)
           } else Some b);
     tagbuf \<leftarrow> print_buf (replicate 32 0)
       (sep @ dec_byte idb @ lit ''('' @ hex_byte i0 @ hex_byte i1 @ hex_byte i2 @ lit '','' @ dec_byte i3 @ lit '')'');
     Some (cstr_of tagbuf, b)
   }"

text \<open>The loop that prints the extended capabilities, two digits for each byte, from byte \<open>i\<close> on.\<close>

fun extcap_loop :: "byte list \<Rightarrow> nat \<Rightarrow> nat \<Rightarrow> nat \<Rightarrow> byte list \<Rightarrow> byte list option" where
  "extcap_loop ie 0 i p buf = Some buf"
| "extcap_loop ie (Suc k) i p buf = do {
     let lim = length buf - length (cstr_of buf);
     b \<leftarrow> arr_get ie i;
     buf \<leftarrow> snprintf_at buf p lim (hex_byte b);
     extcap_loop ie k (i + 1) (p + 2) buf
   }"

text \<open>
  The other elements. The format \<open>%08hx\<close> of the MCS set prints its low 16 bits only, in a field of
  eight digits.
\<close>

definition ht_ie :: "byte list \<Rightarrow> nat \<Rightarrow> tax_bufs \<Rightarrow> tax_bufs option" where
  "ht_ie ie elen b = do {
     b \<leftarrow> (if elen \<ge> 2 then do {
             v \<leftarrow> arr_slice ie 0 2;
             x \<leftarrow> print_buf (htcap b) (lit '',htcap:'' @ hex_fixed 4 (le16 v));
             Some (b\<lparr>htcap := x\<rparr>)
           } else Some b);
     b \<leftarrow> (if elen \<ge> 3 then do {
             v \<leftarrow> arr_get ie 2;
             x \<leftarrow> print_buf (htagg b) (lit '',htagg:'' @ hex_byte v);
             Some (b\<lparr>htagg := x\<rparr>)
           } else Some b);
     (if elen \<ge> 7 then do {
        v \<leftarrow> arr_slice ie 3 4;
        x \<leftarrow> print_buf (htmcs b) (lit '',htmcs:'' @ hex_fixed 8 (le32 v mod 2 ^ 16));
        Some (b\<lparr>htmcs := x\<rparr>)
      } else Some b)
   }"

definition vht_ie :: "byte list \<Rightarrow> nat \<Rightarrow> tax_bufs \<Rightarrow> tax_bufs option" where
  "vht_ie ie elen b = do {
     b \<leftarrow> (if elen \<ge> 4 then do {
             v \<leftarrow> arr_slice ie 0 4;
             x \<leftarrow> print_buf (vhtcap b) (lit '',vhtcap:'' @ hex_fixed 8 (le32 v));
             Some (b\<lparr>vhtcap := x\<rparr>)
           } else Some b);
     b \<leftarrow> (if elen \<ge> 8 then do {
             v \<leftarrow> arr_slice ie 4 4;
             x \<leftarrow> print_buf (vhtrxmcs b) (lit '',vhtrxmcs:'' @ hex_fixed 8 (le32 v));
             Some (b\<lparr>vhtrxmcs := x\<rparr>)
           } else Some b);
     (if elen \<ge> 12 then do {
        v \<leftarrow> arr_slice ie 8 4;
        x \<leftarrow> print_buf (vhttxmcs b) (lit '',vhttxmcs:'' @ hex_fixed 8 (le32 v));
        Some (b\<lparr>vhttxmcs := x\<rparr>)
      } else Some b)
   }"

definition extcap_ie :: "byte list \<Rightarrow> nat \<Rightarrow> tax_bufs \<Rightarrow> tax_bufs option" where
  "extcap_ie ie elen b = do {
     let len = (if elen < MAX_EXTCAP then elen else MAX_EXTCAP);
     x \<leftarrow> print_buf (extcap b) (lit '',extcap:'');
     x \<leftarrow> extcap_loop ie len 0 (length (lit '',extcap:'')) x;
     Some (b\<lparr>extcap := x\<rparr>)
   }"

definition txpow_ie :: "byte list \<Rightarrow> nat \<Rightarrow> tax_bufs \<Rightarrow> tax_bufs option" where
  "txpow_ie ie elen b =
     (if elen = 2 then do {
        v \<leftarrow> arr_slice ie 0 2;
        x \<leftarrow> print_buf (txpow b) (lit '',txpow:'' @ hex_fixed 4 (le16 v));
        Some (b\<lparr>txpow := x\<rparr>)
      } else Some b)"

definition plain_ie :: "cstr \<Rightarrow> byte \<Rightarrow> byte list \<Rightarrow> nat \<Rightarrow> tax_bufs \<Rightarrow> (cstr \<times> tax_bufs) option" where
  "plain_ie sep idb ie elen b = do {
     b \<leftarrow> (if idb = 45 then ht_ie ie elen b else Some b);
     b \<leftarrow> (if idb = 191 then vht_ie ie elen b else Some b);
     b \<leftarrow> (if idb = 127 then extcap_ie ie elen b else Some b);
     b \<leftarrow> (if idb = 33 then txpow_ie ie elen b else Some b);
     tagbuf \<leftarrow> print_buf (replicate 32 0) (sep @ dec_byte idb);
     Some (cstr_of tagbuf, b)
   }"

text \<open>
  The loop over the elements. \<open>fstr_len\<close> is the size of \<open>fstr\<close>; since \<open>strncat\<close> leaves a NUL inside
  the block, the subtractions for \<open>flen\<close> do not go below zero.
\<close>

function ie_loop ::
    "byte list \<Rightarrow> nat \<Rightarrow> nat \<Rightarrow> nat \<Rightarrow> byte list \<Rightarrow> tax_bufs \<Rightarrow> (nat \<times> byte list \<times> tax_bufs) option" where
  "ie_loop ie ie_len num flen fstr b =
     (if ie_len \<ge> 2 then do {
        let sep = (if num = 0 then [] else lit '','');
        idb \<leftarrow> arr_get ie 0;
        l \<leftarrow> arr_get ie 1;
        let elen = unat l;
        let ie = drop 2 ie;
        (if elen > ie_len - 2 then Some (flen, fstr, b)
         else do {
           (tag, b) \<leftarrow> (if idb = 221 \<and> elen \<ge> 4 then vendor_ie sep idb ie elen b else plain_ie sep idb ie elen b);
           fstr \<leftarrow> strncat fstr tag flen;
           ie_loop (drop elen ie) (ie_len - 2 - elen) (num + 1) (length fstr - length (cstr_of fstr) - 1) fstr b
         })
      } else Some (flen, fstr, b))"
  by pat_completeness auto

termination
  by (relation "measure (\<lambda>(_, ie_len, _). ie_len)") auto

declare ie_loop.simps [simp del]

text \<open>Appending one of the collected values, if there is one.\<close>

definition add_field :: "byte list \<Rightarrow> nat \<times> byte list \<Rightarrow> (nat \<times> byte list) option" where
  "add_field buf st =
     (case st of (flen, fstr) \<Rightarrow>
        if cstr_of buf \<noteq> [] then do {
          fstr \<leftarrow> strncat fstr (cstr_of buf) flen;
          Some (length fstr - length (cstr_of fstr) - 1, fstr)
        } else Some (flen, fstr))"

definition ie_to_string :: "byte list \<Rightarrow> byte list \<Rightarrow> nat \<Rightarrow> byte list option" where
  "ie_to_string fstr ie ie_len = do {
     let flen = length fstr - 1;
     fstr \<leftarrow> arr_put fstr 0 [0];
     (flen, fstr, b) \<leftarrow> ie_loop ie ie_len 0 flen fstr tax_start;
     st \<leftarrow> add_field (htcap b) (flen, fstr);
     st \<leftarrow> add_field (htagg b) st;
     st \<leftarrow> add_field (htmcs b) st;
     st \<leftarrow> add_field (vhtcap b) st;
     st \<leftarrow> add_field (vhtrxmcs b) st;
     st \<leftarrow> add_field (vhttxmcs b) st;
     st \<leftarrow> add_field (txpow b) st;
     st \<leftarrow> add_field (extcap b) st;
     (flen, fstr) \<leftarrow> add_field (wps b) st;
     arr_put fstr (length fstr - 1) [0]
   }"

section \<open>The program\<close>

definition ASSOC_REQ :: nat where "ASSOC_REQ = 0"
definition PROBE_REQ :: nat where "PROBE_REQ = 4"

record tax_state =
  tax_mac :: "cstr option"
  probe_sig :: "byte list"
  assoc_sig :: "byte list"

definition size_sub :: "nat \<Rightarrow> int \<Rightarrow> nat" where
  "size_sub a b = nat ((int a - b) mod 2 ^ 64)"

text \<open>
  One packet. \<open>it_len\<close> is the length of the radio header; the management frame behind it has its
  frame control at offset 0, the sender at 10 and its body at 24, where an association request has
  four more bytes before its elements.
\<close>

definition tax_packet :: "byte list \<Rightarrow> tax_state \<Rightarrow> tax_state option" where
  "tax_packet pkt st = do {
     l \<leftarrow> arr_slice pkt 2 2;
     let it_len = le16 l;
     f \<leftarrow> arr_slice pkt it_len 2;
     let fc = le16 f;
     let ftype = (fc div 4) mod 4;
     let subtype = (fc div 16) mod 16;
     st \<leftarrow> (if ftype = 0 \<and> subtype = ASSOC_REQ then do {
              s \<leftarrow> ie_to_string (assoc_sig st) (drop (it_len + 28) pkt) (size_sub (length pkt) (28 + int it_len + 4));
              Some (st\<lparr>assoc_sig := s\<rparr>)
            } else Some st);
     (if ftype = 0 \<and> subtype = PROBE_REQ then do {
        sa \<leftarrow> arr_slice pkt (it_len + 10) 6;
        let m = hex_byte (sa ! 0) @ concat (map (\<lambda>b. lit '':'' @ hex_byte b) (drop 1 sa));
        s \<leftarrow> ie_to_string (probe_sig st) (drop (it_len + 24) pkt) (size_sub (length pkt) (24 + int it_len + 4));
        Some (st\<lparr>tax_mac := Some m, probe_sig := s\<rparr>)
      } else Some st)
   }"

fun tax_packets :: "byte list list \<Rightarrow> tax_state \<Rightarrow> tax_state option" where
  "tax_packets [] st = Some st"
| "tax_packets (p # ps) st = do { st \<leftarrow> tax_packet p st; tax_packets ps st }"

text \<open>
  The program: the capture is \<open>None\<close> when the file cannot be opened. The result is the exit code
  and the text on standard output.
\<close>

definition tax_filename :: "cstr list \<Rightarrow> cstr option option" where
  "tax_filename args =
     (let os = fst (getopt [(CHR ''f'', True)] args)
      in if Bad_Short \<in> set os then None
         else Some (fold (\<lambda>opt acc. case opt of Short c a \<Rightarrow> Some a | Bad_Short \<Rightarrow> acc) os None))"

definition tax_main :: "(cstr \<Rightarrow> byte list list option) \<Rightarrow> cstr list \<Rightarrow> (int \<times> cstr) option" where
  "tax_main capture args =
     (case tax_filename args of
        None \<Rightarrow> Some (1, [])
      | Some None \<Rightarrow> Some (1, [])
      | Some (Some filename) \<Rightarrow>
          (case capture filename of
             None \<Rightarrow> Some (1, [])
           | Some pkts \<Rightarrow> do {
               st \<leftarrow> tax_packets pkts \<lparr>tax_mac = None, probe_sig = replicate 4096 0, assoc_sig = replicate 4096 0\<rparr>;
               mac \<leftarrow> tax_mac st;
               let p = cstr_of (probe_sig st);
               let a = cstr_of (assoc_sig st);
               Some (if p \<noteq> [] \<and> a \<noteq> [] \<and> mac \<noteq> [] then 0 else 1,
                     mac @ lit '' wifi4|probe:'' @ p @ lit ''|assoc:'' @ a @ [10])
             }))"

section \<open>The specification\<close>

text \<open>The elements of a frame body, up to the first that is cut off.\<close>

function parse_ies :: "byte list \<Rightarrow> (byte \<times> byte list) list" where
  "parse_ies d =
     (if length d \<ge> 2 \<and> unat (d ! 1) \<le> length d - 2
      then (d ! 0, take (unat (d ! 1)) (drop 2 d)) # parse_ies (drop (unat (d ! 1)) (drop 2 d)) else [])"
  by pat_completeness auto

termination
  by (relation "measure length") auto

declare parse_ies.simps [simp del]

text \<open>The value of the first model name among the attributes of a WPS element.\<close>

function wps_sub :: "byte list \<Rightarrow> byte list option" where
  "wps_sub d =
     (if length d \<ge> 4 then
        (let idn = 256 * unat (d ! 0) + unat (d ! 1); elen = 256 * unat (d ! 2) + unat (d ! 3)
         in if elen > length d - 4 then None
            else if idn = 0x1023 then Some (take elen (drop 4 d))
            else wps_sub (drop elen (drop 4 d)))
      else None)"
  by pat_completeness auto

termination
  by (relation "measure length") auto

declare wps_sub.simps [simp del]

type_synonym info_elem = "byte \<times> byte list"

definition tag_text :: "info_elem \<Rightarrow> cstr" where
  "tag_text e = (case e of (i, d) \<Rightarrow>
     if i = 221 \<and> length d \<ge> 4
     then dec_byte i @ lit ''('' @ hex_byte (d ! 0) @ hex_byte (d ! 1) @ hex_byte (d ! 2) @ lit '','' @ dec_byte (d ! 3) @ lit '')''
     else dec_byte i)"

definition value_text :: "byte \<Rightarrow> nat \<Rightarrow> string \<Rightarrow> (byte list \<Rightarrow> cstr) \<Rightarrow> info_elem \<Rightarrow> cstr option" where
  "value_text i n name f e = (if fst e = i \<and> n \<le> length (snd e) then Some (lit name @ f (snd e)) else None)"

definition htcap_text where "htcap_text = value_text 45 2 '',htcap:'' (\<lambda>d. hex_fixed 4 (le16 d))"
definition htagg_text where "htagg_text = value_text 45 3 '',htagg:'' (\<lambda>d. hex_byte (d ! 2))"
definition htmcs_text where "htmcs_text = value_text 45 7 '',htmcs:'' (\<lambda>d. hex_fixed 8 (le32 (drop 3 d)))"
definition htmcs_printed where "htmcs_printed = value_text 45 7 '',htmcs:'' (\<lambda>d. hex_fixed 8 (le32 (drop 3 d) mod 65536))"
definition vhtcap_text where "vhtcap_text = value_text 191 4 '',vhtcap:'' (\<lambda>d. hex_fixed 8 (le32 d))"
definition vhtrxmcs_text where "vhtrxmcs_text = value_text 191 8 '',vhtrxmcs:'' (\<lambda>d. hex_fixed 8 (le32 (drop 4 d)))"
definition vhttxmcs_text where "vhttxmcs_text = value_text 191 12 '',vhttxmcs:'' (\<lambda>d. hex_fixed 8 (le32 (drop 8 d)))"
definition extcap_text where "extcap_text = value_text 127 0 '',extcap:'' (\<lambda>d. concat (map hex_byte (take 254 d)))"

definition txpow_text :: "info_elem \<Rightarrow> cstr option" where
  "txpow_text e = (if fst e = 33 \<and> length (snd e) = 2 then Some (lit '',txpow:'' @ hex_fixed 4 (le16 (snd e))) else None)"

definition wps_text :: "info_elem \<Rightarrow> cstr option" where
  "wps_text e = (case e of (i, d) \<Rightarrow>
     if i = 221 \<and> length d \<ge> 4 \<and> take 4 d = [0, 0x50, 0xf2, 4]
     then (case wps_sub (drop 4 d) of
             None \<Rightarrow> None
           | Some v \<Rightarrow> if v = [] then None else Some (lit '',wps:'' @ map safe_char (take 32 v)))
     else None)"

text \<open>Of several elements that give a value, the last one counts.\<close>

definition latest :: "(info_elem \<Rightarrow> cstr option) \<Rightarrow> info_elem list \<Rightarrow> cstr" where
  "latest f ies = fold (\<lambda>e acc. case f e of None \<Rightarrow> acc | Some s \<Rightarrow> s) ies []"

definition tags_text :: "info_elem list \<Rightarrow> cstr" where
  "tags_text ies = (case ies of [] \<Rightarrow> [] | e # es \<Rightarrow> tag_text e @ concat (map (\<lambda>e. lit '','' @ tag_text e) es))"

text \<open>
  The signature as documented: every value in the format that the comments beside the buffers give,
  the MCS set with all its 32 bits.
\<close>

definition signature :: "info_elem list \<Rightarrow> cstr" where
  "signature ies = tags_text ies @ latest htcap_text ies @ latest htagg_text ies @ latest htmcs_text ies @
     latest vhtcap_text ies @ latest vhtrxmcs_text ies @ latest vhttxmcs_text ies @ latest txpow_text ies @
     latest extcap_text ies @ latest wps_text ies"

text \<open>
  The signature as printed: the format \<open>%08hx\<close> of the MCS set drops its upper 16 bits. The two agree
  where no element has one of these bits set, that is on clients with up to two spatial streams.
\<close>

definition printed_signature :: "info_elem list \<Rightarrow> cstr" where
  "printed_signature ies = tags_text ies @ latest htcap_text ies @ latest htagg_text ies @ latest htmcs_printed ies @
     latest vhtcap_text ies @ latest vhtrxmcs_text ies @ latest vhttxmcs_text ies @ latest txpow_text ies @
     latest extcap_text ies @ latest wps_text ies"

lemma push_bit_8_of_nat: "push_bit 8 (word_of_nat n :: u32) + ucast (b :: byte) = word_of_nat (256 * n + unat b)"
proof -
  have "ucast b = (word_of_nat (unat b) :: u32)" by simp
  then show ?thesis by (simp add: push_bit_eq_mult)
qed

lemma unat_le_word: "unat (le_word b0 b1 b2 b3) = unat b0 + 256 * unat b1 + 65536 * unat b2 + 16777216 * unat b3"
proof -
  define n where "n = 256 * (256 * (256 * unat b3 + unat b2) + unat b1) + unat b0"
  have "(ucast b3 :: u32) = word_of_nat (unat b3)" by simp
  then have "le_word b0 b1 b2 b3 = word_of_nat n" unfolding le_word_def Let_def n_def by (simp only: push_bit_8_of_nat)
  moreover have "n < 2 ^ 32"
    using unsigned_less [where 'a = nat, of b0] unsigned_less [where 'a = nat, of b1]
      unsigned_less [where 'a = nat, of b2] unsigned_less [where 'a = nat, of b3] by (simp add: n_def)
  ultimately have "unat (le_word b0 b1 b2 b3) = n" by (simp add: unat_of_nat take_bit_nat_eq_self)
  then show ?thesis by (simp add: n_def)
qed

definition narrow_mcs :: "info_elem list \<Rightarrow> bool" where
  "narrow_mcs ies \<longleftrightarrow> list_all (\<lambda>(i, d). i = 45 \<and> 7 \<le> length d \<longrightarrow> d ! 5 = 0 \<and> d ! 6 = 0) ies"

lemma le32_narrow: "7 \<le> length d \<Longrightarrow> d ! 5 = 0 \<Longrightarrow> d ! 6 = 0 \<Longrightarrow> le32 (drop 3 d) < 65536"
  using unsigned_less [where 'a = nat, of "d ! 3"] unsigned_less [where 'a = nat, of "d ! 4"] by (simp add: le32_def unat_le_word)

lemma latest_cong: "list_all (\<lambda>e. f e = g e) ies \<Longrightarrow> latest f ies = latest g ies"
  unfolding latest_def by (rule fold_cong) (auto simp: list_all_iff)

lemma printed_narrow: "narrow_mcs ies \<Longrightarrow> printed_signature ies = signature ies"
proof -
  assume n: "narrow_mcs ies"
  have "htmcs_printed e = htmcs_text e" if "e \<in> set ies" for e
    using n that le32_narrow [of "snd e"]
    by (auto simp: htmcs_printed_def htmcs_text_def value_text_def narrow_mcs_def list_all_iff)
  then have "latest htmcs_printed ies = latest htmcs_text ies" by (intro latest_cong) (simp add: list_all_iff)
  then show ?thesis by (simp add: printed_signature_def signature_def)
qed

section \<open>Text without NULs\<close>

lemma hex_digit_range: "n < 16 \<Longrightarrow> 48 \<le> hex_digit n \<and> hex_digit n \<le> 57 \<or> 97 \<le> hex_digit n \<and> hex_digit n \<le> 102"
proof -
  assume "n < 16"
  then have "n \<in> set [0..<16]" by simp
  moreover have "\<forall>n \<in> set [0..<16]. 48 \<le> hex_digit n \<and> hex_digit n \<le> 57 \<or> 97 \<le> hex_digit n \<and> hex_digit n \<le> 102"
    by (simp add: upt_conv_Cons hex_digit_def)
  ultimately show ?thesis by blast
qed

text \<open>The characters of a signature: letters, digits and the punctuation of the format.\<close>

definition sig_char :: "byte \<Rightarrow> bool" where
  "sig_char b \<longleftrightarrow> 48 \<le> b \<and> b \<le> 58 \<or> 65 \<le> b \<and> b \<le> 90 \<or> 97 \<le> b \<and> b \<le> 122 \<or> b \<in> {40, 41, 44, 95}"

lemma sig_char_nonzero: "sig_char b \<Longrightarrow> b \<noteq> 0"
  by (auto simp: sig_char_def)

lemma sig_nul_free: "list_all sig_char s \<Longrightarrow> nul_free s"
  using sig_char_nonzero by (auto simp: nul_free_def list_all_iff)

lemma sig_hex_digit: "n < 16 \<Longrightarrow> sig_char (hex_digit n)"
  using hex_digit_range [of n] by (auto simp: sig_char_def word_le_nat_alt)

lemma sig_hex [simp]: "list_all sig_char (hex_fixed w n)"
  by (induction w arbitrary: n) (auto simp: sig_hex_digit)

lemma sig_hex_byte [simp]: "list_all sig_char (hex_byte b)"
  by (simp add: hex_byte_def)

lemma sig_dec_byte [simp]: "list_all sig_char (dec_byte b)"
  using dec_nat_digits [of "unat b"]
  by (auto simp: dec_byte_def list_all_iff sig_char_def is_digit_def word_le_nat_alt)

lemma sig_safe [simp]: "sig_char (safe_char b)"
  by (auto simp: safe_char_def sig_char_def word_le_nat_alt Let_def)

lemma length_hex_byte [simp]: "length (hex_byte b) = 2"
  by (simp add: hex_byte_def)

lemma hex_byte_digits: "hex_byte b = [hex_digit (unat b div 16 mod 16), hex_digit (unat b mod 16)]"
  by (simp add: hex_byte_def numeral_2_eq_2)

lemma length_dec_byte_text: "length (dec_byte b) \<le> 3"
proof -
  have "unat b < 256" using unsigned_less [of b, where 'a = nat] by simp
  then show ?thesis using length_dec_nat_bound [of "unat b" 3] by (simp add: dec_byte_def)
qed

lemma sig_tag: "list_all sig_char (tag_text e)" "length (tag_text e) \<le> 15"
  using length_dec_byte_text [of "fst e"] length_dec_byte_text [of "snd e ! 3"]
  by (auto simp: tag_text_def lit_def sig_char_def split: prod.split)

section \<open>Buffers\<close>

lemma print_buf_ok:
  assumes "length s < length buf" "nul_free s"
  shows "\<exists>buf'. print_buf buf s = Some buf' \<and> cstr_of buf' = s \<and> length buf' = length buf"
proof -
  have "take (length buf - 1) s = s" using assms(1) by simp
  then have "print_buf buf s = Some (s @ 0 # drop (length s + 1) buf)"
    using assms(1) by (auto simp: print_buf_def snprintf_at_def arr_put_def)
  then show ?thesis using assms by (simp add: cstr_simps)
qed

text \<open>The output buffer holds a text, cut to what fits.\<close>

definition holds :: "nat \<Rightarrow> byte list \<Rightarrow> cstr \<Rightarrow> bool" where
  "holds N fstr s \<longleftrightarrow> length fstr = N \<and> 0 < N \<and> cstr_of fstr = take (N - 1) s"

lemma strncat_holds:
  assumes "holds N fstr s" "nul_free r"
  shows "\<exists>fstr'. strncat fstr r (N - length (cstr_of fstr) - 1) = Some fstr' \<and> holds N fstr' (s @ r)"
proof -
  define c where "c = cstr_of fstr"
  define k where "k = length c"
  define q where "q = take (N - k - 1) r"
  have f: "c = take (N - 1) s" "length fstr = N" "0 < N" using assms(1) by (auto simp: holds_def c_def)
  have k: "k < N" using f by (auto simp: k_def)
  have "take k fstr = c"
    using takeWhile_eq_take [of "\<lambda>b. b \<noteq> 0" fstr] by (simp add: cstr_of_def k_def c_def)
  moreover have "length q \<le> N - k - 1" by (simp add: q_def)
  ultimately have e: "strncat fstr r (N - k - 1) = Some (c @ q @ 0 # drop (k + length q + 1) fstr)"
    using k f(2) unfolding strncat_def arr_put_def c_def [symmetric] k_def [symmetric] Let_def q_def [symmetric]
    by auto
  have "nul_free (c @ q)" using assms(2) by (simp add: nul_free_take c_def q_def)
  then have "cstr_of ((c @ q) @ 0 # drop (k + length q + 1) fstr) = c @ q" by (rule cstr_of_nul_free)
  moreover have "c @ q = take (N - 1) (s @ r)" using f by (auto simp: q_def k_def min_def)
  moreover have "k + length q + 1 \<le> N" using \<open>length q \<le> N - k - 1\<close> k by linarith
  ultimately have "holds N (c @ q @ 0 # drop (k + length q + 1) fstr) (s @ r)"
    using f k by (auto simp: holds_def k_def)
  with e show ?thesis unfolding c_def [symmetric] k_def [symmetric] by blast
qed

lemma extcap_loop_ok:
  "cstr_of buf = s \<Longrightarrow> length s = p \<Longrightarrow> p + 2 * k < length buf \<Longrightarrow> i + k \<le> length ie \<Longrightarrow>
     \<exists>buf'. extcap_loop ie k i p buf = Some buf' \<and> length buf' = length buf \<and>
       cstr_of buf' = s @ concat (map hex_byte (take k (drop i ie)))"
proof (induction k arbitrary: i p buf s)
  case (Suc k)
  have n: "nul_free s" using Suc.prems(1) by auto
  have t: "take p buf = s"
    using takeWhile_eq_take [of "\<lambda>b. b \<noteq> 0" buf] Suc.prems(1,2) by (simp add: cstr_of_def)
  let ?h = "hex_byte (ie ! i)"
  have h: "nul_free ?h" by (rule sig_nul_free) simp
  let ?b = "s @ ?h @ 0 # drop (p + 3) buf"
  have b: "snprintf_at buf p (length buf - p) ?h = Some ?b"
    using Suc.prems t by (simp add: snprintf_at_def arr_put_def eval_nat_numeral)
  have "cstr_of ((s @ ?h) @ 0 # drop (p + 3) buf) = s @ ?h" using n h by (intro cstr_of_nul_free) simp
  then have "\<exists>buf'. extcap_loop ie k (i + 1) (p + 2) ?b = Some buf' \<and> length buf' = length ?b \<and>
       cstr_of buf' = (s @ ?h) @ concat (map hex_byte (take k (drop (i + 1) ie)))"
    using Suc.prems by (intro Suc.IH) auto
  moreover have "take (Suc k) (drop i ie) = ie ! i # take k (drop (i + 1) ie)"
    using Suc.prems(4) by (simp add: Cons_nth_drop_Suc [symmetric])
  ultimately show ?case
    using Suc.prems b by (auto simp: carr_simps)
qed simp

section \<open>The name of the model\<close>

lemma get_wps_name_ok:
  "data_len \<le> length data \<Longrightarrow> name_len \<le> length nam \<Longrightarrow>
     get_wps_name nam name_len data data_len =
       Some (case wps_sub (take data_len data) of
               None \<Rightarrow> (0, nam)
             | Some v \<Rightarrow> (min (length v) name_len,
                         map safe_char (take name_len v) @ drop (min (length v) name_len) nam))"
proof (induction nam name_len data data_len rule: get_wps_name.induct)
  case (1 nam name_len data data_len)
  show ?case
  proof (cases "data_len \<ge> 4")
    case False
    then show ?thesis by (simp add: get_wps_name.simps wps_sub.simps)
  next
    case True
    define D where "D = take data_len data"
    define idn where "idn = 256 * unat (data ! 0) + unat (data ! Suc 0)"
    define elen where "elen = 256 * unat (data ! 2) + unat (data ! 3)"
    have nth: "D ! 0 = data ! 0" "D ! Suc 0 = data ! Suc 0" "D ! 2 = data ! 2" "D ! 3 = data ! 3"
      using True by (auto simp: D_def)
    have len: "length D = data_len" using "1.prems" by (simp add: D_def)
    have g: "arr_get data 0 = Some (data ! 0)" "arr_get data (Suc 0) = Some (data ! Suc 0)"
      "arr_get data 2 = Some (data ! 2)" "arr_get data 3 = Some (data ! 3)"
      using True "1.prems" by (auto simp: arr_get_def)
    have w: "wps_sub D = (if elen > data_len - 4 then None
        else if idn = 0x1023 then Some (take elen (drop 4 D)) else wps_sub (drop elen (drop 4 D)))"
      using True by (subst wps_sub.simps) (simp add: len nth idn_def elen_def Let_def)
    have d: "take elen (drop 4 D) = take elen (drop 4 data)" if "elen \<le> data_len - 4"
      using that by (simp add: D_def drop_take)
    have unf: "get_wps_name nam name_len data data_len =
      (if elen > data_len - 4 then Some (0, nam)
       else if idn = 0x1023 then do {
           nam \<leftarrow> no_mischief_strncpy nam (drop 4 data) (min elen name_len);
           Some (min elen name_len, nam) }
       else get_wps_name nam name_len (drop elen (drop 4 data)) (data_len - 4 - elen))"
      using True by (subst get_wps_name.simps) (simp add: g idn_def elen_def Let_def min_def)
    consider "elen > data_len - 4" | "elen \<le> data_len - 4" "idn = 0x1023" | "elen \<le> data_len - 4" "idn \<noteq> 0x1023"
      by linarith
    then show ?thesis
    proof cases
      case 1
      then show ?thesis by (simp add: unf w D_def [symmetric])
    next
      case 2
      have l: "min (length data - 4) elen = elen" using 2 "1.prems" True by linarith
      have "no_mischief_strncpy nam (drop 4 data) (min elen name_len) =
          Some (map safe_char (take name_len (take elen (drop 4 data))) @ drop (min elen name_len) nam)"
        using 2 "1.prems" True
        by (auto simp: no_mischief_strncpy_def arr_slice_def arr_put_def min.commute take_map [symmetric] min_def)
      then show ?thesis using 2 by (simp add: unf w d l D_def [symmetric])
    next
      case 3
      have "get_wps_name nam name_len (drop elen (drop 4 data)) (data_len - 4 - elen) =
         Some (case wps_sub (take (data_len - 4 - elen) (drop elen (drop 4 data))) of
               None \<Rightarrow> (0, nam)
             | Some v \<Rightarrow> (min (length v) name_len,
                         map safe_char (take name_len v) @ drop (min (length v) name_len) nam))"
        using 3 "1.prems" True "1.IH" [OF True g(1) g(2) [folded One_nat_def] refl g(3,4) refl refl]
        by (simp add: idn_def elen_def)
      moreover have "drop elen (drop 4 D) = take (data_len - 4 - elen) (drop elen (drop 4 data))"
        by (simp add: D_def drop_take)
      ultimately show ?thesis using 3 by (simp add: unf w D_def [symmetric] del: drop_drop)
    qed
  qed
qed

section \<open>One element\<close>

definition buf_ok :: "nat \<Rightarrow> byte list \<Rightarrow> cstr \<Rightarrow> bool" where
  "buf_ok n buf s \<longleftrightarrow> length buf = n \<and> cstr_of buf = s"

definition bufs_ok :: "tax_bufs \<Rightarrow> info_elem list \<Rightarrow> bool" where
  "bufs_ok b ies \<longleftrightarrow> buf_ok 12 (htcap b) (latest htcap_text ies) \<and> buf_ok 10 (htagg b) (latest htagg_text ies) \<and>
     buf_ok 16 (htmcs b) (latest htmcs_printed ies) \<and> buf_ok 17 (vhtcap b) (latest vhtcap_text ies) \<and>
     buf_ok 19 (vhtrxmcs b) (latest vhtrxmcs_text ies) \<and> buf_ok 19 (vhttxmcs b) (latest vhttxmcs_text ies) \<and>
     buf_ok 517 (extcap b) (latest extcap_text ies) \<and> buf_ok 12 (txpow b) (latest txpow_text ies) \<and>
     buf_ok 38 (wps b) (latest wps_text ies)"

lemma latest_snoc: "latest f (ies @ [e]) = (case f e of None \<Rightarrow> latest f ies | Some s \<Rightarrow> s)"
  by (simp add: latest_def split: option.split)

lemma print_field:
  assumes "length buf = n" "length s < n" "list_all sig_char s"
  shows "\<exists>buf'. print_buf buf s = Some buf' \<and> buf_ok n buf' s"
  using print_buf_ok [of s buf] assms sig_nul_free [OF assms(3)] by (auto simp: buf_ok_def)

lemma sig_lit:
  "list_all sig_char (lit '',htcap:'')" "list_all sig_char (lit '',htagg:'')" "list_all sig_char (lit '',htmcs:'')"
  "list_all sig_char (lit '',vhtcap:'')" "list_all sig_char (lit '',vhtrxmcs:'')" "list_all sig_char (lit '',vhttxmcs:'')"
  "list_all sig_char (lit '',extcap:'')" "list_all sig_char (lit '',txpow:'')" "list_all sig_char (lit '',wps:'')"
  "list_all sig_char (lit '','')"
  by (simp_all add: lit_def sig_char_def)

lemma length_lit [simp]: "length (lit s) = length s"
  by (simp add: lit_def)

lemma le_take:
  "2 \<le> n \<Longrightarrow> n \<le> length ie \<Longrightarrow> le16 (take 2 ie) = le16 (take n ie)"
  "k + 4 \<le> n \<Longrightarrow> n \<le> length ie \<Longrightarrow> le32 (take 4 (drop k ie)) = le32 (drop k (take n ie))"
  by (simp_all add: le16_def le32_def)

lemma ht_ie_ok:
  assumes "elen \<le> length ie" "length (htcap b) = 12" "length (htagg b) = 10" "length (htmcs b) = 16"
  defines "d \<equiv> take elen ie"
  shows "\<exists>x y z. ht_ie ie elen b = Some (b\<lparr>htcap := x, htagg := y, htmcs := z\<rparr>) \<and>
    buf_ok 12 x (if elen \<ge> 2 then lit '',htcap:'' @ hex_fixed 4 (le16 d) else cstr_of (htcap b)) \<and>
    buf_ok 10 y (if elen \<ge> 3 then lit '',htagg:'' @ hex_byte (d ! 2) else cstr_of (htagg b)) \<and>
    buf_ok 16 z (if elen \<ge> 7 then lit '',htmcs:'' @ hex_fixed 8 (le32 (drop 3 d) mod 65536) else cstr_of (htmcs b))"
proof -
  define s1 where "s1 = lit '',htcap:'' @ hex_fixed 4 (le16 d)"
  define s2 where "s2 = lit '',htagg:'' @ hex_byte (d ! 2)"
  define s3 where "s3 = lit '',htmcs:'' @ hex_fixed 8 (le32 (drop 3 d) mod 65536)"
  obtain x where x: "print_buf (htcap b) s1 = Some x" "buf_ok 12 x s1"
    using print_field [of "htcap b" 12 s1] assms(2) sig_lit by (auto simp: s1_def)
  obtain y where y: "print_buf (htagg b) s2 = Some y" "buf_ok 10 y s2"
    using print_field [of "htagg b" 10 s2] assms(3) sig_lit by (auto simp: s2_def)
  obtain z where z: "print_buf (htmcs b) s3 = Some z" "buf_ok 16 z s3"
    using print_field [of "htmcs b" 16 s3] assms(4) sig_lit by (auto simp: s3_def)
  have 1: "arr_slice ie 0 2 = Some (take 2 ie)" "le16 (take 2 ie) = le16 d" if "elen \<ge> 2"
    using that assms(1) le_take(1) [of elen ie] by (auto simp: arr_slice_def d_def)
  have 2: "arr_get ie 2 = Some (d ! 2)" if "elen \<ge> 3" using that assms(1) by (auto simp: arr_get_def d_def)
  have 3: "arr_slice ie 3 4 = Some (take 4 (drop 3 ie))" "le32 (take 4 (drop 3 ie)) = le32 (drop 3 d)" if "elen \<ge> 7"
    using that assms(1) le_take(2) [of 3 elen ie] by (auto simp: arr_slice_def d_def)
  define X where "X = (if elen \<ge> 2 then x else htcap b)"
  define Y where "Y = (if elen \<ge> 3 then y else htagg b)"
  define Z where "Z = (if elen \<ge> 7 then z else htmcs b)"
  consider "elen < 2" | "elen = 2" | "elen \<ge> 3" "elen < 7" | "elen \<ge> 7" by linarith
  then have "ht_ie ie elen b = Some (b\<lparr>htcap := X, htagg := Y, htmcs := Z\<rparr>)"
    by cases (simp_all add: ht_ie_def X_def Y_def Z_def 1 2 3 x(1) y(1) z(1) s1_def [symmetric] s2_def [symmetric] s3_def [symmetric])
  moreover have "buf_ok 12 X (if elen \<ge> 2 then s1 else cstr_of (htcap b))"
    "buf_ok 10 Y (if elen \<ge> 3 then s2 else cstr_of (htagg b))" "buf_ok 16 Z (if elen \<ge> 7 then s3 else cstr_of (htmcs b))"
    using x y z assms(2-4) by (auto simp: X_def Y_def Z_def buf_ok_def)
  ultimately show ?thesis unfolding s1_def s2_def s3_def by blast
qed

lemma vht_ie_ok:
  assumes "elen \<le> length ie" "length (vhtcap b) = 17" "length (vhtrxmcs b) = 19" "length (vhttxmcs b) = 19"
  defines "d \<equiv> take elen ie"
  shows "\<exists>x y z. vht_ie ie elen b = Some (b\<lparr>vhtcap := x, vhtrxmcs := y, vhttxmcs := z\<rparr>) \<and>
    buf_ok 17 x (if elen \<ge> 4 then lit '',vhtcap:'' @ hex_fixed 8 (le32 d) else cstr_of (vhtcap b)) \<and>
    buf_ok 19 y (if elen \<ge> 8 then lit '',vhtrxmcs:'' @ hex_fixed 8 (le32 (drop 4 d)) else cstr_of (vhtrxmcs b)) \<and>
    buf_ok 19 z (if elen \<ge> 12 then lit '',vhttxmcs:'' @ hex_fixed 8 (le32 (drop 8 d)) else cstr_of (vhttxmcs b))"
proof -
  define s1 where "s1 = lit '',vhtcap:'' @ hex_fixed 8 (le32 d)"
  define s2 where "s2 = lit '',vhtrxmcs:'' @ hex_fixed 8 (le32 (drop 4 d))"
  define s3 where "s3 = lit '',vhttxmcs:'' @ hex_fixed 8 (le32 (drop 8 d))"
  obtain x where x: "print_buf (vhtcap b) s1 = Some x" "buf_ok 17 x s1"
    using print_field [of "vhtcap b" 17 s1] assms(2) sig_lit by (auto simp: s1_def)
  obtain y where y: "print_buf (vhtrxmcs b) s2 = Some y" "buf_ok 19 y s2"
    using print_field [of "vhtrxmcs b" 19 s2] assms(3) sig_lit by (auto simp: s2_def)
  obtain z where z: "print_buf (vhttxmcs b) s3 = Some z" "buf_ok 19 z s3"
    using print_field [of "vhttxmcs b" 19 s3] assms(4) sig_lit by (auto simp: s3_def)
  have 1: "arr_slice ie 0 4 = Some (take 4 ie)" "le32 (take 4 ie) = le32 d" if "elen \<ge> 4"
    using that assms(1) le_take(2) [of 0 elen ie] by (auto simp: arr_slice_def d_def)
  have 2: "arr_slice ie 4 4 = Some (take 4 (drop 4 ie))" "le32 (take 4 (drop 4 ie)) = le32 (drop 4 d)" if "elen \<ge> 8"
    using that assms(1) le_take(2) [of 4 elen ie] by (auto simp: arr_slice_def d_def)
  have 3: "arr_slice ie 8 4 = Some (take 4 (drop 8 ie))" "le32 (take 4 (drop 8 ie)) = le32 (drop 8 d)" if "elen \<ge> 12"
    using that assms(1) le_take(2) [of 8 elen ie] by (auto simp: arr_slice_def d_def)
  define X where "X = (if elen \<ge> 4 then x else vhtcap b)"
  define Y where "Y = (if elen \<ge> 8 then y else vhtrxmcs b)"
  define Z where "Z = (if elen \<ge> 12 then z else vhttxmcs b)"
  consider "elen < 4" | "elen \<ge> 4" "elen < 8" | "elen \<ge> 8" "elen < 12" | "elen \<ge> 12" by linarith
  then have "vht_ie ie elen b = Some (b\<lparr>vhtcap := X, vhtrxmcs := Y, vhttxmcs := Z\<rparr>)"
    by cases (simp_all add: vht_ie_def X_def Y_def Z_def 1 2 3 x(1) y(1) z(1) s1_def [symmetric] s2_def [symmetric] s3_def [symmetric])
  moreover have "buf_ok 17 X (if elen \<ge> 4 then s1 else cstr_of (vhtcap b))"
    "buf_ok 19 Y (if elen \<ge> 8 then s2 else cstr_of (vhtrxmcs b))" "buf_ok 19 Z (if elen \<ge> 12 then s3 else cstr_of (vhttxmcs b))"
    using x y z assms(2-4) by (auto simp: X_def Y_def Z_def buf_ok_def)
  ultimately show ?thesis unfolding s1_def s2_def s3_def by blast
qed

lemma extcap_ie_ok:
  assumes "elen \<le> length ie" "length (extcap b) = 517"
  shows "\<exists>x. extcap_ie ie elen b = Some (b\<lparr>extcap := x\<rparr>) \<and>
    buf_ok 517 x (lit '',extcap:'' @ concat (map hex_byte (take 254 (take elen ie))))"
proof -
  obtain x where x: "print_buf (extcap b) (lit '',extcap:'') = Some x" "buf_ok 517 x (lit '',extcap:'')"
    using print_field [of "extcap b" 517 "lit '',extcap:''"] assms(2) sig_lit by auto
  have "8 + 2 * min elen 254 < 517" "0 + min elen 254 \<le> length ie" using assms(1) by auto
  then obtain y where "extcap_loop ie (min elen 254) 0 8 x = Some y" "length y = 517"
    "cstr_of y = lit '',extcap:'' @ concat (map hex_byte (take (min elen 254) (drop 0 ie)))"
    using extcap_loop_ok [of x "lit '',extcap:''" 8 "min elen 254" 0 ie] x(2) by (auto simp: buf_ok_def)
  moreover have "(if elen < 254 then elen else 254) = min elen 254" "length (lit '',extcap:'') = 8" by auto
  ultimately show ?thesis using x(1) unfolding extcap_ie_def MAX_EXTCAP_def Let_def
    by (intro exI [of _ y]) (simp only: buf_ok_def bind.bind_lunit, simp add: min.commute)
qed

lemma txpow_ie_ok:
  assumes "elen \<le> length ie" "length (txpow b) = 12"
  shows "\<exists>x. txpow_ie ie elen b = Some (b\<lparr>txpow := x\<rparr>) \<and>
    buf_ok 12 x (if elen = 2 then lit '',txpow:'' @ hex_fixed 4 (le16 (take elen ie)) else cstr_of (txpow b))"
proof -
  define s where "s = lit '',txpow:'' @ hex_fixed 4 (le16 (take elen ie))"
  obtain x where "print_buf (txpow b) s = Some x" "buf_ok 12 x s"
    using print_field [of "txpow b" 12 s] assms(2) sig_lit by (auto simp: s_def)
  then show ?thesis using assms
    by (intro exI [of _ "if elen = 2 then x else txpow b"])
       (auto simp: txpow_ie_def arr_slice_def s_def buf_ok_def)
qed

lemma value_text_other [simp]: "i \<noteq> j \<Longrightarrow> value_text i n s f (j, d) = None"
  by (simp add: value_text_def)

lemmas field_defs = htcap_text_def htagg_text_def htmcs_printed_def vhtcap_text_def vhtrxmcs_text_def
  vhttxmcs_text_def extcap_text_def

lemma bufs_ok_lengths:
  assumes "bufs_ok b ies"
  shows "length (htcap b) = 12" "length (htagg b) = 10" "length (htmcs b) = 16" "length (vhtcap b) = 17"
    "length (vhtrxmcs b) = 19" "length (vhttxmcs b) = 19" "length (extcap b) = 517" "length (txpow b) = 12"
    "length (wps b) = 38"
  using assms by (simp_all add: bufs_ok_def buf_ok_def)

text \<open>The values that an element gives, for the four kinds that have any.\<close>

lemma plain_values:
  assumes b: "bufs_ok b ies" and l: "elen \<le> length ie" and v: "\<not> (idb = 221 \<and> elen \<ge> 4)"
  shows "\<exists>b'. (do { b \<leftarrow> (if idb = 45 then ht_ie ie elen b else Some b);
       b \<leftarrow> (if idb = 191 then vht_ie ie elen b else Some b);
       b \<leftarrow> (if idb = 127 then extcap_ie ie elen b else Some b);
       (if idb = 33 then txpow_ie ie elen b else Some b) }) = Some b' \<and>
     bufs_ok b' (ies @ [(idb, take elen ie)])"
proof -
  note len = bufs_ok_lengths [OF b]
  have dl: "length (take elen ie) = elen" using l by simp
  consider "idb = 45" | "idb = 191" | "idb = 127" | "idb = 33" | "idb \<notin> {45, 191, 127, 33}" by auto
  then show ?thesis
  proof cases
    case 1
    obtain x y z where "ht_ie ie elen b = Some (b\<lparr>htcap := x, htagg := y, htmcs := z\<rparr>)"
      "buf_ok 12 x (if elen \<ge> 2 then lit '',htcap:'' @ hex_fixed 4 (le16 (take elen ie)) else cstr_of (htcap b))"
      "buf_ok 10 y (if elen \<ge> 3 then lit '',htagg:'' @ hex_byte (take elen ie ! 2) else cstr_of (htagg b))"
      "buf_ok 16 z (if elen \<ge> 7 then lit '',htmcs:'' @ hex_fixed 8 (le32 (drop 3 (take elen ie)) mod 65536) else cstr_of (htmcs b))"
      using ht_ie_ok [OF l len(1-3)] by blast
    then show ?thesis using 1 b dl
      by (simp add: bufs_ok_def latest_snoc field_defs txpow_text_def wps_text_def)
         (simp add: buf_ok_def value_text_def)
  next
    case 2
    obtain x y z where "vht_ie ie elen b = Some (b\<lparr>vhtcap := x, vhtrxmcs := y, vhttxmcs := z\<rparr>)"
      "buf_ok 17 x (if elen \<ge> 4 then lit '',vhtcap:'' @ hex_fixed 8 (le32 (take elen ie)) else cstr_of (vhtcap b))"
      "buf_ok 19 y (if elen \<ge> 8 then lit '',vhtrxmcs:'' @ hex_fixed 8 (le32 (drop 4 (take elen ie))) else cstr_of (vhtrxmcs b))"
      "buf_ok 19 z (if elen \<ge> 12 then lit '',vhttxmcs:'' @ hex_fixed 8 (le32 (drop 8 (take elen ie))) else cstr_of (vhttxmcs b))"
      using vht_ie_ok [OF l len(4-6)] by blast
    then show ?thesis using 2 b dl
      by (simp add: bufs_ok_def latest_snoc field_defs txpow_text_def wps_text_def)
         (simp add: buf_ok_def value_text_def)
  next
    case 3
    obtain x where "extcap_ie ie elen b = Some (b\<lparr>extcap := x\<rparr>)"
      "buf_ok 517 x (lit '',extcap:'' @ concat (map hex_byte (take 254 (take elen ie))))"
      using extcap_ie_ok [OF l len(7)] by blast
    then show ?thesis using 3 b dl
      by (simp add: bufs_ok_def latest_snoc field_defs txpow_text_def wps_text_def)
         (simp add: buf_ok_def value_text_def)
  next
    case 4
    obtain x where "txpow_ie ie elen b = Some (b\<lparr>txpow := x\<rparr>)"
      "buf_ok 12 x (if elen = 2 then lit '',txpow:'' @ hex_fixed 4 (le16 (take elen ie)) else cstr_of (txpow b))"
      using txpow_ie_ok [OF l len(8)] by blast
    then show ?thesis using 4 b dl
      by (simp add: bufs_ok_def latest_snoc field_defs wps_text_def) (simp add: buf_ok_def txpow_text_def)
  next
    case 5
    have "wps_text (idb, take elen ie) = None" using v dl by (auto simp: wps_text_def)
    then show ?thesis using 5 b
      by (simp add: bufs_ok_def latest_snoc field_defs txpow_text_def)
  qed
qed

lemma tag_printed:
  assumes "sep = [] \<or> sep = lit '',''"
  shows "\<exists>t. print_buf (replicate 32 0) (sep @ tag_text e) = Some t \<and> cstr_of t = sep @ tag_text e"
proof -
  have "list_all sig_char (sep @ tag_text e)" "length (sep @ tag_text e) < 32"
    using assms sig_tag [of e] sig_lit(10) by auto
  then show ?thesis using print_field [of "replicate 32 0" 32 "sep @ tag_text e"] by (auto simp: buf_ok_def)
qed

lemma plain_ie_ok:
  assumes "bufs_ok b ies" "elen \<le> length ie" "\<not> (idb = 221 \<and> elen \<ge> 4)" "sep = [] \<or> sep = lit '',''"
  shows "\<exists>b'. plain_ie sep idb ie elen b = Some (sep @ tag_text (idb, take elen ie), b') \<and>
    bufs_ok b' (ies @ [(idb, take elen ie)])"
proof -
  obtain b' where b': "(do { b \<leftarrow> (if idb = 45 then ht_ie ie elen b else Some b);
       b \<leftarrow> (if idb = 191 then vht_ie ie elen b else Some b);
       b \<leftarrow> (if idb = 127 then extcap_ie ie elen b else Some b);
       (if idb = 33 then txpow_ie ie elen b else Some b) }) = Some b'" "bufs_ok b' (ies @ [(idb, take elen ie)])"
    using plain_values [OF assms(1-3)] by blast
  obtain t where t: "print_buf (replicate 32 0) (sep @ tag_text (idb, take elen ie)) = Some t"
    "cstr_of t = sep @ tag_text (idb, take elen ie)" using tag_printed [OF assms(4)] by blast
  have "tag_text (idb, take elen ie) = dec_byte idb" using assms(2,3) by (auto simp: tag_text_def)
  then have "plain_ie sep idb ie elen b = Some (sep @ tag_text (idb, take elen ie), b')"
    using b'(1) t unfolding plain_ie_def by (auto split: bind_splits)
  then show ?thesis using b'(2) by blast
qed

lemma latest_vendor:
  "latest htcap_text (ies @ [(221, d)]) = latest htcap_text ies"
  "latest htagg_text (ies @ [(221, d)]) = latest htagg_text ies"
  "latest htmcs_printed (ies @ [(221, d)]) = latest htmcs_printed ies"
  "latest vhtcap_text (ies @ [(221, d)]) = latest vhtcap_text ies"
  "latest vhtrxmcs_text (ies @ [(221, d)]) = latest vhtrxmcs_text ies"
  "latest vhttxmcs_text (ies @ [(221, d)]) = latest vhttxmcs_text ies"
  "latest extcap_text (ies @ [(221, d)]) = latest extcap_text ies"
  "latest txpow_text (ies @ [(221, d)]) = latest txpow_text ies"
  by (simp_all add: latest_snoc field_defs txpow_text_def)

lemma wps_values:
  assumes b: "bufs_ok b ies" and l: "4 \<le> elen" "elen \<le> length ie"
  defines "d \<equiv> take elen ie"
  shows "\<exists>b'. (if d ! 0 = 0 \<and> d ! 1 = 0x50 \<and> d ! 2 = 0xf2 \<and> d ! 3 = 4 then do {
             (n, model_name) \<leftarrow> get_wps_name (replicate (WPS_NAME_LEN + 1) 0) WPS_NAME_LEN (drop 4 ie) (elen - 4);
             (if n \<noteq> 0 then do {
                w \<leftarrow> print_buf (wps b) (lit '',wps:'' @ cstr_of model_name);
                Some (b\<lparr>wps := w\<rparr>)
              } else Some b)
           } else Some b) = Some b' \<and> bufs_ok b' (ies @ [(221, d)])"
proof -
  have dl: "length d = elen" using l by (simp add: d_def)
  have t4: "take 4 d = [d ! 0, d ! 1, d ! 2, d ! 3]"
    using l dl by (simp add: take_Suc_conv_app_nth eval_nat_numeral)
  have others: "bufs_ok b (ies @ [(221, d)]) \<longleftrightarrow> buf_ok 38 (wps b) (latest wps_text (ies @ [(221, d)]))"
    "bufs_ok (b\<lparr>wps := w\<rparr>) (ies @ [(221, d)]) \<longleftrightarrow> buf_ok 38 w (latest wps_text (ies @ [(221, d)]))" for w
    using b by (simp_all add: bufs_ok_def latest_vendor)
  have old: "buf_ok 38 (wps b) (latest wps_text ies)" using b by (simp add: bufs_ok_def)
  show ?thesis
  proof (cases "take 4 d = [0, 0x50, 0xf2, 4]")
    case False
    then have "latest wps_text (ies @ [(221, d)]) = latest wps_text ies" by (simp add: latest_snoc wps_text_def)
    then show ?thesis using False old others(1) by (auto simp: t4)
  next
    case True
    have sub: "take (elen - 4) (drop 4 ie) = drop 4 d" by (simp add: d_def drop_take)
    note g = get_wps_name_ok [of "elen - 4" "drop 4 ie" 32 "replicate 33 0", unfolded sub]
    show ?thesis
    proof (cases "wps_sub (drop 4 d)")
      case None
      then have "latest wps_text (ies @ [(221, d)]) = latest wps_text ies" by (simp add: latest_snoc wps_text_def)
      then show ?thesis using True None old others(1) g l by (simp add: t4 WPS_NAME_LEN_def)
    next
      case (Some v)
      let ?m = "map safe_char (take 32 v)"
      have m: "cstr_of (?m @ replicate (33 - min (length v) 32) 0) = ?m"
      proof -
        obtain k where "33 - min (length v) 32 = Suc k" by (cases "33 - min (length v) 32") auto
        moreover have "nul_free ?m" by (rule sig_nul_free) (simp add: list_all_iff)
        ultimately show ?thesis by (simp add: cstr_of_nul_free)
      qed
      have sw: "length (lit '',wps:'' @ ?m) < 38" "list_all sig_char (lit '',wps:'' @ ?m)"
        using sig_lit(9) by (auto simp: list_all_iff)
      obtain w where w: "print_buf (wps b) (lit '',wps:'' @ ?m) = Some w" "buf_ok 38 w (lit '',wps:'' @ ?m)"
        using print_field [of "wps b" 38, OF _ sw] old by (auto simp: buf_ok_def)
      have lt: "latest wps_text (ies @ [(221, d)]) = (if v = [] then latest wps_text ies else lit '',wps:'' @ ?m)"
        using True Some l dl by (simp add: latest_snoc wps_text_def)
      show ?thesis
        using True Some g l m w lt old others by (cases "v = []") (simp_all add: t4 WPS_NAME_LEN_def)
    qed
  qed
qed

lemma vendor_ie_ok:
  assumes "bufs_ok b ies" "4 \<le> elen" "elen \<le> length ie" "sep = [] \<or> sep = lit '',''"
  shows "\<exists>b'. vendor_ie sep 221 ie elen b = Some (sep @ tag_text (221, take elen ie), b') \<and>
    bufs_ok b' (ies @ [(221, take elen ie)])"
proof -
  define d where "d = take elen ie"
  have g: "arr_get ie 0 = Some (d ! 0)" "arr_get ie (Suc 0) = Some (d ! 1)" "arr_get ie 2 = Some (d ! 2)" "arr_get ie 3 = Some (d ! 3)"
    using assms(2,3) by (auto simp: arr_get_def d_def)
  obtain b' where b': "(if d ! 0 = 0 \<and> d ! 1 = 0x50 \<and> d ! 2 = 0xf2 \<and> d ! 3 = 4 then do {
             (n, model_name) \<leftarrow> get_wps_name (replicate (WPS_NAME_LEN + 1) 0) WPS_NAME_LEN (drop 4 ie) (elen - 4);
             (if n \<noteq> 0 then do {
                w \<leftarrow> print_buf (wps b) (lit '',wps:'' @ cstr_of model_name);
                Some (b\<lparr>wps := w\<rparr>)
              } else Some b)
           } else Some b) = Some b'" "bufs_ok b' (ies @ [(221, d)])"
    using wps_values [OF assms(1-3)] unfolding d_def by blast
  obtain t where t: "print_buf (replicate 32 0) (sep @ tag_text (221, d)) = Some t"
    "cstr_of t = sep @ tag_text (221, d)" using tag_printed [OF assms(4)] by blast
  have "tag_text (221, d) = dec_byte 221 @ lit ''('' @ hex_byte (d ! 0) @ hex_byte (d ! 1) @ hex_byte (d ! 2) @ lit '','' @
      dec_byte (d ! 3) @ lit '')''" using assms(2,3) by (simp add: tag_text_def d_def)
  then have "vendor_ie sep 221 ie elen b = Some (sep @ tag_text (221, d), b')"
    using b'(1) t unfolding vendor_ie_def by (simp only: g One_nat_def bind.bind_lunit prod.case append_assoc)
  then show ?thesis using b'(2) by (simp add: d_def)
qed

section \<open>The loop and the whole signature\<close>

text \<open>The text of the tags after \<open>num\<close> others.\<close>

definition tags_from :: "nat \<Rightarrow> info_elem list \<Rightarrow> cstr" where
  "tags_from num ies = (if num = 0 then tags_text ies else concat (map (\<lambda>e. lit '','' @ tag_text e) ies))"

lemma tags_from_Cons:
  "tags_from num (e # es) = (if num = 0 then [] else lit '','') @ tag_text e @ tags_from (num + 1) es"
  by (simp add: tags_from_def tags_text_def)

lemma tags_from_Nil [simp]: "tags_from num [] = []"
  by (simp add: tags_from_def tags_text_def)

lemma ie_loop_ok:
  "ie_len \<le> length ie \<Longrightarrow> holds N fstr s \<Longrightarrow> flen = N - length (cstr_of fstr) - 1 \<Longrightarrow> bufs_ok b ies \<Longrightarrow>
     \<exists>flen' fstr' b'. ie_loop ie ie_len num flen fstr b = Some (flen', fstr', b') \<and>
       holds N fstr' (s @ tags_from num (parse_ies (take ie_len ie))) \<and> flen' = N - length (cstr_of fstr') - 1 \<and>
       bufs_ok b' (ies @ parse_ies (take ie_len ie))"
proof (induction ie_len arbitrary: ie num flen fstr b s ies rule: less_induct)
  case (less ie_len)
  define D where "D = take ie_len ie"
  define i where "i = ie ! 0"
  define elen where "elen = unat (ie ! Suc 0)"
  show ?case
  proof (cases "ie_len \<ge> 2 \<and> elen \<le> ie_len - 2")
    case False
    have g: "arr_get ie 0 = Some i" "arr_get ie (Suc 0) = Some (ie ! Suc 0)" if "2 \<le> ie_len"
      using that less.prems(1) by (auto simp: arr_get_def i_def)
    have "parse_ies D = []" using False less.prems(1) by (subst parse_ies.simps) (auto simp: D_def elen_def)
    moreover have "ie_loop ie ie_len num flen fstr b = Some (flen, fstr, b)"
      using False g by (subst ie_loop.simps) (auto simp: elen_def Let_def)
    ultimately show ?thesis using less.prems by (simp add: D_def)
  next
    case True
    define ie' where "ie' = drop 2 ie"
    define e where "e = (i, take elen ie')"
    define sep where "sep = (if num = 0 then [] else lit '','')"
    have g: "arr_get ie 0 = Some i" "arr_get ie 1 = Some (ie ! Suc 0)"
      using True less.prems(1) by (auto simp: arr_get_def i_def)
    have l: "elen \<le> length ie'" using True less.prems(1) by (auto simp: ie'_def)
    have sp: "sep = [] \<or> sep = lit '',''" by (simp add: sep_def)
    have p: "parse_ies D = e # parse_ies (take (ie_len - 2 - elen) (drop elen ie'))"
      using True less.prems(1)
      by (subst parse_ies.simps) (auto simp: D_def elen_def e_def i_def ie'_def drop_take min_def)
    obtain b' where b': "(if i = 221 \<and> elen \<ge> 4 then vendor_ie sep i ie' elen b else plain_ie sep i ie' elen b)
        = Some (sep @ tag_text e, b')" "bufs_ok b' (ies @ [e])"
      using vendor_ie_ok [OF less.prems(4) _ l sp] plain_ie_ok [OF less.prems(4) l _ sp, of i]
      by (cases "i = 221 \<and> elen \<ge> 4") (auto simp: e_def)
    have nf: "nul_free (sep @ tag_text e)"
      using sig_tag(1) [of e] sp sig_lit(10) by (intro sig_nul_free) auto
    obtain f' where f': "strncat fstr (sep @ tag_text e) flen = Some f'" "holds N f' (s @ sep @ tag_text e)"
      using strncat_holds [OF less.prems(2) nf] less.prems(3) by blast
    have N: "length f' = N" using f'(2) by (simp add: holds_def)
    have nl: "(ie_len \<ge> 2) = True" "(elen > ie_len - 2) = False" using True by auto
    have step: "ie_loop ie ie_len num flen fstr b =
        ie_loop (drop elen ie') (ie_len - 2 - elen) (num + 1) (N - length (cstr_of f') - 1) f' b'"
      by (subst ie_loop.simps) (simp only: g bind.bind_lunit Let_def elen_def [symmetric] ie'_def [symmetric]
        sep_def [symmetric] b'(1) f'(1) N nl if_True if_False prod.case)
    have "\<exists>flen' fstr' b''. ie_loop (drop elen ie') (ie_len - 2 - elen) (num + 1) (N - length (cstr_of f') - 1) f' b'
          = Some (flen', fstr', b'') \<and>
       holds N fstr' ((s @ sep @ tag_text e) @ tags_from (num + 1) (parse_ies (take (ie_len - 2 - elen) (drop elen ie')))) \<and>
       flen' = N - length (cstr_of fstr') - 1 \<and>
       bufs_ok b'' ((ies @ [e]) @ parse_ies (take (ie_len - 2 - elen) (drop elen ie')))"
      using True less.prems(1) f'(2) b'(2) by (intro less.IH) (auto simp: ie'_def)
    then show ?thesis unfolding step D_def [symmetric] p tags_from_Cons sep_def [symmetric] by simp
  qed
qed

lemma add_field_ok:
  assumes "holds N fstr s" "flen = N - length (cstr_of fstr) - 1"
  shows "\<exists>flen' fstr'. add_field buf (flen, fstr) = Some (flen', fstr') \<and> holds N fstr' (s @ cstr_of buf) \<and>
    flen' = N - length (cstr_of fstr') - 1"
proof (cases "cstr_of buf = []")
  case True
  then show ?thesis using assms by (simp add: add_field_def)
next
  case False
  obtain f' where "strncat fstr (cstr_of buf) flen = Some f'" "holds N f' (s @ cstr_of buf)"
    using strncat_holds [OF assms(1) nul_free_cstr_of] assms(2) by blast
  then show ?thesis using False by (simp add: add_field_def holds_def)
qed

lemma last_nul:
  assumes "holds N f s"
  shows "\<exists>f'. arr_put f (length f - 1) [0] = Some f' \<and> holds N f' s"
proof -
  define c where "c = cstr_of f"
  have l: "length f = N" "0 < N" "length c \<le> N - 1" "c = take (N - 1) s" using assms by (auto simp: holds_def c_def)
  have t: "take (length c) f = c"
    using takeWhile_eq_take [of "\<lambda>b. b \<noteq> 0" f] by (simp add: cstr_of_def c_def)
  have p: "arr_put f (length f - 1) [0] = Some (take (N - 1) f @ [0])" using l by (simp add: arr_put_def)
  have "cstr_of (take (N - 1) f @ [0]) = c"
  proof (cases "length c = N - 1")
    case True
    then show ?thesis using t cstr_of_nul_free [of c "[]"] by (simp add: c_def)
  next
    case False
    then have k: "length c < N - 1" using l by simp
    have "f ! length c = 0"
      using nth_length_takeWhile [of "\<lambda>b. b \<noteq> 0" f] k l(1) by (simp add: c_def cstr_of_def)
    moreover have "N - 1 = length c + Suc (N - 1 - length c - 1)" using k by simp
    then have "take (N - 1) f = take (length c) f @ take (Suc (N - 1 - length c - 1)) (drop (length c) f)"
      by (metis take_add)
    moreover have "drop (length c) f = f ! length c # drop (length c + 1) f"
      using k l(1) by (simp add: Cons_nth_drop_Suc)
    ultimately have "take (N - 1) f = c @ 0 # take (N - 1 - length c - 1) (drop (length c + 1) f)"
      using t by simp
    then show ?thesis by (simp add: c_def cstr_of_nul_free)
  qed
  then show ?thesis using p l by (simp add: holds_def)
qed

lemma ie_to_string_ok:
  assumes "0 < length fstr" "ie_len \<le> length ie"
  shows "\<exists>f. ie_to_string fstr ie ie_len = Some f \<and> length f = length fstr \<and>
    cstr_of f = take (length fstr - 1) (printed_signature (parse_ies (take ie_len ie)))"
proof -
  define N where "N = length fstr"
  let ?ies = "parse_ies (take ie_len ie)"
  define f0 where "f0 = 0 # drop 1 fstr"
  have p0: "arr_put fstr 0 [0] = Some f0" using assms(1) by (cases fstr) (simp_all add: arr_put_def f0_def)
  have h0: "holds N f0 []" using assms(1) by (simp add: holds_def f0_def N_def cstr_of_def)
  have b0: "bufs_ok tax_start []"
    by (simp add: bufs_ok_def tax_start_def buf_ok_def latest_def cstr_of_def MAX_EXTCAP_def WPS_NAME_LEN_def)
  have fl: "length fstr - 1 = N - length (cstr_of f0) - 1" using h0 by (simp add: holds_def N_def)
  obtain n1 f1 b where 1: "ie_loop ie ie_len 0 (length fstr - 1) f0 tax_start = Some (n1, f1, b)"
    "holds N f1 ([] @ tags_from 0 ?ies)" "n1 = N - length (cstr_of f1) - 1" "bufs_ok b ([] @ ?ies)"
    using ie_loop_ok [OF assms(2) h0 fl b0, of 0] by (elim exE conjE)
  obtain n2 f2 where 2: "add_field (htcap b) (n1, f1) = Some (n2, f2)" "holds N f2 (([] @ tags_from 0 ?ies) @ cstr_of (htcap b))" "n2 = N - length (cstr_of f2) - 1"
    using add_field_ok [OF 1(2,3), of "htcap b"] by (elim exE conjE)
  obtain n3 f3 where 3: "add_field (htagg b) (n2, f2) = Some (n3, f3)" "holds N f3 ((([] @ tags_from 0 ?ies) @ cstr_of (htcap b)) @ cstr_of (htagg b))" "n3 = N - length (cstr_of f3) - 1"
    using add_field_ok [OF 2(2,3), of "htagg b"] by (elim exE conjE)
  note 4 = add_field_ok [OF 3(2,3), of "htmcs b"]
  obtain n4 f4 s4 where 4: "add_field (htmcs b) (n3, f3) = Some (n4, f4)" "holds N f4 s4" "n4 = N - length (cstr_of f4) - 1"
    "s4 = tags_from 0 ?ies @ cstr_of (htcap b) @ cstr_of (htagg b) @ cstr_of (htmcs b)"
    using 4 by auto
  obtain n5 f5 where 5: "add_field (vhtcap b) (n4, f4) = Some (n5, f5)" "holds N f5 (s4 @ cstr_of (vhtcap b))" "n5 = N - length (cstr_of f5) - 1"
    using add_field_ok [OF 4(2,3), of "vhtcap b"] by (elim exE conjE)
  obtain n6 f6 where 6: "add_field (vhtrxmcs b) (n5, f5) = Some (n6, f6)" "holds N f6 ((s4 @ cstr_of (vhtcap b)) @ cstr_of (vhtrxmcs b))" "n6 = N - length (cstr_of f6) - 1"
    using add_field_ok [OF 5(2,3), of "vhtrxmcs b"] by (elim exE conjE)
  obtain n7 f7 s7 where 7: "add_field (vhttxmcs b) (n6, f6) = Some (n7, f7)" "holds N f7 s7" "n7 = N - length (cstr_of f7) - 1"
    "s7 = s4 @ cstr_of (vhtcap b) @ cstr_of (vhtrxmcs b) @ cstr_of (vhttxmcs b)"
    using add_field_ok [OF 6(2,3), of "vhttxmcs b"] by auto
  obtain n8 f8 where 8: "add_field (txpow b) (n7, f7) = Some (n8, f8)" "holds N f8 (s7 @ cstr_of (txpow b))" "n8 = N - length (cstr_of f8) - 1"
    using add_field_ok [OF 7(2,3), of "txpow b"] by (elim exE conjE)
  obtain n9 f9 where 9: "add_field (extcap b) (n8, f8) = Some (n9, f9)" "holds N f9 ((s7 @ cstr_of (txpow b)) @ cstr_of (extcap b))" "n9 = N - length (cstr_of f9) - 1"
    using add_field_ok [OF 8(2,3), of "extcap b"] by (elim exE conjE)
  obtain n10 f10 where 10: "add_field (wps b) (n9, f9) = Some (n10, f10)" "holds N f10 (((s7 @ cstr_of (txpow b)) @ cstr_of (extcap b)) @ cstr_of (wps b))"
    using add_field_ok [OF 9(2,3), of "wps b"] by (elim exE conjE)
  obtain f where f: "arr_put f10 (length f10 - 1) [0] = Some f" "holds N f (((s7 @ cstr_of (txpow b)) @ cstr_of (extcap b)) @ cstr_of (wps b))"
    using last_nul [OF 10(2)] by (elim exE conjE)
  have "ie_to_string fstr ie ie_len = Some f"
    using p0 1(1) 2(1) 3(1) 4(1) 5(1) 6(1) 7(1) 8(1) 9(1) 10(1) f(1) by (simp add: ie_to_string_def Let_def)
  moreover have "((s7 @ cstr_of (txpow b)) @ cstr_of (extcap b)) @ cstr_of (wps b) = printed_signature ?ies"
    using 1(4) 4(4) 7(4) by (simp add: printed_signature_def bufs_ok_def buf_ok_def tags_from_def)
  ultimately show ?thesis using f(2) by (simp add: holds_def N_def)
qed

lemma list_all_concat: "list_all P (concat (map f xs)) \<longleftrightarrow> (\<forall>x \<in> set xs. list_all P (f x))"
  by (induction xs) auto

lemma sig_latest: "(\<And>e s. f e = Some s \<Longrightarrow> list_all sig_char s) \<Longrightarrow> list_all sig_char (latest f ies)"
  by (induction ies rule: rev_induct) (auto simp: latest_snoc split: option.split, simp add: latest_def)

lemma sig_signature: "list_all sig_char (printed_signature ies)"
proof -
  have tags: "list_all sig_char (tags_text ies)"
    using sig_tag(1) sig_lit(10) by (auto simp: tags_text_def list_all_iff split: list.split)
  have v: "list_all sig_char (latest (value_text i n nm f) ies)"
    if "list_all sig_char (lit nm)" "\<And>d. list_all sig_char (f d)" for i n nm f
    using that by (intro sig_latest) (auto simp: value_text_def split: if_splits)
  have "list_all sig_char (latest txpow_text ies)"
    using sig_lit by (intro sig_latest) (auto simp: txpow_text_def split: if_splits)
  moreover have "list_all sig_char (latest wps_text ies)"
    using sig_lit by (intro sig_latest) (auto simp: wps_text_def list_all_iff split: if_splits option.splits prod.splits)
  moreover have "list_all sig_char (latest htcap_text ies)" "list_all sig_char (latest htagg_text ies)"
    "list_all sig_char (latest htmcs_printed ies)" "list_all sig_char (latest vhtcap_text ies)"
    "list_all sig_char (latest vhtrxmcs_text ies)" "list_all sig_char (latest vhttxmcs_text ies)"
    unfolding field_defs by (rule v, simp add: sig_lit, simp)+
  moreover have "list_all sig_char (latest extcap_text ies)"
    unfolding field_defs by (rule v, simp add: sig_lit) (simp add: list_all_concat)
  ultimately show ?thesis using tags by (simp add: printed_signature_def)
qed

section \<open>Packets\<close>

text \<open>The parts of a packet: the length of the radio header, the frame control, the elements.\<close>

definition pkt_hdr :: "byte list \<Rightarrow> nat" where
  "pkt_hdr p = le16 (take 2 (drop 2 p))"

definition pkt_fc :: "byte list \<Rightarrow> nat" where
  "pkt_fc p = le16 (take 2 (drop (pkt_hdr p) p))"

definition is_request :: "nat \<Rightarrow> byte list \<Rightarrow> bool" where
  "is_request k p \<longleftrightarrow> (pkt_fc p div 4) mod 4 = 0 \<and> (pkt_fc p div 16) mod 16 = k"

definition pkt_mac :: "byte list \<Rightarrow> cstr" where
  "pkt_mac p = (let sa = take 6 (drop (pkt_hdr p + 10) p)
     in hex_byte (sa ! 0) @ concat (map (\<lambda>b. lit '':'' @ hex_byte b) (drop 1 sa)))"

definition pkt_sig :: "nat \<Rightarrow> byte list \<Rightarrow> cstr" where
  "pkt_sig off p = take 4095 (printed_signature (parse_ies (take (length p - pkt_hdr p - off - 4) (drop (pkt_hdr p + off) p))))"

definition frame_ok :: "byte list \<Rightarrow> bool" where
  "frame_ok p \<longleftrightarrow> 4 \<le> length p \<and> pkt_hdr p + 2 \<le> length p \<and>
     (is_request ASSOC_REQ p \<longrightarrow> pkt_hdr p + 32 \<le> length p) \<and> (is_request PROBE_REQ p \<longrightarrow> pkt_hdr p + 28 \<le> length p)"

lemma size_sub_eq: "int a = int n + b \<Longrightarrow> n < 2 ^ 64 \<Longrightarrow> size_sub a b = n"
  by (simp add: size_sub_def)

definition tax_ok :: "tax_state \<Rightarrow> bool" where
  "tax_ok st \<longleftrightarrow> length (probe_sig st) = 4096 \<and> length (assoc_sig st) = 4096"

lemma pkt_ie_to_string:
  assumes "pkt_hdr p + off + 4 \<le> length p" "length p < 2 ^ 32" "length buf = 4096"
  shows "\<exists>f. ie_to_string buf (drop (pkt_hdr p + off) p) (size_sub (length p) (int off + int (pkt_hdr p) + 4)) = Some f \<and>
    length f = 4096 \<and> cstr_of f = pkt_sig off p"
proof -
  let ?n = "length p - pkt_hdr p - off - 4"
  have "size_sub (length p) (int off + int (pkt_hdr p) + 4) = ?n"
    using assms(1,2) by (intro size_sub_eq) auto
  then show ?thesis
    using ie_to_string_ok [of buf ?n "drop (pkt_hdr p + off) p"] assms by (simp add: pkt_sig_def)
qed

lemma tax_packet_ok:
  assumes "frame_ok p" "length p < 2 ^ 32" "tax_ok st"
  shows "\<exists>st'. tax_packet p st = Some st' \<and> tax_ok st' \<and>
    tax_mac st' = (if is_request PROBE_REQ p then Some (pkt_mac p) else tax_mac st) \<and>
    cstr_of (probe_sig st') = (if is_request PROBE_REQ p then pkt_sig 24 p else cstr_of (probe_sig st)) \<and>
    cstr_of (assoc_sig st') = (if is_request ASSOC_REQ p then pkt_sig 28 p else cstr_of (assoc_sig st))"
proof -
  have f: "arr_slice p 2 2 = Some (take 2 (drop 2 p))" "arr_slice p (pkt_hdr p) 2 = Some (take 2 (drop (pkt_hdr p) p))"
    using assms(1) by (auto simp: frame_ok_def arr_slice_def)
  have ar: "is_request ASSOC_REQ p \<Longrightarrow> \<not> is_request PROBE_REQ p" by (simp add: is_request_def ASSOC_REQ_def PROBE_REQ_def)
  have unf: "tax_packet p st = do {
     st \<leftarrow> (if is_request ASSOC_REQ p then do {
              s \<leftarrow> ie_to_string (assoc_sig st) (drop (pkt_hdr p + 28) p) (size_sub (length p) (28 + int (pkt_hdr p) + 4));
              Some (st\<lparr>assoc_sig := s\<rparr>)
            } else Some st);
     (if is_request PROBE_REQ p then do {
        sa \<leftarrow> arr_slice p (pkt_hdr p + 10) 6;
        let m = hex_byte (sa ! 0) @ concat (map (\<lambda>b. lit '':'' @ hex_byte b) (drop 1 sa));
        s \<leftarrow> ie_to_string (probe_sig st) (drop (pkt_hdr p + 24) p) (size_sub (length p) (24 + int (pkt_hdr p) + 4));
        Some (st\<lparr>tax_mac := Some m, probe_sig := s\<rparr>)
      } else Some st) }"
    unfolding tax_packet_def
    by (simp only: f bind.bind_lunit Let_def pkt_hdr_def [symmetric] pkt_fc_def [symmetric] is_request_def [symmetric])
  consider "is_request ASSOC_REQ p" | "is_request PROBE_REQ p" | "\<not> is_request ASSOC_REQ p" "\<not> is_request PROBE_REQ p"
    by blast
  then show ?thesis
  proof cases
    case 1
    obtain s where "ie_to_string (assoc_sig st) (drop (pkt_hdr p + 28) p) (size_sub (length p) (int 28 + int (pkt_hdr p) + 4)) = Some s"
      "length s = 4096" "cstr_of s = pkt_sig 28 p"
      using pkt_ie_to_string [of p 28 "assoc_sig st"] assms 1 by (auto simp: frame_ok_def tax_ok_def)
    then show ?thesis using 1 ar assms(3) by (simp add: unf tax_ok_def)
  next
    case 2
    have sa: "arr_slice p (pkt_hdr p + 10) 6 = Some (take 6 (drop (pkt_hdr p + 10) p))"
      using 2 assms(1) by (auto simp: frame_ok_def arr_slice_def)
    obtain s where "ie_to_string (probe_sig st) (drop (pkt_hdr p + 24) p) (size_sub (length p) (int 24 + int (pkt_hdr p) + 4)) = Some s"
      "length s = 4096" "cstr_of s = pkt_sig 24 p"
      using pkt_ie_to_string [of p 24 "probe_sig st"] assms 2 by (auto simp: frame_ok_def tax_ok_def)
    then show ?thesis using 2 ar assms(3) sa by (auto simp: unf tax_ok_def pkt_mac_def Let_def)
  next
    case 3
    then show ?thesis using assms(3) by (simp add: unf)
  qed
qed

text \<open>The last packet of a kind decides.\<close>

definition last_of :: "nat \<Rightarrow> (byte list \<Rightarrow> 'a) \<Rightarrow> byte list list \<Rightarrow> 'a \<Rightarrow> 'a" where
  "last_of k f ps d = fold (\<lambda>p acc. if is_request k p then f p else acc) ps d"

lemma last_of_Cons: "last_of k f (p # ps) d = last_of k f ps (if is_request k p then f p else d)"
  by (simp add: last_of_def)

lemma tax_packets_ok:
  "list_all (\<lambda>p. frame_ok p \<and> length p < 2 ^ 32) ps \<Longrightarrow> tax_ok st \<Longrightarrow>
     \<exists>st'. tax_packets ps st = Some st' \<and> tax_mac st' = last_of PROBE_REQ (\<lambda>p. Some (pkt_mac p)) ps (tax_mac st) \<and>
       cstr_of (probe_sig st') = last_of PROBE_REQ (pkt_sig 24) ps (cstr_of (probe_sig st)) \<and>
       cstr_of (assoc_sig st') = last_of ASSOC_REQ (pkt_sig 28) ps (cstr_of (assoc_sig st))"
proof (induction ps arbitrary: st)
  case (Cons p ps)
  obtain s1 where 1: "tax_packet p st = Some s1" "tax_ok s1"
    "tax_mac s1 = (if is_request PROBE_REQ p then Some (pkt_mac p) else tax_mac st)"
    "cstr_of (probe_sig s1) = (if is_request PROBE_REQ p then pkt_sig 24 p else cstr_of (probe_sig st))"
    "cstr_of (assoc_sig s1) = (if is_request ASSOC_REQ p then pkt_sig 28 p else cstr_of (assoc_sig st))"
    using tax_packet_ok [of p st] Cons.prems by auto
  show ?case using Cons.IH [OF _ 1(2)] Cons.prems(1) 1 by (simp add: last_of_Cons)
qed (simp add: last_of_def)

section \<open>Truncated packets\<close>

lemma bind_pair_None: "m \<bind> (\<lambda>(x, y). None) = None"
  by (cases m) auto

lemma ie_loop_overread: "length ie + 300 \<le> ie_len \<Longrightarrow> ie_loop ie ie_len num flen fstr b = None"
proof (induction "length ie" arbitrary: ie ie_len num flen fstr b rule: less_induct)
  case less
  have two: "ie_len \<ge> 2" using less.prems by simp
  show ?case
  proof (cases "length ie < 2")
    case True
    then consider "arr_get ie 0 = None" | x where "arr_get ie 0 = Some x" "arr_get ie 1 = None"
      by (cases ie) (auto simp: arr_get_def)
    then show ?thesis using two
      by cases (subst ie_loop.simps, simp only: if_True Let_def bind.bind_lunit bind.bind_lzero)+
  next
    case False
    define elen where "elen = unat (ie ! 1)"
    have e: "elen < 256" unfolding elen_def using unsigned_less [of "ie ! 1", where 'a = nat] by simp
    have g: "arr_get ie 0 = Some (ie ! 0)" "arr_get ie 1 = Some (ie ! 1)" using False by (auto simp: arr_get_def)
    have nl: "(ie_len \<ge> 2) = True" "(elen > ie_len - 2) = False" using e less.prems by auto
    have rest: "ie_loop (drop elen (drop 2 ie)) (ie_len - 2 - elen) n fl f b' = None" for n fl f b'
    proof (cases "elen \<le> length ie - 2")
      case True
      then show ?thesis using False less.prems by (intro less.hyps) auto
    next
      case long: False
      then have "drop elen (drop 2 ie) = []" by simp
      then show ?thesis using e less.prems by (subst ie_loop.simps) (simp add: arr_get_def)
    qed
    show ?thesis
      by (subst ie_loop.simps) (simp only: g bind.bind_lunit Let_def elen_def [symmetric] nl if_True if_False
        rest bind_pair_None Option.bind_rzero)
  qed
qed

lemma ie_to_string_overread: "length ie + 300 \<le> ie_len \<Longrightarrow> ie_to_string fstr ie ie_len = None"
  by (simp add: ie_to_string_def ie_loop_overread Let_def split: bind_splits)

section \<open>Properties\<close>

text \<open>
  Claim C15. \<open>ie_to_string\<close> stays inside all its buffers, and the text it writes consists of letters,
  digits and the characters \<open>( ) , : _\<close> whatever the client sends, so that it cannot break the line it
  is printed in. If no HT element has a bit above the sixteenth in its MCS set, the text is the
  documented signature of the elements, cut to what fits the buffer: the numbers of the elements in
  order, for vendor elements with their vendor and type, and behind them the capabilities, of several
  elements of a kind those of the last. (With higher bits, \<open>wide_mcs_cut\<close>, the code drops them.)
\<close>

theorem ie_to_string_signature:
  assumes "0 < length fstr" "ie_len \<le> length ie"
  shows "\<exists>f. ie_to_string fstr ie ie_len = Some f \<and> length f = length fstr \<and> list_all sig_char (cstr_of f) \<and>
    (narrow_mcs (parse_ies (take ie_len ie)) \<longrightarrow>
      cstr_of f = take (length fstr - 1) (signature (parse_ies (take ie_len ie))))"
proof -
  have "list_all sig_char (take n (printed_signature ies))" for n ies
    using sig_signature [of ies] by (auto simp: list_all_iff dest: in_set_takeD)
  then show ?thesis using ie_to_string_ok [OF assms] by (auto simp: printed_narrow)
qed

theorem ie_to_string_signature_witness:
  "\<exists>f. ie_to_string (replicate 64 1) [0, 1, 65, 45, 7, 0x6F, 1, 0x17, 0xFF, 0xFE, 0, 0] 12 = Some f \<and>
     cstr_of f = lit ''0,45,htcap:016f,htagg:17,htmcs:0000feff''"
proof -
  let ?es = "[(0, [65]), (45, [0x6F, 1, 0x17, 0xFF, 0xFE, 0, 0])] :: info_elem list"
  have p: "parse_ies [0, 1, 65, 45, 7, 0x6F, 1, 0x17, 0xFF, 0xFE, 0, 0] = ?es" by (simp add: parse_ies.simps)
  have n: "narrow_mcs ?es" by (simp add: narrow_mcs_def)
  have num: "(4 :: nat) = Suc (Suc (Suc (Suc 0)))" "(8 :: nat) = Suc (Suc (Suc (Suc (Suc (Suc (Suc (Suc 0)))))))" by simp_all
  have h: "hex_fixed 4 367 = lit ''016f''" "hex_fixed 8 65279 = lit ''0000feff''"
    unfolding num hex_fixed.simps by (simp_all add: hex_digit_def lit_def)
  have tg: "tags_text ?es = lit ''0,45''"
    by (simp add: tags_text_def tag_text_def dec_byte_def dec_nat.simps lit_def)
  have c: "latest htcap_text ?es = lit '',htcap:016f''"
    by (simp add: latest_def htcap_text_def value_text_def le16_def h) (simp add: lit_def)
  have a: "latest htagg_text ?es = lit '',htagg:17''"
    by (simp add: latest_def htagg_text_def value_text_def hex_byte_digits hex_digit_def lit_def)
  have m: "latest htmcs_text ?es = lit '',htmcs:0000feff''"
    by (simp add: latest_def htmcs_text_def value_text_def le32_def unat_le_word h) (simp add: lit_def)
  have o: "latest vhtcap_text ?es = []"
    "latest vhtrxmcs_text ?es = []" "latest vhttxmcs_text ?es = []" "latest extcap_text ?es = []"
    "latest txpow_text ?es = []" "latest wps_text ?es = []"
    by (simp_all add: latest_def field_defs value_text_def txpow_text_def wps_text_def)
  have "signature ?es = lit ''0,45,htcap:016f,htagg:17,htmcs:0000feff''"
    unfolding signature_def tg c a m o by (simp add: lit_def)
  then show ?thesis
    using ie_to_string_signature [of "replicate 64 1" 12 "[0, 1, 65, 45, 7, 0x6F, 1, 0x17, 0xFF, 0xFE, 0, 0]"] p n
    by (auto simp: lit_def)
qed

text \<open>
  The code drops the upper half of an MCS set: of two clients that differ only there (here one with
  three spatial streams, \<open>00ffffff\<close>, and one with two) it prints the same signature.
\<close>

lemma wide_mcs_cut:
  fixes e
  defines "e m \<equiv> [(45, [0, 0, 0, 0xFF, 0xFF, m, 0])] :: info_elem list"
  shows "printed_signature (e m) = printed_signature (e n)"
    and "latest htmcs_text (e 0xFF) = lit '',htmcs:00ffffff''" "latest htmcs_text (e 0) = lit '',htmcs:0000ffff''"
proof -
  have l: "le32 [0xFF, 0xFF, m, 0] = 65535 + 65536 * unat m" for m by (simp add: le32_def unat_le_word)
  have "(65535 + 65536 * k) mod 65536 = (65535 :: nat)" for k by simp
  then show "printed_signature (e m) = printed_signature (e n)"
    by (simp add: e_def printed_signature_def tags_text_def tag_text_def latest_def field_defs value_text_def
        txpow_text_def wps_text_def l le16_def)
  have eight: "(8 :: nat) = Suc (Suc (Suc (Suc (Suc (Suc (Suc (Suc 0)))))))" by simp
  have "hex_fixed 8 16777215 = lit ''00ffffff''" "hex_fixed 8 65535 = lit ''0000ffff''"
    unfolding eight hex_fixed.simps by (simp_all add: hex_digit_def lit_def)
  then show "latest htmcs_text (e 0xFF) = lit '',htmcs:00ffffff''" "latest htmcs_text (e 0) = lit '',htmcs:0000ffff''"
    by (simp_all add: e_def latest_def htmcs_text_def value_text_def l lit_def)
qed

lemma pkt_mac_nonempty: "pkt_mac p \<noteq> []"
  using length_hex_byte by (auto simp: pkt_mac_def Let_def simp del: length_hex_byte dest: arg_cong [where f = length])

lemma last_of_mac: "last_of k (\<lambda>p. Some (pkt_mac p)) ps d = Some m \<Longrightarrow> d \<noteq> Some [] \<Longrightarrow> m \<noteq> []"
proof (induction ps arbitrary: d)
  case (Cons p ps)
  then show ?case using pkt_mac_nonempty [of p] by (auto simp: last_of_Cons split: if_splits)
qed (auto simp: last_of_def)

lemma tax_line:
  assumes "capture f = Some ps" "list_all (\<lambda>p. frame_ok p \<and> length p < 2 ^ 32) ps"
    and "last_of PROBE_REQ (\<lambda>p. Some (pkt_mac p)) ps None = Some m"
    and "P = last_of PROBE_REQ (pkt_sig 24) ps []" "A = last_of ASSOC_REQ (pkt_sig 28) ps []"
  shows "tax_main capture [lit ''-f'', f] =
    Some (if P \<noteq> [] \<and> A \<noteq> [] then 0 else 1, m @ lit '' wifi4|probe:'' @ P @ lit ''|assoc:'' @ A @ [10])"
proof -
  let ?s = "\<lparr>tax_mac = None, probe_sig = replicate 4096 0, assoc_sig = replicate 4096 0\<rparr>"
  have fn: "tax_filename [lit ''-f'', f] = Some (Some f)"
    by (simp add: tax_filename_def find_short_def lit_def Let_def)
  have e: "cstr_of (replicate 4096 0) = []" by (simp add: cstr_of_def eval_nat_numeral)
  obtain st where st: "tax_packets ps ?s = Some st" "tax_mac st = Some m" "cstr_of (probe_sig st) = P" "cstr_of (assoc_sig st) = A"
    using tax_packets_ok [OF assms(2), of ?s] assms(3-5) e by (auto simp: tax_ok_def)
  have "m \<noteq> []" using last_of_mac [OF assms(3)] by simp
  then show ?thesis using fn st assms(1) by (simp add: tax_main_def)
qed

text \<open>The signature of a request as documented, and the requests on which the code prints it.\<close>

definition pkt_ies :: "nat \<Rightarrow> byte list \<Rightarrow> info_elem list" where
  "pkt_ies off p = parse_ies (take (length p - pkt_hdr p - off - 4) (drop (pkt_hdr p + off) p))"

definition narrow_frame :: "byte list \<Rightarrow> bool" where
  "narrow_frame p \<longleftrightarrow> (is_request PROBE_REQ p \<longrightarrow> narrow_mcs (pkt_ies 24 p)) \<and>
     (is_request ASSOC_REQ p \<longrightarrow> narrow_mcs (pkt_ies 28 p))"

lemma last_of_cong: "list_all (\<lambda>p. is_request k p \<longrightarrow> f p = g p) ps \<Longrightarrow> last_of k f ps d = last_of k g ps d"
  by (induction ps arbitrary: d) (auto simp: last_of_Cons, simp add: last_of_def)

lemma pkt_sig_narrow:
  "narrow_frame p \<Longrightarrow> is_request PROBE_REQ p \<Longrightarrow> pkt_sig 24 p = take 4095 (signature (pkt_ies 24 p))"
  "narrow_frame p \<Longrightarrow> is_request ASSOC_REQ p \<Longrightarrow> pkt_sig 28 p = take 4095 (signature (pkt_ies 28 p))"
  by (simp_all add: narrow_frame_def pkt_sig_def pkt_ies_def printed_narrow)

text \<open>
  Claim C35. For a capture with a probe request, in which every packet is as long as its headers
  need and no HT element of a request has a bit above the sixteenth in its MCS set, the program
  prints the address that sent the last probe request and the documented signatures (cut to 4095
  characters) of the last probe request and of the last association request, empty if there is
  none, and it exits with 0 if neither signature is empty and with 1 otherwise.
\<close>

theorem tax_main_line:
  assumes "capture f = Some ps" "list_all (\<lambda>p. frame_ok p \<and> length p < 2 ^ 32 \<and> narrow_frame p) ps"
    and "last_of PROBE_REQ (\<lambda>p. Some (pkt_mac p)) ps None = Some m"
    and "P = last_of PROBE_REQ (\<lambda>p. take 4095 (signature (pkt_ies 24 p))) ps []"
    and "A = last_of ASSOC_REQ (\<lambda>p. take 4095 (signature (pkt_ies 28 p))) ps []"
  shows "tax_main capture [lit ''-f'', f] =
    Some (if P \<noteq> [] \<and> A \<noteq> [] then 0 else 1, m @ lit '' wifi4|probe:'' @ P @ lit ''|assoc:'' @ A @ [10])"
proof -
  have "list_all (\<lambda>p. frame_ok p \<and> length p < 2 ^ 32) ps" using assms(2) by (auto simp: list_all_iff)
  moreover have "P = last_of PROBE_REQ (pkt_sig 24) ps []" "A = last_of ASSOC_REQ (pkt_sig 28) ps []"
    unfolding assms(4,5) using assms(2) pkt_sig_narrow by (auto intro!: last_of_cong simp: list_all_iff)
  ultimately show ?thesis by (rule tax_line [of capture f ps m P A, OF assms(1) _ assms(3)])
qed

theorem tax_main_line_witness:
  "\<exists>p. frame_ok p \<and> tax_main (\<lambda>_. Some [p]) [lit ''-f'', lit ''x''] =
     Some (1, lit ''01:02:03:04:05:06 wifi4|probe:0|assoc:'' @ [10])"
proof -
  let ?p = "[0, 0, 4, 0, 0x40, 0, 0, 0, 9, 9, 9, 9, 9, 9, 1, 2, 3, 4, 5, 6, 9, 9, 9, 9, 9, 9, 0, 0, 0, 1, 65, 0, 0, 0, 0] :: byte list"
  have r: "pkt_hdr ?p = 4" "pkt_fc ?p = 64" by (simp_all add: pkt_hdr_def pkt_fc_def le16_def)
  have q: "is_request PROBE_REQ ?p" "\<not> is_request ASSOC_REQ ?p" "frame_ok ?p"
    by (simp_all add: is_request_def frame_ok_def PROBE_REQ_def ASSOC_REQ_def r)
  have m: "pkt_mac ?p = lit ''01:02:03:04:05:06''"
    unfolding pkt_mac_def r by (simp add: hex_byte_digits hex_digit_def lit_def Let_def)
  let ?es = "[(0, [65])] :: info_elem list"
  have "parse_ies [0, 1, 65] = ?es" by (simp add: parse_ies.simps)
  moreover have "signature ?es = lit ''0''"
    by (simp add: signature_def htmcs_text_def tags_text_def tag_text_def dec_byte_def dec_nat.simps lit_def latest_def field_defs
        value_text_def txpow_text_def wps_text_def)
  ultimately have s: "pkt_ies 24 ?p = ?es" "signature (pkt_ies 24 ?p) = lit ''0''" unfolding pkt_ies_def r by (simp_all add: lit_def)
  then have n: "narrow_frame ?p" using q by (simp add: narrow_frame_def narrow_mcs_def)
  have l: "last_of PROBE_REQ (\<lambda>p. Some (pkt_mac p)) [?p] None = Some (lit ''01:02:03:04:05:06'')"
    "lit ''0'' = last_of PROBE_REQ (\<lambda>p. take 4095 (signature (pkt_ies 24 p))) [?p] []"
    "[] = last_of ASSOC_REQ (\<lambda>p. take 4095 (signature (pkt_ies 28 p))) [?p] []"
    using q m s(2) by (simp_all add: last_of_def lit_def)
  have "tax_main (\<lambda>_. Some [?p]) [lit ''-f'', lit ''x''] =
      Some (1, lit ''01:02:03:04:05:06'' @ lit '' wifi4|probe:'' @ lit ''0'' @ lit ''|assoc:'' @ [] @ [10])"
    using tax_main_line [where capture = "\<lambda>_. Some [?p]" and ps = "[?p]" and f = "lit ''x''", OF refl _ l] q(3) n
    by (simp add: lit_def)
  then show ?thesis using q(3) by (intro exI [of _ ?p]) (simp add: lit_def)
qed

text \<open>
  A probe request whose fixed part was captured is handled without reading outside the
  packet if and only if the capture holds four more bytes, the checksum that the program
  subtracts: with fewer, the length of the elements wraps around to nearly \<open>2 ^ 64\<close> and the loop runs
  off the end of the packet.
\<close>

lemma probe_request_safe_iff:
  assumes "is_request PROBE_REQ p" "pkt_hdr p + 24 \<le> length p" "4 \<le> length p" "length p < 2 ^ 32" "tax_ok st"
  shows "tax_packet p st \<noteq> None \<longleftrightarrow> pkt_hdr p + 28 \<le> length p"
proof (cases "pkt_hdr p + 28 \<le> length p")
  case True
  moreover have "\<not> is_request ASSOC_REQ p" using assms(1) by (simp add: is_request_def ASSOC_REQ_def PROBE_REQ_def)
  ultimately have "frame_ok p" using assms(1,3) by (simp add: frame_ok_def)
  then show ?thesis using tax_packet_ok [OF _ assms(4,5)] True by auto
next
  case False
  have f: "arr_slice p 2 2 = Some (take 2 (drop 2 p))" "arr_slice p (pkt_hdr p) 2 = Some (take 2 (drop (pkt_hdr p) p))"
    using assms(2,3) by (auto simp: arr_slice_def)
  define k where "k = pkt_hdr p + 28 - length p"
  have k: "0 < k" "k \<le> 4" "length p + k = pkt_hdr p + 28" using False assms(2) by (auto simp: k_def)
  have "int (length p) - (24 + int (pkt_hdr p) + 4) = - int k" using k by simp
  then have "size_sub (length p) (24 + int (pkt_hdr p) + 4) = nat ((- int k) mod 2 ^ 64)" by (simp add: size_sub_def)
  also have "(- int k) mod 2 ^ 64 = 2 ^ 64 - int k" using k by (simp add: zmod_zminus1_eq_if)
  finally have "length (drop (pkt_hdr p + 24) p) + 300 \<le> size_sub (length p) (24 + int (pkt_hdr p) + 4)"
    using k assms(4) by simp
  then have "ie_to_string buf (drop (pkt_hdr p + 24) p) (size_sub (length p) (24 + int (pkt_hdr p) + 4)) = None" for buf
    by (rule ie_to_string_overread)
  then have "tax_packet p st = None"
    using assms(1) unfolding tax_packet_def
    by (simp only: f bind.bind_lunit Let_def pkt_hdr_def [symmetric] pkt_fc_def [symmetric] is_request_def [symmetric]
        if_True bind.bind_lzero Option.bind_rzero)
  then show ?thesis using False by simp
qed

end
