(* ===== verification/Anon_Pcap.thy ===== *)
theory Anon_Pcap
  imports Tax_Signature
begin

text \<open>
  Captures without names: \<^verbatim>\<open>src/taxonomy/anonymize_pcap.c\<close>. Captures of Wi-Fi management frames are collected
  as examples for the signatures of \<open>Tax_Signature\<close>; this program takes the network names and the
  individual halves of the addresses out of a capture before it is published.

  As in \<open>Tax_Signature\<close>, a packet is the block of its captured bytes and \<open>None\<close> an access outside it. Reading
  and writing the capture format is libpcap's: \<open>parse\<close> gives the packets of a file, \<open>dump\<close> the file of a list of
  packets. Limiting the process (\<open>setrlimit\<close>, \<open>prctl\<close>) has no effect on the result and is left out.
\<close>

section \<open>The program\<close>

definition PROBE_RESP :: nat where "PROBE_RESP = 5"
definition BEACON :: nat where "BEACON = 8"

definition is_broadcast_mac :: "byte list \<Rightarrow> bool" where
  "is_broadcast_mac mac \<longleftrightarrow> mac = replicate 6 0xff"

text \<open>\<open>ie\<close> is the position \<open>p\<close> in the packet.\<close>

function rewrite_ssid :: "byte list \<Rightarrow> nat \<Rightarrow> nat \<Rightarrow> byte list option" where
  "rewrite_ssid pkt p ie_len =
     (if ie_len \<ge> 2 then do {
        idb \<leftarrow> arr_get pkt p;
        l \<leftarrow> arr_get pkt (p + 1);
        (if unat l > ie_len - 2 then Some pkt
         else do {
           pkt \<leftarrow> (if idb = 0 \<and> unat l > 0 then arr_put pkt (p + 2) (replicate (unat l) 88) else Some pkt);
           rewrite_ssid pkt (p + 2 + unat l) (ie_len - 2 - unat l)
         })
      } else Some pkt)"
  by pat_completeness auto
termination
  by (relation "measure (\<lambda>(_, _, ie_len). ie_len)") auto

declare rewrite_ssid.simps [simp del]

text \<open>The last three bytes of the address at \<open>p\<close>.\<close>

definition zero_nic :: "byte list \<Rightarrow> nat \<Rightarrow> byte list option" where
  "zero_nic pkt p = arr_put pkt (p + 3) [0, 0, 0]"

definition zero_unless_broadcast :: "byte list \<Rightarrow> nat \<Rightarrow> byte list option" where
  "zero_unless_broadcast pkt p = do {
     mac \<leftarrow> arr_slice pkt p 6;
     (if is_broadcast_mac mac then Some pkt else zero_nic pkt p) }"

definition anon_elements :: "nat \<Rightarrow> nat \<Rightarrow> byte list \<Rightarrow> byte list option" where
  "anon_elements it_len off pkt =
     rewrite_ssid pkt (it_len + off) (size_sub (length pkt) (int off + int it_len + 4))"

definition anon_packet :: "byte list \<Rightarrow> byte list option" where
  "anon_packet pkt = do {
     l \<leftarrow> arr_slice pkt 2 2;
     let it_len = le16 l;
     f \<leftarrow> arr_slice pkt it_len 2;
     let fc = le16 f;
     let ftype = (fc div 4) mod 4;
     let subtype = (fc div 16) mod 16;
     pkt \<leftarrow> (if ftype = 0 \<and> subtype = ASSOC_REQ then anon_elements it_len 28 pkt else Some pkt);
     pkt \<leftarrow> (if ftype = 0 \<and> subtype = PROBE_REQ then anon_elements it_len 24 pkt else Some pkt);
     pkt \<leftarrow> (if ftype = 0 \<and> subtype = PROBE_RESP then anon_elements it_len 36 pkt else Some pkt);
     pkt \<leftarrow> (if ftype = 0 \<and> subtype = BEACON then anon_elements it_len 36 pkt else Some pkt);
     pkt \<leftarrow> zero_nic pkt (it_len + 10);
     pkt \<leftarrow> zero_unless_broadcast pkt (it_len + 4);
     zero_unless_broadcast pkt (it_len + 16) }"

fun anon_packets :: "byte list list \<Rightarrow> byte list list option" where
  "anon_packets [] = Some []"
| "anon_packets (p # ps) = do { q \<leftarrow> anon_packet p; qs \<leftarrow> anon_packets ps; Some (q # qs) }"

text \<open>
  The files: what each name holds. \<open>can_create\<close> says whether the output can be opened, \<open>room\<close> how many bytes the disk takes,
  \<open>can_rename\<close> whether the rename succeeds.
\<close>

record anon_disk =
  disk_files :: "cstr \<Rightarrow> byte list option"
  can_create :: bool
  room :: nat
  can_rename :: bool

definition PATH_MAX :: nat where "PATH_MAX = 4096"

definition anon_outfile :: "cstr \<Rightarrow> cstr" where
  "anon_outfile filename = take (PATH_MAX - 1) (filename @ lit ''.anon'')"

definition anon_main ::
    "(byte list \<Rightarrow> byte list list option) \<Rightarrow> (byte list list \<Rightarrow> byte list) \<Rightarrow> cstr list \<Rightarrow> anon_disk \<Rightarrow>
       (int \<times> anon_disk) option" where
  "anon_main parse dump args d =
     (case tax_filename args of
        None \<Rightarrow> Some (1, d)
      | Some None \<Rightarrow> Some (1, d)
      | Some (Some filename) \<Rightarrow>
         (case disk_files d filename of
            None \<Rightarrow> Some (1, d)
          | Some inp \<Rightarrow>
             if \<not> can_create d then Some (1, d)
             else (let outfile = anon_outfile filename;
                       d = d\<lparr>disk_files := (disk_files d)(outfile \<mapsto> [])\<rparr>
                   in case parse inp of
                        None \<Rightarrow> Some (1, d)
                      | Some pkts \<Rightarrow> do {
                          qs \<leftarrow> anon_packets pkts;
                          let outp = take (room d) (dump qs);
                          let d = d\<lparr>disk_files := (disk_files d)(outfile \<mapsto> outp)\<rparr>;
                          (if length inp \<noteq> length outp then Some (1, d)
                           else if \<not> can_rename d then Some (1, d)
                           else Some (0, d\<lparr>disk_files := (disk_files d)(filename \<mapsto> outp, outfile := None)\<rparr>)) })))"

section \<open>The specification\<close>

definition mask_ssid :: "info_elem \<Rightarrow> info_elem" where
  "mask_ssid e = (if fst e = 0 then (0, replicate (length (snd e)) 88) else e)"

definition ie_bytes :: "info_elem list \<Rightarrow> byte list" where
  "ie_bytes es = concat (map (\<lambda>e. fst e # word_of_nat (length (snd e)) # snd e) es)"

text \<open>The elements with the names overwritten, and what is left of the body behind the last whole element.\<close>

definition mask_body :: "byte list \<Rightarrow> byte list" where
  "mask_body d = ie_bytes (map mask_ssid (parse_ies d)) @ drop (length (ie_bytes (parse_ies d))) d"

definition hide_nic :: "byte list \<Rightarrow> byte list" where
  "hide_nic mac = take 3 mac @ [0, 0, 0]"

definition hide_unicast :: "byte list \<Rightarrow> byte list" where
  "hide_unicast mac = (if is_broadcast_mac mac then mac else hide_nic mac)"

text \<open>Where the elements of a frame begin.\<close>

definition ie_offset :: "byte list \<Rightarrow> nat option" where
  "ie_offset p =
     (if is_request ASSOC_REQ p then Some 28 else if is_request PROBE_REQ p then Some 24
      else if is_request PROBE_RESP p \<or> is_request BEACON p then Some 36 else None)"

definition anon_rest :: "byte list \<Rightarrow> byte list" where
  "anon_rest p =
     (case ie_offset p of
        None \<Rightarrow> drop (pkt_hdr p + 22) p
      | Some off \<Rightarrow> take (off - 22) (drop (pkt_hdr p + 22) p) @
          mask_body (take (length p - pkt_hdr p - off - 4) (drop (pkt_hdr p + off) p)) @ drop (length p - 4) p)"

definition anon_spec :: "byte list \<Rightarrow> byte list" where
  "anon_spec p =
     (let h = pkt_hdr p
      in take (h + 4) p @ hide_unicast (take 6 (drop (h + 4) p)) @ hide_nic (take 6 (drop (h + 10) p)) @
         hide_unicast (take 6 (drop (h + 16) p)) @ anon_rest p)"

definition anon_frame_ok :: "byte list \<Rightarrow> bool" where
  "anon_frame_ok p \<longleftrightarrow> 4 \<le> length p \<and> pkt_hdr p + 22 \<le> length p \<and> length p < 2 ^ 32 \<and>
     (case ie_offset p of None \<Rightarrow> True | Some off \<Rightarrow> pkt_hdr p + off + 4 \<le> length p)"

section \<open>Elements\<close>

lemma mask_body_short: "length d < 2 \<or> length d - 2 < unat (d ! 1) \<Longrightarrow> mask_body d = d"
  by (subst (1) mask_body_def, subst parse_ies.simps, subst (2) parse_ies.simps) (auto simp: ie_bytes_def)

lemma mask_body_Cons:
  "unat l = length v \<Longrightarrow> mask_body (i # l # v @ r) = i # l # (if i = 0 then replicate (length v) 88 else v) @ mask_body r"
proof -
  assume l: "unat l = length v"
  have "word_of_nat (length v) = l" using l by (metis word_of_nat_eq_iff unsigned_of_nat word_unat_eq_iff of_nat_unat ucast_id)
  moreover have "parse_ies (i # l # v @ r) = (i, v) # parse_ies r"
    using l by (subst parse_ies.simps) simp
  ultimately show ?thesis
    by (simp add: mask_body_def ie_bytes_def mask_ssid_def)
qed

lemma body_split:
  assumes "2 \<le> length d" "unat (d ! 1) \<le> length d - 2"
  obtains i l v r where "d = i # l # v @ r" "unat l = length v"
proof -
  obtain i l t where d: "d = i # l # t" using assms(1) by (metis Suc_le_length_iff numeral_2_eq_2)
  then have "d = i # l # take (unat l) t @ drop (unat l) t" "unat l = length (take (unat l) t)"
    using assms(2) by simp_all
  then show thesis by (rule that)
qed

lemma rewrite_ssid_step:
  assumes "unat l = length v"
  shows "rewrite_ssid (pre @ (i # l # v @ r) @ post) (length pre) (length (i # l # v @ r)) =
    rewrite_ssid ((pre @ i # l # (if i = 0 then replicate (length v) 88 else v)) @ r @ post) (length pre + 2 + length v) (length r)"
proof -
  have "arr_get (pre @ (i # l # v @ r) @ post) (length pre) = Some i"
    "arr_get (pre @ (i # l # v @ r) @ post) (length pre + 1) = Some l"
    by (simp_all add: arr_get_def nth_append)
  moreover have "arr_put (pre @ (i # l # v @ r) @ post) (length pre + 2) (replicate (length v) 88) =
      Some ((pre @ i # l # replicate (length v) 88) @ r @ post)"
    by (simp add: arr_put_def)
  moreover have "v = []" if "length v = 0" using that by simp
  ultimately show ?thesis
    by (subst rewrite_ssid.simps) (auto simp: assms)
qed

lemma rewrite_ssid_eq:
  "rewrite_ssid (pre @ d @ post) (length pre) (length d) = Some (pre @ mask_body d @ post)"
proof (induction "length d" arbitrary: pre d rule: less_induct)
  case less
  consider "\<not> 2 \<le> length d" | "2 \<le> length d" "\<not> unat (d ! 1) \<le> length d - 2"
    | "2 \<le> length d" "unat (d ! 1) \<le> length d - 2" by blast
  then show ?case
  proof cases
    case 1
    then show ?thesis by (subst rewrite_ssid.simps) (simp add: mask_body_short)
  next
    case 2
    then have "arr_get (pre @ d @ post) (length pre) = Some (d ! 0)" "arr_get (pre @ d @ post) (length pre + 1) = Some (d ! 1)"
      by (auto simp: arr_get_def nth_append)
    then show ?thesis using 2 by (subst rewrite_ssid.simps) (simp add: mask_body_short)
  next
    case 3
    then obtain i l v r where d: "d = i # l # v @ r" and l: "unat l = length v" by (rule body_split)
    let ?v = "if i = 0 then replicate (length v) 88 else v"
    have "rewrite_ssid ((pre @ i # l # ?v) @ r @ post) (length (pre @ i # l # ?v)) (length r) =
        Some ((pre @ i # l # ?v) @ mask_body r @ post)"
      by (rule less.hyps) (simp add: d)
    then show ?thesis
      unfolding d rewrite_ssid_step [OF l] mask_body_Cons [OF l] by (cases "i = 0") simp_all
  qed
qed

lemma length_mask_body [simp]: "length (mask_body d) = length d"
proof (induction "length d" arbitrary: d rule: less_induct)
  case less
  show ?case
  proof (cases "2 \<le> length d \<and> unat (d ! 1) \<le> length d - 2")
    case True
    then obtain i l v r where d: "d = i # l # v @ r" and l: "unat l = length v" by (meson body_split)
    then show ?thesis using less [of r] by (simp add: mask_body_Cons [OF l])
  qed (auto simp: mask_body_short)
qed

lemma parse_mask_body: "parse_ies (mask_body d) = map mask_ssid (parse_ies d)"
proof (induction "length d" arbitrary: d rule: less_induct)
  case less
  show ?case
  proof (cases "2 \<le> length d \<and> unat (d ! 1) \<le> length d - 2")
    case True
    then obtain i l v r where d: "d = i # l # v @ r" and l: "unat l = length v" by (meson body_split)
    have p: "parse_ies (i # l # w @ x) = (i, w) # parse_ies x" if "unat l = length w" for w x
      using that by (subst parse_ies.simps) simp
    have "parse_ies (mask_body r) = map mask_ssid (parse_ies r)" by (rule less) (simp add: d)
    then show ?thesis
      using l by (simp add: d mask_body_Cons [OF l] p mask_ssid_def)
  next
    case False
    then have "parse_ies d = []" by (subst parse_ies.simps) (simp only: if_False)
    moreover have "mask_body d = d" using False by (intro mask_body_short) auto
    ultimately show ?thesis by simp
  qed
qed

text \<open>Names are no part of a signature.\<close>

lemma signature_mask: "printed_signature (map mask_ssid es) = printed_signature es"
proof -
  have "latest f (map mask_ssid es) = latest f es" if "\<And>e. f (mask_ssid e) = f e" for f
    using that by (simp add: latest_def fold_map comp_def)
  moreover have "tag_text (mask_ssid e) = tag_text e" for e
    by (cases e) (simp add: tag_text_def mask_ssid_def)
  then have "tags_text (map mask_ssid es) = tags_text es"
    by (cases es) (simp_all add: tags_text_def comp_def)
  ultimately show ?thesis
    by (simp add: printed_signature_def htcap_text_def htagg_text_def htmcs_printed_def vhtcap_text_def vhtrxmcs_text_def
        vhttxmcs_text_def extcap_text_def value_text_def txpow_text_def wps_text_def mask_ssid_def split: prod.splits)
qed

section \<open>Packets\<close>

lemma zero_nic_eq: "length a = p \<Longrightarrow> length m = 6 \<Longrightarrow> zero_nic (a @ m @ r) p = Some (a @ hide_nic m @ r)"
  by (simp add: zero_nic_def arr_put_def hide_nic_def)

lemma zero_unless_eq:
  "length a = p \<Longrightarrow> length m = 6 \<Longrightarrow> zero_unless_broadcast (a @ m @ r) p = Some (a @ hide_unicast m @ r)"
  by (simp add: zero_unless_broadcast_def arr_slice_def hide_unicast_def zero_nic_eq)

lemma length_hide [simp]: "length m = 6 \<Longrightarrow> length (hide_nic m) = 6" "length m = 6 \<Longrightarrow> length (hide_unicast m) = 6"
  by (simp_all add: hide_nic_def hide_unicast_def)

lemma addresses_eq:
  assumes "length a = h + 4" "length da = 6" "length sa = 6" "length bs = 6"
  shows "do {
     pkt \<leftarrow> zero_nic (a @ da @ sa @ bs @ r) (h + 10);
     pkt \<leftarrow> zero_unless_broadcast pkt (h + 4);
     zero_unless_broadcast pkt (h + 16) } = Some (a @ hide_unicast da @ hide_nic sa @ hide_unicast bs @ r)"
proof -
  have "zero_nic ((a @ da) @ sa @ (bs @ r)) (h + 10) = Some ((a @ da) @ hide_nic sa @ (bs @ r))"
    by (rule zero_nic_eq) (simp_all add: assms)
  moreover have "zero_unless_broadcast (a @ da @ (hide_nic sa @ bs @ r)) (h + 4) =
      Some (a @ hide_unicast da @ (hide_nic sa @ bs @ r))"
    by (rule zero_unless_eq) (simp_all add: assms)
  moreover have "zero_unless_broadcast ((a @ hide_unicast da @ hide_nic sa) @ bs @ r) (h + 16) =
      Some ((a @ hide_unicast da @ hide_nic sa) @ hide_unicast bs @ r)"
    by (rule zero_unless_eq) (simp_all add: assms)
  ultimately show ?thesis by simp
qed

lemma split_at: "a \<le> b \<Longrightarrow> b \<le> length p \<Longrightarrow> p = take a p @ take (b - a) (drop a p) @ drop b p"
  by (metis append_take_drop_id drop_drop le_add_diff_inverse2)

lemma anon_elements_eq:
  assumes "h + off + 4 \<le> length p" "length p < 2 ^ 32"
  shows "anon_elements h off p =
    Some (take (h + off) p @ mask_body (take (length p - h - off - 4) (drop (h + off) p)) @ drop (length p - 4) p)"
proof -
  let ?n = "length p - h - off - 4"
  have n: "size_sub (length p) (int off + int h + 4) = ?n"
    using assms by (intro size_sub_eq) auto
  have "p = take (h + off) p @ take ?n (drop (h + off) p) @ drop (length p - 4) p"
    using split_at [of "h + off" "length p - 4" p] assms by (simp add: ac_simps)
  then have "anon_elements h off p = rewrite_ssid (take (h + off) p @ take ?n (drop (h + off) p) @ drop (length p - 4) p)
      (length (take (h + off) p)) (length (take ?n (drop (h + off) p)))"
    unfolding anon_elements_def n using assms by simp
  then show ?thesis unfolding rewrite_ssid_eq .
qed

lemma ie_offset_ge: "ie_offset p = Some off \<Longrightarrow> 24 \<le> off"
  by (auto simp: ie_offset_def split: if_splits)

lemma anon_rest_eq:
  assumes "anon_frame_ok p"
  shows "(case ie_offset p of None \<Rightarrow> Some p | Some off \<Rightarrow> anon_elements (pkt_hdr p) off p) =
    Some (take (pkt_hdr p + 22) p @ anon_rest p)"
proof (cases "ie_offset p")
  case (Some off)
  have "24 \<le> off" by (rule ie_offset_ge [OF Some])
  then have "take (pkt_hdr p + off) p = take (pkt_hdr p + 22) p @ take (off - 22) (drop (pkt_hdr p + 22) p)"
    by (simp flip: take_add)
  then show ?thesis
    using anon_elements_eq [of "pkt_hdr p" off p] assms Some by (simp add: anon_frame_ok_def anon_rest_def)
qed (simp add: anon_rest_def)

lemma anon_packet_unfold:
  assumes "4 \<le> length p" "pkt_hdr p + 2 \<le> length p"
  shows "anon_packet p = do {
     pkt \<leftarrow> (case ie_offset p of None \<Rightarrow> Some p | Some off \<Rightarrow> anon_elements (pkt_hdr p) off p);
     pkt \<leftarrow> zero_nic pkt (pkt_hdr p + 10);
     pkt \<leftarrow> zero_unless_broadcast pkt (pkt_hdr p + 4);
     zero_unless_broadcast pkt (pkt_hdr p + 16) }"
proof -
  have f: "arr_slice p 2 2 = Some (take 2 (drop 2 p))" "arr_slice p (pkt_hdr p) 2 = Some (take 2 (drop (pkt_hdr p) p))"
    using assms by (auto simp: arr_slice_def)
  have d: "is_request i p \<Longrightarrow> is_request j p \<Longrightarrow> i = j" for i j by (simp add: is_request_def)
  note k = ASSOC_REQ_def PROBE_REQ_def PROBE_RESP_def BEACON_def
  note n = d [of ASSOC_REQ PROBE_REQ] d [of ASSOC_REQ PROBE_RESP] d [of ASSOC_REQ BEACON]
    d [of PROBE_REQ PROBE_RESP] d [of PROBE_REQ BEACON] d [of PROBE_RESP BEACON]
  show ?thesis
    unfolding anon_packet_def
    apply (simp only: f bind.bind_lunit Let_def pkt_hdr_def [symmetric] pkt_fc_def [symmetric] is_request_def [symmetric])
    using n by (auto simp: ie_offset_def k)
qed

lemma anon_packet_eq:
  assumes "anon_frame_ok p"
  shows "anon_packet p = Some (anon_spec p)"
proof -
  let ?h = "pkt_hdr p"
  have l: "4 \<le> length p" "?h + 2 \<le> length p" "?h + 22 \<le> length p" using assms by (simp_all add: anon_frame_ok_def)
  have "take (?h + 22) p = take (?h + 4) p @ take 6 (drop (?h + 4) p) @ take 6 (drop (?h + 10) p) @ take 6 (drop (?h + 16) p)"
    using take_add [of "?h + 4" 18 p] take_add [of 6 12 "drop (?h + 4) p"] take_add [of 6 6 "drop (?h + 10) p"]
    by (simp add: ac_simps)
  then show ?thesis
    unfolding anon_packet_unfold [OF l(1,2)] anon_rest_eq [OF assms]
    using addresses_eq [of "take (?h + 4) p" ?h "take 6 (drop (?h + 4) p)" "take 6 (drop (?h + 10) p)"
        "take 6 (drop (?h + 16) p)" "anon_rest p"] l
    by (simp add: anon_spec_def Let_def)
qed

text \<open>Acknowledgements and other control frames have no third address: they are written past their end.\<close>

lemma short_frame_overrun:
  assumes "4 \<le> length p" "pkt_hdr p + 2 \<le> length p" "length p < pkt_hdr p + 22" "ie_offset p = None"
  shows "anon_packet p = None"
proof -
  have "length q = length p" if "zero_nic p a = Some q" for a q
    using that arr_put_length by (auto simp: zero_nic_def)
  moreover have "length r = length q" if "zero_unless_broadcast q a = Some r" for a q r
    using that arr_put_length by (auto simp: zero_nic_def zero_unless_broadcast_def split: Option.bind_splits if_splits)
  moreover have "zero_unless_broadcast r (pkt_hdr p + 16) = None" if "length r = length p" for r
    using that assms(3) by (simp add: zero_unless_broadcast_def arr_slice_def)
  ultimately show ?thesis
    unfolding anon_packet_unfold [OF assms(1,2)] assms(4) by (auto split: Option.bind_split)
qed

text \<open>What the names and addresses become, and that nothing else changes.\<close>

lemma length_anon_spec:
  assumes "anon_frame_ok p"
  shows "length (anon_spec p) = length p"
proof -
  have "length (anon_rest p) = length p - (pkt_hdr p + 22)"
    using assms ie_offset_ge [of p] by (auto simp: anon_rest_def anon_frame_ok_def split: option.splits)
  moreover have "pkt_hdr p + 22 \<le> length p" using assms by (simp add: anon_frame_ok_def)
  ultimately show ?thesis by (simp add: anon_spec_def Let_def)
qed

lemma anon_spec_parts:
  assumes "anon_frame_ok p"
  shows "pkt_hdr (anon_spec p) = pkt_hdr p" "pkt_fc (anon_spec p) = pkt_fc p"
    "take 6 (drop (pkt_hdr p + 10) (anon_spec p)) = hide_nic (take 6 (drop (pkt_hdr p + 10) p))"
    "drop (pkt_hdr p + 22) (anon_spec p) = anon_rest p"
proof -
  have l: "pkt_hdr p + 22 \<le> length p" using assms by (simp add: anon_frame_ok_def)
  have t: "take (pkt_hdr p + 4) (anon_spec p) = take (pkt_hdr p + 4) p"
    using l by (simp add: anon_spec_def Let_def)
  have "take 2 (drop 2 (take (pkt_hdr p + 4) q)) = take 2 (drop 2 q)" for q :: "byte list"
    by (simp add: take_drop)
  from this [of p] this [of "anon_spec p"] have "take 2 (drop 2 (anon_spec p)) = take 2 (drop 2 p)"
    unfolding t by simp
  then show h: "pkt_hdr (anon_spec p) = pkt_hdr p" by (simp add: pkt_hdr_def)
  have "take 2 (drop (pkt_hdr p) (take (pkt_hdr p + 4) q)) = take 2 (drop (pkt_hdr p) q)" for q :: "byte list"
    by (simp add: take_drop)
  from this [of p] this [of "anon_spec p"] have "take 2 (drop (pkt_hdr p) (anon_spec p)) = take 2 (drop (pkt_hdr p) p)"
    unfolding t by simp
  then show "pkt_fc (anon_spec p) = pkt_fc p" by (simp add: pkt_fc_def h)
  show "take 6 (drop (pkt_hdr p + 10) (anon_spec p)) = hide_nic (take 6 (drop (pkt_hdr p + 10) p))"
    "drop (pkt_hdr p + 22) (anon_spec p) = anon_rest p"
    using l by (simp_all add: anon_spec_def Let_def)
qed

lemma anon_spec_sig:
  assumes "anon_frame_ok p" "ie_offset p = Some off"
  shows "pkt_sig off (anon_spec p) = pkt_sig off p"
proof -
  let ?n = "length p - pkt_hdr p - off - 4" and ?b = "take (length p - pkt_hdr p - off - 4) (drop (pkt_hdr p + off) p)"
  have off: "24 \<le> off" "pkt_hdr p + off + 4 \<le> length p"
    using ie_offset_ge [OF assms(2)] assms by (simp_all add: anon_frame_ok_def)
  have "drop (pkt_hdr p + off) (anon_spec p) = drop (off - 22) (anon_rest p)"
    using off(1) by (simp flip: anon_spec_parts(4) [OF assms(1)] add: ac_simps)
  also have "\<dots> = mask_body ?b @ drop (length p - 4) p"
    using off by (simp add: anon_rest_def assms(2))
  finally have "take ?n (drop (pkt_hdr p + off) (anon_spec p)) = mask_body ?b"
    using off by simp
  then show ?thesis
    by (simp add: pkt_sig_def length_anon_spec [OF assms(1)] anon_spec_parts(1) [OF assms(1)] parse_mask_body signature_mask)
qed

lemma is_request_anon [simp]: "anon_frame_ok p \<Longrightarrow> is_request k (anon_spec p) \<longleftrightarrow> is_request k p"
  by (simp add: is_request_def anon_spec_parts)

lemma frame_ok_anon: "anon_frame_ok p \<Longrightarrow> frame_ok p \<and> frame_ok (anon_spec p)"
  by (simp add: frame_ok_def length_anon_spec anon_spec_parts)
    (auto simp: anon_frame_ok_def ie_offset_def is_request_def ASSOC_REQ_def PROBE_REQ_def)

lemma pkt_mac_anon:
  assumes "anon_frame_ok p"
  shows "pkt_mac (anon_spec p) = take 9 (pkt_mac p) @ lit ''00:00:00''"
proof -
  define sa where "sa = take 6 (drop (pkt_hdr p + 10) p)"
  have "pkt_hdr p + 22 \<le> length p" using assms by (simp add: anon_frame_ok_def)
  then have "length sa = 6" by (simp add: sa_def)
  then obtain a b c d e f where sa: "sa = [a, b, c, d, e, f]"
    by (auto simp: length_Suc_conv eval_nat_numeral)
  have "hex_byte 0 = lit ''00''" by (simp add: hex_byte_digits hex_digit_def lit_def)
  moreover have "length (hex_byte x) = 2" for x by simp
  ultimately show ?thesis
    by (simp add: pkt_mac_def anon_spec_parts [OF assms] sa_def [symmetric] sa hide_nic_def Let_def lit_def)
qed

lemma anon_packets_eq: "list_all anon_frame_ok ps \<Longrightarrow> anon_packets ps = Some (map anon_spec ps)"
  by (induction ps) (simp_all add: anon_packet_eq)

lemma last_of_anon:
  assumes "list_all anon_frame_ok ps" "\<And>p. anon_frame_ok p \<Longrightarrow> is_request k p \<Longrightarrow> g (anon_spec p) = f p"
  shows "last_of k g (map anon_spec ps) d = last_of k f ps d"
  using assms(1) by (induction ps arbitrary: d) (simp_all add: last_of_Cons last_of_def [of _ _ "[]"] assms(2))

lemma last_of_map: "last_of k (\<lambda>p. map_option g (f p)) ps (map_option g d) = map_option g (last_of k f ps d)"
proof (induction ps arbitrary: d)
  case (Cons a ps)
  show ?case using Cons [of "if is_request k a then f a else d"] by (simp add: last_of_Cons if_distrib)
qed (simp add: last_of_def)

section \<open>A sample frame\<close>

text \<open>A probe request of 02:03:04:05:06:07 for the network A.\<close>

definition sample_frame :: "byte list" where
  "sample_frame = [0, 0, 4, 0, 0x40, 0, 0, 0] @ replicate 6 0xff @ [2, 3, 4, 5, 6, 7] @ replicate 6 0xff @ [9, 9] @
     [0, 1, 65] @ [0, 0, 0, 0]"

lemma sample_frame_parts: "pkt_hdr sample_frame = 4" "pkt_fc sample_frame = 64" "length sample_frame = 35"
  by (simp_all add: pkt_hdr_def pkt_fc_def le16_def sample_frame_def)

lemma sample_frame_request: "is_request k sample_frame \<longleftrightarrow> k = PROBE_REQ"
  by (auto simp: is_request_def sample_frame_parts PROBE_REQ_def)

lemma sample_frame_ok: "anon_frame_ok sample_frame"
  by (simp add: anon_frame_ok_def ie_offset_def sample_frame_request sample_frame_parts ASSOC_REQ_def PROBE_REQ_def)

text \<open>
  Claim C37. What is taken out of a frame, and what is left. For a frame whose fixed part and checksum were
  captured, the program stays inside the packet, and the result has: every element of the frame in its place, the
  characters of a network name replaced by X and all other values as they were; the last three bytes of the
  sender zero; those of receiver and network zero unless they are the broadcast address; every byte before the
  addresses as it was.
\<close>
theorem anon_packet_hides:
  assumes "anon_frame_ok p"
  shows "\<exists>q. anon_packet p = Some q \<and> length q = length p \<and>
    take (pkt_hdr p + 4) q = take (pkt_hdr p + 4) p \<and>
    take 18 (drop (pkt_hdr p + 4) q) = hide_unicast (take 6 (drop (pkt_hdr p + 4) p)) @
      hide_nic (take 6 (drop (pkt_hdr p + 10) p)) @ hide_unicast (take 6 (drop (pkt_hdr p + 16) p)) \<and>
    drop (pkt_hdr p + 22) q =
      (case ie_offset p of
         None \<Rightarrow> drop (pkt_hdr p + 22) p
       | Some off \<Rightarrow> take (off - 22) (drop (pkt_hdr p + 22) p) @
           mask_body (take (length p - pkt_hdr p - off - 4) (drop (pkt_hdr p + off) p)) @ drop (length p - 4) p)"
proof -
  have l: "pkt_hdr p + 22 \<le> length p" using assms by (simp add: anon_frame_ok_def)
  then have "take (pkt_hdr p + 4) (anon_spec p) = take (pkt_hdr p + 4) p"
    "take 18 (drop (pkt_hdr p + 4) (anon_spec p)) = hide_unicast (take 6 (drop (pkt_hdr p + 4) p)) @
      hide_nic (take 6 (drop (pkt_hdr p + 10) p)) @ hide_unicast (take 6 (drop (pkt_hdr p + 16) p))"
    by (simp_all add: anon_spec_def Let_def)
  then show ?thesis
    using anon_packet_eq [OF assms] length_anon_spec [OF assms] anon_spec_parts(4) [OF assms]
    unfolding anon_rest_def by blast
qed

theorem anon_packet_hides_witness:
  "\<exists>q. anon_packet sample_frame = Some q \<and> drop 26 q = [9, 9, 0, 1, 88, 0, 0, 0, 0]"
proof -
  have o: "ie_offset sample_frame = Some 24"
    by (simp add: ie_offset_def sample_frame_request ASSOC_REQ_def PROBE_REQ_def)
  have m: "mask_body [0, 1, 65] = [0, 1, 88]"
    using mask_body_Cons [of 1 "[65]" 0 "[]"] mask_body_short [of "[]"] by simp
  show ?thesis
    using anon_packet_hides [OF sample_frame_ok] unfolding o sample_frame_parts
    by (auto simp: sample_frame_def m)
qed

text \<open>
  Claim C19. An anonymised capture is as good an example as the original: if the frames were captured whole, the
  signature program prints the same signatures with the same exit code for both, after the sender's address, of
  which the last three bytes are zero.
\<close>
theorem anonymised_signature_same:
  assumes "list_all anon_frame_ok ps" "last_of PROBE_REQ (\<lambda>p. Some (pkt_mac p)) ps None = Some m"
  shows "\<exists>qs rc line. anon_packets ps = Some qs \<and>
    tax_main (\<lambda>_. Some ps) [lit ''-f'', f] = Some (rc, m @ line) \<and>
    tax_main (\<lambda>_. Some qs) [lit ''-f'', f] = Some (rc, take 9 m @ lit ''00:00:00'' @ line)"
proof -
  let ?qs = "map anon_spec ps"
  define P where "P = last_of PROBE_REQ (pkt_sig 24) ps []"
  define A where "A = last_of ASSOC_REQ (pkt_sig 28) ps []"
  have off: "is_request PROBE_REQ p \<Longrightarrow> ie_offset p = Some 24" "is_request ASSOC_REQ p \<Longrightarrow> ie_offset p = Some 28" for p
    by (simp_all add: ie_offset_def is_request_def ASSOC_REQ_def PROBE_REQ_def)
  have ok: "list_all (\<lambda>p. frame_ok p \<and> length p < 2 ^ 32) ps" "list_all (\<lambda>p. frame_ok p \<and> length p < 2 ^ 32) ?qs"
    using assms(1) frame_ok_anon by (auto simp: list_all_iff length_anon_spec anon_frame_ok_def)
  have P: "P = last_of PROBE_REQ (pkt_sig 24) ?qs []" and A: "A = last_of ASSOC_REQ (pkt_sig 28) ?qs []"
    unfolding P_def A_def using last_of_anon [OF assms(1)] anon_spec_sig off by metis+
  have "last_of PROBE_REQ (\<lambda>p. Some (pkt_mac p)) ?qs None =
      last_of PROBE_REQ (\<lambda>p. Some (take 9 (pkt_mac p) @ lit ''00:00:00'')) ps None"
    by (rule last_of_anon [OF assms(1)]) (simp add: pkt_mac_anon)
  moreover have "last_of PROBE_REQ (\<lambda>p. Some (take 9 (pkt_mac p) @ lit ''00:00:00'')) ps None =
      Some (take 9 m @ lit ''00:00:00'')"
    using last_of_map [of PROBE_REQ "\<lambda>m. take 9 m @ lit ''00:00:00''" "\<lambda>p. Some (pkt_mac p)" ps None] assms(2) by simp
  ultimately have m: "last_of PROBE_REQ (\<lambda>p. Some (pkt_mac p)) ?qs None = Some (take 9 m @ lit ''00:00:00'')" by simp
  show ?thesis
    using anon_packets_eq [OF assms(1)] tax_line [OF _ ok(1) assms(2) P_def A_def, of "\<lambda>_. Some ps" f]
      tax_line [OF _ ok(2) m P A, of "\<lambda>_. Some ?qs" f] by simp
qed

theorem anonymised_signature_same_witness:
  "\<exists>qs rc line. anon_packets [sample_frame] = Some qs \<and>
    tax_main (\<lambda>_. Some [sample_frame]) [lit ''-f'', lit ''x''] = Some (rc, pkt_mac sample_frame @ line) \<and>
    tax_main (\<lambda>_. Some qs) [lit ''-f'', lit ''x''] = Some (rc, take 9 (pkt_mac sample_frame) @ lit ''00:00:00'' @ line)"
  by (rule anonymised_signature_same) (simp_all add: sample_frame_ok last_of_def sample_frame_request)

section \<open>Files\<close>

text \<open>What is used of libpcap: the length of a file depends on the lengths of its packets only.\<close>

definition dump_ok :: "(byte list list \<Rightarrow> byte list) \<Rightarrow> bool" where
  "dump_ok dump \<longleftrightarrow> (\<forall>ps qs. map length ps = map length qs \<longrightarrow> length (dump ps) = length (dump qs))"

text \<open>
  Claim C20. The capture is replaced as a whole or not at all. If the file holds a capture of whole frames, the
  program ends, whatever room the disk has; with exit code 0 the file holds the complete anonymised capture and the
  temporary file is gone, otherwise the file is as it was. No other file changes.
\<close>
theorem capture_replaced_whole:
  assumes "dump_ok dump" "parse inp = Some ps" "inp = dump ps" "list_all anon_frame_ok ps"
    "disk_files d f = Some inp" "anon_outfile f \<noteq> f"
  shows "\<exists>rc d'. anon_main parse dump [lit ''-f'', f] d = Some (rc, d') \<and>
    disk_files d' f = Some (if rc = 0 then dump (map anon_spec ps) else inp) \<and>
    (if rc = 0 then disk_files d' (anon_outfile f) = None else rc = 1) \<and>
    (\<forall>g. g \<noteq> f \<and> g \<noteq> anon_outfile f \<longrightarrow> disk_files d' g = disk_files d g)"
proof -
  have fn: "tax_filename [lit ''-f'', f] = Some (Some f)"
    by (simp add: tax_filename_def find_short_def lit_def Let_def)
  have len: "length (dump (map anon_spec ps)) = length inp"
    using assms(1) [unfolded dump_ok_def, rule_format, of "map anon_spec ps" ps] assms(3,4)
    by (simp add: list_all_iff length_anon_spec)
  have whole: "take (room d) (dump (map anon_spec ps)) = dump (map anon_spec ps)"
    if "length inp = length (take (room d) (dump (map anon_spec ps)))"
    using that len by (simp add: min_def split: if_splits)
  define outp where "outp = take (room d) (dump (map anon_spec ps))"
  let ?df = "disk_files d" and ?o = "anon_outfile f"
  have main: "anon_main parse dump [lit ''-f'', f] d =
      (if \<not> can_create d then Some (1, d)
       else if length inp \<noteq> length outp \<or> \<not> can_rename d then Some (1, d\<lparr>disk_files := ?df(?o \<mapsto> outp)\<rparr>)
       else Some (0, d\<lparr>disk_files := ?df(?o \<mapsto> outp, f \<mapsto> outp, ?o := None)\<rparr>))"
    by (simp add: anon_main_def fn assms(2,5) Let_def anon_packets_eq [OF assms(4)] outp_def)
  have whole: "outp = dump (map anon_spec ps)" if "length inp = length outp"
    using whole that by (simp add: outp_def)
  consider "\<not> can_create d" | "can_create d" "length inp \<noteq> length outp \<or> \<not> can_rename d"
    | "can_create d" "length inp = length outp" "can_rename d" by blast
  then show ?thesis
    by cases (use assms(5,6) whole in \<open>simp_all add: main\<close>)
qed

text \<open>A stand-in for libpcap: every packet with its length before it.\<close>

definition sample_dump :: "byte list list \<Rightarrow> byte list" where
  "sample_dump ps = concat (map (\<lambda>p. word_of_nat (length p) # p) ps)"

lemma sample_dump_ok: "dump_ok sample_dump"
proof -
  have "length (sample_dump ps) = sum_list (map Suc (map length ps))" for ps
    by (induction ps) (simp_all add: sample_dump_def)
  then show ?thesis unfolding dump_ok_def by metis
qed

theorem capture_replaced_whole_witness:
  "\<exists>rc d'. anon_main (\<lambda>_. Some [sample_frame]) sample_dump [lit ''-f'', lit ''x'']
      \<lparr>disk_files = [lit ''x'' \<mapsto> sample_dump [sample_frame]], can_create = True, room = 1000, can_rename = True\<rparr> = Some (rc, d') \<and>
    disk_files d' (lit ''x'') = Some (if rc = 0 then sample_dump [anon_spec sample_frame] else sample_dump [sample_frame])"
proof -
  have "anon_outfile (lit ''x'') \<noteq> lit ''x''" by (simp add: anon_outfile_def PATH_MAX_def lit_def)
  note * = capture_replaced_whole [OF sample_dump_ok _ refl _ _ this, where ps = "[sample_frame]"
      and parse = "\<lambda>_. Some [sample_frame]" and d = "\<lparr>disk_files = [lit ''x'' \<mapsto> sample_dump [sample_frame]], can_create = True, room = 1000, can_rename = True\<rparr>"]
  show ?thesis using * sample_frame_ok by fastforce
qed

end
