(* ===== verification/Getopt_Long.thy ===== *)
theory Getopt_Long
  imports Getopt
begin

text \<open>
  \<open>getopt_long (argc, argv, optstring, long_options, NULL)\<close> of the GNU C library for programs that
  have single letters and long names for the same options, all of them with an argument. As in
  \<open>Getopt\<close>, the model yields the whole sequence of results and the operands left.
\<close>

text \<open>The long options: name and letter; the letters take an argument.\<close>

type_synonym long_table = "(cstr \<times> char) list"

text \<open>A name is found by exact match, else by the only name it abbreviates.\<close>

definition find_long :: "long_table \<Rightarrow> cstr \<Rightarrow> char option" where
  "find_long tab n =
     (case filter (\<lambda>o'. fst o' = n) tab of
        o' # _ \<Rightarrow> Some (snd o')
      | [] \<Rightarrow> (case filter (\<lambda>o'. take (length n) (fst o') = n) tab of
                 [o'] \<Rightarrow> Some (snd o')
               | _ \<Rightarrow> None))"

text \<open>The argument \<open>--name\<close> or \<open>--name=value\<close>, given without the dashes.\<close>

definition getopt_name :: "long_table \<Rightarrow> cstr \<Rightarrow> cstr list \<Rightarrow> short_opt \<times> cstr list" where
  "getopt_name tab body args =
     (let n = takeWhile (\<lambda>c. c \<noteq> 61) body
      in case find_long tab n of
           None \<Rightarrow> (Bad_Short, args)
         | Some c \<Rightarrow>
             if n \<noteq> body then (Short c (drop (length n + 1) body), args)
             else (case args of [] \<Rightarrow> (Bad_Short, []) | a # as \<Rightarrow> (Short c a, as)))"

lemma getopt_name_length: "length (snd (getopt_name tab body args)) \<le> length args"
  by (auto simp: getopt_name_def Let_def split: option.splits list.splits)

function getopt_mixed :: "long_table \<Rightarrow> cstr list \<Rightarrow> short_opt list \<times> cstr list" where
  "getopt_mixed tab [] = ([], [])"
| "getopt_mixed tab (a # as) =
     (if a = lit ''--'' then ([], as)
      else if take 2 a = lit ''--'' then
        (let (r, rest) = getopt_name tab (drop 2 a) as; (os, operands) = getopt_mixed tab rest
         in (r # os, operands))
      else if take 1 a = lit ''-'' \<and> a \<noteq> lit ''-'' then
        (let (os, rest) = getopt_word (map (\<lambda>o'. (snd o', True)) tab) (drop 1 a) as;
             (os', operands) = getopt_mixed tab rest
         in (os @ os', operands))
      else (let (os, operands) = getopt_mixed tab as in (os, a # operands)))"
  by pat_completeness auto
termination
proof (relation "measure (\<lambda>(tab, args). length args)", goal_cases)
  case (2 tab a as x r rest)
  then have "length rest \<le> length as"
    using getopt_name_length [of tab "drop 2 a" as] by (metis snd_conv)
  then show ?case by simp
next
  case (3 tab a as x os rest)
  then have "length rest \<le> length as"
    using getopt_word_length [of "map (\<lambda>o'. (snd o', True)) tab" "drop 1 a" as] by (metis snd_conv)
  then show ?case by simp
qed auto

text \<open>The argument of the last option with a given letter, as a loop that stores it leaves it.\<close>

definition last_arg :: "char \<Rightarrow> short_opt list \<Rightarrow> cstr option" where
  "last_arg c os =
     fold (\<lambda>o' v. case o' of Short d a \<Rightarrow> if d = c then Some a else v | Bad_Short \<Rightarrow> v) os None"

lemma last_arg_snoc:
  "last_arg c [] = None"
  "last_arg c (os @ [Short d a]) = (if d = c then Some a else last_arg c os)"
  by (simp_all add: last_arg_def)

end
