(* ===== verification/Anonid.thy ===== *)
theory Anonid
  imports Mac_Suppress Getopt_Long
begin

unbundle bit_operations_syntax

text \<open>
  The program that names a station for a person who asks, \<^verbatim>\<open>src/cmds/anonid.c\<close>: it prints the six
  letters by which the logs call the MAC address given on the command line. The tables \<open>SOFT\<close> and
  \<open>HARD\<close>, \<open>trigraph\<close>, \<open>hex_chr_to_int\<close> and \<open>get_binary_mac\<close> are the text of the log uploader's (their
  model is in \<open>Mac_Suppress\<close>); the handling of the key and \<open>main\<close> are its own.

  As there, \<open>hmac\<close> is OpenSSL's \<open>HMAC\<close> with MD5. A command line argument is the block of its
  characters and the NUL; \<open>None\<close> is a read outside it. What the files answer is a \<open>key_env\<close>.
\<close>

section \<open>The key\<close>

definition anonid_default_key :: "key_env \<Rightarrow> byte list \<Rightarrow> byte list" where
  "anonid_default_key env key =
     (case urandom env of
        None \<Rightarrow> key
      | Some bs \<Rightarrow>
         if length bs \<noteq> CONSENSUS_KEY_LEN then replicate CONSENSUS_KEY_LEN (word_of_int (time_now env)) else bs)"

text \<open>The return code (0 when the file has a key) and the key after the call.\<close>

definition anonid_get_key :: "key_env \<Rightarrow> byte list \<Rightarrow> int \<times> byte list" where
  "anonid_get_key env key =
     (case key_file env of
        None \<Rightarrow> (1, key)
      | Some new_key \<Rightarrow> if length new_key = CONSENSUS_KEY_LEN then (0, new_key) else (1, key))"

section \<open>The name of an address\<close>

definition anonid_for_mac :: "(byte list \<Rightarrow> byte list \<Rightarrow> byte list) \<Rightarrow> byte list \<Rightarrow> byte list \<Rightarrow> cstr option" where
  "anonid_for_mac hmac key mac = do {
     macbin \<leftarrow> get_binary_mac mac;
     let digest = hmac key macbin;
     d0 \<leftarrow> arr_get digest 0;
     d1 \<leftarrow> arr_get digest 1;
     d2 \<leftarrow> arr_get digest 2;
     let num = push_bit 16 (ucast d0 :: u32) OR push_bit 8 (ucast d1) OR ucast d2;
     t1 \<leftarrow> trigraph (unat (drop_bit 12 num AND 0x0fff));
     t2 \<leftarrow> trigraph (unat (num AND 0x0fff));
     Some (t1 @ t2) }"

section \<open>The program\<close>

definition anonid_options :: long_table where
  "anonid_options = [(lit ''addr'', CHR ''a''), (lit ''consensus_key'', CHR ''k'')]"

text \<open>The key of \<open>-k\<close>: cut to the size of the key, or filled up with zeros.\<close>

definition option_key :: "cstr \<Rightarrow> byte list" where
  "option_key optarg =
     (let lim = (if CONSENSUS_KEY_LEN > length optarg then length optarg else CONSENSUS_KEY_LEN)
      in take lim optarg @ replicate (CONSENSUS_KEY_LEN - lim) 0)"

text \<open>The loop over the options: address and key, \<open>None\<close> when \<open>usage\<close> is called.\<close>

fun anonid_opts :: "short_opt list \<Rightarrow> cstr option \<Rightarrow> byte list \<Rightarrow> (cstr option \<times> byte list) option" where
  "anonid_opts [] addr key = Some (addr, key)"
| "anonid_opts (Short c optarg # os) addr key =
     (if c = CHR ''a'' then anonid_opts os (Some optarg) key
      else if c = CHR ''k'' then anonid_opts os addr (option_key optarg)
      else None)"
| "anonid_opts (Bad_Short # os) addr key = None"

text \<open>The exit code and what is written to the standard output.\<close>

definition anonid_main ::
    "(byte list \<Rightarrow> byte list \<Rightarrow> byte list) \<Rightarrow> key_env \<Rightarrow> cstr list \<Rightarrow> (int \<times> cstr) option" where
  "anonid_main hmac env args =
     (let (rc, key) = anonid_get_key env (replicate CONSENSUS_KEY_LEN 0);
          key = (if rc \<noteq> 0 then anonid_default_key env key else key)
      in case anonid_opts (fst (getopt_mixed anonid_options args)) None key of
           None \<Rightarrow> Some (1, [])
         | Some (None, key) \<Rightarrow> Some (1, [])
         | Some (Some addr, key) \<Rightarrow>
             (case anonid_for_mac hmac key (addr @ [0]) of
                None \<Rightarrow> None
              | Some anonid \<Rightarrow> Some (0, anonid @ lit ''\<newline>'')))"

section \<open>The key in use\<close>

text \<open>
  The specification: the last \<open>-k\<close> wins, then the file, then random bytes; a key has sixteen bytes
  whatever happens.
\<close>

definition key_in_use :: "key_env \<Rightarrow> short_opt list \<Rightarrow> byte list" where
  "key_in_use env os =
     (case last_arg (CHR ''k'') os of
        Some k \<Rightarrow> option_key k
      | None \<Rightarrow>
         (case key_file env of
            Some bs \<Rightarrow> if length bs = 16 then bs else anonid_default_key env (replicate 16 0)
          | None \<Rightarrow> anonid_default_key env (replicate 16 0)))"

lemma option_key_length [simp]: "length (option_key k) = 16"
  by (simp add: option_key_def)

lemma key_in_use_length: "length (key_in_use env os) = 16"
  by (simp add: key_in_use_def anonid_default_key_def split: option.splits)

text \<open>The letters that the option tables can yield.\<close>

lemma getopt_word_letters:
  "Short c v \<in> set (fst (getopt_word tab bs args)) \<Longrightarrow> c \<in> fst ` set tab"
proof (induction tab bs args rule: getopt_word.induct)
  case (2 tab b bs args)
  have *: "d \<in> fst ` set tab" if "find_short tab b = Some (d, x)" for d x
    using that by (auto simp: find_short_def find_Some_iff image_iff) (metis fst_conv nth_mem)
  show ?case
    using 2 * by (auto simp: case_prod_beta split: option.splits prod.splits bool.splits list.splits if_splits)
qed simp

lemma getopt_name_letter: "fst (getopt_name tab body args) = Short c v \<Longrightarrow> c \<in> snd ` set tab"
proof -
  have *: "c \<in> snd ` set tab" if "find_long tab n = Some c" for n
    using that by (auto simp: find_long_def filter_eq_Cons_iff split: list.splits)
  show "fst (getopt_name tab body args) = Short c v \<Longrightarrow> c \<in> snd ` set tab"
    using * by (auto simp: getopt_name_def Let_def split: option.splits list.splits if_splits)
qed

lemma getopt_mixed_letters:
  "\<forall>o' \<in> set (fst (getopt_mixed tab args)). case o' of Short c v \<Rightarrow> c \<in> snd ` set tab | Bad_Short \<Rightarrow> True"
proof (induction tab args rule: getopt_mixed.induct)
  case (2 tab a as)
  let ?ok = "\<lambda>o'. case o' of Short c v \<Rightarrow> c \<in> snd ` set tab | Bad_Short \<Rightarrow> True"
  have name: "?ok (fst (getopt_name tab (drop 2 a) as))"
    using getopt_name_letter [of tab "drop 2 a" as] by (simp split: short_opt.split)
  have word: "\<forall>o' \<in> set (fst (getopt_word (map (\<lambda>o'. (snd o', True)) tab) (drop 1 a) as)). ?ok o'"
    using getopt_word_letters [of _ _ "map (\<lambda>o'. (snd o', True)) tab" "drop 1 a" as]
    by (auto simp: image_image split: short_opt.split)
  consider "a = lit ''--''" | "a \<noteq> lit ''--''" "take 2 a = lit ''--''"
    | "a \<noteq> lit ''--''" "take 2 a \<noteq> lit ''--''" "take 1 a = lit ''-'' \<and> a \<noteq> lit ''-''"
    | "a \<noteq> lit ''--''" "take 2 a \<noteq> lit ''--''" "\<not> (take 1 a = lit ''-'' \<and> a \<noteq> lit ''-'')"
    by metis
  then show ?case
  proof cases
    case 2
    then show ?thesis using name "2.IH"(1) [OF 2 refl prod.collapse] by (simp add: case_prod_beta)
  next
    case 3
    then show ?thesis using word "2.IH"(2) [OF 3 refl prod.collapse] by (simp add: case_prod_beta ball_Un)
  next
    case 4
    then show ?thesis using "2.IH"(3) [OF 4] by (simp add: case_prod_beta imp_conjL)
  qed simp
qed simp

lemma anonid_opts_eq:
  assumes "\<forall>o' \<in> set os. case o' of Short c v \<Rightarrow> c = CHR ''a'' \<or> c = CHR ''k'' | Bad_Short \<Rightarrow> True"
  shows "anonid_opts os addr key =
    (if Bad_Short \<in> set os then None
     else Some (fold (\<lambda>o' v. case o' of Short d a \<Rightarrow> if d = CHR ''a'' then Some a else v | Bad_Short \<Rightarrow> v) os addr,
       fold (\<lambda>o' v. case o' of Short d a \<Rightarrow> if d = CHR ''k'' then option_key a else v | Bad_Short \<Rightarrow> v) os key))"
  using assms by (induction os addr key rule: anonid_opts.induct) auto

lemma fold_option_key:
  "fold (\<lambda>o' v. case o' of Short d a \<Rightarrow> if d = c then option_key a else v | Bad_Short \<Rightarrow> v) os key =
    (case last_arg c os of None \<Rightarrow> key | Some k \<Rightarrow> option_key k)"
  by (induction os rule: rev_induct) (auto simp: last_arg_def split: short_opt.splits option.splits)

lemma anonid_options_snd: "c \<in> snd ` set anonid_options \<longleftrightarrow> c = CHR ''a'' \<or> c = CHR ''k''"
  by (auto simp: anonid_options_def)

lemma anonid_main_eq:
  assumes "os = fst (getopt_mixed anonid_options args)"
  shows "anonid_main hmac env args =
    (if Bad_Short \<in> set os then Some (1, [])
     else case last_arg (CHR ''a'') os of
       None \<Rightarrow> Some (1, [])
     | Some addr \<Rightarrow>
        (case anonid_for_mac hmac (key_in_use env os) (addr @ [0]) of
           None \<Rightarrow> None
         | Some n \<Rightarrow> Some (0, n @ lit ''\<newline>'')))"
proof -
  have "\<forall>o' \<in> set os. case o' of Short c v \<Rightarrow> c = CHR ''a'' \<or> c = CHR ''k'' | Bad_Short \<Rightarrow> True"
    using getopt_mixed_letters [of anonid_options args] 
    by (simp add: assms anonid_options_snd cong: short_opt.case_cong)
  note eq = anonid_opts_eq [OF this, of None, unfolded fold_option_key, folded last_arg_def]
  show ?thesis
    unfolding anonid_main_def assms [symmetric] eq
    by (auto simp: key_in_use_def anonid_get_key_def split: option.splits)
qed

section \<open>The same names as in the logs\<close>

lemma anonid_for_mac_uploader:
  "get_anonid_for_mac hmac env mac ks =
    map_option (\<lambda>n. (n, get_consensus_key env ks)) (anonid_for_mac hmac (consensus_key (get_consensus_key env ks)) mac)"
  by (simp add: get_anonid_for_mac_def anonid_for_mac_def Let_def map_option_bind comp_def del: arr_get_def)

lemma uploader_key:
  "stat_ok env \<Longrightarrow> key_file env = Some key \<Longrightarrow> length key = 16 \<Longrightarrow> consensus_key (get_consensus_key env ks) = key"
  by (simp add: get_consensus_key_def)

lemma get_binary_mac_nul: "17 \<le> length a \<Longrightarrow> get_binary_mac (a @ [0]) = get_binary_mac a"
  by (simp add: get_binary_mac_def arr_get_def nth_append)

lemma get_binary_mac_None_iff: "get_binary_mac m = None \<longleftrightarrow> length m < 17"
proof (cases "length m < 17")
  case True
  then have "arr_get m 16 = None" by (simp add: arr_get_def)
  then show ?thesis using True by (auto simp: get_binary_mac_def split: option.splits Option.bind_split)
next
  case False
  then show ?thesis using get_binary_mac_Some [of m] by fastforce
qed

lemma anonid_for_mac_None_iff:
  assumes "digest_ok hmac"
  shows "anonid_for_mac hmac key m = None \<longleftrightarrow> length m < 17"
proof -
  let ?ks = "\<lparr>consensus_key = [], key_ino = 0, key_mtime = 0\<rparr>"
  let ?env = "\<lparr>stat_ok = True, st_ino = 0, st_mtime = 0, key_file = None, urandom = None, time_now = 0\<rparr>"
  have "anonid_for_mac hmac key m \<noteq> None" if "17 \<le> length m"
    using get_anonid_Some [OF assms that, of ?env "?ks\<lparr>consensus_key := key\<rparr>"]
      anonid_for_mac_uploader [of hmac ?env m "?ks\<lparr>consensus_key := key\<rparr>"]
    by (auto simp: get_consensus_key_def)
  moreover have "anonid_for_mac hmac key m = None" if "length m < 17"
    using that get_binary_mac_None_iff [of m] by (simp add: anonid_for_mac_def)
  ultimately show ?thesis by (meson not_le)
qed

definition example_hmac :: "byte list \<Rightarrow> byte list \<Rightarrow> byte list" where
  "example_hmac k m = [hd (k @ [0]), hd (m @ [0]), 0]"

lemma example_hmac_ok: "digest_ok example_hmac"
  by (simp add: digest_ok_def example_hmac_def)

definition example_env :: "key_env" where
  "example_env = \<lparr>stat_ok = True, st_ino = 1, st_mtime = 1, key_file = Some (replicate 16 1), urandom = None,
     time_now = 0\<rparr>"

abbreviation (input) example_args :: "cstr list" where
  "example_args \<equiv> [lit ''--addr=00:11:22:33:44:55'']"

lemma example_opts:
  "getopt_mixed anonid_options example_args = ([Short (CHR ''a'') (lit ''00:11:22:33:44:55'')], [])"
  by (simp add: anonid_options_def getopt_name_def find_long_def lit_def)

text \<open>
  Claim C18. The program answers with the name the logs have: when the options are well formed and the
  address has its 17 characters, it prints six capital letters and a newline, exit code 0, and these
  are the letters by which the log uploader replaces that address, in any state, when its key file holds the
  key the program used (the last \<open>-k\<close>, else the file's, else random).
\<close>
theorem anonid_names_as_logs:
  assumes "digest_ok hmac" "os = fst (getopt_mixed anonid_options args)" "Bad_Short \<notin> set os"
    "last_arg (CHR ''a'') os = Some addr" "17 \<le> length addr"
    "stat_ok uenv" "key_file uenv = Some (key_in_use env os)"
  shows "\<exists>name. anonid_main hmac env args = Some (0, name @ lit ''\<newline>'') \<and>
    length name = 6 \<and> list_all is_letter name \<and>
    get_anonid_for_mac hmac uenv addr ks = Some (name, get_consensus_key uenv ks)"
proof -
  obtain name where name: "get_anonid_for_mac hmac uenv addr ks = Some (name, get_consensus_key uenv ks)"
      "length name = 6" "\<forall>c \<in> set name. is_letter c"
    using get_anonid_Some [OF assms(1,5), of uenv ks] by (elim exE conjE)
  have "consensus_key (get_consensus_key uenv ks) = key_in_use env os"
    by (rule uploader_key [OF assms(6,7) key_in_use_length])
  then have "anonid_for_mac hmac (key_in_use env os) (addr @ [0]) = Some name"
    using name(1) get_binary_mac_nul [OF assms(5)]
    by (auto simp: anonid_for_mac_uploader) (simp add: anonid_for_mac_def)
  then have "anonid_main hmac env args = Some (0, name @ lit ''\<newline>'')"
    using assms(3,4) by (simp add: anonid_main_eq [OF assms(2)])
  then show ?thesis using name by (auto simp: list_all_iff)
qed

theorem anonid_names_as_logs_witness:
  "\<exists>name. anonid_main example_hmac example_env example_args = Some (0, name @ lit ''\<newline>'') \<and>
    length name = 6 \<and> list_all is_letter name \<and>
    get_anonid_for_mac example_hmac example_env (lit ''00:11:22:33:44:55'')
      \<lparr>consensus_key = replicate 16 0, key_ino = 0, key_mtime = 0\<rparr> =
      Some (name, get_consensus_key example_env \<lparr>consensus_key = replicate 16 0, key_ino = 0, key_mtime = 0\<rparr>)"
proof (rule anonid_names_as_logs [OF example_hmac_ok refl])
  show "key_file example_env =
      Some (key_in_use example_env (fst (getopt_mixed anonid_options example_args)))"
    unfolding example_opts by (simp add: key_in_use_def last_arg_def example_env_def)
  show "last_arg (CHR ''a'') (fst (getopt_mixed anonid_options example_args)) = Some (lit ''00:11:22:33:44:55'')"
    unfolding example_opts by (simp add: last_arg_def)
  show "Bad_Short \<notin> set (fst (getopt_mixed anonid_options example_args))"
    unfolding example_opts by simp
qed (simp_all add: lit_def example_env_def)

text \<open>
  The address is never measured: with well-formed options the program reads outside the
  argument of \<open>-a\<close> exactly when that has fewer than 16 characters.
\<close>
lemma anonid_short_address_overread:
  assumes "digest_ok hmac"
  shows "anonid_main hmac env args = None \<longleftrightarrow>
    Bad_Short \<notin> set (fst (getopt_mixed anonid_options args)) \<and>
    (\<exists>addr. last_arg (CHR ''a'') (fst (getopt_mixed anonid_options args)) = Some addr \<and> length addr < 16)"
proof -
  let ?os = "fst (getopt_mixed anonid_options args)"
  have "(case anonid_for_mac hmac (key_in_use env ?os) (addr @ [0]) of None \<Rightarrow> None
      | Some n \<Rightarrow> Some (0 :: int, n @ lit ''\<newline>'')) = None \<longleftrightarrow> length addr < 16" for addr
    using anonid_for_mac_None_iff [OF assms, of "key_in_use env ?os" "addr @ [0]"] by (cases "anonid_for_mac hmac (key_in_use env ?os) (addr @ [0])") simp_all
  then show ?thesis
    by (cases "last_arg (CHR ''a'') ?os") (simp_all add: anonid_main_eq [OF refl])
qed

end
