(* ===== verification/Mmap_Tool.thy ===== *)
theory Mmap_Tool
  imports C_Num Getopt
begin

unbundle bit_operations_syntax

text \<open>
  The scriptable tool that maps device files into memory and reads and writes their registers,
  \<^verbatim>\<open>src/cmds/mmap.c\<close>: its ten slots, its commands, the reader of scripts and \<open>main\<close>.

  The state has the slots, the files, the open descriptors and what was written to the standard
  output; diagnostics on the standard error are left out, the return codes they go with are not.
  A mapping is shared: the file it maps, the offset and the length; the kernel maps whole pages, so
  an access is possible up to the end of the last page. \<open>None\<close> is an access outside the mapped pages or
  outside an array of the program. Hosts are 64-bit and little endian. The device behind the file acts
  when a command is stored in its command register and while the tool sleeps: the argument \<open>hw\<close>.
\<close>

section \<open>Numbers in memory and in text\<close>

fun le_nat :: "byte list \<Rightarrow> nat" where
  "le_nat [] = 0"
| "le_nat (b # bs) = unat b + 256 * le_nat bs"

fun le_take :: "nat \<Rightarrow> nat \<Rightarrow> byte list" where
  "le_take 0 v = []"
| "le_take (Suc n) v = word_of_nat v # le_take n (v div 256)"

fun hex_nat :: "nat \<Rightarrow> cstr" where
  "hex_nat n = (if n < 16 then [hex_digit n] else hex_nat (n div 16) @ [hex_digit (n mod 16)])"

declare hex_nat.simps [simp del]

text \<open>\<open>%0wx\<close>\<close>

definition hex_padded :: "nat \<Rightarrow> nat \<Rightarrow> cstr" where
  "hex_padded w n = lpad w 48 (hex_nat n)"

section \<open>State\<close>

abbreviation (input) MAXSLOTS :: nat where "MAXSLOTS \<equiv> 10"
abbreviation (input) MAXARGS :: nat where "MAXARGS \<equiv> 10"

text \<open>What \<open>mmap\<close> returned: a pointer into a mapping, \<open>MAP_FAILED\<close>, or NULL.\<close>

datatype mapping = Null | Map_Failed | Mapping cstr nat nat

record slot =
  slot_path :: cstr
  slot_fd :: int
  slot_fileLength :: u64
  slot_map :: mapping
  slot_addr :: u64
  slot_length :: u64

record mm_state =
  slots :: "slot list"
  files :: "cstr \<Rightarrow> byte list option"
  fds :: "nat list"
  printed :: cstr
  stdin_rest :: "byte list"

type_synonym device = "(cstr \<Rightarrow> byte list option) \<Rightarrow> cstr \<Rightarrow> byte list option"

definition zero_slot :: slot where
  "zero_slot = \<lparr>slot_path = [], slot_fd = 0, slot_fileLength = 0, slot_map = Null, slot_addr = 0, slot_length = 0\<rparr>"

definition mm_init :: "(cstr \<Rightarrow> byte list option) \<Rightarrow> byte list \<Rightarrow> mm_state" where
  "mm_init fs inp =
     \<lparr>slots = replicate MAXSLOTS zero_slot, files = fs, fds = [0, 1, 2], printed = [], stdin_rest = inp\<rparr>"

definition mm_print :: "cstr \<Rightarrow> mm_state \<Rightarrow> mm_state" where
  "mm_print s st = st\<lparr>printed := printed st @ s\<rparr>"

definition device_acts :: "device \<Rightarrow> mm_state \<Rightarrow> mm_state" where
  "device_acts hw st = st\<lparr>files := hw (files st)\<rparr>"

section \<open>The system calls\<close>

text \<open>\<open>open\<close> returns the lowest descriptor that is free.\<close>

definition lowest_free :: "nat list \<Rightarrow> nat" where
  "lowest_free used = hd (filter (\<lambda>n. n \<notin> set used) [0..<Suc (length used)])"

definition close_fd :: "int \<Rightarrow> mm_state \<Rightarrow> mm_state" where
  "close_fd fd st = st\<lparr>fds := filter (\<lambda>n. int n \<noteq> fd) (fds st)\<rparr>"

text \<open>
  \<open>mmap (NULL, length, PROT_READ | PROT_WRITE, MAP_SHARED, fd, offset)\<close> fails for the length 0, for an
  offset that is no multiple of the page size, and when the range leaves the offsets a file can have.
\<close>

definition mmap_call :: "cstr \<Rightarrow> u64 \<Rightarrow> u64 \<Rightarrow> mapping" where
  "mmap_call path len offset =
     (if len = 0 \<or> unat offset mod 4096 \<noteq> 0 \<or> 2 ^ 63 \<le> unat offset + unat len then Map_Failed
      else Mapping path (unat offset) (unat len))"

definition page_round :: "nat \<Rightarrow> nat" where
  "page_round n = (n + 4095) div 4096 * 4096"

text \<open>Bytes of a file through a mapping: behind its end, zeros are read and nothing is stored.\<close>

definition load_bytes :: "byte list \<Rightarrow> nat \<Rightarrow> nat \<Rightarrow> byte list" where
  "load_bytes c p n = map (\<lambda>i. if i < length c then c ! i else 0) [p..<p + n]"

definition store_bytes :: "byte list \<Rightarrow> nat \<Rightarrow> byte list \<Rightarrow> byte list" where
  "store_bytes c p bs = take p c @ take (length c - p) bs @ drop (p + length bs) c"

fun map_read :: "mm_state \<Rightarrow> mapping \<Rightarrow> u64 \<Rightarrow> nat \<Rightarrow> byte list option" where
  "map_read st (Mapping f off len) addr n =
     (if unat addr + n \<le> page_round len
      then map_option (\<lambda>c. load_bytes c (off + unat addr) n) (files st f) else None)"
| "map_read st _ addr n = None"

fun map_write :: "mm_state \<Rightarrow> mapping \<Rightarrow> u64 \<Rightarrow> byte list \<Rightarrow> mm_state option" where
  "map_write st (Mapping f off len) addr bs =
     (if unat addr + length bs \<le> page_round len
      then map_option (\<lambda>c. st\<lparr>files := (files st)(f \<mapsto> store_bytes c (off + unat addr) bs)\<rparr>) (files st f)
      else None)"
| "map_write st _ addr bs = None"

section \<open>Arguments\<close>

text \<open>An argument that is refused is \<open>None\<close>.\<close>

definition asUnsigned :: "cstr \<Rightarrow> u64 option" where
  "asUnsigned str =
     (let (v, end') = strtoul0 str
      in if end' = str \<or> end' \<noteq> [] then None else Some (word_of_int v))"

definition asFileAddr :: "mm_state \<Rightarrow> cstr \<Rightarrow> nat \<Rightarrow> u64 option" where
  "asFileAddr st str slot = do {
     v \<leftarrow> asUnsigned str;
     if slot_fileLength (slots st ! slot) \<le> v then None else Some v }"

definition asFileLength :: "mm_state \<Rightarrow> cstr \<Rightarrow> nat \<Rightarrow> u64 \<Rightarrow> u64 option" where
  "asFileLength st str slot fileAddr = do {
     v \<leftarrow> asUnsigned str;
     if slot_fileLength (slots st ! slot) \<le> fileAddr + v then None else Some v }"

definition asAddr :: "mm_state \<Rightarrow> cstr \<Rightarrow> nat \<Rightarrow> u64 option" where
  "asAddr st str slot = do {
     v \<leftarrow> asUnsigned str;
     if slot_length (slots st ! slot) \<le> v then None else Some v }"

definition asLength :: "mm_state \<Rightarrow> cstr \<Rightarrow> nat \<Rightarrow> u64 \<Rightarrow> u64 option" where
  "asLength st str slot addr = do {
     v \<leftarrow> asUnsigned str;
     if addr + slot_length (slots st ! slot) \<le> addr + v then None else Some v }"

definition asWordLen :: "cstr \<Rightarrow> nat option" where
  "asWordLen str = do {
     v \<leftarrow> asUnsigned str;
     if v \<noteq> 1 \<and> v \<noteq> 2 \<and> v \<noteq> 4 \<and> v \<noteq> 8 then None else Some (unat v) }"

definition asSlot :: "mm_state \<Rightarrow> cstr \<Rightarrow> bool \<Rightarrow> nat option" where
  "asSlot st str wantOpen = do {
     v \<leftarrow> asUnsigned str;
     if of_nat MAXSLOTS \<le> v then None
     else if wantOpen \<and> slot_map (slots st ! unat v) = Null then None
     else if \<not> wantOpen \<and> slot_map (slots st ! unat v) \<noteq> Null then None
     else Some (unat v) }"

section \<open>Operations\<close>

definition do_open :: "mm_state \<Rightarrow> cstr \<Rightarrow> nat \<Rightarrow> u64 \<Rightarrow> u64 \<Rightarrow> int \<times> mm_state" where
  "do_open st path slot fileAddr len =
     (case files st path of
        None \<Rightarrow> (-1, st)
      | Some c \<Rightarrow>
         (let fd = lowest_free (fds st);
              st = st\<lparr>fds := fd # fds st\<rparr>;
              fileLength = word_of_nat (length c)
          in if fileLength < fileAddr + len then (-1, close_fd (int fd) st)
             else (let mm = mmap_call path len fileAddr
                   in if mm = Null then (-1, close_fd (int fd) st)
                      else (0, st\<lparr>slots := (slots st)[slot :=
                        \<lparr>slot_path = path, slot_fd = int fd, slot_fileLength = fileLength, slot_map = mm,
                         slot_addr = fileAddr, slot_length = len\<rparr>]\<rparr>))))"

definition do_close :: "mm_state \<Rightarrow> nat \<Rightarrow> mm_state" where
  "do_close st slot =
     (let st = close_fd (slot_fd (slots st ! slot)) st
      in st\<lparr>slots := (slots st)[slot := zero_slot\<lparr>slot_fd := -1\<rparr>]\<rparr>)"

text \<open>The inner \<open>None\<close> is the return code -1.\<close>

definition do_read_helper :: "mm_state \<Rightarrow> nat \<Rightarrow> u64 \<Rightarrow> nat \<Rightarrow> u64 option option" where
  "do_read_helper st slot addr wordlen =
     (if wordlen \<in> {1, 2, 4, 8}
      then map_option (\<lambda>bs. Some (word_of_nat (le_nat bs))) (map_read st (slot_map (slots st ! slot)) addr wordlen)
      else Some None)"

definition do_read :: "mm_state \<Rightarrow> nat \<Rightarrow> u64 \<Rightarrow> nat \<Rightarrow> (int \<times> mm_state) option" where
  "do_read st slot addr wordlen = do {
     r \<leftarrow> do_read_helper st slot addr wordlen;
     case r of
       None \<Rightarrow> Some (-1, st)
     | Some v \<Rightarrow> Some (0, mm_print (lit ''0x'' @ hex_padded (2 * wordlen) (unat v) @ lit ''\<newline>'') st) }"

definition do_write :: "mm_state \<Rightarrow> nat \<Rightarrow> u64 \<Rightarrow> nat \<Rightarrow> u64 \<Rightarrow> mm_state option" where
  "do_write st slot addr wordlen v =
     map_write st (slot_map (slots st ! slot)) addr (le_take wordlen (unat v))"

text \<open>One line of a dump: the words \<open>i + j\<close> for the \<open>k\<close> values of \<open>j\<close> left.\<close>

fun hexdump_line :: "mm_state \<Rightarrow> nat \<Rightarrow> u64 \<Rightarrow> nat \<Rightarrow> u64 \<Rightarrow> u64 \<Rightarrow> u64 \<Rightarrow> nat \<Rightarrow> int \<Rightarrow> (int \<times> cstr) option" where
  "hexdump_line st slot addr wordlen count i j 0 err = Some (err, [])"
| "hexdump_line st slot addr wordlen count i j (Suc k) err =
     (if count \<le> i + j then Some (err, [])
      else do {
        r \<leftarrow> do_read_helper st slot (addr + (i + j) * of_nat wordlen) wordlen;
        let (err, v) = (case r of None \<Rightarrow> (-1, 0) | Some v \<Rightarrow> (err, v));
        (err, rest) \<leftarrow> hexdump_line st slot addr wordlen count i (j + 1) k err;
        Some (err, lit '' 0x'' @ hex_padded (2 * wordlen) (unat v) @ rest) })"

text \<open>The lines. The counter is an \<open>uint64_t\<close>, so that nothing but an access bounds the loop.\<close>

partial_function (option) hexdump_loop ::
    "mm_state \<Rightarrow> nat \<Rightarrow> u64 \<Rightarrow> nat \<Rightarrow> u64 \<Rightarrow> u64 \<Rightarrow> int \<Rightarrow> (int \<times> cstr) option" where
  "hexdump_loop st slot addr wordlen count i err =
     (if i < count then do {
        (err, line) \<leftarrow> hexdump_line st slot addr wordlen count i 0 (16 div wordlen) err;
        (err, rest) \<leftarrow> hexdump_loop st slot addr wordlen count (i + of_nat (16 div wordlen)) err;
        Some (err, hex_padded 8 (unat (addr + i * of_nat wordlen)) @ lit '':'' @ line @ lit ''\<newline>'' @ rest) }
      else Some (err, []))"

definition do_hexdump :: "mm_state \<Rightarrow> nat \<Rightarrow> u64 \<Rightarrow> nat \<Rightarrow> u64 \<Rightarrow> (int \<times> mm_state) option" where
  "do_hexdump st slot addr wordlen count =
     map_option (\<lambda>(err, text). (err, mm_print text st)) (hexdump_loop st slot addr wordlen count 0 0)"

section \<open>Registers behind a management bus\<close>

definition load32 :: "mm_state \<Rightarrow> nat \<Rightarrow> u64 \<Rightarrow> u32 option" where
  "load32 st slot addr = map_option (\<lambda>bs. word_of_nat (le_nat bs)) (map_read st (slot_map (slots st ! slot)) addr 4)"

definition store32 :: "mm_state \<Rightarrow> nat \<Rightarrow> u64 \<Rightarrow> u32 \<Rightarrow> mm_state option" where
  "store32 st slot addr v = map_write st (slot_map (slots st ! slot)) addr (le_take 4 (unat v))"

definition CMD_ADDR_THEN_WRITE :: u64 where "CMD_ADDR_THEN_WRITE = 5"
definition CMD_ADDR_THEN_READ :: u64 where "CMD_ADDR_THEN_READ = 7"
definition CMD_BUSY :: u32 where "CMD_BUSY = push_bit 30 1"

fun wait_for_bits :: "device \<Rightarrow> mm_state \<Rightarrow> nat \<Rightarrow> u64 \<Rightarrow> u32 \<Rightarrow> u32 \<Rightarrow> nat \<Rightarrow> (int \<times> mm_state) option" where
  "wait_for_bits hw st slot creg bits want 0 = Some (-1, st)"
| "wait_for_bits hw st slot creg bits want (Suc tries) = do {
     got \<leftarrow> load32 st slot creg;
     if got AND bits = want then Some (0, st)
     else wait_for_bits hw (device_acts hw st) slot creg bits want tries }"

text \<open>
  Waiting for the bus, the register number and the command, waiting again, and the result: the common part
  of \<open>do_mread\<close> (one register) and \<open>do_mwrite\<close>. The outer \<open>None\<close> is a fault, the inner one a timeout.
\<close>

definition mdio_command ::
    "device \<Rightarrow> mm_state \<Rightarrow> nat \<Rightarrow> u64 \<Rightarrow> u64 \<Rightarrow> u32 \<Rightarrow> u32 \<Rightarrow> (u32 option \<times> mm_state) option" where
  "mdio_command hw st slot addr_reg cmd_reg rreg cmd = do {
     (rc, st) \<leftarrow> wait_for_bits hw st slot cmd_reg CMD_BUSY 0 100;
     if rc < 0 then Some (None, st)
     else do {
       st \<leftarrow> store32 st slot addr_reg rreg;
       st \<leftarrow> store32 st slot cmd_reg cmd;
       (rc, st) \<leftarrow> wait_for_bits hw (device_acts hw st) slot cmd_reg CMD_BUSY 0 100;
       if rc < 0 then Some (None, st)
       else do {
         v \<leftarrow> load32 st slot cmd_reg;
         Some (Some v, st) }}}"

definition mdio_line :: "u64 \<Rightarrow> u64 \<Rightarrow> nat \<Rightarrow> u32 \<Rightarrow> cstr" where
  "mdio_line port dev reg v =
     hex_nat (unat port) @ lit ''.'' @ hex_nat (unat dev) @ lit ''.'' @ hex_padded 4 reg @ lit '': '' @
     hex_padded 4 (unat (drop_bit 16 v)) @ lit '' '' @ hex_padded 4 (unat (v AND 0xffff)) @ lit ''\<newline>''"

function mread_loop ::
    "device \<Rightarrow> mm_state \<Rightarrow> nat \<Rightarrow> u64 \<Rightarrow> u64 \<Rightarrow> u64 \<Rightarrow> u64 \<Rightarrow> u64 \<Rightarrow> u64 \<Rightarrow> u64 \<Rightarrow> (int \<times> mm_state) option" where
  "mread_loop hw st slot addr_reg cmd_reg port dev reg count i =
     (if i < count then
        (let rreg = ucast (reg + i);
             cmd = push_bit 26 CMD_ADDR_THEN_READ OR push_bit 21 dev OR push_bit 16 port
         in case mdio_command hw st slot addr_reg cmd_reg rreg (ucast cmd) of
              None \<Rightarrow> None
            | Some (None, st) \<Rightarrow> Some (-1, st)
            | Some (Some v, st) \<Rightarrow>
                mread_loop hw (mm_print (mdio_line port dev (unat rreg) v) st) slot addr_reg cmd_reg port dev reg
                  count (i + 1))
      else Some (0, st))"
  by pat_completeness auto
termination
proof (relation "measure (\<lambda>(hw, st, slot, addr_reg, cmd_reg, port, dev, reg, count, i). unat count - unat i)", goal_cases)
  case (2 hw st slot addr_reg cmd_reg port dev reg count i)
  have "unat (i + 1) = Suc (unat i)" using 2(1) by unat_arith
  then show ?case using 2(1) by (simp add: word_less_nat_alt)
qed simp

declare mread_loop.simps [simp del]

definition do_mread ::
    "device \<Rightarrow> mm_state \<Rightarrow> nat \<Rightarrow> u64 \<Rightarrow> u64 \<Rightarrow> u64 \<Rightarrow> u64 \<Rightarrow> u64 \<Rightarrow> u64 \<Rightarrow> (int \<times> mm_state) option" where
  "do_mread hw st slot addr_reg cmd_reg port dev reg count =
     mread_loop hw st slot addr_reg cmd_reg port dev reg count 0"

definition do_mwrite ::
    "device \<Rightarrow> mm_state \<Rightarrow> nat \<Rightarrow> u64 \<Rightarrow> u64 \<Rightarrow> u64 \<Rightarrow> u64 \<Rightarrow> u64 \<Rightarrow> u64 \<Rightarrow> (int \<times> mm_state) option" where
  "do_mwrite hw st slot addr_reg cmd_reg port dev reg newVal =
     (let cmd = push_bit 26 CMD_ADDR_THEN_WRITE OR push_bit 21 dev OR push_bit 16 port OR (newVal AND 0xffff)
      in case mdio_command hw st slot addr_reg cmd_reg (ucast reg) (ucast cmd) of
           None \<Rightarrow> None
         | Some (None, st) \<Rightarrow> Some (-1, st)
         | Some (Some v, st) \<Rightarrow> Some (0, mm_print (mdio_line port dev (unat reg) v) st))"

section \<open>Commands\<close>

text \<open>What the commands begin with: \<open>help\<close> as the first argument, and the number of words.\<close>

definition cmd_usage :: "string \<Rightarrow> mm_state \<Rightarrow> (int \<times> mm_state) option" where
  "cmd_usage usage st = Some (0, mm_print (9 # lit usage @ lit ''\<newline>'') st)"

definition wants_help :: "cstr list \<Rightarrow> bool" where
  "wants_help av \<longleftrightarrow> 1 < length av \<and> av ! 1 = lit ''help''"

definition with_args ::
    "string \<Rightarrow> nat \<Rightarrow> cstr list \<Rightarrow> mm_state \<Rightarrow> (int \<times> mm_state) option \<Rightarrow> (int \<times> mm_state) option" where
  "with_args usage n av st body =
     (if wants_help av then cmd_usage usage st else if length av \<noteq> n then Some (-1, st) else body)"

text \<open>An argument that is refused ends the command with -1.\<close>

definition with_arg :: "'a option \<Rightarrow> mm_state \<Rightarrow> ('a \<Rightarrow> (int \<times> mm_state) option) \<Rightarrow> (int \<times> mm_state) option" where
  "with_arg a st k = (case a of None \<Rightarrow> Some (-1, st) | Some v \<Rightarrow> k v)"

definition cmd_open :: "cstr list \<Rightarrow> mm_state \<Rightarrow> (int \<times> mm_state) option" where
  "cmd_open av st =
     with_args ''open slot file offset length'' 5 av st
       (with_arg (asSlot st (av ! 1) False) st (\<lambda>slot.
        with_arg (asUnsigned (av ! 3)) st (\<lambda>offset.
        with_arg (asUnsigned (av ! 4)) st (\<lambda>len.
          Some (do_open st (av ! 2) slot offset len)))))"

definition cmd_close :: "cstr list \<Rightarrow> mm_state \<Rightarrow> (int \<times> mm_state) option" where
  "cmd_close av st =
     with_args ''close slot'' 2 av st
       (with_arg (asSlot st (av ! 1) True) st (\<lambda>slot. Some (0, do_close st slot)))"

definition cmd_read :: "cstr list \<Rightarrow> mm_state \<Rightarrow> (int \<times> mm_state) option" where
  "cmd_read av st =
     with_args ''read slot addr wordlen'' 4 av st
       (with_arg (asSlot st (av ! 1) True) st (\<lambda>slot.
        with_arg (asAddr st (av ! 2) slot) st (\<lambda>addr.
        with_arg (asWordLen (av ! 3)) st (\<lambda>wordlen.
          do_read st slot addr wordlen))))"

definition cmd_write :: "cstr list \<Rightarrow> mm_state \<Rightarrow> (int \<times> mm_state) option" where
  "cmd_write av st =
     with_args ''write slot addr wordlen value'' 5 av st
       (with_arg (asSlot st (av ! 1) True) st (\<lambda>slot.
        with_arg (asAddr st (av ! 2) slot) st (\<lambda>addr.
        with_arg (asWordLen (av ! 3)) st (\<lambda>wordlen.
        with_arg (asUnsigned (av ! 4)) st (\<lambda>v.
          map_option (Pair 0) (do_write st slot addr wordlen v))))))"

definition cmd_dump :: "cstr list \<Rightarrow> mm_state \<Rightarrow> (int \<times> mm_state) option" where
  "cmd_dump av st =
     with_args ''dump slot addr wordlen count'' 5 av st
       (with_arg (asSlot st (av ! 1) True) st (\<lambda>slot.
        with_arg (asUnsigned (av ! 2)) st (\<lambda>addr.
        with_arg (asWordLen (av ! 3)) st (\<lambda>wordlen.
        with_arg (asUnsigned (av ! 4)) st (\<lambda>count.
          do_hexdump st slot addr wordlen count)))))"

definition cmd_msleep :: "device \<Rightarrow> cstr list \<Rightarrow> mm_state \<Rightarrow> (int \<times> mm_state) option" where
  "cmd_msleep hw av st =
     with_args ''msleep msecs'' 2 av st
       (with_arg (asUnsigned (av ! 1)) st (\<lambda>msecs. Some (0, device_acts hw st)))"

definition cmd_echo :: "cstr list \<Rightarrow> mm_state \<Rightarrow> (int \<times> mm_state) option" where
  "cmd_echo av st =
     (if wants_help av then cmd_usage ''echo text ...'' st
      else Some (0, mm_print (concat (map (\<lambda>a. a @ lit '' '') (drop 1 av)) @ lit ''\<newline>'') st))"

definition cmd_mread :: "device \<Rightarrow> cstr list \<Rightarrow> mm_state \<Rightarrow> (int \<times> mm_state) option" where
  "cmd_mread hw av st =
     with_args ''mread slot addr_reg cmd_reg port dev reg count'' 8 av st
       (with_arg (asSlot st (av ! 1) True) st (\<lambda>slot.
        with_arg (asAddr st (av ! 2) slot) st (\<lambda>addr_reg.
        with_arg (asAddr st (av ! 3) slot) st (\<lambda>cmd_reg.
        with_arg (asUnsigned (av ! 4)) st (\<lambda>port.
        with_arg (asUnsigned (av ! 5)) st (\<lambda>dev.
        with_arg (asUnsigned (av ! 6)) st (\<lambda>reg.
        with_arg (asUnsigned (av ! 7)) st (\<lambda>count.
          do_mread hw st slot addr_reg cmd_reg port dev reg count))))))))"

definition cmd_mwrite :: "device \<Rightarrow> cstr list \<Rightarrow> mm_state \<Rightarrow> (int \<times> mm_state) option" where
  "cmd_mwrite hw av st =
     with_args ''mwrite slot addr_reg cmd_reg port dev reg value'' 8 av st
       (with_arg (asSlot st (av ! 1) True) st (\<lambda>slot.
        with_arg (asAddr st (av ! 2) slot) st (\<lambda>addr_reg.
        with_arg (asAddr st (av ! 3) slot) st (\<lambda>cmd_reg.
        with_arg (asUnsigned (av ! 4)) st (\<lambda>port.
        with_arg (asUnsigned (av ! 5)) st (\<lambda>dev.
        with_arg (asUnsigned (av ! 6)) st (\<lambda>reg.
        with_arg (asUnsigned (av ! 7)) st (\<lambda>v.
          do_mwrite hw st slot addr_reg cmd_reg port dev reg v))))))))"

definition cmds :: "device \<Rightarrow> (cstr \<times> (cstr list \<Rightarrow> mm_state \<Rightarrow> (int \<times> mm_state) option)) list" where
  "cmds hw =
     [(lit ''open'', cmd_open), (lit ''close'', cmd_close), (lit ''read'', cmd_read), (lit ''write'', cmd_write),
      (lit ''dump'', cmd_dump), (lit ''msleep'', cmd_msleep hw), (lit ''echo'', cmd_echo),
      (lit ''mread'', cmd_mread hw), (lit ''mwrite'', cmd_mwrite hw)]"

section \<open>Scripts\<close>

fun fgets_line :: "nat \<Rightarrow> byte list \<Rightarrow> byte list \<times> byte list" where
  "fgets_line 0 cs = ([], cs)"
| "fgets_line (Suc n) [] = ([], [])"
| "fgets_line (Suc n) (c # cs) =
     (if c = 10 then ([c], cs) else (let (l, r) = fgets_line n cs in (c # l, r)))"

lemma fgets_line_length: "length (snd (fgets_line n cs)) \<le> length cs"
  by (induction n cs rule: fgets_line.induct) (auto simp: case_prod_beta)

lemma fgets_line_less: "cs \<noteq> [] \<Longrightarrow> length (snd (fgets_line (Suc n) cs)) < length cs"
  using fgets_line_length [of n "tl cs"] by (cases cs) (auto simp: case_prod_beta)

definition is_delim :: "byte \<Rightarrow> bool" where
  "is_delim b \<longleftrightarrow> b = 32 \<or> b = 9 \<or> b = 10"

function strtok_words :: "cstr \<Rightarrow> cstr list" where
  "strtok_words s =
     (let t = dropWhile is_delim s
      in if t = [] then []
         else takeWhile (\<lambda>b. \<not> is_delim b) t # strtok_words (dropWhile (\<lambda>b. \<not> is_delim b) t))"
  by pat_completeness auto
termination
proof (relation "measure length", goal_cases)
  case (2 s t)
  then have "\<not> is_delim (hd t)" using hd_dropWhile [of is_delim s] by simp
  then have "length (dropWhile (\<lambda>b. \<not> is_delim b) t) < length t"
    using \<open>t \<noteq> []\<close> by (cases t) (simp_all add: le_imp_less_Suc length_dropWhile_le)
  then show ?case using 2 length_dropWhile_le [of is_delim s] by simp
qed simp

declare strtok_words.simps [simp del]

text \<open>
  The words of a line as \<open>av\<close>: the loop stores the result of \<open>strtok\<close> behind the last word before it looks at
  the number of words, so ten words already write past the ten entries of \<open>av\<close>.
\<close>

definition line_args :: "cstr \<Rightarrow> cstr list option" where
  "line_args line =
     (let ws = strtok_words line in if MAXARGS \<le> length ws then None else Some ws)"

text \<open>The command in the words of a line: the number of errors it adds.\<close>

definition run_command :: "device \<Rightarrow> cstr list \<Rightarrow> mm_state \<Rightarrow> (nat \<times> mm_state) option" where
  "run_command hw av st =
     (if av = [] then Some (0, st)
      else if hd av = lit ''help'' then
        map_option (Pair 0)
          (fold (\<lambda>c st. Option.bind st (\<lambda>st. map_option snd (snd c [[], lit ''help''] st))) (cmds hw) (Some st))
      else (case map_of (cmds hw) (hd av) of
              None \<Rightarrow> Some (1, st)
            | Some f \<Rightarrow> map_option (\<lambda>(rc, st). (if rc < 0 then 1 else 0, st)) (f av st)))"

text \<open>One line. \<open>fileLine\<close>, 128 characters, gets the name and the number of the line.\<close>

definition process_line :: "device \<Rightarrow> bool \<Rightarrow> cstr \<Rightarrow> nat \<Rightarrow> byte list \<Rightarrow> mm_state \<Rightarrow> (nat \<times> mm_state) option" where
  "process_line hw quiet fpName lineno bytes st =
     (let line = cstr_of bytes
      in if 128 < length (fpName @ lit '':'' @ dec_nat lineno @ lit '': '') + 1 then None
         else if line = [] then Some (0, st)
         else if last line \<noteq> 10 then Some (1, st)
         else if hd line = of_char (CHR ''#'') then Some (0, st)
         else (let st = (if quiet then st else mm_print (lit ''# '' @ line) st)
               in case line_args line of None \<Rightarrow> None | Some av \<Rightarrow> run_command hw av st))"

function process_lines ::
    "device \<Rightarrow> bool \<Rightarrow> bool \<Rightarrow> cstr \<Rightarrow> nat \<Rightarrow> nat \<Rightarrow> byte list \<Rightarrow> mm_state \<Rightarrow> (nat \<times> mm_state) option" where
  "process_lines hw quiet isTTY fpName lineno err inp st =
     (let st = (if isTTY then mm_print (lit ''mmap>> '') st else st)
      in if inp = [] then Some (err, st)
         else (case process_line hw quiet fpName (lineno + 1) (fst (fgets_line 1023 inp)) st of
                 None \<Rightarrow> None
               | Some (e, st) \<Rightarrow>
                   process_lines hw quiet isTTY fpName (lineno + 1) (err + e) (snd (fgets_line 1023 inp)) st))"
  by pat_completeness auto
termination
  by (relation "measure (\<lambda>(hw, quiet, isTTY, fpName, lineno, err, inp, st). length inp)")
    (use fgets_line_less [of _ 1022] in auto)

declare process_lines.simps [simp del]

text \<open>\<open>file\<close> is \<open>None\<close> for NULL. A script file is read as it is when it is opened, and never closed.\<close>

definition processFile ::
    "device \<Rightarrow> (cstr option \<Rightarrow> bool) \<Rightarrow> cstr option \<Rightarrow> bool \<Rightarrow> mm_state \<Rightarrow> (int \<times> mm_state) option" where
  "processFile hw tty file quiet st =
     (if file = None \<or> file = Some (lit ''-'') then
        map_option (\<lambda>(err, st). (if err \<noteq> 0 then -1 else 0, st))
          (process_lines hw quiet (tty None) (lit ''stdin'') 0 0 (stdin_rest st) (st\<lparr>stdin_rest := []\<rparr>))
      else (case files st (the file) of
              None \<Rightarrow> Some (-1, st)
            | Some c \<Rightarrow>
                map_option (\<lambda>(err, st). (if err \<noteq> 0 then -1 else 0, st))
                  (process_lines hw quiet (tty file) (the file) 0 0 c (st\<lparr>fds := lowest_free (fds st) # fds st\<rparr>))))"

text \<open>\<open>main\<close>: the exit code and the final state.\<close>

fun process_files ::
    "device \<Rightarrow> (cstr option \<Rightarrow> bool) \<Rightarrow> cstr option list \<Rightarrow> bool \<Rightarrow> nat \<Rightarrow> mm_state \<Rightarrow> (nat \<times> mm_state) option" where
  "process_files hw tty [] quiet err st = Some (err, st)"
| "process_files hw tty (f # fs) quiet err st = do {
     (rc, st) \<leftarrow> processFile hw tty f quiet st;
     process_files hw tty fs quiet (if rc < 0 then err + 1 else err) st }"

definition mmap_main ::
    "device \<Rightarrow> (cstr option \<Rightarrow> bool) \<Rightarrow> cstr list \<Rightarrow> mm_state \<Rightarrow> (int \<times> mm_state) option" where
  "mmap_main hw tty args st =
     (let (os, operands) = getopt [(CHR ''q'', False)] args
      in if Bad_Short \<in> set os then Some (1, st)
         else map_option (\<lambda>(err, st). (if err \<noteq> 0 then 1 else 0, st))
                (process_files hw tty (if operands = [] then [None] else map Some operands) (os \<noteq> []) 0 st))"

end
