(* ===== verification/Mmap_Spec.thy ===== *)
theory Mmap_Spec
  imports Mmap_Tool
begin

unbundle bit_operations_syntax

text \<open>
  Correctness of the memory access tool: the invariant of its slots and descriptors that every
  command and script keeps, what a store through one slot shows in another, and which accesses
  stay inside the mapped pages.
\<close>

section \<open>Numbers in memory\<close>

lemma length_le_take [simp]: "length (le_take n v) = n"
  by (induction n arbitrary: v) auto

lemma le_nat_le_take: "le_nat (le_take n v) = v mod 256 ^ n"
proof (induction n arbitrary: v)
  case (Suc n)
  have "unat (word_of_nat v :: byte) = v mod 256" by (simp add: unsigned_of_nat take_bit_eq_mod)
  then show ?case using Suc [of "v div 256"] by (simp add: mod_mult2_eq ac_simps)
qed simp

lemma load_store_bytes: "p + length bs \<le> length c \<Longrightarrow> load_bytes (store_bytes c p bs) p (length bs) = bs"
  by (auto simp: load_bytes_def store_bytes_def intro!: nth_equalityI simp: nth_append)

lemma length_store_bytes [simp]: "length (store_bytes c p bs) = length c"
  by (auto simp: store_bytes_def min_def)

section \<open>The invariant\<close>

abbreviation (input) slot_open :: "slot \<Rightarrow> bool" where
  "slot_open s \<equiv> slot_map s \<noteq> Null"

abbreviation (input) slot_at :: "mm_state \<Rightarrow> nat \<Rightarrow> slot" where
  "slot_at st i \<equiv> slots st ! i"

definition open_count :: "mm_state \<Rightarrow> nat" where
  "open_count st = length (filter (\<lambda>s. slot_open s) (slots st))"

definition file_sizes :: "mm_state \<Rightarrow> cstr \<Rightarrow> nat option" where
  "file_sizes st f = map_option length (files st f)"

fun mapping_ok :: "(cstr \<Rightarrow> nat option) \<Rightarrow> slot \<Rightarrow> mapping \<Rightarrow> bool" where
  "mapping_ok sz s (Mapping f off len) \<longleftrightarrow>
     off = unat (slot_addr s) \<and> len = unat (slot_length s) \<and> 0 < len \<and> off mod 4096 = 0 \<and>
     (case sz f of None \<Rightarrow> False | Some n \<Rightarrow> off + len \<le> n)"
| "mapping_ok sz s _ \<longleftrightarrow> True"

text \<open>
  \<open>k\<close> descriptors are open besides those of the slots; files have the sizes \<open>sz\<close>; every open slot has a
  descriptor of its own, and a mapping lies inside its file at the address and length the slot records.
\<close>

definition mm_wf :: "nat \<Rightarrow> (cstr \<Rightarrow> nat option) \<Rightarrow> mm_state \<Rightarrow> bool" where
  "mm_wf k sz st \<longleftrightarrow>
     length (slots st) = MAXSLOTS \<and> distinct (fds st) \<and> length (fds st) = k + open_count st \<and>
     file_sizes st = sz \<and>
     (\<forall>i < MAXSLOTS. slot_open (slot_at st i) \<longrightarrow>
        0 \<le> slot_fd (slot_at st i) \<and> nat (slot_fd (slot_at st i)) \<in> set (fds st) \<and>
        mapping_ok sz (slot_at st i) (slot_map (slot_at st i))) \<and>
     (\<forall>i < MAXSLOTS. \<forall>j < MAXSLOTS. i \<noteq> j \<longrightarrow> slot_open (slot_at st i) \<longrightarrow> slot_open (slot_at st j) \<longrightarrow>
        slot_fd (slot_at st i) \<noteq> slot_fd (slot_at st j))"

text \<open>
  A range that \<open>mmap\<close> can map. The tool takes \<open>MAP_FAILED\<close> for a mapping; the full invariant says that this happens
  to no other ranges, so an open slot whose address is a multiple of the page size and whose length is not 0
  has a mapping.
\<close>

definition mappable :: "u64 \<Rightarrow> u64 \<Rightarrow> bool" where
  "mappable addr len \<longleftrightarrow> unat addr mod 4096 = 0 \<and> len \<noteq> 0 \<and> unat addr + unat len < 2 ^ 63"

definition mm_inv :: "nat \<Rightarrow> (cstr \<Rightarrow> nat option) \<Rightarrow> mm_state \<Rightarrow> bool" where
  "mm_inv k sz st \<longleftrightarrow> mm_wf k sz st \<and>
     list_all (\<lambda>s. slot_map s = Map_Failed \<longrightarrow> \<not> mappable (slot_addr s) (slot_length s)) (slots st)"

definition device_ok :: "device \<Rightarrow> bool" where
  "device_ok hw \<longleftrightarrow> (\<forall>fs f. map_option length (hw fs f) = map_option length (fs f))"

definition small_files :: "(cstr \<Rightarrow> nat option) \<Rightarrow> bool" where
  "small_files sz \<longleftrightarrow> (\<forall>f n. sz f = Some n \<longrightarrow> n < 2 ^ 63)"

lemma lowest_free_fresh: "lowest_free used \<notin> set used"
proof -
  let ?l = "filter (\<lambda>n. n \<notin> set used) [0..<Suc (length used)]"
  have "?l \<noteq> []"
  proof
    assume "?l = []"
    then have "{0..<Suc (length used)} \<subseteq> set used" by (auto simp: filter_empty_conv simp del: upt_Suc)
    from card_mono [OF _ this] card_length [of used] show False by simp
  qed
  from hd_in_set [OF this] show ?thesis by (simp add: lowest_free_def del: upt_Suc)
qed

lemma filter_length_update:
  "i < length xs \<Longrightarrow> length (filter P (xs[i := y])) + (if P (xs ! i) then 1 else 0) =
     length (filter P xs) + (if P y then 1 else 0)"
proof (induction xs arbitrary: i)
  case (Cons x xs)
  then show ?case using Cons.IH [of "i - 1"] by (cases i) auto
qed simp

section \<open>Every operation keeps it\<close>

named_theorems mm_keeps \<open>operations that keep the invariant\<close>

lemma mm_wf_print [mm_keeps]: "mm_wf k sz st \<Longrightarrow> mm_wf k sz (mm_print s st)"
  by (simp add: mm_wf_def mm_print_def open_count_def file_sizes_def fun_eq_iff)

lemma mm_wf_device [mm_keeps]: "device_ok hw \<Longrightarrow> mm_wf k sz st \<Longrightarrow> mm_wf k sz (device_acts hw st)"
  by (simp add: mm_wf_def device_acts_def device_ok_def open_count_def file_sizes_def fun_eq_iff)

lemma map_write_frame:
  assumes "map_write st m addr bs = Some st'"
  shows "slots st' = slots st" "fds st' = fds st" "file_sizes st' = file_sizes st"
  using assms by (cases m; auto simp: file_sizes_def fun_eq_iff split: if_splits)+

lemma mm_wf_write [mm_keeps]: "map_write st m addr bs = Some st' \<Longrightarrow> mm_wf k sz st \<Longrightarrow> mm_wf k sz st'"
  by (simp add: mm_wf_def open_count_def map_write_frame)

lemma mm_wf_stdin: "mm_wf k sz st \<Longrightarrow> mm_wf k sz (st\<lparr>stdin_rest := r\<rparr>)"
  by (simp add: mm_wf_def open_count_def file_sizes_def fun_eq_iff)

lemma mm_wf_script:
  assumes "mm_wf k sz st"
  shows "mm_wf (Suc k) sz (st\<lparr>fds := lowest_free (fds st) # fds st\<rparr>)"
  using assms lowest_free_fresh [of "fds st"]
  unfolding mm_wf_def by (simp add: open_count_def file_sizes_def fun_eq_iff)

lemma close_lowest: "close_fd (int fd) (st\<lparr>fds := fd # fds st\<rparr>) = st" if "fd \<notin> set (fds st)"
proof -
  have "filter (\<lambda>n. n \<noteq> fd) (fds st) = fds st" using that by (auto simp: filter_id_conv)
  then show ?thesis by (simp add: close_fd_def)
qed

lemma mmap_call_not_Null [simp]: "mmap_call path len off \<noteq> Null"
  by (simp add: mmap_call_def)

lemma mmap_call_ok:
  assumes "small_files sz" "sz path = Some n" "off + len \<le> word_of_nat n"
    "slot_addr s = off" "slot_length s = len"
  shows "mapping_ok sz s (mmap_call path len off)"
proof (cases "mmap_call path len off")
  case (Mapping f o' l)
  then have m: "f = path" "o' = unat off" "l = unat len" "len \<noteq> 0" "unat off mod 4096 = 0"
    "unat off + unat len < 2 ^ 63" by (auto simp: mmap_call_def not_le split: if_splits)
  have "n < 2 ^ 63" using assms(1,2) by (simp add: small_files_def)
  then have "unat (word_of_nat n :: u64) = n"
    by (simp add: unsigned_of_nat take_bit_nat_eq_self_iff)
  moreover have "unat (off + len) = unat off + unat len"
    using m(6) by (subst unat_add_lem [THEN iffD1]) auto
  ultimately have "unat off + unat len \<le> n" using assms(3) by (simp add: word_le_nat_alt)
  then show ?thesis using m assms by (auto simp: Mapping unat_gt_0)
qed simp_all

lemma mm_wf_do_open [mm_keeps]:
  assumes "small_files sz" "mm_wf k sz st" "i < MAXSLOTS" "\<not> slot_open (slot_at st i)"
  shows "mm_wf k sz (snd (do_open st path i off len))"
proof (cases "files st path")
  case (Some c)
  let ?fd = "lowest_free (fds st)"
  let ?n = "\<lparr>slot_path = path, slot_fd = int ?fd, slot_fileLength = word_of_nat (length c),
    slot_map = mmap_call path len off, slot_addr = off, slot_length = len\<rparr>"
  have fresh: "?fd \<notin> set (fds st)" by (rule lowest_free_fresh)
  have sz: "sz path = Some (length c)"
    using assms(2) Some by (auto simp: mm_wf_def file_sizes_def)
  show ?thesis
  proof (cases "word_of_nat (length c) < off + len")
    case True
    then show ?thesis using assms(2) Some close_lowest [OF fresh] by (simp add: do_open_def)
  next
    case False
    let ?st = "st\<lparr>fds := ?fd # fds st, slots := (slots st)[i := ?n]\<rparr>"
    have ok: "mapping_ok sz ?n (slot_map ?n)"
      using mmap_call_ok [OF assms(1) sz, of off len ?n] False by simp
    have other: "slot_fd (slot_at st j) \<noteq> int ?fd" if "j < MAXSLOTS" "slot_open (slot_at st j)" for j
      using assms(2) fresh that unfolding mm_wf_def by fastforce
    have "open_count ?st = Suc (open_count st)"
      using filter_length_update [of i "slots st" "\<lambda>s. slot_open s" ?n] assms(2-4)
      by (simp add: open_count_def mm_wf_def)
    then have "mm_wf k sz ?st"
      using assms(2,3) fresh ok other other [THEN not_sym] unfolding mm_wf_def
      by (auto simp: nth_list_update file_sizes_def fun_eq_iff)
    then show ?thesis using Some False by (simp add: do_open_def Let_def)
  qed
qed (use assms(2) in \<open>simp add: do_open_def\<close>)

lemma mm_wf_do_close [mm_keeps]:
  assumes "mm_wf k sz st" "i < MAXSLOTS" "slot_open (slot_at st i)"
  shows "mm_wf k sz (do_close st i)"
proof -
  let ?fd = "slot_fd (slot_at st i)" and ?z = "zero_slot\<lparr>slot_fd := -1\<rparr>"
  have fd: "0 \<le> ?fd" "nat ?fd \<in> set (fds st)" and d: "distinct (fds st)"
    using assms unfolding mm_wf_def by auto
  have flt: "filter (\<lambda>n. int n \<noteq> ?fd) (fds st) = filter (\<lambda>n. n \<noteq> nat ?fd) (fds st)"
    using fd by (intro filter_cong) auto
  have len: "length (filter (\<lambda>n. n \<noteq> nat ?fd) (fds st)) = length (fds st) - 1"
    using fd(2) length_remove1 [of "nat ?fd" "fds st"] distinct_remove1_removeAll [OF d, of "nat ?fd"]
    by (simp add: removeAll_filter_not_eq eq_commute [of "nat _"])
  have "open_count (do_close st i) = open_count st - 1" "0 < open_count st"
    using filter_length_update [of i "slots st" "\<lambda>s. slot_open s" ?z] assms
    by (auto simp: open_count_def mm_wf_def do_close_def close_fd_def zero_slot_def)
  moreover have "nat (slot_fd (slot_at st j)) \<noteq> nat ?fd"
    if "j < MAXSLOTS" "j \<noteq> i" "slot_open (slot_at st j)" for j
    using assms fd(1) that unfolding mm_wf_def by (metis eq_nat_nat_iff)
  ultimately show ?thesis
    using assms fd d len unfolding mm_wf_def
    by (auto simp: do_close_def close_fd_def flt nth_list_update file_sizes_def fun_eq_iff zero_slot_def)
qed

section \<open>Every operation keeps the full invariant\<close>

lemma mm_inv_same_slots: "mm_inv k sz st \<Longrightarrow> mm_wf l sz st' \<Longrightarrow> slots st' = slots st \<Longrightarrow> mm_inv l sz st'"
  by (simp add: mm_inv_def)

lemma mm_invD: "mm_inv k sz st \<Longrightarrow> mm_wf k sz st"
  by (simp add: mm_inv_def)

lemma mm_inv_print [mm_keeps]: "mm_inv k sz st \<Longrightarrow> mm_inv k sz (mm_print s st)"
  by (rule mm_inv_same_slots, assumption) (simp_all add: mm_invD mm_wf_print, simp add: mm_print_def)

lemma mm_inv_device [mm_keeps]: "device_ok hw \<Longrightarrow> mm_inv k sz st \<Longrightarrow> mm_inv k sz (device_acts hw st)"
  by (rule mm_inv_same_slots, assumption) (simp_all add: mm_invD mm_wf_device, simp add: device_acts_def)

lemma mm_inv_write [mm_keeps]: "map_write st m addr bs = Some st' \<Longrightarrow> mm_inv k sz st \<Longrightarrow> mm_inv k sz st'"
  by (rule mm_inv_same_slots, assumption) (auto dest: mm_invD mm_wf_write map_write_frame(1))

lemma mm_inv_stdin: "mm_inv k sz st \<Longrightarrow> mm_inv k sz (st\<lparr>stdin_rest := r\<rparr>)"
  by (rule mm_inv_same_slots, assumption) (simp_all add: mm_invD mm_wf_stdin)

lemma mm_inv_script: "mm_inv k sz st \<Longrightarrow> mm_inv (Suc k) sz (st\<lparr>fds := lowest_free (fds st) # fds st\<rparr>)"
  by (rule mm_inv_same_slots, assumption) (simp_all add: mm_invD mm_wf_script)

lemma mm_inv_do_open [mm_keeps]:
  assumes "small_files sz" "mm_inv k sz st" "i < MAXSLOTS" "\<not> slot_open (slot_at st i)"
  shows "mm_inv k sz (snd (do_open st path i off len))"
  using mm_wf_do_open [OF assms(1) mm_invD [OF assms(2)] assms(3,4)] assms(2)
  by (auto simp: mm_inv_def do_open_def close_fd_def mmap_call_def mappable_def Let_def list_all_iff
      dest!: set_update_subset_insert [THEN subsetD] split: option.split)

lemma mm_inv_do_close [mm_keeps]:
  assumes "mm_inv k sz st" "i < MAXSLOTS" "slot_open (slot_at st i)"
  shows "mm_inv k sz (do_close st i)"
  using mm_wf_do_close [OF mm_invD [OF assms(1)] assms(2,3)] assms(1)
  by (auto simp: mm_inv_def do_close_def close_fd_def zero_slot_def list_all_iff
      dest!: set_update_subset_insert [THEN subsetD])

lemma mm_inv_mapped:
  assumes "mm_inv k sz st" "i < MAXSLOTS" "slot_open (slot_at st i)"
    "mappable (slot_addr (slot_at st i)) (slot_length (slot_at st i))"
  shows "\<exists>f n. slot_map (slot_at st i) = Mapping f (unat (slot_addr (slot_at st i))) (unat (slot_length (slot_at st i))) \<and>
    sz f = Some n \<and> unat (slot_addr (slot_at st i)) + unat (slot_length (slot_at st i)) \<le> n"
proof -
  have "slot_at st i \<in> set (slots st)" using assms(1,2) by (simp add: mm_inv_def mm_wf_def)
  then have "slot_map (slot_at st i) \<noteq> Map_Failed" using assms(1,4) by (auto simp: mm_inv_def list_all_iff)
  then obtain f o' l where m: "slot_map (slot_at st i) = Mapping f o' l" using assms(3) by (cases "slot_map (slot_at st i)") auto
  then have "mapping_ok sz (slot_at st i) (Mapping f o' l)"
    using assms(1,2) unfolding mm_inv_def mm_wf_def by (metis mapping.distinct(3))
  then show ?thesis using m by (auto split: option.splits)
qed

section \<open>Commands and scripts keep it\<close>

text \<open>Whatever an operation that may fault returns satisfies the invariant.\<close>

definition keeps :: "nat \<Rightarrow> (cstr \<Rightarrow> nat option) \<Rightarrow> ('a \<times> mm_state) option \<Rightarrow> bool" where
  "keeps k sz r \<longleftrightarrow> (case r of None \<Rightarrow> True | Some p \<Rightarrow> mm_inv k sz (snd p))"

lemma keeps_Some [simp]: "keeps k sz (Some p) \<longleftrightarrow> mm_inv k sz (snd p)"
  by (simp add: keeps_def)

lemma keeps_None [simp]: "keeps k sz None"
  by (simp add: keeps_def)

lemma keepsD: "keeps k sz r \<Longrightarrow> r = Some (v, st) \<Longrightarrow> mm_inv k sz st"
  by simp

lemma keeps_bind:
  assumes "keeps k sz r" "\<And>v st. r = Some (v, st) \<Longrightarrow> mm_inv k sz st \<Longrightarrow> keeps k sz (f (v, st))"
  shows "keeps k sz (Option.bind r f)"
  using assms by (cases r) auto

lemma keeps_map: "keeps k sz r \<Longrightarrow> (\<And>v st. snd (f (v, st)) = st) \<Longrightarrow> keeps k sz (map_option f r)"
  by (cases r) (auto simp: keeps_def)

lemma keeps_with_arg:
  "mm_inv k sz st \<Longrightarrow> (\<And>v. a = Some v \<Longrightarrow> keeps k sz (f v)) \<Longrightarrow> keeps k sz (with_arg a st f)"
  by (simp add: with_arg_def split: option.split)

lemma keeps_with_args:
  "mm_inv k sz st \<Longrightarrow> keeps k sz body \<Longrightarrow> keeps k sz (with_args u n av st body)"
  by (simp add: with_args_def cmd_usage_def mm_inv_print)

lemma keeps_wait: "device_ok hw \<Longrightarrow> mm_inv k sz st \<Longrightarrow> keeps k sz (wait_for_bits hw st slot creg bits want n)"
  by (induction n arbitrary: st) (auto simp: mm_inv_device split: Option.bind_split)

lemma store32_keeps: "store32 st slot addr v = Some st' \<Longrightarrow> mm_inv k sz st \<Longrightarrow> mm_inv k sz st'"
  unfolding store32_def by (rule mm_inv_write)

lemma wait_keeps:
  "wait_for_bits hw st slot creg bits want n = Some (rc, st') \<Longrightarrow> device_ok hw \<Longrightarrow> mm_inv k sz st \<Longrightarrow> mm_inv k sz st'"
  by (rule keepsD [OF keeps_wait])

lemma keeps_mdio:
  assumes "device_ok hw" "mm_inv k sz st"
  shows "keeps k sz (mdio_command hw st slot ar cr rreg cmd)"
  unfolding mdio_command_def
proof (intro keeps_bind keeps_wait assms, goal_cases)
  case (1 rc st)
  then show ?case using assms(1)
    by (auto split: Option.bind_split dest!: store32_keeps [where k = k and sz = sz] intro: mm_inv_device
        dest: wait_keeps [where k = k and sz = sz])
qed

lemma keeps_mread: "device_ok hw \<Longrightarrow> mm_inv k sz st \<Longrightarrow> keeps k sz (mread_loop hw st slot ar cr port dev reg count i)"
proof (induction hw st slot ar cr port dev reg count i rule: mread_loop.induct)
  case (1 hw st slot ar cr port dev reg count i)
  let ?r = "mdio_command hw st slot ar cr (ucast (reg + i))
    (ucast (push_bit 26 CMD_ADDR_THEN_READ OR push_bit 21 dev OR push_bit 16 port))"
  have r: "keeps k sz ?r" by (rule keeps_mdio [OF "1.prems"])
  show ?case
  proof (cases "i < count")
    case True
    show ?thesis
    proof (cases ?r)
      case (Some p)
      obtain v st' where p: "p = (v, st')" by (cases p)
      have st': "mm_inv k sz st'" using keepsD [OF r] Some p by simp
      show ?thesis
      proof (cases v)
        case (Some w)
        then have "keeps k sz (mread_loop hw (mm_print (mdio_line port dev (unat (ucast (reg + i) :: u32)) w) st') slot
            ar cr port dev reg count (i + 1))"
          using "1.IH" [OF True refl refl, of p v st' w] \<open>?r = Some p\<close> p "1.prems"(1) mm_inv_print [OF st'] by simp
        then show ?thesis
          by (subst mread_loop.simps) (simp add: True \<open>?r = Some p\<close> p Some Let_def)
      qed (subst mread_loop.simps, simp add: True Some p Let_def st')
    qed (subst mread_loop.simps, simp add: True Let_def)
  qed (subst mread_loop.simps, simp add: "1.prems")
qed

lemma keeps_mwrite: "device_ok hw \<Longrightarrow> mm_inv k sz st \<Longrightarrow> keeps k sz (do_mwrite hw st slot ar cr port dev reg v)"
  unfolding do_mwrite_def Let_def
  by (drule (1) keeps_mdio) (auto simp: mm_inv_print split: option.split dest!: keepsD)

lemma asSlot_Some:
  assumes "asSlot st str w = Some i"
  shows "i < MAXSLOTS" "slot_open (slot_at st i) \<longleftrightarrow> w"
proof -
  from assms obtain v where "asUnsigned str = Some v" by (cases "asUnsigned str") (auto simp: asSlot_def)
  then have v: "i = unat v" "\<not> of_nat MAXSLOTS \<le> v" "slot_open (slot_at st i) \<longleftrightarrow> w"
    using assms by (auto simp: asSlot_def split: if_splits)
  show "slot_open (slot_at st i) \<longleftrightarrow> w" by (rule v(3))
  show "i < MAXSLOTS" using v by (simp add: not_le word_less_nat_alt)
qed

lemma keeps_read: "mm_inv k sz st \<Longrightarrow> keeps k sz (do_read st slot addr n)"
  by (auto simp: do_read_def mm_inv_print split: Option.bind_split option.split)

lemma keeps_dump: "mm_inv k sz st \<Longrightarrow> keeps k sz (do_hexdump st slot addr n count)"
  by (cases "hexdump_loop st slot addr n count 0 0") (auto simp: do_hexdump_def mm_inv_print)

lemma keeps_write: "mm_inv k sz st \<Longrightarrow> keeps k sz (map_option (Pair 0) (do_write st slot addr n v))"
  by (cases "do_write st slot addr n v") (auto simp: do_write_def intro: mm_inv_write)

lemmas keeps_ops = keeps_with_args keeps_with_arg keeps_read keeps_dump keeps_write keeps_mwrite

lemma keeps_command:
  assumes "device_ok hw" "small_files sz" "mm_inv k sz st" "(c, f) \<in> set (cmds hw)"
  shows "keeps k sz (f av st)"
proof -
  have "keeps k sz (cmd_open av st)" unfolding cmd_open_def
    by (intro keeps_ops assms) (auto dest: asSlot_Some intro!: mm_inv_do_open assms)
  moreover have "keeps k sz (cmd_close av st)" unfolding cmd_close_def
    by (intro keeps_ops assms) (auto dest: asSlot_Some intro!: mm_inv_do_close assms)
  moreover have "keeps k sz (cmd_read av st)" "keeps k sz (cmd_write av st)" "keeps k sz (cmd_dump av st)"
    unfolding cmd_read_def cmd_write_def cmd_dump_def by (intro keeps_ops assms)+
  moreover have "keeps k sz (cmd_msleep hw av st)" "keeps k sz (cmd_mread hw av st)" "keeps k sz (cmd_mwrite hw av st)"
    unfolding cmd_msleep_def cmd_mread_def do_mread_def cmd_mwrite_def
    by (intro keeps_ops keeps_mread keeps_Some [THEN iffD2] assms; simp add: assms mm_inv_device)+
  moreover have "keeps k sz (cmd_echo av st)"
    by (simp add: cmd_echo_def cmd_usage_def assms(3) mm_inv_print)
  ultimately show ?thesis using assms(4) by (auto simp: cmds_def)
qed

lemma keeps_help:
  assumes "device_ok hw" "small_files sz" "mm_inv k sz st" "set cs \<subseteq> set (cmds hw)"
  shows "keeps k sz (map_option (Pair e)
    (fold (\<lambda>c st. Option.bind st (\<lambda>st. map_option snd (snd c [[], lit ''help''] st))) cs (Some st)))"
  using assms(3,4)
proof (induction cs arbitrary: st)
  case (Cons c cs)
  show ?case
  proof (cases "snd c [[], lit ''help''] st")
    case None
    have "fold (\<lambda>c st. Option.bind st (\<lambda>st. map_option snd (snd c [[], lit ''help''] st))) cs None = None"
      by (induction cs) simp_all
    then show ?thesis by (simp add: None)
  next
    case (Some p)
    have "keeps k sz (snd c [[], lit ''help''] st)"
      using Cons.prems by (intro keeps_command [OF assms(1,2), of _ _ "fst c" "snd c"]) auto
    then show ?thesis using Some Cons by simp
  qed
qed simp

lemma keeps_run_command:
  assumes "device_ok hw" "small_files sz" "mm_inv k sz st"
  shows "keeps k sz (run_command hw av st)"
proof (cases "map_of (cmds hw) (hd av)")
  case (Some f)
  have "keeps k sz (map_option (\<lambda>(rc, st). (if rc < 0 then 1 else 0 :: nat, st)) (f av st))"
    by (rule keeps_map) (use keeps_command [OF assms map_of_SomeD [OF Some]] in auto)
  then show ?thesis
    using assms(3) keeps_help [OF assms, of "cmds hw" "0 :: nat"] by (simp add: run_command_def Some)
qed (use assms(3) keeps_help [OF assms, of "cmds hw" "0 :: nat"] in \<open>simp add: run_command_def\<close>)

lemma keeps_process_line:
  assumes "device_ok hw" "small_files sz" "mm_inv k sz st"
  shows "keeps k sz (process_line hw quiet name n bytes st)"
  using assms keeps_run_command [OF assms(1,2)] mm_inv_print
  by (simp add: process_line_def Let_def split: option.split)

lemma keeps_process_lines:
  "device_ok hw \<Longrightarrow> small_files sz \<Longrightarrow> mm_inv k sz st \<Longrightarrow> keeps k sz (process_lines hw quiet tty name n err inp st)"
proof (induction hw quiet tty name n err inp st rule: process_lines.induct)
  case (1 hw quiet tty name n err inp st)
  let ?st = "if tty then mm_print (lit ''mmap>> '') st else st"
  have st: "mm_inv k sz ?st" using "1.prems"(3) by (simp add: mm_inv_print)
  show ?case
  proof (cases "inp = []")
    case False
    let ?r = "process_line hw quiet name (n + 1) (fst (fgets_line 1023 inp)) ?st"
    have "keeps k sz ?r" by (rule keeps_process_line [OF "1.prems"(1,2) st])
    then show ?thesis
      using "1.IH" [OF refl False _ _ "1.prems"(1,2)] False
      by (subst process_lines.simps) (auto simp: Let_def split: option.split)
  qed (subst process_lines.simps, simp add: st)
qed

text \<open>
  Claim C17. Whatever a script contains, if it does not drive the tool out of its memory then afterwards
  every open slot has its own open descriptor, files have the sizes they had, and no descriptor is lost but the
  one of the script itself: that is never closed. An open slot has a mapping, at the address and of the length it records and
  inside its file, if \<open>mmap\<close> can map that range (a page-aligned address and a length that is not 0); otherwise the
  mapping has failed although the slot counts as open (\<open>failed_mapping_counts_as_open\<close>).
\<close>
theorem script_keeps_slots:
  assumes "device_ok hw" "small_files sz" "mm_inv k sz st" "processFile hw tty file quiet st = Some (rc, st')"
  shows "mm_inv (if file = None \<or> file = Some (lit ''-'') \<or> files st (the file) = None then k else Suc k) sz st' \<and>
    (\<forall>i < MAXSLOTS. slot_open (slot_at st' i) \<and> mappable (slot_addr (slot_at st' i)) (slot_length (slot_at st' i)) \<longrightarrow>
       (\<exists>f n. slot_map (slot_at st' i) = Mapping f (unat (slot_addr (slot_at st' i))) (unat (slot_length (slot_at st' i))) \<and>
          sz f = Some n \<and> unat (slot_addr (slot_at st' i)) + unat (slot_length (slot_at st' i)) \<le> n))"
proof -
  let ?k = "if file = None \<or> file = Some (lit ''-'') \<or> files st (the file) = None then k else Suc k"
  consider "file = None \<or> file = Some (lit ''-'')"
    | "\<not> (file = None \<or> file = Some (lit ''-''))" "files st (the file) = None"
    | c where "\<not> (file = None \<or> file = Some (lit ''-''))" "files st (the file) = Some c" by blast
  then have "mm_inv ?k sz st'"
  proof cases
    case 1
    then show ?thesis
      using assms(4) keeps_process_lines [OF assms(1,2) mm_inv_stdin [OF assms(3)], of quiet "tty None"
          "lit ''stdin''" 0 0 "stdin_rest st" "[]"]
      by (auto simp: processFile_def)
  next
    case 2
    then show ?thesis using assms(3,4) by (auto simp: processFile_def)
  next
    case (3 c)
    then show ?thesis
      using assms(4) keeps_process_lines [OF assms(1,2) mm_inv_script [OF assms(3)], of quiet "tty file" "the file" 0 0 c]
      by (auto simp: processFile_def)
  qed
  then show ?thesis using mm_inv_mapped by blast
qed

section \<open>Which accesses are possible\<close>

definition in_pages :: "mm_state \<Rightarrow> nat \<Rightarrow> nat \<Rightarrow> nat \<Rightarrow> bool" where
  "in_pages st slot a n \<longleftrightarrow>
     (case slot_map (slot_at st slot) of
        Mapping f off len \<Rightarrow> a + n \<le> page_round len \<and> files st f \<noteq> None
      | _ \<Rightarrow> False)"

abbreviation (input) word_size :: "nat \<Rightarrow> bool" where
  "word_size n \<equiv> n \<in> {1, 2, 4, 8}"

lemma map_read_None_iff: "map_read st (slot_map (slot_at st slot)) a n = None \<longleftrightarrow> \<not> in_pages st slot (unat a) n"
  by (cases "slot_map (slot_at st slot)") (auto simp: in_pages_def)

lemma read_helper_None_iff:
  "word_size n \<Longrightarrow> do_read_helper st slot a n = None \<longleftrightarrow> \<not> in_pages st slot (unat a) n"
  using map_read_None_iff [of st slot a n] by (simp add: do_read_helper_def)

lemma in_pages_less:
  assumes "small_files sz" "mm_wf k sz st" "slot < MAXSLOTS" "in_pages st slot a n"
  shows "a + n < 2 ^ 63 + 4096"
proof -
  obtain f off len where m: "slot_map (slot_at st slot) = Mapping f off len" and le: "a + n \<le> page_round len"
    using assms(4) by (auto simp: in_pages_def split: mapping.splits)
  have "mapping_ok sz (slot_at st slot) (Mapping f off len)"
    using assms(2,3) m unfolding mm_wf_def by (metis mapping.distinct(3))
  then obtain N where "sz f = Some N" "len \<le> N" by (auto split: option.splits)
  moreover from this have "N < 2 ^ 63" using assms(1) unfolding small_files_def by blast
  ultimately have "len < 2 ^ 63" by linarith
  then have "page_round len < 2 ^ 63 + 4096" by (simp add: page_round_def)
  then show ?thesis using le by linarith
qed

lemma in_pages_mono: "in_pages st slot a n \<Longrightarrow> b + m \<le> a + n \<Longrightarrow> in_pages st slot b m"
  by (auto simp: in_pages_def split: mapping.splits)

lemma line_reads:
  assumes "word_size n" "hexdump_line st slot addr n count i j k err = Some r" "m < k"
    "\<forall>l \<le> m. i + j + of_nat l < count"
  shows "in_pages st slot (unat (addr + (i + j + of_nat m) * of_nat n)) n"
  using assms(2-4)
proof (induction k arbitrary: j err r m)
  case (Suc k)
  have c: "\<not> count \<le> i + j" using Suc.prems(3) [rule_format, of 0] by simp
  with Suc.prems(1) obtain err' r' where rd: "do_read_helper st slot (addr + (i + j) * of_nat n) n \<noteq> None"
      and rest: "hexdump_line st slot addr n count i (j + 1) k err' = Some r'"
    by (auto split: Option.bind_splits prod.splits option.splits)
  show ?case
  proof (cases m)
    case 0
    then show ?thesis using rd read_helper_None_iff [OF assms(1)] by simp
  next
    case (Suc m')
    have "\<forall>l \<le> m'. i + (j + 1) + of_nat l < count"
    proof (intro allI impI)
      fix l
      assume "l \<le> m'"
      then show "i + (j + 1) + of_nat l < count" using Suc.prems(3) [rule_format, of "Suc l"] Suc by (simp add: ac_simps)
    qed
    then show ?thesis using Suc.IH [OF rest, of m'] Suc.prems(2) Suc by (simp add: ac_simps)
  qed
qed simp

definition dump_reads :: "mm_state \<Rightarrow> nat \<Rightarrow> u64 \<Rightarrow> nat \<Rightarrow> u64 \<Rightarrow> u64 \<Rightarrow> bool" where
  "dump_reads st slot addr n count i \<longleftrightarrow>
     word_size n \<longrightarrow> (\<forall>w. i \<le> w \<longrightarrow> w < count \<longrightarrow> in_pages st slot (unat (addr + w * of_nat n)) n)"

lemma loop_reads:
  assumes "hexdump_loop st slot addr n count i err = Some r"
  shows "dump_reads st slot addr n count i"
proof (rule hexdump_loop.raw_induct [where P = "\<lambda>st slot addr n count i err r. dump_reads st slot addr n count i",
      OF _ assms], goal_cases)
  case (1 rec st slot addr n count i err r)
  show ?case
    unfolding dump_reads_def
  proof (intro impI allI)
    fix w
    assume n: "word_size n" and w: "i \<le> w" "w < count"
    then have "i < count" by simp
    with 1(2) obtain err' line err'' r' where
        line: "hexdump_line st slot addr n count i 0 (16 div n) err = Some (err', line)"
      and rest: "rec st slot addr n count (i + of_nat (16 div n)) err' = Some (err'', r')"
      by (auto split: Option.bind_splits)
    show "in_pages st slot (unat (addr + w * of_nat n)) n"
    proof (cases "unat w - unat i < 16 div n")
      case True
      let ?m = "unat w - unat i"
      have nowrap: "unat (i + of_nat l) = unat i + l" if "l \<le> ?m" for l
      proof -
        have "unat i + l < 2 ^ 64" using that w(1) unsigned_less [where 'a = nat, of w] by (simp add: word_le_nat_alt)
        moreover from this have "unat (of_nat l :: u64) = l" by (simp add: unsigned_of_nat take_bit_nat_eq_self_iff)
        ultimately show ?thesis by (simp add: unat_word_ariths)
      qed
      have "\<forall>l \<le> ?m. i + 0 + of_nat l < count"
        using nowrap w by (simp add: word_less_nat_alt word_le_nat_alt) linarith
      moreover have "i + 0 + of_nat ?m = w"
        using nowrap [of ?m] w(1) by (simp add: word_unat_eq_iff word_le_nat_alt)
      ultimately show ?thesis using line_reads [OF n line True] by simp
    next
      case False
      have "i + of_nat (16 div n) \<le> w"
        using False w n by (auto simp: word_le_nat_alt unat_word_ariths)
      then show ?thesis using 1(1) [OF rest] n w(2) unfolding dump_reads_def by blast
    qed
  qed
qed

lemma line_returns:
  assumes "word_size n" "\<forall>w < count. in_pages st slot (unat (addr + w * of_nat n)) n"
  shows "hexdump_line st slot addr n count i j k err \<noteq> None"
proof (induction k arbitrary: j err)
  case (Suc k)
  show ?case
  proof (cases "count \<le> i + j")
    case False
    then have "in_pages st slot (unat (addr + (i + j) * of_nat n)) n" using assms(2) by simp
    then have "do_read_helper st slot (addr + (i + j) * of_nat n) n \<noteq> None"
      using read_helper_None_iff [OF assms(1)] by blast
    then show ?thesis
      using Suc.IH [of "j + 1" "-1"] Suc.IH [of "j + 1" err] False
      by (auto split: Option.bind_split prod.split option.split)
  qed simp
qed simp

lemma loop_returns:
  assumes "word_size n" "\<forall>w < count. in_pages st slot (unat (addr + w * of_nat n)) n"
    "unat count + 16 < 2 ^ 64"
  shows "hexdump_loop st slot addr n count i err \<noteq> None"
proof (induction "unat count - unat i" arbitrary: i err rule: less_induct)
  case less
  show ?case
  proof (cases "i < count")
    case True
    let ?i = "i + of_nat (16 div n) :: u64"
    obtain err' line where line: "hexdump_line st slot addr n count i 0 (16 div n) err = Some (err', line)"
      using line_returns [OF assms(1,2)] by (metis not_Some_eq surj_pair)
    have "unat (of_nat (16 div n) :: u64) = 16 div n" "0 < 16 div n" "16 div n \<le> 16"
      using assms(1) by auto
    moreover have "unat i < unat count" using True by (simp add: word_less_nat_alt)
    ultimately have "unat i + unat (of_nat (16 div n) :: u64) < 2 ^ 64" using assms(3) by linarith
    then have "unat ?i = unat i + 16 div n"
      using \<open>unat (of_nat (16 div n) :: u64) = 16 div n\<close> by (subst unat_add_lem [THEN iffD1]) simp_all
    then have "unat count - unat ?i < unat count - unat i"
      using True \<open>0 < 16 div n\<close> by (simp add: word_less_nat_alt)
    from less [OF this, of err'] line True show ?thesis
      by (subst hexdump_loop.simps) (auto split: Option.bind_split)
  qed (subst hexdump_loop.simps, simp)
qed

lemma word_range:
  assumes "unat addr + unat w * n < 2 ^ 64" "n < 2 ^ 64"
  shows "unat (addr + w * of_nat n :: u64) = unat addr + unat w * n"
proof -
  have n: "unat (of_nat n :: u64) = n" using assms(2) by (simp add: unsigned_of_nat take_bit_nat_eq_self_iff)
  have "unat (w * of_nat n) = unat w * n"
    using assms(1) n by (subst unat_mult_lem [THEN iffD1]) auto
  then show ?thesis using assms(1) by (subst unat_add_lem [THEN iffD1]) auto
qed

lemma dump_range_iff:
  fixes addr count :: u64
  assumes "small_files sz" "mm_wf k sz st" "slot < MAXSLOTS" "word_size n" "count \<noteq> 0"
  shows "(\<forall>w < count. in_pages st slot (unat (addr + w * of_nat n)) n) \<longleftrightarrow>
    in_pages st slot (unat addr) (unat count * n)"
proof
  assume all: "\<forall>w < count. in_pages st slot (unat (addr + w * of_nat n)) n"
  have n: "n < 2 ^ 64" using assms(4) by auto
  have "unat (addr + of_nat l * of_nat n) = unat addr + l * n \<and> in_pages st slot (unat addr + l * n) n"
    if "l < unat count" for l
    using that
  proof (induction l)
    case 0
    then show ?case using all [rule_format, of 0] assms(5) by (simp add: word_neq_0_conv)
  next
    case (Suc l)
    have l1: "unat (of_nat (Suc l) :: u64) = Suc l"
      using Suc.prems unsigned_less [where 'a = nat, of count]
      by (simp add: unsigned_of_nat take_bit_nat_eq_self_iff del: of_nat_Suc)
    then have l2: "of_nat (Suc l) < count" using Suc.prems by (simp add: word_less_nat_alt del: of_nat_Suc)
    have "unat addr + Suc l * n < 2 ^ 63 + 4096"
      using in_pages_less [OF assms(1-3), of "unat addr + l * n" n] Suc by simp
    then have "unat (addr + of_nat (Suc l) * of_nat n) = unat addr + Suc l * n"
      using word_range [of addr "of_nat (Suc l)" n] n l1 by simp
    then show ?case using all [rule_format, OF l2] by metis
  qed
  from this [of "unat count - 1"] have "in_pages st slot (unat addr + (unat count - 1) * n) n"
    using assms(5) by (simp add: unat_gt_0)
  moreover have "unat count = Suc (unat count - 1)" using assms(5) by (simp add: unat_gt_0)
  then have "unat count * n = (unat count - 1) * n + n" by (metis add.commute mult_Suc)
  ultimately show "in_pages st slot (unat addr) (unat count * n)"
    by (elim in_pages_mono) simp
next
  assume r: "in_pages st slot (unat addr) (unat count * n)"
  show "\<forall>w < count. in_pages st slot (unat (addr + w * of_nat n)) n"
  proof (intro allI impI)
    fix w :: u64
    assume "w < count"
    then have "Suc (unat w) * n \<le> unat count * n" by (intro mult_le_mono1) (simp add: word_less_nat_alt)
    then have le: "unat addr + unat w * n + n \<le> unat addr + unat count * n" by simp
    moreover have "unat addr + unat count * n < 2 ^ 63 + 4096" by (rule in_pages_less [OF assms(1-3) r])
    ultimately have "unat (addr + w * of_nat n) = unat addr + unat w * n"
      using assms(4) by (intro word_range) auto
    then show "in_pages st slot (unat (addr + w * of_nat n)) n" using in_pages_mono [OF r, of "unat addr + unat w * n" n] le by simp
  qed
qed

text \<open>
  Claim C36. \<open>dump\<close> checks none of its bounds, and what decides is the memory: of a word size the tool
  accepts, it comes to an end (the counter of its loop cannot run around) exactly when it has nothing to print or
  the whole range lies in the pages mapped for the slot; otherwise it leaves them.
\<close>
theorem dump_returns_iff:
  assumes "small_files sz" "mm_wf k sz st" "slot < MAXSLOTS" "word_size n"
  shows "do_hexdump st slot addr n count \<noteq> None \<longleftrightarrow>
    count = 0 \<or> in_pages st slot (unat addr) (unat count * n)"
proof (cases "count = 0")
  case True
  then show ?thesis by (simp add: do_hexdump_def hexdump_loop.simps)
next
  case False
  note iff = dump_range_iff [OF assms False, of addr]
  show ?thesis
  proof (cases "in_pages st slot (unat addr) (unat count * n)")
    case True
    have "unat count \<le> unat count * n" using assms(4) by auto
    then have "unat count < 2 ^ 63 + 4096" using in_pages_less [OF assms(1-3) True] by linarith
    then have "unat count + 16 < 2 ^ 64" by simp
    then show ?thesis using loop_returns [OF assms(4) iff [THEN iffD2, OF True]] True by (simp add: do_hexdump_def)
  next
    case out: False
    then have "hexdump_loop st slot addr n count 0 0 = None"
      using loop_reads [of st slot addr n count 0 0] iff assms(4) unfolding dump_reads_def
      by (metis not_Some_eq word_zero_le)
    then show ?thesis using out False by (simp add: do_hexdump_def)
  qed
qed

section \<open>Stores are seen\<close>

definition maps_byte :: "mm_state \<Rightarrow> nat \<Rightarrow> u64 \<Rightarrow> cstr \<Rightarrow> nat \<Rightarrow> bool" where
  "maps_byte st slot a f p \<longleftrightarrow>
     (case slot_map (slot_at st slot) of Mapping g off len \<Rightarrow> g = f \<and> p = off + unat a | _ \<Rightarrow> False)"

text \<open>
  A store through one slot is read back through every slot whose mapping shows the same
  bytes: the value, cut to the size of the access; any other byte of any file is as it was.
\<close>
lemma write_seen_through_slots:
  assumes "word_size n" "in_pages st s (unat a) n" "maps_byte st s a f p" "files st f = Some c" "p + n \<le> length c"
    "in_pages st t (unat b) n" "maps_byte st t b f p"
  shows "\<exists>st'. do_write st s a n v = Some st' \<and>
    do_read_helper st' t b n = Some (Some (of_nat (unat v mod 256 ^ n))) \<and>
    (\<forall>g d q. files st g = Some d \<longrightarrow> g \<noteq> f \<or> q < p \<or> p + n \<le> q \<longrightarrow> q < length d \<longrightarrow>
       (\<exists>d'. files st' g = Some d' \<and> d' ! q = d ! q))"
proof -
  obtain off len where s: "slot_map (slot_at st s) = Mapping f off len" "p = off + unat a"
    using assms(3) by (auto simp: maps_byte_def split: mapping.splits)
  obtain off' len' where t: "slot_map (slot_at st t) = Mapping f off' len'" "p = off' + unat b"
    using assms(7) by (auto simp: maps_byte_def split: mapping.splits)
  let ?bs = "le_take n (unat v)"
  let ?c = "store_bytes c p ?bs"
  let ?st = "st\<lparr>files := (files st)(f \<mapsto> ?c)\<rparr>"
  have w: "do_write st s a n v = Some ?st"
    using assms(2,4) s by (simp add: do_write_def in_pages_def)
  have "map_read ?st (slot_map (slot_at ?st t)) b n = Some ?bs"
    using assms(5,6) t load_store_bytes [of p ?bs c] by (simp add: in_pages_def)
  then have r: "do_read_helper ?st t b n = Some (Some (of_nat (unat v mod 256 ^ n)))"
    using assms(1) by (simp only: do_read_helper_def if_True option.map le_nat_le_take)
  have "?c ! q = c ! q" if "q < p \<or> p + n \<le> q" "q < length c" for q
    using that assms(5) by (auto simp: store_bytes_def nth_append)
  then have "\<exists>d'. files ?st g = Some d' \<and> d' ! q = d ! q"
    if "files st g = Some d" "g \<noteq> f \<or> q < p \<or> p + n \<le> q" "q < length d" for g d q
    using that assms(4) by auto
  then show ?thesis using w r by blast
qed

text \<open>
  \<open>mmap\<close> reports failure as \<open>MAP_FAILED\<close>, the tool looks for NULL: opening a range inside a file
  whose offset is no multiple of the page size succeeds, the slot then counts as open, and every read or write
  of it leaves the memory.
\<close>
lemma failed_mapping_counts_as_open:
  assumes "mm_wf k sz st" "i < MAXSLOTS" "files st path = Some c" "off + len \<le> of_nat (length c)"
    "unat off mod 4096 \<noteq> 0"
  shows "fst (do_open st path i off len) = 0 \<and>
    slot_open (slot_at (snd (do_open st path i off len)) i) \<and>
    (\<forall>a n v. word_size n \<longrightarrow> do_read (snd (do_open st path i off len)) i a n = None \<and>
       do_write (snd (do_open st path i off len)) i a n v = None)"
proof -
  have "slot_map (slot_at (snd (do_open st path i off len)) i) = Map_Failed" "fst (do_open st path i off len) = 0"
    using assms(1-3,5) assms(4) [folded not_less] by (simp_all add: do_open_def Let_def mmap_call_def mm_wf_def)
  then show ?thesis by (auto simp: do_read_def do_read_helper_def do_write_def)
qed

section \<open>An example\<close>

text \<open>A device file of sixteen bytes, and a script that opens it in two slots.\<close>

definition dev_files :: "cstr \<Rightarrow> byte list option" where
  "dev_files = [lit ''/dev/r'' \<mapsto> replicate 16 7]"

definition dev_state :: mm_state where
  "dev_state = snd (do_open (snd (do_open (mm_init dev_files []) (lit ''/dev/r'') 0 0 16)) (lit ''/dev/r'') 1 0 8)"

abbreviation (input) dev_sizes :: "cstr \<Rightarrow> nat option" where
  "dev_sizes \<equiv> map_option length \<circ> dev_files"

lemma dev_small: "small_files dev_sizes"
  by (simp add: small_files_def dev_files_def)

lemma init_wf: "mm_wf 3 (map_option length \<circ> fs) (mm_init fs inp)"
  by (simp add: mm_wf_def mm_init_def open_count_def file_sizes_def zero_slot_def fun_eq_iff)

lemma dev_maps:
  "slot_map (slot_at dev_state 0) = Mapping (lit ''/dev/r'') 0 16"
  "slot_map (slot_at dev_state 1) = Mapping (lit ''/dev/r'') 0 8"
  "files dev_state = dev_files"
  by (simp_all add: dev_state_def do_open_def Let_def mm_init_def dev_files_def mmap_call_def zero_slot_def)

lemma init_inv: "mm_inv 3 (map_option length \<circ> fs) (mm_init fs inp)"
  using init_wf [of fs inp] by (simp add: mm_inv_def) (simp add: mm_init_def zero_slot_def list_all_iff)

lemma dev_inv: "mm_inv 3 dev_sizes dev_state"
  unfolding dev_state_def
  by (intro mm_inv_do_open dev_small init_inv)
    (simp_all add: do_open_def Let_def mm_init_def dev_files_def mmap_call_def zero_slot_def)

lemmas dev_wf = mm_invD [OF dev_inv]

lemma fgets_whole_line: "10 \<notin> set s \<Longrightarrow> length s < n \<Longrightarrow> fgets_line n (s @ 10 # r) = (s @ [10], r)"
  by (induction n "s @ 10 # r" arbitrary: s rule: fgets_line.induct) (auto simp: Cons_eq_append_conv)

abbreviation (input) dev_script :: "byte list" where
  "dev_script \<equiv> lit ''close 1'' @ [10]"

lemma dev_script_words: "line_args dev_script = Some [lit ''close'', lit ''1'']"
  by (simp add: line_args_def strtok_words.simps lit_def is_delim_def)

lemma asUnsigned_1: "asUnsigned (lit ''1'') = Some 1"
  by (simp add: asUnsigned_def strtoul_with_def num_sign_def lit_def is_space_def num_base0_def hex_prefix_def
      digit_val_def is_digit_def)

lemma dev_script_command: "run_command hw [lit ''close'', lit ''1''] dev_state = Some (0, do_close dev_state 1)"
  by (simp add: run_command_def cmds_def cmd_close_def with_args_def with_arg_def wants_help_def asSlot_def
      asUnsigned_1 word_le_nat_alt dev_maps dev_maps(2) [unfolded One_nat_def])
   (simp add: lit_def)

lemma dev_script_runs:
  "processFile id (\<lambda>_. False) None True (dev_state\<lparr>stdin_rest := dev_script\<rparr>) = Some (0, do_close dev_state 1)"
proof -
  have d: "dev_state\<lparr>stdin_rest := []\<rparr> = dev_state"
    by (simp add: dev_state_def do_open_def Let_def mm_init_def dev_files_def)
  have c: "cstr_of dev_script = dev_script"
    by (rule cstr_of_id) (simp add: nul_free_def lit_def)
  have f: "fgets_line 1023 dev_script = (dev_script, [])"
    using fgets_whole_line [of "lit ''close 1''" 1023 "[]"] by (simp add: lit_def)
  have l: "process_line id True (lit ''stdin'') 1 dev_script dev_state = Some (0, do_close dev_state 1)"
    unfolding process_line_def Let_def c dev_script_words option.case if_True dev_script_command
    by (simp add: lit_def dec_nat.simps)
  have e: "process_lines id True False (lit ''stdin'') 1 0 [] st = Some (0, st)" for st
    by (subst process_lines.simps) simp
  have "process_lines id True False (lit ''stdin'') 0 0 dev_script dev_state = Some (0, do_close dev_state 1)"
    unfolding process_lines.simps [of _ _ _ _ 0] Let_def if_False f fst_conv snd_conv add_0 l option.case prod.case e
    by simp
  then show ?thesis by (simp add: processFile_def d)
qed

theorem script_keeps_slots_witness:
  "processFile id (\<lambda>_. False) None True (dev_state\<lparr>stdin_rest := dev_script\<rparr>) = Some (0, do_close dev_state 1) \<and>
    mm_inv 3 dev_sizes (do_close dev_state 1)"
  using script_keeps_slots [OF _ dev_small mm_inv_stdin [OF dev_inv] dev_script_runs] dev_script_runs
  by (simp add: device_ok_def)

theorem dump_returns_iff_witness:
  "do_hexdump dev_state 0 4 4 3 \<noteq> None \<and> do_hexdump dev_state 0 4 4 1024 = None"
  using dump_returns_iff [OF dev_small dev_wf, of 0 4 4 3] dump_returns_iff [OF dev_small dev_wf, of 0 4 4 1024]
  by (simp add: in_pages_def dev_maps page_round_def dev_files_def del: not_None_eq)

end
