(* ===== verification/Isostream.thy ===== *)
theory Isostream
  imports Complex_Main C_Num Getopt
begin

text \<open>
  The isochronous stream tester, \<^verbatim>\<open>src/cmds/isostream.c\<close>: a server sends data at a fixed average rate, a
  client measures how often, how deep and how long the stream falls behind it.

  Each loop runs over a list of events, one per round: what the clock, the sockets and the other system
  calls answered in it. A loop that has used up its events is still running. \<open>long long\<close> is an integer
  here: the products of the source stay below \<open>2 ^ 63\<close> for the first 292 years of a clock in microseconds.
  Times are in microseconds; the texts with three decimals that \<open>printf\<close> makes of them are left as the
  numbers, and so are the messages on standard error. The seconds of \<open>-s\<close> are a rational number.
\<close>

abbreviation (input) MAGIC :: nat where "MAGIC \<equiv> 0x424c4f50"
abbreviation (input) BUFSIZE :: int where "BUFSIZE \<equiv> 1024 * 1024"
abbreviation (input) MIN_PERIODS_PER_SEC :: int where "MIN_PERIODS_PER_SEC \<equiv> 10"
abbreviation (input) DROPOUT_MIN_USEC :: int where "DROPOUT_MIN_USEC \<equiv> 100 * 1000"
abbreviation (input) MAX_CHILDREN :: int where "MAX_CHILDREN \<equiv> 8"
abbreviation (input) MAX_MBITS :: int where "MAX_MBITS \<equiv> 1000"

text \<open>\<open>monotime\<close>: the clock in microseconds, never 0.\<close>

definition monotime :: "int \<Rightarrow> int \<Rightarrow> int" where
  "monotime tv_sec tv_nsec =
     (let result = tv_sec * 1000000 + c_quot tv_nsec 1000 in if result = 0 then 1 else result)"

text \<open>The timeout of \<open>do_select\<close>, as seconds and microseconds; none when it is negative.\<close>

definition select_timeout :: "int \<Rightarrow> (int \<times> int) option" where
  "select_timeout usec = (if usec \<ge> 0 then Some (c_quot usec 1000000, c_rem usec 1000000) else None)"

section \<open>The server's connection\<close>

text \<open>What \<open>run_server\<close> does with the request it reads: 8 bytes, both numbers in network order.\<close>

definition be32 :: "byte list \<Rightarrow> nat" where
  "be32 bs = foldl (\<lambda>v b. 256 * v + unat b) 0 bs"

definition server_request :: "byte list option \<Rightarrow> int option" where
  "server_request req =
     (case req of
        None \<Rightarrow> None
      | Some bs \<Rightarrow>
         if length bs < 8 then None
         else if be32 (take 4 bs) \<noteq> MAGIC then None
         else (let megabits_per_sec = int (be32 (take 4 (drop 4 bs)))
               in if megabits_per_sec < 0 \<or> megabits_per_sec > MAX_MBITS then None else Some megabits_per_sec))"

definition bytes_per_period :: "int \<Rightarrow> int" where
  "bytes_per_period mb =
     (let b = c_quot (c_quot (mb * 1000000) 8) MIN_PERIODS_PER_SEC in if b > 65536 then 65536 else b)"

text \<open>
  A round at time \<open>now\<close>, \<open>total_bytes\<close> bytes having been sent: it sleeps for some nanoseconds or writes some bytes.
\<close>

datatype srv_action = Srv_Sleep int | Srv_Write int

definition server_action :: "int \<Rightarrow> int \<Rightarrow> int \<Rightarrow> int \<Rightarrow> srv_action" where
  "server_action mb start now total_bytes =
     (let goal = c_quot ((now - start) * mb) 8;
          to_write = goal - total_bytes
      in if to_write < bytes_per_period mb
         then Srv_Sleep (c_quot ((bytes_per_period mb - to_write) * 8 * 1000) mb)
         else Srv_Write (if to_write > BUFSIZE then BUFSIZE else to_write))"

record srv_event =
  srv_now :: int
  srv_sleep_ok :: bool
  srv_room :: int
  srv_die :: bool

text \<open>\<open>srv_room\<close> is what the connection takes of a write, negative for an error.\<close>

text \<open>The loop: the bytes sent, what was done in each round, and whether the connection is still served.\<close>

fun server_loop :: "int \<Rightarrow> int \<Rightarrow> srv_event list \<Rightarrow> int \<Rightarrow> (int \<times> srv_action) list \<times> int \<times> bool" where
  "server_loop mb start [] total_bytes = ([], total_bytes, True)"
| "server_loop mb start (e # es) total_bytes =
     (let act = server_action mb start (srv_now e) total_bytes
      in case act of
           Srv_Sleep d \<Rightarrow>
             if \<not> srv_sleep_ok e \<or> srv_die e then ([(srv_now e, act)], total_bytes, False)
             else (let (tr, r) = server_loop mb start es total_bytes in ((srv_now e, act) # tr, r))
         | Srv_Write n \<Rightarrow>
             (let wrote = min (srv_room e) n
              in if wrote < 0 then ([(srv_now e, act)], total_bytes, False)
                 else if srv_die e then ([(srv_now e, act)], total_bytes + wrote, False)
                 else (let (tr, r) = server_loop mb start es (total_bytes + wrote) in ((srv_now e, act) # tr, r))))"

definition run_server :: "byte list option \<Rightarrow> bool \<Rightarrow> bool \<Rightarrow> int \<Rightarrow> srv_event list \<Rightarrow> (int \<times> srv_action) list \<times> int \<times> bool" where
  "run_server req shutdown_ok die start es =
     (case server_request req of
        None \<Rightarrow> ([], 0, False)
      | Some mb \<Rightarrow> if \<not> shutdown_ok \<or> die then ([], 0, False) else server_loop mb start es 0)"

section \<open>The server's processes\<close>

text \<open>\<open>kids\<close> is the number of child processes that have not been waited for.\<close>

record srv_main =
  numchildren :: int
  kids :: nat

record accept_event =
  acc_nfds :: int
  acc_blocked_ok :: bool
  acc_reaped :: nat
  acc_conn_ok :: bool
  acc_cong_ok :: bool
  acc_fork_ok :: bool
  acc_sleep_ok :: bool

text \<open>
  One round of the accept loop; \<open>Inl\<close> is a return or exit with that code. \<open>waitpid\<close> without \<open>WNOHANG\<close> (called when the limit is
  reached) returns a child unless it is interrupted; the other one returns children that have ended, \<open>acc_reaped\<close> at
  most.
\<close>

definition accept_round :: "int \<Rightarrow> bool \<Rightarrow> accept_event \<Rightarrow> srv_main \<Rightarrow> int + srv_main" where
  "accept_round max_children has_cong e s =
     (let (nfds, s) =
            (if numchildren s < max_children then (acc_nfds e, s)
             else (0, if acc_blocked_ok e \<and> kids s > 0
                      then s\<lparr>numchildren := numchildren s - 1, kids := kids s - 1\<rparr> else s));
          n = min (acc_reaped e) (kids s);
          s = s\<lparr>numchildren := numchildren s - int n, kids := kids s - n\<rparr>
      in if nfds > 0 \<and> acc_conn_ok e then
           (if has_cong \<and> \<not> acc_cong_ok e then Inl 1
            else if \<not> acc_fork_ok e then (if acc_sleep_ok e then Inr s else Inl 99)
            else Inr (s\<lparr>numchildren := numchildren s + 1, kids := kids s + 1\<rparr>))
         else Inr s)"

fun accept_loop :: "int \<Rightarrow> bool \<Rightarrow> accept_event list \<Rightarrow> srv_main \<Rightarrow> int + srv_main" where
  "accept_loop max_children has_cong [] s = Inr s"
| "accept_loop max_children has_cong (e # es) s =
     (case accept_round max_children has_cong e s of
        Inl rc \<Rightarrow> Inl rc
      | Inr s \<Rightarrow> accept_loop max_children has_cong es s)"

text \<open>
  The server's part of \<open>main\<close>: the socket is made, bound and listened at, then the rounds \<open>es\<close> are run until a signal
  ends the loop.
\<close>

record setup_event =
  set_socket_ok :: bool
  set_reuse_ok :: bool
  set_bind_ok :: bool
  set_name_ok :: bool
  set_cong_ok :: bool
  set_listen_ok :: bool

definition serve :: "int \<Rightarrow> bool \<Rightarrow> setup_event \<Rightarrow> accept_event list \<Rightarrow> int + srv_main" where
  "serve max_children has_cong u es =
     (if \<not> set_socket_ok u then Inl 1
      else if \<not> set_reuse_ok u then Inl 1
      else if \<not> set_bind_ok u then Inl 1
      else if \<not> set_name_ok u then Inl 1
      else if has_cong \<and> \<not> set_cong_ok u then Inl 1
      else if \<not> set_listen_ok u then Inl 1
      else accept_loop max_children has_cong es \<lparr>numchildren = 0, kids = 0\<rparr>)"

section \<open>The client\<close>

text \<open>The statistics of dropouts, with the variables that track the current one.\<close>

record iso_drops =
  drop_start_time :: int
  drop_depth :: int
  last_usec_offset :: int
  drop_count :: int
  drop_maxdepth :: int
  drop_maxlength :: int

datatype iso_line =
    Dropout int int
  | Status int int int int int int int int

record iso_client =
  want_to_die :: bool
  sock_open :: bool
  alive :: bool
  prestart_time :: int
  start_time :: int
  stop_time :: int
  last_wait_time :: int
  last_print_time :: int
  total_bytes :: int
  usec_offset :: int
  disconnect_count :: int
  disconnect_usecs :: int
  drops :: iso_drops
  iso_out :: "iso_line list"
  samples :: "(int \<times> int) list"

text \<open>\<open>samples\<close> is a history variable: the times and offsets that have been measured.\<close>

definition iso_start :: iso_client where
  "iso_start = \<lparr>want_to_die = False, sock_open = False, alive = False, prestart_time = 0, start_time = 0,
     stop_time = 0, last_wait_time = 0, last_print_time = 0, total_bytes = 0, usec_offset = 0, disconnect_count = 0,
     disconnect_usecs = 0, drops = \<lparr>drop_start_time = 0, drop_depth = 0, last_usec_offset = 0, drop_count = 0,
       drop_maxdepth = 0, drop_maxlength = 0\<rparr>, iso_out = [], samples = []\<rparr>"

text \<open>A new offset: the line that is printed, if any, and the statistics.\<close>

definition drop_end :: "int \<Rightarrow> iso_drops \<Rightarrow> iso_line list \<times> iso_drops" where
  "drop_end now d =
     (let drop_length = now - drop_start_time d;
          interesting = (drop_length \<ge> DROPOUT_MIN_USEC);
          longer = (drop_maxlength d < drop_length);
          deeper = (drop_maxdepth d > drop_depth d);
          interesting = (interesting \<or> longer \<or> deeper)
      in (if interesting then [Dropout drop_length (drop_depth d)] else [],
          d\<lparr>drop_start_time := 0,
            drop_count := (if interesting then drop_count d + 1 else drop_count d),
            drop_maxdepth := (if deeper then drop_depth d else drop_maxdepth d),
            drop_maxlength := (if longer then drop_length else drop_maxlength d)\<rparr>))"

definition drop_update :: "int \<times> int \<Rightarrow> iso_drops \<Rightarrow> iso_line list \<times> iso_drops" where
  "drop_update s d =
     (let (now, offset) = s;
          (line, d) = (if offset < 0 \<and> last_usec_offset d \<ge> 0 then ([], d\<lparr>drop_start_time := now, drop_depth := 0\<rparr>)
                       else if offset \<ge> 0 \<and> last_usec_offset d < 0 then drop_end now d
                       else ([], d));
          d = (if offset < drop_depth d then d\<lparr>drop_depth := offset\<rparr> else d)
      in (line, d\<lparr>last_usec_offset := offset\<rparr>))"

definition client_offset :: "int \<Rightarrow> int \<Rightarrow> int \<Rightarrow> int \<Rightarrow> int" where
  "client_offset mb start now tot =
     (let expected_bytes = c_quot (mb * (now - start)) 8 in c_quot ((tot - expected_bytes) * 8) mb)"

definition status_line :: "int \<Rightarrow> int \<Rightarrow> iso_client \<Rightarrow> iso_line" where
  "status_line mb now st =
     Status (now - start_time st) mb (usec_offset st + disconnect_usecs st) (disconnect_count st)
       (disconnect_usecs st + (if stop_time st \<noteq> 0 then now - stop_time st else 0))
       (drop_count (drops st)) (drop_maxlength (drops st)) (drop_maxdepth (drops st))"

text \<open>The first part of a round: measuring, once data have arrived. \<open>sufficient\<close> is in seconds, 0 for no limit.\<close>

definition client_measure :: "int \<Rightarrow> rat \<Rightarrow> int \<Rightarrow> iso_client \<Rightarrow> iso_client" where
  "client_measure mb sufficient now st =
     (if start_time st = 0 then st
      else (let st = (if sufficient \<noteq> 0 \<and> of_int (now - start_time st) / 1000000 > sufficient
                      then st\<lparr>want_to_die := True\<rparr> else st);
                off = client_offset mb (start_time st) now (total_bytes st);
                (line, d) = drop_update (now, off) (drops st);
                st = st\<lparr>usec_offset := off, drops := d, iso_out := iso_out st @ line, samples := samples st @ [(now, off)]\<rparr>
            in if now - last_print_time st \<ge> 1000000
               then st\<lparr>last_print_time := now, iso_out := iso_out st @ [status_line mb now st]\<rparr> else st))"

record iso_event =
  ev_now :: int
  ev_socket_ok :: bool
  ev_bind_ok :: bool
  ev_connect_ok :: bool
  ev_write_ok :: bool
  ev_shutdown_ok :: bool
  ev_connected :: int
  ev_selecting :: int
  ev_nfds :: int
  ev_eintr :: bool
  ev_woken :: int
  ev_len :: int
  ev_sleep_ok :: bool
  ev_die :: bool

text \<open>Where a part of a round goes on: further down, at \<open>reopen\<close>, or out of the function.\<close>

datatype iso_go = Go_On iso_client | Reopen int iso_client | Return int iso_client

text \<open>The request the client sends once it is connected.\<close>

definition htonl_bytes :: "nat \<Rightarrow> byte list" where
  "htonl_bytes v = [word_of_nat (v div 2 ^ 24), word_of_nat (v div 2 ^ 16), word_of_nat (v div 2 ^ 8), word_of_nat v]"

definition client_request :: "int \<Rightarrow> byte list" where
  "client_request mb = htonl_bytes MAGIC @ htonl_bytes (nat mb)"

definition client_connect :: "bool \<Rightarrow> iso_event \<Rightarrow> iso_client \<Rightarrow> iso_go" where
  "client_connect has_ifr e st =
     (if sock_open st then Go_On st
      else if \<not> ev_socket_ok e then Return 1 st
      else (let st = st\<lparr>sock_open := True\<rparr>
            in if has_ifr \<and> \<not> ev_bind_ok e then Return 1 st
               else if \<not> ev_connect_ok e then Reopen (ev_now e) st
               else (let st = st\<lparr>last_print_time := 0\<rparr>
                     in if \<not> ev_write_ok e then Reopen (ev_connected e) st
                        else if \<not> ev_shutdown_ok e then Reopen (ev_connected e) st
                        else Go_On (st\<lparr>alive := True\<rparr>))))"

definition client_delay :: "int \<Rightarrow> iso_client \<Rightarrow> int" where
  "client_delay now st =
     (let delay = (if start_time st \<noteq> 0 then 1000000 - c_rem (now - start_time st) 1000000 else 1000000)
      in if delay > 0 then delay else 0)"

definition client_wait :: "iso_event \<Rightarrow> iso_client \<Rightarrow> iso_go" where
  "client_wait e st =
     (if ev_nfds e < 0 \<and> \<not> ev_eintr e then Reopen (ev_selecting e) st
      else (let now = ev_woken e;
                st = (if prestart_time st = 0 then st\<lparr>prestart_time := now\<rparr> else st)
            in if ev_nfds e > 0 then
                 (let st = (if start_time st = 0 then st\<lparr>start_time := now, last_print_time := now\<rparr> else st);
                      st = (if stop_time st \<noteq> 0
                            then st\<lparr>disconnect_usecs := disconnect_usecs st + (now - stop_time st), stop_time := 0\<rparr> else st)
                  in if ev_len e \<le> 0 then Reopen now st else Go_On (st\<lparr>total_bytes := total_bytes st + ev_len e\<rparr>))
               else
                 (let st = st\<lparr>last_wait_time := now\<rparr>
                  in if start_time st = 0 \<and> last_wait_time st - prestart_time st > 10 * 1000000
                     then Reopen now (st\<lparr>alive := False\<rparr>) else Go_On st)))"

definition client_reopen :: "int \<Rightarrow> iso_event \<Rightarrow> iso_client \<Rightarrow> iso_client" where
  "client_reopen now e st =
     (let st = (if alive st then st\<lparr>stop_time := now, disconnect_count := disconnect_count st + 1, alive := False\<rparr> else st);
          st = (if \<not> ev_sleep_ok e then st\<lparr>want_to_die := True\<rparr> else st)
      in st\<lparr>prestart_time := 0, sock_open := False\<rparr>)"

definition client_round :: "int \<Rightarrow> bool \<Rightarrow> rat \<Rightarrow> iso_event \<Rightarrow> iso_client \<Rightarrow> iso_client + int \<times> iso_client" where
  "client_round mb has_ifr sufficient e st =
     (let st = client_measure mb sufficient (ev_now e) st;
          st = (if ev_die e then st\<lparr>want_to_die := True\<rparr> else st)
      in case client_connect has_ifr e st of
           Return rc st \<Rightarrow> Inr (rc, st)
         | Reopen now st \<Rightarrow> Inl (client_reopen now e st)
         | Go_On st \<Rightarrow>
             (case client_wait e st of
                Return rc st \<Rightarrow> Inr (rc, st)
              | Reopen now st \<Rightarrow> Inl (client_reopen now e st)
              | Go_On st \<Rightarrow> Inl st))"

text \<open>The loop: the return code, \<open>None\<close> while it is running, and the state.\<close>

fun client_loop :: "int \<Rightarrow> bool \<Rightarrow> rat \<Rightarrow> iso_event list \<Rightarrow> iso_client \<Rightarrow> int option \<times> iso_client" where
  "client_loop mb has_ifr sufficient [] st = (if want_to_die st then Some 0 else None, st)"
| "client_loop mb has_ifr sufficient (e # es) st =
     (if want_to_die st then (Some 0, st)
      else case client_round mb has_ifr sufficient e st of
             Inl st \<Rightarrow> client_loop mb has_ifr sufficient es st
           | Inr (rc, st) \<Rightarrow> (Some rc, st))"

definition run_client :: "bool \<Rightarrow> int \<Rightarrow> bool \<Rightarrow> rat \<Rightarrow> iso_event list \<Rightarrow> int option \<times> iso_client" where
  "run_client addr_ok mb has_ifr sufficient es =
     (if \<not> addr_ok then (Some 1, iso_start) else client_loop mb has_ifr sufficient es iso_start)"

section \<open>The command line\<close>

text \<open>\<open>atof\<close> of a decimal number, as the exact value; the hexadecimal ones, infinities and not-a-numbers are left out.\<close>

definition atof_rat :: "cstr \<Rightarrow> rat" where
  "atof_rat s =
     (let (neg, t) = num_sign s;
          ip = takeWhile is_digit t;
          t = dropWhile is_digit t;
          (fp, t) = (if take 1 t = lit ''.'' then (takeWhile is_digit (drop 1 t), dropWhile is_digit (drop 1 t)) else ([], t));
          v = of_nat (dec_value 0 (ip @ fp)) / 10 ^ length fp;
          ex = (if (take 1 t = lit ''e'' \<or> take 1 t = lit ''E'') \<and> ip @ fp \<noteq> [] \<and> \<not> list_ex is_space (take 1 (drop 1 t)) then c_atoi (drop 1 t) else 0);
          v = (if ex < 0 then v / 10 ^ nat (- ex) else v * 10 ^ nat ex)
      in if neg then - v else v)"

record iso_config =
  cfg_mb :: int
  cfg_ifr :: "cstr option"
  cfg_max :: int
  cfg_cong :: "cstr option"
  cfg_sufficient :: rat
  cfg_timeout :: int

definition iso_defaults :: iso_config where
  "iso_defaults = \<lparr>cfg_mb = 0, cfg_ifr = None, cfg_max = MAX_CHILDREN, cfg_cong = None, cfg_sufficient = 0, cfg_timeout = 0\<rparr>"

definition iso_options :: opt_table where
  "iso_options = [(CHR ''b'', True), (CHR ''I'', True), (CHR ''P'', True), (CHR ''C'', True), (CHR ''s'', True),
     (CHR ''t'', True), (CHR ''h'', False), (CHR ''?'', False)]"

text \<open>The loop over the options; \<open>None\<close> is the exit with code 99.\<close>

fun iso_opts :: "short_opt list \<Rightarrow> iso_config \<Rightarrow> iso_config option" where
  "iso_opts [] c = Some c"
| "iso_opts (Bad_Short # os) c = None"
| "iso_opts (Short o' optarg # os) c =
     (if o' = CHR ''b'' then
        (if atoi_int optarg > MAX_MBITS \<or> atoi_int optarg < 1 then None else iso_opts os (c\<lparr>cfg_mb := atoi_int optarg\<rparr>))
      else if o' = CHR ''I'' then iso_opts os (c\<lparr>cfg_ifr := Some optarg\<rparr>)
      else if o' = CHR ''P'' then
        (if atoi_int optarg > MAX_CHILDREN \<or> atoi_int optarg < 1 then None else iso_opts os (c\<lparr>cfg_max := atoi_int optarg\<rparr>))
      else if o' = CHR ''C'' then iso_opts os (c\<lparr>cfg_cong := Some optarg\<rparr>)
      else if o' = CHR ''s'' then
        (if atof_rat optarg < 1 then None else iso_opts os (c\<lparr>cfg_sufficient := atof_rat optarg\<rparr>))
      else if o' = CHR ''t'' then
        (if atoi_int optarg < 0 then None else iso_opts os (c\<lparr>cfg_timeout := atoi_int optarg\<rparr>))
      else None)"

text \<open>What \<open>main\<close> does then: exit, serve, or be the client of a server.\<close>

datatype iso_mode = Iso_Exit int | Iso_Server iso_config | Iso_Client iso_config cstr

definition iso_main :: "cstr list \<Rightarrow> iso_mode" where
  "iso_main args =
     (let (os, operands) = getopt iso_options args
      in case iso_opts os iso_defaults of
           None \<Rightarrow> Iso_Exit 99
         | Some c \<Rightarrow>
             (case operands of
                [] \<Rightarrow> Iso_Server c
              | [remotename] \<Rightarrow>
                  if cfg_cong c \<noteq> None then Iso_Exit 99
                  else if cfg_mb c = 0 then Iso_Exit 99
                  else Iso_Client c remotename
              | _ \<Rightarrow> Iso_Exit 99))"

section \<open>The server keeps the rate\<close>

lemma bytes_per_period_bounds:
  assumes "0 \<le> mb" "mb \<le> 1000"
  shows "0 \<le> bytes_per_period mb" "bytes_per_period mb \<le> 65536" "mb \<noteq> 0 \<Longrightarrow> 12500 \<le> bytes_per_period mb"
proof -
  have "c_quot (c_quot (mb * 1000000) 8) 10 = mb * 12500"
    using assms by (simp add: c_quot_nonneg)
  then show "0 \<le> bytes_per_period mb" "bytes_per_period mb \<le> 65536" "mb \<noteq> 0 \<Longrightarrow> 12500 \<le> bytes_per_period mb"
    using assms by (auto simp: bytes_per_period_def Let_def)
qed

lemma be32_nonneg: "server_request req = Some mb \<Longrightarrow> 0 \<le> mb \<and> mb \<le> 1000"
  by (auto simp: server_request_def Let_def split: option.splits if_splits)

abbreviation (input) rate_goal :: "int \<Rightarrow> int \<Rightarrow> int \<Rightarrow> int" where
  "rate_goal mb start now \<equiv> (now - start) * mb div 8"

definition action_ok :: "int \<Rightarrow> srv_action \<Rightarrow> bool" where
  "action_ok mb a = (case a of Srv_Write n \<Rightarrow> bytes_per_period mb \<le> n \<and> n \<le> BUFSIZE | Srv_Sleep d \<Rightarrow> 0 < d \<and> d \<le> 100000000)"

lemma server_action_ok:
  assumes "1 \<le> mb" "mb \<le> 1000" "start \<le> now" "tot \<le> rate_goal mb start now"
  shows "action_ok mb (server_action mb start now tot)"
    "server_action mb start now tot = Srv_Write n \<Longrightarrow> tot + n \<le> rate_goal mb start now \<and> 0 < n"
proof -
  have goal: "c_quot ((now - start) * mb) 8 = rate_goal mb start now"
    using assms by (intro c_quot_nonneg) auto
  have b: "12500 \<le> bytes_per_period mb" "bytes_per_period mb \<le> 65536" "bytes_per_period mb \<le> 12500 * mb"
    using bytes_per_period_bounds [of mb] assms by (auto simp: bytes_per_period_def Let_def c_quot_nonneg)
  define w where "w = rate_goal mb start now - tot"
  have act: "server_action mb start now tot = (if w < bytes_per_period mb
      then Srv_Sleep (c_quot ((bytes_per_period mb - w) * 8 * 1000) mb) else Srv_Write (if w > BUFSIZE then BUFSIZE else w))"
    by (simp add: server_action_def goal w_def)
  have w: "0 \<le> w" using assms(4) by (simp add: w_def)
  have sleep: "0 < c_quot ((bytes_per_period mb - w) * 8 * 1000) mb \<and> c_quot ((bytes_per_period mb - w) * 8 * 1000) mb \<le> 100000000"
    if "w < bytes_per_period mb"
  proof -
    let ?x = "(bytes_per_period mb - w) * 8 * 1000"
    have x: "8000 \<le> ?x" "?x \<le> 100000000 * mb" using that w b(3) by auto
    then have "c_quot ?x mb = ?x div mb" using assms(1) by (intro c_quot_nonneg) auto
    moreover have "0 < ?x div mb" using x(1) assms(1,2) by (simp add: pos_imp_zdiv_pos_iff)
    moreover have "?x div mb \<le> 100000000 * mb div mb" using x(2) assms(1) by (intro zdiv_mono1) auto
    ultimately show ?thesis using assms(1) by simp
  qed
  show "action_ok mb (server_action mb start now tot)"
    using sleep b by (auto simp: act action_ok_def)
  show "tot + n \<le> rate_goal mb start now \<and> 0 < n" if "server_action mb start now tot = Srv_Write n"
    using that b by (auto simp: act w_def split: if_splits)
qed

lemma server_loop_rate:
  assumes "1 \<le> mb" "mb \<le> 1000" "server_loop mb start es tot = (tr, tot', running)"
    "sorted (t0 # map srv_now es)" "start \<le> t0" "0 \<le> tot" "tot \<le> rate_goal mb start t0"
  shows "0 \<le> tot' \<and> tot' \<le> rate_goal mb start (last (t0 # map srv_now es)) \<and> (\<forall>a \<in> set tr. action_ok mb (snd a))"
  using assms(3-7)
proof (induction es arbitrary: tot t0 tr)
  case (Cons e es)
  let ?now = "srv_now e" and ?act = "server_action mb start (srv_now e) tot"
  have t: "start \<le> ?now" "t0 \<le> ?now" "sorted (?now # map srv_now es)" using Cons.prems(2,3) by auto
  have mono: "rate_goal mb start a \<le> rate_goal mb start b" if "a \<le> b" for a b
    using that assms(1) by (intro zdiv_mono1 mult_right_mono) auto
  have goal: "tot \<le> rate_goal mb start ?now" using Cons.prems(5) mono [OF t(2)] by linarith
  have final: "rate_goal mb start ?now \<le> rate_goal mb start (last (t0 # map srv_now (e # es)))"
    using t(3) by (intro mono) (auto simp: last_map)
  note ok = server_action_ok [OF assms(1,2) t(1) goal]
  have IH: "0 \<le> tot' \<and> tot' \<le> rate_goal mb start (last (t0 # map srv_now (e # es))) \<and> (\<forall>a \<in> set tr'. action_ok mb (snd a))"
    if "server_loop mb start es m = (tr', tot', running)" "0 \<le> m" "m \<le> rate_goal mb start ?now" for m tr'
    using Cons.IH [OF that(1) t(3,1) that(2,3)] by simp
  have le: "tot \<le> rate_goal mb start (last (t0 # map srv_now (e # es)))" using goal final by linarith
  show ?case
  proof (cases ?act)
    case (Srv_Sleep d)
    obtain tr1 to1 r1 where L: "server_loop mb start es tot = (tr1, to1, r1)" by (metis surj_pair)
    show ?thesis
    proof (cases "\<not> srv_sleep_ok e \<or> srv_die e")
      case True
      then have "tr = [(?now, ?act)]" "tot' = tot" using Cons.prems(1) Srv_Sleep by (auto simp: Let_def)
      then show ?thesis using ok(1) le Cons.prems(4) by simp
    next
      case False
      then have "tr = (?now, ?act) # tr1" "tot' = to1" "running = r1" using Cons.prems(1) Srv_Sleep L by (auto simp: Let_def)
      then show ?thesis using ok(1) IH [of tot tr1] L Cons.prems(4) goal by simp
    qed
  next
    case (Srv_Write n)
    let ?w = "min (srv_room e) n"
    obtain tr1 to1 r1 where L: "server_loop mb start es (tot + ?w) = (tr1, to1, r1)" by (metis surj_pair)
    have pos: "(?w < 0) = False" if "0 \<le> ?w" using leD [OF that] by blast
    have n: "tot + ?w \<le> rate_goal mb start ?now" using ok(2) [OF Srv_Write] by auto
    consider "?w < 0" | "0 \<le> ?w" "srv_die e" | "0 \<le> ?w" "\<not> srv_die e" by linarith
    then show ?thesis
    proof cases
      case 1
      then have "tr = [(?now, ?act)]" "tot' = tot" using Cons.prems(1) Srv_Write by (auto simp: Let_def)
      then show ?thesis using ok(1) le Cons.prems(4) by simp
    next
      case 2
      then have "tr = [(?now, ?act)]" "tot' = tot + ?w" 
        using Cons.prems(1) Srv_Write by (simp_all add: Let_def pos [OF 2(1)])
      moreover have "tot + ?w \<le> rate_goal mb start (last (t0 # map srv_now (e # es)))" using n final by linarith
      ultimately show ?thesis using ok(1) Cons.prems(4) 2(1) by simp
    next
      case 3
      then have "tr = (?now, ?act) # tr1" "tot' = to1" "running = r1"
        using Cons.prems(1) Srv_Write L by (simp_all add: Let_def pos [OF 3(1)])
      then show ?thesis using ok(1) IH [of "tot + ?w" tr1] L Cons.prems(4) n 3 by simp
    qed
  qed
qed simp

text \<open>
  Claim C22. The server never runs ahead. For every request it accepts with a rate other than 0, at every time the
  bytes sent are at most the rate times the time since the start; each write asks for a whole period's
  bytes at least and for no more than the buffer holds, and each sleep lasts more than nothing and a tenth of a
  second at most.
\<close>
theorem server_keeps_rate:
  assumes "server_request req = Some mb" "mb \<noteq> 0" "run_server req ok die start es = (tr, sent, running)"
    "sorted (start # map srv_now es)"
  shows "0 \<le> sent \<and> sent \<le> rate_goal mb start (last (start # map srv_now es)) \<and>
    (\<forall>a \<in> set tr. case snd a of
       Srv_Write n \<Rightarrow> bytes_per_period mb \<le> n \<and> n \<le> BUFSIZE
     | Srv_Sleep d \<Rightarrow> 0 < d \<and> d \<le> 100000000)"
proof (cases "ok \<and> \<not> die")
  case True
  have mb: "1 \<le> mb" "mb \<le> 1000" using be32_nonneg [OF assms(1)] assms(2) by auto
  have "server_loop mb start es 0 = (tr, sent, running)" using assms(1,3) True by (simp add: run_server_def)
  from server_loop_rate [OF mb this assms(4)] show ?thesis by (simp add: action_ok_def)
next
  case False
  have "0 \<le> rate_goal mb start (last (start # map srv_now es))"
  proof -
    define L where "L = last (start # map srv_now es)"
    have "L \<in> set (start # map srv_now es)" unfolding L_def by (rule last_in_set) simp
    then have "start \<le> L" using assms(4) by auto
    then have "0 \<le> (L - start) * mb" using be32_nonneg [OF assms(1)] by simp
    then show ?thesis unfolding L_def [symmetric] by simp
  qed
  then show ?thesis using assms(1,3) False by (auto simp: run_server_def)
qed

abbreviation (input) sample_request :: "byte list" where
  "sample_request \<equiv> [0x42, 0x4c, 0x4f, 0x50, 0, 0, 0, 8]"

abbreviation (input) srv_at :: "int \<Rightarrow> srv_event" where
  "srv_at t \<equiv> \<lparr>srv_now = t, srv_sleep_ok = True, srv_room = 100000, srv_die = False\<rparr>"

theorem server_keeps_rate_witness:
  "run_server (Some sample_request) True False 1 [srv_at 1, srv_at 100001] =
     ([(1, Srv_Sleep 65536000), (100001, Srv_Write 100000)], 100000, True) \<and> (100000 :: int) \<le> rate_goal 8 1 100001"
proof -
  have r: "server_request (Some sample_request) = Some 8" by (simp add: server_request_def be32_def)
  have *: "run_server (Some sample_request) True False 1 [srv_at 1, srv_at 100001] =
     ([(1, Srv_Sleep 65536000), (100001, Srv_Write 100000)], 100000, True)"
    by (simp add: run_server_def r server_action_def bytes_per_period_def c_quot_def Let_def)
  show ?thesis using server_keeps_rate [OF r _ *] * by simp
qed

text \<open>Two rounds in a row of the trace see the same bytes sent when the first one sleeps.\<close>

lemma sleep_then_write:
  assumes "1 \<le> mb" "mb \<le> 1000" "start \<le> now" "server_action mb start now tot = Srv_Sleep d" "d < (now' - now) * 1000"
  shows "\<exists>n \<ge> bytes_per_period mb. server_action mb start now' tot = Srv_Write n"
proof -
  define b where "b = bytes_per_period mb"
  define w where "w = rate_goal mb start now - tot"
  have goal: "c_quot ((now - start) * mb) 8 = rate_goal mb start now"
    using assms(1,3) by (intro c_quot_nonneg) auto
  have wd: "w < b" "d = c_quot ((b - w) * 8 * 1000) mb"
    using assms(4) by (simp_all add: server_action_def goal w_def b_def Let_def split: if_splits)
  then have w: "w < b" and "d = (b - w) * 8 * 1000 div mb"
    using assms(1) c_quot_nonneg [of "(b - w) * 8 * 1000" mb] by auto
  then have d: "d = (b - w) * 8000 div mb" by (simp only: mult.assoc) simp
  have "(b - w) * 8000 = d * mb + (b - w) * 8000 mod mb" unfolding d by simp
  moreover have "(b - w) * 8000 mod mb < mb" using assms(1) by simp
  moreover have "(d + 1) * mb \<le> (now' - now) * 1000 * mb" using assms(1,5) by (intro mult_right_mono) auto
  ultimately have gap: "(b - w) * 8 \<le> (now' - now) * mb" by (simp add: algebra_simps)
  have "0 \<le> d" unfolding d using w assms(1) by (intro div_int_pos_iff [THEN iffD2]) auto
  then have "0 < (now' - now) * 1000" using assms(5) by (rule le_less_trans)
  then have late: "start \<le> now'" using assms(3) by (simp add: zero_less_mult_iff)
  have "rate_goal mb start now * 8 \<le> (now - start) * mb" by simp
  then have "(rate_goal mb start now + (b - w)) * 8 \<le> (now' - start) * mb" using gap by (simp add: algebra_simps)
  then have "b \<le> rate_goal mb start now' - tot" by (simp add: w_def)
  moreover have "c_quot ((now' - start) * mb) 8 = rate_goal mb start now'"
    using assms(1) late by (intro c_quot_nonneg) auto
  moreover have "b \<le> BUFSIZE" using bytes_per_period_bounds [of mb] assms(1,2) by (simp add: b_def)
  ultimately show ?thesis by (simp add: server_action_def b_def Let_def)
qed

lemma server_loop_first:
  assumes "server_loop mb start (e # es) tot = (tr, r)"
  shows "\<exists>tr' m. tr = (srv_now e, server_action mb start (srv_now e) tot) # tr' \<and>
    (tr' = [] \<or> server_loop mb start es m = (tr', r) \<and>
      ((\<exists>d. server_action mb start (srv_now e) tot = Srv_Sleep d) \<longrightarrow> m = tot))"
proof (cases "server_action mb start (srv_now e) tot")
  case (Srv_Sleep d)
  then show ?thesis using assms
    by (cases "server_loop mb start es tot") (auto simp: Let_def split: if_splits)
next
  case (Srv_Write n)
  then show ?thesis using assms
    by (cases "server_loop mb start es (tot + min (srv_room e) n)") (auto simp: Let_def split: if_splits)
qed

lemma server_loop_pairs:
  assumes "server_loop mb start es tot = (xs @ (now, Srv_Sleep d) # (now', act) # ys, r)"
  shows "\<exists>m. server_action mb start now m = Srv_Sleep d \<and> server_action mb start now' m = act \<and> now \<in> set (map srv_now es)"
  using assms
proof (induction es arbitrary: xs tot)
  case (Cons e es)
  let ?a = "(srv_now e, server_action mb start (srv_now e) tot)"
  obtain m tr where tr: "xs @ (now, Srv_Sleep d) # (now', act) # ys = ?a # tr"
    and next_round: "tr = [] \<or> server_loop mb start es m = (tr, r) \<and> ((\<exists>d. snd ?a = Srv_Sleep d) \<longrightarrow> m = tot)"
    using server_loop_first [OF Cons.prems] by auto
  show ?case
  proof (cases xs)
    case Nil
    then have a: "(now, Srv_Sleep d) = ?a" and t: "tr = (now', act) # ys" using tr by auto
    then have "\<exists>d. snd ?a = Srv_Sleep d" by (metis snd_conv)
    then have L: "server_loop mb start es tot = ((now', act) # ys, r)" using next_round t by auto
    then obtain f fs where "es = f # fs" by (cases es) auto
    then have "act = server_action mb start now' tot" using server_loop_first [of mb start f fs tot] L by auto
    then show ?thesis using a by auto
  next
    case (Cons x xs')
    then have "tr = xs' @ (now, Srv_Sleep d) # (now', act) # ys" using tr by simp
    then have "server_loop mb start es m = (xs' @ (now, Srv_Sleep d) # (now', act) # ys, r)" using next_round by auto
    from Cons.IH [OF this] show ?thesis by auto
  qed
qed simp

text \<open>
  Claim C38. The server's sleeps are long enough. For an accepted request whose rate is not 0, on a clock that does not run
  back: whenever a round of a run sleeps and the next one begins later than the time that was asked for, that one sends at
  least a period's bytes; the server does not go on sleeping.
\<close>
theorem sleep_is_enough:
  assumes "server_request req = Some mb" "mb \<noteq> 0" "sorted (start # map srv_now es)"
    "run_server req ok die start es = (xs @ (now, Srv_Sleep d) # (now', act) # ys, r)" "d < (now' - now) * 1000"
  shows "\<exists>n \<ge> bytes_per_period mb. act = Srv_Write n"
proof -
  have mb: "1 \<le> mb" "mb \<le> 1000" using be32_nonneg [OF assms(1)] assms(2) by auto
  have "server_loop mb start es 0 = (xs @ (now, Srv_Sleep d) # (now', act) # ys, r)"
    using assms(1,4) by (simp add: run_server_def split: if_splits)
  then obtain m where m: "server_action mb start now m = Srv_Sleep d" "server_action mb start now' m = act"
      "now \<in> set (map srv_now es)"
    using server_loop_pairs by blast
  then have "start \<le> now" using assms(3) by auto
  from sleep_then_write [OF mb this m(1) assms(5)] show ?thesis using m(2) by simp
qed

theorem sleep_is_enough_witness:
  "server_request (Some sample_request) = Some 8 \<and>
   run_server (Some sample_request) True False 1 [srv_at 1, srv_at 100001] =
     ([(1, Srv_Sleep 65536000), (100001, Srv_Write 100000)], 100000, True) \<and>
   (65536000 :: int) < (100001 - 1) * 1000 \<and> (\<exists>n \<ge> bytes_per_period 8. Srv_Write 100000 = Srv_Write n)"
proof -
  have r: "server_request (Some sample_request) = Some 8" by (simp add: server_request_def be32_def)
  have *: "run_server (Some sample_request) True False 1 [srv_at 1, srv_at 100001] =
     ([] @ (1, Srv_Sleep 65536000) # (100001, Srv_Write 100000) # [], 100000, True)"
    by (simp add: run_server_def r server_action_def bytes_per_period_def c_quot_def Let_def)
  have "\<exists>n \<ge> bytes_per_period 8. Srv_Write 100000 = Srv_Write n" by (rule sleep_is_enough [OF r _ _ *]) simp_all
  then show ?thesis using r * by simp
qed

text \<open>
  The rate 0 passes the check of a request, although its message says that the rate must be greater
  than 0, and sends the server into a busy loop: round after round it writes nothing and does not sleep, as long as the
  connection lasts.
\<close>

lemma zero_rate_spins:
  assumes "\<forall>e \<in> set es. 0 \<le> srv_room e \<and> \<not> srv_die e"
  shows "server_request (Some [0x42, 0x4c, 0x4f, 0x50, 0, 0, 0, 0]) = Some 0 \<and>
    run_server (Some [0x42, 0x4c, 0x4f, 0x50, 0, 0, 0, 0]) True False start es = (map (\<lambda>e. (srv_now e, Srv_Write 0)) es, 0, True)"
proof -
  have r: "server_request (Some [0x42, 0x4c, 0x4f, 0x50, 0, 0, 0, 0]) = Some 0"
    by (simp add: server_request_def be32_def)
  have "server_loop 0 start es 0 = (map (\<lambda>e. (srv_now e, Srv_Write 0)) es, 0, True)"
    using assms by (induction es) (simp_all add: server_action_def bytes_per_period_def c_quot_def Let_def)
  then show ?thesis using r by (simp add: run_server_def)
qed

section \<open>The server's children\<close>

lemma accept_round_inv:
  assumes "accept_round m has_cong e s = Inr s'" "numchildren s = int (kids s)" "numchildren s \<le> m"
  shows "numchildren s' = int (kids s') \<and> numchildren s' \<le> m"
  using assms by (auto simp: accept_round_def Let_def of_nat_diff split: if_splits)

lemma accept_loop_inv:
  assumes "accept_loop m has_cong es s0 = Inr s" "numchildren s0 = int (kids s0)" "numchildren s0 \<le> m"
  shows "numchildren s = int (kids s) \<and> numchildren s \<le> m"
  using assms
proof (induction es arbitrary: s0)
  case (Cons e es)
  then obtain s1 where 1: "accept_round m has_cong e s0 = Inr s1" "accept_loop m has_cong es s1 = Inr s"
    by (auto split: sum.splits)
  show ?case using Cons.IH [OF 1(2)] accept_round_inv [OF 1(1)] Cons.prems by blast
qed simp

text \<open>
  The server counts its children right and never has more of them than the limit, in whatever
  order connections arrive, forks fail and children end.
\<close>
lemma children_limited:
  assumes "serve m has_cong u es = Inr s" "1 \<le> m"
  shows "numchildren s = int (kids s) \<and> numchildren s \<le> m"
proof -
  have "accept_loop m has_cong es \<lparr>numchildren = 0, kids = 0\<rparr> = Inr s"
    using assms(1) by (auto simp: serve_def split: if_splits)
  from accept_loop_inv [OF this] show ?thesis using assms(2) by simp
qed

abbreviation (input) one_connection :: accept_event where
  "one_connection \<equiv> \<lparr>acc_nfds = 1, acc_blocked_ok = False, acc_reaped = 0, acc_conn_ok = True, acc_cong_ok = True,
     acc_fork_ok = True, acc_sleep_ok = True\<rparr>"

abbreviation (input) good_setup :: setup_event where
  "good_setup \<equiv> \<lparr>set_socket_ok = True, set_reuse_ok = True, set_bind_ok = True, set_name_ok = True, set_cong_ok = True,
     set_listen_ok = True\<rparr>"

section \<open>The dropouts\<close>

text \<open>
  What the statistics are about, told from the samples: a dropout begins with a negative offset and ends with
  the next one that is not; its length is the time between the two and its depth the least offset in it.
\<close>

abbreviation (input) behind :: "int \<times> int \<Rightarrow> bool" where
  "behind s \<equiv> snd s < 0"

function dropouts :: "(int \<times> int) list \<Rightarrow> (int \<times> int) list" where
  "dropouts xs =
     (case dropWhile (\<lambda>s. \<not> behind s) xs of
        [] \<Rightarrow> []
      | s # ys \<Rightarrow>
          (case dropWhile behind ys of
             [] \<Rightarrow> []
           | u # zs \<Rightarrow> (fst u - fst s, Min (snd ` set (s # takeWhile behind ys))) # dropouts zs))"
  by pat_completeness auto

termination dropouts
proof (relation "measure length")
  fix xs :: "(int \<times> int) list" and s ys u zs
  assume a: "dropWhile (\<lambda>s. \<not> behind s) xs = s # ys" "dropWhile behind ys = u # zs"
  have "length (s # ys) \<le> length xs" using length_dropWhile_le [of "\<lambda>s. \<not> behind s" xs] a(1) by simp
  moreover have "length (u # zs) \<le> length ys" using length_dropWhile_le [of behind ys] a(2) by simp
  ultimately show "(zs, xs) \<in> measure length" by simp
qed simp

declare dropouts.simps [simp del]

text \<open>The dropouts that are reported: at least a tenth of a second long, or longer or deeper than all before.\<close>

fun notable :: "int \<Rightarrow> int \<Rightarrow> (int \<times> int) list \<Rightarrow> (int \<times> int) list" where
  "notable len depth [] = []"
| "notable len depth ((l, d) # ds) =
     (if DROPOUT_MIN_USEC \<le> l \<or> len < l \<or> d < depth then [(l, d)] else []) @ notable (max len l) (min depth d) ds"

fun drop_run :: "(int \<times> int) list \<Rightarrow> iso_drops \<Rightarrow> iso_line list \<times> iso_drops" where
  "drop_run [] d = ([], d)"
| "drop_run (x # xs) d = (let (l, d) = drop_update x d; (ls, d) = drop_run xs d in (l @ ls, d))"

lemma drop_run_append:
  "drop_run (xs @ ys) d = (let (l, d) = drop_run xs d; (ls, d) = drop_run ys d in (l @ ls, d))"
  by (induction xs arbitrary: d) (simp_all add: split_def Let_def)

lemma drop_run_append3:
  assumes "drop_run ps d = ([], d1)" "drop_run rs d1 = (l, d2)"
  shows "drop_run (ps @ rs @ zs) d = (l @ fst (drop_run zs d2), snd (drop_run zs d2))"
  by (simp add: drop_run_append assms Let_def split_def)

lemma drop_run_ahead:
  assumes "\<forall>s \<in> set xs. \<not> behind s" "0 \<le> last_usec_offset d" "drop_depth d \<le> 0"
  shows "\<exists>v \<ge> 0. drop_run xs d = ([], d\<lparr>last_usec_offset := v\<rparr>)"
  using assms
proof (induction xs arbitrary: d)
  case Nil
  then show ?case by (intro exI [of _ "last_usec_offset d"]) simp
next
  case (Cons x xs)
  then have "drop_update x d = ([], d\<lparr>last_usec_offset := snd x\<rparr>)"
    by (auto simp: drop_update_def Let_def split_def)
  then show ?case using Cons.IH [of "d\<lparr>last_usec_offset := snd x\<rparr>"] Cons.prems by auto
qed

lemma drop_run_behind:
  assumes "\<forall>s \<in> set xs. behind s" "last_usec_offset d < 0"
  shows "\<exists>v < 0. drop_run xs d = ([], d\<lparr>drop_depth := Min (set (drop_depth d # map snd xs)), last_usec_offset := v\<rparr>)"
  using assms
proof (induction xs arbitrary: d)
  case Nil
  then show ?case by (intro exI [of _ "last_usec_offset d"]) simp
next
  case (Cons x xs)
  let ?d = "d\<lparr>drop_depth := min (drop_depth d) (snd x), last_usec_offset := snd x\<rparr>"
  have u: "drop_update x d = ([], ?d)"
    using Cons.prems by (auto simp: drop_update_def Let_def split_def min_def)
  have m: "Min (set (min (drop_depth d) (snd x) # map snd xs)) = Min (set (drop_depth d # map snd (x # xs)))"
    by (cases "xs = []") (simp_all add: min.assoc)
  obtain v where "v < 0" "drop_run xs ?d = ([], ?d\<lparr>drop_depth := Min (set (drop_depth ?d # map snd xs)), last_usec_offset := v\<rparr>)"
    using Cons.IH [of ?d] Cons.prems by auto
  then show ?case using u m by (intro exI [of _ v]) simp
qed

lemma drop_run_one:
  assumes "behind s" "\<forall>y \<in> set ys. behind y" "\<not> behind u" "0 \<le> last_usec_offset d"
    "l = fst u - fst s" "m = Min (snd ` set (s # ys))"
  shows "drop_run (s # ys @ [u]) d =
    (map (\<lambda>(l, m). Dropout l m) (notable (drop_maxlength d) (drop_maxdepth d) [(l, m)]),
     d\<lparr>drop_start_time := 0, drop_depth := m, last_usec_offset := snd u,
       drop_count := drop_count d + int (length (notable (drop_maxlength d) (drop_maxdepth d) [(l, m)])),
       drop_maxdepth := min (drop_maxdepth d) m, drop_maxlength := max (drop_maxlength d) l\<rparr>)"
proof -
  let ?d = "d\<lparr>drop_start_time := fst s, drop_depth := snd s, last_usec_offset := snd s\<rparr>"
  have first: "drop_update s d = ([], ?d)" using assms(1,4) by (simp add: drop_update_def split_def)
  obtain v where v: "v < 0" and rest: "drop_run ys ?d = ([], d\<lparr>drop_start_time := fst s, drop_depth := m, last_usec_offset := v\<rparr>)"
    using drop_run_behind [of ys ?d] assms(1,2,6) by auto
  have "m \<le> snd s" unfolding assms(6) by (intro Min_le) auto
  then have m: "m < 0" using assms(1) by simp
  have close: "drop_update u (d\<lparr>drop_start_time := fst s, drop_depth := m, last_usec_offset := v\<rparr>) =
    (map (\<lambda>(l, m). Dropout l m) (notable (drop_maxlength d) (drop_maxdepth d) [(l, m)]),
     d\<lparr>drop_start_time := 0, drop_depth := m, last_usec_offset := snd u,
       drop_count := drop_count d + int (length (notable (drop_maxlength d) (drop_maxdepth d) [(l, m)])),
       drop_maxdepth := min (drop_maxdepth d) m, drop_maxlength := max (drop_maxlength d) l\<rparr>)"
    using assms(3) v m unfolding assms(5)
    by (cases "DROPOUT_MIN_USEC \<le> fst u - fst s"; cases "drop_maxlength d < fst u - fst s"; cases "m < drop_maxdepth d")
      (simp_all add: drop_update_def drop_end_def split_def Let_def)
  show ?thesis by (simp del: notable.simps add: drop_run_append first rest close)
qed

lemma notable_Cons:
  "notable len depth (x # ds) = notable len depth [x] @ notable (max len (fst x)) (min depth (snd x)) ds"
  by (cases x) simp

lemma dropouts_split:
  assumes "dropWhile (\<lambda>s. \<not> behind s) xs = s # ys" "dropWhile behind ys = u # zs"
  obtains ps rs where "xs = ps @ (s # rs @ [u]) @ zs" "\<forall>p \<in> set ps. \<not> behind p" "behind s" "\<forall>r \<in> set rs. behind r"
    "\<not> behind u" "dropouts xs = (fst u - fst s, Min (snd ` set (s # rs))) # dropouts zs"
proof
  show "xs = takeWhile (\<lambda>s. \<not> behind s) xs @ (s # takeWhile behind ys @ [u]) @ zs"
    using takeWhile_dropWhile_id [of "\<lambda>s. \<not> behind s" xs] takeWhile_dropWhile_id [of behind ys] assms by simp
  show "behind s" "\<not> behind u" using assms [THEN dropWhile_eq_Cons_conv [THEN iffD1]] by auto
  show "dropouts xs = (fst u - fst s, Min (snd ` set (s # takeWhile behind ys))) # dropouts zs"
    by (subst dropouts.simps) (simp add: assms)
qed (auto dest: set_takeWhileD)

lemma drop_run_none:
  assumes "dropouts xs = []" "0 \<le> last_usec_offset d" "drop_depth d \<le> 0" "drop_run xs d = (ls, d')"
  shows "ls = [] \<and> drop_count d' = drop_count d \<and> drop_maxlength d' = drop_maxlength d \<and> drop_maxdepth d' = drop_maxdepth d"
proof -
  let ?ps = "takeWhile (\<lambda>s. \<not> behind s) xs"
  have xs: "xs = ?ps @ dropWhile (\<lambda>s. \<not> behind s) xs" by simp
  obtain v where v: "0 \<le> v" and p: "drop_run ?ps d = ([], d\<lparr>last_usec_offset := v\<rparr>)"
    using drop_run_ahead [of ?ps d] assms(2,3) by (auto dest: set_takeWhileD)
  show ?thesis
  proof (cases "dropWhile (\<lambda>s. \<not> behind s) xs")
    case Nil
    then have "?ps = xs" using xs by simp
    then have "drop_run xs d = ([], d\<lparr>last_usec_offset := v\<rparr>)" using p by (simp only:)
    then show ?thesis using assms(4) by auto
  next
    case (Cons s ys)
    have s: "behind s" using Cons by (auto simp: dropWhile_eq_Cons_conv)
    have "dropWhile behind ys = []"
      using assms(1) by (subst (asm) dropouts.simps) (simp add: Cons split: list.splits)
    then have ys: "\<forall>y \<in> set ys. behind y" by (simp add: dropWhile_eq_Nil_conv)
    let ?d = "d\<lparr>drop_start_time := fst s, drop_depth := snd s, last_usec_offset := snd s\<rparr>"
    have u: "drop_update s (d\<lparr>last_usec_offset := v\<rparr>) = ([], ?d)" using s v by (simp add: drop_update_def split_def)
    obtain w where "drop_run ys ?d = ([], ?d\<lparr>drop_depth := Min (set (drop_depth ?d # map snd ys)), last_usec_offset := w\<rparr>)"
      using drop_run_behind [of ys ?d] ys s by auto
    then have "drop_run (?ps @ s # ys) d = ([], ?d\<lparr>drop_depth := Min (set (drop_depth ?d # map snd ys)), last_usec_offset := w\<rparr>)"
      using p u by (simp add: drop_run_append)
    then show ?thesis using xs Cons assms(4) by auto
  qed
qed

lemma drop_run_spec:
  assumes "0 \<le> last_usec_offset d" "drop_depth d \<le> 0" "drop_run xs d = (ls, d')"
  shows "ls = map (\<lambda>(l, m). Dropout l m) (notable (drop_maxlength d) (drop_maxdepth d) (dropouts xs)) \<and>
    drop_count d' = drop_count d + int (length (notable (drop_maxlength d) (drop_maxdepth d) (dropouts xs))) \<and>
    drop_maxlength d' = Max (insert (drop_maxlength d) (fst ` set (dropouts xs))) \<and>
    drop_maxdepth d' = Min (insert (drop_maxdepth d) (snd ` set (dropouts xs)))"
  using assms
proof (induction "length xs" arbitrary: xs d ls rule: less_induct)
  case less
  show ?case
  proof (cases "dropouts xs = []")
    case True
    then show ?thesis using drop_run_none [OF True less.prems] by simp
  next
    case False
    then obtain s ys u zs where "dropWhile (\<lambda>s. \<not> behind s) xs = s # ys" "dropWhile behind ys = u # zs"
      by (subst (asm) dropouts.simps) (auto split: list.splits)
    then obtain ps rs where xs: "xs = ps @ (s # rs @ [u]) @ zs" and ps: "\<forall>p \<in> set ps. \<not> behind p"
      and run: "behind s" "\<forall>r \<in> set rs. behind r" "\<not> behind u"
      and ds: "dropouts xs = (fst u - fst s, Min (snd ` set (s # rs))) # dropouts zs"
      by (rule dropouts_split)
    define l where "l = fst u - fst s"
    define m where "m = Min (snd ` set (s # rs))"
    obtain v where v: "0 \<le> v" and p: "drop_run ps d = ([], d\<lparr>last_usec_offset := v\<rparr>)"
      using drop_run_ahead [OF ps less.prems(1,2)] by auto
    have "m \<le> snd s" unfolding m_def by (intro Min_le) auto
    then have m: "m \<le> 0" using run(1) by simp
    let ?d = "d\<lparr>drop_start_time := 0, drop_depth := m, last_usec_offset := snd u,
       drop_count := drop_count d + int (length (notable (drop_maxlength d) (drop_maxdepth d) [(l, m)])),
       drop_maxdepth := min (drop_maxdepth d) m, drop_maxlength := max (drop_maxlength d) l\<rparr>"
    have one: "drop_run (s # rs @ [u]) (d\<lparr>last_usec_offset := v\<rparr>) =
        (map (\<lambda>(l, m). Dropout l m) (notable (drop_maxlength d) (drop_maxdepth d) [(l, m)]), ?d)"
      using drop_run_one [OF run, of "d\<lparr>last_usec_offset := v\<rparr>", OF _ l_def m_def] v by simp
    obtain ls2 where r2: "drop_run zs ?d = (ls2, d')"
      and ls: "ls = map (\<lambda>(l, m). Dropout l m) (notable (drop_maxlength d) (drop_maxdepth d) [(l, m)]) @ ls2"
      using less.prems(3) unfolding xs drop_run_append3 [OF p one] by (metis prod.collapse prod.inject)
    have IH: "ls2 = map (\<lambda>(l, m). Dropout l m) (notable (drop_maxlength ?d) (drop_maxdepth ?d) (dropouts zs)) \<and>
      drop_count d' = drop_count ?d + int (length (notable (drop_maxlength ?d) (drop_maxdepth ?d) (dropouts zs))) \<and>
      drop_maxlength d' = Max (insert (drop_maxlength ?d) (fst ` set (dropouts zs))) \<and>
      drop_maxdepth d' = Min (insert (drop_maxdepth ?d) (snd ` set (dropouts zs)))"
      using run(3) m by (intro less.hyps [OF _ _ _ r2]) (simp_all add: xs)
    have n: "notable (drop_maxlength d) (drop_maxdepth d) (dropouts xs) =
      notable (drop_maxlength d) (drop_maxdepth d) [(l, m)] @ notable (drop_maxlength ?d) (drop_maxdepth ?d) (dropouts zs)"
      unfolding ds l_def [symmetric] m_def [symmetric] by (subst notable_Cons) simp
    have mx: "Max (insert (max (drop_maxlength d) l) (fst ` set (dropouts zs))) = Max (insert (drop_maxlength d) (fst ` set (dropouts xs)))"
      unfolding ds l_def [symmetric] by (cases "dropouts zs = []") (simp_all add: max.assoc)
    have mn: "Min (insert (min (drop_maxdepth d) m) (snd ` set (dropouts zs))) = Min (insert (drop_maxdepth d) (snd ` set (dropouts xs)))"
      unfolding ds m_def [symmetric] by (cases "dropouts zs = []") (simp_all add: min.assoc)
    show ?thesis using IH by (simp add: n ls mx mn)
  qed
qed

text \<open>The client's state agrees with its history: only the measuring part of a round touches it.\<close>

definition is_dropout :: "iso_line \<Rightarrow> bool" where
  "is_dropout l = (case l of Dropout _ _ \<Rightarrow> True | Status _ _ _ _ _ _ _ _ \<Rightarrow> False)"

definition measured :: "iso_client \<Rightarrow> bool" where
  "measured st \<longleftrightarrow> drop_run (samples st) (drops iso_start) = (filter is_dropout (iso_out st), drops st)"

lemma drop_update_lines: "filter is_dropout (fst (drop_update s d)) = fst (drop_update s d)"
  by (auto simp: drop_update_def drop_end_def is_dropout_def Let_def split_def)

lemma measured_measure:
  assumes "measured st"
  shows "measured (client_measure mb sufficient now st)"
proof (cases "start_time st = 0")
  case False
  obtain l d where "drop_update (now, client_offset mb (start_time st) now (total_bytes st)) (drops st) = (l, d)" by fastforce
  moreover from this have "filter is_dropout l = l" using drop_update_lines by (metis fst_conv)
  ultimately show ?thesis using assms False
    by (auto simp: client_measure_def measured_def drop_run_append Let_def status_line_def is_dropout_def)
qed (use assms in \<open>simp add: client_measure_def\<close>)

fun go_state :: "iso_go \<Rightarrow> iso_client" where
  "go_state (Go_On st) = st"
| "go_state (Reopen now st) = st"
| "go_state (Return rc st) = st"

lemma same_history:
  "measured (go_state (client_connect has_ifr e st)) = measured st"
  "measured (go_state (client_wait e st)) = measured st"
  "measured (client_reopen now e st) = measured st"
  by (simp_all add: client_connect_def client_wait_def client_reopen_def measured_def Let_def)

lemma measured_round:
  assumes "measured st"
  shows "case client_round mb has_ifr sufficient e st of Inl st \<Rightarrow> measured st | Inr (rc, st) \<Rightarrow> measured st"
proof -
  define st1 where "st1 = (let st = client_measure mb sufficient (ev_now e) st in if ev_die e then st\<lparr>want_to_die := True\<rparr> else st)"
  have 1: "measured st1" using measured_measure [OF assms, of mb sufficient "ev_now e"]
    by (simp add: st1_def Let_def measured_def)
  have r: "client_round mb has_ifr sufficient e st = (case client_connect has_ifr e st1 of
           Return rc st \<Rightarrow> Inr (rc, st)
         | Reopen now st \<Rightarrow> Inl (client_reopen now e st)
         | Go_On st \<Rightarrow>
             (case client_wait e st of
                Return rc st \<Rightarrow> Inr (rc, st)
              | Reopen now st \<Rightarrow> Inl (client_reopen now e st)
              | Go_On st \<Rightarrow> Inl st))"
    by (simp add: client_round_def st1_def Let_def)
  show ?thesis
  proof (cases "client_connect has_ifr e st1")
    case (Go_On st2)
    then have "measured st2" using same_history(1) [of has_ifr e st1] 1 by simp
    then show ?thesis using same_history(2) [of e st2] Go_On
      by (cases "client_wait e st2") (simp_all add: r same_history(3))
  qed (use same_history(1) [of has_ifr e st1] 1 in \<open>simp_all add: r same_history(3)\<close>)
qed

lemma measured_loop:
  "measured st \<Longrightarrow> measured (snd (client_loop mb has_ifr sufficient es st))"
proof (induction es arbitrary: st)
  case (Cons e es)
  then show ?case using measured_round [OF Cons.prems, of mb has_ifr sufficient e]
    by (auto split: sum.splits)
qed simp

text \<open>
  Claim C21. The client's statistics are those of the stream: from whatever rounds it went through, with connections
  lost, refused and reopened in between, the number of dropouts, the longest and the deepest are those of the offsets
  it measured, and it printed a line for each of the notable dropouts, in their order.
\<close>
theorem client_reports_dropouts:
  assumes "run_client addr_ok mb has_ifr sufficient es = (rc, st)" "ds = dropouts (samples st)"
  shows "filter is_dropout (iso_out st) = map (\<lambda>(l, m). Dropout l m) (notable 0 0 ds) \<and>
    drop_count (drops st) = int (length (notable 0 0 ds)) \<and>
    drop_maxlength (drops st) = Max (insert 0 (fst ` set ds)) \<and>
    drop_maxdepth (drops st) = Min (insert 0 (snd ` set ds))"
proof -
  have "measured iso_start" by (simp add: measured_def iso_start_def)
  then have "measured st"
    using assms(1) measured_loop [of iso_start mb has_ifr sufficient es] by (auto simp: run_client_def split: if_splits)
  then have "drop_run (samples st) (drops iso_start) = (filter is_dropout (iso_out st), drops st)"
    by (simp add: measured_def)
  from drop_run_spec [OF _ _ this] show ?thesis unfolding assms(2) by (simp add: iso_start_def)
qed

abbreviation (input) round_at :: "int \<Rightarrow> int \<Rightarrow> iso_event" where
  "round_at t len \<equiv> \<lparr>ev_now = t, ev_socket_ok = True, ev_bind_ok = True, ev_connect_ok = True, ev_write_ok = True,
     ev_shutdown_ok = True, ev_connected = t, ev_selecting = t, ev_nfds = 1, ev_eintr = False, ev_woken = t, ev_len = len,
     ev_sleep_ok = True, ev_die = False\<rparr>"

theorem client_reports_dropouts_witness:
  "drop_maxlength (drops (snd (run_client True 8 False 0 [round_at 1 100, round_at 301 500, round_at 401 10, round_at 501 10]))) = 100"
proof -
  let ?r = "run_client True 8 False 0 [round_at 1 100, round_at 301 500, round_at 401 10, round_at 501 10]"
  have s: "samples (snd ?r) = [(301, - 200), (401, 200), (501, 110)]"
    by (simp add: run_client_def iso_start_def client_round_def client_measure_def client_connect_def client_wait_def
        client_offset_def drop_update_def drop_end_def c_quot_def Let_def)
  have d: "dropouts [(301, - 200), (401, 200), (501, 110)] = [(100, - 200)]"
    by (simp add: dropouts.simps)
  show ?thesis using client_reports_dropouts [of True 8 False 0 _ "fst ?r" "snd ?r", OF _ refl] by (simp add: s d)
qed

section \<open>Client and server together\<close>

text \<open>What the command line admits.\<close>

definition config_ok :: "iso_config \<Rightarrow> bool" where
  "config_ok c \<longleftrightarrow> 0 \<le> cfg_mb c \<and> cfg_mb c \<le> MAX_MBITS \<and> 1 \<le> cfg_max c \<and> cfg_max c \<le> MAX_CHILDREN \<and>
     (cfg_sufficient c = 0 \<or> 1 \<le> cfg_sufficient c) \<and> 0 \<le> cfg_timeout c"

lemma iso_opts_ok: "iso_opts os c = Some c' \<Longrightarrow> config_ok c \<Longrightarrow> config_ok c'"
  by (induction os c rule: iso_opts.induct) (auto simp: config_ok_def split: if_splits)

lemma iso_main_ok:
  "iso_main args = Iso_Server c \<Longrightarrow> config_ok c"
  "iso_main args = Iso_Client c remotename \<Longrightarrow> config_ok c \<and> cfg_mb c \<noteq> 0"
  by (auto simp: iso_main_def Let_def config_ok_def iso_defaults_def split: prod.splits option.splits list.splits if_splits
      dest: iso_opts_ok)

lemma be32_htonl:
  assumes "v < 2 ^ 32"
  shows "be32 (htonl_bytes v) = v"
proof -
  define a where "a = v div 2 ^ 8"
  define b where "b = v div 2 ^ 16"
  define c where "c = v div 2 ^ 24"
  have "b = a div 256" "c = b div 256" by (simp_all add: a_def b_def c_def div_mult2_eq [symmetric])
  moreover have "c < 256" using assms by (simp add: c_def div_less_iff_less_mult)
  ultimately have "v = 256 * a + v mod 256" "a = 256 * b + a mod 256" "b = 256 * c + b mod 256" "c mod 256 = c"
    by (simp_all add: a_def)
  moreover have "be32 (htonl_bytes v) = ((c mod 256 * 256 + b mod 256) * 256 + a mod 256) * 256 + v mod 256"
    by (simp add: be32_def htonl_bytes_def unat_of_nat take_bit_eq_mod a_def b_def c_def)
  moreover have "x = v" if "v = 256 * a + p" "a = 256 * b + q" "b = 256 * c + t" "u = c"
    "x = ((u * 256 + t) * 256 + q) * 256 + p" for x p q t u :: nat
    using that by simp
  ultimately show ?thesis by blast
qed

text \<open>
  The two ends agree. The request a client sends, for whatever rate its command line
  admits, is one the server takes and reads as that rate, and the rate is not 0.
\<close>
lemma request_accepted:
  assumes "iso_main args = Iso_Client c remotename"
  shows "server_request (Some (client_request (cfg_mb c))) = Some (cfg_mb c) \<and> cfg_mb c \<noteq> 0"
proof -
  have c: "1 \<le> cfg_mb c" "cfg_mb c \<le> 1000" using iso_main_ok(2) [OF assms] by (auto simp: config_ok_def)
  have l: "length (htonl_bytes v) = 4" for v by (simp add: htonl_bytes_def)
  have "be32 (htonl_bytes MAGIC) = MAGIC" "be32 (htonl_bytes (nat (cfg_mb c))) = nat (cfg_mb c)"
    using c(2) by (auto intro: be32_htonl)
  then show ?thesis using c by (simp add: server_request_def client_request_def l)
qed

text \<open>The client waits for data for a second at most, and always for some time.\<close>

lemma client_delay_bounds:
  assumes "start_time st \<le> now"
  shows "0 < client_delay now st \<and> client_delay now st \<le> 1000000"
  using assms c_rem_range [of "now - start_time st" 1000000] by (auto simp: client_delay_def Let_def)

lemma monotime_nonzero: "monotime tv_sec tv_nsec \<noteq> 0"
  by (simp add: monotime_def Let_def)

end
