(* ===== verification/Netusage.thy ===== *)
theory Netusage
  imports Complex_Main C_Num Getopt
begin

text \<open>
  The network usage meter, \<^verbatim>\<open>src/cmds/netusage.c\<close>: once a second it asks the kernel over a netlink socket for
  the counters of an interface and prints the rates of traffic, eight samples to a line.

  The host is little endian, as all the devices are. A response is the buffer of \<open>recvresp\<close> after \<open>recv\<close> and the length
  \<open>recv\<close> returned; \<open>None\<close> is a read outside that buffer, or the use of a counter that no response has set. The layout
  of the messages is that of \<^verbatim>\<open>linux/netlink.h\<close> and \<^verbatim>\<open>linux/rtnetlink.h\<close>. Rates, doubles in the code, are rational numbers;
  the rounding of \<open>printf\<close> is left out.
\<close>

abbreviation (input) SAMPLES :: nat where "SAMPLES \<equiv> 8"
abbreviation (input) IFNAMSIZ :: nat where "IFNAMSIZ \<equiv> 16"

definition mono_usecs :: "int \<Rightarrow> int \<Rightarrow> int" where
  "mono_usecs tv_sec tv_nsec = tv_sec * 1000000 + c_quot tv_nsec 1000"

section \<open>Requests\<close>

definition align4 :: "nat \<Rightarrow> nat" where
  "align4 n = (n + 3) div 4 * 4"

definition le16_bytes :: "nat \<Rightarrow> byte list" where
  "le16_bytes n = [word_of_nat n, word_of_nat (n div 256)]"

text \<open>
  The message of \<open>sendreq\<close> for an interface name: header (length, type 18, flags 1, sequence number 1, 0), family 17,
  and the attribute with the name. \<open>None\<close> is the exit for a name that is too long.
\<close>

definition sendreq :: "cstr \<Rightarrow> byte list option" where
  "sendreq ifname =
     (if length ifname > IFNAMSIZ then None
      else (let rta_len = 4 + length ifname;
                name = take (IFNAMSIZ - 1) ifname;
                attr = le16_bytes rta_len @ le16_bytes 3 @ name @ replicate (IFNAMSIZ - length name) 0;
                nlmsg_len = 32 + align4 rta_len
            in Some (take nlmsg_len
                 (le_bytes (word_of_nat nlmsg_len) @ le16_bytes 18 @ le16_bytes 1 @ le_bytes 1 @ le_bytes 0 @
                  (17 # replicate 15 0) @ attr))))"

section \<open>Responses\<close>

definition rd16 :: "nat \<Rightarrow> byte list \<Rightarrow> nat option" where
  "rd16 i bs = (if i + 2 \<le> length bs then Some (unat (bs ! i) + 256 * unat (bs ! (i + 1))) else None)"

definition rd32 :: "nat \<Rightarrow> byte list \<Rightarrow> u32 option" where
  "rd32 i bs =
     (if i + 4 \<le> length bs then Some (le_word (bs ! i) (bs ! (i + 1)) (bs ! (i + 2)) (bs ! (i + 3))) else None)"

record link_stats =
  st_tx_bytes :: u32
  st_rx_bytes :: u32
  st_tx_pkts :: u32
  st_rx_pkts :: u32
  st_multicast :: u32

text \<open>The fields of \<open>struct rtnl_link_stats\<close> that \<open>recvresp\<close> copies.\<close>

definition read_stats :: "byte list \<Rightarrow> link_stats option" where
  "read_stats bs = do {
     rx_bytes \<leftarrow> rd32 8 bs;
     tx_bytes \<leftarrow> rd32 12 bs;
     tx_packets \<leftarrow> rd32 4 bs;
     rx_packets \<leftarrow> rd32 0 bs;
     multicast \<leftarrow> rd32 32 bs;
     Some \<lparr>st_tx_bytes = tx_bytes, st_rx_bytes = rx_bytes, st_tx_pkts = tx_packets, st_rx_pkts = rx_packets,
       st_multicast = multicast\<rparr>
   }"

text \<open>The inner loop, over the attributes; \<open>bs\<close> is the buffer from the current one on. What the counters hold is
  \<open>None\<close> before a response has set them.\<close>

function attr_loop :: "byte list \<Rightarrow> int \<Rightarrow> link_stats option \<Rightarrow> link_stats option option" where
  "attr_loop bs attrlen s =
     (if attrlen < 4 then Some s
      else do {
        rta_len \<leftarrow> rd16 0 bs;
        if rta_len < 4 \<or> int rta_len > attrlen then Some s
        else do {
          rta_type \<leftarrow> rd16 2 bs;
          s \<leftarrow> (if rta_type = 7 then map_option Some (read_stats (drop 4 bs)) else Some s);
          attr_loop (drop (align4 rta_len) bs) (attrlen - int (align4 rta_len)) s
        }
      })"
  by pat_completeness auto

termination attr_loop
  by (relation "measure (\<lambda>(bs, attrlen, s). nat attrlen)") (auto simp: align4_def)

declare attr_loop.simps [simp del]

text \<open>The outer loop, over the messages; \<open>Inl\<close> is the exit.\<close>

function msg_loop :: "byte list \<Rightarrow> int \<Rightarrow> link_stats option \<Rightarrow> (int + link_stats option) option" where
  "msg_loop bs len s =
     (if len < 16 then Some (Inr s)
      else do {
        w \<leftarrow> rd32 0 bs;
        let nlmsg_len = unat w;
        if nlmsg_len < 16 \<or> int nlmsg_len > len then Some (Inr s)
        else do {
          nlmsg_type \<leftarrow> rd16 4 bs;
          if nlmsg_type = 2 then Some (Inl 1)
          else do {
            s \<leftarrow> attr_loop (drop 32 bs) (int nlmsg_len - 32) s;
            msg_loop (drop (align4 nlmsg_len) bs) (len - int (align4 nlmsg_len)) s
          }
        }
      })"
  by pat_completeness auto

termination msg_loop
  by (relation "measure (\<lambda>(bs, len, s). nat len)") (auto simp: align4_def)

declare msg_loop.simps [simp del]

definition recvresp :: "byte list \<Rightarrow> int \<Rightarrow> (int + link_stats option) option" where
  "recvresp buf len = msg_loop buf len None"

section \<open>Rates\<close>

record saved_counters =
  tx_bytes :: u32
  rx_bytes :: u32
  tx_pkts :: u32
  rx_unipkts :: u32
  rx_multipkts :: u32

record net_rates =
  tx_kbps :: rat
  rx_kbps :: rat
  tx_pps :: rat
  rx_uni_pps :: rat
  rx_multi_pps :: rat

datatype net_line = Underflow u32 u32 u32 | Samples "net_rates list"

text \<open>A difference of counters, in 32 bits, as a number.\<close>

definition u32_diff :: "u32 \<Rightarrow> u32 \<Rightarrow> rat" where
  "u32_diff a b = of_nat (unat (a - b))"

text \<open>\<open>accumulate_stats\<close> on the results of its two reads; \<open>max_log\<close> is the static \<open>max_underflow_log\<close>.\<close>

definition accumulate_stats ::
    "rat \<Rightarrow> link_stats \<Rightarrow> link_stats \<Rightarrow> saved_counters \<Rightarrow> int \<Rightarrow> net_rates \<times> saved_counters \<times> int \<times> net_line list" where
  "accumulate_stats delta c c2 old max_log =
     (let unipkts = st_rx_pkts c2 - st_multicast c;
          uni_pps = u32_diff unipkts (rx_unipkts old) / delta;
          under = (uni_pps > 2147483648)
      in (\<lparr>tx_kbps = (8 * u32_diff (st_tx_bytes c) (tx_bytes old) / 1000) / delta,
           rx_kbps = (8 * u32_diff (st_rx_bytes c) (rx_bytes old) / 1000) / delta,
           tx_pps = u32_diff (st_tx_pkts c) (tx_pkts old) / delta,
           rx_uni_pps = (if under then 0 else uni_pps),
           rx_multi_pps = u32_diff (st_multicast c) (rx_multipkts old) / delta\<rparr>,
          \<lparr>tx_bytes = st_tx_bytes c, rx_bytes = st_rx_bytes c, tx_pkts = st_tx_pkts c, rx_unipkts = unipkts,
           rx_multipkts = st_multicast c\<rparr>,
          (if under \<and> max_log > 0 then max_log - 1 else max_log),
          (if under \<and> max_log > 0 then [Underflow (st_rx_pkts c2) (st_multicast c) (rx_unipkts old)] else [])))"

text \<open>A request and its response.\<close>

record net_read =
  rd_send_ok :: bool
  rd_buf :: "byte list"
  rd_len :: int

definition read_link :: "cstr \<Rightarrow> net_read \<Rightarrow> (int + link_stats option) option" where
  "read_link ifname r =
     (case sendreq ifname of
        None \<Rightarrow> Some (Inl 1)
      | Some req \<Rightarrow> if \<not> rd_send_ok r then Some (Inl 1) else recvresp (rd_buf r) (rd_len r))"

text \<open>The two reads of \<open>accumulate_stats\<close>; counters that were not set are not read.\<close>

definition read_twice :: "cstr \<Rightarrow> net_read \<times> net_read \<Rightarrow> (int + link_stats \<times> link_stats) option" where
  "read_twice ifname rs = do {
     a \<leftarrow> read_link ifname (fst rs);
     case a of
       Inl rc \<Rightarrow> Some (Inl rc)
     | Inr s \<Rightarrow> do {
         b \<leftarrow> read_link ifname (snd rs);
         case b of
           Inl rc \<Rightarrow> Some (Inl rc)
         | Inr s2 \<Rightarrow> do { c \<leftarrow> s; c2 \<leftarrow> s2; Some (Inr (c, c2)) }
       }
   }"

section \<open>The main program\<close>

text \<open>
  The state of the loop: \<open>slots\<close> are the five arrays at the end of a round, of which entry \<open>i\<close> was written in it, and
  \<open>net_stored\<close> records what the rounds have stored in them. The arrays are declared inside the loop, so what they hold at the
  start of a round is indeterminate: it is given by the event.
\<close>

record net_state =
  slots :: "net_rates list"
  net_i :: nat
  net_old :: saved_counters
  net_start :: int
  net_log :: int
  net_out :: "net_line list"
  net_stored :: "net_rates list"

text \<open>
  A round: the time, \<open>None\<close> when the clock cannot be read, the two reads, and what the arrays hold when the block of the loop is
  entered again, by what they held when it was left. A compiler that leaves them in place gives \<open>\<lambda>xs. xs\<close>.
\<close>

record net_event =
  ne_time :: "int option"
  ne_reads :: "net_read \<times> net_read"
  ne_arrays :: "net_rates list \<Rightarrow> net_rates list"

definition net_round :: "cstr \<Rightarrow> net_event \<Rightarrow> net_state \<Rightarrow> (int + net_state) option" where
  "net_round ifname e st =
     (case ne_time e of
        None \<Rightarrow> Some (Inl 1)
      | Some timestamp \<Rightarrow> do {
          rs \<leftarrow> read_twice ifname (ne_reads e);
          case rs of
            Inl rc \<Rightarrow> Some (Inl rc)
          | Inr (c, c2) \<Rightarrow>
              (let delta = of_int (timestamp - net_start st) / 1000000;
                   (r, old, max_log, lines) = accumulate_stats delta c c2 (net_old st) (net_log st);
                   arr = (ne_arrays e (slots st))[net_i st := r];
                   i = net_i st + 1;
                   full = (i = SAMPLES)
               in Some (Inr \<lparr>slots = arr, net_i = (if full then 0 else i), net_old = old, net_start = timestamp,
                    net_log = max_log, net_out = net_out st @ lines @ (if full then [Samples arr] else []),
                    net_stored = net_stored st @ [r]\<rparr>))
        })"

fun net_loop :: "cstr \<Rightarrow> net_event list \<Rightarrow> net_state \<Rightarrow> (int + net_state) option" where
  "net_loop ifname [] st = Some (Inr st)"
| "net_loop ifname (e # es) st = do {
     r \<leftarrow> net_round ifname e st;
     case r of
       Inl rc \<Rightarrow> Some (Inl rc)
     | Inr st \<Rightarrow> net_loop ifname es st
   }"

fun net_opts :: "short_opt list \<Rightarrow> cstr option \<Rightarrow> cstr option option" where
  "net_opts [] interface = Some interface"
| "net_opts (Bad_Short # os) interface = None"
| "net_opts (Short o' optarg # os) interface = (if o' = CHR ''i'' then net_opts os (Some optarg) else None)"

text \<open>
  \<open>main\<close>; \<open>junk\<close> is what the variable \<open>old\<close> and \<open>arr\<close> what the arrays hold before they are set.
\<close>

definition net_main ::
    "bool \<Rightarrow> cstr list \<Rightarrow> saved_counters \<Rightarrow> net_rates list \<Rightarrow> net_event \<Rightarrow> net_event list \<Rightarrow> (int + net_state) option" where
  "net_main socket_ok args junk arr e0 es =
     (if \<not> socket_ok then Some (Inl 1)
      else case net_opts (fst (getopt [(CHR ''i'', True)] args)) None of
        Some (Some ifname) \<Rightarrow>
          (case ne_time e0 of
             None \<Rightarrow> Some (Inl 1)
           | Some start \<Rightarrow> do {
               rs \<leftarrow> read_twice ifname (ne_reads e0);
               case rs of
                 Inl rc \<Rightarrow> Some (Inl rc)
               | Inr (c, c2) \<Rightarrow>
                   (let (r, old, max_log, lines) = accumulate_stats 1 c c2 junk 10
                    in net_loop ifname es \<lparr>slots = arr, net_i = 0, net_old = old, net_start = start, net_log = max_log,
                         net_out = lines, net_stored = []\<rparr>)
             })
      | _ \<Rightarrow> Some (Inl 1))"

section \<open>Parsing the kernel's answers\<close>

text \<open>The messages a kernel sends: attributes, padded to four bytes, one of them with the statistics.\<close>

datatype link_attr = Stats_Attr link_stats "byte list" "byte list" | Other_Attr nat "byte list"

fun attr_type :: "link_attr \<Rightarrow> nat" where
  "attr_type (Stats_Attr s mid rest) = 7"
| "attr_type (Other_Attr t p) = t"

fun attr_payload :: "link_attr \<Rightarrow> byte list" where
  "attr_payload (Stats_Attr s mid rest) =
     le_bytes (st_rx_pkts s) @ le_bytes (st_tx_pkts s) @ le_bytes (st_rx_bytes s) @ le_bytes (st_tx_bytes s) @ mid @
     le_bytes (st_multicast s) @ rest"
| "attr_payload (Other_Attr t p) = p"

fun attr_ok :: "link_attr \<Rightarrow> bool" where
  "attr_ok (Stats_Attr s mid rest) \<longleftrightarrow> length mid = 16 \<and> length rest < 65000"
| "attr_ok (Other_Attr t p) \<longleftrightarrow> t \<noteq> 7 \<and> t < 65536 \<and> length p < 65532"

definition enc_attr :: "link_attr \<Rightarrow> byte list" where
  "enc_attr a =
     le16_bytes (4 + length (attr_payload a)) @ le16_bytes (attr_type a) @ attr_payload a @
     replicate (align4 (length (attr_payload a)) - length (attr_payload a)) 0"

fun attr_stats :: "link_attr \<Rightarrow> link_stats option \<Rightarrow> link_stats option" where
  "attr_stats (Stats_Attr s mid rest) old = Some s"
| "attr_stats (Other_Attr t p) old = old"

record link_msg =
  msg_type :: nat
  msg_head :: "byte list"
  msg_attrs :: "link_attr list"

definition msg_ok :: "link_msg \<Rightarrow> bool" where
  "msg_ok m \<longleftrightarrow> msg_type m \<noteq> 2 \<and> msg_type m < 65536 \<and> length (msg_head m) = 26 \<and> list_all attr_ok (msg_attrs m)"

definition enc_msg :: "link_msg \<Rightarrow> byte list" where
  "enc_msg m =
     (let attrs = concat (map enc_attr (msg_attrs m))
      in le_bytes (word_of_nat (32 + length attrs)) @ le16_bytes (msg_type m) @ msg_head m @ attrs)"

lemma align4_ge: "n \<le> align4 n"
  by (simp add: align4_def)

lemma align4_add: "align4 (4 + n) = 4 + align4 n"
  unfolding align4_def by presburger

lemma unat_u32: "n < 2 ^ 32 \<Longrightarrow> unat (word_of_nat n :: u32) = n"
  by (simp add: unat_of_nat take_bit_nat_eq_self)

lemma align4_dvd: "4 dvd n \<Longrightarrow> align4 n = n"
  by (auto simp: align4_def dvd_def)

lemma length_enc_attr: "length (enc_attr a) = 4 + align4 (length (attr_payload a))"
  using align4_ge [of "length (attr_payload a)"] by (simp add: enc_attr_def le16_bytes_def)

lemma enc_attrs_dvd: "4 dvd length (concat (map enc_attr as))"
  by (induction as) (auto simp: length_enc_attr align4_def)

lemma rd16_le16: "n < 65536 \<Longrightarrow> length xs = i \<Longrightarrow> rd16 i (xs @ le16_bytes n @ ys) = Some n"
  by (auto simp: rd16_def le16_bytes_def nth_append unat_of_nat take_bit_eq_mod)

lemma rd32_le: "length xs = i \<Longrightarrow> rd32 i (xs @ le_bytes w @ ys) = Some w"
  by (auto simp: rd32_def le_bytes_def nth_append le_word_bytes)

lemma read_stats_enc:
  assumes "length mid = 16"
  shows "read_stats (attr_payload (Stats_Attr s mid rest) @ ys) = Some s"
proof -
  let ?a = "le_bytes (st_rx_pkts s)" and ?b = "le_bytes (st_tx_pkts s)" and ?c = "le_bytes (st_rx_bytes s)"
    and ?d = "le_bytes (st_tx_bytes s)" and ?e = "le_bytes (st_multicast s)"
  let ?p = "?a @ ?b @ ?c @ ?d @ mid @ ?e @ rest @ ys"
  have "rd32 0 ?p = Some (st_rx_pkts s)" using rd32_le [of "[]" 0] by simp
  moreover have "rd32 4 ?p = Some (st_tx_pkts s)" using rd32_le [of ?a 4] by simp
  moreover have "rd32 8 ?p = Some (st_rx_bytes s)" using rd32_le [of "?a @ ?b" 8] by simp
  moreover have "rd32 12 ?p = Some (st_tx_bytes s)" using rd32_le [of "?a @ ?b @ ?c" 12] by simp
  moreover have "rd32 32 ?p = Some (st_multicast s)" using rd32_le [of "?a @ ?b @ ?c @ ?d @ mid" 32] assms by simp
  ultimately show ?thesis by (simp add: read_stats_def)
qed

lemma attr_loop_enc:
  assumes "list_all attr_ok as"
  shows "attr_loop (concat (map enc_attr as) @ ys) (int (length (concat (map enc_attr as)))) s = Some (fold attr_stats as s)"
  using assms
proof (induction as arbitrary: s)
  case Nil
  then show ?case by (simp add: attr_loop.simps)
next
  case (Cons a as)
  let ?rest = "concat (map enc_attr as) @ ys" and ?p = "attr_payload a"
  let ?pad = "replicate (align4 (length ?p) - length ?p) 0 :: byte list"
  let ?bs = "enc_attr a @ ?rest"
  have ok: "4 + length ?p < 65536" "attr_type a < 65536" using Cons.prems by (cases a; simp)+
  have len: "rd16 0 ?bs = Some (4 + length ?p)"
    using rd16_le16 [OF ok(1), of "[]" 0] by (simp add: enc_attr_def)
  have ty: "rd16 2 ?bs = Some (attr_type a)"
    using rd16_le16 [OF ok(2), of "le16_bytes (4 + length ?p)" 2] by (simp add: enc_attr_def le16_bytes_def)
  have skip: "drop (align4 (4 + length ?p)) ?bs = ?rest" by (simp add: align4_add length_enc_attr)
  have body: "drop 4 ?bs = ?p @ ?pad @ ?rest" by (simp add: enc_attr_def le16_bytes_def)
  have set: "(if attr_type a = 7 then map_option Some (read_stats (drop 4 ?bs)) else Some s) = Some (attr_stats a s)"
    unfolding body using Cons.prems by (cases a) (auto simp: read_stats_enc simp del: attr_payload.simps)
  have "int (length (concat (map enc_attr (a # as)))) = int (align4 (4 + length ?p)) + int (length (concat (map enc_attr as)))"
    by (simp add: length_enc_attr align4_add)
  moreover have "attr_loop ?bs (int (align4 (4 + length ?p)) + int (length (concat (map enc_attr as)))) s =
      attr_loop ?rest (int (length (concat (map enc_attr as)))) (attr_stats a s)"
    using align4_ge [of "4 + length ?p"] by (subst attr_loop.simps) (simp add: len ty set skip length_enc_attr align4_add)
  ultimately show ?case using Cons by simp
qed

definition msgs_stats :: "link_msg list \<Rightarrow> link_stats option" where
  "msgs_stats ms = fold attr_stats (concat (map msg_attrs ms)) None"

lemma msg_loop_enc:
  assumes "list_all msg_ok ms" "length (concat (map enc_msg ms)) < 2 ^ 32"
  shows "msg_loop (concat (map enc_msg ms) @ ys) (int (length (concat (map enc_msg ms)))) s =
    Some (Inr (fold attr_stats (concat (map msg_attrs ms)) s))"
  using assms
proof (induction ms arbitrary: s)
  case Nil
  then show ?case by (simp add: msg_loop.simps)
next
  case (Cons m ms)
  let ?attrs = "concat (map enc_attr (msg_attrs m))" and ?rest = "concat (map enc_msg ms) @ ys"
  let ?n = "32 + length ?attrs"
  let ?bs = "enc_msg m @ ?rest"
  have ok: "msg_type m \<noteq> 2" "msg_type m < 65536" "length (msg_head m) = 26" "list_all attr_ok (msg_attrs m)"
    using Cons.prems(1) by (auto simp: msg_ok_def)
  have length_msg: "length (enc_msg m) = ?n" by (simp add: enc_msg_def Let_def le16_bytes_def ok(3))
  have n: "?n < 2 ^ 32" using Cons.prems(2) length_msg by simp
  have "4 dvd ?n" using enc_attrs_dvd [of "msg_attrs m"] by simp
  then have al: "align4 ?n = ?n" by (rule align4_dvd)
  have len: "rd32 0 ?bs = Some (word_of_nat ?n)"
    using rd32_le [of "[]" 0] by (simp add: enc_msg_def Let_def)
  have un: "unat (word_of_nat ?n :: u32) = ?n" using n by (rule unat_u32)
  have ty: "rd16 4 ?bs = Some (msg_type m)"
    using rd16_le16 [OF ok(2), of "le_bytes (word_of_nat ?n)" 4] by (simp add: enc_msg_def Let_def)
  have body: "drop 32 ?bs = ?attrs @ ?rest" by (simp add: enc_msg_def Let_def le16_bytes_def ok(3))
  have attrs: "attr_loop (drop 32 ?bs) (int ?n - 32) s = Some (fold attr_stats (msg_attrs m) s)"
    unfolding body using attr_loop_enc [OF ok(4), of ?rest s] by simp
  have skip: "drop ?n ?bs = ?rest" by (simp add: length_msg)
  have "msg_loop ?bs (int ?n + int (length (concat (map enc_msg ms)))) s =
      msg_loop ?rest (int (length (concat (map enc_msg ms)))) (fold attr_stats (msg_attrs m) s)"
    by (subst msg_loop.simps) (simp only: len un ty attrs al skip Option.bind.simps Let_def, simp add: ok(1))
  then show ?case using Cons by (simp add: length_msg)
qed

lemma recvresp_enc:
  assumes "list_all msg_ok ms" "length (concat (map enc_msg ms)) \<le> 4096"
  shows "recvresp (concat (map enc_msg ms) @ stale) (int (length (concat (map enc_msg ms)))) = Some (Inr (msgs_stats ms))"
  using msg_loop_enc [OF assms(1), of stale None] assms(2) by (simp add: recvresp_def msgs_stats_def)

text \<open>
  Claim C39. The counters are read right. For every sequence of link messages that fits the buffer, with whatever
  attributes in whatever order and whatever bytes behind it, the loops of \<open>recvresp\<close> stay in the buffer, end, and return the
  counters of the last statistics attribute, or none when there is none.
\<close>
theorem recvresp_reads_stats:
  assumes "list_all msg_ok ms" "length (concat (map enc_msg ms)) \<le> 4096"
  shows "recvresp (concat (map enc_msg ms) @ stale) (int (length (concat (map enc_msg ms)))) = Some (Inr (msgs_stats ms))"
  by (rule recvresp_enc [OF assms])

abbreviation (input) sample_stats :: "u32 \<Rightarrow> link_stats" where
  "sample_stats n \<equiv> \<lparr>st_tx_bytes = n, st_rx_bytes = 0, st_tx_pkts = 0, st_rx_pkts = 7, st_multicast = 5\<rparr>"

abbreviation (input) sample_msgs :: "u32 \<Rightarrow> link_msg list" where
  "sample_msgs n \<equiv> [\<lparr>msg_type = 16, msg_head = replicate 26 0,
     msg_attrs = [Other_Attr 3 [101, 0], Stats_Attr (sample_stats n) (replicate 16 0) []]\<rparr>]"

lemma sample_msgs_ok: "list_all msg_ok (sample_msgs n)" "length (concat (map enc_msg (sample_msgs n))) = 80"
  by (simp_all add: msg_ok_def enc_msg_def enc_attr_def le16_bytes_def le_bytes_def align4_def Let_def)

theorem recvresp_reads_stats_witness:
  "recvresp (concat (map enc_msg (sample_msgs 99)) @ replicate 16 0) 80 = Some (Inr (Some (sample_stats 99)))"
  using recvresp_reads_stats [OF sample_msgs_ok(1), of 99 "replicate 16 0"] sample_msgs_ok(2) [of 99]
  by (simp add: msgs_stats_def)

section \<open>The rates\<close>

text \<open>
  The counters of the interface as they are in truth, without wrapping around, at the time of a sample: \<open>o_rx_pkts\<close>
  is seen by the second read of a sample, everything else by the first.
\<close>

record net_obs =
  o_time :: int
  o_tx_bytes :: nat
  o_rx_bytes :: nat
  o_tx_pkts :: nat
  o_rx_pkts :: nat
  o_multi :: nat

definition obs_uni :: "net_obs \<Rightarrow> int" where
  "obs_uni b = int (o_rx_pkts b) - int (o_multi b)"

definition obs_delta :: "net_obs \<Rightarrow> net_obs \<Rightarrow> rat" where
  "obs_delta a b = of_int (o_time b - o_time a) / 1000000"

text \<open>What a sample should say: the growth of each counter over the time; 0 when the count of unicast packets went back.\<close>

definition net_spec :: "net_obs \<Rightarrow> net_obs \<Rightarrow> net_rates" where
  "net_spec a b =
     \<lparr>tx_kbps = (8 * of_nat (o_tx_bytes b - o_tx_bytes a) / 1000) / obs_delta a b,
      rx_kbps = (8 * of_nat (o_rx_bytes b - o_rx_bytes a) / 1000) / obs_delta a b,
      tx_pps = of_nat (o_tx_pkts b - o_tx_pkts a) / obs_delta a b,
      rx_uni_pps = of_int (max 0 (obs_uni b - obs_uni a)) / obs_delta a b,
      rx_multi_pps = of_nat (o_multi b - o_multi a) / obs_delta a b\<rparr>"

fun net_specs :: "net_obs list \<Rightarrow> net_rates list" where
  "net_specs (a # b # bs) = net_spec a b # net_specs (b # bs)"
| "net_specs bs = []"

text \<open>
  Two samples in a row: less than \<open>2 ^ 32\<close> more on each counter, between half a second and one and a half, and the
  unicast count has moved by \<open>2 ^ 30\<close> at most, in either direction.
\<close>

definition grows :: "nat \<Rightarrow> nat \<Rightarrow> bool" where
  "grows a b \<longleftrightarrow> a \<le> b \<and> b < a + 2 ^ 32"

definition steady :: "net_obs \<Rightarrow> net_obs \<Rightarrow> bool" where
  "steady a b \<longleftrightarrow> grows (o_tx_bytes a) (o_tx_bytes b) \<and> grows (o_rx_bytes a) (o_rx_bytes b) \<and>
     grows (o_tx_pkts a) (o_tx_pkts b) \<and> grows (o_multi a) (o_multi b) \<and>
     \<bar>obs_uni b - obs_uni a\<bar> \<le> 2 ^ 30 \<and> 500000 \<le> o_time b - o_time a \<and> o_time b - o_time a < 1500000"

definition sees :: "net_obs \<Rightarrow> link_stats \<Rightarrow> link_stats \<Rightarrow> bool" where
  "sees b c c2 \<longleftrightarrow> st_tx_bytes c = word_of_nat (o_tx_bytes b) \<and> st_rx_bytes c = word_of_nat (o_rx_bytes b) \<and>
     st_tx_pkts c = word_of_nat (o_tx_pkts b) \<and> st_multicast c = word_of_nat (o_multi b) \<and>
     st_rx_pkts c2 = word_of_nat (o_rx_pkts b)"

definition holds :: "net_obs \<Rightarrow> saved_counters \<Rightarrow> bool" where
  "holds b old \<longleftrightarrow> old = \<lparr>tx_bytes = word_of_nat (o_tx_bytes b), rx_bytes = word_of_nat (o_rx_bytes b),
     tx_pkts = word_of_nat (o_tx_pkts b), rx_unipkts = word_of_int (obs_uni b), rx_multipkts = word_of_nat (o_multi b)\<rparr>"

lemma u32_diff_grows:
  assumes "grows a b"
  shows "u32_diff (word_of_nat b) (word_of_nat a) = of_nat (b - a)"
proof -
  have "(word_of_nat b :: u32) - word_of_nat a = word_of_nat (b - a)" using assms by (simp add: grows_def of_nat_diff)
  moreover have "unat (word_of_nat (b - a) :: u32) = b - a" using assms by (intro unat_u32) (auto simp: grows_def)
  ultimately show ?thesis unfolding u32_diff_def by (simp only:)
qed

lemma word_of_int_unat: "of_nat (unat (word_of_int i :: u32)) = (of_int (i mod 2 ^ 32) :: rat)"
proof -
  have "int (unat (word_of_int i :: u32)) = i mod 2 ^ 32"
    by (simp add: uint_word_of_int flip: uint_nat)
  then show ?thesis by (metis of_int_of_nat_eq)
qed

lemma u32_diff_int: "u32_diff (word_of_int b) (word_of_int a) = of_int ((b - a) mod 2 ^ 32)"
  using word_of_int_unat [of "b - a"] by (simp add: u32_diff_def)

lemma obs_uni_word: "word_of_nat (o_rx_pkts b) - word_of_nat (o_multi b) = (word_of_int (obs_uni b) :: u32)"
  by (simp add: obs_uni_def)

lemma uni_rate:
  assumes "steady a b"
  defines "rate \<equiv> of_int ((obs_uni b - obs_uni a) mod 2 ^ 32) / obs_delta a b"
  shows "(if rate > 2147483648 then 0 else rate) = of_int (max 0 (obs_uni b - obs_uni a)) / obs_delta a b"
proof -
  define k where "k = obs_uni b - obs_uni a"
  define d where "d = obs_delta a b"
  have t: "500000 \<le> o_time b - o_time a" "o_time b - o_time a < 1500000" and k: "\<bar>k\<bar> \<le> 2 ^ 30"
    using assms(1) by (simp_all add: steady_def k_def)
  have bounds: "of_int 500000 \<le> (of_int (o_time b - o_time a) :: rat)" "of_int (o_time b - o_time a) < (of_int 1500000 :: rat)"
    using t by (simp_all only: of_int_le_iff of_int_less_iff)
  have d: "1 / 2 \<le> d" "d < 3 / 2" "0 < d" using bounds unfolding d_def obs_delta_def by simp_all
  show ?thesis
  proof (cases "0 \<le> k")
    case True
    then have "k mod 2 ^ 32 = k" "max 0 k = k" using k by simp_all
    moreover have "of_int k \<le> (of_int (2 ^ 30) :: rat)" using k True by (simp only: of_int_le_iff)
    then have "of_int k / d \<le> 2147483648" using d by (simp add: pos_divide_le_eq)
    ultimately show ?thesis by (simp add: rate_def k_def [symmetric] d_def [symmetric] not_less)
  next
    case False
    then have m0: "0 \<le> k + 2 ^ 32" "k + 2 ^ 32 < 2 ^ 32" "max 0 k = 0" using k by simp_all
    then have m: "k mod 2 ^ 32 = k + 2 ^ 32" "max 0 k = 0"
      using mod_pos_pos_trivial [OF m0(1,2)] by (simp_all only: mod_add_self2)
    have "3 * 2 ^ 30 \<le> k + 2 ^ 32" using k by simp
    then have "of_int (3 * 2 ^ 30) \<le> (of_int (k + 2 ^ 32) :: rat)" by (simp only: of_int_le_iff)
    then have "2147483648 * d < of_int (k + 2 ^ 32)" using d(2) by simp
    then have "2147483648 < of_int (k + 2 ^ 32) / d" using d(3) by (simp add: pos_less_divide_eq)
    then show ?thesis using m by (simp add: rate_def k_def [symmetric] d_def [symmetric])
  qed
qed

lemma accumulate_exact:
  assumes "steady a b" "holds a old" "sees b c c2"
  shows "\<exists>old' max_log' lines. accumulate_stats (obs_delta a b) c c2 old max_log = (net_spec a b, old', max_log', lines) \<and>
    holds b old' \<and> (\<forall>rs. Samples rs \<notin> set lines)"
proof -
  note d = assms(2,3) [unfolded holds_def sees_def]
  have g: "grows (o_tx_bytes a) (o_tx_bytes b)" "grows (o_rx_bytes a) (o_rx_bytes b)" "grows (o_tx_pkts a) (o_tx_pkts b)"
    "grows (o_multi a) (o_multi b)" using assms(1) by (simp_all add: steady_def)
  have u: "u32_diff (st_tx_bytes c) (tx_bytes old) = of_nat (o_tx_bytes b - o_tx_bytes a)"
      "u32_diff (st_rx_bytes c) (rx_bytes old) = of_nat (o_rx_bytes b - o_rx_bytes a)"
      "u32_diff (st_tx_pkts c) (tx_pkts old) = of_nat (o_tx_pkts b - o_tx_pkts a)"
      "u32_diff (st_multicast c) (rx_multipkts old) = of_nat (o_multi b - o_multi a)"
      "u32_diff (st_rx_pkts c2 - st_multicast c) (rx_unipkts old) = of_int ((obs_uni b - obs_uni a) mod 2 ^ 32)"
    using d u32_diff_grows [OF g(1)] u32_diff_grows [OF g(2)] u32_diff_grows [OF g(3)] u32_diff_grows [OF g(4)]
      u32_diff_int [of "obs_uni b" "obs_uni a"] by (simp_all only: obs_uni_word saved_counters.simps)
  have "fst (accumulate_stats (obs_delta a b) c c2 old max_log) = net_spec a b"
    unfolding accumulate_stats_def Let_def u fst_conv uni_rate [OF assms(1)] net_spec_def by (rule refl)
  moreover have "holds b (fst (snd (accumulate_stats (obs_delta a b) c c2 old max_log)))"
    "\<forall>rs. Samples rs \<notin> set (snd (snd (snd (accumulate_stats (obs_delta a b) c c2 old max_log))))"
    using d(2) by (simp_all add: accumulate_stats_def holds_def obs_uni_word Let_def)
  ultimately show ?thesis by (metis prod.collapse)
qed

lemma accumulate_first:
  assumes "sees b c c2"
  shows "\<exists>r old max_log lines. accumulate_stats 1 c c2 junk m = (r, old, max_log, lines) \<and> holds b old \<and>
    (\<forall>rs. Samples rs \<notin> set lines)"
  using assms by (simp add: accumulate_stats_def holds_def sees_def obs_uni_word Let_def)

text \<open>The samples of a run: those printed, and those in the arrays.\<close>

fun line_samples :: "net_line \<Rightarrow> net_rates list" where
  "line_samples (Samples rs) = rs"
| "line_samples (Underflow a b c) = []"

definition net_samples :: "net_state \<Rightarrow> net_rates list" where
  "net_samples st = concat (map line_samples (net_out st)) @ take (net_i st) (slots st)"

definition net_wf :: "net_state \<Rightarrow> bool" where
  "net_wf st \<longleftrightarrow> length (slots st) = SAMPLES \<and> net_i st < SAMPLES \<and>
     (\<forall>rs. Samples rs \<in> set (net_out st) \<longrightarrow> length rs = SAMPLES)"

lemma no_samples: "\<forall>rs. Samples rs \<notin> set lines \<Longrightarrow> concat (map line_samples lines) = []"
proof (induction lines)
  case (Cons l lines)
  then show ?case by (cases l) auto
qed simp

definition observes :: "cstr \<Rightarrow> net_event \<Rightarrow> net_obs \<Rightarrow> bool" where
  "observes ifname e b \<longleftrightarrow> ne_time e = Some (o_time b) \<and>
     (\<exists>c c2. read_twice ifname (ne_reads e) = Some (Inr (c, c2)) \<and> sees b c c2)"

lemma net_round_exact:
  assumes "net_start st = o_time a" "holds a (net_old st)" "steady a b" "observes ifname e b"
  shows "\<exists>st'. net_round ifname e st = Some (Inr st') \<and> net_start st' = o_time b \<and> holds b (net_old st') \<and>
    net_stored st' = net_stored st @ [net_spec a b] \<and>
    (net_wf st \<and> ne_arrays e (slots st) = slots st \<longrightarrow> net_wf st' \<and> net_samples st' = net_samples st @ [net_spec a b])"
proof -
  obtain c c2 where e: "ne_time e = Some (o_time b)" "read_twice ifname (ne_reads e) = Some (Inr (c, c2))" "sees b c c2"
    using assms(4) by (auto simp: observes_def)
  obtain old' log' lines where acc: "accumulate_stats (obs_delta a b) c c2 (net_old st) (net_log st) = (net_spec a b, old', log', lines)"
    and old': "holds b old'" and lines: "\<forall>rs. Samples rs \<notin> set lines"
    using accumulate_exact [OF assms(3,2) e(3)] by blast
  let ?full = "net_i st + 1 = SAMPLES" and ?arr = "(ne_arrays e (slots st))[net_i st := net_spec a b]"
  let ?st = "\<lparr>slots = ?arr, net_i = (if ?full then 0 else net_i st + 1), net_old = old', net_start = o_time b,
    net_log = log', net_out = net_out st @ lines @ (if ?full then [Samples ?arr] else []),
    net_stored = net_stored st @ [net_spec a b]\<rparr>"
  have r: "net_round ifname e st = Some (Inr ?st)"
    using acc by (simp add: net_round_def e(1,2) assms(1) obs_delta_def Let_def)
  have "net_wf ?st \<and> net_samples ?st = net_samples st @ [net_spec a b]" if wf: "net_wf st" and kept: "ne_arrays e (slots st) = slots st"
  proof
    have "net_i st < length (slots st)" using wf by (simp add: net_wf_def)
    then have tk: "take (net_i st + 1) ?arr = take (net_i st) (slots st) @ [net_spec a b]"
      by (simp add: take_Suc_conv_app_nth kept)
    show "net_wf ?st" using wf lines kept by (auto simp: net_wf_def)
    show "net_samples ?st = net_samples st @ [net_spec a b]"
    proof (cases ?full)
      case True
      then have "?arr = take (net_i st) (slots st) @ [net_spec a b]" using tk wf by (simp add: net_wf_def kept)
      then show ?thesis using True by (simp add: net_samples_def no_samples [OF lines])
    qed (use tk in \<open>simp add: net_samples_def no_samples [OF lines]\<close>)
  qed
  then show ?thesis using r old' by (intro exI [of _ ?st]) simp
qed

lemma net_loop_exact:
  assumes "net_start st = o_time a" "holds a (net_old st)" "successively steady (a # bs)" "list_all2 (observes ifname) es bs"
  shows "\<exists>st'. net_loop ifname es st = Some (Inr st') \<and> net_stored st' = net_stored st @ net_specs (a # bs) \<and>
    (net_wf st \<and> list_all (\<lambda>e. \<forall>xs. ne_arrays e xs = xs) es \<longrightarrow>
       net_wf st' \<and> net_samples st' = net_samples st @ net_specs (a # bs))"
  using assms(4,1-3)
proof (induction es bs arbitrary: st a rule: list_all2_induct)
  case Nil
  then show ?case by simp
next
  case (Cons e es b bs)
  then have s: "steady a b" "successively steady (b # bs)" by simp_all
  obtain st1 where 1: "net_round ifname e st = Some (Inr st1)" "net_start st1 = o_time b" "holds b (net_old st1)"
      "net_stored st1 = net_stored st @ [net_spec a b]"
      "net_wf st \<and> ne_arrays e (slots st) = slots st \<longrightarrow> net_wf st1 \<and> net_samples st1 = net_samples st @ [net_spec a b]"
    using net_round_exact [OF Cons.prems(1,2) s(1) Cons.hyps(1)] by blast
  obtain st2 where "net_loop ifname es st1 = Some (Inr st2)" "net_stored st2 = net_stored st1 @ net_specs (b # bs)"
      "net_wf st1 \<and> list_all (\<lambda>e. \<forall>xs. ne_arrays e xs = xs) es \<longrightarrow>
        net_wf st2 \<and> net_samples st2 = net_samples st1 @ net_specs (b # bs)"
    using Cons.IH [OF 1(2,3) s(2)] by blast
  then show ?case using 1 by simp
qed

text \<open>
  Claim C23. As long as the kernel answers, two rounds come between 0.5 and 1.5 seconds apart, each counter grows by less than
  \<open>2 ^ 32\<close> and the unicast count moves by \<open>2 ^ 30\<close> at most in a round, the program runs on and what its rounds store in the
  arrays is, in order, exactly the growth of the counters over the time between two rounds, across the
  wrap-around of the 32 bit counters, from whatever the variables held at the start; a unicast count that goes back, because its two
  parts are not read at once, counts as no packets. If moreover the arrays, which are declared inside the loop, keep their
  contents from one round to the next, as the code expects and C does not promise, the samples printed, eight to a line, and the
  ones still in the arrays are these.
\<close>
theorem net_samples_exact:
  assumes "net_opts (fst (getopt [(CHR ''i'', True)] args)) None = Some (Some ifname)" "length arr = SAMPLES"
    "list_all2 (observes ifname) (e0 # es) (b0 # bs)" "successively steady (b0 # bs)"
  shows "\<exists>st. net_main True args junk arr e0 es = Some (Inr st) \<and> net_stored st = net_specs (b0 # bs) \<and>
    (list_all (\<lambda>e. \<forall>xs. ne_arrays e xs = xs) es \<longrightarrow> net_samples st = net_specs (b0 # bs) \<and> net_i st < SAMPLES \<and>
      (\<forall>rs. Samples rs \<in> set (net_out st) \<longrightarrow> length rs = SAMPLES))"
proof -
  obtain c c2 where e: "ne_time e0 = Some (o_time b0)" "read_twice ifname (ne_reads e0) = Some (Inr (c, c2))" "sees b0 c c2"
    using assms(3) by (auto simp: observes_def)
  obtain r old m lines where acc: "accumulate_stats 1 c c2 junk 10 = (r, old, m, lines)" "holds b0 old" "\<forall>rs. Samples rs \<notin> set lines"
    using accumulate_first [OF e(3)] by blast
  let ?st = "\<lparr>slots = arr, net_i = 0, net_old = old, net_start = o_time b0, net_log = m, net_out = lines, net_stored = []\<rparr>"
  have run: "net_main True args junk arr e0 es = net_loop ifname es ?st"
    by (simp add: net_main_def assms(1) e(1,2) acc(1))
  have "net_wf ?st" "net_samples ?st = []" using assms(2) acc(3) by (auto simp: net_wf_def net_samples_def no_samples)
  moreover obtain st where "net_loop ifname es ?st = Some (Inr st)" "net_stored st = net_specs (b0 # bs)"
      "net_wf ?st \<and> list_all (\<lambda>e. \<forall>xs. ne_arrays e xs = xs) es \<longrightarrow>
        net_wf st \<and> net_samples st = net_samples ?st @ net_specs (b0 # bs)"
    using net_loop_exact [of ?st b0 bs ifname es] acc(2) assms(3,4) by auto
  ultimately show ?thesis using run by (auto simp: net_wf_def)
qed

definition sample_read :: "u32 \<Rightarrow> net_read" where
  "sample_read n = \<lparr>rd_send_ok = True, rd_buf = concat (map enc_msg (sample_msgs n)), rd_len = 80\<rparr>"

abbreviation (input) sample_event :: "int \<Rightarrow> u32 \<Rightarrow> net_event" where
  "sample_event t n \<equiv> \<lparr>ne_time = Some t, ne_reads = (sample_read n, sample_read n), ne_arrays = \<lambda>xs. xs\<rparr>"

abbreviation (input) sample_obs :: "int \<Rightarrow> nat \<Rightarrow> net_obs" where
  "sample_obs t n \<equiv> \<lparr>o_time = t, o_tx_bytes = n, o_rx_bytes = 0, o_tx_pkts = 0, o_rx_pkts = 7, o_multi = 5\<rparr>"

lemma sample_read_twice:
  "read_twice (lit ''eth0'') (sample_read n, sample_read n) = Some (Inr (sample_stats n, sample_stats n))"
proof -
  have "recvresp (concat (map enc_msg (sample_msgs n))) 80 = Some (Inr (Some (sample_stats n)))"
    using recvresp_enc [OF sample_msgs_ok(1), of n "[]"] unfolding sample_msgs_ok(2) by (simp add: msgs_stats_def)
  moreover obtain req where "sendreq (lit ''eth0'') = Some req" by (simp add: sendreq_def lit_def Let_def)
  ultimately show ?thesis unfolding read_twice_def read_link_def sample_read_def by simp
qed

lemma sample_observes: "w = word_of_nat n \<Longrightarrow> observes (lit ''eth0'') (sample_event t w) (sample_obs t n)"
  unfolding observes_def by (simp add: sample_read_twice sees_def)

theorem net_samples_exact_witness:
  "\<exists>st. net_main True [lit ''-ieth0''] \<lparr>tx_bytes = 1, rx_bytes = 2, tx_pkts = 3, rx_unipkts = 4, rx_multipkts = 5\<rparr>
      (replicate 8 \<lparr>tx_kbps = 0, rx_kbps = 0, tx_pps = 0, rx_uni_pps = 0, rx_multi_pps = 0\<rparr>)
      (sample_event 0 4294967196) [sample_event 1000000 900] = Some (Inr st) \<and> map tx_kbps (net_stored st) = [8] \<and> net_samples st = net_stored st"
proof -
  have o: "net_opts (fst (getopt [(CHR ''i'', True)] [lit ''-ieth0''])) None = Some (Some (lit ''eth0''))" by code_simp
  have b: "list_all2 (observes (lit ''eth0'')) [sample_event 0 4294967196, sample_event 1000000 900]
      [sample_obs 0 4294967196, sample_obs 1000000 4294968196]"
    by (intro list_all2_Cons [THEN iffD2] conjI list.rel_intros sample_observes) simp_all
  have g: "successively steady [sample_obs 0 4294967196, sample_obs 1000000 4294968196]"
    by (simp add: steady_def grows_def obs_uni_def)
  obtain st where "net_main True [lit ''-ieth0''] \<lparr>tx_bytes = 1, rx_bytes = 2, tx_pkts = 3, rx_unipkts = 4, rx_multipkts = 5\<rparr>
      (replicate 8 \<lparr>tx_kbps = 0, rx_kbps = 0, tx_pps = 0, rx_uni_pps = 0, rx_multi_pps = 0\<rparr>)
      (sample_event 0 4294967196) [sample_event 1000000 900] = Some (Inr st)"
    "net_stored st = net_samples st" "net_samples st = net_specs [sample_obs 0 4294967196, sample_obs 1000000 4294968196]"
    using net_samples_exact [OF o _ b g, of "replicate 8 \<lparr>tx_kbps = 0, rx_kbps = 0, tx_pps = 0, rx_uni_pps = 0, rx_multi_pps = 0\<rparr>"
        "\<lparr>tx_bytes = 1, rx_bytes = 2, tx_pkts = 3, rx_unipkts = 4, rx_multipkts = 5\<rparr>"] by auto
  then show ?thesis by (intro exI [of _ st]) (simp add: net_spec_def obs_delta_def)
qed

text \<open>
  The guard against a count that went back compares a rate, not a difference: with rounds two seconds or more apart
  the wrapped difference passes it.
\<close>

lemma underflow_missed:
  assumes "st_rx_pkts c2 - st_multicast c - rx_unipkts old = 2 ^ 32 - 1"
  shows "rx_uni_pps (fst (accumulate_stats 2 c c2 old m)) = 4294967295 / 2"
proof -
  have "u32_diff (st_rx_pkts c2 - st_multicast c) (rx_unipkts old) = 4294967295" using assms by (simp add: u32_diff_def)
  then show ?thesis by (simp add: accumulate_stats_def Let_def)
qed

text \<open>A name of 16 characters passes the check of \<open>sendreq\<close> and is sent without its last one; shorter names are sent whole.\<close>

lemma sendreq_name:
  assumes "sendreq ifname = Some req"
  shows "length req = 32 + align4 (4 + length ifname) \<and> take 15 (take (length ifname) (drop 36 req)) = take 15 ifname"
proof -
  define n where "n = 32 + align4 (4 + length ifname)"
  define name where "name = take 15 ifname"
  have len: "length ifname \<le> 16" using assms by (simp add: sendreq_def split: if_splits)
  have n: "36 + length ifname \<le> n" "n \<le> 52" using len by (auto simp: n_def align4_def)
  have "\<exists>h. length h = 36 \<and> req = take n (h @ name @ replicate (16 - length name) 0)"
    using assms by (intro exI [of _ "le_bytes (word_of_nat n) @ le16_bytes 18 @ le16_bytes 1 @ le_bytes 1 @ le_bytes 0 @
        (17 # replicate 15 0) @ le16_bytes (4 + length ifname) @ le16_bytes 3"])
      (simp add: sendreq_def n_def name_def Let_def le16_bytes_def split: if_splits)
  then obtain h where h: "length h = 36" "req = take n (h @ name @ replicate (16 - length name) 0)" by blast
  define z where "z = name @ replicate (16 - length name) 0"
  have z: "length z = 16" "take 15 (take (length ifname) z) = take 15 ifname"
    by (auto simp: z_def name_def) (cases "length ifname \<le> 15"; simp)
  have req: "req = take n (h @ z)" using h(2) by (simp add: z_def)
  then have "length req = n" "drop 36 req = take (n - 36) z" using h(1) z(1) n by (simp_all add: drop_take)
  moreover have "take (length ifname) (take (n - 36) z) = take (length ifname) z"
    using n(1) unfolding take_take by (intro arg_cong2 [where f = take]) auto
  ultimately show ?thesis using z(2) by (simp add: n_def)
qed

end
