(* ===== verification/Posix_Regex.thy ===== *)
theory Posix_Regex
  imports C_Text
begin

text \<open>
  \<open>regcomp\<close> and \<open>regexec\<close> of the C library for the extended regular expressions of the DHCP taxonomy, with
  \<open>REG_EXTENDED | REG_ICASE\<close> in the C locale: characters, \<open>.\<close>, bracket expressions, \<open>*\<close> and \<open>+\<close> after one of these, groups,
  alternatives and \<open>^\<close>. \<open>None\<close> of \<open>regcomp\<close> is an expression outside this part of the language.
\<close>

datatype re_item = Re_Alnum | Re_Digit | Re_Char byte

datatype re_char = Rc_Any | Rc_Lit byte | Rc_Set bool "re_item list"

datatype re =
    Re_Empty
  | Re_Bol
  | Re_One re_char
  | Re_Star re_char
  | Re_Plus re_char
  | Re_Cat re re
  | Re_Alt re re
  | Re_Group nat re

section \<open>Expressions\<close>

text \<open>The text behind a prefix.\<close>

fun behind_prefix :: "string \<Rightarrow> string \<Rightarrow> string option" where
  "behind_prefix [] s = Some s"
| "behind_prefix (c # cs) [] = None"
| "behind_prefix (c # cs) (d # ds) = (if c = d then behind_prefix cs ds else None)"

text \<open>
  A bracket expression, from its first item on: the items and what follows the bracket. The first argument of the
  parsers bounds the depth of the recursion; \<open>regcomp\<close> gives a list that is long enough.
\<close>

fun parse_items :: "string \<Rightarrow> string \<Rightarrow> (re_item list \<times> string) option" where
  "parse_items [] s = None"
| "parse_items (x # f) [] = None"
| "parse_items (x # f) (c # t) =
     (if c = CHR '']'' then Some ([], t)
      else (case behind_prefix ''[:alnum:]'' (c # t) of
              Some u \<Rightarrow> map_option (\<lambda>(is, v). (Re_Alnum # is, v)) (parse_items f u)
            | None \<Rightarrow>
                (case behind_prefix ''[:digit:]'' (c # t) of
                   Some u \<Rightarrow> map_option (\<lambda>(is, v). (Re_Digit # is, v)) (parse_items f u)
                 | None \<Rightarrow> map_option (\<lambda>(is, v). (Re_Char (of_char c) # is, v)) (parse_items f t))))"

definition parse_char :: "char \<Rightarrow> string \<Rightarrow> (re_char \<times> string) option" where
  "parse_char c t =
     (if c = CHR ''['' then
        (case behind_prefix ''^'' t of
           Some u \<Rightarrow> map_option (\<lambda>(is, v). (Rc_Set True is, v)) (parse_items u u)
         | None \<Rightarrow> map_option (\<lambda>(is, v). (Rc_Set False is, v)) (parse_items t t))
      else if c = CHR ''.'' then Some (Rc_Any, t)
      else if c = CHR ''*'' \<or> c = CHR ''+'' then None
      else Some (Rc_Lit (of_char c), t))"

definition parse_repeat :: "re_char \<Rightarrow> string \<Rightarrow> re \<times> string" where
  "parse_repeat c s =
     (case behind_prefix ''*'' s of
        Some t \<Rightarrow> (Re_Star c, t)
      | None \<Rightarrow> (case behind_prefix ''+'' s of Some t \<Rightarrow> (Re_Plus c, t) | None \<Rightarrow> (Re_One c, s)))"

text \<open>Alternatives and sequences, up to a closing parenthesis or the end; \<open>g\<close> is the number of the next group.\<close>

fun parse_alt :: "string \<Rightarrow> nat \<Rightarrow> string \<Rightarrow> (re \<times> nat \<times> string) option"
and parse_cat :: "string \<Rightarrow> nat \<Rightarrow> string \<Rightarrow> (re \<times> nat \<times> string) option" where
  "parse_alt [] g s = None"
| "parse_alt (x # f) g s = do {
     (r, g, s) \<leftarrow> parse_cat f g s;
     case behind_prefix ''|'' s of
       Some t \<Rightarrow> do {
         (r', g, s) \<leftarrow> parse_alt f g t;
         Some (Re_Alt r r', g, s)
       }
     | None \<Rightarrow> Some (r, g, s)
   }"
| "parse_cat [] g s = None"
| "parse_cat (x # f) g [] = Some (Re_Empty, g, [])"
| "parse_cat (x # f) g (c # s) =
     (if c = CHR '')'' \<or> c = CHR ''|'' then Some (Re_Empty, g, c # s)
      else if c = CHR ''('' then do {
        (r, g', s) \<leftarrow> parse_alt f (Suc g) s;
        s \<leftarrow> behind_prefix '')'' s;
        (r', g', s) \<leftarrow> parse_cat f g' s;
        Some (Re_Cat (Re_Group g r) r', g', s)
      } else if c = CHR ''^'' then do {
        (r', g, s) \<leftarrow> parse_cat f g s;
        Some (Re_Cat Re_Bol r', g, s)
      } else do {
        (c, s) \<leftarrow> parse_char c s;
        let (r, s) = parse_repeat c s;
        (r', g, s) \<leftarrow> parse_cat f g s;
        Some (Re_Cat r r', g, s)
      })"

definition regcomp :: "string \<Rightarrow> re option" where
  "regcomp p =
     (case parse_alt (p @ p @ ''..'') 1 p of
        Some (r, g, []) \<Rightarrow> Some r
      | _ \<Rightarrow> None)"

section \<open>Matching\<close>

definition re_lower :: "byte \<Rightarrow> byte" where
  "re_lower b = (if 65 \<le> b \<and> b \<le> 90 then b + 32 else b)"

fun item_ok :: "byte \<Rightarrow> re_item \<Rightarrow> bool" where
  "item_ok b Re_Alnum \<longleftrightarrow> is_digit b \<or> (97 \<le> re_lower b \<and> re_lower b \<le> 122)"
| "item_ok b Re_Digit \<longleftrightarrow> is_digit b"
| "item_ok b (Re_Char c) \<longleftrightarrow> re_lower b = re_lower c"

fun char_ok :: "re_char \<Rightarrow> byte \<Rightarrow> bool" where
  "char_ok Rc_Any b \<longleftrightarrow> True"
| "char_ok (Rc_Lit c) b \<longleftrightarrow> re_lower c = re_lower b"
| "char_ok (Rc_Set neg is) b \<longleftrightarrow> list_ex (item_ok b) is \<noteq> neg"

text \<open>The ways to match at the front of a text, the longest first: what is left of it, and the text of group 1.\<close>

definition re_tails :: "re_char \<Rightarrow> cstr \<Rightarrow> cstr list" where
  "re_tails c s = map (\<lambda>n. drop n s) (rev [0..<Suc (length (takeWhile (char_ok c) s))])"

fun re_run :: "re \<Rightarrow> bool \<Rightarrow> cstr \<Rightarrow> cstr \<Rightarrow> (cstr \<times> cstr) list" where
  "re_run Re_Empty bol s m = [(s, m)]"
| "re_run Re_Bol bol s m = (if bol then [(s, m)] else [])"
| "re_run (Re_One c) bol s m = (case s of [] \<Rightarrow> [] | b # t \<Rightarrow> if char_ok c b then [(t, m)] else [])"
| "re_run (Re_Star c) bol s m = map (\<lambda>t. (t, m)) (re_tails c s)"
| "re_run (Re_Plus c) bol s m =
     (case s of [] \<Rightarrow> [] | b # t \<Rightarrow> if char_ok c b then map (\<lambda>t. (t, m)) (re_tails c t) else [])"
| "re_run (Re_Cat r r') bol s m =
     concat (map (\<lambda>(t, m). re_run r' (bol \<and> length t = length s) t m) (re_run r bol s m))"
| "re_run (Re_Alt r r') bol s m = re_run r bol s m @ re_run r' bol s m"
| "re_run (Re_Group n r) bol s m =
     map (\<lambda>(t, m'). (t, if n = 1 then take (length s - length t) s else m')) (re_run r bol s m)"

text \<open>The longest of several matches, the first one among those of the same length.\<close>

fun longest :: "(cstr \<times> cstr) list \<Rightarrow> cstr \<times> cstr" where
  "longest [] = ([], [])"
| "longest [x] = x"
| "longest (x # y # xs) = (if length (fst y) < length (fst x) then longest (y # xs) else longest (x # xs))"

text \<open>\<open>regexec\<close>: the text of group 1 in the longest of the leftmost matches, \<open>None\<close> without a match.\<close>

fun re_search :: "re \<Rightarrow> bool \<Rightarrow> cstr \<Rightarrow> cstr option" where
  "re_search r bol s =
     (case re_run r bol s [] of
        [] \<Rightarrow> (case s of [] \<Rightarrow> None | b # t \<Rightarrow> re_search r False t)
      | x # xs \<Rightarrow> Some (snd (longest (x # xs))))"

declare re_search.simps [simp del]

definition regexec :: "re \<Rightarrow> cstr \<Rightarrow> cstr option" where
  "regexec r s = re_search r True s"

end
