(* ===== verification/Dhcp_Tax.thy ===== *)
theory Dhcp_Tax
  imports Posix_Regex Getopt_Long
begin

text \<open>
  The DHCP taxonomy, \<^verbatim>\<open>src/cmds/dhcpvendortax.c\<close> and \<^verbatim>\<open>src/cmds/dhcpnametax.c\<close>: what kind of device a client is, from the
  vendor class it sends, or from its host name and the list of options it asks for.

  The lookup functions that the build makes with \<open>gperf\<close> (\<open>exact_match\<close>, \<open>hostname_lookup\<close>) are parameters. \<open>None\<close> is an access
  outside a buffer; memory is never short.
\<close>

section \<open>Vendor classes\<close>

definition regex_matches :: "(string \<times> cstr) list" where
  "regex_matches =
    [(''AastraIPPhone([[:alnum:]]+)'', lit ''Aastra IP Phone''),
     (''AXIS,Network Camera,([^,]+)'', lit ''AXIS Network Camera''),
     (''AXIS,Thermal Network Camera,([^,]+)'', lit ''AXIS Network Camera''),
     (''Canon (MF[[:alnum:]]+)'', lit ''Canon Printer''),
     (''Cisco AP ([[:alnum:]]+)'', lit ''Cisco Wifi AP''),
     (''Cisco Systems, Inc. IP Phone ([[:alnum:]-]+)'', lit ''Cisco IP Phone''),
     (''Cisco (SPA[[:alnum:]]+)'', lit ''Cisco IP Phone''),
     (''CISCO (SPA[[:alnum:]]+)'', lit ''Cisco IP Phone''),
     (''(ATA186)'', lit ''Cisco IP Phone''),
     (''(CPQRIB[[:digit:]]+)'', lit ''Compaq Remote Insight''),
     (''Dell Color MFP ([[:alnum:]]+)'', lit ''Dell Printer''),
     (''^Dell ([[:alnum:]]+) Color (Printer|Laser|MFP)'', lit ''Dell Printer''),
     (''digium_([^_]+)'', lit ''Digium IP Phone''),
     (''FortiAP-([^-]+)'', lit ''Fortinet Wifi AP''),
     (''FortiWiFi-([[:alnum:]-]+)'', lit ''Fortinet Wifi AP''),
     (''Grandstream (GX[[:alnum:]]+)'', lit ''Grandstream IP Phone''),
     (''Grandstream (HT[[:alnum:]]+)'', lit ''Grandstream VoIP Adapter''),
     (''^(HT[[:alnum:]]+) dslforum.org'', lit ''Grandstream VoIP Adapter''),
     (''^(DP[[:alnum:]]+) dslforum.org'', lit ''Grandstream IP Phone''),
     (''iPECS IP Edge ([[:alnum:]-]+)'', lit ''iPECS IP Phone''),
     (''Juniper-(ex[^-]+)'', lit ''Juniper Router''),
     (''LINKSYS (SPA-[[:alnum:]]+)'', lit ''Linksys IP Phone''),
     (''MotorolaAP.([[:alnum:]]+)'', lit ''Motorola Wifi AP''),
     (''(NECDT[[:alnum:]]+)'', lit ''NEC IP Phone''),
     (''.*PolycomSoundPointIP-([^-]+)'', lit ''Polycom IP Phone''),
     (''Polycom-(SPIP[[:alnum:]]+)'', lit ''Polycom IP Phone''),
     (''Polycom-(SSIP[[:alnum:]]+)'', lit ''Polycom IP Phone''),
     (''Polycom-(VVX[[:alnum:]]+)'', lit ''Polycom IP Phone''),
     (''(Rabbit)-TCPIP'', lit ''Rabbit Microcontroller''),
     (''(Rabbit2000)-TCPIP'', lit ''Rabbit Microcontroller''),
     (''ReadyNet_(WRT[[:alnum:]]+)'', lit ''ReadyNet Wifi AP''),
     (''SAMSUNG (SCX-[[:alnum:]]+)'', lit ''Samsung Network MFP''),
     (''(SF200-[[:alnum:]]+)'', lit ''Cisco Managed Switch''),
     (''(SG 200-[[:alnum:]]+)'', lit ''Cisco Managed Switch''),
     (''(SG200-[[:alnum:]]+)'', lit ''Cisco Managed Switch''),
     (''(SG 300-[[:alnum:]]+)'', lit ''Cisco Managed Switch''),
     (''(SG300-[[:alnum:]]+)'', lit ''Cisco Managed Switch''),
     (''(snom[^/]+)'', lit ''Snom IP Phone''),
     (''telsey-stb-([[:alnum:]]+)'', lit ''Telsey Media Player'')]"

definition tax_char :: "byte \<Rightarrow> byte" where
  "tax_char s =
     (let is_lower = (97 \<le> s \<and> s \<le> 122);
          is_upper = (65 \<le> s \<and> s \<le> 90);
          is_dig = (48 \<le> s \<and> s \<le> 57);
          is_safe = (s = 95 \<or> s = 45 \<or> s = 46)
      in if is_lower \<or> is_upper \<or> is_dig \<or> is_safe then s
         else if s = 32 \<or> s = 9 then 32 else 95)"

text \<open>\<open>no_mischief_strncpy\<close> of a string into a buffer: the copy stops behind the end of the string or after \<open>n\<close> bytes.\<close>

definition vendor_strncpy :: "byte list \<Rightarrow> cstr \<Rightarrow> nat \<Rightarrow> byte list option" where
  "vendor_strncpy dst src n = do {
     dst \<leftarrow> arr_put dst 0 (take n (map tax_char src @ [0]));
     arr_put dst (n - 1) [0]
   }"

text \<open>\<open>check_for_printer\<close>: the return code and the two buffers. \<open>Inl\<close> is the exit.\<close>

definition printer_field :: "string \<Rightarrow> cstr \<Rightarrow> int + cstr option" where
  "printer_field p vendor_class =
     (case regcomp p of
        None \<Rightarrow> Inl 1
      | Some r \<Rightarrow> Inr (regexec r vendor_class))"

definition check_for_printer ::
    "cstr \<Rightarrow> byte list \<Rightarrow> nat \<Rightarrow> byte list \<Rightarrow> nat \<Rightarrow> (int + int \<times> byte list \<times> byte list) option" where
  "check_for_printer vendor_class genus genus_len species species_len =
     (case (printer_field ''mfg=([^;]+)'' vendor_class, printer_field ''typ=([^;]+)'' vendor_class,
            printer_field ''mod=([^;]+)'' vendor_class) of
        (Inr vendor, Inr type, Inr model) \<Rightarrow> do {
          (rc, genus) \<leftarrow>
            (case (vendor, type) of
               (Some v, Some t) \<Rightarrow>
                 map_option (Pair 0) (vendor_strncpy genus (take 127 (v @ lit '' '' @ t)) genus_len)
             | _ \<Rightarrow> Some (1 :: int, genus));
          (rc, species) \<leftarrow>
            (case model of
               Some m \<Rightarrow> map_option (Pair 0) (vendor_strncpy species m species_len)
             | None \<Rightarrow> Some (rc, species));
          Some (Inr (rc, genus, species))
        }
      | _ \<Rightarrow> Some (Inl 1))"

text \<open>The loop over the expressions: the text of the group and the genus of the first that matches.\<close>

fun regex_lookup :: "(string \<times> cstr) list \<Rightarrow> cstr \<Rightarrow> int + (cstr \<times> cstr) option" where
  "regex_lookup [] vendor_class = Inr None"
| "regex_lookup ((p, g) # ps) vendor_class =
     (case regcomp p of
        None \<Rightarrow> Inl 1
      | Some r \<Rightarrow>
          (case regexec r vendor_class of
             Some model \<Rightarrow> Inr (Some (model, g))
           | None \<Rightarrow> regex_lookup ps vendor_class))"

definition lookup_vc ::
    "(cstr \<Rightarrow> nat \<Rightarrow> (cstr \<times> cstr) option) \<Rightarrow> cstr \<Rightarrow> byte list \<Rightarrow> nat \<Rightarrow> byte list \<Rightarrow> nat \<Rightarrow>
     (int + int \<times> byte list \<times> byte list) option" where
  "lookup_vc exact_match vendor_class genus genus_len species species_len =
     (case exact_match vendor_class (length vendor_class) of
        Some (g, s) \<Rightarrow> do {
          genus \<leftarrow> vendor_strncpy genus g genus_len;
          species \<leftarrow> vendor_strncpy species s species_len;
          Some (Inr (0, genus, species))
        }
      | None \<Rightarrow>
          (case regex_lookup regex_matches vendor_class of
             Inl rc \<Rightarrow> Some (Inl rc)
           | Inr (Some (model, g)) \<Rightarrow> do {
               species \<leftarrow> vendor_strncpy species model species_len;
               genus \<leftarrow> snprintf_at genus 0 genus_len g;
               Some (Inr (0, genus, species))
             }
           | Inr None \<Rightarrow> do {
               r \<leftarrow> check_for_printer vendor_class genus genus_len species species_len;
               case r of
                 Inl rc \<Rightarrow> Some (Inl rc)
               | Inr (rc, genus, species) \<Rightarrow> Some (Inr (if rc = 0 then 0 else 1, genus, species))
             }))"

definition vendor_options :: long_table where
  "vendor_options = [(lit ''label'', CHR ''l''), (lit ''vendor'', CHR ''v'')]"

text \<open>The buffers of \<open>main\<close>, cleared.\<close>

definition tax_buf :: "byte list" where
  "tax_buf = replicate 80 0"

text \<open>\<open>main\<close>: the exit code and what is printed.\<close>

definition vendor_main :: "(cstr \<Rightarrow> nat \<Rightarrow> (cstr \<times> cstr) option) \<Rightarrow> cstr list \<Rightarrow> (int \<times> cstr) option" where
  "vendor_main exact_match args =
     (let (os, operands) = getopt_mixed vendor_options args
      in case (Bad_Short \<in> set os, operands, last_arg (CHR ''v'') os, last_arg (CHR ''l'') os) of
           (False, [], Some vendor, Some label) \<Rightarrow> do {
             r \<leftarrow> lookup_vc exact_match vendor tax_buf 80 tax_buf 80;
             case r of
               Inl rc \<Rightarrow> Some (rc, [])
             | Inr (rc, genus, species) \<Rightarrow>
                 Some (0, if rc = 0
                          then lit ''dhcpv '' @ label @ lit '' '' @ cstr_of genus @ lit '';'' @ cstr_of species @ [10]
                          else [])
           }
         | _ \<Rightarrow> Some (1, []))"

section \<open>Host names\<close>

definition check_directv :: "cstr \<Rightarrow> int + (cstr \<times> cstr) option" where
  "check_directv hostname =
     (case regcomp ''DIRECTV-([^-]+)-'' of
        None \<Rightarrow> Inl 1
      | Some r \<Rightarrow> Inr (map_option (Pair (lit ''DirecTV'')) (regexec r hostname)))"

definition name_lookup :: "(cstr \<Rightarrow> nat \<Rightarrow> (cstr \<times> cstr) option) \<Rightarrow> cstr \<Rightarrow> cstr \<Rightarrow> int + (cstr \<times> cstr) option" where
  "name_lookup hostname_lookup dhcpsig hostname =
     (let concatenated = take 255 (hostname @ lit ''%'' @ dhcpsig)
      in case hostname_lookup concatenated (length concatenated) of
           Some sn \<Rightarrow> Inr (Some sn)
         | None \<Rightarrow>
             if dhcpsig = lit ''1,3,6,12,15,28,40,41,42'' then check_directv hostname
             else if dhcpsig = lit ''1,3,6,12,15,28,42'' then
               (case check_directv hostname of
                  Inl rc \<Rightarrow> Inl rc
                | Inr (Some sn) \<Rightarrow> Inr (Some sn)
                | Inr None \<Rightarrow> Inr (hostname_lookup hostname 6))
             else if dhcpsig = lit ''1,28,2,3,15,6,12'' then Inr (hostname_lookup hostname 8)
             else if dhcpsig = lit ''1,3,6,15,12'' then Inr (hostname_lookup hostname 5)
             else if dhcpsig = lit ''3,1,252,42,15,6,12'' then Inr (hostname_lookup hostname 3)
             else if dhcpsig = lit ''1,28,2,3,15,6,119,12,44,47,26,121,42'' then Inr (hostname_lookup hostname 11)
             else if dhcpsig = lit ''1,121,33,3,6,12,15,28,42,51,54,58,59,119'' then Inr (hostname_lookup hostname 7)
             else Inr None)"

definition name_options :: long_table where
  "name_options = [(lit ''dhcpsig'', CHR ''d''), (lit ''hostname'', CHR ''h''), (lit ''label'', CHR ''l'')]"

definition name_main :: "(cstr \<Rightarrow> nat \<Rightarrow> (cstr \<times> cstr) option) \<Rightarrow> cstr list \<Rightarrow> int \<times> cstr" where
  "name_main hostname_lookup args =
     (let (os, operands) = getopt_mixed name_options args
      in case (Bad_Short \<in> set os, operands, last_arg (CHR ''d'') os, last_arg (CHR ''h'') os, last_arg (CHR ''l'') os) of
           (False, [], Some dhcpsig, Some hostname, Some label) \<Rightarrow>
             (case name_lookup hostname_lookup dhcpsig hostname of
                Inl rc \<Rightarrow> (rc, [])
              | Inr None \<Rightarrow> (0, [])
              | Inr (Some (g, s)) \<Rightarrow> (0, lit ''name '' @ label @ lit '' '' @ g @ lit '';'' @ s @ [10]))
         | _ \<Rightarrow> (1, []))"

section \<open>The buffers\<close>

text \<open>The characters a device can be described with.\<close>

definition tax_ok :: "byte \<Rightarrow> bool" where
  "tax_ok b \<longleftrightarrow> 97 \<le> b \<and> b \<le> 122 \<or> 65 \<le> b \<and> b \<le> 90 \<or> 48 \<le> b \<and> b \<le> 57 \<or> b = 32 \<or> b = 45 \<or> b = 46 \<or> b = 95"

lemma tax_char_ok: "tax_ok (tax_char b)"
  by (auto simp: tax_ok_def tax_char_def Let_def)

lemma tax_ok_nonzero: "tax_ok b \<Longrightarrow> b \<noteq> 0"
  by (auto simp: tax_ok_def)

lemma cstr_of_text: "list_all tax_ok s \<Longrightarrow> cstr_of (s @ 0 # t) = s"
  using tax_ok_nonzero by (auto simp: cstr_of_def list_all_iff takeWhile_append2)

lemma tax_map_ok: "list_all tax_ok (map tax_char s)"
  by (simp add: list_all_iff tax_char_ok)

lemma tax_take_ok: "list_all tax_ok s \<Longrightarrow> list_all tax_ok (take n s)"
  by (auto simp: list_all_iff dest: in_set_takeD)

lemma vendor_strncpy_text:
  assumes "length dst = n" "0 < n"
  shows "\<exists>d. vendor_strncpy dst src n = Some d \<and> length d = n \<and> cstr_of d = take (n - 1) (map tax_char src)"
proof (cases "length src < n")
  case True
  let ?d = "map tax_char src @ 0 # drop (length src + 1) dst"
  have "vendor_strncpy dst src n = Some (?d[n - 1 := 0])"
    using True assms by (simp add: vendor_strncpy_def arr_put_def list_update_beyond upd_conv_take_nth_drop)
  moreover have "cstr_of (?d[n - 1 := 0]) = map tax_char src"
    using True assms by (cases "length src = n - 1") (auto simp: list_update_append cstr_of_text tax_map_ok split: nat.split)
  ultimately show ?thesis using True assms by auto
next
  case False
  let ?t = "take (n - 1) (map tax_char src)"
  have "vendor_strncpy dst src n = Some (?t @ [0])"
    using False assms by (auto simp: vendor_strncpy_def arr_put_def min_def)
  moreover have "cstr_of (?t @ [0]) = ?t" by (intro cstr_of_text tax_take_ok tax_map_ok)
  ultimately show ?thesis using False assms by auto
qed

lemma regex_genus_ok: "list_all (\<lambda>(p, g). length g < 80 \<and> list_all tax_ok g) regex_matches"
  by (simp add: regex_matches_def lit_def tax_ok_def)

text \<open>Every expression of the table is one the library accepts.\<close>

lemma regex_matches_compile: "list_all (\<lambda>(p, g). regcomp p \<noteq> None) regex_matches"
  by (simp add: regex_matches_def regcomp_def parse_char_def parse_repeat_def)

lemma regex_lookup_genus:
  "regex_lookup ps v = Inr (Some (m, g)) \<Longrightarrow> \<exists>p. (p, g) \<in> set ps"
  by (induction ps v rule: regex_lookup.induct) (auto split: option.splits)

definition described :: "(int + int \<times> byte list \<times> byte list) option \<Rightarrow> bool" where
  "described r \<longleftrightarrow> (case r of
       None \<Rightarrow> False
     | Some (Inl rc) \<Rightarrow> True
     | Some (Inr (rc, genus, species)) \<Rightarrow>
         length (cstr_of genus) < 80 \<and> length (cstr_of species) < 80 \<and>
         list_all tax_ok (cstr_of genus) \<and> list_all tax_ok (cstr_of species))"

lemma described_Some: "described r \<Longrightarrow> \<exists>x. r = Some x \<and> described (Some x)"
  by (cases r) (simp_all add: described_def)

definition clean_buf :: "byte list \<Rightarrow> bool" where
  "clean_buf b \<longleftrightarrow> length b = 80 \<and> length (cstr_of b) < 80 \<and> list_all tax_ok (cstr_of b)"

lemma vendor_strncpy_clean:
  assumes "clean_buf b"
  shows "\<exists>d. vendor_strncpy b s 80 = Some d \<and> clean_buf d"
  using vendor_strncpy_text [of b 80 s] assms by (auto simp: clean_buf_def tax_take_ok tax_map_ok)

lemma check_for_printer_clean:
  assumes "clean_buf g" "clean_buf s"
  shows "described (check_for_printer v g 80 s 80)"
proof -
  obtain d1 where d1: "vendor_strncpy g x 80 = Some (d1 x)" "clean_buf (d1 x)" for x
    using vendor_strncpy_clean [OF assms(1)] by metis
  obtain d2 where d2: "vendor_strncpy s x 80 = Some (d2 x)" "clean_buf (d2 x)" for x
    using vendor_strncpy_clean [OF assms(2)] by metis
  show ?thesis
    using assms d1(2) d2(2)
    by (auto simp: check_for_printer_def described_def d1(1) d2(1) clean_buf_def split: sum.splits option.splits)
qed

lemma lookup_vc_clean:
  assumes "clean_buf g" "clean_buf s"
  shows "described (lookup_vc exact v g 80 s 80)"
proof (cases "exact v (length v)")
  case (Some e)
  obtain a b where "e = (a, b)" by fastforce
  moreover obtain d1 where "vendor_strncpy g a 80 = Some d1" "clean_buf d1" using vendor_strncpy_clean [OF assms(1)] by metis
  moreover obtain d2 where "vendor_strncpy s b 80 = Some d2" "clean_buf d2" using vendor_strncpy_clean [OF assms(2)] by metis
  ultimately show ?thesis using Some by (simp add: lookup_vc_def described_def clean_buf_def)
next
  case None
  show ?thesis
  proof (cases "regex_lookup regex_matches v")
    case (Inl rc)
    then show ?thesis using None by (simp add: lookup_vc_def described_def)
  next
    case (Inr o')
    show ?thesis
    proof (cases o')
      case None': None
      have "described (check_for_printer v g 80 s 80)" using check_for_printer_clean [OF assms] .
      then show ?thesis using None Inr None'
        by (auto simp: lookup_vc_def described_def split: option.splits sum.splits)
    next
      case (Some e)
      obtain m x where e: "e = (m, x)" by fastforce
      then have "length x < 80" "list_all tax_ok x"
        using regex_lookup_genus [of regex_matches v m x] regex_genus_ok Inr Some by (auto simp: list_all_iff)
      then have "cstr_of (x @ 0 # drop (Suc (length x)) g) = x" by (simp add: cstr_of_text)
      moreover have "snprintf_at g 0 80 x = Some (x @ 0 # drop (Suc (length x)) g)"
        using \<open>length x < 80\<close> assms(1) by (simp add: snprintf_at_def arr_put_def clean_buf_def)
      moreover obtain d2 where "vendor_strncpy s m 80 = Some d2" "clean_buf d2" using vendor_strncpy_clean [OF assms(2)] by metis
      ultimately show ?thesis using None Inr Some e \<open>length x < 80\<close> \<open>list_all tax_ok x\<close>
        by (simp add: lookup_vc_def described_def clean_buf_def)
    qed
  qed
qed

lemma tax_ok_no_sep: "list_all tax_ok s \<Longrightarrow> filter (\<lambda>b. b = 10 \<or> b = 59) s = []"
  by (auto simp: filter_empty_conv list_all_iff tax_ok_def)

text \<open>
  Claim C24. The output is clean. Whatever a client sends as its vendor class and whatever the generated table holds, the
  program stays in its buffers, and what it prints is nothing or \<open>dhcpv\<close>, the label given with \<open>-l\<close> as it is, and a genus and a
  species of less than 80 letters, digits, spaces, dots, dashes and underscores each, separated by one semicolon
  and ended by one newline: any other semicolon or newline in the line is one of the label, none comes from the network.
\<close>
theorem vendor_line_clean:
  "\<exists>rc out. vendor_main exact_match args = Some (rc, out) \<and>
    (out = [] \<or> (\<exists>label genus species. last_arg (CHR ''l'') (fst (getopt_mixed vendor_options args)) = Some label \<and>
       out = lit ''dhcpv '' @ label @ lit '' '' @ genus @ lit '';'' @ species @ [10] \<and>
       length genus < 80 \<and> length species < 80 \<and> list_all tax_ok genus \<and> list_all tax_ok species \<and>
       filter (\<lambda>b. b = 10 \<or> b = 59) out = filter (\<lambda>b. b = 10 \<or> b = 59) label @ [59, 10]))"
proof -
  have z: "clean_buf tax_buf" by (simp add: clean_buf_def cstr_of_def tax_buf_def)
  have "described (lookup_vc exact_match v tax_buf 80 tax_buf 80)" for v
    by (rule lookup_vc_clean [OF z z])
  then have r: "\<exists>x. lookup_vc exact_match v tax_buf 80 tax_buf 80 = Some x \<and> described (Some x)" for v
    by (rule described_Some)
  obtain os operands where g: "getopt_mixed vendor_options args = (os, operands)" by fastforce
  show ?thesis
  proof (cases "Bad_Short \<notin> set os \<and> operands = [] \<and> last_arg (CHR ''v'') os \<noteq> None \<and> last_arg (CHR ''l'') os \<noteq> None")
    case True
    then obtain v l where vl: "last_arg (CHR ''v'') os = Some v" "last_arg (CHR ''l'') os = Some l" by auto
    obtain x where x: "lookup_vc exact_match v tax_buf 80 tax_buf 80 = Some x" "described (Some x)"
      using r [of v] by blast
    show ?thesis
    proof (cases x)
      case (Inl rc)
      then have "vendor_main exact_match args = Some (rc, [])" using True g vl x(1) by (simp add: vendor_main_def)
      then show ?thesis by simp
    next
      case (Inr y)
      obtain rc ge sp where y: "y = (rc, ge, sp)" by (metis prod_cases3)
      have main: "vendor_main exact_match args = Some (0, if rc = 0
          then lit ''dhcpv '' @ l @ lit '' '' @ cstr_of ge @ lit '';'' @ cstr_of sp @ [10] else [])"
        using True g vl x(1) Inr y by (simp add: vendor_main_def)
      have c: "length (cstr_of ge) < 80" "length (cstr_of sp) < 80" "list_all tax_ok (cstr_of ge)" "list_all tax_ok (cstr_of sp)"
        using x(2) Inr y by (simp_all add: described_def)
      then have "filter (\<lambda>b. b = 10 \<or> b = 59) (lit ''dhcpv '' @ l @ lit '' '' @ cstr_of ge @ lit '';'' @ cstr_of sp @ [10]) =
          filter (\<lambda>b. b = 10 \<or> b = 59) l @ [59, 10]"
        using tax_ok_no_sep [of "cstr_of ge"] tax_ok_no_sep [of "cstr_of sp"] by (simp add: lit_def)
      then show ?thesis using c vl(2) g unfolding main by (cases "rc = 0") (simp, metis, simp)
    qed
  next
    case False
    then have "vendor_main exact_match args = Some (1, [])"
      by (auto simp: vendor_main_def g split: option.splits list.splits bool.splits)
    then show ?thesis by simp
  qed
qed

section \<open>Printers\<close>

text \<open>The expressions for the fields of a printer's vendor class, and where they match.\<close>

definition field_re :: "byte \<Rightarrow> byte \<Rightarrow> byte \<Rightarrow> re" where
  "field_re a b c =
     Re_Cat (Re_One (Rc_Lit a)) (Re_Cat (Re_One (Rc_Lit b)) (Re_Cat (Re_One (Rc_Lit c)) (Re_Cat (Re_One (Rc_Lit 61))
       (Re_Cat (Re_Group 1 (Re_Cat (Re_Plus (Rc_Set True [Re_Char 59])) Re_Empty)) Re_Empty))))"

lemma field_compile:
  "regcomp ''mfg=([^;]+)'' = Some (field_re 109 102 103)"
  "regcomp ''typ=([^;]+)'' = Some (field_re 116 121 112)"
  "regcomp ''mod=([^;]+)'' = Some (field_re 109 111 100)"
  by (simp_all add: regcomp_def parse_char_def parse_repeat_def field_re_def)

definition field_at :: "byte \<Rightarrow> byte \<Rightarrow> byte \<Rightarrow> cstr \<Rightarrow> bool" where
  "field_at a b c s \<longleftrightarrow> 4 < length s \<and> re_lower (s ! 0) = re_lower a \<and> re_lower (s ! 1) = re_lower b \<and> re_lower (s ! 2) = re_lower c \<and>
     re_lower (s ! 3) = 61 \<and> re_lower (s ! 4) \<noteq> 59"

lemma re_lower_sep: "re_lower b = 61 \<longleftrightarrow> b = 61" "re_lower b = 59 \<longleftrightarrow> b = 59" "re_lower 61 = 61" "re_lower 59 = 59"
proof -
  have "b + 32 = 61 \<Longrightarrow> b = 61 - 32" "b + 32 = 59 \<Longrightarrow> b = 59 - 32" by (simp_all add: eq_diff_eq)
  then have "b + 32 = 61 \<Longrightarrow> b = 29" "b + 32 = 59 \<Longrightarrow> b = 27" by simp_all
  then show "re_lower b = 61 \<longleftrightarrow> b = 61" "re_lower b = 59 \<longleftrightarrow> b = 59" by (auto simp: re_lower_def)
qed (simp_all add: re_lower_def)

lemma longest_first: "\<forall>y \<in> set xs. length (fst x) \<le> length (fst y) \<Longrightarrow> longest (x # xs) = x"
  by (induction xs) (auto simp: not_less)

lemma re_tails_Cons: "\<exists>ts. re_tails c s = dropWhile (char_ok c) s # ts \<and> (\<forall>t \<in> set ts. length (dropWhile (char_ok c) s) \<le> length t)"
proof -
  let ?k = "length (takeWhile (char_ok c) s)"
  have d: "dropWhile (char_ok c) s = drop ?k s" by (simp add: dropWhile_eq_drop)
  have "re_tails c s = drop ?k s # map (\<lambda>n. drop n s) (rev [0..<?k])" by (simp add: re_tails_def)
  moreover have "\<forall>t \<in> set (map (\<lambda>n. drop n s) (rev [0..<?k])). length (drop ?k s) \<le> length t" by auto
  ultimately show ?thesis unfolding d by blast
qed

lemma field_run_none: "\<not> field_at a b c s \<Longrightarrow> re_run (field_re a b c) bol s m = []"
  by (auto simp: field_re_def field_at_def re_lower_sep split: list.splits)

lemma field_run_match:
  assumes "field_at a b c s"
  shows "\<exists>x xs. re_run (field_re a b c) bol s m = x # xs \<and> snd (longest (x # xs)) = takeWhile (\<lambda>b. b \<noteq> 59) (drop 4 s)"
proof -
  let ?c = "Rc_Set True [Re_Char 59]"
  obtain x0 x1 x2 x3 x4 t where s: "s = x0 # x1 # x2 # x3 # x4 # t"
  proof -
    have "Suc (Suc (Suc (Suc (Suc 0)))) \<le> length s" using assms by (simp add: field_at_def)
    then show ?thesis using that by (auto simp: Suc_le_length_iff)
  qed
  have c: "char_ok ?c = (\<lambda>b. b \<noteq> 59)" by (auto simp: re_lower_sep)
  obtain ts where ts: "re_tails ?c t = dropWhile (\<lambda>b. b \<noteq> 59) t # ts" "\<forall>u \<in> set ts. length (dropWhile (\<lambda>b. b \<noteq> 59) t) \<le> length u"
    using re_tails_Cons [of ?c t] unfolding c by blast
  let ?f = "\<lambda>u. (u, take (length (x4 # t) - length u) (x4 # t))"
  have run: "re_run (field_re a b c) bol s m = map ?f (re_tails ?c t)"
    using assms by (simp add: s field_at_def field_re_def re_lower_sep o_def split_def concat_map_singleton)
  have four: "x4 \<noteq> 59" using assms by (simp add: s field_at_def re_lower_sep)
  have "length t - length (dropWhile (\<lambda>b. b \<noteq> 59) t) = length (takeWhile (\<lambda>b. b \<noteq> 59) t)"
    by (metis add_diff_cancel_right' length_append takeWhile_dropWhile_id)
  moreover have "length (dropWhile (\<lambda>b. b \<noteq> 59) t) \<le> length t" by (rule length_dropWhile_le)
  ultimately have "snd (?f (dropWhile (\<lambda>b. b \<noteq> 59) t)) = takeWhile (\<lambda>b. b \<noteq> 59) (drop 4 s)"
    using four by (simp add: s Suc_diff_le takeWhile_eq_take [symmetric])
  moreover have "longest (map ?f (re_tails ?c t)) = ?f (dropWhile (\<lambda>b. b \<noteq> 59) t)"
    using ts by (simp only: list.map) (intro longest_first, auto)
  ultimately show ?thesis unfolding run ts(1) by simp
qed

lemma field_search_match: "field_at a b c s \<Longrightarrow> re_search (field_re a b c) bol s = Some (takeWhile (\<lambda>b. b \<noteq> 59) (drop 4 s))"
  using field_run_match [of a b c s bol "[]"] by (subst re_search.simps) auto

lemma field_search_skip:
  assumes "\<forall>j < length p. \<not> field_at a b c (drop j (p @ s))"
  shows "\<exists>bol'. re_search (field_re a b c) bol (p @ s) = re_search (field_re a b c) bol' s"
  using assms
proof (induction p arbitrary: bol)
  case (Cons x p)
  have "re_search (field_re a b c) bol ((x # p) @ s) = re_search (field_re a b c) False (p @ s)"
    using Cons.prems [rule_format, of 0] field_run_none [of a b c "(x # p) @ s" bol "[]"] by (subst re_search.simps) simp
  moreover have "\<forall>j < length p. \<not> field_at a b c (drop j (p @ s))" using Cons.prems by fastforce
  ultimately show ?case using Cons.IH [of False] by simp
qed auto

text \<open>A key of three letters with its equals sign, in any case.\<close>

definition is_key :: "cstr \<Rightarrow> byte \<Rightarrow> byte \<Rightarrow> byte \<Rightarrow> bool" where
  "is_key k a b c \<longleftrightarrow> map re_lower k = [a, b, c, 61]"

lemma is_key_length: "is_key k a b c \<Longrightarrow> length k = 4"
  by (auto simp: is_key_def dest: arg_cong [where f = length])

lemma is_key_nth:
  assumes "is_key k a b c"
  shows "re_lower (k ! 0) = a" "re_lower (k ! 1) = b" "re_lower (k ! 2) = c" "re_lower (k ! 3) = 61"
  using assms is_key_length [OF assms] nth_map [of _ k re_lower] unfolding is_key_def
  by (metis nth_Cons_0 zero_less_numeral, metis nth_Cons_0 nth_Cons_Suc One_nat_def numeral_less_iff one_less_numeral_iff semiring_norm(76),
      simp_all add: nth_Cons' flip: nth_map)

lemma field_skip:
  assumes "is_key k a' b' c'" "(re_lower a, re_lower b) \<noteq> (a', b')" "61 \<notin> set q" "is_key k' x y z" "61 \<notin> {x, y, z}"
  shows "\<forall>j < length (k @ q). \<not> field_at a b c (drop j ((k @ q) @ k' @ r))"
proof (intro allI impI notI)
  fix j
  assume j: "j < length (k @ q)" and at: "field_at a b c (drop j ((k @ q) @ k' @ r))"
  note k = is_key_nth [OF assms(1)] is_key_length [OF assms(1)]
  note k' = is_key_nth [OF assms(4)] is_key_length [OF assms(4)]
  show False
  proof (cases j)
    case 0
    then have "re_lower (k ! 0) = re_lower a" "re_lower (k ! 1) = re_lower b"
      using at k(5) by (simp_all add: field_at_def nth_append)
    then show False using k assms(2) by simp
  next
    case (Suc i)
    have "(drop j ((k @ q) @ k' @ r)) ! 3 = ((k @ q) @ k' @ r) ! (j + 3)" by (rule nth_drop) (use j in simp)
    also have "\<dots> = (q @ k' @ r) ! i" using Suc k(5) by (simp add: nth_append)
    finally have "(q @ k' @ r) ! i = 61" using at by (simp add: field_at_def re_lower_sep)
    moreover have "i < length q + 3" using j Suc k(5) by simp
    moreover have "(q @ k' @ r) ! i \<noteq> 61" if "i < length q" using that assms(3) by (metis nth_append nth_mem)
    ultimately have i: "length q \<le> i" "i - length q < 3" "(q @ k' @ r) ! i = 61" by (meson not_less, linarith, simp)
    define n where "n = i - length q"
    have n: "i = length q + n" "n < 3" "k' ! n = 61" using i k'(5) by (simp_all add: n_def nth_append)
    then have "n = 0 \<or> n = 1 \<or> n = 2" by auto
    then have "61 \<in> {x, y, z}" using k' n(3) by (auto simp: re_lower_sep)
    then show False using assms(5) by simp
  qed
qed

lemma field_found:
  assumes "is_key k a' b' c'" "re_lower a = a'" "re_lower b = b'" "re_lower c = c'" "v \<noteq> []" "59 \<notin> set v" "t = [] \<or> hd t = 59"
  shows "re_search (field_re a b c) bol (k @ v @ t) = Some v"
proof -
  have "field_at a b c (k @ v @ t)"
    using is_key_nth [OF assms(1)] is_key_length [OF assms(1)] assms(2-6)
    by (cases v) (auto simp: field_at_def nth_append re_lower_sep)
  moreover have "takeWhile (\<lambda>b. b \<noteq> 59) (v @ t) = v" using assms(6,7)
    by (subst takeWhile_append2) (auto, cases t, auto)
  ultimately show ?thesis using field_search_match is_key_length [OF assms(1)] by simp
qed

lemma printer_fields:
  assumes keys: "is_key k1 109 102 103" "is_key k2 116 121 112" "is_key k3 109 111 100"
    and texts: "m \<noteq> []" "t \<noteq> []" "d \<noteq> []" "59 \<notin> set m" "59 \<notin> set t" "59 \<notin> set d" "61 \<notin> set m" "61 \<notin> set t"
    and tail: "r = [] \<or> hd r = 59"
  defines "v \<equiv> k1 @ m @ [59] @ k2 @ t @ [59] @ k3 @ d @ r"
  shows "printer_field ''mfg=([^;]+)'' v = Inr (Some m)" "printer_field ''typ=([^;]+)'' v = Inr (Some t)"
    "printer_field ''mod=([^;]+)'' v = Inr (Some d)"
proof -
  have l: "re_lower 109 = 109" "re_lower 102 = 102" "re_lower 103 = 103" "re_lower 116 = 116" "re_lower 121 = 121"
    "re_lower 112 = 112" "re_lower 111 = 111" "re_lower 100 = 100" by (simp_all add: re_lower_def)
  show "printer_field ''mfg=([^;]+)'' v = Inr (Some m)"
    using field_found [OF keys(1) l(1-3) texts(1,4)] unfolding v_def by (simp add: printer_field_def field_compile regexec_def)
  let ?v2 = "k2 @ t @ [59] @ k3 @ d @ r" and ?v3 = "k3 @ d @ r"
  have "\<exists>bol. re_search (field_re 116 121 112) True ((k1 @ m @ [59]) @ ?v2) = re_search (field_re 116 121 112) bol ?v2"
    by (intro field_search_skip field_skip [OF keys(1) _ _ keys(2)]) (use texts l in auto)
  then have "re_search (field_re 116 121 112) True v = Some t"
    using field_found [OF keys(2) l(4-6) texts(2,5)] unfolding v_def by auto
  then show "printer_field ''typ=([^;]+)'' v = Inr (Some t)" by (simp add: printer_field_def field_compile regexec_def)
  have "\<exists>bol. re_search (field_re 109 111 100) True ((k1 @ m @ [59]) @ ?v2) = re_search (field_re 109 111 100) bol ?v2"
    by (intro field_search_skip field_skip [OF keys(1) _ _ keys(2)]) (use texts l in auto)
  moreover have "\<exists>bol'. re_search (field_re 109 111 100) bol ((k2 @ t @ [59]) @ ?v3) = re_search (field_re 109 111 100) bol' ?v3" for bol
    by (intro field_search_skip field_skip [OF keys(2) _ _ keys(3)]) (use texts l in auto)
  ultimately have "re_search (field_re 109 111 100) True v = Some d"
    using field_found [OF keys(3) l(1,7,8) texts(3,6) tail] unfolding v_def by (metis append.assoc)
  then show "printer_field ''mod=([^;]+)'' v = Inr (Some d)" by (simp add: printer_field_def field_compile regexec_def)
qed

text \<open>
  Claim C40. Printers are recognised. For a vendor class of the documented form, manufacturer, type and model between
  semicolons with the keys in any case, that neither the table nor an expression knows, the line printed has the manufacturer and the
  type for the genus and the model for the species, each with every doubtful character replaced and cut to its buffer.
\<close>
theorem printers_recognised:
  assumes "is_key k1 109 102 103" "is_key k2 116 121 112" "is_key k3 109 111 100"
    and "m \<noteq> []" "t \<noteq> []" "d \<noteq> []" "59 \<notin> set m" "59 \<notin> set t" "59 \<notin> set d" "61 \<notin> set m" "61 \<notin> set t"
    and "r = [] \<or> hd r = 59"
    and "v = k1 @ m @ [59] @ k2 @ t @ [59] @ k3 @ d @ r"
    and "exact_match v (length v) = None" "regex_lookup regex_matches v = Inr None"
  shows "vendor_main exact_match [lit ''-l'', label, lit ''-v'', v] =
    Some (0, lit ''dhcpv '' @ label @ lit '' '' @ take 79 (map tax_char (m @ lit '' '' @ t)) @ lit '';'' @ take 79 (map tax_char d) @ [10])"
proof -
  note f = printer_fields [OF assms(1-12), folded assms(13)]
  obtain g where g: "vendor_strncpy tax_buf (take 127 (m @ lit '' '' @ t)) 80 = Some g"
      "cstr_of g = take 79 (map tax_char (take 127 (m @ lit '' '' @ t)))"
    using vendor_strncpy_text [of tax_buf 80 "take 127 (m @ lit '' '' @ t)"] by (auto simp: tax_buf_def)
  obtain s where s: "vendor_strncpy tax_buf d 80 = Some s" "cstr_of s = take 79 (map tax_char d)"
    using vendor_strncpy_text [of tax_buf 80 d] by (auto simp: tax_buf_def)
  have "check_for_printer v tax_buf 80 tax_buf 80 = Some (Inr (0, g, s))"
    using g(1) s(1) by (simp add: check_for_printer_def f)
  then have look: "lookup_vc exact_match v tax_buf 80 tax_buf 80 = Some (Inr (0, g, s))"
    using assms(14,15) by (simp add: lookup_vc_def)
  have opts: "getopt_mixed vendor_options [lit ''-l'', label, lit ''-v'', v] = ([Short (CHR ''l'') label, Short (CHR ''v'') v], [])"
    by (simp add: vendor_options_def lit_def find_short_def)
  have cg: "cstr_of g = take 79 (map tax_char (m @ lit '' '' @ t))" unfolding g(2) by (simp only: take_map take_take) simp
  have la: "last_arg (CHR ''v'') [Short (CHR ''l'') label, Short (CHR ''v'') v] = Some v"
    "last_arg (CHR ''l'') [Short (CHR ''l'') label, Short (CHR ''v'') v] = Some label"
    "(Bad_Short \<in> set [Short (CHR ''l'') label, Short (CHR ''v'') v]) = False" by (simp_all add: last_arg_def)
  show ?thesis
    unfolding vendor_main_def opts Let_def prod.case la bool.case list.case option.case look Option.bind.simps sum.case cg s(2)
    by (simp only: if_True refl)
qed

text \<open>Evaluating expressions on a text.\<close>

lemmas re_eval = regcomp_def parse_char_def parse_repeat_def regexec_def re_search.simps re_tails_def lit_def re_lower_def is_digit_def

lemma sample_printer_unknown: "regex_lookup regex_matches (lit ''mfg=a;typ=b;mod=c'') = Inr None"
  by (simp add: regex_matches_def re_eval)

theorem printers_recognised_witness:
  "vendor_main (\<lambda>_ _. None) [lit ''-l'', lit ''x'', lit ''-v'', lit ''mfg=a;typ=b;mod=c''] = Some (0, lit ''dhcpv x a b;c'' @ [10])"
proof -
  have "is_key (lit ''mfg='') 109 102 103" "is_key (lit ''typ='') 116 121 112" "is_key (lit ''mod='') 109 111 100"
    by (simp_all add: is_key_def lit_def re_lower_def)
  from printers_recognised [OF this, of "lit ''a''" "lit ''b''" "lit ''c''" "[]" "lit ''mfg=a;typ=b;mod=c''" "\<lambda>_ _. None" "lit ''x''"]
  show ?thesis using sample_printer_unknown by (simp add: lit_def tax_char_def)
qed

text \<open>
  Two examples from the comments: a camera, and a conference phone that its expression, written for another model line,
  does not match.
\<close>

lemma example_axis:
  "regex_lookup regex_matches (lit ''AXIS,Network Camera,M3006,5.40.13'') = Inr (Some (lit ''M3006'', lit ''AXIS Network Camera''))"
  by (simp add: regex_matches_def re_eval)

lemma example_soundstation:
  "map_option (\<lambda>r. regexec r (lit ''tPolycomSoundStationIP-SSIP'')) (regcomp ''.*PolycomSoundPointIP-([^-]+)'') = Some None"
  by (simp add: re_eval)

lemma example_directv: "check_directv (lit ''DIRECTV-HR24-0123'') = Inr (Some (lit ''DirecTV'', lit ''HR24''))"
  by (simp add: check_directv_def re_eval)

text \<open>A host name with its options that is in the table counts before every rule for a prefix.\<close>

lemma name_lookup_exact:
  assumes "length (hostname @ lit ''%'' @ dhcpsig) \<le> 255" "hostname_lookup (hostname @ lit ''%'' @ dhcpsig) (length (hostname @ lit ''%'' @ dhcpsig)) = Some sn"
  shows "name_lookup hostname_lookup dhcpsig hostname = Inr (Some sn)"
  using assms by (simp add: name_lookup_def)

end
