(* ===== verification/Spec2Isabelle.thy ===== *)
theory Spec2Isabelle
  imports Sysvar_Cmd Logos Log_Spec Log_Main Ts_Sequencer Hnvram Ras_Codec Gpio_Spec Anon_Pcap Anonid Mmap_Spec Isostream Netusage Dhcp_Tax
begin

text \<open>
  A verification library for the C programs of the gfiber-platform repository: the small tools and
  libraries that keep the settings of a device, move and limit its logs, check its video streams,
  program its NVRAM, drive its lights and fan, decode the audio of its remote control, classify its
  Wi-Fi clients and access its registers. The programs are independent processes; they meet in the
  flash partitions, in the kernel log, in files under \<^verbatim>\<open>/tmp\<close> and in the code they share.

  \<^bold>\<open>Programs and theories.\<close>

  \<^item> \<^emph>\<open>Shared ground.\<close> \<open>Prelude\<close>: machine types, arrays with bounds checks, C strings. \<open>C_Text\<close>: the
    conversions of \<open>printf\<close>, \<open>atoi\<close> and \<open>strcasecmp\<close> that the sources use. \<open>C_Num\<close>: \<open>strtol\<close> and
    \<open>strtoul\<close>. \<open>Getopt\<close> and \<open>Getopt_Long\<close>: the option scanners of the C library.
  \<^item> \<^emph>\<open>Checksums\<close>, \<^verbatim>\<open>src/sysvar/lib/sysvar.c\<close> and \<^verbatim>\<open>src/dvbutils/crc32.c\<close>, in \<open>Crc32\<close>: both table-driven
    routines against the bitwise definition of the polynomial, the detection of error bursts, the
    residue.
  \<^item> \<^emph>\<open>System variables\<close>, \<^verbatim>\<open>src/sysvar\<close>. \<open>Sysvar_Buf\<close>: the data buffer and the variable list (\<open>sysvar.c\<close>;
    record \<open>sysvar_buf\<close> for the struct of that name, one definition per function). \<open>Sysvar_Lib\<close>: the
    library over the four MTD partitions (\<open>sysvar_lib.c\<close>; record \<open>sv_state\<close>), two redundant copies of
    each buffer, with the locales \<open>mtd_device\<close> and \<open>reliable_mtd\<close> for the flash. \<open>Sysvar_Store\<close>: the library as a
    map from names to values (locale \<open>var_store\<close>). \<open>Sysvar_Cmd\<close>: the command line tool and its console
    (\<open>sysvar_cmd.c\<close>).
  \<^item> \<^emph>\<open>Log filter\<close>, \<^verbatim>\<open>src/cmds/logos.c\<close>, in \<open>Logos\<close>: lines from standard input, cleaned, limited by token
    buckets and written to the kernel log; signals switch the limit (locale \<open>line_sink\<close> for what the
    line splitter needs of its output).
  \<^item> \<^emph>\<open>Log uploader\<close>, \<^verbatim>\<open>src/logupload/client\<close>. \<open>Mac_Suppress\<close>: names instead of MAC addresses, in place.
    \<open>Log_Utils\<close>: files, numbers and kernel log records (\<open>utils.c\<close>). \<open>Log_Parse\<close>: collecting records into
    the upload buffer (\<open>log_uploader.c\<close>), \<open>Log_Spec\<close> its specification on records. \<open>Kv_Extract\<close>: the
    key/value pairs of an upload, on an explicit heap (\<open>kvextract.c\<close>). \<open>Deflate_Inplace\<close>: compression
    within one buffer. \<open>Log_Main\<close>: options and the cycle of collecting, uploading and waiting.
  \<^item> \<^emph>\<open>Transport stream checker\<close>, \<^verbatim>\<open>src/dvbutils/tssequencer.c\<close>, in \<open>Ts_Sequencer\<close>: packets, sequence
    numbers per identifier, checksums, the main loop and the exit status.
  \<^item> \<^emph>\<open>NVRAM tool\<close>, \<^verbatim>\<open>src/hnvram/hnvram_main.c\<close>, in \<open>Hnvram\<close>: fields and their formats, reading and
    writing through the driver library, the command line.
  \<^item> \<^emph>\<open>GPIO mailbox\<close>, \<^verbatim>\<open>src/gpio-mailbox\<close>. \<open>Gpio_Files\<close>: files with atomic replacement (\<open>fileops.c\<close>; record \<open>fsys\<close>, which
    also keeps every version another process could have seen). \<open>Gpio_Pins\<close>: the interface \<open>pin.h\<close> and its drivers for
    four boards (\<open>gfch100.c\<close>, \<open>gfrg240.c\<close>, \<open>gfiber-lt.c\<close>, \<open>windcharger.c\<close>); the interface is the locale \<open>pin_driver\<close>,
    interpreted on each driver. \<open>Gpio_Mailbox\<close>: the main loop over lights, fan, reset button and sensors
    (\<open>gpio-mailbox.c\<close>; record \<open>mailbox\<close>). \<open>Gpio_Spec\<close>: its properties, proved once for any driver in the locale.
  \<^item> \<^emph>\<open>Remote control audio\<close>, \<^verbatim>\<open>src/rcu_audio/RAS_lib.c\<close>, in \<open>Ras_Codec\<close>: the ADPCM decoder with its state, and the
    reference decoder in unbounded integers.
  \<^item> \<^emph>\<open>Wi-Fi signatures\<close>, \<^verbatim>\<open>src/taxonomy/tax_signature.c\<close>, in \<open>Tax_Signature\<close>: information elements to text, and the
    loop over the packets of a capture. \<open>Anon_Pcap\<close>: the anonymiser of captures (\<^verbatim>\<open>src/taxonomy/anonymize_pcap.c\<close>).
  \<^item> \<^emph>\<open>Anonymous identifiers\<close>, \<^verbatim>\<open>src/cmds/anonid.c\<close>, in \<open>Anonid\<close>: the names of the log uploader for one address.
  \<^item> \<^emph>\<open>Memory access tool\<close>, \<^verbatim>\<open>src/cmds/mmap.c\<close>. \<open>Mmap_Tool\<close>: slots, commands and scripts over files that devices
    share (record \<open>mm_state\<close>). \<open>Mmap_Spec\<close>: the invariant of the slots and which accesses stay in the mapping.
  \<^item> \<^emph>\<open>Stream tester\<close>, \<^verbatim>\<open>src/cmds/isostream.c\<close>, in \<open>Isostream\<close>: the server's connections and processes, the
    client's measurements and reconnections (record \<open>iso_client\<close>), the command line.
  \<^item> \<^emph>\<open>Network usage\<close>, \<^verbatim>\<open>src/cmds/netusage.c\<close>, in \<open>Netusage\<close>: netlink requests and responses, the rates, the main
    loop.
  \<^item> \<^emph>\<open>DHCP taxonomy\<close>, \<^verbatim>\<open>src/cmds/dhcpvendortax.c\<close> and \<^verbatim>\<open>src/cmds/dhcpnametax.c\<close>, in \<open>Dhcp_Tax\<close>: devices by their vendor class or host
    name. \<open>Posix_Regex\<close>: the regular expressions of the C library as far as they are used.

  \<^bold>\<open>How the code is modelled.\<close> A struct is a record with its field names, an enumeration a datatype,
  an unsigned integer whose width matters a word; an \<open>int\<close> is an integer with the conversions and
  overflows of the source written out. A memory block is a byte list, and every access is checked:
  the value \<open>None\<close> of an operation is undefined behaviour, so that a theorem with a result \<open>Some\<close> is
  also a theorem on memory safety. Error codes, \<open>exit\<close> and \<open>NULL\<close> are values. What the system answers
  (reads, clocks, allocation, devices, the results of \<open>ioctl\<close>) is an argument: a list of events, a
  function, or a record of functions whose documented behaviour is a named hypothesis (\<open>zlib_ok\<close>,
  \<open>callbacks_ok\<close>, \<open>hmx_ok\<close>, \<open>digest_ok\<close>, \<open>device_ok\<close>, \<open>dump_ok\<close>, the locales of the flash). The hypotheses have instances in the theories.

  \<^bold>\<open>What is shown.\<close>

  \<^item> System variables: saving and loading are inverse; an interrupted save leaves the old or the new
    variables; a damaged copy is recovered; a sequence of settings is a sequence of map updates; a
    value that was set survives a restart of the tool.
  \<^item> Log filter: what is written, its own notices apart, never exceeds the rate of its buckets; with limits
    up to a gigabyte, where no refill overflows, the program stays inside its buffers and writes well-formed
    lines for any input and signals; the lines do not depend on how the input was cut into reads.
  \<^item> Log uploader: a sequence of uploads loses no record without saying so, and each upload is the text
    of the specification; the collector stays in its buffers when the line buffer is terminated and reads leave
    room in it; the counter moves only after an upload; MAC addresses are rewritten to a normal form; no heap block leaks or is used after its release; compression terminates and stays
    inside the buffer.
  \<^item> Transport stream checker: a whole run with a timeout counts exactly the packets that an undamaged stream has
    lost after the warm-up, and its exit status says whether there were any; a damaged packet is recognised; without a timeout the loop
    stalls.
  \<^item> NVRAM tool: printing and parsing are inverse for each format; what was written is read back; a
    refused write leaves the store alone; a value of the maximal length overruns the reader.
  \<^item> GPIO mailbox: as long as files can be read and written, no file content or pin driver makes the loop fault;
    the fan follows the rule of requests and temperatures; the file of the reset button says for how long it has
    been held; a number is replaced whole for its readers; at the end the light is red.
  \<^item> Audio: the decoder is IMA ADPCM where its differences fit in 16 bits and no sample reaches the lower limit, which it
    has one higher; it replays lost packets, and stays in its tables exactly for the inputs described.
  \<^item> Signatures: the text has harmless characters only and is the documented signature, cut to its buffer, for MCS sets of up to
    16 bits, beyond which the code drops bits; which packets make the program read past them. The anonymiser overwrites names and addresses and nothing else, keeps
    every signature, and replaces the capture whole or not at all.
  \<^item> Identifiers: the same six letters as in the logs for the same key and address.
  \<^item> Memory access: scripts keep the invariant of slots and descriptors, with a mapping inside its file for every open slot
    whose range can be mapped; a store is seen through every
    slot that maps the same bytes; a dump ends exactly when its range is mapped; a failed mapping is
    taken for an open slot.
  \<^item> Stream tester: the server keeps below the rate and does not oversleep, its children stay below the
    limit; the client's statistics are those of the offsets it measured; both agree on the request.
  \<^item> Network usage: the parser of responses inverts their encoding; every sample that a round of about a second stores is
    the growth of the counters over its time, across their wrap-around, and the printed ones are these if the arrays
    of the loop's block keep their contents.
  \<^item> DHCP taxonomy: the line printed is the label and harmless characters, whatever the client sent; printers are
    recognised by the fields of their vendor class.

  \<^bold>\<open>Loops and fuel.\<close> Loops over data are recursive functions with a termination proof. A loop that waits
  for the outside world runs over a finite list of events, and its result says whether it ended or is
  still waiting; theorems hold for all lists. The loops whose end depends on a well-formed heap, on zlib
  or on the extent of a mapping (\<open>free_kv_pairs\<close>, \<open>deflate_loop\<close>, \<open>hexdump_loop\<close>) are partial functions, and that
  they return is part of the theorems about them. No fuel is used.

  \<^bold>\<open>Not modelled.\<close> The texts of usage and error messages on standard error (except where a program
  keeps them), floating point rates in printed statistics, the truncation of lengths above 4 GB in the calls of zlib, the HTTP upload (\<open>upload.c\<close>), and
  allocation failure where a section says so. Of the repository: programs that are mostly system
  calls or register accesses (\<^verbatim>\<open>src/diags\<close>, the Broadcom and Optimus files of \<^verbatim>\<open>src/gpio-mailbox\<close>, \<^verbatim>\<open>src/cryptdev\<close>, network
  and process tools of \<^verbatim>\<open>src/cmds\<close>), the C++ code (\<^verbatim>\<open>src/base\<close>, \<^verbatim>\<open>src/speedtest\<close>, \<^verbatim>\<open>src/sysmgr\<close>), the
  Python programs and the test frameworks.

  \<^bold>\<open>Candidates for extension.\<close> The disk benchmark (\<^verbatim>\<open>src/cmds/diskbench.c\<close>), the Bluetooth beacons (\<^verbatim>\<open>src/cmds/ibeacon.c\<close>,
  \<^verbatim>\<open>src/cmds/eddystone.c\<close>) and the Broadcom drivers of the GPIO mailbox.
\<close>

end
